(* ===== verification/Prelude.thy ===== *)
theory Prelude
  imports "HOL-Library.Word" "HOL-Library.Finite_Map" "HOL-Library.Monad_Syntax"
    "HOL-Library.Multiset"
begin

text \<open>
  Shared vocabulary of the development: the names of Go's types, the reading of Go's
  run-time panics, and the generic lemmas on words, options, lists and finite maps that
  the components use.

  \<^item> uint64 is \<^typ>\<open>64 word\<close>: addition and subtraction wrap, comparison is unsigned.
    Go's int (64 bits, used for ticks, slice lengths and buffer positions) is
    \<open>int\<close> or \<open>nat\<close> where it cannot overflow, and a word where it can.
  \<^item> A Go panic (an explicit panic, logger.Panicf, a nil dereference, an index out of
    range) is the value None of an option; a function that cannot panic has no option.
    For the one loop of the program that need not end, None also covers divergence.
    Error values that Go returns are ordinary values of an error datatype.
  \<^item> A Go map is a finite map \<^typ>\<open>('a, 'b) fmap\<close>; a map used as a set of ids is
    \<^typ>\<open>'a fset option\<close>, where None is Go's nil map: reading it is reading the empty
    map, writing to it panics.
\<close>

type_synonym u64 = "64 word"
type_synonym u8 = "8 word"
type_synonym bytes = "u8 list"

text \<open>Collections of rewrite rules filled in by the component theories.\<close>

named_theorems go_defs \<open>definitions unfolded to evaluate a closed term\<close>

section \<open>Panics\<close>

definition panic_if :: "bool \<Rightarrow> unit option" where
  "panic_if b = (if b then None else Some ())"

lemma panic_if_Some [simp]: "panic_if b = Some u \<longleftrightarrow> \<not> b"
  by (simp add: panic_if_def)

lemma panic_if_None [simp]: "panic_if b = None \<longleftrightarrow> b"
  by (simp add: panic_if_def)

lemma panic_if_False [simp]: "panic_if False = Some ()"
  by (simp add: panic_if_def)

lemma panic_if_True [simp]: "panic_if True = None"
  by (simp add: panic_if_def)

lemma bind_Some_conv: "Option.bind m f = Some y \<longleftrightarrow> (\<exists>x. m = Some x \<and> f x = Some y)"
  by (cases m) auto

lemma bind_SomeE [elim!]:
  assumes "Option.bind m f = Some y"
  obtains x where "m = Some x" and "f x = Some y"
  using assms by (cases m) auto

text \<open>A slice read: out of range is a panic.\<close>

definition idx :: "'a list \<Rightarrow> nat \<Rightarrow> 'a option" where
  "idx xs i = (if i < length xs then Some (xs ! i) else None)"

lemma idx_Some [simp]: "idx xs i = Some x \<longleftrightarrow> i < length xs \<and> xs ! i = x"
  by (auto simp: idx_def)

lemma idx_None [simp]: "idx xs i = None \<longleftrightarrow> length xs \<le> i"
  by (auto simp: idx_def)

text \<open>
  A slice expression \<open>xs[lo:hi]\<close> with Go's bounds check (against the length; the model
  has no spare capacity).
\<close>

definition slice_of :: "'a list \<Rightarrow> nat \<Rightarrow> nat \<Rightarrow> 'a list option" where
  "slice_of xs lo hi =
     (if lo \<le> hi \<and> hi \<le> length xs then Some (take (hi - lo) (drop lo xs)) else None)"

lemma slice_of_Some [simp]:
  "slice_of xs lo hi = Some ys \<longleftrightarrow> lo \<le> hi \<and> hi \<le> length xs \<and> ys = take (hi - lo) (drop lo xs)"
  by (auto simp: slice_of_def)

section \<open>Words\<close>

definition maxU64 :: u64 where
  "maxU64 = - 1"

lemma le_maxU64 [simp]: "(x :: u64) \<le> maxU64"
  by (simp add: maxU64_def)

lemma unat_lt_2_64 [simp]: "unat (x :: u64) < 18446744073709551616"
  using unsigned_less [of x] by simp

lemma unat_plus_small:
  assumes "unat (x :: u64) + unat y < 18446744073709551616"
  shows "unat (x + y) = unat x + unat y"
  using assms by (simp add: unat_word_ariths)

lemma unat_plus_one:
  assumes "(x :: u64) \<noteq> - 1"
  shows "unat (x + 1) = unat x + 1"
proof -
  from assms have "1 + x \<noteq> 0" by (metis add_eq_0_iff minus_equation_iff)
  then have "unat (1 + x) = Suc (unat x)" by (rule unatSuc)
  then show ?thesis by (simp add: add.commute)
qed

lemma unat_minus_le:
  assumes "(y :: u64) \<le> x"
  shows "unat (x - y) = unat x - unat y"
  using assms by (rule unat_sub)

lemma unat_of_nat_small:
  assumes "n < 18446744073709551616"
  shows "unat (word_of_nat n :: u64) = n"
  using assms by (simp add: unat_of_nat)

lemma word_eq_nat: "(x :: u64) = y \<longleftrightarrow> unat x = unat y"
  by (simp add: word_unat_eq_iff)

lemmas word_to_nat = word_le_nat_alt word_less_nat_alt word_eq_nat

text \<open>Comparisons of word numerals with 0 and 1, which simp leaves open.\<close>

lemma word_numeral_le_one [simp]:
  "((numeral n :: u64) \<le> 1) \<longleftrightarrow> unat (numeral n :: u64) \<le> 1"
  by (simp add: word_le_nat_alt)

text \<open>Go's min and max of package raft and of package tracker.\<close>

definition go_min :: "u64 \<Rightarrow> u64 \<Rightarrow> u64" where
  "go_min a b = (if a > b then b else a)"

definition go_max :: "u64 \<Rightarrow> u64 \<Rightarrow> u64" where
  "go_max a b = (if a > b then a else b)"

lemma go_min_eq [simp]: "go_min = min"
  by (intro ext) (auto simp: go_min_def min_def)

lemma go_max_eq [simp]: "go_max = max"
  by (intro ext) (auto simp: go_max_def max_def)

lemma unat_min: "unat (min (a :: u64) b) = min (unat a) (unat b)"
  by (simp add: min_def word_le_nat_alt)

lemma unat_max: "unat (max (a :: u64) b) = max (unat a) (unat b)"
  by (simp add: max_def word_le_nat_alt)

section \<open>Maps used as sets of ids\<close>

type_synonym idmap = "u64 fset option"

definition ids_of :: "idmap \<Rightarrow> u64 fset" where
  "ids_of m = (case m of None \<Rightarrow> {||} | Some s \<Rightarrow> s)"

lemma ids_of_simps [simp]: "ids_of None = {||}" "ids_of (Some s) = s"
  by (simp_all add: ids_of_def)

text \<open>\<open>m[id] = struct{}{}\<close> and \<open>delete(m, id)\<close>.\<close>

definition map_put :: "idmap \<Rightarrow> u64 \<Rightarrow> idmap option" where
  "map_put m i = (case m of None \<Rightarrow> None | Some s \<Rightarrow> Some (Some (finsert i s)))"

definition map_del :: "idmap \<Rightarrow> u64 \<Rightarrow> idmap" where
  "map_del m i = map_option (\<lambda>s. s |-| {|i|}) m"

lemma ids_of_map_put: "map_put m i = Some m' \<Longrightarrow> ids_of m' = finsert i (ids_of m)"
  by (auto simp: map_put_def split: option.splits)

lemma ids_of_map_del [simp]: "ids_of (map_del m i) = ids_of m |-| {|i|}"
  by (cases m) (auto simp: map_del_def)

text \<open>The keys of a map in increasing order, the order in which the code visits them.\<close>

definition sorted_keys :: "u64 fset \<Rightarrow> u64 list" where
  "sorted_keys s = sorted_list_of_fset s"

lemma set_sorted_keys [simp]: "set (sorted_keys s) = fset s"
  by (simp add: sorted_keys_def)

lemma distinct_sorted_keys [simp]: "distinct (sorted_keys s)"
  by (simp add: sorted_keys_def sorted_list_of_fset.rep_eq)

lemma sorted_sorted_keys [simp]: "sorted (sorted_keys s)"
  by (simp add: sorted_keys_def sorted_list_of_fset.rep_eq)

lemma length_sorted_keys [simp]: "length (sorted_keys s) = fcard s"
  by (simp add: sorted_keys_def sorted_list_of_fset.rep_eq fcard.rep_eq)

section \<open>Loops over a list that may panic\<close>

fun foldM :: "('a \<Rightarrow> 's \<Rightarrow> 's option) \<Rightarrow> 'a list \<Rightarrow> 's \<Rightarrow> 's option" where
  "foldM f [] s = Some s"
| "foldM f (x # xs) s = Option.bind (f x s) (foldM f xs)"

lemma foldM_invariant:
  assumes "foldM f xs s = Some s'" and "P s"
    and "\<And>x s s'. x \<in> set xs \<Longrightarrow> P s \<Longrightarrow> f x s = Some s' \<Longrightarrow> P s'"
  shows "P s'"
  using assms
proof (induction xs arbitrary: s)
  case (Cons x xs)
  then obtain t where "f x s = Some t" "foldM f xs t = Some s'" by auto
  with Cons show ?case by (metis list.set_intros)
qed simp

lemma foldM_total:
  assumes "P s" and "\<And>x s. x \<in> set xs \<Longrightarrow> P s \<Longrightarrow> \<exists>s'. f x s = Some s' \<and> P s'"
  shows "\<exists>s'. foldM f xs s = Some s' \<and> P s'"
  using assms
proof (induction xs arbitrary: s)
  case (Cons x xs)
  then obtain t where "f x s = Some t" "P t" by (meson list.set_intros(1))
  with Cons show ?case by simp
qed simp

lemma foldM_relation:
  assumes "foldM f xs s = Some s'" and "\<And>s. R s s"
    and "\<And>s t u. R s t \<Longrightarrow> R t u \<Longrightarrow> R s u"
    and "\<And>x s s'. x \<in> set xs \<Longrightarrow> f x s = Some s' \<Longrightarrow> R s s'"
  shows "R s s'"
  using assms(1,4)
proof (induction xs arbitrary: s)
  case Nil
  with assms(2) show ?case by simp
next
  case (Cons x xs)
  then obtain t where "f x s = Some t" "foldM f xs t = Some s'" by auto
  with Cons.IH Cons.prems(2) have "R t s'" "R s t" by auto
  then show ?case using assms(3) by blast
qed

end
