(* ===== verification/Raftpb.thy ===== *)
theory Raftpb
  imports Prelude
begin

text \<open>
  Package raft/raftpb: the messages of raft.proto as records, with the generated Size
  methods (raft.pb.go), the configuration-change conversions (confchange.go) and
  ConfState.Equivalent (confstate.go); and the helpers of raft/util.go over them.

  Enumerations that are read from the wire (EntryType, ConfChangeType,
  ConfChangeTransition) are Go's int32, so that unknown values stay representable.
  \<open>Data\<close> and the \<open>Context\<close> of configuration changes are options because the generated
  code distinguishes nil from an empty slice there; the other byte slices are lists.
\<close>

section \<open>Messages\<close>

type_synonym int32 = "32 word"
type_synonym EntryType = int32
type_synonym ConfChangeType = int32
type_synonym ConfChangeTransition = int32

definition EntryNormal :: EntryType where "EntryNormal = 0"
definition EntryConfChange :: EntryType where "EntryConfChange = 1"
definition EntryConfChangeV2 :: EntryType where "EntryConfChangeV2 = 2"

definition ConfChangeAddNode :: ConfChangeType where "ConfChangeAddNode = 0"
definition ConfChangeRemoveNode :: ConfChangeType where "ConfChangeRemoveNode = 1"
definition ConfChangeUpdateNode :: ConfChangeType where "ConfChangeUpdateNode = 2"
definition ConfChangeAddLearnerNode :: ConfChangeType where "ConfChangeAddLearnerNode = 3"

definition ConfChangeTransitionAuto :: ConfChangeTransition where
  "ConfChangeTransitionAuto = 0"
definition ConfChangeTransitionJointImplicit :: ConfChangeTransition where
  "ConfChangeTransitionJointImplicit = 1"
definition ConfChangeTransitionJointExplicit :: ConfChangeTransition where
  "ConfChangeTransitionJointExplicit = 2"

lemmas enum_defs =
  EntryNormal_def EntryConfChange_def EntryConfChangeV2_def
  ConfChangeAddNode_def ConfChangeRemoveNode_def ConfChangeUpdateNode_def
  ConfChangeAddLearnerNode_def ConfChangeTransitionAuto_def
  ConfChangeTransitionJointImplicit_def ConfChangeTransitionJointExplicit_def

datatype MessageType =
    MsgHup | MsgBeat | MsgProp | MsgApp | MsgAppResp | MsgVote | MsgVoteResp | MsgSnap
  | MsgHeartbeat | MsgHeartbeatResp | MsgUnreachable | MsgSnapStatus | MsgCheckQuorum
  | MsgTransferLeader | MsgTimeoutNow | MsgReadIndex | MsgReadIndexResp | MsgPreVote
  | MsgPreVoteResp

record entry =
  eTerm :: u64
  eIndex :: u64
  eType :: EntryType
  eData :: "bytes option"
  eXXX :: bytes

record ConfState =
  csVoters :: "u64 list"
  csLearners :: "u64 list"
  csVotersOutgoing :: "u64 list"
  csLearnersNext :: "u64 list"
  csAutoLeave :: bool

record SnapshotMetadata =
  smConfState :: ConfState
  smIndex :: u64
  smTerm :: u64

record Snapshot =
  sData :: bytes
  sMetadata :: SnapshotMetadata

record Message =
  mType :: MessageType
  mTo :: u64
  mFrom :: u64
  mTerm :: u64
  mLogTerm :: u64
  mIndex :: u64
  mEntries :: "entry list"
  mCommit :: u64
  mSnapshot :: Snapshot
  mReject :: bool
  mRejectHint :: u64
  mContext :: bytes

record HardState =
  hsTerm :: u64
  hsVote :: u64
  hsCommit :: u64

record ConfChange =
  ccType :: ConfChangeType
  ccNodeID :: u64
  ccContext :: "bytes option"
  ccID :: u64
  ccXXX :: bytes

record ConfChangeSingle =
  csType :: ConfChangeType
  csNodeID :: u64
  csXXX :: bytes

record ConfChangeV2 =
  v2Transition :: ConfChangeTransition
  v2Changes :: "ConfChangeSingle list"
  v2Context :: "bytes option"
  v2XXX :: bytes

text \<open>The zero values, Go's \<open>T{}\<close>.\<close>

definition zeroEntry :: entry where
  "zeroEntry = \<lparr>eTerm = 0, eIndex = 0, eType = EntryNormal, eData = None, eXXX = []\<rparr>"

definition zeroConfState :: ConfState where
  "zeroConfState = \<lparr>csVoters = [], csLearners = [], csVotersOutgoing = [],
     csLearnersNext = [], csAutoLeave = False\<rparr>"

definition zeroSnapshot :: Snapshot where
  "zeroSnapshot = \<lparr>sData = [], sMetadata = \<lparr>smConfState = zeroConfState, smIndex = 0, smTerm = 0\<rparr>\<rparr>"

definition zeroMessage :: Message where
  "zeroMessage = \<lparr>mType = MsgHup, mTo = 0, mFrom = 0, mTerm = 0, mLogTerm = 0, mIndex = 0,
     mEntries = [], mCommit = 0, mSnapshot = zeroSnapshot, mReject = False, mRejectHint = 0,
     mContext = []\<rparr>"

definition emptyState :: HardState where
  "emptyState = \<lparr>hsTerm = 0, hsVote = 0, hsCommit = 0\<rparr>"

definition zeroConfChange :: ConfChange where
  "zeroConfChange = \<lparr>ccType = 0, ccNodeID = 0, ccContext = None, ccID = 0, ccXXX = []\<rparr>"

definition zeroConfChangeSingle :: ConfChangeSingle where
  "zeroConfChangeSingle = \<lparr>csType = 0, csNodeID = 0, csXXX = []\<rparr>"

definition zeroConfChangeV2 :: ConfChangeV2 where
  "zeroConfChangeV2 = \<lparr>v2Transition = 0, v2Changes = [], v2Context = None, v2XXX = []\<rparr>"

lemmas zero_defs = zeroEntry_def zeroConfState_def zeroSnapshot_def zeroMessage_def
  emptyState_def zeroConfChange_def zeroConfChangeSingle_def zeroConfChangeV2_def

text \<open>The bytes of an entry's Data, \<open>[]byte\<close> read as a list.\<close>

definition dataOf :: "entry \<Rightarrow> bytes" where
  "dataOf e = (case eData e of None \<Rightarrow> [] | Some d \<Rightarrow> d)"

section \<open>Sizes\<close>

lemma unat_drop_bit_7: "unat (drop_bit 7 (x :: u64)) = unat x div 128"
  by (simp add: drop_bit_eq_div unat_div)

text \<open>sovRaft: the number of bytes of the varint of \<open>x\<close>. Go's \<open>x >>= 7\<close> is
  \<open>drop_bit 7\<close>.\<close>

function sovRaft :: "u64 \<Rightarrow> nat" where
  "sovRaft x = (let x' = drop_bit 7 x in if x' = 0 then 1 else 1 + sovRaft x')"
  by pat_completeness auto
termination
proof (relation "measure unat")
  fix x x' :: u64
  assume x': "x' = drop_bit 7 x" "x' \<noteq> 0"
  then have "unat x' \<noteq> 0" by (simp add: unat_eq_0)
  with x' show "(x', x) \<in> measure unat" by (simp add: unat_drop_bit_7)
qed simp

declare sovRaft.simps [simp del]

text \<open>\<open>uint64(x)\<close> of an int32 sign-extends.\<close>

definition u64_of_int32 :: "int32 \<Rightarrow> u64" where
  "u64_of_int32 x = signed x"

definition bytes_field_size :: "bytes option \<Rightarrow> nat" where
  "bytes_field_size d = (case d of None \<Rightarrow> 0
     | Some b \<Rightarrow> 1 + length b + sovRaft (word_of_nat (length b)))"

definition Entry_Size :: "entry \<Rightarrow> nat" where
  "Entry_Size m =
     1 + sovRaft (u64_of_int32 (eType m)) + (1 + sovRaft (eTerm m)) + (1 + sovRaft (eIndex m))
     + bytes_field_size (eData m) + length (eXXX m)"

definition ConfChange_Size :: "ConfChange \<Rightarrow> nat" where
  "ConfChange_Size m =
     1 + sovRaft (ccID m) + (1 + sovRaft (u64_of_int32 (ccType m))) + (1 + sovRaft (ccNodeID m))
     + bytes_field_size (ccContext m) + length (ccXXX m)"

definition ConfChangeSingle_Size :: "ConfChangeSingle \<Rightarrow> nat" where
  "ConfChangeSingle_Size m =
     1 + sovRaft (u64_of_int32 (csType m)) + (1 + sovRaft (csNodeID m)) + length (csXXX m)"

definition ConfChangeV2_Size :: "ConfChangeV2 \<Rightarrow> nat" where
  "ConfChangeV2_Size m =
     1 + sovRaft (u64_of_int32 (v2Transition m))
     + sum_list (map (\<lambda>e. let l = ConfChangeSingle_Size e in 1 + l + sovRaft (word_of_nat l))
         (v2Changes m))
     + bytes_field_size (v2Context m) + length (v2XXX m)"

text \<open>PayloadSize of util.go.\<close>

definition PayloadSize :: "entry \<Rightarrow> nat" where
  "PayloadSize e = length (dataOf e)"

text \<open>limitSize: the longest non-empty prefix whose total size is within the limit.
  \<open>limitLen\<close> is the loop from position 1 on, \<open>n\<close> the bytes so far.\<close>

fun limitLen :: "u64 \<Rightarrow> nat \<Rightarrow> entry list \<Rightarrow> nat" where
  "limitLen maxSize n [] = 0"
| "limitLen maxSize n (e # es) =
     (let n' = n + Entry_Size e in
      if word_of_nat n' > maxSize then 0 else Suc (limitLen maxSize n' es))"

definition limitSize :: "entry list \<Rightarrow> u64 \<Rightarrow> entry list" where
  "limitSize ents maxSize =
     (case ents of
        [] \<Rightarrow> []
      | e # es \<Rightarrow> take (1 + limitLen maxSize (Entry_Size e) es) ents)"

section \<open>Message classes\<close>

definition IsLocalMsg :: "MessageType \<Rightarrow> bool" where
  "IsLocalMsg t \<longleftrightarrow> t = MsgHup \<or> t = MsgBeat \<or> t = MsgUnreachable \<or> t = MsgSnapStatus
     \<or> t = MsgCheckQuorum"

definition IsResponseMsg :: "MessageType \<Rightarrow> bool" where
  "IsResponseMsg t \<longleftrightarrow> t = MsgAppResp \<or> t = MsgVoteResp \<or> t = MsgHeartbeatResp
     \<or> t = MsgUnreachable \<or> t = MsgPreVoteResp"

definition voteRespMsgType :: "MessageType \<Rightarrow> MessageType option" where
  "voteRespMsgType t =
     (case t of
        MsgVote \<Rightarrow> Some MsgVoteResp
      | MsgPreVote \<Rightarrow> Some MsgPreVoteResp
      | _ \<Rightarrow> None)"

definition isHardStateEqual :: "HardState \<Rightarrow> HardState \<Rightarrow> bool" where
  "isHardStateEqual a b \<longleftrightarrow> hsTerm a = hsTerm b \<and> hsVote a = hsVote b \<and> hsCommit a = hsCommit b"

definition IsEmptyHardState :: "HardState \<Rightarrow> bool" where
  "IsEmptyHardState st = isHardStateEqual st emptyState"

definition IsEmptySnap :: "Snapshot \<Rightarrow> bool" where
  "IsEmptySnap sp \<longleftrightarrow> smIndex (sMetadata sp) = 0"

section \<open>Configuration changes\<close>

definition ConfChange_AsV2 :: "ConfChange \<Rightarrow> ConfChangeV2" where
  "ConfChange_AsV2 c =
     zeroConfChangeV2\<lparr>
       v2Changes := [zeroConfChangeSingle\<lparr>csType := ccType c, csNodeID := ccNodeID c\<rparr>],
       v2Context := ccContext c\<rparr>"

text \<open>The interface ConfChangeI: a legacy or a V2 change.\<close>

datatype ConfChangeI = V1 ConfChange | V2 ConfChangeV2

fun AsV2 :: "ConfChangeI \<Rightarrow> ConfChangeV2" where
  "AsV2 (V1 c) = ConfChange_AsV2 c"
| "AsV2 (V2 c) = c"

fun AsV1 :: "ConfChangeI \<Rightarrow> ConfChange \<times> bool" where
  "AsV1 (V1 c) = (c, True)"
| "AsV1 (V2 c) = (zeroConfChange, False)"

text \<open>EnterJoint returns (autoLeave, ok) and panics on an unknown transition.\<close>

definition EnterJoint :: "ConfChangeV2 \<Rightarrow> (bool \<times> bool) option" where
  "EnterJoint c =
     (if v2Transition c \<noteq> ConfChangeTransitionAuto \<or> length (v2Changes c) > 1 then
        (if v2Transition c = ConfChangeTransitionAuto then Some (True, True)
         else if v2Transition c = ConfChangeTransitionJointImplicit then Some (True, True)
         else if v2Transition c = ConfChangeTransitionJointExplicit then Some (False, True)
         else None)
      else Some (False, False))"

text \<open>LeaveJoint: the change is zero but for its Context (proto.Equal compares every field
  and the unrecognized bytes).\<close>

definition LeaveJoint :: "ConfChangeV2 \<Rightarrow> bool" where
  "LeaveJoint c \<longleftrightarrow> (let cpy = c\<lparr>v2Context := None\<rparr> in cpy = zeroConfChangeV2)"

lemma LeaveJoint_iff:
  "LeaveJoint c \<longleftrightarrow> v2Transition c = 0 \<and> v2Changes c = [] \<and> v2XXX c = []"
  by (cases c) (auto simp: LeaveJoint_def zeroConfChangeV2_def)

text \<open>ConfState.Equivalent: equal after sorting (True for the nil error).\<close>

definition ConfState_Equivalent :: "ConfState \<Rightarrow> ConfState \<Rightarrow> bool" where
  "ConfState_Equivalent a b =
     (let s = (\<lambda>cs. cs\<lparr>csVoters := sort (csVoters cs), csLearners := sort (csLearners cs),
                csVotersOutgoing := sort (csVotersOutgoing cs),
                csLearnersNext := sort (csLearnersNext cs)\<rparr>)
      in s a = s b)"

definition assertConfStatesEquivalent :: "ConfState \<Rightarrow> ConfState \<Rightarrow> unit option" where
  "assertConfStatesEquivalent a b = panic_if (\<not> ConfState_Equivalent a b)"

section \<open>Facts\<close>

lemma sovRaft_pos [simp]: "0 < sovRaft x"
  by (subst sovRaft.simps) (simp add: Let_def)

lemma Entry_Size_pos [simp]: "0 < Entry_Size e"
  by (simp add: Entry_Size_def)

lemma limitSize_Nil [simp]: "limitSize [] m = []"
  by (simp add: limitSize_def)

lemma limitSize_eq_Nil [simp]: "limitSize ents m = [] \<longleftrightarrow> ents = []"
  by (auto simp: limitSize_def split: list.splits)

lemma limitSize_take: "\<exists>n. limitSize ents m = take n ents"
  by (cases ents) (auto simp: limitSize_def simp del: take_Suc_Cons)

lemma limitSize_hd: "ents \<noteq> [] \<Longrightarrow> hd (limitSize ents m) = hd ents"
  by (auto simp: limitSize_def split: list.splits)

lemma set_limitSize: "set (limitSize ents m) \<subseteq> set ents"
  using limitSize_take [of ents m] by (auto dest: in_set_takeD)

lemma limitSize_last_index:
  "limitSize ents m \<noteq> [] \<Longrightarrow> last (limitSize ents m) \<in> set ents"
  using set_limitSize [of ents m] last_in_set by blast

end
