(* ===== verification/Storage.thy ===== *)
theory Storage
  imports Raftpb
begin

text \<open>
  raft/storage.go: the errors of the Storage interface and its in-memory implementation,
  MemoryStorage, which keeps a dummy entry at position 0 for the last compacted index.
  A method returns an option for the panics (an empty entry slice, an index out of range,
  logger.Panicf) of a sum for the returned error. Locking is not modelled: each method holds
  the mutex for its whole body.
\<close>

datatype StorageErr =
  ErrCompacted | ErrSnapOutOfDate | ErrUnavailable | ErrSnapshotTemporarilyUnavailable

record MemoryStorage =
  msHardState :: HardState
  msSnapshot :: Snapshot
  msEnts :: "entry list"

definition NewMemoryStorage :: MemoryStorage where
  "NewMemoryStorage = \<lparr>msHardState = emptyState, msSnapshot = zeroSnapshot, msEnts = [zeroEntry]\<rparr>"

definition MS_InitialState :: "MemoryStorage \<Rightarrow> HardState \<times> ConfState" where
  "MS_InitialState ms = (msHardState ms, smConfState (sMetadata (msSnapshot ms)))"

definition MS_SetHardState :: "HardState \<Rightarrow> MemoryStorage \<Rightarrow> MemoryStorage" where
  "MS_SetHardState st ms = ms\<lparr>msHardState := st\<rparr>"

text \<open>\<open>ms.ents[0].Index\<close> panics on an empty slice.\<close>

definition ms_offset :: "MemoryStorage \<Rightarrow> u64 option" where
  "ms_offset ms = map_option eIndex (idx (msEnts ms) 0)"

definition ms_lastIndex :: "MemoryStorage \<Rightarrow> u64 option" where
  "ms_lastIndex ms = do { off \<leftarrow> ms_offset ms; Some (off + word_of_nat (length (msEnts ms)) - 1) }"

definition ms_firstIndex :: "MemoryStorage \<Rightarrow> u64 option" where
  "ms_firstIndex ms = do { off \<leftarrow> ms_offset ms; Some (off + 1) }"

definition MS_Entries ::
  "MemoryStorage \<Rightarrow> u64 \<Rightarrow> u64 \<Rightarrow> u64 \<Rightarrow> (StorageErr + entry list) option" where
  "MS_Entries ms lo hi maxSize =
     do {
       off \<leftarrow> ms_offset ms;
       if lo \<le> off then Some (Inl ErrCompacted)
       else do {
         li \<leftarrow> ms_lastIndex ms;
         panic_if (hi > li + 1);
         if length (msEnts ms) = 1 then Some (Inl ErrUnavailable)
         else do {
           ents \<leftarrow> slice_of (msEnts ms) (unat (lo - off)) (unat (hi - off));
           Some (Inr (limitSize ents maxSize))
         }
       }
     }"

text \<open>\<open>int(i-offset) >= len(ms.ents)\<close> compares as signed 64-bit numbers.\<close>

definition MS_Term :: "MemoryStorage \<Rightarrow> u64 \<Rightarrow> (StorageErr + u64) option" where
  "MS_Term ms i =
     do {
       off \<leftarrow> ms_offset ms;
       if i < off then Some (Inl ErrCompacted)
       else if sint (i - off) \<ge> int (length (msEnts ms)) then Some (Inl ErrUnavailable)
       else do { e \<leftarrow> idx (msEnts ms) (unat (i - off)); Some (Inr (eTerm e)) }
     }"

definition MS_LastIndex :: "MemoryStorage \<Rightarrow> (StorageErr + u64) option" where
  "MS_LastIndex ms = map_option Inr (ms_lastIndex ms)"

definition MS_FirstIndex :: "MemoryStorage \<Rightarrow> (StorageErr + u64) option" where
  "MS_FirstIndex ms = map_option Inr (ms_firstIndex ms)"

definition MS_Snapshot :: "MemoryStorage \<Rightarrow> StorageErr + Snapshot" where
  "MS_Snapshot ms = Inr (msSnapshot ms)"

definition MS_ApplySnapshot :: "Snapshot \<Rightarrow> MemoryStorage \<Rightarrow> StorageErr option \<times> MemoryStorage" where
  "MS_ApplySnapshot snap ms =
     (let msIndex = smIndex (sMetadata (msSnapshot ms));
          snapIndex = smIndex (sMetadata snap)
      in if msIndex \<ge> snapIndex then (Some ErrSnapOutOfDate, ms)
         else (None, ms\<lparr>msSnapshot := snap,
           msEnts := [zeroEntry\<lparr>eTerm := smTerm (sMetadata snap), eIndex := snapIndex\<rparr>]\<rparr>))"

definition MS_CreateSnapshot ::
  "u64 \<Rightarrow> ConfState option \<Rightarrow> bytes \<Rightarrow> MemoryStorage
    \<Rightarrow> ((StorageErr + Snapshot) \<times> MemoryStorage) option" where
  "MS_CreateSnapshot i cs data ms =
     (if i \<le> smIndex (sMetadata (msSnapshot ms)) then Some (Inl ErrSnapOutOfDate, ms)
      else do {
        off \<leftarrow> ms_offset ms;
        li \<leftarrow> ms_lastIndex ms;
        panic_if (i > li);
        e \<leftarrow> idx (msEnts ms) (unat (i - off));
        let meta = (sMetadata (msSnapshot ms))\<lparr>smIndex := i, smTerm := eTerm e\<rparr>;
        let meta = (case cs of None \<Rightarrow> meta | Some c \<Rightarrow> meta\<lparr>smConfState := c\<rparr>);
        let snap = (msSnapshot ms)\<lparr>sMetadata := meta, sData := data\<rparr>;
        Some (Inr snap, ms\<lparr>msSnapshot := snap\<rparr>)
      })"

definition MS_Compact :: "u64 \<Rightarrow> MemoryStorage \<Rightarrow> (StorageErr option \<times> MemoryStorage) option" where
  "MS_Compact compactIndex ms =
     do {
       off \<leftarrow> ms_offset ms;
       if compactIndex \<le> off then Some (Some ErrCompacted, ms)
       else do {
         li \<leftarrow> ms_lastIndex ms;
         panic_if (compactIndex > li);
         let i = unat (compactIndex - off);
         e \<leftarrow> idx (msEnts ms) i;
         rest \<leftarrow> slice_of (msEnts ms) (i + 1) (length (msEnts ms));
         Some (None, ms\<lparr>msEnts := zeroEntry\<lparr>eIndex := eIndex e, eTerm := eTerm e\<rparr> # rest\<rparr>)
       }
     }"

definition MS_Append :: "entry list \<Rightarrow> MemoryStorage \<Rightarrow> MemoryStorage option" where
  "MS_Append entries ms =
     (if entries = [] then Some ms
      else do {
        first \<leftarrow> ms_firstIndex ms;
        let e0 = eIndex (hd entries);
        let lst = e0 + word_of_nat (length entries) - 1;
        if lst < first then Some ms
        else do {
          entries \<leftarrow> (if first > e0 then slice_of entries (unat (first - e0)) (length entries)
                      else Some entries);
          e \<leftarrow> idx entries 0;
          off0 \<leftarrow> ms_offset ms;
          let off = eIndex e - off0;
          let len = word_of_nat (length (msEnts ms));
          if len > off then
            do { keep \<leftarrow> slice_of (msEnts ms) 0 (unat off); Some (ms\<lparr>msEnts := keep @ entries\<rparr>) }
          else if len = off then Some (ms\<lparr>msEnts := msEnts ms @ entries\<rparr>)
          else None
        }
      })"

lemmas storage_defs = NewMemoryStorage_def MS_InitialState_def MS_SetHardState_def ms_offset_def
  ms_lastIndex_def ms_firstIndex_def MS_Entries_def MS_Term_def MS_LastIndex_def
  MS_FirstIndex_def MS_Snapshot_def MS_ApplySnapshot_def MS_CreateSnapshot_def MS_Compact_def
  MS_Append_def

end
