(* ===== verification/Unstable.thy ===== *)
theory Unstable
  imports Raftpb
begin

text \<open>
  raft/log_unstable.go: the entries and the snapshot that are not in stable storage yet.
  \<open>uEntries ! i\<close> has raft log position \<open>uOffset + i\<close>.
\<close>

record unstable =
  uSnapshot :: "Snapshot option"
  uEntries :: "entry list"
  uOffset :: u64

definition maybeFirstIndex :: "unstable \<Rightarrow> u64 option" where
  "maybeFirstIndex u = (case uSnapshot u of Some s \<Rightarrow> Some (smIndex (sMetadata s) + 1) | None \<Rightarrow> None)"

definition maybeLastIndex :: "unstable \<Rightarrow> u64 option" where
  "maybeLastIndex u =
     (let l = length (uEntries u) in
      if l \<noteq> 0 then Some (uOffset u + word_of_nat l - 1)
      else case uSnapshot u of Some s \<Rightarrow> Some (smIndex (sMetadata s)) | None \<Rightarrow> None)"

text \<open>maybeTerm: the outer option is the panic of the slice access, the inner one the
  code's (term, ok).\<close>

definition maybeTerm :: "unstable \<Rightarrow> u64 \<Rightarrow> u64 option option" where
  "maybeTerm u i =
     (if i < uOffset u then
        (case uSnapshot u of
           Some s \<Rightarrow> if smIndex (sMetadata s) = i then Some (Some (smTerm (sMetadata s))) else Some None
         | None \<Rightarrow> Some None)
      else case maybeLastIndex u of
        None \<Rightarrow> Some None
      | Some lst \<Rightarrow>
          if i > lst then Some None
          else do { e \<leftarrow> idx (uEntries u) (unat (i - uOffset u)); Some (Some (eTerm e)) })"

text \<open>shrinkEntriesArray reallocates the backing array: the slice's value is the same.\<close>

definition shrinkEntriesArray :: "unstable \<Rightarrow> unstable" where
  "shrinkEntriesArray u = (if length (uEntries u) = 0 then u\<lparr>uEntries := []\<rparr> else u)"

definition unstable_stableTo :: "u64 \<Rightarrow> u64 \<Rightarrow> unstable \<Rightarrow> unstable option" where
  "unstable_stableTo i t u =
     do {
       r \<leftarrow> maybeTerm u i;
       case r of
         None \<Rightarrow> Some u
       | Some gt \<Rightarrow>
           if gt = t \<and> i \<ge> uOffset u then
             do {
               es \<leftarrow> slice_of (uEntries u) (unat (i + 1 - uOffset u)) (length (uEntries u));
               Some (shrinkEntriesArray (u\<lparr>uEntries := es, uOffset := i + 1\<rparr>))
             }
           else Some u
     }"

definition unstable_stableSnapTo :: "u64 \<Rightarrow> unstable \<Rightarrow> unstable" where
  "unstable_stableSnapTo i u =
     (case uSnapshot u of
        Some s \<Rightarrow> if smIndex (sMetadata s) = i then u\<lparr>uSnapshot := None\<rparr> else u
      | None \<Rightarrow> u)"

definition unstable_restore :: "Snapshot \<Rightarrow> unstable \<Rightarrow> unstable" where
  "unstable_restore s u =
     u\<lparr>uOffset := smIndex (sMetadata s) + 1, uEntries := [], uSnapshot := Some s\<rparr>"

definition unstable_mustCheckOutOfBounds :: "unstable \<Rightarrow> u64 \<Rightarrow> u64 \<Rightarrow> unit option" where
  "unstable_mustCheckOutOfBounds u lo hi =
     do {
       panic_if (lo > hi);
       let upper = uOffset u + word_of_nat (length (uEntries u));
       panic_if (lo < uOffset u \<or> hi > upper)
     }"

definition unstable_slice :: "unstable \<Rightarrow> u64 \<Rightarrow> u64 \<Rightarrow> entry list option" where
  "unstable_slice u lo hi =
     do {
       unstable_mustCheckOutOfBounds u lo hi;
       slice_of (uEntries u) (unat (lo - uOffset u)) (unat (hi - uOffset u))
     }"

definition truncateAndAppend :: "entry list \<Rightarrow> unstable \<Rightarrow> unstable option" where
  "truncateAndAppend ents u =
     do {
       e \<leftarrow> idx ents 0;
       let after = eIndex e;
       if after = uOffset u + word_of_nat (length (uEntries u)) then
         Some (u\<lparr>uEntries := uEntries u @ ents\<rparr>)
       else if after \<le> uOffset u then
         Some (u\<lparr>uOffset := after, uEntries := ents\<rparr>)
       else do {
         keep \<leftarrow> unstable_slice u (uOffset u) after;
         Some (u\<lparr>uEntries := keep @ ents\<rparr>)
       }
     }"

lemmas unstable_defs = maybeFirstIndex_def maybeLastIndex_def maybeTerm_def shrinkEntriesArray_def
  unstable_stableTo_def unstable_stableSnapTo_def unstable_restore_def
  unstable_mustCheckOutOfBounds_def unstable_slice_def truncateAndAppend_def

end
