(* ===== verification/RaftLog.thy ===== *)
theory RaftLog
  imports Storage Unstable
begin

text \<open>
  raft/log.go: the raft log, stable storage below the unstable tail, with the committed and
  the applied position. The first part translates every method; the second relates it to an
  abstract log (a base index, the term of the base, a list of entries).
\<close>

record raftLog =
  rlStorage :: MemoryStorage
  rlUnstable :: unstable
  rlCommitted :: u64
  rlApplied :: u64
  rlMaxNextEntsSize :: u64

definition noLimit :: u64 where
  "noLimit = maxU64"

text \<open>An error of the storage that the code turns into a panic.\<close>

definition must :: "('e + 'a) option \<Rightarrow> 'a option" where
  "must r = (case r of Some (Inr x) \<Rightarrow> Some x | _ \<Rightarrow> None)"

lemma must_Some [simp]: "must r = Some x \<longleftrightarrow> r = Some (Inr x)"
  by (auto simp: must_def split: option.splits sum.splits)

definition newLogWithSize :: "MemoryStorage \<Rightarrow> u64 \<Rightarrow> raftLog option" where
  "newLogWithSize storage maxNextEntsSize =
     do {
       firstIndex \<leftarrow> must (MS_FirstIndex storage);
       lastIndex \<leftarrow> must (MS_LastIndex storage);
       Some \<lparr>rlStorage = storage,
         rlUnstable = \<lparr>uSnapshot = None, uEntries = [], uOffset = lastIndex + 1\<rparr>,
         rlCommitted = firstIndex - 1, rlApplied = firstIndex - 1,
         rlMaxNextEntsSize = maxNextEntsSize\<rparr>
     }"

definition newLog :: "MemoryStorage \<Rightarrow> raftLog option" where
  "newLog storage = newLogWithSize storage noLimit"

definition unstableEntries :: "raftLog \<Rightarrow> entry list" where
  "unstableEntries l = (if length (uEntries (rlUnstable l)) = 0 then [] else uEntries (rlUnstable l))"

definition firstIndex :: "raftLog \<Rightarrow> u64 option" where
  "firstIndex l =
     (case maybeFirstIndex (rlUnstable l) of
        Some i \<Rightarrow> Some i
      | None \<Rightarrow> must (MS_FirstIndex (rlStorage l)))"

definition lastIndex :: "raftLog \<Rightarrow> u64 option" where
  "lastIndex l =
     (case maybeLastIndex (rlUnstable l) of
        Some i \<Rightarrow> Some i
      | None \<Rightarrow> must (MS_LastIndex (rlStorage l)))"

definition raftLog_term :: "raftLog \<Rightarrow> u64 \<Rightarrow> (StorageErr + u64) option" where
  "raftLog_term l i =
     do {
       fi \<leftarrow> firstIndex l;
       let dummyIndex = fi - 1;
       li \<leftarrow> lastIndex l;
       if i < dummyIndex \<or> i > li then Some (Inr 0)
       else do {
         mt \<leftarrow> maybeTerm (rlUnstable l) i;
         case mt of
           Some t \<Rightarrow> Some (Inr t)
         | None \<Rightarrow> do {
             r \<leftarrow> MS_Term (rlStorage l) i;
             case r of
               Inr t \<Rightarrow> Some (Inr t)
             | Inl err \<Rightarrow> if err = ErrCompacted \<or> err = ErrUnavailable then Some (Inl err) else None
           }
       }
     }"

definition matchTerm :: "raftLog \<Rightarrow> u64 \<Rightarrow> u64 \<Rightarrow> bool option" where
  "matchTerm l i t =
     do {
       r \<leftarrow> raftLog_term l i;
       case r of Inl err \<Rightarrow> Some False | Inr t' \<Rightarrow> Some (t' = t)
     }"

text \<open>zeroTermOnErrCompacted, applied to the pair that term returns.\<close>

definition zeroTermOnErrCompacted :: "StorageErr + u64 \<Rightarrow> u64 option" where
  "zeroTermOnErrCompacted r =
     (case r of
        Inr t \<Rightarrow> Some t
      | Inl err \<Rightarrow> if err = ErrCompacted then Some 0 else None)"

definition lastTerm :: "raftLog \<Rightarrow> u64 option" where
  "lastTerm l = do { li \<leftarrow> lastIndex l; must (raftLog_term l li) }"

definition commitTo :: "u64 \<Rightarrow> raftLog \<Rightarrow> raftLog option" where
  "commitTo tocommit l =
     (if rlCommitted l < tocommit then
        do {
          li \<leftarrow> lastIndex l;
          panic_if (li < tocommit);
          Some (l\<lparr>rlCommitted := tocommit\<rparr>)
        }
      else Some l)"

definition appliedTo :: "u64 \<Rightarrow> raftLog \<Rightarrow> raftLog option" where
  "appliedTo i l =
     (if i = 0 then Some l
      else do {
        panic_if (rlCommitted l < i \<or> i < rlApplied l);
        Some (l\<lparr>rlApplied := i\<rparr>)
      })"

definition stableTo :: "u64 \<Rightarrow> u64 \<Rightarrow> raftLog \<Rightarrow> raftLog option" where
  "stableTo i t l =
     do { u \<leftarrow> unstable_stableTo i t (rlUnstable l); Some (l\<lparr>rlUnstable := u\<rparr>) }"

definition stableSnapTo :: "u64 \<Rightarrow> raftLog \<Rightarrow> raftLog" where
  "stableSnapTo i l = l\<lparr>rlUnstable := unstable_stableSnapTo i (rlUnstable l)\<rparr>"

definition raftLog_append :: "entry list \<Rightarrow> raftLog \<Rightarrow> (raftLog \<times> u64) option" where
  "raftLog_append ents l =
     (if length ents = 0 then do { li \<leftarrow> lastIndex l; Some (l, li) }
      else do {
        e \<leftarrow> idx ents 0;
        panic_if (eIndex e - 1 < rlCommitted l);
        u \<leftarrow> truncateAndAppend ents (rlUnstable l);
        let l = l\<lparr>rlUnstable := u\<rparr>;
        li \<leftarrow> lastIndex l;
        Some (l, li)
      })"

text \<open>The log line of findConflict reads the existing term, which can panic.\<close>

fun findConflict :: "raftLog \<Rightarrow> entry list \<Rightarrow> u64 option" where
  "findConflict l [] = Some 0"
| "findConflict l (ne # ents) =
     do {
       b \<leftarrow> matchTerm l (eIndex ne) (eTerm ne);
       if \<not> b then
         do {
           li \<leftarrow> lastIndex l;
           if eIndex ne \<le> li then
             do { r \<leftarrow> raftLog_term l (eIndex ne); _ \<leftarrow> zeroTermOnErrCompacted r; Some (eIndex ne) }
           else Some (eIndex ne)
         }
       else findConflict l ents
     }"

definition maybeAppend ::
  "u64 \<Rightarrow> u64 \<Rightarrow> u64 \<Rightarrow> entry list \<Rightarrow> raftLog \<Rightarrow> (raftLog \<times> u64 \<times> bool) option" where
  "maybeAppend index logTerm committed ents l =
     do {
       b \<leftarrow> matchTerm l index logTerm;
       if b then
         do {
           let lastnewi = index + word_of_nat (length ents);
           ci \<leftarrow> findConflict l ents;
           l \<leftarrow> (if ci = 0 then Some l
                 else if ci \<le> rlCommitted l then None
                 else do {
                   let off = index + 1;
                   es \<leftarrow> slice_of ents (unat (ci - off)) (length ents);
                   (l, _) \<leftarrow> raftLog_append es l;
                   Some l
                 });
           l \<leftarrow> commitTo (go_min committed lastnewi) l;
           Some (l, lastnewi, True)
         }
       else Some (l, 0, False)
     }"

definition raftLog_mustCheckOutOfBounds :: "raftLog \<Rightarrow> u64 \<Rightarrow> u64 \<Rightarrow> StorageErr option option" where
  "raftLog_mustCheckOutOfBounds l lo hi =
     do {
       panic_if (lo > hi);
       fi \<leftarrow> firstIndex l;
       if lo < fi then Some (Some ErrCompacted)
       else do {
         li \<leftarrow> lastIndex l;
         let len = li + 1 - fi;
         panic_if (lo < fi \<or> hi > fi + len);
         Some None
       }
     }"

definition raftLog_slice ::
  "raftLog \<Rightarrow> u64 \<Rightarrow> u64 \<Rightarrow> u64 \<Rightarrow> (StorageErr + entry list) option" where
  "raftLog_slice l lo hi maxSize =
     do {
       err \<leftarrow> raftLog_mustCheckOutOfBounds l lo hi;
       case err of
         Some e \<Rightarrow> Some (Inl e)
       | None \<Rightarrow>
           if lo = hi then Some (Inr [])
           else do {
             let offset = uOffset (rlUnstable l);
             stored \<leftarrow> (if lo < offset then
                 do {
                   r \<leftarrow> MS_Entries (rlStorage l) lo (go_min hi offset) maxSize;
                   case r of
                     Inl e \<Rightarrow> if e = ErrCompacted then Some (Inl e) else None
                   | Inr ents \<Rightarrow> Some (Inr (ents, word_of_nat (length ents) < go_min hi offset - lo))
                 }
               else Some (Inr ([], False)));
             case stored of
               Inl e \<Rightarrow> Some (Inl e)
             | Inr (ents, short) \<Rightarrow>
                 if short then Some (Inr ents)
                 else if hi > offset then
                   do {
                     us \<leftarrow> unstable_slice (rlUnstable l) (go_max lo offset) hi;
                     Some (Inr (limitSize (if length ents > 0 then ents @ us else us) maxSize))
                   }
                 else Some (Inr (limitSize ents maxSize))
           }
     }"

definition raftLog_entries :: "raftLog \<Rightarrow> u64 \<Rightarrow> u64 \<Rightarrow> (StorageErr + entry list) option" where
  "raftLog_entries l i maxsize =
     do {
       li \<leftarrow> lastIndex l;
       if i > li then Some (Inr [])
       else raftLog_slice l i (li + 1) maxsize
     }"

text \<open>allEntries tries again on ErrCompacted; None is a panic or endless retrying.\<close>

partial_function (option) allEntries :: "raftLog \<Rightarrow> entry list option" where
  "allEntries l =
     do {
       fi \<leftarrow> firstIndex l;
       r \<leftarrow> raftLog_entries l fi noLimit;
       case r of
         Inr ents \<Rightarrow> Some ents
       | Inl err \<Rightarrow> if err = ErrCompacted then allEntries l else None
     }"

declare allEntries.simps [code]

definition hasNextEnts :: "raftLog \<Rightarrow> bool option" where
  "hasNextEnts l =
     do {
       fi \<leftarrow> firstIndex l;
       let off = go_max (rlApplied l + 1) fi;
       Some (rlCommitted l + 1 > off)
     }"

definition nextEnts :: "raftLog \<Rightarrow> entry list option" where
  "nextEnts l =
     do {
       fi \<leftarrow> firstIndex l;
       let off = go_max (rlApplied l + 1) fi;
       if rlCommitted l + 1 > off then must (raftLog_slice l off (rlCommitted l + 1) (rlMaxNextEntsSize l))
       else Some []
     }"

definition raftLog_snapshot :: "raftLog \<Rightarrow> StorageErr + Snapshot" where
  "raftLog_snapshot l =
     (case uSnapshot (rlUnstable l) of
        Some s \<Rightarrow> Inr s
      | None \<Rightarrow> MS_Snapshot (rlStorage l))"

definition isUpToDate :: "raftLog \<Rightarrow> u64 \<Rightarrow> u64 \<Rightarrow> bool option" where
  "isUpToDate l lasti t =
     do {
       lt \<leftarrow> lastTerm l;
       if t > lt then Some True
       else if t = lt then do { li \<leftarrow> lastIndex l; Some (lasti \<ge> li) }
       else Some False
     }"

definition raftLog_maybeCommit :: "u64 \<Rightarrow> u64 \<Rightarrow> raftLog \<Rightarrow> (raftLog \<times> bool) option" where
  "raftLog_maybeCommit maxIndex t l =
     (if maxIndex > rlCommitted l then
        do {
          r \<leftarrow> raftLog_term l maxIndex;
          zt \<leftarrow> zeroTermOnErrCompacted r;
          if zt = t then do { l \<leftarrow> commitTo maxIndex l; Some (l, True) }
          else Some (l, False)
        }
      else Some (l, False))"

definition raftLog_restore :: "Snapshot \<Rightarrow> raftLog \<Rightarrow> raftLog" where
  "raftLog_restore s l =
     l\<lparr>rlCommitted := smIndex (sMetadata s), rlUnstable := unstable_restore s (rlUnstable l)\<rparr>"

end
