(* ===== verification/Quorum.thy ===== *)
theory Quorum
  imports Prelude
begin

text \<open>
  Package raft/quorum: majority configurations (majority.go), joint configurations
  (joint.go), the commit index they compute from the voters' acknowledged indexes and the
  result they compute from the votes. The locale \<open>quorum_rule\<close> is the contract of both:
  a family of quorums that grow and intersect, a VoteResult that says "won" for a quorum of
  yes votes and a CommittedIndex that is the largest index acknowledged by a quorum. Its
  lemmas (two candidates cannot both win, a winner's voters overlap every commit quorum, the
  commit index is monotone) hold for majority and joint configurations by interpretation.
\<close>

section \<open>Majority configurations\<close>

type_synonym MajorityConfig = idmap

datatype VoteResult = VotePending | VoteLost | VoteWon

text \<open>insertionSort: the inner loop walks down from position \<open>j\<close>, the outer loop
  takes the positions \<open>1, \<dots>, n - 1\<close>.\<close>

fun insertDown :: "u64 list \<Rightarrow> nat \<Rightarrow> u64 list" where
  "insertDown sl 0 = sl"
| "insertDown sl (Suc j) =
     (if sl ! Suc j < sl ! j
      then insertDown (sl[Suc j := sl ! j, j := sl ! Suc j]) j
      else sl)"

definition insertionSort :: "u64 list \<Rightarrow> u64 list" where
  "insertionSort sl = fold (\<lambda>i s. insertDown s i) [1..<length sl] sl"

text \<open>The loop that fills the slice from the right with the indexes observed; \<open>ids\<close> is
  the order in which the map is ranged over.\<close>

fun fillSrt :: "(u64 \<Rightarrow> u64 option) \<Rightarrow> u64 list \<Rightarrow> u64 list \<Rightarrow> int \<Rightarrow> u64 list" where
  "fillSrt l [] srt i = srt"
| "fillSrt l (x # ids) srt i =
     (case l x of
        Some v \<Rightarrow> fillSrt l ids (srt[nat i := v]) (i - 1)
      | None \<Rightarrow> fillSrt l ids srt i)"

definition CommittedIndex_on :: "u64 list \<Rightarrow> (u64 \<Rightarrow> u64 option) \<Rightarrow> u64" where
  "CommittedIndex_on ids l =
     (let n = length ids in
      if n = 0 then maxU64
      else let srt = insertionSort (fillSrt l ids (replicate n 0) (int n - 1));
               pos = n - (n div 2 + 1)
           in srt ! pos)"

definition Majority_CommittedIndex :: "MajorityConfig \<Rightarrow> (u64 \<Rightarrow> u64 option) \<Rightarrow> u64" where
  "Majority_CommittedIndex c l = CommittedIndex_on (sorted_keys (ids_of c)) l"

text \<open>VoteResult: the loop counts the voters that said no, said yes or are missing.\<close>

fun tallyLoop :: "(u64, bool) fmap \<Rightarrow> u64 list \<Rightarrow> nat \<times> nat \<times> nat \<Rightarrow> nat \<times> nat \<times> nat" where
  "tallyLoop votes [] acc = acc"
| "tallyLoop votes (x # ids) (ny0, ny1, missing) =
     (case fmlookup votes x of
        None \<Rightarrow> tallyLoop votes ids (ny0, ny1, missing + 1)
      | Some v \<Rightarrow> if v then tallyLoop votes ids (ny0, ny1 + 1, missing)
                  else tallyLoop votes ids (ny0 + 1, ny1, missing))"

definition Majority_VoteResult :: "MajorityConfig \<Rightarrow> (u64, bool) fmap \<Rightarrow> VoteResult" where
  "Majority_VoteResult c votes =
     (if fcard (ids_of c) = 0 then VoteWon
      else case tallyLoop votes (sorted_keys (ids_of c)) (0, 0, 0) of
        (ny0, ny1, missing) \<Rightarrow>
          (let q = fcard (ids_of c) div 2 + 1 in
           if q \<le> ny1 then VoteWon
           else if q \<le> ny1 + missing then VotePending
           else VoteLost))"

definition Majority_Slice :: "MajorityConfig \<Rightarrow> u64 list" where
  "Majority_Slice c = sorted_keys (ids_of c)"

section \<open>Joint configurations\<close>

text \<open>\<open>JointConfig [2]MajorityConfig\<close>: the incoming and the outgoing half.\<close>

type_synonym JointConfig = "MajorityConfig \<times> MajorityConfig"

definition Joint_IDs :: "JointConfig \<Rightarrow> u64 fset" where
  "Joint_IDs c = ids_of (fst c) |\<union>| ids_of (snd c)"

definition Joint_CommittedIndex :: "JointConfig \<Rightarrow> (u64 \<Rightarrow> u64 option) \<Rightarrow> u64" where
  "Joint_CommittedIndex c l =
     (let idx0 = Majority_CommittedIndex (fst c) l;
          idx1 = Majority_CommittedIndex (snd c) l
      in if idx0 < idx1 then idx0 else idx1)"

definition Joint_VoteResult :: "JointConfig \<Rightarrow> (u64, bool) fmap \<Rightarrow> VoteResult" where
  "Joint_VoteResult c votes =
     (let r1 = Majority_VoteResult (fst c) votes;
          r2 = Majority_VoteResult (snd c) votes
      in if r1 = r2 then r1
         else if r1 = VoteLost \<or> r2 = VoteLost then VoteLost
         else VotePending)"

lemmas quorum_defs =
  insertionSort_def CommittedIndex_on_def Majority_CommittedIndex_def Majority_VoteResult_def
  Majority_Slice_def Joint_IDs_def Joint_CommittedIndex_def Joint_VoteResult_def

section \<open>The sorted slice\<close>

lemma length_insertDown [simp]: "length (insertDown sl j) = length sl"
  by (induction sl j rule: insertDown.induct) auto

lemma mset_insertDown: "j < length sl \<Longrightarrow> mset (insertDown sl j) = mset sl"
proof (induction sl j rule: insertDown.induct)
  case (2 sl j)
  then show ?case
    by (simp add: mset_swap)
qed simp

text \<open>Sorted but for the element at \<open>j\<close>, which may be too small for its place.\<close>

definition sorted_upto_except :: "u64 list \<Rightarrow> nat \<Rightarrow> nat \<Rightarrow> bool" where
  "sorted_upto_except sl n j \<longleftrightarrow>
     (\<forall>a b. a < b \<longrightarrow> b < n \<longrightarrow> b \<noteq> j \<longrightarrow> sl ! a \<le> sl ! b)"

lemma insertDown_sorted:
  "\<lbrakk>j < n; n \<le> length sl; sorted_upto_except sl n j\<rbrakk> \<Longrightarrow> sorted (take n (insertDown sl j))"
proof (induction sl j rule: insertDown.induct)
  case (1 sl)
  then show ?case
    by (auto simp: sorted_iff_nth_mono_less sorted_upto_except_def)
next
  case (2 sl j)
  show ?case
  proof (cases "sl ! Suc j < sl ! j")
    case True
    let ?sl = "sl[Suc j := sl ! j, j := sl ! Suc j]"
    have "sorted_upto_except ?sl n j"
      using "2.prems" True unfolding sorted_upto_except_def
      by (auto simp: nth_list_update)
    with "2.IH" [OF True] "2.prems" True show ?thesis by simp
  next
    case False
    have "sl ! a \<le> sl ! b" if ab: "a < b" "b < n" for a b
    proof (cases "b = Suc j")
      case True
      with False have "sl ! j \<le> sl ! b" by simp
      moreover have "sl ! a \<le> sl ! j"
        using "2.prems" ab True unfolding sorted_upto_except_def
        by (cases "a = j") (auto simp: less_Suc_eq)
      ultimately show ?thesis by simp
    next
      case False
      with "2.prems" ab show ?thesis unfolding sorted_upto_except_def by blast
    qed
    with False "2.prems" show ?thesis
      by (auto simp: sorted_iff_nth_mono_less)
  qed
qed

lemma insertionSort_prefix:
  assumes "m \<le> length sl"
  shows "let s = fold (\<lambda>i s. insertDown s i) [1..<m] sl
         in length s = length sl \<and> mset s = mset sl \<and> sorted (take m s)"
  using assms
proof (induction m)
  case 0
  then show ?case by simp
next
  case (Suc m)
  let ?s = "fold (\<lambda>i s. insertDown s i) [1..<m] sl"
  from Suc have IH: "length ?s = length sl" "mset ?s = mset sl" "sorted (take m ?s)"
    by (simp_all add: Let_def)
  show ?case
  proof (cases m)
    case 0
    with Suc.prems show ?thesis by (cases sl) (simp_all add: Let_def)
  next
    case (Suc k)
    then have split: "[1..<Suc m] = [1..<m] @ [m]" by simp
    have "sorted_upto_except ?s (Suc m) m"
      using IH(1,3) \<open>Suc m \<le> length sl\<close> unfolding sorted_upto_except_def
      by (auto simp: sorted_iff_nth_mono_less)
    then have "sorted (take (Suc m) (insertDown ?s m))"
      using IH(1) \<open>Suc m \<le> length sl\<close> by (intro insertDown_sorted) simp_all
    with IH \<open>Suc m \<le> length sl\<close> split show ?thesis
      by (simp add: Let_def mset_insertDown)
  qed
qed

lemma insertionSort_correct:
  "sorted (insertionSort sl)" "mset (insertionSort sl) = mset sl"
  "length (insertionSort sl) = length sl"
proof -
  let ?s = "insertionSort sl"
  have "length ?s = length sl \<and> mset ?s = mset sl \<and> sorted (take (length sl) ?s)"
    using insertionSort_prefix [of "length sl" sl] unfolding insertionSort_def Let_def by blast
  then show "sorted ?s" "mset ?s = mset sl" "length ?s = length sl"
    by (auto simp: take_all)
qed

lemma nth_sorted_ge:
  fixes xs :: "u64 list"
  assumes "sorted xs" and "p < length xs"
  shows "k \<le> xs ! p \<longleftrightarrow> length xs - p \<le> length (filter (\<lambda>x. k \<le> x) xs)"
proof
  assume k: "k \<le> xs ! p"
  have "filter (\<lambda>x. k \<le> x) (drop p xs) = drop p xs"
    using assms k by (intro filter_True)
      (auto simp: in_set_conv_nth intro!: order_trans [OF k] sorted_nth_mono)
  then have "length xs - p = length (filter (\<lambda>x. k \<le> x) (drop p xs))" by simp
  also have "\<dots> \<le> length (filter (\<lambda>x. k \<le> x) (take p xs @ drop p xs))"
    by (simp only: filter_append length_append)
  finally show "length xs - p \<le> length (filter (\<lambda>x. k \<le> x) xs)" by simp
next
  assume n: "length xs - p \<le> length (filter (\<lambda>x. k \<le> x) xs)"
  show "k \<le> xs ! p"
  proof (rule ccontr)
    assume "\<not> k \<le> xs ! p"
    then have "filter (\<lambda>x. k \<le> x) (take (Suc p) xs) = []"
      using assms by (auto simp: filter_empty_conv in_set_conv_nth)
        (meson less_Suc_eq_le order_trans sorted_nth_mono)
    then have "filter (\<lambda>x. k \<le> x) (take (Suc p) xs @ drop (Suc p) xs)
        = filter (\<lambda>x. k \<le> x) (drop (Suc p) xs)"
      by (simp only: filter_append append_Nil)
    then have "length (filter (\<lambda>x. k \<le> x) xs) \<le> length xs - Suc p"
      by (metis append_take_drop_id length_drop length_filter_le)
    with n assms(2) show False by simp
  qed
qed

lemma fillSrt_eq:
  assumes "length ids \<le> k"
  shows "fillSrt l ids (replicate k 0 @ ys) (int k - 1)
    = replicate (k - length (List.map_filter l ids)) 0 @ rev (List.map_filter l ids) @ ys"
  using assms
proof (induction ids arbitrary: k ys)
  case Nil
  then show ?case by (simp add: map_filter_simps)
next
  case (Cons x ids)
  show ?case
  proof (cases "l x")
    case None
    with Cons show ?thesis by (simp add: map_filter_simps)
  next
    case (Some v)
    from Cons.prems obtain j where k: "k = Suc j" by (cases k) auto
    have "(replicate k 0 @ ys)[nat (int k - 1) := v] = replicate j 0 @ v # ys"
      unfolding k by (simp add: replicate_append_same [symmetric] list_update_append del: replicate_append_same)
    moreover have "int k - 1 - 1 = int j - 1" using k by simp
    ultimately show ?thesis
      using Cons.IH [of j "v # ys"] Cons.prems Some k by (simp add: map_filter_simps)
  qed
qed

text \<open>The voters that have acknowledged an index of at least \<open>k\<close>.\<close>

definition ackers :: "(u64 \<Rightarrow> u64 option) \<Rightarrow> u64 \<Rightarrow> u64 set" where
  "ackers l k = {i. \<exists>v. l i = Some v \<and> k \<le> v}"

lemma length_filter_map_filter:
  assumes "distinct ids"
  shows "length (filter (\<lambda>x. k \<le> x) (List.map_filter l ids)) = card (set ids \<inter> ackers l k)"
  using assms
proof (induction ids)
  case Nil
  then show ?case by (simp add: map_filter_simps)
next
  case (Cons x ids)
  then show ?case
    by (auto simp: map_filter_simps ackers_def Int_insert_left split: option.splits)
qed

lemma CommittedIndex_on_ge:
  assumes "distinct ids" and "ids \<noteq> []" and "k \<noteq> 0"
  shows "k \<le> CommittedIndex_on ids l \<longleftrightarrow> length ids div 2 + 1 \<le> card (set ids \<inter> ackers l k)"
proof -
  let ?n = "length ids"
  let ?srt = "fillSrt l ids (replicate ?n 0) (int ?n - 1)"
  let ?acks = "List.map_filter l ids"
  have srt: "?srt = replicate (?n - length ?acks) 0 @ rev ?acks"
    using fillSrt_eq [of ids ?n l "[]"] by simp
  have "length ?acks \<le> ?n"
    by (simp add: List.map_filter_def)
  then have len: "length ?srt = ?n" by (simp add: srt)
  have "length (filter (\<lambda>x. k \<le> x) (insertionSort ?srt)) = length (filter (\<lambda>x. k \<le> x) ?srt)"
    by (metis insertionSort_correct(2) mset_filter size_mset)
  also have "\<dots> = card (set ids \<inter> ackers l k)"
    using assms by (simp add: srt rev_filter [symmetric] length_filter_map_filter)
  finally have cnt: "length (filter (\<lambda>x. k \<le> x) (insertionSort ?srt)) = card (set ids \<inter> ackers l k)" .
  have pos: "?n - (?n div 2 + 1) < ?n" using assms(2) by simp
  have "?n - (?n - (?n div 2 + 1)) = ?n div 2 + 1"
    using assms(2) by (cases ids) auto
  then have "k \<le> insertionSort ?srt ! (?n - (?n div 2 + 1))
      \<longleftrightarrow> ?n div 2 + 1 \<le> card (set ids \<inter> ackers l k)"
    using nth_sorted_ge [of "insertionSort ?srt" "?n - (?n div 2 + 1)" k] pos len cnt
    by (simp add: insertionSort_correct)
  with assms(2) show ?thesis by (simp add: CommittedIndex_on_def Let_def)
qed

text \<open>The order in which the map is ranged over does not matter.\<close>

lemma CommittedIndex_on_order:
  assumes "distinct ids" and "distinct ids'" and "set ids = set ids'"
  shows "CommittedIndex_on ids l = CommittedIndex_on ids' l"
proof -
  have len: "length ids = length ids'"
    using assms by (metis distinct_card)
  show ?thesis
  proof (cases "ids = []")
    case True
    with len show ?thesis by simp
  next
    case False
    with len have False': "ids' \<noteq> []" by auto
    have "k \<le> CommittedIndex_on ids l \<longleftrightarrow> k \<le> CommittedIndex_on ids' l" for k
      using CommittedIndex_on_ge [OF assms(1) False, of k l]
        CommittedIndex_on_ge [OF assms(2) False', of k l] assms(3) len
      by (cases "k = 0") simp_all
    then show ?thesis by (meson order_antisym order_refl)
  qed
qed

lemma tallyLoop_eq:
  assumes "distinct ids"
  shows "tallyLoop votes ids (a, b, c) =
    (a + card {i \<in> set ids. fmlookup votes i = Some False},
     b + card {i \<in> set ids. fmlookup votes i = Some True},
     c + card {i \<in> set ids. fmlookup votes i = None})"
  using assms
proof (induction ids arbitrary: a b c)
  case (Cons x ids)
  have ins: "{i. (i = x \<or> i \<in> set ids) \<and> fmlookup votes i = r} =
      (if fmlookup votes x = r then insert x {i \<in> set ids. fmlookup votes i = r}
       else {i \<in> set ids. fmlookup votes i = r})" for r
    by auto
  have "x \<notin> {i \<in> set ids. fmlookup votes i = r}" for r
    using Cons.prems by simp
  with Cons show ?case
    by (cases "fmlookup votes x") (simp_all add: ins)
qed simp

section \<open>Quorums\<close>

definition majority_of :: "u64 fset \<Rightarrow> u64 set \<Rightarrow> bool" where
  "majority_of c S \<longleftrightarrow> fcard c < 2 * card (fset c \<inter> S)"

text \<open>An empty half decides nothing: every set is a quorum of it.\<close>

definition majority_quorum :: "MajorityConfig \<Rightarrow> u64 set \<Rightarrow> bool" where
  "majority_quorum c S \<longleftrightarrow> ids_of c = {||} \<or> majority_of (ids_of c) S"

definition joint_quorum :: "JointConfig \<Rightarrow> u64 set \<Rightarrow> bool" where
  "joint_quorum c S \<longleftrightarrow> majority_quorum (fst c) S \<and> majority_quorum (snd c) S"

definition yes_votes :: "(u64, bool) fmap \<Rightarrow> u64 set" where
  "yes_votes votes = {i. fmlookup votes i = Some True}"

definition not_no_votes :: "(u64, bool) fmap \<Rightarrow> u64 set" where
  "not_no_votes votes = {i. fmlookup votes i \<noteq> Some False}"

lemma majority_of_mono: "majority_of c S \<Longrightarrow> S \<subseteq> T \<Longrightarrow> majority_of c T"
  unfolding majority_of_def
  by (meson Int_mono card_mono finite_Int finite_fset mult_le_mono2 order_less_le_trans subset_refl)

lemma majority_of_intersect:
  assumes "majority_of c S" and "majority_of c T"
  shows "fset c \<inter> S \<inter> T \<noteq> {}"
proof
  assume "fset c \<inter> S \<inter> T = {}"
  then have "card (fset c \<inter> S) + card (fset c \<inter> T) = card (fset c \<inter> S \<union> fset c \<inter> T)"
    by (subst card_Un_disjoint) auto
  also have "\<dots> \<le> fcard c"
    unfolding fcard.rep_eq by (rule card_mono) auto
  finally show False
    using assms by (simp add: majority_of_def)
qed

lemma half_less: "Suc (fcard c div 2) \<le> n \<longleftrightarrow> fcard c < 2 * n"
  by arith

lemma Majority_CommittedIndex_ge:
  "k \<le> Majority_CommittedIndex c l \<longleftrightarrow> k = 0 \<or> majority_quorum c (ackers l k)"
proof (cases "ids_of c = {||}")
  case True
  then have "sorted_keys (ids_of c) = []"
    by (metis length_0_conv length_sorted_keys fcard_fempty)
  with True show ?thesis
    by (simp add: Majority_CommittedIndex_def CommittedIndex_on_def majority_quorum_def)
next
  case False
  then have "sorted_keys (ids_of c) \<noteq> []"
    by (metis length_0_conv length_sorted_keys fcard_0_eq)
  with False show ?thesis
    using CommittedIndex_on_ge [of "sorted_keys (ids_of c)" k l]
    by (cases "k = 0")
      (simp_all add: Majority_CommittedIndex_def majority_quorum_def majority_of_def half_less)
qed

lemma Majority_VoteResult_eq:
  "Majority_VoteResult c votes =
     (if majority_quorum c (yes_votes votes) then VoteWon
      else if majority_quorum c (not_no_votes votes) then VotePending
      else VoteLost)"
proof (cases "ids_of c = {||}")
  case True
  then show ?thesis by (simp add: Majority_VoteResult_def majority_quorum_def)
next
  case False
  let ?ids = "fset (ids_of c)"
  have yes: "{i \<in> ?ids. fmlookup votes i = Some True} = ?ids \<inter> yes_votes votes"
    by (auto simp: yes_votes_def)
  have "card {i \<in> ?ids. fmlookup votes i = Some True} + card {i \<in> ?ids. fmlookup votes i = None}
      = card ({i \<in> ?ids. fmlookup votes i = Some True} \<union> {i \<in> ?ids. fmlookup votes i = None})"
    by (subst card_Un_disjoint) auto
  also have "{i \<in> ?ids. fmlookup votes i = Some True} \<union> {i \<in> ?ids. fmlookup votes i = None}
      = ?ids \<inter> not_no_votes votes"
    by (auto simp: not_no_votes_def)
  finally have sum: "card (?ids \<inter> yes_votes votes) + card {i \<in> ?ids. fmlookup votes i = None}
      = card (?ids \<inter> not_no_votes votes)"
    by (simp add: yes)
  have "fcard (ids_of c) \<noteq> 0" using False by (simp add: fcard_0_eq)
  with False show ?thesis
    unfolding Majority_VoteResult_def majority_quorum_def majority_of_def Let_def
    by (simp add: tallyLoop_eq yes sum half_less)
qed

lemma Joint_CommittedIndex_ge:
  "k \<le> Joint_CommittedIndex c l \<longleftrightarrow> k = 0 \<or> joint_quorum c (ackers l k)"
proof -
  have "k \<le> Joint_CommittedIndex c l \<longleftrightarrow>
      k \<le> Majority_CommittedIndex (fst c) l \<and> k \<le> Majority_CommittedIndex (snd c) l"
    by (auto simp: Joint_CommittedIndex_def Let_def)
  then show ?thesis
    by (auto simp: Majority_CommittedIndex_ge joint_quorum_def)
qed

lemma majority_quorum_mono: "majority_quorum c S \<Longrightarrow> S \<subseteq> T \<Longrightarrow> majority_quorum c T"
  by (auto simp: majority_quorum_def intro: majority_of_mono)

lemma yes_subset: "yes_votes votes \<subseteq> not_no_votes votes"
  by (auto simp: yes_votes_def not_no_votes_def)

lemma Joint_VoteResult_eq:
  "Joint_VoteResult c votes =
     (if joint_quorum c (yes_votes votes) then VoteWon
      else if joint_quorum c (not_no_votes votes) then VotePending
      else VoteLost)"
  using majority_quorum_mono [OF _ yes_subset]
  by (auto simp: Joint_VoteResult_def Let_def Majority_VoteResult_eq joint_quorum_def)

section \<open>The contract of a quorum rule\<close>

text \<open>
  What the tracker and the raft state machine rely on: \<open>Q c\<close> is the family of quorums of
  the configuration \<open>c\<close>, \<open>valid c\<close> says that it has a voter, \<open>result\<close> is VoteResult and
  \<open>committed\<close> is CommittedIndex.
\<close>

locale quorum_rule =
  fixes Q :: "'c \<Rightarrow> u64 set \<Rightarrow> bool"
    and valid :: "'c \<Rightarrow> bool"
    and result :: "'c \<Rightarrow> (u64, bool) fmap \<Rightarrow> VoteResult"
    and committed :: "'c \<Rightarrow> (u64 \<Rightarrow> u64 option) \<Rightarrow> u64"
  assumes Q_mono: "Q c S \<Longrightarrow> S \<subseteq> T \<Longrightarrow> Q c T"
    and Q_intersect: "valid c \<Longrightarrow> Q c S \<Longrightarrow> Q c T \<Longrightarrow> S \<inter> T \<noteq> {}"
    and result_eq: "result c votes =
      (if Q c (yes_votes votes) then VoteWon
       else if Q c (not_no_votes votes) then VotePending else VoteLost)"
    and committed_ge: "k \<le> committed c l \<longleftrightarrow> k = 0 \<or> Q c (ackers l k)"
begin

lemma won_iff: "result c votes = VoteWon \<longleftrightarrow> Q c (yes_votes votes)"
  by (simp add: result_eq)

lemma lost_iff: "result c votes = VoteLost \<longleftrightarrow> \<not> Q c (not_no_votes votes)"
  using Q_mono [OF _ yes_subset] by (auto simp: result_eq)

lemma two_winners_share_a_voter:
  assumes "valid c" and "result c v = VoteWon" and "result c w = VoteWon"
  shows "\<exists>i. fmlookup v i = Some True \<and> fmlookup w i = Some True"
  using assms Q_intersect by (fastforce simp: won_iff yes_votes_def)

lemma result_stable:
  assumes "result c v \<noteq> VotePending" and "\<And>i b. fmlookup v i = Some b \<Longrightarrow> fmlookup w i = Some b"
  shows "result c w = result c v"
proof -
  have sub: "yes_votes v \<subseteq> yes_votes w" "not_no_votes w \<subseteq> not_no_votes v"
    using assms(2) by (auto simp: yes_votes_def not_no_votes_def)
  from assms(1) consider "result c v = VoteWon" | "result c v = VoteLost"
    by (cases "result c v") auto
  then show ?thesis
  proof cases
    case 1
    with sub Q_mono show ?thesis by (metis won_iff)
  next
    case 2
    with sub Q_mono show ?thesis by (metis lost_iff)
  qed
qed

lemma committed_mono:
  assumes "\<And>i v. l i = Some v \<Longrightarrow> \<exists>v'. l' i = Some v' \<and> v \<le> v'"
  shows "committed c l \<le> committed c l'"
proof -
  have "ackers l k \<subseteq> ackers l' k" for k
    using assms by (fastforce simp: ackers_def intro: order_trans)
  then have "k \<le> committed c l \<Longrightarrow> k \<le> committed c l'" for k
    using Q_mono by (auto simp: committed_ge)
  then show ?thesis by simp
qed

lemma committed_overlaps_winner:
  assumes "valid c" and "result c v = VoteWon" and "k \<le> committed c l" and "k \<noteq> 0"
  shows "\<exists>i x. fmlookup v i = Some True \<and> l i = Some x \<and> k \<le> x"
proof -
  from assms have "yes_votes v \<inter> ackers l k \<noteq> {}"
    by (intro Q_intersect) (auto simp: won_iff committed_ge)
  then show ?thesis by (auto simp: yes_votes_def ackers_def)
qed

end

definition majority_valid :: "MajorityConfig \<Rightarrow> bool" where
  "majority_valid c \<longleftrightarrow> ids_of c \<noteq> {||}"

definition joint_valid :: "JointConfig \<Rightarrow> bool" where
  "joint_valid c \<longleftrightarrow> majority_valid (fst c) \<or> majority_valid (snd c)"

lemma majority_quorum_intersect:
  assumes "majority_valid c" and "majority_quorum c S" and "majority_quorum c T"
  shows "S \<inter> T \<noteq> {}"
  using assms majority_of_intersect [of "ids_of c" S T]
  by (auto simp: majority_valid_def majority_quorum_def)

interpretation majority: quorum_rule majority_quorum majority_valid Majority_VoteResult
  Majority_CommittedIndex
  by unfold_locales
    (simp_all add: majority_quorum_mono majority_quorum_intersect Majority_VoteResult_eq
      Majority_CommittedIndex_ge)

interpretation joint: quorum_rule joint_quorum joint_valid Joint_VoteResult Joint_CommittedIndex
proof unfold_locales
  fix c :: JointConfig and S T
  assume "joint_quorum c S" and "S \<subseteq> T"
  then show "joint_quorum c T"
    by (auto simp: joint_quorum_def intro: majority_quorum_mono)
next
  fix c :: JointConfig and S T
  assume "joint_valid c" "joint_quorum c S" "joint_quorum c T"
  then show "S \<inter> T \<noteq> {}"
    unfolding joint_valid_def joint_quorum_def by (metis majority_quorum_intersect)
qed (simp_all add: Joint_VoteResult_eq Joint_CommittedIndex_ge)

end
