(* ===== verification/Inflights.thy ===== *)
theory Inflights
  imports Prelude
begin

text \<open>
  raft/tracker/inflights.go: the window of in-flight append messages, a ring buffer that
  grows on demand. Each operation is translated with the buffer accesses that can panic; the
  ring buffer then implements a bounded FIFO queue of indexes (\<open>window\<close>), which is the view
  that Progress relies on. The interface is the locale \<open>flow_window\<close>.
\<close>

record Inflights =
  in_start :: int
  in_count :: int
  in_size :: int
  in_buffer :: "u64 list"

definition NewInflights :: "int \<Rightarrow> Inflights" where
  "NewInflights sz = \<lparr>in_start = 0, in_count = 0, in_size = sz, in_buffer = []\<rparr>"

text \<open>Clone copies the buffer: the same value.\<close>

definition Inflights_Clone :: "Inflights \<Rightarrow> Inflights" where
  "Inflights_Clone ins = ins\<lparr>in_buffer := [] @ in_buffer ins\<rparr>"

text \<open>A buffer read at an int position; a negative position panics too.\<close>

definition buf_get :: "u64 list \<Rightarrow> int \<Rightarrow> u64 option" where
  "buf_get b i = (if i < 0 then None else idx b (nat i))"

definition buf_set :: "u64 list \<Rightarrow> int \<Rightarrow> u64 \<Rightarrow> u64 list option" where
  "buf_set b i v = (if 0 \<le> i \<and> nat i < length b then Some (b[nat i := v]) else None)"

definition Inflights_Full :: "Inflights \<Rightarrow> bool" where
  "Inflights_Full ins \<longleftrightarrow> in_count ins = in_size ins"

definition Inflights_Count :: "Inflights \<Rightarrow> int" where
  "Inflights_Count ins = in_count ins"

text \<open>grow: \<open>make\<close> panics on a negative size, \<open>copy\<close> copies the shorter length.\<close>

definition Inflights_grow :: "Inflights \<Rightarrow> Inflights option" where
  "Inflights_grow ins =
     (let newSize = int (length (in_buffer ins)) * 2;
          newSize = (if newSize = 0 then 1
                     else if newSize > in_size ins then in_size ins else newSize)
      in if newSize < 0 then None
         else Some (ins\<lparr>in_buffer :=
           take (nat newSize) (in_buffer ins)
             @ replicate (nat newSize - length (in_buffer ins)) 0\<rparr>))"

definition Inflights_Add :: "Inflights \<Rightarrow> u64 \<Rightarrow> Inflights option" where
  "Inflights_Add ins inflight =
     do {
       panic_if (Inflights_Full ins);
       let next = in_start ins + in_count ins;
       let sz = in_size ins;
       let next = (if next \<ge> sz then next - sz else next);
       ins \<leftarrow> (if next \<ge> int (length (in_buffer ins)) then Inflights_grow ins else Some ins);
       b \<leftarrow> buf_set (in_buffer ins) next inflight;
       Some (ins\<lparr>in_buffer := b, in_count := in_count ins + 1\<rparr>)
     }"

text \<open>The loop of FreeLE: the number of entries freed and the new start; \<open>k\<close> is the number
  of iterations left, \<open>i\<close> the loop counter.\<close>

fun freeLoop :: "Inflights \<Rightarrow> u64 \<Rightarrow> nat \<Rightarrow> int \<Rightarrow> int \<Rightarrow> (int \<times> int) option" where
  "freeLoop ins t 0 i ix = Some (i, ix)"
| "freeLoop ins t (Suc k) i ix =
     do {
       x \<leftarrow> buf_get (in_buffer ins) ix;
       if t < x then Some (i, ix)
       else (let ix' = ix + 1;
                 ix' = (if ix' \<ge> in_size ins then ix' - in_size ins else ix')
             in freeLoop ins t k (i + 1) ix')
     }"

definition Inflights_FreeLE :: "Inflights \<Rightarrow> u64 \<Rightarrow> Inflights option" where
  "Inflights_FreeLE ins t =
     (if in_count ins = 0 then Some ins
      else do {
        x \<leftarrow> buf_get (in_buffer ins) (in_start ins);
        if t < x then Some ins
        else do {
          (i, ix) \<leftarrow> freeLoop ins t (nat (in_count ins)) 0 (in_start ins);
          let count = in_count ins - i;
          Some (ins\<lparr>in_count := count, in_start := (if count = 0 then 0 else ix)\<rparr>)
        }
      })"

definition Inflights_FreeFirstOne :: "Inflights \<Rightarrow> Inflights option" where
  "Inflights_FreeFirstOne ins =
     do {
       x \<leftarrow> buf_get (in_buffer ins) (in_start ins);
       Inflights_FreeLE ins x
     }"

definition Inflights_reset :: "Inflights \<Rightarrow> Inflights" where
  "Inflights_reset ins = ins\<lparr>in_count := 0, in_start := 0\<rparr>"

lemmas inflights_defs = NewInflights_def Inflights_Clone_def buf_get_def buf_set_def
  Inflights_Full_def Inflights_Count_def Inflights_grow_def Inflights_Add_def
  Inflights_FreeLE_def Inflights_FreeFirstOne_def Inflights_reset_def

section \<open>The ring buffer as a queue\<close>

definition in_pos :: "Inflights \<Rightarrow> int \<Rightarrow> int" where
  "in_pos ins k = (in_start ins + k) mod in_size ins"

definition window :: "Inflights \<Rightarrow> u64 list" where
  "window ins = map (\<lambda>k. in_buffer ins ! nat (in_pos ins (int k))) [0..<nat (in_count ins)]"

text \<open>A live position either lies before the first wrap, or the buffer has its full size.\<close>

definition inflights_wf :: "Inflights \<Rightarrow> bool" where
  "inflights_wf ins \<longleftrightarrow>
     0 \<le> in_count ins \<and> in_count ins \<le> in_size ins \<and> 0 < in_size ins
     \<and> 0 \<le> in_start ins \<and> in_start ins < in_size ins
     \<and> int (length (in_buffer ins)) \<le> in_size ins
     \<and> (in_start ins + in_count ins \<le> int (length (in_buffer ins))
        \<or> int (length (in_buffer ins)) = in_size ins)
     \<and> (in_count ins = 0 \<longrightarrow> in_start ins = 0)"

lemma mod_once:
  fixes a n :: int
  assumes "0 \<le> a" "a < 2 * n"
  shows "a mod n = (if a < n then a else a - n)"
proof (cases "a < n")
  case True
  with assms show ?thesis by (simp add: mod_pos_pos_trivial)
next
  case False
  have "a mod n = (a - n) mod n" by simp
  also have "\<dots> = a - n"
    using assms False by (intro mod_pos_pos_trivial) auto
  finally show ?thesis using False by simp
qed

lemma in_pos_eq:
  assumes "inflights_wf ins" "0 \<le> k" "k \<le> in_size ins"
  shows "in_pos ins k =
    (if in_start ins + k < in_size ins then in_start ins + k else in_start ins + k - in_size ins)"
  using assms unfolding in_pos_def inflights_wf_def by (intro mod_once) auto

lemma in_pos_bounds:
  assumes "inflights_wf ins" "0 \<le> k" "k < in_count ins"
  shows "0 \<le> in_pos ins k" "in_pos ins k < int (length (in_buffer ins))"
  using assms in_pos_eq [OF assms(1,2)] by (auto simp: inflights_wf_def)

lemma length_window [simp]: "length (window ins) = nat (in_count ins)"
  by (simp add: window_def)

lemma window_nth:
  "i < nat (in_count ins) \<Longrightarrow> window ins ! i = in_buffer ins ! nat (in_pos ins (int i))"
  by (simp add: window_def)

lemma buf_get_window:
  assumes "inflights_wf ins" "i < nat (in_count ins)"
  shows "buf_get (in_buffer ins) (in_pos ins (int i)) = Some (window ins ! i)"
  using assms in_pos_bounds [of ins "int i"]
  by (auto simp: buf_get_def window_nth nat_less_iff zless_nat_eq_int_zless)

lemma buf_get_start:
  assumes "inflights_wf ins" "window ins \<noteq> []"
  shows "buf_get (in_buffer ins) (in_start ins) = Some (hd (window ins))"
proof -
  have "0 < nat (in_count ins)" using assms(2) length_window [of ins] by (metis length_greater_0_conv)
  moreover have "in_pos ins 0 = in_start ins" using assms(1) by (simp add: in_pos_def inflights_wf_def)
  ultimately show ?thesis
    using buf_get_window [OF assms(1), of 0] assms(2) by (simp add: hd_conv_nth)
qed

lemma NewInflights_wf: "0 < sz \<Longrightarrow> inflights_wf (NewInflights sz)"
  by (simp add: NewInflights_def inflights_wf_def)

lemma NewInflights_window [simp]: "window (NewInflights sz) = []"
  by (simp add: NewInflights_def window_def)

lemma reset_wf: "inflights_wf ins \<Longrightarrow> inflights_wf (Inflights_reset ins)"
  by (auto simp: Inflights_reset_def inflights_wf_def)

lemma reset_window [simp]: "window (Inflights_reset ins) = []"
  by (simp add: Inflights_reset_def window_def)

lemma Full_iff: "inflights_wf ins \<Longrightarrow> Inflights_Full ins \<longleftrightarrow> int (length (window ins)) = in_size ins"
  by (auto simp: Inflights_Full_def inflights_wf_def)

subsection \<open>Add\<close>

lemma grow_correct:
  assumes "inflights_wf ins" "int (length (in_buffer ins)) < in_size ins"
  shows "\<exists>b. Inflights_grow ins = Some (ins\<lparr>in_buffer := b\<rparr>)
    \<and> length (in_buffer ins) < length b \<and> int (length b) \<le> in_size ins
    \<and> (\<forall>i < length (in_buffer ins). b ! i = in_buffer ins ! i)"
proof -
  let ?L = "length (in_buffer ins)"
  let ?n = "if int ?L * 2 = 0 then 1 else if int ?L * 2 > in_size ins then in_size ins else int ?L * 2"
  let ?b = "take (nat ?n) (in_buffer ins) @ replicate (nat ?n - ?L) 0"
  have n: "int ?L < ?n" "?n \<le> in_size ins"
    using assms by (auto simp: inflights_wf_def)
  then have "Inflights_grow ins = Some (ins\<lparr>in_buffer := ?b\<rparr>)"
    by (simp add: Inflights_grow_def Let_def)
  moreover have "length ?b = nat ?n" using n by auto
  moreover have "\<forall>i < ?L. ?b ! i = in_buffer ins ! i"
    using n by (auto simp: nth_append)
  ultimately show ?thesis using n by (intro exI [of _ ?b]) auto
qed

text \<open>Writing one more entry into a buffer that has room for it.\<close>

lemma window_snoc:
  assumes wf: "inflights_wf ins" and room: "in_count ins < in_size ins"
    and old: "\<forall>i < length (in_buffer ins). b ! i = in_buffer ins ! i"
    and len: "length (in_buffer ins) \<le> length b" "in_pos ins (in_count ins) < int (length b)"
  shows "window (ins\<lparr>in_buffer := b[nat (in_pos ins (in_count ins)) := x], in_count := in_count ins + 1\<rparr>)
    = window ins @ [x]"
proof (rule nth_equalityI)
  let ?ins = "ins\<lparr>in_buffer := b[nat (in_pos ins (in_count ins)) := x], in_count := in_count ins + 1\<rparr>"
  have cnt: "nat (in_count ins + 1) = Suc (nat (in_count ins))"
    using wf by (simp add: inflights_wf_def nat_add_distrib)
  then show "length (window ?ins) = length (window ins @ [x])" by simp
  fix i assume "i < length (window ?ins)"
  then have i: "i < Suc (nat (in_count ins))" by (simp add: cnt)
  have pos: "in_pos ?ins k = in_pos ins k" for k by (simp add: in_pos_def)
  show "window ?ins ! i = (window ins @ [x]) ! i"
  proof (cases "i = nat (in_count ins)")
    case True
    then have "int i = in_count ins" using wf by (simp add: inflights_wf_def)
    moreover have "0 \<le> in_pos ins (in_count ins)" using wf by (simp add: in_pos_def inflights_wf_def)
    ultimately show ?thesis
      using True len(2) by (simp add: window_nth pos cnt nth_append nat_less_iff)
  next
    case False
    with i have i': "i < nat (in_count ins)" by simp
    have "in_pos ins (int i) \<noteq> in_pos ins (in_count ins)"
      using in_pos_eq [OF wf, of "int i"] in_pos_eq [OF wf, of "in_count ins"] wf room i'
      by (auto simp: inflights_wf_def split: if_splits)
    moreover have "0 \<le> in_pos ins (in_count ins)" using wf by (simp add: in_pos_def inflights_wf_def)
    moreover note in_pos_bounds [OF wf, of "int i"]
    ultimately show ?thesis
      using i' old by (auto simp: window_nth pos cnt nth_append nat_less_iff nat_eq_iff)
  qed
qed

lemma Add_correct:
  assumes wf: "inflights_wf ins" and room: "\<not> Inflights_Full ins"
  shows "\<exists>ins'. Inflights_Add ins x = Some ins' \<and> inflights_wf ins'
    \<and> window ins' = window ins @ [x] \<and> in_size ins' = in_size ins"
proof -
  let ?p = "in_pos ins (in_count ins)"
  let ?L = "length (in_buffer ins)"
  have c: "in_count ins < in_size ins" "0 \<le> in_count ins"
    using wf room by (auto simp: inflights_wf_def Inflights_Full_def)
  have p: "?p = (if in_start ins + in_count ins \<ge> in_size ins
      then in_start ins + in_count ins - in_size ins else in_start ins + in_count ins)"
    using in_pos_eq [OF wf, of "in_count ins"] c by auto
  have p0: "0 \<le> ?p" "?p \<le> int ?L" "?p < in_size ins"
    using p wf c by (auto simp: inflights_wf_def split: if_splits)
  obtain b where b: "(if ?p \<ge> int ?L then Inflights_grow ins else Some ins) = Some (ins\<lparr>in_buffer := b\<rparr>)"
    "?L \<le> length b" "int (length b) \<le> in_size ins" "?p < int (length b)"
    "\<forall>i < ?L. b ! i = in_buffer ins ! i"
  proof (cases "?p \<ge> int ?L")
    case True
    with p0 have "int ?L < in_size ins" by simp
    from grow_correct [OF wf this] True p0 that show ?thesis by fastforce
  next
    case False
    with wf that [of "in_buffer ins"] show ?thesis by (simp add: inflights_wf_def)
  qed
  let ?ins' = "ins\<lparr>in_buffer := b[nat ?p := x], in_count := in_count ins + 1\<rparr>"
  have "Inflights_Add ins x = Some ?ins'"
    using room b p0 by (simp add: Inflights_Add_def Let_def p [symmetric] buf_set_def nat_less_iff)
  moreover have "inflights_wf ?ins'"
    using wf b p p0 c by (auto simp: inflights_wf_def split: if_splits)
  moreover have "window ?ins' = window ins @ [x]"
    using window_snoc [OF wf c(1) b(5,2,4)] .
  ultimately show ?thesis by (intro exI [of _ ?ins']) simp
qed

subsection \<open>FreeLE\<close>

lemma in_pos_Suc:
  assumes "inflights_wf ins"
  shows "in_pos ins (k + 1) =
    (if in_pos ins k + 1 \<ge> in_size ins then in_pos ins k + 1 - in_size ins else in_pos ins k + 1)"
proof -
  have "0 < in_size ins" using assms by (simp add: inflights_wf_def)
  then have p: "0 \<le> in_pos ins k" "in_pos ins k < in_size ins" by (simp_all add: in_pos_def)
  have "in_pos ins (k + 1) = (in_pos ins k + 1) mod in_size ins"
    by (simp add: in_pos_def mod_add_left_eq add.assoc [symmetric])
  also have "\<dots> = (if in_pos ins k + 1 < in_size ins then in_pos ins k + 1
      else in_pos ins k + 1 - in_size ins)"
    using p by (intro mod_once) auto
  finally show ?thesis by auto
qed

lemma freeLoop_eq:
  assumes wf: "inflights_wf ins" and "i + k = nat (in_count ins)"
  shows "freeLoop ins t k (int i) (in_pos ins (int i)) =
    Some (int (i + length (takeWhile (\<lambda>x. x \<le> t) (drop i (window ins)))),
          in_pos ins (int (i + length (takeWhile (\<lambda>x. x \<le> t) (drop i (window ins))))))"
  using assms(2)
proof (induction k arbitrary: i)
  case 0
  then show ?case by simp
next
  case (Suc k)
  let ?w = "window ins"
  from Suc.prems have i: "i < nat (in_count ins)" by simp
  then have drop: "drop i ?w = ?w ! i # drop (Suc i) ?w"
    by (simp add: Cons_nth_drop_Suc)
  note get = buf_get_window [OF wf i]
  show ?case
  proof (cases "t < ?w ! i")
    case True
    with get drop show ?thesis by simp
  next
    case False
    have "freeLoop ins t k (int (Suc i)) (in_pos ins (int (Suc i))) =
      Some (int (Suc i + length (takeWhile (\<lambda>x. x \<le> t) (drop (Suc i) ?w))),
            in_pos ins (int (Suc i + length (takeWhile (\<lambda>x. x \<le> t) (drop (Suc i) ?w)))))"
      using Suc.prems by (intro Suc.IH) simp
    moreover have "freeLoop ins t (Suc k) (int i) (in_pos ins (int i)) =
        freeLoop ins t k (int (Suc i)) (in_pos ins (int (Suc i)))"
      using get False in_pos_Suc [OF wf, of "int i"] by (simp add: Let_def add.commute [of 1])
    moreover from False drop have "takeWhile (\<lambda>x. x \<le> t) (drop i ?w) =
        ?w ! i # takeWhile (\<lambda>x. x \<le> t) (drop (Suc i) ?w)"
      by simp
    ultimately show ?thesis by simp
  qed
qed

lemma drop_length_takeWhile: "drop (length (takeWhile P xs)) xs = dropWhile P xs"
  by (metis append_eq_conv_conj takeWhile_dropWhile_id)

text \<open>Moving the start past the first \<open>n\<close> live entries drops them from the window.\<close>

lemma advance_window:
  assumes wf: "inflights_wf ins" and n: "n \<le> length (window ins)"
  defines "ins' \<equiv> ins\<lparr>in_count := in_count ins - int n,
      in_start := (if in_count ins - int n = 0 then 0 else in_pos ins (int n))\<rparr>"
  shows "inflights_wf ins'" "window ins' = drop n (window ins)"
proof -
  have n': "int n \<le> in_count ins" using n wf by (auto simp: inflights_wf_def)
  have pos: "in_pos ins (int n) = (if in_start ins + int n < in_size ins
      then in_start ins + int n else in_start ins + int n - in_size ins)"
    using wf n' by (intro in_pos_eq) (auto simp: inflights_wf_def)
  show "inflights_wf ins'"
    using wf n' pos by (auto simp: inflights_wf_def ins'_def split: if_splits)
  show "window ins' = drop n (window ins)"
  proof (rule nth_equalityI)
    show len: "length (window ins') = length (drop n (window ins))"
      using n' by (simp add: ins'_def nat_diff_distrib)
    fix i assume "i < length (window ins')"
    with len have i: "n + i < nat (in_count ins)" by simp
    then have "in_count ins - int n \<noteq> 0" by auto
    then have "in_pos ins' (int i) = in_pos ins (int (n + i))"
      by (simp add: in_pos_def ins'_def mod_add_left_eq add.assoc)
    with i len show "window ins' ! i = drop n (window ins) ! i"
      by (simp add: window_nth ins'_def)
  qed
qed

lemma FreeLE_correct:
  assumes wf: "inflights_wf ins"
  shows "\<exists>ins'. Inflights_FreeLE ins t = Some ins' \<and> inflights_wf ins'
    \<and> window ins' = dropWhile (\<lambda>x. x \<le> t) (window ins) \<and> in_size ins' = in_size ins"
proof (cases "in_count ins = 0")
  case True
  then have "window ins = []" by (simp add: window_def)
  with True wf show ?thesis by (simp add: Inflights_FreeLE_def)
next
  case False
  with wf have "0 < in_count ins" by (auto simp: inflights_wf_def)
  then have ne: "window ins \<noteq> []"
    using length_window [of ins] by (metis length_0_conv nat_0_iff not_less order_refl)
  note get = buf_get_start [OF wf ne]
  show ?thesis
  proof (cases "t < hd (window ins)")
    case True
    with ne have "dropWhile (\<lambda>x. x \<le> t) (window ins) = window ins"
      by (cases "window ins") auto
    with True False get wf show ?thesis by (simp add: Inflights_FreeLE_def)
  next
    case False': False
    let ?n = "length (takeWhile (\<lambda>x. x \<le> t) (window ins))"
    have "in_start ins = in_pos ins (int 0)" using wf by (simp add: in_pos_def inflights_wf_def)
    then have loop: "freeLoop ins t (nat (in_count ins)) 0 (in_start ins) = Some (int ?n, in_pos ins (int ?n))"
      using freeLoop_eq [OF wf, of 0 "nat (in_count ins)" t] by simp
    have "?n \<le> length (window ins)" by (rule length_takeWhile_le)
    note adv = advance_window [OF wf this]
    from adv(2) have "window (ins\<lparr>in_count := in_count ins - int ?n,
        in_start := if in_count ins - int ?n = 0 then 0 else in_pos ins (int ?n)\<rparr>)
      = dropWhile (\<lambda>x. x \<le> t) (window ins)"
      by (simp only: drop_length_takeWhile)
    with adv(1) False False' get loop show ?thesis
      by (simp add: Inflights_FreeLE_def Let_def)
  qed
qed

lemma FreeFirstOne_correct:
  assumes wf: "inflights_wf ins" and ne: "window ins \<noteq> []"
  shows "\<exists>ins'. Inflights_FreeFirstOne ins = Some ins' \<and> inflights_wf ins'
    \<and> window ins' = dropWhile (\<lambda>x. x \<le> hd (window ins)) (window ins) \<and> in_size ins' = in_size ins"
  using FreeLE_correct [OF wf] buf_get_start [OF wf ne] by (simp add: Inflights_FreeFirstOne_def)

section \<open>The interface of the window\<close>

locale flow_window =
  fixes wf :: "'w \<Rightarrow> bool"
    and win :: "'w \<Rightarrow> u64 list"
    and cap :: "'w \<Rightarrow> int"
    and full :: "'w \<Rightarrow> bool"
    and add :: "'w \<Rightarrow> u64 \<Rightarrow> 'w option"
    and free :: "'w \<Rightarrow> u64 \<Rightarrow> 'w option"
    and clear :: "'w \<Rightarrow> 'w"
  assumes full_iff: "wf w \<Longrightarrow> full w \<longleftrightarrow> int (length (win w)) = cap w"
    and bounded: "wf w \<Longrightarrow> int (length (win w)) \<le> cap w"
    and nonzero: "wf w \<Longrightarrow> 0 < cap w"
    and add_law: "wf w \<Longrightarrow> \<not> full w \<Longrightarrow>
      \<exists>w'. add w x = Some w' \<and> wf w' \<and> win w' = win w @ [x] \<and> cap w' = cap w"
    and free_law: "wf w \<Longrightarrow>
      \<exists>w'. free w t = Some w' \<and> wf w' \<and> win w' = dropWhile (\<lambda>x. x \<le> t) (win w) \<and> cap w' = cap w"
    and clear_law: "wf w \<Longrightarrow> wf (clear w) \<and> win (clear w) = [] \<and> cap (clear w) = cap w"
begin

lemma add_sorted:
  assumes "wf w" "sorted (win w)" "\<forall>y \<in> set (win w). y \<le> x" "add w x = Some w'" "\<not> full w"
  shows "sorted (win w')"
  using assms add_law [of w x] by (auto simp: sorted_append)

lemma free_sorted:
  assumes "wf w" "sorted (win w)" "free w t = Some w'"
  shows "sorted (win w')"
  using assms free_law [of w t] by (auto intro: sorted_dropWhile)

text \<open>On a window in order, freeing up to \<open>t\<close> leaves exactly the entries above \<open>t\<close>.\<close>

lemma free_exact:
  assumes "wf w" "sorted (win w)" "free w t = Some w'"
  shows "win w' = filter (\<lambda>x. t < x) (win w)"
proof -
  have "dropWhile (\<lambda>x. x \<le> t) xs = filter (\<lambda>x. t < x) xs" if "sorted xs" for xs :: "u64 list"
    using that
  proof (induction xs)
    case (Cons x xs)
    show ?case
    proof (cases "x \<le> t")
      case True
      with Cons show ?thesis by auto
    next
      case False
      with Cons.prems have "\<forall>y \<in> set (x # xs). t < y" by force
      then show ?thesis using False by (auto simp: filter_id_conv)
    qed
  qed simp
  with assms free_law [of w t] show ?thesis by auto
qed

lemma free_first_makes_room:
  assumes "wf w" "win w \<noteq> []" "free w (hd (win w)) = Some w'"
  shows "\<not> full w'"
proof -
  have "length (dropWhile (\<lambda>x. x \<le> hd (win w)) (win w)) < length (win w)"
    using assms(2) by (cases "win w") (auto intro: le_imp_less_Suc length_dropWhile_le)
  with assms free_law [of w "hd (win w)"] bounded [of w] full_iff [of w'] show ?thesis by auto
qed

end

lemma window_bounded: "inflights_wf ins \<Longrightarrow> int (length (window ins)) \<le> in_size ins"
  by (simp add: inflights_wf_def)

lemma inflights_size_pos: "inflights_wf ins \<Longrightarrow> 0 < in_size ins"
  by (simp add: inflights_wf_def)

lemma reset_size [simp]: "in_size (Inflights_reset ins) = in_size ins"
  by (simp add: Inflights_reset_def)

interpretation inflights: flow_window inflights_wf window in_size Inflights_Full Inflights_Add
  Inflights_FreeLE Inflights_reset
  by unfold_locales
    (simp_all only: Full_iff window_bounded inflights_size_pos Add_correct FreeLE_correct reset_wf
      reset_window reset_size simp_thms)

end
