(* ===== verification/Progress.thy ===== *)
theory Progress
  imports Inflights
begin

text \<open>
  raft/tracker/progress.go and state.go: the leader's view of one peer, a state machine with
  the states probe, replicate and snapshot. Methods return the updated record; MaybeUpdate
  and MaybeDecrTo also return the code's boolean. Indexes are 64-bit words, so \<open>Next - 1\<close>
  and \<open>n + 1\<close> wrap as they do in the code.
\<close>

datatype ProgressState = StateProbe | StateReplicate | StateSnapshot

record Progress =
  prMatch :: u64
  prNext :: u64
  prState :: ProgressState
  prPendingSnapshot :: u64
  prRecentActive :: bool
  prProbeSent :: bool
  prInflights :: Inflights
  prIsLearner :: bool

definition ResetState :: "ProgressState \<Rightarrow> Progress \<Rightarrow> Progress" where
  "ResetState st pr = pr\<lparr>prProbeSent := False, prPendingSnapshot := 0, prState := st,
     prInflights := Inflights_reset (prInflights pr)\<rparr>"

definition ProbeAcked :: "Progress \<Rightarrow> Progress" where
  "ProbeAcked pr = pr\<lparr>prProbeSent := False\<rparr>"

definition BecomeProbe :: "Progress \<Rightarrow> Progress" where
  "BecomeProbe pr =
     (if prState pr = StateSnapshot then
        let pendingSnapshot = prPendingSnapshot pr;
            pr = ResetState StateProbe pr
        in pr\<lparr>prNext := go_max (prMatch pr + 1) (pendingSnapshot + 1)\<rparr>
      else
        let pr = ResetState StateProbe pr in pr\<lparr>prNext := prMatch pr + 1\<rparr>)"

definition BecomeReplicate :: "Progress \<Rightarrow> Progress" where
  "BecomeReplicate pr = (let pr = ResetState StateReplicate pr in pr\<lparr>prNext := prMatch pr + 1\<rparr>)"

definition BecomeSnapshot :: "u64 \<Rightarrow> Progress \<Rightarrow> Progress" where
  "BecomeSnapshot snapshoti pr =
     (let pr = ResetState StateSnapshot pr in pr\<lparr>prPendingSnapshot := snapshoti\<rparr>)"

definition MaybeUpdate :: "u64 \<Rightarrow> Progress \<Rightarrow> Progress \<times> bool" where
  "MaybeUpdate n pr =
     (let (pr, updated) =
            (if prMatch pr < n then (ProbeAcked (pr\<lparr>prMatch := n\<rparr>), True) else (pr, False));
          pr = (if prNext pr < n + 1 then pr\<lparr>prNext := n + 1\<rparr> else pr)
      in (pr, updated))"

definition OptimisticUpdate :: "u64 \<Rightarrow> Progress \<Rightarrow> Progress" where
  "OptimisticUpdate n pr = pr\<lparr>prNext := n + 1\<rparr>"

definition MaybeDecrTo :: "u64 \<Rightarrow> u64 \<Rightarrow> Progress \<Rightarrow> Progress \<times> bool" where
  "MaybeDecrTo rejected lst pr =
     (if prState pr = StateReplicate then
        (if rejected \<le> prMatch pr then (pr, False)
         else (pr\<lparr>prNext := prMatch pr + 1\<rparr>, True))
      else if prNext pr - 1 \<noteq> rejected then (pr, False)
      else
        (let pr = pr\<lparr>prNext := go_min rejected (lst + 1)\<rparr>;
             pr = (if prNext pr < 1 then pr\<lparr>prNext := 1\<rparr> else pr)
         in (pr\<lparr>prProbeSent := False\<rparr>, True)))"

definition IsPaused :: "Progress \<Rightarrow> bool" where
  "IsPaused pr =
     (case prState pr of
        StateProbe \<Rightarrow> prProbeSent pr
      | StateReplicate \<Rightarrow> Inflights_Full (prInflights pr)
      | StateSnapshot \<Rightarrow> True)"

lemmas progress_defs = ResetState_def ProbeAcked_def BecomeProbe_def BecomeReplicate_def
  BecomeSnapshot_def MaybeUpdate_def OptimisticUpdate_def MaybeDecrTo_def IsPaused_def

section \<open>Frame and functional facts\<close>

lemma MaybeUpdate_simps:
  assumes "MaybeUpdate n pr = (pr', b)"
  shows "b \<longleftrightarrow> prMatch pr < n" "prMatch pr' = max (prMatch pr) n"
    "prNext pr' = max (prNext pr) (n + 1)" "prState pr' = prState pr"
    "prInflights pr' = prInflights pr" "prIsLearner pr' = prIsLearner pr"
    "prPendingSnapshot pr' = prPendingSnapshot pr"
  using assms by (auto simp: MaybeUpdate_def ProbeAcked_def Let_def max_def split: if_splits)

lemma MaybeDecrTo_simps:
  assumes "MaybeDecrTo rejected lst pr = (pr', b)"
  shows "prMatch pr' = prMatch pr" "prState pr' = prState pr" "prInflights pr' = prInflights pr"
    "prIsLearner pr' = prIsLearner pr" "prPendingSnapshot pr' = prPendingSnapshot pr"
  using assms by (auto simp: MaybeDecrTo_def Let_def split: if_splits)

lemma become_simps [simp]:
  "prMatch (BecomeProbe pr) = prMatch pr" "prState (BecomeProbe pr) = StateProbe"
  "prInflights (BecomeProbe pr) = Inflights_reset (prInflights pr)"
  "prIsLearner (BecomeProbe pr) = prIsLearner pr"
  "prProbeSent (BecomeProbe pr) = False"
  "prMatch (BecomeReplicate pr) = prMatch pr" "prState (BecomeReplicate pr) = StateReplicate"
  "prInflights (BecomeReplicate pr) = Inflights_reset (prInflights pr)"
  "prIsLearner (BecomeReplicate pr) = prIsLearner pr"
  "prNext (BecomeReplicate pr) = prMatch pr + 1"
  "prMatch (BecomeSnapshot i pr) = prMatch pr" "prState (BecomeSnapshot i pr) = StateSnapshot"
  "prInflights (BecomeSnapshot i pr) = Inflights_reset (prInflights pr)"
  "prIsLearner (BecomeSnapshot i pr) = prIsLearner pr"
  "prNext (BecomeSnapshot i pr) = prNext pr"
  "prPendingSnapshot (BecomeSnapshot i pr) = i"
  by (simp_all add: progress_defs Let_def)

section \<open>Well-formedness\<close>

text \<open>The window is a proper window and Match stays below Next.\<close>

definition progress_wf :: "Progress \<Rightarrow> bool" where
  "progress_wf pr \<longleftrightarrow> inflights_wf (prInflights pr)"

lemma progress_wf_become [simp]:
  "progress_wf pr \<Longrightarrow> progress_wf (BecomeProbe pr)"
  "progress_wf pr \<Longrightarrow> progress_wf (BecomeReplicate pr)"
  "progress_wf pr \<Longrightarrow> progress_wf (BecomeSnapshot i pr)"
  by (simp_all add: progress_wf_def reset_wf)

lemma progress_wf_MaybeUpdate: "progress_wf pr \<Longrightarrow> progress_wf (fst (MaybeUpdate n pr))"
  using MaybeUpdate_simps(5) [of n pr] by (cases "MaybeUpdate n pr") (simp add: progress_wf_def)

lemma progress_wf_MaybeDecrTo: "progress_wf pr \<Longrightarrow> progress_wf (fst (MaybeDecrTo r l pr))"
  using MaybeDecrTo_simps(3) [of r l pr] by (cases "MaybeDecrTo r l pr") (simp add: progress_wf_def)

text \<open>The order that every operation but MaybeDecrTo keeps.\<close>

definition match_below_next :: "Progress \<Rightarrow> bool" where
  "match_below_next pr \<longleftrightarrow> prMatch pr < prNext pr"

lemma less_plus_one: "(x :: u64) \<noteq> - 1 \<Longrightarrow> x < x + 1"
  using unat_plus_one [of x] by (simp add: word_less_nat_alt)

lemma match_below_next_MaybeUpdate:
  assumes "match_below_next pr" "n \<noteq> - 1" "MaybeUpdate n pr = (pr', b)"
  shows "match_below_next pr'"
  using assms less_plus_one [of n] MaybeUpdate_simps(2,3) [OF assms(3)]
  by (auto simp: match_below_next_def max_def split: if_splits)

lemma match_below_next_become:
  assumes "prMatch pr \<noteq> - 1"
  shows "match_below_next (BecomeProbe pr)" "match_below_next (BecomeReplicate pr)"
    and "match_below_next pr \<Longrightarrow> match_below_next (BecomeSnapshot i pr)"
  using less_plus_one [OF assms]
  by (auto simp: match_below_next_def progress_defs Let_def max_def intro: less_le_trans)

end
