(* ===== verification/Tracker.thy ===== *)
theory Tracker
  imports Quorum Progress Raftpb
begin

text \<open>
  raft/tracker/tracker.go: the active configuration (voters, learners, staged learners), the
  progress of every peer, the votes of the running election. Learners, LearnersNext and the
  outgoing voters may be nil maps, which the configuration checks distinguish from empty ones.
\<close>

record Config =
  Voters :: JointConfig
  AutoLeave :: bool
  Learners :: idmap
  LearnersNext :: idmap

type_synonym ProgressMap = "(u64, Progress) fmap"

record ProgressTracker =
  trkConfig :: Config
  trkProgress :: ProgressMap
  trkVotes :: "(u64, bool) fmap"
  trkMaxInflight :: int

definition zeroConfig :: Config where
  "zeroConfig = \<lparr>Voters = (None, None), AutoLeave = False, Learners = None, LearnersNext = None\<rparr>"

text \<open>Config.Clone: AutoLeave is not among the fields it copies.\<close>

definition clone_map :: "idmap \<Rightarrow> idmap" where
  "clone_map m = (case m of None \<Rightarrow> None | Some s \<Rightarrow> Some (fset_of_list (sorted_keys s)))"

definition Config_Clone :: "Config \<Rightarrow> Config" where
  "Config_Clone c = zeroConfig\<lparr>
     Voters := (clone_map (fst (Voters c)), clone_map (snd (Voters c))),
     Learners := clone_map (Learners c),
     LearnersNext := clone_map (LearnersNext c)\<rparr>"

definition MakeProgressTracker :: "int \<Rightarrow> ProgressTracker" where
  "MakeProgressTracker maxInflight =
     \<lparr>trkConfig = zeroConfig\<lparr>Voters := (Some {||}, None)\<rparr>,
      trkProgress = fmempty, trkVotes = fmempty, trkMaxInflight = maxInflight\<rparr>"

definition Tracker_ConfState :: "ProgressTracker \<Rightarrow> ConfState" where
  "Tracker_ConfState p = \<lparr>
     csVoters = Majority_Slice (fst (Voters (trkConfig p))),
     csLearners = Majority_Slice (Learners (trkConfig p)),
     csVotersOutgoing = Majority_Slice (snd (Voters (trkConfig p))),
     csLearnersNext = Majority_Slice (LearnersNext (trkConfig p)),
     csAutoLeave = AutoLeave (trkConfig p)\<rparr>"

definition IsSingleton :: "ProgressTracker \<Rightarrow> bool" where
  "IsSingleton p \<longleftrightarrow> fcard (ids_of (fst (Voters (trkConfig p)))) = 1
     \<and> fcard (ids_of (snd (Voters (trkConfig p)))) = 0"

text \<open>matchAckIndexer.\<close>

definition AckedIndex :: "ProgressMap \<Rightarrow> u64 \<Rightarrow> u64 option" where
  "AckedIndex l i = (case fmlookup l i of None \<Rightarrow> None | Some pr \<Rightarrow> Some (prMatch pr))"

definition Tracker_Committed :: "ProgressTracker \<Rightarrow> u64" where
  "Tracker_Committed p = Joint_CommittedIndex (Voters (trkConfig p)) (AckedIndex (trkProgress p))"

text \<open>Visit calls its closure for the tracked ids in increasing order: \<open>visit_ids\<close> is that
  order; a closure that updates the visited record only is \<open>Visit_update\<close>.\<close>

definition visit_ids :: "ProgressTracker \<Rightarrow> u64 list" where
  "visit_ids p = insertionSort (sorted_keys (fmdom (trkProgress p)))"

definition Visit_update :: "(u64 \<Rightarrow> Progress \<Rightarrow> Progress) \<Rightarrow> ProgressTracker \<Rightarrow> ProgressTracker" where
  "Visit_update f p =
     p\<lparr>trkProgress := fold (\<lambda>i m. case fmlookup m i of None \<Rightarrow> m | Some pr \<Rightarrow> fmupd i (f i pr) m)
        (visit_ids p) (trkProgress p)\<rparr>"

definition QuorumActive :: "ProgressTracker \<Rightarrow> bool" where
  "QuorumActive p =
     (let votes = fold (\<lambda>i votes. case fmlookup (trkProgress p) i of
                None \<Rightarrow> votes
              | Some pr \<Rightarrow> if prIsLearner pr then votes else fmupd i (prRecentActive pr) votes)
            (visit_ids p) fmempty
      in Joint_VoteResult (Voters (trkConfig p)) votes = VoteWon)"

definition VoterNodes :: "ProgressTracker \<Rightarrow> u64 list" where
  "VoterNodes p = sorted_keys (Joint_IDs (Voters (trkConfig p)))"

definition LearnerNodes :: "ProgressTracker \<Rightarrow> u64 list" where
  "LearnerNodes p = sorted_keys (ids_of (Learners (trkConfig p)))"

definition ResetVotes :: "ProgressTracker \<Rightarrow> ProgressTracker" where
  "ResetVotes p = p\<lparr>trkVotes := fmempty\<rparr>"

definition RecordVote :: "u64 \<Rightarrow> bool \<Rightarrow> ProgressTracker \<Rightarrow> ProgressTracker" where
  "RecordVote i v p =
     (case fmlookup (trkVotes p) i of
        None \<Rightarrow> p\<lparr>trkVotes := fmupd i v (trkVotes p)\<rparr>
      | Some _ \<Rightarrow> p)"

text \<open>TallyVotes: the loop over the progress map, then the vote result.\<close>

fun grantLoop :: "ProgressTracker \<Rightarrow> u64 list \<Rightarrow> nat \<times> nat \<Rightarrow> nat \<times> nat" where
  "grantLoop p [] acc = acc"
| "grantLoop p (i # is) (granted, rejected) =
     (case fmlookup (trkProgress p) i of
        None \<Rightarrow> grantLoop p is (granted, rejected)
      | Some pr \<Rightarrow>
          if prIsLearner pr then grantLoop p is (granted, rejected)
          else (case fmlookup (trkVotes p) i of
                  None \<Rightarrow> grantLoop p is (granted, rejected)
                | Some v \<Rightarrow> if v then grantLoop p is (granted + 1, rejected)
                            else grantLoop p is (granted, rejected + 1)))"

definition TallyVotes :: "ProgressTracker \<Rightarrow> nat \<times> nat \<times> VoteResult" where
  "TallyVotes p =
     (case grantLoop p (sorted_keys (fmdom (trkProgress p))) (0, 0) of
        (granted, rejected) \<Rightarrow>
          (granted, rejected, Joint_VoteResult (Voters (trkConfig p)) (trkVotes p)))"

lemmas tracker_defs = zeroConfig_def clone_map_def Config_Clone_def MakeProgressTracker_def
  Tracker_ConfState_def IsSingleton_def AckedIndex_def Tracker_Committed_def visit_ids_def
  Visit_update_def QuorumActive_def VoterNodes_def LearnerNodes_def ResetVotes_def
  RecordVote_def TallyVotes_def

section \<open>Facts\<close>

lemma clone_map_id [simp]: "clone_map m = m"
  by (cases m) (simp_all add: clone_map_def sorted_keys_def)

lemma Config_Clone_eq: "Config_Clone c = c\<lparr>AutoLeave := False\<rparr>"
  by (cases c) (simp add: Config_Clone_def zeroConfig_def)

lemma insertionSort_id: "sorted xs \<Longrightarrow> insertionSort xs = xs"
  using insertionSort_correct [of xs] by (metis properties_for_sort)

lemma visit_ids_eq [simp]: "visit_ids p = sorted_keys (fmdom (trkProgress p))"
  by (simp add: visit_ids_def insertionSort_id)

text \<open>A visit that rewrites each record is a map over the progress map.\<close>

lemma fold_update_keys:
  assumes "distinct ids"
  shows "fmlookup (fold (\<lambda>i m. case fmlookup m i of None \<Rightarrow> m | Some pr \<Rightarrow> fmupd i (f i pr) m) ids m) k
    = (if k \<in> set ids then map_option (f k) (fmlookup m k) else fmlookup m k)"
  using assms
proof (induction ids arbitrary: m)
  case (Cons x ids)
  then show ?case by (cases "fmlookup m x") auto
qed simp

lemma Visit_update_lookup [simp]:
  "fmlookup (trkProgress (Visit_update f p)) k = map_option (f k) (fmlookup (trkProgress p) k)"
  by (auto simp: Visit_update_def fold_update_keys)

lemma Visit_update_eq: "Visit_update f p = p\<lparr>trkProgress := fmmap_keys f (trkProgress p)\<rparr>"
proof -
  have "trkProgress (Visit_update f p) = fmmap_keys f (trkProgress p)"
    by (intro fmap_ext) simp
  then show ?thesis by (cases p) (simp add: Visit_update_def)
qed

lemma Visit_update_frame [simp]:
  "trkConfig (Visit_update f p) = trkConfig p" "trkVotes (Visit_update f p) = trkVotes p"
  "trkMaxInflight (Visit_update f p) = trkMaxInflight p"
  "fmdom (trkProgress (Visit_update f p)) = fmdom (trkProgress p)"
  by (simp_all add: Visit_update_eq)

lemma RecordVote_frame [simp]:
  "trkConfig (RecordVote i v p) = trkConfig p" "trkProgress (RecordVote i v p) = trkProgress p"
  "trkMaxInflight (RecordVote i v p) = trkMaxInflight p"
  by (simp_all add: RecordVote_def split: option.splits)

lemma RecordVote_keeps:
  "fmlookup (trkVotes p) j = Some b \<Longrightarrow> fmlookup (trkVotes (RecordVote i v p)) j = Some b"
  by (auto simp: RecordVote_def split: option.splits)

lemma ResetVotes_frame [simp]:
  "trkConfig (ResetVotes p) = trkConfig p" "trkProgress (ResetVotes p) = trkProgress p"
  "trkMaxInflight (ResetVotes p) = trkMaxInflight p" "trkVotes (ResetVotes p) = fmempty"
  by (simp_all add: ResetVotes_def)

lemma TallyVotes_result: "snd (snd (TallyVotes p)) = Joint_VoteResult (Voters (trkConfig p)) (trkVotes p)"
  by (simp add: TallyVotes_def split: prod.splits)

lemma QuorumActive_iff:
  "QuorumActive p \<longleftrightarrow> joint_quorum (Voters (trkConfig p))
     {i. \<exists>pr. fmlookup (trkProgress p) i = Some pr \<and> \<not> prIsLearner pr \<and> prRecentActive pr}"
proof -
  let ?f = "\<lambda>i votes. case fmlookup (trkProgress p) i of
      None \<Rightarrow> votes
    | Some pr \<Rightarrow> if prIsLearner pr then votes else fmupd i (prRecentActive pr) votes"
  have "fmlookup (fold ?f ids votes) i = Some True \<longleftrightarrow>
      (if i \<in> set ids \<and> (\<exists>pr. fmlookup (trkProgress p) i = Some pr \<and> \<not> prIsLearner pr)
       then prRecentActive (the (fmlookup (trkProgress p) i)) else fmlookup votes i = Some True)"
    if "distinct ids" for ids votes i
    using that
  proof (induction ids arbitrary: votes)
    case (Cons x ids)
    then show ?case by (auto split: option.splits)
  qed simp
  then have "yes_votes (fold ?f (visit_ids p) fmempty) =
      {i. \<exists>pr. fmlookup (trkProgress p) i = Some pr \<and> \<not> prIsLearner pr \<and> prRecentActive pr}"
    by (auto simp: yes_votes_def fmlookup_dom_iff)
  then show ?thesis by (simp add: QuorumActive_def joint.won_iff)
qed

end
