(* ===== verification/Confchange.thy ===== *)
theory Confchange
  imports Tracker
begin

text \<open>
  raft/confchange: the Changer that validates and applies configuration changes
  (confchange.go) and Restore, which rebuilds a configuration from a ConfState (restore.go).

  An operation returns an option for the panics (a write to a nil map, a nil progress
  pointer) of a sum: the error, or the new configuration and progress map. Go visits a map in
  an unspecified order; where the order decides which of several errors is reported the
  definitions take the smallest id first.
\<close>

datatype ConfErr =
    NoProgress u64
  | StagedNotOutgoing u64
  | StagedAlreadyLearner u64
  | LearnerInOutgoing u64
  | LearnerInIncoming u64
  | LearnerNotMarked u64
  | OutgoingNotNil
  | LearnersNextNotNil
  | AutoLeaveNotJoint
  | AlreadyJoint
  | ZeroVoterJoint
  | LeaveNonJoint
  | NotJoint
  | SimpleInJoint
  | MoreThanOneVoter
  | UnexpectedConfType ConfChangeType
  | RemovedAllVoters

record Changer =
  chTracker :: ProgressTracker
  chLastIndex :: u64

type_synonym confResult = "(ConfErr + Config \<times> ProgressMap) option"

definition incoming :: "JointConfig \<Rightarrow> idmap" where
  "incoming voters = fst voters"

definition outgoing :: "JointConfig \<Rightarrow> idmap" where
  "outgoing voters = snd voters"

definition joint :: "Config \<Rightarrow> bool" where
  "joint cfg \<longleftrightarrow> fcard (ids_of (outgoing (Voters cfg))) > 0"

definition nilAwareAdd :: "u64 \<Rightarrow> idmap \<Rightarrow> idmap" where
  "nilAwareAdd i m = (case m of None \<Rightarrow> Some {|i|} | Some s \<Rightarrow> Some (finsert i s))"

definition nilAwareDelete :: "u64 \<Rightarrow> idmap \<Rightarrow> idmap" where
  "nilAwareDelete i m =
     (case m of
        None \<Rightarrow> None
      | Some s \<Rightarrow> (let s' = s |-| {|i|} in if fcard s' = 0 then None else Some s'))"

definition symdiff :: "idmap \<Rightarrow> idmap \<Rightarrow> nat" where
  "symdiff l r =
     (let count = (\<lambda>a b. fold (\<lambda>i n. if i |\<in>| b then n else n + 1) (sorted_keys a))
      in count (ids_of r) (ids_of l) (count (ids_of l) (ids_of r) 0))"

text \<open>A loop over ids that returns the first error.\<close>

fun firstErr :: "(u64 \<Rightarrow> ConfErr option option) \<Rightarrow> u64 list \<Rightarrow> ConfErr option option" where
  "firstErr f [] = Some None"
| "firstErr f (i # is) =
     do { e \<leftarrow> f i; case e of Some err \<Rightarrow> Some (Some err) | None \<Rightarrow> firstErr f is }"

text \<open>\<open>prs[id].IsLearner\<close> dereferences a nil pointer when \<open>id\<close> is not tracked.\<close>

definition isLearnerOf :: "ProgressMap \<Rightarrow> u64 \<Rightarrow> bool option" where
  "isLearnerOf prs i = map_option prIsLearner (fmlookup prs i)"

text \<open>The three loops of checkInvariants and its final test.\<close>

definition checkTracked :: "Config \<Rightarrow> ProgressMap \<Rightarrow> ConfErr option option" where
  "checkTracked cfg prs =
     firstErr (\<lambda>i. Some (if i |\<in>| fmdom prs then None else Some (NoProgress i)))
       (sorted_keys (Joint_IDs (Voters cfg)) @ sorted_keys (ids_of (Learners cfg))
        @ sorted_keys (ids_of (LearnersNext cfg)))"

definition checkStaged :: "Config \<Rightarrow> ProgressMap \<Rightarrow> ConfErr option option" where
  "checkStaged cfg prs =
     firstErr (\<lambda>i.
       if i |\<notin>| ids_of (outgoing (Voters cfg)) then Some (Some (StagedNotOutgoing i))
       else do {
         l \<leftarrow> isLearnerOf prs i;
         Some (if l then Some (StagedAlreadyLearner i) else None)
       }) (sorted_keys (ids_of (LearnersNext cfg)))"

definition checkLearners :: "Config \<Rightarrow> ProgressMap \<Rightarrow> ConfErr option option" where
  "checkLearners cfg prs =
     firstErr (\<lambda>i.
       if i |\<in>| ids_of (outgoing (Voters cfg)) then Some (Some (LearnerInOutgoing i))
       else if i |\<in>| ids_of (incoming (Voters cfg)) then Some (Some (LearnerInIncoming i))
       else do {
         l \<leftarrow> isLearnerOf prs i;
         Some (if \<not> l then Some (LearnerNotMarked i) else None)
       }) (sorted_keys (ids_of (Learners cfg)))"

definition checkNonJoint :: "Config \<Rightarrow> ConfErr option" where
  "checkNonJoint cfg =
     (if \<not> joint cfg then
        (if outgoing (Voters cfg) \<noteq> None then Some OutgoingNotNil
         else if LearnersNext cfg \<noteq> None then Some LearnersNextNotNil
         else if AutoLeave cfg then Some AutoLeaveNotJoint
         else None)
      else None)"

definition checkInvariants :: "Config \<Rightarrow> ProgressMap \<Rightarrow> ConfErr option option" where
  "checkInvariants cfg prs =
     do {
       e1 \<leftarrow> checkTracked cfg prs;
       if e1 \<noteq> None then Some e1
       else do {
         e2 \<leftarrow> checkStaged cfg prs;
         if e2 \<noteq> None then Some e2
         else do {
           e3 \<leftarrow> checkLearners cfg prs;
           if e3 \<noteq> None then Some e3 else Some (checkNonJoint cfg)
         }
       }
     }"

definition checkAndReturn :: "Config \<Rightarrow> ProgressMap \<Rightarrow> confResult" where
  "checkAndReturn cfg prs =
     do {
       e \<leftarrow> checkInvariants cfg prs;
       case e of Some err \<Rightarrow> Some (Inl err) | None \<Rightarrow> Some (Inr (cfg, prs))
     }"

definition checkAndCopy :: "Changer \<Rightarrow> confResult" where
  "checkAndCopy c =
     (let cfg = Config_Clone (trkConfig (chTracker c));
          prs = fmmap (\<lambda>pr. pr) (trkProgress (chTracker c))
      in checkAndReturn cfg prs)"

definition initProgress ::
  "Changer \<Rightarrow> u64 \<Rightarrow> bool \<Rightarrow> Config \<times> ProgressMap \<Rightarrow> (Config \<times> ProgressMap) option" where
  "initProgress c i isLearner = (\<lambda>(cfg, prs).
     do {
       cfg \<leftarrow> (if \<not> isLearner then
                do {
                  inc \<leftarrow> map_put (incoming (Voters cfg)) i;
                  Some (cfg\<lparr>Voters := (inc, outgoing (Voters cfg))\<rparr>)
                }
              else Some (cfg\<lparr>Learners := nilAwareAdd i (Learners cfg)\<rparr>));
       Some (cfg, fmupd i
         \<lparr>prMatch = 0, prNext = chLastIndex c, prState = StateProbe, prPendingSnapshot = 0,
          prRecentActive = True, prProbeSent = False,
          prInflights = NewInflights (trkMaxInflight (chTracker c)), prIsLearner = isLearner\<rparr> prs)
     })"

definition makeVoter ::
  "Changer \<Rightarrow> u64 \<Rightarrow> Config \<times> ProgressMap \<Rightarrow> (Config \<times> ProgressMap) option" where
  "makeVoter c i = (\<lambda>(cfg, prs).
     case fmlookup prs i of
       None \<Rightarrow> initProgress c i False (cfg, prs)
     | Some pr \<Rightarrow>
         do {
           let prs = fmupd i (pr\<lparr>prIsLearner := False\<rparr>) prs;
           let cfg = cfg\<lparr>Learners := nilAwareDelete i (Learners cfg)\<rparr>;
           let cfg = cfg\<lparr>LearnersNext := nilAwareDelete i (LearnersNext cfg)\<rparr>;
           inc \<leftarrow> map_put (incoming (Voters cfg)) i;
           Some (cfg\<lparr>Voters := (inc, outgoing (Voters cfg))\<rparr>, prs)
         })"

definition remove :: "u64 \<Rightarrow> Config \<times> ProgressMap \<Rightarrow> Config \<times> ProgressMap" where
  "remove i = (\<lambda>(cfg, prs).
     if i |\<notin>| fmdom prs then (cfg, prs)
     else
       let cfg = cfg\<lparr>Voters := (map_del (incoming (Voters cfg)) i, outgoing (Voters cfg))\<rparr>;
           cfg = cfg\<lparr>Learners := nilAwareDelete i (Learners cfg)\<rparr>;
           cfg = cfg\<lparr>LearnersNext := nilAwareDelete i (LearnersNext cfg)\<rparr>;
           prs = (if i |\<notin>| ids_of (outgoing (Voters cfg)) then fmdrop i prs else prs)
       in (cfg, prs))"

text \<open>The progress pointer outlives its removal from the map and is stored again.\<close>

definition makeLearner ::
  "Changer \<Rightarrow> u64 \<Rightarrow> Config \<times> ProgressMap \<Rightarrow> (Config \<times> ProgressMap) option" where
  "makeLearner c i = (\<lambda>(cfg, prs).
     case fmlookup prs i of
       None \<Rightarrow> initProgress c i True (cfg, prs)
     | Some pr \<Rightarrow>
         if prIsLearner pr then Some (cfg, prs)
         else
           let (cfg, prs) = remove i (cfg, prs);
               prs = fmupd i pr prs
           in if i |\<in>| ids_of (outgoing (Voters cfg))
              then Some (cfg\<lparr>LearnersNext := nilAwareAdd i (LearnersNext cfg)\<rparr>, prs)
              else
                let pr = pr\<lparr>prIsLearner := True\<rparr>
                in Some (cfg\<lparr>Learners := nilAwareAdd i (Learners cfg)\<rparr>, fmupd i pr prs))"

text \<open>The loop of apply, then its final check.\<close>

fun applyLoop ::
  "Changer \<Rightarrow> ConfChangeSingle list \<Rightarrow> Config \<times> ProgressMap \<Rightarrow> confResult" where
  "applyLoop c [] s = Some (Inr s)"
| "applyLoop c (cc # ccs) s =
     (if csNodeID cc = 0 then applyLoop c ccs s
      else if csType cc = ConfChangeAddNode then
        do { s \<leftarrow> makeVoter c (csNodeID cc) s; applyLoop c ccs s }
      else if csType cc = ConfChangeAddLearnerNode then
        do { s \<leftarrow> makeLearner c (csNodeID cc) s; applyLoop c ccs s }
      else if csType cc = ConfChangeRemoveNode then
        applyLoop c ccs (remove (csNodeID cc) s)
      else if csType cc = ConfChangeUpdateNode then applyLoop c ccs s
      else Some (Inl (UnexpectedConfType (csType cc))))"

definition Changer_apply ::
  "Changer \<Rightarrow> ConfChangeSingle list \<Rightarrow> Config \<times> ProgressMap \<Rightarrow> confResult" where
  "Changer_apply c ccs s =
     do {
       r \<leftarrow> applyLoop c ccs s;
       case r of
         Inl err \<Rightarrow> Some (Inl err)
       | Inr (cfg, prs) \<Rightarrow>
           if fcard (ids_of (incoming (Voters cfg))) = 0 then Some (Inl RemovedAllVoters)
           else Some (Inr (cfg, prs))
     }"

definition Changer_EnterJoint :: "Changer \<Rightarrow> bool \<Rightarrow> ConfChangeSingle list \<Rightarrow> confResult" where
  "Changer_EnterJoint c autoLeave ccs =
     do {
       r \<leftarrow> checkAndCopy c;
       case r of
         Inl err \<Rightarrow> Some (Inl err)
       | Inr (cfg, prs) \<Rightarrow>
           if joint cfg then Some (Inl AlreadyJoint)
           else if fcard (ids_of (incoming (Voters cfg))) = 0 then Some (Inl ZeroVoterJoint)
           else do {
             let cfg = cfg\<lparr>Voters := (incoming (Voters cfg), Some {||})\<rparr>;
             out \<leftarrow> foldM (\<lambda>i m. map_put m i) (sorted_keys (ids_of (incoming (Voters cfg))))
               (outgoing (Voters cfg));
             let cfg = cfg\<lparr>Voters := (incoming (Voters cfg), out)\<rparr>;
             a \<leftarrow> Changer_apply c ccs (cfg, prs);
             case a of
               Inl err \<Rightarrow> Some (Inl err)
             | Inr (cfg, prs) \<Rightarrow> checkAndReturn (cfg\<lparr>AutoLeave := autoLeave\<rparr>) prs
           }
     }"

definition Changer_LeaveJoint :: "Changer \<Rightarrow> confResult" where
  "Changer_LeaveJoint c =
     do {
       r \<leftarrow> checkAndCopy c;
       case r of
         Inl err \<Rightarrow> Some (Inl err)
       | Inr (cfg, prs) \<Rightarrow>
           if \<not> joint cfg then Some (Inl LeaveNonJoint)
           else if fcard (ids_of (outgoing (Voters cfg))) = 0 then Some (Inl NotJoint)
           else do {
             (cfg, prs) \<leftarrow> foldM (\<lambda>i (cfg, prs).
                 do {
                   let cfg = cfg\<lparr>Learners := nilAwareAdd i (Learners cfg)\<rparr>;
                   pr \<leftarrow> fmlookup prs i;
                   Some (cfg, fmupd i (pr\<lparr>prIsLearner := True\<rparr>) prs)
                 }) (sorted_keys (ids_of (LearnersNext cfg))) (cfg, prs);
             let cfg = cfg\<lparr>LearnersNext := None\<rparr>;
             let prs = fold (\<lambda>i prs.
                 let isVoter = i |\<in>| ids_of (incoming (Voters cfg));
                     isLearner = i |\<in>| ids_of (Learners cfg)
                 in if \<not> isVoter \<and> \<not> isLearner then fmdrop i prs else prs)
               (sorted_keys (ids_of (outgoing (Voters cfg)))) prs;
             let cfg = cfg\<lparr>Voters := (incoming (Voters cfg), None)\<rparr>;
             let cfg = cfg\<lparr>AutoLeave := False\<rparr>;
             checkAndReturn cfg prs
           }
     }"

text \<open>When checkInvariants fails, Simple returns the zero configuration with a nil error.\<close>

definition Changer_Simple :: "Changer \<Rightarrow> ConfChangeSingle list \<Rightarrow> confResult" where
  "Changer_Simple c ccs =
     do {
       r \<leftarrow> checkAndCopy c;
       case r of
         Inl err \<Rightarrow> Some (Inl err)
       | Inr (cfg, prs) \<Rightarrow>
           if joint cfg then Some (Inl SimpleInJoint)
           else do {
             a \<leftarrow> Changer_apply c ccs (cfg, prs);
             case a of
               Inl err \<Rightarrow> Some (Inl err)
             | Inr (cfg, prs) \<Rightarrow>
                 if symdiff (incoming (Voters (trkConfig (chTracker c)))) (incoming (Voters cfg)) > 1
                 then Some (Inl MoreThanOneVoter)
                 else do {
                   e \<leftarrow> checkInvariants cfg prs;
                   if e \<noteq> None then Some (Inr (zeroConfig, fmempty))
                   else checkAndReturn cfg prs
                 }
           }
     }"

text \<open>The function literal of raft.applyConfChange, which picks the operation that a
  configuration change asks for.\<close>

definition Changer_change :: "Changer \<Rightarrow> ConfChangeV2 \<Rightarrow> confResult" where
  "Changer_change changer cc =
     (if LeaveJoint cc then Changer_LeaveJoint changer
      else do {
        (autoLeave, ok) \<leftarrow> EnterJoint cc;
        if ok then Changer_EnterJoint changer autoLeave (v2Changes cc)
        else Changer_Simple changer (v2Changes cc)
      })"

section \<open>Restore\<close>

definition confChange_of :: "ConfChangeType \<Rightarrow> u64 \<Rightarrow> ConfChangeSingle" where
  "confChange_of t i = zeroConfChangeSingle\<lparr>csType := t, csNodeID := i\<rparr>"

definition toConfChangeSingle ::
  "ConfState \<Rightarrow> ConfChangeSingle list \<times> ConfChangeSingle list" where
  "toConfChangeSingle cs =
     (map (confChange_of ConfChangeAddNode) (csVotersOutgoing cs),
      map (confChange_of ConfChangeRemoveNode) (csVotersOutgoing cs)
      @ map (confChange_of ConfChangeAddNode) (csVoters cs)
      @ map (confChange_of ConfChangeAddLearnerNode) (csLearners cs)
      @ map (confChange_of ConfChangeAddLearnerNode) (csLearnersNext cs))"

fun chain :: "Changer \<Rightarrow> (Changer \<Rightarrow> confResult) list \<Rightarrow> confResult" where
  "chain chg [] = Some (Inr (trkConfig (chTracker chg), trkProgress (chTracker chg)))"
| "chain chg (op # ops) =
     do {
       r \<leftarrow> op chg;
       case r of
         Inl err \<Rightarrow> Some (Inl err)
       | Inr (cfg, prs) \<Rightarrow>
           chain (chg\<lparr>chTracker := (chTracker chg)\<lparr>trkConfig := cfg, trkProgress := prs\<rparr>\<rparr>) ops
     }"

definition Restore :: "Changer \<Rightarrow> ConfState \<Rightarrow> confResult" where
  "Restore chg cs =
     (case toConfChangeSingle cs of (out, inc) \<Rightarrow>
        let ops = (if length out = 0 then map (\<lambda>cc chg. Changer_Simple chg [cc]) inc
                   else map (\<lambda>cc chg. Changer_Simple chg [cc]) out
                        @ [\<lambda>chg. Changer_EnterJoint chg (csAutoLeave cs) inc])
        in chain chg ops)"

lemmas confchange_defs = incoming_def outgoing_def joint_def nilAwareAdd_def nilAwareDelete_def
  isLearnerOf_def checkAndReturn_def checkAndCopy_def

section \<open>Facts\<close>

lemma ids_of_nilAware [simp]:
  "ids_of (nilAwareAdd i m) = finsert i (ids_of m)"
  "ids_of (nilAwareDelete i m) = ids_of m |-| {|i|}"
  by (auto simp: nilAwareAdd_def nilAwareDelete_def Let_def split: option.splits)

lemma nilAwareDelete_None [simp]: "nilAwareDelete i None = None"
  by (simp add: nilAwareDelete_def)

lemma joint_iff: "joint cfg \<longleftrightarrow> ids_of (snd (Voters cfg)) \<noteq> {||}"
  by (simp add: joint_def outgoing_def flip: fcard_0_eq)

lemma firstErr_total:
  assumes "\<And>i. i \<in> set is \<Longrightarrow> f i \<noteq> None"
  shows "firstErr f is \<noteq> None"
  using assms
proof (induction "is")
  case (Cons a "is")
  then have "f a \<noteq> None" "firstErr f is \<noteq> None" by auto
  then show ?case by (auto split: option.splits)
qed simp

lemma firstErr_ok: "firstErr f is = Some None \<longleftrightarrow> (\<forall>i \<in> set is. f i = Some None)"
  by (induction "is") (auto simp: bind_eq_Some_conv split: option.splits)

text \<open>What checkInvariants accepts.\<close>

definition conf_ok :: "Config \<Rightarrow> ProgressMap \<Rightarrow> bool" where
  "conf_ok cfg prs \<longleftrightarrow>
     Joint_IDs (Voters cfg) |\<union>| ids_of (Learners cfg) |\<union>| ids_of (LearnersNext cfg) |\<subseteq>| fmdom prs
     \<and> (\<forall>i. i |\<in>| ids_of (LearnersNext cfg) \<longrightarrow>
           i |\<in>| ids_of (outgoing (Voters cfg)) \<and> isLearnerOf prs i = Some False)
     \<and> (\<forall>i. i |\<in>| ids_of (Learners cfg) \<longrightarrow>
           i |\<notin>| Joint_IDs (Voters cfg) \<and> isLearnerOf prs i = Some True)
     \<and> (\<not> joint cfg \<longrightarrow>
           outgoing (Voters cfg) = None \<and> LearnersNext cfg = None \<and> \<not> AutoLeave cfg)"

lemma isLearnerOf_tracked: "i |\<in>| fmdom prs \<Longrightarrow> isLearnerOf prs i \<noteq> None"
  by (auto simp: isLearnerOf_def fmlookup_dom_iff)

lemma checkTracked_ok: "checkTracked cfg prs = Some None \<longleftrightarrow>
    Joint_IDs (Voters cfg) |\<union>| ids_of (Learners cfg) |\<union>| ids_of (LearnersNext cfg) |\<subseteq>| fmdom prs"
  by (auto simp: checkTracked_def firstErr_ok ball_Un split: if_splits)

lemma checkStaged_ok: "checkStaged cfg prs = Some None \<longleftrightarrow>
    (\<forall>i. i |\<in>| ids_of (LearnersNext cfg) \<longrightarrow>
           i |\<in>| ids_of (outgoing (Voters cfg)) \<and> isLearnerOf prs i = Some False)"
  unfolding checkStaged_def firstErr_ok set_sorted_keys
  by (auto simp: bind_eq_Some_conv split: if_splits) 

lemma checkLearners_ok: "checkLearners cfg prs = Some None \<longleftrightarrow>
    (\<forall>i. i |\<in>| ids_of (Learners cfg) \<longrightarrow>
           i |\<notin>| Joint_IDs (Voters cfg) \<and> isLearnerOf prs i = Some True)"
  unfolding checkLearners_def firstErr_ok set_sorted_keys Joint_IDs_def incoming_def outgoing_def
  by (auto simp: bind_eq_Some_conv split: if_splits) 

lemma checkNonJoint_ok: "checkNonJoint cfg = None \<longleftrightarrow> (\<not> joint cfg \<longrightarrow>
           outgoing (Voters cfg) = None \<and> LearnersNext cfg = None \<and> \<not> AutoLeave cfg)"
  by (simp add: checkNonJoint_def)

lemma checkInvariants_ok: "checkInvariants cfg prs = Some None \<longleftrightarrow> conf_ok cfg prs"
proof -
  have "checkInvariants cfg prs = Some None \<longleftrightarrow> checkTracked cfg prs = Some None
      \<and> checkStaged cfg prs = Some None \<and> checkLearners cfg prs = Some None \<and> checkNonJoint cfg = None"
    unfolding checkInvariants_def by (auto split: if_splits)
  then show ?thesis
    by (simp add: conf_ok_def checkTracked_ok checkStaged_ok checkLearners_ok checkNonJoint_ok)
qed

lemma checkInvariants_total: "checkInvariants cfg prs \<noteq> None"
proof -
  have 1: "checkTracked cfg prs \<noteq> None"
    unfolding checkTracked_def by (rule firstErr_total) simp
  have 2: "checkStaged cfg prs \<noteq> None" if "checkTracked cfg prs = Some None"
    unfolding checkStaged_def
  proof (rule firstErr_total)
    fix i assume "i \<in> set (sorted_keys (ids_of (LearnersNext cfg)))"
    with that have "isLearnerOf prs i \<noteq> None" by (intro isLearnerOf_tracked) (auto simp: checkTracked_ok)
    then show "(if i |\<notin>| ids_of (outgoing (Voters cfg)) then Some (Some (StagedNotOutgoing i))
       else do {
         l \<leftarrow> isLearnerOf prs i;
         Some (if l then Some (StagedAlreadyLearner i) else None)
       }) \<noteq> None" by auto
  qed
  have 3: "checkLearners cfg prs \<noteq> None" if "checkTracked cfg prs = Some None"
    unfolding checkLearners_def
  proof (rule firstErr_total)
    fix i assume "i \<in> set (sorted_keys (ids_of (Learners cfg)))"
    with that have "isLearnerOf prs i \<noteq> None" by (intro isLearnerOf_tracked) (auto simp: checkTracked_ok)
    then show "(if i |\<in>| ids_of (outgoing (Voters cfg)) then Some (Some (LearnerInOutgoing i))
       else if i |\<in>| ids_of (incoming (Voters cfg)) then Some (Some (LearnerInIncoming i))
       else do {
         l \<leftarrow> isLearnerOf prs i;
         Some (if \<not> l then Some (LearnerNotMarked i) else None)
       }) \<noteq> None" by auto
  qed
  from 1 2 3 show ?thesis by (auto simp: checkInvariants_def)
qed

lemma checkAndReturn_cases:
  obtains "conf_ok cfg prs" "checkAndReturn cfg prs = Some (Inr (cfg, prs))"
  | err where "\<not> conf_ok cfg prs" "checkAndReturn cfg prs = Some (Inl err)"
  using checkInvariants_total [of cfg prs] checkInvariants_ok [of cfg prs]
  unfolding checkAndReturn_def by (cases "checkInvariants cfg prs") (auto split: option.splits)

lemma checkAndReturn_ok [simp]:
  "checkAndReturn cfg prs = Some (Inr r) \<longleftrightarrow> r = (cfg, prs) \<and> conf_ok cfg prs"
  by (rule checkAndReturn_cases [of cfg prs]) auto

text \<open>
  The invariant of the configurations that the Changer builds: the tracked ids are exactly
  the configured ones, an id is marked as a learner exactly when it is in Learners, and the
  roles are disjoint. It is stronger than what checkInvariants tests.
\<close>

definition conf_inv :: "Config \<Rightarrow> ProgressMap \<Rightarrow> bool" where
  "conf_inv cfg prs \<longleftrightarrow>
     fst (Voters cfg) \<noteq> None
     \<and> fmdom prs = Joint_IDs (Voters cfg) |\<union>| ids_of (Learners cfg)
     \<and> (\<forall>i pr. fmlookup prs i = Some pr \<longrightarrow> (prIsLearner pr \<longleftrightarrow> i |\<in>| ids_of (Learners cfg)))
     \<and> ids_of (Learners cfg) |\<inter>| Joint_IDs (Voters cfg) = {||}
     \<and> ids_of (LearnersNext cfg) |\<subseteq>| ids_of (snd (Voters cfg))
     \<and> ids_of (LearnersNext cfg) |\<inter>| ids_of (fst (Voters cfg)) = {||}
     \<and> (\<not> joint cfg \<longrightarrow> snd (Voters cfg) = None \<and> LearnersNext cfg = None \<and> \<not> AutoLeave cfg)"

lemma conf_inv_dom: "conf_inv cfg prs \<Longrightarrow> i |\<in>| fmdom prs \<longleftrightarrow>
    i |\<in>| ids_of (fst (Voters cfg)) \<or> i |\<in>| ids_of (snd (Voters cfg)) \<or> i |\<in>| ids_of (Learners cfg)"
  by (auto simp: conf_inv_def Joint_IDs_def)

lemma conf_inv_learner: "conf_inv cfg prs \<Longrightarrow> fmlookup prs i = Some pr \<Longrightarrow>
    prIsLearner pr \<longleftrightarrow> i |\<in>| ids_of (Learners cfg)"
  by (simp add: conf_inv_def)

lemma conf_inv_disjoint:
  assumes "conf_inv cfg prs"
  shows "i |\<in>| ids_of (Learners cfg) \<Longrightarrow> i |\<notin>| ids_of (fst (Voters cfg))"
    and "i |\<in>| ids_of (Learners cfg) \<Longrightarrow> i |\<notin>| ids_of (snd (Voters cfg))"
    and "i |\<in>| ids_of (LearnersNext cfg) \<Longrightarrow> i |\<notin>| ids_of (fst (Voters cfg))"
    and "i |\<in>| ids_of (LearnersNext cfg) \<Longrightarrow> i |\<in>| ids_of (snd (Voters cfg))"
  using assms unfolding conf_inv_def Joint_IDs_def by blast+

lemma conf_inv_ok:
  assumes "conf_inv cfg prs"
  shows "conf_ok cfg prs"
proof -
  note dom = conf_inv_dom [OF assms] and disj = conf_inv_disjoint [OF assms]
  have mark: "isLearnerOf prs i = Some (i |\<in>| ids_of (Learners cfg))" if "i |\<in>| fmdom prs" for i
    using that conf_inv_learner [OF assms, of i] by (auto simp: isLearnerOf_def fmlookup_dom_iff)
  show ?thesis
    unfolding conf_ok_def outgoing_def
  proof (intro conjI allI impI)
    show "Joint_IDs (Voters cfg) |\<union>| ids_of (Learners cfg) |\<union>| ids_of (LearnersNext cfg) |\<subseteq>| fmdom prs"
      using dom disj(4) by (auto simp: Joint_IDs_def)
  next
    fix i assume i: "i |\<in>| ids_of (LearnersNext cfg)"
    then show "i |\<in>| ids_of (snd (Voters cfg))" by (rule disj)
    with i show "isLearnerOf prs i = Some False"
      using disj(2) [of i] by (subst mark) (auto simp: dom)
  next
    fix i assume i: "i |\<in>| ids_of (Learners cfg)"
    then show "i |\<notin>| Joint_IDs (Voters cfg)" using disj(1,2) by (auto simp: Joint_IDs_def)
    from i show "isLearnerOf prs i = Some True" by (subst mark) (auto simp: dom)
  qed (use assms in \<open>simp_all add: conf_inv_def\<close>)
qed

section \<open>What a change does to the roles\<close>

text \<open>
  The roles of a configuration: the incoming voters, the learners and the staged learners,
  with the outgoing voters fixed. \<open>role_step\<close> is the effect of one change on them.
\<close>

type_synonym roles = "u64 fset \<times> u64 fset \<times> u64 fset"

definition roles_of :: "Config \<Rightarrow> roles" where
  "roles_of cfg = (ids_of (fst (Voters cfg)), ids_of (Learners cfg), ids_of (LearnersNext cfg))"

definition role_step :: "u64 fset \<Rightarrow> ConfChangeSingle \<Rightarrow> roles \<Rightarrow> roles" where
  "role_step out cc = (\<lambda>(vs, ls, ns).
     let i = csNodeID cc; t = csType cc in
     if i = 0 then (vs, ls, ns)
     else if t = ConfChangeAddNode then (finsert i vs, ls |-| {|i|}, ns |-| {|i|})
     else if t = ConfChangeAddLearnerNode then
       (if i |\<in>| out then (vs |-| {|i|}, ls, finsert i ns) else (vs |-| {|i|}, finsert i ls, ns))
     else if t = ConfChangeRemoveNode then (vs |-| {|i|}, ls |-| {|i|}, ns |-| {|i|})
     else (vs, ls, ns))"

lemma makeVoter_step:
  assumes inv: "conf_inv cfg prs" and "i \<noteq> 0"
  shows "\<exists>cfg' prs'. makeVoter c i (cfg, prs) = Some (cfg', prs') \<and> conf_inv cfg' prs'
    \<and> roles_of cfg' = role_step (ids_of (snd (Voters cfg))) (confChange_of ConfChangeAddNode i) (roles_of cfg)
    \<and> snd (Voters cfg') = snd (Voters cfg) \<and> AutoLeave cfg' = AutoLeave cfg"
proof (cases cfg)
  case (fields voters al ls ns)
  obtain vs out where v: "voters = (Some vs, out)"
    using inv fields by (cases voters; cases "fst voters") (auto simp: conf_inv_def)
  note dom = conf_inv_dom [OF inv] and disj = conf_inv_disjoint [OF inv]
    and lrn = conf_inv_learner [OF inv]
  show ?thesis
  proof (cases "fmlookup prs i")
    case None
    then have "i |\<notin>| fmdom prs" by (simp add: fmlookup_dom_iff)
    with dom disj(4) have nin: "i |\<notin>| vs" "i |\<notin>| ids_of out" "i |\<notin>| ids_of ls" "i |\<notin>| ids_of ns"
      by (auto simp: fields v)
    show ?thesis
      using None inv \<open>i \<noteq> 0\<close> nin
      by (auto simp: makeVoter_def initProgress_def map_put_def fields v conf_inv_def incoming_def
        outgoing_def roles_of_def role_step_def confChange_of_def Joint_IDs_def joint_iff
        zeroConfChangeSingle_def)
  next
    case (Some pr)
    show ?thesis
      using Some inv \<open>i \<noteq> 0\<close> fmdomI [OF Some]
      by (auto simp: makeVoter_def map_put_def fields v conf_inv_def incoming_def
        outgoing_def roles_of_def role_step_def confChange_of_def Joint_IDs_def joint_iff
        zeroConfChangeSingle_def Let_def)
  qed
qed

lemma remove_step:
  assumes inv: "conf_inv cfg prs" and "i \<noteq> 0" and r: "remove i (cfg, prs) = (cfg', prs')"
  shows "conf_inv cfg' prs'
    \<and> roles_of cfg' = role_step (ids_of (snd (Voters cfg))) (confChange_of ConfChangeRemoveNode i) (roles_of cfg)
    \<and> snd (Voters cfg') = snd (Voters cfg) \<and> AutoLeave cfg' = AutoLeave cfg"
proof (cases cfg)
  case (fields voters al ls ns)
  obtain vs out where v: "voters = (Some vs, out)"
    using inv fields by (cases voters; cases "fst voters") (auto simp: conf_inv_def)
  note dom = conf_inv_dom [OF inv] and disj = conf_inv_disjoint [OF inv]
  show ?thesis
  proof (cases "i |\<in>| fmdom prs")
    case False
    with dom disj(4) have nin: "i |\<notin>| vs" "i |\<notin>| ids_of out" "i |\<notin>| ids_of ls" "i |\<notin>| ids_of ns"
      by (auto simp: fields v)
    with False r inv \<open>i \<noteq> 0\<close> show ?thesis
      by (auto simp: remove_def fields v roles_of_def role_step_def confChange_of_def
          zeroConfChangeSingle_def enum_defs)
  next
    case True
    then show ?thesis
      using r inv \<open>i \<noteq> 0\<close>
      by (auto simp: remove_def map_del_def fields v conf_inv_def incoming_def
        outgoing_def roles_of_def role_step_def confChange_of_def Joint_IDs_def joint_iff
        zeroConfChangeSingle_def Let_def enum_defs split: if_splits)
  qed
qed

lemma makeLearner_step:
  assumes inv: "conf_inv cfg prs" and "i \<noteq> 0"
  shows "\<exists>cfg' prs'. makeLearner c i (cfg, prs) = Some (cfg', prs') \<and> conf_inv cfg' prs'
    \<and> roles_of cfg' = role_step (ids_of (snd (Voters cfg))) (confChange_of ConfChangeAddLearnerNode i) (roles_of cfg)
    \<and> snd (Voters cfg') = snd (Voters cfg) \<and> AutoLeave cfg' = AutoLeave cfg"
proof (cases cfg)
  case (fields voters al ls ns)
  obtain vs out where v: "voters = (Some vs, out)"
    using inv fields by (cases voters; cases "fst voters") (auto simp: conf_inv_def)
  note dom = conf_inv_dom [OF inv] and disj = conf_inv_disjoint [OF inv]
    and lrn = conf_inv_learner [OF inv]
  show ?thesis
  proof (cases "fmlookup prs i")
    case None
    then have "i |\<notin>| fmdom prs" by (simp add: fmlookup_dom_iff)
    with dom disj(4) have nin: "i |\<notin>| vs" "i |\<notin>| ids_of out" "i |\<notin>| ids_of ls" "i |\<notin>| ids_of ns"
      by (auto simp: fields v)
    show ?thesis
      using None inv \<open>i \<noteq> 0\<close> nin
      by (auto simp: makeLearner_def initProgress_def map_put_def fields v conf_inv_def incoming_def
        outgoing_def roles_of_def role_step_def confChange_of_def Joint_IDs_def joint_iff
        zeroConfChangeSingle_def enum_defs)
  next
    case (Some pr)
    show ?thesis
    proof (cases "prIsLearner pr")
      case True
      then have "i |\<in>| ids_of ls" using lrn [OF Some] by (simp add: fields)
      moreover from this have "i |\<notin>| vs" "i |\<notin>| ids_of out" using disj(1,2) [of i] by (auto simp: fields v)
      ultimately show ?thesis using True Some inv \<open>i \<noteq> 0\<close>
        by (auto simp: makeLearner_def fields v roles_of_def role_step_def confChange_of_def
          zeroConfChangeSingle_def enum_defs)
    next
      case False
      then have "i |\<notin>| ids_of ls" using lrn [OF Some] by (simp add: fields)
      moreover have "i |\<notin>| ids_of out \<Longrightarrow> i |\<notin>| ids_of ns" using disj(4) [of i] by (auto simp: fields v)
      moreover have "out = None \<Longrightarrow> ns = None"
        using inv by (simp add: conf_inv_def joint_iff fields v)
      ultimately show ?thesis
        using Some inv \<open>i \<noteq> 0\<close> fmdomI [OF Some] False
        by (auto simp: makeLearner_def remove_def map_del_def fields v conf_inv_def incoming_def
          outgoing_def roles_of_def role_step_def confChange_of_def Joint_IDs_def joint_iff
          zeroConfChangeSingle_def enum_defs Let_def)
    qed
  qed
qed

text \<open>A change that apply refuses.\<close>

definition known_change :: "ConfChangeSingle \<Rightarrow> bool" where
  "known_change cc \<longleftrightarrow> csNodeID cc = 0 \<or> csType cc \<in> {ConfChangeAddNode, ConfChangeRemoveNode,
     ConfChangeUpdateNode, ConfChangeAddLearnerNode}"

lemma role_step_confChange_of: "role_step out (confChange_of (csType cc) (csNodeID cc)) = role_step out cc"
  by (simp add: role_step_def confChange_of_def zeroConfChangeSingle_def)

lemma applyLoop_refines:
  assumes "conf_inv cfg prs"
  shows "if \<forall>cc \<in> set ccs. known_change cc then
      \<exists>cfg' prs'. applyLoop c ccs (cfg, prs) = Some (Inr (cfg', prs')) \<and> conf_inv cfg' prs'
        \<and> roles_of cfg' = fold (role_step (ids_of (snd (Voters cfg)))) ccs (roles_of cfg)
        \<and> snd (Voters cfg') = snd (Voters cfg) \<and> AutoLeave cfg' = AutoLeave cfg
    else \<exists>err. applyLoop c ccs (cfg, prs) = Some (Inl err)"
  using assms
proof (induction ccs arbitrary: cfg prs)
  case (Cons cc ccs)
  let ?i = "csNodeID cc" and ?out = "ids_of (snd (Voters cfg))"
  show ?case
  proof (cases "known_change cc")
    case False
    then have "applyLoop c (cc # ccs) (cfg, prs) = Some (Inl (UnexpectedConfType (csType cc)))"
      by (simp add: known_change_def)
    with False show ?thesis by simp
  next
    case True
    have "\<exists>cfg' prs'. applyLoop c (cc # ccs) (cfg, prs) = applyLoop c ccs (cfg', prs') \<and> conf_inv cfg' prs'
      \<and> roles_of cfg' = role_step ?out cc (roles_of cfg)
      \<and> snd (Voters cfg') = snd (Voters cfg) \<and> AutoLeave cfg' = AutoLeave cfg"
    proof -
      consider (ign) "?i = 0 \<or> csType cc = ConfChangeUpdateNode"
        | (add) "?i \<noteq> 0" "csType cc = ConfChangeAddNode"
        | (lrn) "?i \<noteq> 0" "csType cc = ConfChangeAddLearnerNode"
        | (rem) "?i \<noteq> 0" "csType cc = ConfChangeRemoveNode"
        using True by (auto simp: known_change_def)
      then show ?thesis
      proof cases
        case ign
        with Cons.prems show ?thesis
          by (intro exI [of _ cfg] exI [of _ prs]) (auto simp: role_step_def enum_defs split: prod.splits)
      next
        case add
        from makeVoter_step [OF Cons.prems add(1), of c] obtain cfg' prs'
          where *: "makeVoter c ?i (cfg, prs) = Some (cfg', prs')" "conf_inv cfg' prs'"
            "roles_of cfg' = role_step ?out (confChange_of ConfChangeAddNode ?i) (roles_of cfg)"
            "snd (Voters cfg') = snd (Voters cfg)" "AutoLeave cfg' = AutoLeave cfg" by auto
        with add role_step_confChange_of [of ?out cc] show ?thesis
          by (intro exI [of _ cfg'] exI [of _ prs']) simp
      next
        case lrn
        from makeLearner_step [OF Cons.prems lrn(1), of c] obtain cfg' prs'
          where *: "makeLearner c ?i (cfg, prs) = Some (cfg', prs')" "conf_inv cfg' prs'"
            "roles_of cfg' = role_step ?out (confChange_of ConfChangeAddLearnerNode ?i) (roles_of cfg)"
            "snd (Voters cfg') = snd (Voters cfg)" "AutoLeave cfg' = AutoLeave cfg" by auto
        with lrn role_step_confChange_of [of ?out cc] show ?thesis
          by (intro exI [of _ cfg'] exI [of _ prs']) (simp add: enum_defs)
      next
        case rem
        obtain cfg' prs' where r: "remove ?i (cfg, prs) = (cfg', prs')" by fastforce
        from remove_step [OF Cons.prems rem(1) r] rem r role_step_confChange_of [of ?out cc] show ?thesis
          by (intro exI [of _ cfg'] exI [of _ prs']) (simp add: enum_defs)
      qed
    qed
    then obtain cfg' prs' where *: "applyLoop c (cc # ccs) (cfg, prs) = applyLoop c ccs (cfg', prs')"
      "conf_inv cfg' prs'" "roles_of cfg' = role_step ?out cc (roles_of cfg)"
      "snd (Voters cfg') = snd (Voters cfg)" "AutoLeave cfg' = AutoLeave cfg" by auto
    from Cons.IH [OF *(2)] True show ?thesis
      unfolding *(1) by (simp add: * del: applyLoop.simps split del: if_split cong: if_cong)
  qed
qed simp

text \<open>A changer whose tracker holds such a configuration.\<close>

definition changer_ok :: "Changer \<Rightarrow> bool" where
  "changer_ok c \<longleftrightarrow> conf_inv (trkConfig (chTracker c)) (trkProgress (chTracker c))"

lemma conf_inv_clone: "conf_inv cfg prs \<Longrightarrow> conf_inv (cfg\<lparr>AutoLeave := False\<rparr>) prs"
  by (simp add: conf_inv_def joint_iff)

lemma fmmap_ident [simp]: "fmmap (\<lambda>x. x) m = m"
  by (intro fmap_ext) (simp add: option.map_ident)

lemma checkAndCopy_ok:
  assumes "changer_ok c"
  shows "checkAndCopy c = Some (Inr ((trkConfig (chTracker c))\<lparr>AutoLeave := False\<rparr>, trkProgress (chTracker c)))"
  using conf_inv_ok [OF conf_inv_clone] assms
  by (simp add: checkAndCopy_def Config_Clone_eq changer_ok_def)

lemma count_notin: "fold (\<lambda>i n. if i |\<in>| b then n else n + 1) xs (n :: nat) = n + length (filter (\<lambda>i. i |\<notin>| b) xs)"
  by (induction xs arbitrary: n) auto

lemma length_filter_sorted_keys: "length (filter (\<lambda>i. i |\<notin>| b) (sorted_keys a)) = fcard (a |-| b)"
proof -
  have "length (filter (\<lambda>i. i |\<notin>| b) (sorted_keys a)) = card (set (filter (\<lambda>i. i |\<notin>| b) (sorted_keys a)))"
    by (subst distinct_card) auto
  also have "set (filter (\<lambda>i. i |\<notin>| b) (sorted_keys a)) = fset (a |-| b)" by auto
  finally show ?thesis by (simp add: fcard.rep_eq)
qed

lemma symdiff_eq: "symdiff l r = fcard (ids_of l |-| ids_of r) + fcard (ids_of r |-| ids_of l)"
  by (simp add: symdiff_def Let_def count_notin length_filter_sorted_keys)

definition voters_after :: "u64 fset \<Rightarrow> ConfChangeSingle list \<Rightarrow> roles \<Rightarrow> u64 fset" where
  "voters_after out ccs r = fst (fold (role_step out) ccs r)"

lemma Changer_apply_refines:
  assumes "conf_inv cfg prs"
  shows "if (\<forall>cc \<in> set ccs. known_change cc)
        \<and> voters_after (ids_of (snd (Voters cfg))) ccs (roles_of cfg) \<noteq> {||} then
      \<exists>cfg' prs'. Changer_apply c ccs (cfg, prs) = Some (Inr (cfg', prs')) \<and> conf_inv cfg' prs'
        \<and> roles_of cfg' = fold (role_step (ids_of (snd (Voters cfg)))) ccs (roles_of cfg)
        \<and> snd (Voters cfg') = snd (Voters cfg) \<and> AutoLeave cfg' = AutoLeave cfg
    else \<exists>err. Changer_apply c ccs (cfg, prs) = Some (Inl err)"
proof (cases "\<forall>cc \<in> set ccs. known_change cc")
  case True
  with applyLoop_refines [OF assms, of ccs c] obtain cfg' prs' where
    *: "applyLoop c ccs (cfg, prs) = Some (Inr (cfg', prs'))" "conf_inv cfg' prs'"
      "roles_of cfg' = fold (role_step (ids_of (snd (Voters cfg)))) ccs (roles_of cfg)"
      "snd (Voters cfg') = snd (Voters cfg)" "AutoLeave cfg' = AutoLeave cfg"
    by auto
  have "voters_after (ids_of (snd (Voters cfg))) ccs (roles_of cfg) = ids_of (fst (Voters cfg'))"
    using *(3) unfolding voters_after_def by (metis fst_conv roles_of_def)
  with True * show ?thesis by (simp add: Changer_apply_def incoming_def fcard_0_eq)
next
  case False
  with applyLoop_refines [OF assms, of ccs c] obtain err where
    "applyLoop c ccs (cfg, prs) = Some (Inl err)" by (auto split: if_splits)
  moreover have "Changer_apply c ccs (cfg, prs) = Some (Inl err)"
    using calculation by (simp add: Changer_apply_def)
  ultimately show ?thesis using False by simp
qed

lemma Simple_refines:
  fixes c ccs
  defines "cfg \<equiv> trkConfig (chTracker c)"
  defines "vs' \<equiv> voters_after {||} ccs (roles_of cfg)"
  assumes ok: "changer_ok c"
  shows "if \<not> joint cfg \<and> (\<forall>cc \<in> set ccs. known_change cc) \<and> vs' \<noteq> {||}
        \<and> fcard (ids_of (fst (Voters cfg)) |-| vs') + fcard (vs' |-| ids_of (fst (Voters cfg))) \<le> 1 then
      \<exists>cfg' prs'. Changer_Simple c ccs = Some (Inr (cfg', prs')) \<and> conf_inv cfg' prs'
        \<and> roles_of cfg' = fold (role_step {||}) ccs (roles_of cfg)
        \<and> snd (Voters cfg') = None \<and> \<not> AutoLeave cfg'
    else \<exists>err. Changer_Simple c ccs = Some (Inl err)"
proof -
  let ?cfg = "cfg\<lparr>AutoLeave := False\<rparr>" and ?prs = "trkProgress (chTracker c)"
  have inv: "conf_inv ?cfg ?prs" using ok conf_inv_clone by (simp add: cfg_def changer_ok_def)
  have copy: "checkAndCopy c = Some (Inr (?cfg, ?prs))"
    using checkAndCopy_ok [OF ok] by (simp add: cfg_def)
  have roles: "roles_of ?cfg = roles_of cfg" by (simp add: roles_of_def)
  show ?thesis
  proof (cases "joint cfg")
    case True
    then show ?thesis by (simp add: Changer_Simple_def copy joint_iff)
  next
    case False
    then have out: "snd (Voters cfg) = None" using inv by (simp add: conf_inv_def joint_iff)
    from Changer_apply_refines [OF inv, of ccs c]
    consider (err) err where "Changer_apply c ccs (?cfg, ?prs) = Some (Inl err)"
        "\<not> ((\<forall>cc \<in> set ccs. known_change cc) \<and> vs' \<noteq> {||})"
      | (ok) cfg' prs' where "Changer_apply c ccs (?cfg, ?prs) = Some (Inr (cfg', prs'))"
        "conf_inv cfg' prs'" "roles_of cfg' = fold (role_step {||}) ccs (roles_of cfg)"
        "snd (Voters cfg') = None" "\<not> AutoLeave cfg'"
        "(\<forall>cc \<in> set ccs. known_change cc) \<and> vs' \<noteq> {||}"
      by (auto simp: vs'_def out roles split: if_splits)
    then show ?thesis
    proof cases
      case err
      with False show ?thesis by (auto simp: Changer_Simple_def copy joint_iff)
    next
      case ok
      have "vs' = ids_of (fst (Voters cfg'))"
        using ok(3) unfolding vs'_def voters_after_def by (metis fst_conv roles_of_def)
      moreover have "checkInvariants cfg' prs' = Some None"
        using ok(2) by (simp add: checkInvariants_ok conf_inv_ok)
      ultimately show ?thesis
        using False ok conf_inv_ok [OF ok(2)]
        by (auto simp: Changer_Simple_def copy joint_iff symdiff_eq incoming_def cfg_def [symmetric])
    qed
  qed
qed

lemma foldM_map_put:
  "foldM (\<lambda>i m. map_put m i) xs (Some s) = Some (Some (fset_of_list xs |\<union>| s))"
  by (induction xs arbitrary: s) (simp_all add: map_put_def)

lemma fset_of_sorted_keys [simp]: "fset_of_list (sorted_keys s) = s"
  by (simp add: sorted_keys_def)

lemma EnterJoint_refines:
  fixes c ccs
  defines "cfg \<equiv> trkConfig (chTracker c)"
  defines "vs \<equiv> ids_of (fst (Voters cfg))"
  assumes ok: "changer_ok c"
  shows "if \<not> joint cfg \<and> vs \<noteq> {||} \<and> (\<forall>cc \<in> set ccs. known_change cc)
        \<and> voters_after vs ccs (roles_of cfg) \<noteq> {||} then
      \<exists>cfg' prs'. Changer_EnterJoint c autoLeave ccs = Some (Inr (cfg', prs')) \<and> conf_inv cfg' prs'
        \<and> roles_of cfg' = fold (role_step vs) ccs (roles_of cfg)
        \<and> snd (Voters cfg') = Some vs \<and> AutoLeave cfg' = autoLeave
    else \<exists>err. Changer_EnterJoint c autoLeave ccs = Some (Inl err)"
proof -
  let ?cfg = "cfg\<lparr>AutoLeave := False\<rparr>" and ?prs = "trkProgress (chTracker c)"
  have inv: "conf_inv ?cfg ?prs" using ok conf_inv_clone by (simp add: cfg_def changer_ok_def)
  have copy: "checkAndCopy c = Some (Inr (?cfg, ?prs))"
    using checkAndCopy_ok [OF ok] by (simp add: cfg_def)
  show ?thesis
  proof (cases "joint cfg \<or> vs = {||}")
    case True
    then show ?thesis
      by (auto simp: Changer_EnterJoint_def copy joint_iff incoming_def vs_def fcard_0_eq)
  next
    case False
    then have vs: "vs \<noteq> {||}" and nj: "\<not> joint cfg" by auto
    let ?cfg1 = "?cfg\<lparr>Voters := (fst (Voters cfg), Some vs)\<rparr>"
    have inv1: "conf_inv ?cfg1 ?prs"
      using inv nj vs by (auto simp: conf_inv_def joint_iff Joint_IDs_def vs_def)
    have roles: "roles_of ?cfg1 = roles_of cfg" by (simp add: roles_of_def)
    have step: "Changer_EnterJoint c autoLeave ccs =
        do { a \<leftarrow> Changer_apply c ccs (?cfg1, ?prs);
             case a of Inl err \<Rightarrow> Some (Inl err)
             | Inr (cfg, prs) \<Rightarrow> checkAndReturn (cfg\<lparr>AutoLeave := autoLeave\<rparr>) prs }"
      using nj vs
      by (simp add: Changer_EnterJoint_def copy joint_iff incoming_def outgoing_def vs_def
          fcard_0_eq foldM_map_put)
    from Changer_apply_refines [OF inv1, of ccs c]
    consider (err) err where "Changer_apply c ccs (?cfg1, ?prs) = Some (Inl err)"
        "\<not> ((\<forall>cc \<in> set ccs. known_change cc) \<and> voters_after vs ccs (roles_of cfg) \<noteq> {||})"
      | (ok) cfg' prs' where "Changer_apply c ccs (?cfg1, ?prs) = Some (Inr (cfg', prs'))"
        "conf_inv cfg' prs'" "roles_of cfg' = fold (role_step vs) ccs (roles_of cfg)"
        "snd (Voters cfg') = Some vs"
        "(\<forall>cc \<in> set ccs. known_change cc) \<and> voters_after vs ccs (roles_of cfg) \<noteq> {||}"
      by (auto simp: roles split: if_splits)
    then show ?thesis
    proof cases
      case err
      then show ?thesis by (auto simp: step)
    next
      case ok
      have j: "joint (cfg'\<lparr>AutoLeave := autoLeave\<rparr>)" using vs by (simp add: joint_iff ok(4))
      then have inv': "conf_inv (cfg'\<lparr>AutoLeave := autoLeave\<rparr>) prs'"
        using ok(2) by (simp add: conf_inv_def)
      with ok vs nj show ?thesis
        using conf_inv_ok [OF inv'] by (simp add: step) (simp add: roles_of_def)
    qed
  qed
qed

lemma stage_loop:
  assumes "fset_of_list xs |\<subseteq>| fmdom prs"
  shows "\<exists>ls' prs'. foldM (\<lambda>i (cfg, prs).
                 do {
                   let cfg = cfg\<lparr>Learners := nilAwareAdd i (Learners cfg)\<rparr>;
                   pr \<leftarrow> fmlookup prs i;
                   Some (cfg, fmupd i (pr\<lparr>prIsLearner := True\<rparr>) prs)
                 }) xs (cfg, prs) = Some (cfg\<lparr>Learners := ls'\<rparr>, prs')
     \<and> ids_of ls' = fset_of_list xs |\<union>| ids_of (Learners cfg)
     \<and> (\<forall>j. fmlookup prs' j = map_option (\<lambda>pr. if j \<in> set xs then pr\<lparr>prIsLearner := True\<rparr> else pr)
            (fmlookup prs j))"
  using assms
proof (induction xs arbitrary: cfg prs)
  case Nil
  show ?case by (intro exI [of _ "Learners cfg"] exI [of _ prs]) (simp add: option.map_ident)
next
  case (Cons i xs)
  then obtain pr where pr: "fmlookup prs i = Some pr" by (auto simp: fmlookup_dom_iff)
  let ?cfg = "cfg\<lparr>Learners := nilAwareAdd i (Learners cfg)\<rparr>" and ?prs = "fmupd i (pr\<lparr>prIsLearner := True\<rparr>) prs"
  have "fset_of_list xs |\<subseteq>| fmdom ?prs" using Cons.prems by auto
  from Cons.IH [OF this, of ?cfg] show ?case
    by (auto simp: pr option.map_comp comp_def)
qed

lemma fold_fmdrop:
  "fmlookup (fold (\<lambda>i m. if P i then fmdrop i m else m) xs m) j =
     (if j \<in> set xs \<and> P j then None else fmlookup m j)"
  by (induction xs arbitrary: m) auto


lemma if_Some_D: "(if b then None else x) = Some y \<Longrightarrow> x = Some y"
  by (simp split: if_splits)

lemma LeaveJoint_refines:
  fixes c
  defines "cfg \<equiv> trkConfig (chTracker c)"
  assumes ok: "changer_ok c"
  shows "if joint cfg then
      \<exists>cfg' prs'. Changer_LeaveJoint c = Some (Inr (cfg', prs')) \<and> conf_inv cfg' prs'
        \<and> Voters cfg' = (fst (Voters cfg), None) \<and> \<not> AutoLeave cfg'
        \<and> ids_of (Learners cfg') = ids_of (Learners cfg) |\<union>| ids_of (LearnersNext cfg)
        \<and> LearnersNext cfg' = None
    else \<exists>err. Changer_LeaveJoint c = Some (Inl err)"
proof -
  let ?cfg = "cfg\<lparr>AutoLeave := False\<rparr>" and ?prs = "trkProgress (chTracker c)"
  let ?ns = "ids_of (LearnersNext cfg)" and ?vs = "ids_of (fst (Voters cfg))"
  let ?out = "ids_of (snd (Voters cfg))" and ?ls = "ids_of (Learners cfg)"
  have inv: "conf_inv ?cfg ?prs" using ok conf_inv_clone by (simp add: cfg_def changer_ok_def)
  have copy: "checkAndCopy c = Some (Inr (?cfg, ?prs))"
    using checkAndCopy_ok [OF ok] by (simp add: cfg_def)
  show ?thesis
  proof (cases "joint cfg")
    case False
    then show ?thesis by (simp add: Changer_LeaveJoint_def copy joint_iff)
  next
    case True
    note dom = conf_inv_dom [OF inv, simplified] and disj = conf_inv_disjoint [OF inv, simplified]
      and lrn = conf_inv_learner [OF inv, simplified]
    have "fset_of_list (sorted_keys ?ns) |\<subseteq>| fmdom ?prs" using dom disj(4) by auto
    from stage_loop [OF this, of ?cfg] obtain ls' prs1 where
      loop: "foldM (\<lambda>i (cfg, prs).
                 do {
                   let cfg = cfg\<lparr>Learners := nilAwareAdd i (Learners cfg)\<rparr>;
                   pr \<leftarrow> fmlookup prs i;
                   Some (cfg, fmupd i (pr\<lparr>prIsLearner := True\<rparr>) prs)
                 }) (sorted_keys ?ns) (?cfg, ?prs) = Some (?cfg\<lparr>Learners := ls'\<rparr>, prs1)"
      and ls': "ids_of ls' = ?ns |\<union>| ?ls"
      and prs1: "\<And>j. fmlookup prs1 j =
        map_option (\<lambda>pr. if j |\<in>| ?ns then pr\<lparr>prIsLearner := True\<rparr> else pr) (fmlookup ?prs j)"
      by auto
    let ?gone = "\<lambda>i. i |\<notin>| ?vs \<and> i |\<notin>| ids_of ls'"
    let ?prs2 = "fold (\<lambda>i m. if ?gone i then fmdrop i m else m) (sorted_keys ?out) prs1"
    let ?cfg2 = "cfg\<lparr>Learners := ls', LearnersNext := None, Voters := (fst (Voters cfg), None),
       AutoLeave := False\<rparr>"
    have prs2: "fmlookup ?prs2 j = (if j |\<in>| ?out \<and> ?gone j then None else
        map_option (\<lambda>pr. if j |\<in>| ?ns then pr\<lparr>prIsLearner := True\<rparr> else pr) (fmlookup ?prs j))" for j
      by (simp add: fold_fmdrop prs1)
    have dom2: "j |\<in>| fmdom ?prs2 \<longleftrightarrow> j |\<in>| ?vs \<or> j |\<in>| ids_of ls'" for j
      using dom [of j] disj(4) [of j]
      by (simp only: fmlookup_dom_iff prs2) (auto simp: fmlookup_dom_iff ls')
    have "conf_inv ?cfg2 ?prs2"
      unfolding conf_inv_def
    proof (intro conjI allI impI)
      show "fst (Voters ?cfg2) \<noteq> None" using inv by (simp add: conf_inv_def)
      show "fmdom ?prs2 = Joint_IDs (Voters ?cfg2) |\<union>| ids_of (Learners ?cfg2)"
        by (intro fset_eqI) (simp add: dom2 Joint_IDs_def)
      fix i pr assume "fmlookup ?prs2 i = Some pr"
      then show "prIsLearner pr \<longleftrightarrow> i |\<in>| ids_of (Learners ?cfg2)"
      proof -
        have "fmlookup prs1 i = Some pr"
          using \<open>fmlookup ?prs2 i = Some pr\<close> unfolding fold_fmdrop by (rule if_Some_D)
        then obtain pr0 where "fmlookup ?prs i = Some pr0"
          "(if i |\<in>| ?ns then pr0\<lparr>prIsLearner := True\<rparr> else pr0) = pr"
          unfolding prs1 map_option_eq_Some by blast
        with lrn [of i pr0] show ?thesis by (cases "i |\<in>| ?ns") (auto simp: ls')
      qed
    qed (use disj in \<open>auto simp: Joint_IDs_def ls'\<close>)
    moreover have "Changer_LeaveJoint c = checkAndReturn ?cfg2 ?prs2"
      using True
      by (simp add: Changer_LeaveJoint_def copy joint_iff outgoing_def incoming_def
        loop [unfolded Let_def] fcard_0_eq)
    ultimately show ?thesis
      using True conf_inv_ok [of ?cfg2 ?prs2]
      by (auto simp: ls')
  qed
qed

section \<open>Restore rebuilds a configuration\<close>

fun steps_ok :: "roles \<Rightarrow> ConfChangeSingle list \<Rightarrow> bool" where
  "steps_ok r [] \<longleftrightarrow> True"
| "steps_ok r (cc # ccs) \<longleftrightarrow>
     (let r' = role_step {||} cc r in
      known_change cc \<and> fst r' \<noteq> {||} \<and> fcard (fst r |-| fst r') + fcard (fst r' |-| fst r) \<le> 1
      \<and> steps_ok r' ccs)"

definition conf_of :: "Changer \<Rightarrow> Config" where
  "conf_of c = trkConfig (chTracker c)"

lemma chain_Simple:
  assumes "changer_ok c" "\<not> joint (conf_of c)" "steps_ok (roles_of (conf_of c)) ccs"
  shows "\<exists>c'. chain c (map (\<lambda>cc chg. Changer_Simple chg [cc]) ccs @ ops) = chain c' ops
    \<and> changer_ok c' \<and> \<not> joint (conf_of c')
    \<and> roles_of (conf_of c') = fold (role_step {||}) ccs (roles_of (conf_of c))"
  using assms
proof (induction ccs arbitrary: c)
  case Nil
  then show ?case by auto
next
  case (Cons cc ccs)
  let ?r = "roles_of (conf_of c)"
  let ?r' = "role_step {||} cc ?r"
  have "fst ?r = ids_of (fst (Voters (conf_of c)))" by (simp add: roles_of_def)
  with Simple_refines [OF Cons.prems(1), of "[cc]"] Cons.prems(2,3)
  obtain cfg' prs' where s: "Changer_Simple c [cc] = Some (Inr (cfg', prs'))" "conf_inv cfg' prs'"
    "roles_of cfg' = ?r'" "snd (Voters cfg') = None"
    by (auto simp: voters_after_def conf_of_def Let_def split: if_splits)
  let ?c' = "c\<lparr>chTracker := (chTracker c)\<lparr>trkConfig := cfg', trkProgress := prs'\<rparr>\<rparr>"
  have c': "changer_ok ?c'" "conf_of ?c' = cfg'" "\<not> joint cfg'"
    using s by (simp_all add: changer_ok_def conf_of_def joint_iff)
  with Cons.IH [of ?c'] Cons.prems(3) s(3) show ?case
    by (auto simp: s(1) Let_def)
qed

lemma chain_snoc_op:
  "chain c [op] = (case op c of None \<Rightarrow> None | Some (Inl e) \<Rightarrow> Some (Inl e) | Some (Inr r) \<Rightarrow> Some (Inr r))"
  by (auto split: option.splits sum.splits prod.splits)

lemma fold_role_add:
  assumes "0 \<notin> set xs"
  shows "fold (role_step out) (map (confChange_of ConfChangeAddNode) xs) (vs, ls, ns) =
    (vs |\<union>| fset_of_list xs, ls |-| fset_of_list xs, ns |-| fset_of_list xs)"
  using assms
  by (induction xs arbitrary: vs ls ns)
    (auto simp: role_step_def confChange_of_def zeroConfChangeSingle_def Let_def)

lemma fold_role_remove:
  assumes "0 \<notin> set xs"
  shows "fold (role_step out) (map (confChange_of ConfChangeRemoveNode) xs) (vs, ls, ns) =
    (vs |-| fset_of_list xs, ls |-| fset_of_list xs, ns |-| fset_of_list xs)"
  using assms
  by (induction xs arbitrary: vs ls ns)
    (auto simp: role_step_def confChange_of_def zeroConfChangeSingle_def Let_def enum_defs)

lemma fold_role_learner:
  assumes "0 \<notin> set xs" "fset_of_list xs |\<inter>| out = {||}"
  shows "fold (role_step out) (map (confChange_of ConfChangeAddLearnerNode) xs) (vs, ls, ns) =
    (vs |-| fset_of_list xs, ls |\<union>| fset_of_list xs, ns)"
  using assms
  by (induction xs arbitrary: vs ls ns)
    (auto simp: role_step_def confChange_of_def zeroConfChangeSingle_def Let_def enum_defs)

lemma fold_role_staged:
  assumes "0 \<notin> set xs" "fset_of_list xs |\<subseteq>| out"
  shows "fold (role_step out) (map (confChange_of ConfChangeAddLearnerNode) xs) (vs, ls, ns) =
    (vs |-| fset_of_list xs, ls, ns |\<union>| fset_of_list xs)"
  using assms
  by (induction xs arbitrary: vs ls ns)
    (auto simp: role_step_def confChange_of_def zeroConfChangeSingle_def Let_def enum_defs)

lemma steps_ok_append:
  "steps_ok r (xs @ ys) \<longleftrightarrow> steps_ok r xs \<and> steps_ok (fold (role_step {||}) xs r) ys"
  by (induction xs arbitrary: r) (auto simp: Let_def)

lemma fcard_one_more: "fcard (vs |-| finsert x vs) + fcard (finsert x vs |-| vs) \<le> 1"
proof -
  have "vs |-| finsert x vs = {||}" "finsert x vs |-| vs = (if x |\<in>| vs then {||} else {|x|})"
    by auto
  then show ?thesis by (simp only: fcard_fempty) (simp add: fcard.rep_eq)
qed

lemma steps_ok_add: "steps_ok r (map (confChange_of ConfChangeAddNode) xs)" if "0 \<notin> set xs"
  using that
proof (induction xs arbitrary: r)
  case (Cons x xs)
  then show ?case using fcard_one_more
    by (auto simp: role_step_def confChange_of_def zeroConfChangeSingle_def Let_def known_change_def
        split: prod.splits)
qed simp

lemma steps_ok_learner: "steps_ok (vs, ls, ns) (map (confChange_of ConfChangeAddLearnerNode) xs)"
  if "0 \<notin> set xs" "fset_of_list xs |\<inter>| vs = {||}" "vs \<noteq> {||}"
  using that
proof (induction xs arbitrary: ls)
  case (Cons x xs)
  then have "vs |-| {|x|} = vs" by auto
  with Cons show ?case
    by (auto simp: role_step_def confChange_of_def zeroConfChangeSingle_def Let_def known_change_def
        enum_defs fcard.rep_eq)
qed simp

definition emptyChanger :: "int \<Rightarrow> u64 \<Rightarrow> Changer" where
  "emptyChanger maxInflight li = \<lparr>chTracker = MakeProgressTracker maxInflight, chLastIndex = li\<rparr>"

lemma emptyChanger_ok: "changer_ok (emptyChanger n li)" "\<not> joint (conf_of (emptyChanger n li))"
  "roles_of (conf_of (emptyChanger n li)) = ({||}, {||}, {||})"
  by (auto simp: changer_ok_def emptyChanger_def MakeProgressTracker_def conf_inv_def zeroConfig_def
      Joint_IDs_def joint_iff conf_of_def roles_of_def)

lemma conf_inv_sets:
  assumes "conf_inv cfg prs"
  shows "ids_of (Learners cfg) |\<inter>| ids_of (fst (Voters cfg)) = {||}"
    "ids_of (Learners cfg) |\<inter>| ids_of (snd (Voters cfg)) = {||}"
    "ids_of (LearnersNext cfg) |\<inter>| ids_of (fst (Voters cfg)) = {||}"
    "ids_of (LearnersNext cfg) |\<subseteq>| ids_of (snd (Voters cfg))"
    "ids_of (Learners cfg) |\<inter>| ids_of (LearnersNext cfg) = {||}"
  using conf_inv_disjoint [OF assms] by blast+

lemma Restore_refines:
  assumes inv: "conf_inv cfg prs" and vs: "ids_of (fst (Voters cfg)) \<noteq> {||}"
    and nz: "0 |\<notin>| fmdom prs" and p: "trkConfig p = cfg"
  shows "\<exists>cfg' prs'. Restore (emptyChanger n li) (Tracker_ConfState p) = Some (Inr (cfg', prs'))
    \<and> conf_inv cfg' prs' \<and> roles_of cfg' = roles_of cfg
    \<and> ids_of (snd (Voters cfg')) = ids_of (snd (Voters cfg)) \<and> AutoLeave cfg' = AutoLeave cfg"
proof -
  let ?vs = "ids_of (fst (Voters cfg))" and ?out = "ids_of (snd (Voters cfg))"
  let ?ls = "ids_of (Learners cfg)" and ?ns = "ids_of (LearnersNext cfg)"
  let ?add = "confChange_of ConfChangeAddNode" and ?rem = "confChange_of ConfChangeRemoveNode"
  let ?lrn = "confChange_of ConfChangeAddLearnerNode"
  let ?c = "emptyChanger n li"
  note sets = conf_inv_sets [OF inv]
  have nz': "0 |\<notin>| ?vs" "0 |\<notin>| ?out" "0 |\<notin>| ?ls" "0 |\<notin>| ?ns"
    using nz conf_inv_dom [OF inv, of 0] sets(4) by auto
  have conv: "toConfChangeSingle (Tracker_ConfState p) = (map ?add (sorted_keys ?out),
      map ?rem (sorted_keys ?out) @ map ?add (sorted_keys ?vs) @ map ?lrn (sorted_keys ?ls)
      @ map ?lrn (sorted_keys ?ns))"
    by (simp add: toConfChangeSingle_def Tracker_ConfState_def Majority_Slice_def p)
  show ?thesis
  proof (cases "?out = {||}")
    case True
    then have nj: "\<not> joint cfg" by (simp add: joint_iff)
    with inv have auto: "\<not> AutoLeave cfg" by (simp add: conf_inv_def)
    have ns: "?ns = {||}" using True sets(4) by auto
    let ?ccs = "map ?add (sorted_keys ?vs) @ map ?lrn (sorted_keys ?ls)"
    have empty: "sorted_keys {||} = []" by (metis length_0_conv length_sorted_keys fcard_fempty)
    have "steps_ok ({||}, {||}, {||}) ?ccs"
      using nz' vs sets(1) by (simp add: steps_ok_append steps_ok_add fold_role_add steps_ok_learner)
    from chain_Simple [OF emptyChanger_ok(1,2), of n li ?ccs "[]"] this obtain c' where
      "chain ?c (map (\<lambda>cc chg. Changer_Simple chg [cc]) ?ccs) = chain c' []"
      and c': "changer_ok c'" "\<not> joint (conf_of c')"
        "roles_of (conf_of c') = fold (role_step {||}) ?ccs ({||}, {||}, {||})"
      by (auto simp: emptyChanger_ok(3))
    then have "Restore ?c (Tracker_ConfState p) = Some (Inr (conf_of c', trkProgress (chTracker c')))"
      by (simp add: Restore_def conv True empty ns conf_of_def)
    moreover have "roles_of (conf_of c') = roles_of cfg"
      using nz' sets(1) unfolding c'(3)
      by (simp add: fold_role_add fold_role_learner roles_of_def ns) (auto simp: inf_commute)
    moreover have "conf_inv (conf_of c') (trkProgress (chTracker c'))"
      using c'(1) by (simp add: changer_ok_def conf_of_def)
    ultimately show ?thesis
      using c'(2) auto True by (auto simp: joint_iff conf_inv_def)
  next
    case False
    let ?ccs = "map ?add (sorted_keys ?out)"
    let ?inc = "map ?rem (sorted_keys ?out) @ map ?add (sorted_keys ?vs) @ map ?lrn (sorted_keys ?ls)
      @ map ?lrn (sorted_keys ?ns)"
    let ?op = "\<lambda>chg. Changer_EnterJoint chg (AutoLeave cfg) ?inc"
    have ne: "sorted_keys ?out \<noteq> []" using False by (metis set_empty2 set_sorted_keys bot_fset.rep_eq fset_inject)
    have "steps_ok ({||}, {||}, {||}) ?ccs" using nz' by (simp add: steps_ok_add)
    from chain_Simple [OF emptyChanger_ok(1,2), of n li ?ccs "[?op]"] this obtain c' where
      ch: "chain ?c (map (\<lambda>cc chg. Changer_Simple chg [cc]) ?ccs @ [?op]) = chain c' [?op]"
      and c': "changer_ok c'" "\<not> joint (conf_of c')"
        "roles_of (conf_of c') = fold (role_step {||}) ?ccs ({||}, {||}, {||})"
      by (auto simp: emptyChanger_ok(3))
    have r': "roles_of (conf_of c') = (?out, {||}, {||})"
      unfolding c'(3) using nz' by (simp add: fold_role_add)
    then have vs': "ids_of (fst (Voters (trkConfig (chTracker c')))) = ?out"
      by (simp add: roles_of_def conf_of_def)
    have fin: "fold (role_step ?out) ?inc (roles_of (conf_of c')) = (?vs, ?ls, ?ns)"
      unfolding r' using nz' sets
      by (simp add: fold_role_remove fold_role_add fold_role_learner fold_role_staged) blast
    have known: "\<forall>cc \<in> set ?inc. known_change cc"
      by (auto simp: known_change_def confChange_of_def zeroConfChangeSingle_def)
    from EnterJoint_refines [OF c'(1), of ?inc "AutoLeave cfg"] obtain cfg' prs' where
      e: "?op c' = Some (Inr (cfg', prs'))" "conf_inv cfg' prs'" "roles_of cfg' = (?vs, ?ls, ?ns)"
        "snd (Voters cfg') = Some ?out" "AutoLeave cfg' = AutoLeave cfg"
      using c'(2) False known vs fin
      by (auto simp: vs' voters_after_def conf_of_def split: if_splits)
    have "Restore ?c (Tracker_ConfState p) = chain ?c (map (\<lambda>cc chg. Changer_Simple chg [cc]) ?ccs @ [?op])"
      using ne by (simp add: Restore_def conv) (simp add: Tracker_ConfState_def p)
    with ch e show ?thesis by (simp add: roles_of_def)
  qed
qed
section \<open>Quorums of consecutive configurations\<close>

lemma majority_overlap_near:
  assumes diff: "fcard (a |-| b) + fcard (b |-| a) \<le> 1"
    and S: "majority_of a S" and T: "majority_of b T"
  shows "S \<inter> T \<noteq> {}"
proof
  assume disj: "S \<inter> T = {}"
  let ?a = "fset a" and ?b = "fset b"
  have "card (?a \<inter> S) + card (?b \<inter> T) = card (?a \<inter> S \<union> ?b \<inter> T)"
    using disj by (subst card_Un_disjoint) auto
  also have "\<dots> \<le> card (?a \<union> ?b)" by (intro card_mono) auto
  finally have le: "card (?a \<inter> S) + card (?b \<inter> T) \<le> card (?a \<union> ?b)" .
  have "card (?a \<union> ?b) = card ?a + card (?b - ?a)"
    by (subst card_Un_disjoint [symmetric]) (auto simp: Un_Diff_cancel)
  moreover have "card (?a \<union> ?b) = card ?b + card (?a - ?b)"
    by (subst card_Un_disjoint [symmetric]) (auto intro: arg_cong [where f = card])
  ultimately have "2 * card (?a \<union> ?b) \<le> card ?a + card ?b + 1"
    using diff by (simp add: fcard.rep_eq)
  with le S T show False by (simp add: majority_of_def fcard.rep_eq)
qed

lemma joint_quorum_half:
  assumes "joint_quorum c S"
  shows "ids_of (fst c) \<noteq> {||} \<Longrightarrow> majority_of (ids_of (fst c)) S"
    and "ids_of (snd c) \<noteq> {||} \<Longrightarrow> majority_of (ids_of (snd c)) S"
  using assms by (auto simp: joint_quorum_def majority_quorum_def)

lemma same_half_overlap:
  assumes "joint_quorum c S" "joint_quorum d T" "v \<noteq> {||}"
    and "v = ids_of (fst c)" and "v = ids_of (fst d) \<or> v = ids_of (snd d)"
  shows "S \<inter> T \<noteq> {}"
proof -
  have "majority_of v S" using joint_quorum_half(1) [OF assms(1)] assms(3,4) by simp
  moreover have "majority_of v T"
    using assms(5) joint_quorum_half [OF assms(2)] assms(3) by auto
  ultimately have "fset v \<inter> S \<inter> T \<noteq> {}" by (rule majority_of_intersect)
  then show ?thesis by auto
qed

lemma Simple_overlap:
  assumes ok: "changer_ok c" and v: "ids_of (fst (Voters (conf_of c))) \<noteq> {||}"
    and r: "Changer_Simple c ccs = Some (Inr (cfg', prs'))"
    and S: "joint_quorum (Voters (conf_of c)) S" and T: "joint_quorum (Voters cfg') T"
  shows "S \<inter> T \<noteq> {}"
proof -
  let ?vs' = "voters_after {||} ccs (roles_of (conf_of c))"
  from Simple_refines [OF ok, of ccs] r
  have ne: "?vs' \<noteq> {||}" and d: "fcard (ids_of (fst (Voters (conf_of c))) |-| ?vs')
      + fcard (?vs' |-| ids_of (fst (Voters (conf_of c)))) \<le> 1"
    and "roles_of cfg' = fold (role_step {||}) ccs (roles_of (conf_of c))"
    by (auto simp: conf_of_def split: if_splits)
  then have "ids_of (fst (Voters cfg')) = ?vs'" by (metis roles_of_def fst_conv voters_after_def)
  with ne d joint_quorum_half(1) [OF S] joint_quorum_half(1) [OF T] v show ?thesis
    by (intro majority_overlap_near [OF d]) auto
qed

lemma EnterJoint_overlap:
  assumes ok: "changer_ok c" and r: "Changer_EnterJoint c al ccs = Some (Inr (cfg', prs'))"
    and S: "joint_quorum (Voters (conf_of c)) S" and T: "joint_quorum (Voters cfg') T"
  shows "S \<inter> T \<noteq> {}"
  using EnterJoint_refines [OF ok, of ccs al] r
  by (intro same_half_overlap [OF S T]) (auto simp: conf_of_def split: if_splits)

lemma LeaveJoint_overlap:
  assumes ok: "changer_ok c" and v: "ids_of (fst (Voters (conf_of c))) \<noteq> {||}"
    and r: "Changer_LeaveJoint c = Some (Inr (cfg', prs'))"
    and S: "joint_quorum (Voters (conf_of c)) S" and T: "joint_quorum (Voters cfg') T"
  shows "S \<inter> T \<noteq> {}"
  using LeaveJoint_refines [OF ok] r v
  by (intro same_half_overlap [OF S T]) (auto simp: conf_of_def split: if_splits)

text \<open>A transition value of the enumeration.\<close>

definition known_transition :: "ConfChangeV2 \<Rightarrow> bool" where
  "known_transition cc \<longleftrightarrow> v2Transition cc \<in> {ConfChangeTransitionAuto,
     ConfChangeTransitionJointImplicit, ConfChangeTransitionJointExplicit}"

lemma EnterJoint_total: "known_transition cc \<Longrightarrow> \<exists>al ok. EnterJoint cc = Some (al, ok)"
  by (auto simp: known_transition_def EnterJoint_def)

lemma Changer_change_cases:
  assumes "Changer_change c cc = Some r"
  obtains (leave) "Changer_LeaveJoint c = Some r"
    | (enter) al where "Changer_EnterJoint c al (v2Changes cc) = Some r"
    | (simple) "Changer_Simple c (v2Changes cc) = Some r"
  using assms by (auto simp: Changer_change_def split: if_splits)

lemma Changer_ops_total:
  assumes ok: "changer_ok c"
  shows "\<exists>r. Changer_Simple c ccs = Some r" "\<exists>r. Changer_EnterJoint c al ccs = Some r"
    "\<exists>r. Changer_LeaveJoint c = Some r"
  using Simple_refines [OF ok, of ccs] EnterJoint_refines [OF ok, of ccs al] LeaveJoint_refines [OF ok]
  by (auto split: if_splits)

lemma Changer_ops_inv:
  assumes ok: "changer_ok c"
  shows "Changer_Simple c ccs = Some (Inr (cfg', prs')) \<Longrightarrow> conf_inv cfg' prs'"
    and "Changer_EnterJoint c al ccs = Some (Inr (cfg', prs')) \<Longrightarrow> conf_inv cfg' prs'"
    and "Changer_LeaveJoint c = Some (Inr (cfg', prs')) \<Longrightarrow> conf_inv cfg' prs'"
  using Simple_refines [OF ok, of ccs] EnterJoint_refines [OF ok, of ccs al] LeaveJoint_refines [OF ok]
  by (auto split: if_splits)


section \<open>A joint change reaches what the changes ask for\<close>

definition target_roles :: "ConfChangeSingle list \<Rightarrow> roles \<Rightarrow> roles" where
  "target_roles ccs r = fold (role_step {||}) ccs r"

lemma role_step_staged:
  assumes "r = (vs, ls, ns)" "r2 = (vs, ls |\<union>| ns, {||})" "role_step out cc r = (vs', ls', ns')"
  shows "role_step {||} cc r2 = (vs', ls' |\<union>| ns', {||})"
  using assms by (auto simp: role_step_def Let_def split: if_splits)

lemma fold_role_step_staged:
  "fold (role_step out) ccs (vs, ls, ns) = (vs', ls', ns') \<Longrightarrow>
   fold (role_step {||}) ccs (vs, ls |\<union>| ns, {||}) = (vs', ls' |\<union>| ns', {||})"
proof (induction ccs arbitrary: vs ls ns)
  case (Cons cc ccs)
  obtain vs1 ls1 ns1 where s: "role_step out cc (vs, ls, ns) = (vs1, ls1, ns1)"
    by (metis prod_cases3)
  with Cons.prems Cons.IH [of vs1 ls1 ns1] role_step_staged [OF refl refl s] show ?case by simp
qed simp

text \<open>The changer of a tracker after a change has been installed.\<close>

definition installed :: "Changer \<Rightarrow> Config \<times> ProgressMap \<Rightarrow> Changer" where
  "installed c r = c\<lparr>chTracker := (chTracker c)\<lparr>trkConfig := fst r, trkProgress := snd r\<rparr>\<rparr>"

lemma installed_conf [simp]:
  "trkConfig (chTracker (installed c r)) = fst r" "trkProgress (chTracker (installed c r)) = snd r"
  by (simp_all add: installed_def)

section \<open>Properties\<close>

lemma Changer_change_overlap:
  assumes "changer_ok c" and "ids_of (fst (Voters (trkConfig (chTracker c)))) \<noteq> {||}"
    and "Changer_change c cc = Some (Inr (cfg', prs'))"
    and "joint_quorum (Voters (trkConfig (chTracker c))) S" and "joint_quorum (Voters cfg') T"
  shows "S \<inter> T \<noteq> {}"
  using assms(3)
proof (cases rule: Changer_change_cases)
  case leave
  from LeaveJoint_overlap [OF assms(1) _ leave] assms(2,4,5) show ?thesis by (simp add: conf_of_def)
next
  case (enter al)
  from EnterJoint_overlap [OF assms(1) enter] assms(4,5) show ?thesis by (simp add: conf_of_def)
next
  case simple
  from Simple_overlap [OF assms(1) _ simple] assms(2,4,5) show ?thesis by (simp add: conf_of_def)
qed

text \<open>C10: after a configuration change that the Changer accepts, every quorum of the new
  configuration meets every quorum of the old one, so no two disjoint majorities can act
  across the change.\<close>

theorem change_quorums_overlap:
  assumes "changer_ok c" and "ids_of (fst (Voters (trkConfig (chTracker c)))) \<noteq> {||}"
    and "Changer_change c cc = Some (Inr (cfg', prs'))"
    and "joint_quorum (Voters (trkConfig (chTracker c))) S" and "joint_quorum (Voters cfg') T"
  shows "S \<inter> T \<noteq> {}"
  using Changer_change_overlap [OF assms] .


text \<open>A tracker with the voters 1, 2, 3 and the learner 4.\<close>

definition wit_progress :: "bool \<Rightarrow> Progress" where
  "wit_progress l = \<lparr>prMatch = 0, prNext = 1, prState = StateProbe, prPendingSnapshot = 0,
     prRecentActive = True, prProbeSent = False, prInflights = NewInflights 4, prIsLearner = l\<rparr>"

definition wit_changer :: Changer where
  "wit_changer = \<lparr>chTracker = \<lparr>trkConfig = \<lparr>Voters = (Some {|1, 2, 3|}, None), AutoLeave = False,
       Learners = Some {|4|}, LearnersNext = None\<rparr>,
     trkProgress = fmap_of_list [(1, wit_progress False), (2, wit_progress False),
       (3, wit_progress False), (4, wit_progress True)],
     trkVotes = fmempty, trkMaxInflight = 4\<rparr>, chLastIndex = 5\<rparr>"

lemma wit_changer_ok: "changer_ok wit_changer"
  unfolding changer_ok_def wit_changer_def conf_inv_def
  by (auto simp: fmlookup_of_list Joint_IDs_def joint_iff wit_progress_def split: if_splits)

definition wit_remove3 :: ConfChangeV2 where
  "wit_remove3 = zeroConfChangeV2\<lparr>v2Changes := [confChange_of ConfChangeRemoveNode 3]\<rparr>"

definition wit_after :: "confResult \<Rightarrow> Config \<times> ProgressMap" where
  "wit_after r = (case r of Some (Inr x) \<Rightarrow> x | _ \<Rightarrow> (zeroConfig, fmempty))"

lemma wit_remove3_result:
  "Changer_change wit_changer wit_remove3 = Some (Inr (wit_after (Changer_change wit_changer wit_remove3)))"
  "Voters (fst (wit_after (Changer_change wit_changer wit_remove3))) = (Some {|1, 2|}, None)"
  by code_simp+

lemma joint_quorum_code:
  "joint_quorum (Some v, None) S \<longleftrightarrow> v = {||} \<or> fcard v < 2 * card (fset v \<inter> S)"
  by (simp add: joint_quorum_def majority_quorum_def majority_of_def)

theorem change_quorums_overlap_witness: "{2, 3} \<inter> {1, 2} \<noteq> ({} :: u64 set)"
proof (rule change_quorums_overlap [OF wit_changer_ok, of wit_remove3])
  show "Changer_change wit_changer wit_remove3 = Some (Inr
    (fst (wit_after (Changer_change wit_changer wit_remove3)),
     snd (wit_after (Changer_change wit_changer wit_remove3))))"
    using wit_remove3_result(1) by simp
  show "joint_quorum (Voters (fst (wit_after (Changer_change wit_changer wit_remove3)))) {1, 2}"
    by (simp add: wit_remove3_result(2) joint_quorum_code fcard.rep_eq)
qed (simp_all add: wit_changer_def joint_quorum_code fcard.rep_eq)

text \<open>C19: on a tracker that satisfies the configuration invariant a change with a known
  transition never panics, and a configuration it returns without an error satisfies the
  invariant again. In particular the zero configuration that Simple returns with a nil error
  when checkInvariants fails is never produced.\<close>

theorem change_keeps_invariant:
  assumes "changer_ok c" and "known_transition cc"
  shows "\<exists>r. Changer_change c cc = Some r \<and> (\<forall>x. r = Inr x \<longrightarrow> changer_ok (installed c x))"
proof -
  obtain r where r: "Changer_change c cc = Some r"
    using Changer_ops_total [OF assms(1)] EnterJoint_total [OF assms(2)]
    by (fastforce simp: Changer_change_def)
  then have "conf_inv cfg' prs'" if "r = Inr (cfg', prs')" for cfg' prs'
    using that Changer_ops_inv [OF assms(1)] by (cases rule: Changer_change_cases) auto
  with r show ?thesis by (auto simp: changer_ok_def)
qed

theorem change_keeps_invariant_witness:
  "\<exists>r. Changer_change wit_changer wit_remove3 = Some r
     \<and> (\<forall>x. r = Inr x \<longrightarrow> changer_ok (installed wit_changer x))"
  by (rule change_keeps_invariant [OF wit_changer_ok])
    (simp add: known_transition_def wit_remove3_def zeroConfChangeV2_def enum_defs)

text \<open>C20: entering a joint configuration and leaving it again has the effect of applying the
  changes directly: the voters and the learners are those that the list of changes asks for,
  although a voter demoted in between is staged in LearnersNext; no outgoing voter, no staged
  learner and no AutoLeave flag is left. Leaving never fails.\<close>

theorem enter_leave_joint:
  assumes ok: "changer_ok c" and e: "Changer_EnterJoint c al ccs = Some (Inr r1)"
  shows "\<exists>r2. Changer_LeaveJoint (installed c r1) = Some (Inr r2)
    \<and> roles_of (fst r2) = target_roles ccs (roles_of (trkConfig (chTracker c)))
    \<and> snd (Voters (fst r2)) = None \<and> \<not> AutoLeave (fst r2) \<and> changer_ok (installed c r2)"
proof -
  obtain cfg1 prs1 where r1: "r1 = (cfg1, prs1)" by fastforce
  let ?cfg = "trkConfig (chTracker c)"
  let ?vs = "ids_of (fst (Voters ?cfg))"
  from EnterJoint_refines [OF ok, of ccs al] e r1
  have nj: "\<not> joint ?cfg" and "?vs \<noteq> {||}" and inv1: "conf_inv cfg1 prs1"
    and roles1: "roles_of cfg1 = fold (role_step ?vs) ccs (roles_of ?cfg)"
    and out1: "snd (Voters cfg1) = Some ?vs"
    by (auto split: if_splits)
  have ok1: "changer_ok (installed c r1)" using inv1 by (simp add: changer_ok_def r1)
  have "joint cfg1" using \<open>?vs \<noteq> {||}\<close> by (simp add: joint_iff out1)
  with LeaveJoint_refines [OF ok1] r1 obtain cfg2 prs2 where
    l: "Changer_LeaveJoint (installed c r1) = Some (Inr (cfg2, prs2))" "conf_inv cfg2 prs2"
      "Voters cfg2 = (fst (Voters cfg1), None)" "\<not> AutoLeave cfg2"
      "ids_of (Learners cfg2) = ids_of (Learners cfg1) |\<union>| ids_of (LearnersNext cfg1)"
      "LearnersNext cfg2 = None"
    by auto
  have "LearnersNext ?cfg = None" using ok nj by (simp add: changer_ok_def conf_inv_def)
  then have r0: "roles_of ?cfg = (?vs, ids_of (Learners ?cfg), {||})" by (simp add: roles_of_def)
  have "target_roles ccs (roles_of ?cfg) = roles_of cfg2"
    using fold_role_step_staged [OF roles1 [symmetric, unfolded r0, unfolded roles_of_def]] l
      \<open>LearnersNext ?cfg = None\<close>
    by (simp add: target_roles_def roles_of_def)
  with l show ?thesis by (intro exI [of _ "(cfg2, prs2)"]) (simp add: changer_ok_def)
qed

definition wit_swap :: "ConfChangeSingle list" where
  "wit_swap = [confChange_of ConfChangeAddLearnerNode 1, confChange_of ConfChangeAddNode 4,
     confChange_of ConfChangeRemoveNode 2, confChange_of ConfChangeAddNode 7]"

lemma wit_swap_result: "Changer_EnterJoint wit_changer True wit_swap =
    Some (Inr (wit_after (Changer_EnterJoint wit_changer True wit_swap)))"
  by code_simp

lemma wit_swap_target: "target_roles wit_swap (roles_of (trkConfig (chTracker wit_changer))) =
    ({|3, 4, 7|}, {|1|}, {||})"
  by code_simp

theorem enter_leave_joint_witness:
  "\<exists>r2. Changer_LeaveJoint (installed wit_changer
       (wit_after (Changer_EnterJoint wit_changer True wit_swap))) = Some (Inr r2)
     \<and> roles_of (fst r2) = ({|3, 4, 7|}, {|1|}, {||})"
  using enter_leave_joint [OF wit_changer_ok wit_swap_result] wit_swap_target by auto

text \<open>C21: Restore inverts ConfState: from the state that a tracker reports, an empty changer
  rebuilds the same voters, learners, staged learners, outgoing voters and AutoLeave flag
  (so that the rebuilt tracker reports the same ConfState), with one progress record for each
  of them, for every configuration whose ids are not 0 and which has a voter.\<close>

theorem Restore_ConfState:
  assumes "conf_inv (trkConfig p) (trkProgress p)" and "ids_of (fst (Voters (trkConfig p))) \<noteq> {||}"
    and "0 |\<notin>| fmdom (trkProgress p)"
  shows "\<exists>cfg' prs'. Restore (emptyChanger n li) (Tracker_ConfState p) = Some (Inr (cfg', prs'))
    \<and> conf_inv cfg' prs' \<and> fmdom prs' = fmdom (trkProgress p)
    \<and> Tracker_ConfState (p\<lparr>trkConfig := cfg', trkProgress := prs'\<rparr>) = Tracker_ConfState p"
proof -
  from Restore_refines [OF assms refl, of n li] obtain cfg' prs' where
    r: "Restore (emptyChanger n li) (Tracker_ConfState p) = Some (Inr (cfg', prs'))"
      "conf_inv cfg' prs'" "roles_of cfg' = roles_of (trkConfig p)"
      "ids_of (snd (Voters cfg')) = ids_of (snd (Voters (trkConfig p)))"
      "AutoLeave cfg' = AutoLeave (trkConfig p)"
    by auto
  then have "fmdom prs' = fmdom (trkProgress p)"
    using assms(1) by (simp add: conf_inv_def roles_of_def Joint_IDs_def)
  with r show ?thesis
    by (simp add: Tracker_ConfState_def Majority_Slice_def roles_of_def)
qed

text \<open>The configuration of the example in restore.go.\<close>

definition wit_joint :: ProgressTracker where
  "wit_joint = \<lparr>trkConfig = \<lparr>Voters = (Some {|1, 2, 3|}, Some {|1, 2, 4, 6|}), AutoLeave = True,
       Learners = Some {|5|}, LearnersNext = Some {|4|}\<rparr>,
     trkProgress = fmap_of_list [(1, wit_progress False), (2, wit_progress False),
       (3, wit_progress False), (4, wit_progress False), (5, wit_progress True),
       (6, wit_progress False)],
     trkVotes = fmempty, trkMaxInflight = 4\<rparr>"

theorem Restore_ConfState_witness:
  "\<exists>cfg' prs'. Restore (emptyChanger 4 10) \<lparr>csVoters = [1, 2, 3], csLearners = [5],
       csVotersOutgoing = [1, 2, 4, 6], csLearnersNext = [4], csAutoLeave = True\<rparr>
     = Some (Inr (cfg', prs')) \<and> conf_inv cfg' prs'"
proof -
  have state: "Tracker_ConfState wit_joint = \<lparr>csVoters = [1, 2, 3], csLearners = [5],
       csVotersOutgoing = [1, 2, 4, 6], csLearnersNext = [4], csAutoLeave = True\<rparr>"
    by code_simp
  have "conf_inv (trkConfig wit_joint) (trkProgress wit_joint)"
    unfolding wit_joint_def conf_inv_def
    by (auto simp: fmlookup_of_list Joint_IDs_def joint_iff wit_progress_def split: if_splits)
  from Restore_ConfState [OF this, of 4 10, unfolded state] show ?thesis
    by (auto simp: wit_joint_def)
qed

end
