(* ===== verification/ReadOnly.thy ===== *)
theory ReadOnly
  imports Raftpb
begin

text \<open>
  raft/read_only.go: the read-only requests waiting for a heartbeat quorum, a queue of request
  contexts and a map from a context to the request, its read index and its acknowledgements.
\<close>

record ReadState =
  rsIndex :: u64
  rsRequestCtx :: "bytes option"

record readIndexStatus =
  riReq :: Message
  riIndex :: u64
  riAcks :: "(u64, bool) fmap"

datatype ReadOnlyOption = ReadOnlySafe | ReadOnlyLeaseBased

record readOnly =
  roOption :: ReadOnlyOption
  roPending :: "(bytes, readIndexStatus) fmap"
  roQueue :: "bytes list"

definition newReadOnly :: "ReadOnlyOption \<Rightarrow> readOnly" where
  "newReadOnly opt = \<lparr>roOption = opt, roPending = fmempty, roQueue = []\<rparr>"

definition addRequest :: "u64 \<Rightarrow> Message \<Rightarrow> readOnly \<Rightarrow> readOnly option" where
  "addRequest index m ro =
     do {
       e \<leftarrow> idx (mEntries m) 0;
       let s = dataOf e;
       case fmlookup (roPending ro) s of
         Some _ \<Rightarrow> Some ro
       | None \<Rightarrow> Some (ro\<lparr>
           roPending := fmupd s \<lparr>riReq = m, riIndex = index, riAcks = fmempty\<rparr> (roPending ro),
           roQueue := roQueue ro @ [s]\<rparr>)
     }"

text \<open>recvAck also returns the acknowledgements (nil, read as empty, for an unknown context).\<close>

definition recvAck :: "u64 \<Rightarrow> bytes \<Rightarrow> readOnly \<Rightarrow> readOnly \<times> (u64, bool) fmap" where
  "recvAck i context ro =
     (case fmlookup (roPending ro) context of
        None \<Rightarrow> (ro, fmempty)
      | Some rs \<Rightarrow>
          let rs = rs\<lparr>riAcks := fmupd i True (riAcks rs)\<rparr>
          in (ro\<lparr>roPending := fmupd context rs (roPending ro)\<rparr>, riAcks rs))"

text \<open>The loop of advance: the statuses up to the context, and the rest of the queue when the
  context was found.\<close>

fun advanceLoop ::
  "(bytes, readIndexStatus) fmap \<Rightarrow> bytes \<Rightarrow> bytes list
    \<Rightarrow> (readIndexStatus list \<times> bytes list option) option" where
  "advanceLoop pending ctx [] = Some ([], None)"
| "advanceLoop pending ctx (okctx # q) =
     do {
       rs \<leftarrow> fmlookup pending okctx;
       if okctx = ctx then Some ([rs], Some q)
       else do { (rss, found) \<leftarrow> advanceLoop pending ctx q; Some (rs # rss, found) }
     }"

definition readOnly_advance :: "Message \<Rightarrow> readOnly \<Rightarrow> (readOnly \<times> readIndexStatus list) option" where
  "readOnly_advance m ro =
     do {
       (rss, found) \<leftarrow> advanceLoop (roPending ro) (mContext m) (roQueue ro);
       case found of
         Some rest \<Rightarrow>
           do {
             pending \<leftarrow> foldM (\<lambda>rs p. do { e \<leftarrow> idx (mEntries (riReq rs)) 0; Some (fmdrop (dataOf e) p) })
               rss (roPending ro);
             Some (ro\<lparr>roQueue := rest, roPending := pending\<rparr>, rss)
           }
       | None \<Rightarrow> Some (ro, [])
     }"

definition lastPendingRequestCtx :: "readOnly \<Rightarrow> bytes" where
  "lastPendingRequestCtx ro = (if roQueue ro = [] then [] else last (roQueue ro))"

lemmas readOnly_defs = newReadOnly_def addRequest_def recvAck_def readOnly_advance_def
  lastPendingRequestCtx_def

end
