(* ===== verification/Wire.thy ===== *)
theory Wire
  imports Raftpb
begin

unbundle bit_operations_syntax

text \<open>
  The generated protobuf codec of raft/raftpb/raft.pb.go for the messages that the raft code
  itself encodes and decodes: Entry, ConfChange, ConfChangeSingle and ConfChangeV2.

  The generated Unmarshal methods share one skeleton, which is defined once
  (\<open>unmarshalLoop\<close>) and instantiated by a handler per message. The byte slice is the list of
  the bytes from iNdEx on; a reader also returns how many bytes it has used. Sums of positions
  and decoded lengths are Go ints and wrap at 64 bits (\<open>int64\<close>). The outer option is a panic
  (a slice expression out of range), the sum carries the returned error.
\<close>

datatype WireErr =
    ErrIntOverflowRaft | UnexpectedEOF | ErrInvalidLengthRaft | ErrWrongWireType int
  | ErrEndGroup | ErrIllegalTag | ErrIllegalWireType

type_synonym 'a res = "(WireErr + 'a) option"

definition res_bind :: "'a res \<Rightarrow> ('a \<Rightarrow> 'b res) \<Rightarrow> 'b res" where
  "res_bind r f = (case r of None \<Rightarrow> None | Some (Inl e) \<Rightarrow> Some (Inl e) | Some (Inr x) \<Rightarrow> f x)"

lemma res_bind_simps [simp]:
  "res_bind None f = None" "res_bind (Some (Inl e)) f = Some (Inl e)"
  "res_bind (Some (Inr x)) f = f x"
  by (simp_all add: res_bind_def)

lemma res_bind_cong [fundef_cong]:
  "r = r' \<Longrightarrow> (\<And>x. r' = Some (Inr x) \<Longrightarrow> f x = g x) \<Longrightarrow> res_bind r f = res_bind r' g"
  by (auto simp: res_bind_def split: option.splits sum.splits)

text \<open>Go's wrapping int.\<close>

definition int64 :: "int \<Rightarrow> int" where
  "int64 x = sint (word_of_int x :: u64)"

section \<open>Encoding\<close>

function encodeVarint :: "u64 \<Rightarrow> bytes" where
  "encodeVarint v =
     (if v \<ge> 128 then ucast ((v AND 0x7F) OR 0x80) # encodeVarint (drop_bit 7 v)
      else [ucast v])"
  by pat_completeness auto
termination
proof (relation "measure unat")
  fix v :: u64
  assume "v \<ge> 128"
  then have "128 \<le> unat v" by (simp add: word_le_nat_alt)
  then show "(drop_bit 7 v, v) \<in> measure unat" by (simp add: unat_drop_bit_7)
qed simp

declare encodeVarint.simps [simp del]

definition encodeBytesField :: "u8 \<Rightarrow> bytes option \<Rightarrow> bytes" where
  "encodeBytesField tag d =
     (case d of None \<Rightarrow> [] | Some b \<Rightarrow> tag # encodeVarint (word_of_nat (length b)) @ b)"

definition Entry_MarshalTo :: "entry \<Rightarrow> bytes" where
  "Entry_MarshalTo m =
     [0x8] @ encodeVarint (u64_of_int32 (eType m)) @ [0x10] @ encodeVarint (eTerm m)
     @ [0x18] @ encodeVarint (eIndex m) @ encodeBytesField 0x22 (eData m) @ eXXX m"

definition ConfChange_MarshalTo :: "ConfChange \<Rightarrow> bytes" where
  "ConfChange_MarshalTo m =
     [0x8] @ encodeVarint (ccID m) @ [0x10] @ encodeVarint (u64_of_int32 (ccType m))
     @ [0x18] @ encodeVarint (ccNodeID m) @ encodeBytesField 0x22 (ccContext m) @ ccXXX m"

definition ConfChangeSingle_MarshalTo :: "ConfChangeSingle \<Rightarrow> bytes" where
  "ConfChangeSingle_MarshalTo m =
     [0x8] @ encodeVarint (u64_of_int32 (csType m)) @ [0x10] @ encodeVarint (csNodeID m) @ csXXX m"

definition ConfChangeV2_MarshalTo :: "ConfChangeV2 \<Rightarrow> bytes" where
  "ConfChangeV2_MarshalTo m =
     [0x8] @ encodeVarint (u64_of_int32 (v2Transition m))
     @ concat (map (\<lambda>msg. [0x12] @ encodeVarint (word_of_nat (ConfChangeSingle_Size msg))
         @ ConfChangeSingle_MarshalTo msg) (v2Changes m))
     @ encodeBytesField 0x1a (v2Context m) @ v2XXX m"

text \<open>Marshal allocates Size bytes and lets MarshalTo fill them: writing past the end panics.\<close>

definition Entry_Marshal :: "entry \<Rightarrow> bytes option" where
  "Entry_Marshal m =
     do { let b = Entry_MarshalTo m; panic_if (length b > Entry_Size m); Some b }"

definition ConfChange_Marshal :: "ConfChange \<Rightarrow> bytes option" where
  "ConfChange_Marshal m =
     do { let b = ConfChange_MarshalTo m; panic_if (length b > ConfChange_Size m); Some b }"

definition ConfChangeSingle_Marshal :: "ConfChangeSingle \<Rightarrow> bytes option" where
  "ConfChangeSingle_Marshal m =
     do { let b = ConfChangeSingle_MarshalTo m; panic_if (length b > ConfChangeSingle_Size m); Some b }"

definition ConfChangeV2_Marshal :: "ConfChangeV2 \<Rightarrow> bytes option" where
  "ConfChangeV2_Marshal m =
     do { let b = ConfChangeV2_MarshalTo m; panic_if (length b > ConfChangeV2_Size m); Some b }"

text \<open>MarshalConfChange (raftpb/confchange.go): the entry type and the encoded change.\<close>

definition MarshalConfChange :: "ConfChangeI \<Rightarrow> (EntryType \<times> bytes) option" where
  "MarshalConfChange c =
     (case AsV1 c of
        (ccv1, ok) \<Rightarrow>
          if ok then do { d \<leftarrow> ConfChange_Marshal ccv1; Some (EntryConfChange, d) }
          else do { d \<leftarrow> ConfChangeV2_Marshal (AsV2 c); Some (EntryConfChangeV2, d) })"

section \<open>Decoding\<close>

text \<open>The varint loop, at the width of the variable it fills.\<close>

fun readVarint :: "nat \<Rightarrow> 'a::len word \<Rightarrow> bytes \<Rightarrow> WireErr + 'a word \<times> nat" where
  "readVarint shift acc [] = Inl (if shift \<ge> 64 then ErrIntOverflowRaft else UnexpectedEOF)"
| "readVarint shift acc (b # bs) =
     (if shift \<ge> 64 then Inl ErrIntOverflowRaft
      else
        let acc' = acc OR push_bit shift (ucast b AND 0x7F)
        in if b < 0x80 then Inr (acc', 1)
           else case readVarint (shift + 7) acc' bs of
             Inl e \<Rightarrow> Inl e
           | Inr (v, n) \<Rightarrow> Inr (v, n + 1))"

lemma readVarint_used:
  "readVarint s acc d = Inr (v, n) \<Longrightarrow> 1 \<le> n \<and> n \<le> length d"
  by (induction s acc d arbitrary: v n rule: readVarint.induct)
    (auto simp: Let_def split: if_splits sum.splits prod.splits)

text \<open>
  skipRaft and its loop over a group. A skipped length that makes the position negative ends
  in an index panic, one that does not advance would loop for ever: None in both cases.
\<close>

function (sequential) skipRaft :: "bytes \<Rightarrow> int res"
  and skipGroup :: "int \<Rightarrow> bytes \<Rightarrow> int res" where
  "skipRaft d =
     (if d = [] then None
      else case readVarint 0 (0 :: u64) d of
        Inl e \<Rightarrow> Some (Inl e)
      | Inr (wire, n) \<Rightarrow>
          let wireType = wire AND 7 in
          if wireType = 0 then
            (case readVarint 0 (0 :: u64) (drop n d) of
               Inl e \<Rightarrow> Some (Inl e)
             | Inr (_, k) \<Rightarrow> Some (Inr (int (n + k))))
          else if wireType = 1 then Some (Inr (int n + 8))
          else if wireType = 2 then
            (case readVarint 0 (0 :: u64) (drop n d) of
               Inl e \<Rightarrow> Some (Inl e)
             | Inr (len, k) \<Rightarrow>
                 let i = int64 (int (n + k) + sint len)
                 in if sint len < 0 then Some (Inl ErrInvalidLengthRaft) else Some (Inr i))
          else if wireType = 3 then skipGroup (int n) (drop n d)
          else if wireType = 4 then Some (Inr (int n))
          else if wireType = 5 then Some (Inr (int n + 4))
          else Some (Inl ErrIllegalWireType))"
| "skipGroup i d =
     (case readVarint 0 (0 :: u64) d of
        Inl e \<Rightarrow> Some (Inl e)
      | Inr (innerWire, n) \<Rightarrow>
          if innerWire AND 7 = 4 then Some (Inr (i + int n))
          else res_bind (skipRaft d) (\<lambda>nxt.
            if nxt \<le> 0 \<or> int64 (i + nxt) < 0 then None
            else skipGroup (int64 (i + nxt)) (drop (nat nxt) d)))"
  by pat_completeness auto
termination
proof (relation "inv_image (less_than <*lex*> less_than)
    (case_sum (\<lambda>d. (length d, 0 :: nat)) (\<lambda>(i, d). (length d, 1)))")
  fix d wire n p and wireType :: u64
  assume "d \<noteq> []" "readVarint 0 (0 :: u64) d = Inr p" "(wire, n) = p"
  then have "1 \<le> n \<and> n \<le> length d" using readVarint_used by metis
  then show "(Inr (int n, drop n d), Inl d) \<in> inv_image (less_than <*lex*> less_than)
    (case_sum (\<lambda>d. (length d, 0 :: nat)) (\<lambda>(i, d). (length d, 1)))"
    using \<open>d \<noteq> []\<close> by (cases d) auto
next
  fix i d p innerWire n nxt
  assume "readVarint 0 (0 :: u64) d = Inr p" "(innerWire, n) = p"
    and "\<not> (nxt \<le> 0 \<or> int64 (i + nxt) < 0)"
  then have "d \<noteq> []" "0 < nat nxt" by auto
  then show "(Inr (int64 (i + nxt), drop (nat nxt) d), Inr (i, d)) \<in> inv_image (less_than <*lex*> less_than)
    (case_sum (\<lambda>d. (length d, 0 :: nat)) (\<lambda>(i, d). (length d, 1)))"
    by auto
qed auto

declare skipRaft.simps [simp del] skipGroup.simps [simp del]

text \<open>
  One field: a varint of the width of the field, or length-delimited bytes. \<open>l\<close> is the length
  of the whole input, \<open>pos\<close> the position of \<open>d\<close> in it.
\<close>

definition varintField :: "u64 \<Rightarrow> bytes \<Rightarrow> ('a::len word \<Rightarrow> 'm) \<Rightarrow> ('m \<times> nat) res" where
  "varintField wireType d upd =
     (if wireType \<noteq> 0 then Some (Inl (ErrWrongWireType (uint wireType)))
      else case readVarint 0 (0 :: 'a word) d of
        Inl e \<Rightarrow> Some (Inl e)
      | Inr (v, n) \<Rightarrow> Some (Inr (upd v, n)))"

definition bytesField :: "u64 \<Rightarrow> nat \<Rightarrow> nat \<Rightarrow> bytes \<Rightarrow> (bytes \<times> nat) res" where
  "bytesField wireType l pos d =
     (if wireType \<noteq> 2 then Some (Inl (ErrWrongWireType (uint wireType)))
      else case readVarint 0 (0 :: u64) d of
        Inl e \<Rightarrow> Some (Inl e)
      | Inr (byteLen, n) \<Rightarrow>
          if sint byteLen < 0 then Some (Inl ErrInvalidLengthRaft)
          else
            let postIndex = int64 (int (pos + n) + sint byteLen) in
            if postIndex > int l then Some (Inl UnexpectedEOF)
            else if postIndex < int (pos + n) then None
            else Some (Inr (take (unat byteLen) (drop n d), n + unat byteLen)))"

text \<open>
  The skeleton. The handler gets the field number, the wire type, the length of the input,
  the position after the tag, the bytes from there and the message so far; None is the
  default case of its switch.
\<close>

type_synonym 'm handler = "int \<Rightarrow> u64 \<Rightarrow> nat \<Rightarrow> nat \<Rightarrow> bytes \<Rightarrow> 'm \<Rightarrow> ('m \<times> nat) res option"

function unmarshalLoop ::
  "'m handler \<Rightarrow> (bytes \<Rightarrow> 'm \<Rightarrow> 'm) \<Rightarrow> nat \<Rightarrow> bytes \<Rightarrow> 'm \<Rightarrow> 'm res" where
  "unmarshalLoop h unk l d m =
     (if d = [] then Some (Inr m)
      else case readVarint 0 (0 :: u64) d of
        Inl e \<Rightarrow> Some (Inl e)
      | Inr (wire, n) \<Rightarrow>
          let fieldNum = sint (ucast (drop_bit 3 wire) :: int32);
              wireType = wire AND 7;
              i = l - length d
          in if wireType = 4 then Some (Inl ErrEndGroup)
             else if fieldNum \<le> 0 then Some (Inl ErrIllegalTag)
             else case h fieldNum wireType l (i + n) (drop n d) m of
               Some r \<Rightarrow> res_bind r (\<lambda>(m', k). unmarshalLoop h unk l (drop (n + k) d) m')
             | None \<Rightarrow> res_bind (skipRaft d) (\<lambda>skippy.
                 if skippy < 0 then Some (Inl ErrInvalidLengthRaft)
                 else if int64 (int i + skippy) > int l then Some (Inl UnexpectedEOF)
                 else if int64 (int i + skippy) < int i \<or> skippy = 0 then None
                 else unmarshalLoop h unk l (drop (nat skippy) d) (unk (take (nat skippy) d) m)))"
  by pat_completeness auto
termination
proof (relation "measure (\<lambda>(h, unk, l, d, m). length d)")
  fix h :: "'m handler" and unk :: "bytes \<Rightarrow> 'm \<Rightarrow> 'm" and l d m p wire n fieldNum wireType i r x m' k
  assume "d \<noteq> []" "readVarint 0 (0 :: u64) d = Inr p" "(wire, n) = p"
  then have "1 \<le> n" using readVarint_used by metis
  with \<open>d \<noteq> []\<close> show "((h, unk, l, drop (n + k) d, m'), h, unk, l, d, m)
      \<in> measure (\<lambda>(h, unk, l, d, m). length d)"
    by (cases d) auto
qed auto

declare unmarshalLoop.simps [simp del]

fun Entry_field :: "entry handler" where
  "Entry_field fieldNum wireType l pos d m =
     (if fieldNum = 1 then Some (varintField wireType d (\<lambda>v. m\<lparr>eType := v\<rparr>))
      else if fieldNum = 2 then Some (varintField wireType d (\<lambda>v. m\<lparr>eTerm := v\<rparr>))
      else if fieldNum = 3 then Some (varintField wireType d (\<lambda>v. m\<lparr>eIndex := v\<rparr>))
      else if fieldNum = 4 then
        Some (res_bind (bytesField wireType l pos d) (\<lambda>(b, n). Some (Inr (m\<lparr>eData := Some b\<rparr>, n))))
      else None)"

definition Entry_Unmarshal :: "bytes \<Rightarrow> entry \<Rightarrow> entry res" where
  "Entry_Unmarshal d m =
     unmarshalLoop Entry_field (\<lambda>u m. m\<lparr>eXXX := eXXX m @ u\<rparr>) (length d) d m"

fun ConfChange_field :: "ConfChange handler" where
  "ConfChange_field fieldNum wireType l pos d m =
     (if fieldNum = 1 then Some (varintField wireType d (\<lambda>v. m\<lparr>ccID := v\<rparr>))
      else if fieldNum = 2 then Some (varintField wireType d (\<lambda>v. m\<lparr>ccType := v\<rparr>))
      else if fieldNum = 3 then Some (varintField wireType d (\<lambda>v. m\<lparr>ccNodeID := v\<rparr>))
      else if fieldNum = 4 then
        Some (res_bind (bytesField wireType l pos d) (\<lambda>(b, n). Some (Inr (m\<lparr>ccContext := Some b\<rparr>, n))))
      else None)"

definition ConfChange_Unmarshal :: "bytes \<Rightarrow> ConfChange \<Rightarrow> ConfChange res" where
  "ConfChange_Unmarshal d m =
     unmarshalLoop ConfChange_field (\<lambda>u m. m\<lparr>ccXXX := ccXXX m @ u\<rparr>) (length d) d m"

fun ConfChangeSingle_field :: "ConfChangeSingle handler" where
  "ConfChangeSingle_field fieldNum wireType l pos d m =
     (if fieldNum = 1 then Some (varintField wireType d (\<lambda>v. m\<lparr>csType := v\<rparr>))
      else if fieldNum = 2 then Some (varintField wireType d (\<lambda>v. m\<lparr>csNodeID := v\<rparr>))
      else None)"

definition ConfChangeSingle_Unmarshal :: "bytes \<Rightarrow> ConfChangeSingle \<Rightarrow> ConfChangeSingle res" where
  "ConfChangeSingle_Unmarshal d m =
     unmarshalLoop ConfChangeSingle_field (\<lambda>u m. m\<lparr>csXXX := csXXX m @ u\<rparr>) (length d) d m"

fun ConfChangeV2_field :: "ConfChangeV2 handler" where
  "ConfChangeV2_field fieldNum wireType l pos d m =
     (if fieldNum = 1 then Some (varintField wireType d (\<lambda>v. m\<lparr>v2Transition := v\<rparr>))
      else if fieldNum = 2 then
        Some (res_bind (bytesField wireType l pos d) (\<lambda>(b, n).
          res_bind (ConfChangeSingle_Unmarshal b zeroConfChangeSingle) (\<lambda>c.
            Some (Inr (m\<lparr>v2Changes := v2Changes m @ [c]\<rparr>, n)))))
      else if fieldNum = 3 then
        Some (res_bind (bytesField wireType l pos d) (\<lambda>(b, n). Some (Inr (m\<lparr>v2Context := Some b\<rparr>, n))))
      else None)"

definition ConfChangeV2_Unmarshal :: "bytes \<Rightarrow> ConfChangeV2 \<Rightarrow> ConfChangeV2 res" where
  "ConfChangeV2_Unmarshal d m =
     unmarshalLoop ConfChangeV2_field (\<lambda>u m. m\<lparr>v2XXX := v2XXX m @ u\<rparr>) (length d) d m"

end
