(* ===== verification/Raft.thy ===== *)
theory Raft
  imports RaftLog Confchange ReadOnly Wire
begin

text \<open>
  raft/raft.go: the raft state machine. Every method is a function on the state, an option for
  its panics; the messages it sends are appended to \<open>rMsgs\<close>. A closure stored in a field (step,
  tick) is the name of the function it holds. The random source of the election timeout is a
  stream of draws, of which \<open>Intn n\<close> takes the next one modulo n. Log lines are left out, except
  for the arguments whose evaluation can panic (lastTerm, lastIndex).
\<close>

datatype StateType = StateFollower | StateCandidate | StateLeader | StatePreCandidate

datatype CampaignType = CampaignPreElection | CampaignElection | CampaignTransfer

datatype StepFunc = NoStep | StepFollower | StepCandidate | StepLeader

datatype TickFunc = NoTick | TickElection | TickHeartbeat

datatype RaftErr = ErrProposalDropped | ErrStepLocalMsg | ErrStepPeerNotFound

definition None_id :: u64 where
  "None_id = 0"

text \<open>\<open>[]byte(campaignTransfer)\<close>, the bytes of \<open>"CampaignTransfer"\<close>.\<close>

definition campaignTransfer_bytes :: bytes where
  "campaignTransfer_bytes =
     [67, 97, 109, 112, 97, 105, 103, 110, 84, 114, 97, 110, 115, 102, 101, 114]"

section \<open>Configuration\<close>

record RaftConfig =
  cID :: u64
  cPeers :: "u64 list"
  cLearners :: "u64 list"
  cElectionTick :: int
  cHeartbeatTick :: int
  cStorage :: "MemoryStorage option"
  cApplied :: u64
  cMaxSizePerMsg :: u64
  cMaxCommittedSizePerReady :: u64
  cMaxUncommittedEntriesSize :: u64
  cMaxInflightMsgs :: int
  cCheckQuorum :: bool
  cPreVote :: bool
  cReadOnlyOption :: ReadOnlyOption
  cDisableProposalForwarding :: bool

datatype ConfigErr =
    CannotUseNoneAsID | HeartbeatTickNotPositive | ElectionTickNotGreater | StorageNil
  | MaxInflightNotPositive | LeaseBasedNeedsCheckQuorum

text \<open>validate fills in defaults on the way.\<close>

definition Config_validate :: "RaftConfig \<Rightarrow> ConfigErr + RaftConfig" where
  "Config_validate c =
     (if cID c = None_id then Inl CannotUseNoneAsID
      else if cHeartbeatTick c \<le> 0 then Inl HeartbeatTickNotPositive
      else if cElectionTick c \<le> cHeartbeatTick c then Inl ElectionTickNotGreater
      else if cStorage c = None then Inl StorageNil
      else
        let c = (if cMaxUncommittedEntriesSize c = 0 then c\<lparr>cMaxUncommittedEntriesSize := noLimit\<rparr> else c);
            c = (if cMaxCommittedSizePerReady c = 0
                 then c\<lparr>cMaxCommittedSizePerReady := cMaxSizePerMsg c\<rparr> else c)
        in if cMaxInflightMsgs c \<le> 0 then Inl MaxInflightNotPositive
           else if cReadOnlyOption c = ReadOnlyLeaseBased \<and> \<not> cCheckQuorum c
           then Inl LeaseBasedNeedsCheckQuorum
           else Inr c)"

section \<open>The state\<close>

record raft =
  rId :: u64
  rTerm :: u64
  rVote :: u64
  rReadStates :: "ReadState list"
  rLog :: raftLog
  rMaxMsgSize :: u64
  rMaxUncommittedSize :: u64
  rPrs :: ProgressTracker
  rState :: StateType
  rIsLearner :: bool
  rMsgs :: "Message list"
  rLead :: u64
  rLeadTransferee :: u64
  rPendingConfIndex :: u64
  rUncommittedSize :: u64
  rReadOnly :: readOnly
  rElectionElapsed :: int
  rHeartbeatElapsed :: int
  rCheckQuorum :: bool
  rPreVote :: bool
  rHeartbeatTimeout :: int
  rElectionTimeout :: int
  rRandomizedElectionTimeout :: int
  rDisableProposalForwarding :: bool
  rTick :: TickFunc
  rStep :: StepFunc
  rDraws :: "nat \<Rightarrow> nat"

record SoftState =
  ssLead :: u64
  ssRaftState :: StateType

definition hasLeader :: "raft \<Rightarrow> bool" where
  "hasLeader r \<longleftrightarrow> rLead r \<noteq> None_id"

definition softState :: "raft \<Rightarrow> SoftState" where
  "softState r = \<lparr>ssLead = rLead r, ssRaftState = rState r\<rparr>"

definition SoftState_equal :: "SoftState \<Rightarrow> SoftState \<Rightarrow> bool" where
  "SoftState_equal a b \<longleftrightarrow> ssLead a = ssLead b \<and> ssRaftState a = ssRaftState b"

definition hardState :: "raft \<Rightarrow> HardState" where
  "hardState r = \<lparr>hsTerm = rTerm r, hsVote = rVote r, hsCommit = rlCommitted (rLog r)\<rparr>"

text \<open>The progress record of a peer behind its pointer in the map: nil panics.\<close>

definition get_pr :: "u64 \<Rightarrow> raft \<Rightarrow> Progress option" where
  "get_pr i r = fmlookup (trkProgress (rPrs r)) i"

definition put_pr :: "u64 \<Rightarrow> Progress \<Rightarrow> raft \<Rightarrow> raft" where
  "put_pr i pr r = r\<lparr>rPrs := (rPrs r)\<lparr>trkProgress := fmupd i pr (trkProgress (rPrs r))\<rparr>\<rparr>"

section \<open>Sending\<close>

definition send :: "Message \<Rightarrow> raft \<Rightarrow> raft option" where
  "send m r =
     do {
       let m = m\<lparr>mFrom := rId r\<rparr>;
       m \<leftarrow> (if mType m = MsgVote \<or> mType m = MsgVoteResp \<or> mType m = MsgPreVote
               \<or> mType m = MsgPreVoteResp then
               do { panic_if (mTerm m = 0); Some m }
             else
               do {
                 panic_if (mTerm m \<noteq> 0);
                 Some (if mType m \<noteq> MsgProp \<and> mType m \<noteq> MsgReadIndex then m\<lparr>mTerm := rTerm r\<rparr> else m)
               });
       Some (r\<lparr>rMsgs := rMsgs r @ [m]\<rparr>)
     }"

text \<open>The two branches of maybeSendAppend: a snapshot, or entries.\<close>

definition sendSnapshot :: "u64 \<Rightarrow> Progress \<Rightarrow> Message \<Rightarrow> raft \<Rightarrow> (raft \<times> bool) option" where
  "sendSnapshot to pr m r =
     (if \<not> prRecentActive pr then Some (r, False)
      else
        let m = m\<lparr>mType := MsgSnap\<rparr> in
        case raftLog_snapshot (rLog r) of
          Inl err \<Rightarrow> if err = ErrSnapshotTemporarilyUnavailable then Some (r, False) else None
        | Inr snapshot \<Rightarrow>
            do {
              panic_if (IsEmptySnap snapshot);
              let m = m\<lparr>mSnapshot := snapshot\<rparr>;
              _ \<leftarrow> firstIndex (rLog r);
              let r = put_pr to (BecomeSnapshot (smIndex (sMetadata snapshot)) pr) r;
              r \<leftarrow> send m r;
              Some (r, True)
            })"

definition sendEntries ::
  "u64 \<Rightarrow> Progress \<Rightarrow> u64 \<Rightarrow> entry list \<Rightarrow> Message \<Rightarrow> raft \<Rightarrow> (raft \<times> bool) option" where
  "sendEntries to pr t ents m r =
     do {
       let m = m\<lparr>mType := MsgApp, mIndex := prNext pr - 1, mLogTerm := t, mEntries := ents,
                 mCommit := rlCommitted (rLog r)\<rparr>;
       pr \<leftarrow> (if length ents \<noteq> 0 then
                (case prState pr of
                   StateReplicate \<Rightarrow>
                     do {
                       let lst = eIndex (last ents);
                       let pr = OptimisticUpdate lst pr;
                       ins \<leftarrow> Inflights_Add (prInflights pr) lst;
                       Some (pr\<lparr>prInflights := ins\<rparr>)
                     }
                 | StateProbe \<Rightarrow> Some (pr\<lparr>prProbeSent := True\<rparr>)
                 | StateSnapshot \<Rightarrow> None)
              else Some pr);
       r \<leftarrow> send m (put_pr to pr r);
       Some (r, True)
     }"

definition maybeSendAppend :: "u64 \<Rightarrow> bool \<Rightarrow> raft \<Rightarrow> (raft \<times> bool) option" where
  "maybeSendAppend to sendIfEmpty r =
     do {
       pr \<leftarrow> get_pr to r;
       if IsPaused pr then Some (r, False)
       else do {
         let m = zeroMessage\<lparr>mTo := to\<rparr>;
         t \<leftarrow> raftLog_term (rLog r) (prNext pr - 1);
         ents \<leftarrow> raftLog_entries (rLog r) (prNext pr) (rMaxMsgSize r);
         let n = (case ents of Inr es \<Rightarrow> length es | Inl _ \<Rightarrow> 0);
         if n = 0 \<and> \<not> sendIfEmpty then Some (r, False)
         else (case (t, ents) of
             (Inr t, Inr es) \<Rightarrow> sendEntries to pr t es m r
           | _ \<Rightarrow> sendSnapshot to pr m r)
       }
     }"

definition sendAppend :: "u64 \<Rightarrow> raft \<Rightarrow> raft option" where
  "sendAppend to r = do { (r, _) \<leftarrow> maybeSendAppend to True r; Some r }"

text \<open>\<open>for r.maybeSendAppend(to, false) {}\<close>; None is a panic or an endless loop.\<close>

partial_function (option) sendLoop :: "u64 \<Rightarrow> raft \<Rightarrow> raft option" where
  "sendLoop to r =
     do {
       x \<leftarrow> maybeSendAppend to False r;
       if snd x then sendLoop to (fst x) else Some (fst x)
     }"

declare sendLoop.simps [code]

definition sendHeartbeat :: "u64 \<Rightarrow> bytes \<Rightarrow> raft \<Rightarrow> raft option" where
  "sendHeartbeat to ctx r =
     do {
       pr \<leftarrow> get_pr to r;
       let commit = go_min (prMatch pr) (rlCommitted (rLog r));
       send (zeroMessage\<lparr>mTo := to, mType := MsgHeartbeat, mCommit := commit, mContext := ctx\<rparr>) r
     }"

text \<open>A Visit whose closure works on the whole state.\<close>

definition Visit :: "(u64 \<Rightarrow> raft \<Rightarrow> raft option) \<Rightarrow> raft \<Rightarrow> raft option" where
  "Visit f r = foldM f (visit_ids (rPrs r)) r"

definition bcastAppend :: "raft \<Rightarrow> raft option" where
  "bcastAppend r = Visit (\<lambda>i s. if i = rId s then Some s else sendAppend i s) r"

definition bcastHeartbeatWithCtx :: "bytes \<Rightarrow> raft \<Rightarrow> raft option" where
  "bcastHeartbeatWithCtx ctx r = Visit (\<lambda>i s. if i = rId s then Some s else sendHeartbeat i ctx s) r"

definition bcastHeartbeat :: "raft \<Rightarrow> raft option" where
  "bcastHeartbeat r =
     (let lastCtx = lastPendingRequestCtx (rReadOnly r) in
      if length lastCtx = 0 then bcastHeartbeatWithCtx [] r else bcastHeartbeatWithCtx lastCtx r)"

definition sendTimeoutNow :: "u64 \<Rightarrow> raft \<Rightarrow> raft option" where
  "sendTimeoutNow to r = send (zeroMessage\<lparr>mTo := to, mType := MsgTimeoutNow\<rparr>) r"

section \<open>Committing, terms, appending\<close>

definition maybeCommit :: "raft \<Rightarrow> (raft \<times> bool) option" where
  "maybeCommit r =
     do {
       let mci = Tracker_Committed (rPrs r);
       (l, b) \<leftarrow> raftLog_maybeCommit mci (rTerm r) (rLog r);
       Some (r\<lparr>rLog := l\<rparr>, b)
     }"

definition abortLeaderTransfer :: "raft \<Rightarrow> raft" where
  "abortLeaderTransfer r = r\<lparr>rLeadTransferee := None_id\<rparr>"

definition pastElectionTimeout :: "raft \<Rightarrow> bool" where
  "pastElectionTimeout r \<longleftrightarrow> rElectionElapsed r \<ge> rRandomizedElectionTimeout r"

text \<open>rand.Intn panics unless its argument is positive.\<close>

definition resetRandomizedElectionTimeout :: "raft \<Rightarrow> raft option" where
  "resetRandomizedElectionTimeout r =
     do {
       panic_if (rElectionTimeout r \<le> 0);
       let v = int (rDraws r 0) mod rElectionTimeout r;
       Some (r\<lparr>rRandomizedElectionTimeout := rElectionTimeout r + v, rDraws := (\<lambda>k. rDraws r (Suc k))\<rparr>)
     }"

definition reset :: "u64 \<Rightarrow> raft \<Rightarrow> raft option" where
  "reset t r =
     do {
       let r = (if rTerm r \<noteq> t then r\<lparr>rTerm := t, rVote := None_id\<rparr> else r);
       let r = r\<lparr>rLead := None_id, rElectionElapsed := 0, rHeartbeatElapsed := 0\<rparr>;
       r \<leftarrow> resetRandomizedElectionTimeout r;
       let r = abortLeaderTransfer r;
       let r = r\<lparr>rPrs := ResetVotes (rPrs r)\<rparr>;
       r \<leftarrow> Visit (\<lambda>i s.
           do {
             pr \<leftarrow> get_pr i s;
             li \<leftarrow> lastIndex (rLog s);
             let pr = \<lparr>prMatch = 0, prNext = li + 1, prState = StateProbe, prPendingSnapshot = 0,
               prRecentActive = False, prProbeSent = False,
               prInflights = NewInflights (trkMaxInflight (rPrs s)), prIsLearner = prIsLearner pr\<rparr>;
             let pr = (if i = rId s then pr\<lparr>prMatch := li\<rparr> else pr);
             Some (put_pr i pr s)
           }) r;
       Some (r\<lparr>rPendingConfIndex := 0, rUncommittedSize := 0,
               rReadOnly := newReadOnly (roOption (rReadOnly r))\<rparr>)
     }"

definition payloads :: "entry list \<Rightarrow> u64" where
  "payloads ents = fold (\<lambda>e s. s + word_of_nat (PayloadSize e)) ents 0"

definition increaseUncommittedSize :: "entry list \<Rightarrow> raft \<Rightarrow> raft \<times> bool" where
  "increaseUncommittedSize ents r =
     (let s = payloads ents in
      if rUncommittedSize r > 0 \<and> rUncommittedSize r + s > rMaxUncommittedSize r then (r, False)
      else (r\<lparr>rUncommittedSize := rUncommittedSize r + s\<rparr>, True))"

definition reduceUncommittedSize :: "entry list \<Rightarrow> raft \<Rightarrow> raft" where
  "reduceUncommittedSize ents r =
     (if rUncommittedSize r = 0 then r
      else
        let s = payloads ents in
        if s > rUncommittedSize r then r\<lparr>rUncommittedSize := 0\<rparr>
        else r\<lparr>rUncommittedSize := rUncommittedSize r - s\<rparr>)"

text \<open>The loop of appendEntry that stamps term and index on the proposed entries.\<close>

fun stamp :: "u64 \<Rightarrow> u64 \<Rightarrow> entry list \<Rightarrow> entry list" where
  "stamp t i [] = []"
| "stamp t i (e # es) = e\<lparr>eTerm := t, eIndex := i\<rparr> # stamp t (i + 1) es"

definition appendEntry :: "entry list \<Rightarrow> raft \<Rightarrow> (raft \<times> bool) option" where
  "appendEntry es r =
     do {
       li \<leftarrow> lastIndex (rLog r);
       let es = stamp (rTerm r) (li + 1) es;
       let (r, ok) = increaseUncommittedSize es r;
       if \<not> ok then Some (r, False)
       else do {
         (l, li) \<leftarrow> raftLog_append es (rLog r);
         let r = r\<lparr>rLog := l\<rparr>;
         pr \<leftarrow> get_pr (rId r) r;
         let r = put_pr (rId r) (fst (MaybeUpdate li pr)) r;
         (r, _) \<leftarrow> maybeCommit r;
         Some (r, True)
       }
     }"

section \<open>Roles\<close>

definition becomeFollower :: "u64 \<Rightarrow> u64 \<Rightarrow> raft \<Rightarrow> raft option" where
  "becomeFollower t lead r =
     do {
       let r = r\<lparr>rStep := StepFollower\<rparr>;
       r \<leftarrow> reset t r;
       Some (r\<lparr>rTick := TickElection, rLead := lead, rState := StateFollower\<rparr>)
     }"

definition becomeCandidate :: "raft \<Rightarrow> raft option" where
  "becomeCandidate r =
     do {
       panic_if (rState r = StateLeader);
       let r = r\<lparr>rStep := StepCandidate\<rparr>;
       r \<leftarrow> reset (rTerm r + 1) r;
       Some (r\<lparr>rTick := TickElection, rVote := rId r, rState := StateCandidate\<rparr>)
     }"

definition becomePreCandidate :: "raft \<Rightarrow> raft option" where
  "becomePreCandidate r =
     do {
       panic_if (rState r = StateLeader);
       Some (r\<lparr>rStep := StepCandidate, rPrs := ResetVotes (rPrs r), rTick := TickElection,
               rLead := None_id, rState := StatePreCandidate\<rparr>)
     }"

definition becomeLeader :: "raft \<Rightarrow> raft option" where
  "becomeLeader r =
     do {
       panic_if (rState r = StateFollower);
       let r = r\<lparr>rStep := StepLeader\<rparr>;
       r \<leftarrow> reset (rTerm r) r;
       let r = r\<lparr>rTick := TickHeartbeat, rLead := rId r, rState := StateLeader\<rparr>;
       pr \<leftarrow> get_pr (rId r) r;
       let r = put_pr (rId r) (BecomeReplicate pr) r;
       li \<leftarrow> lastIndex (rLog r);
       let r = r\<lparr>rPendingConfIndex := li\<rparr>;
       let emptyEnt = zeroEntry;
       (r, ok) \<leftarrow> appendEntry [emptyEnt] r;
       panic_if (\<not> ok);
       Some (reduceUncommittedSize [emptyEnt] r)
     }"

definition promotable :: "raft \<Rightarrow> bool" where
  "promotable r \<longleftrightarrow> (case get_pr (rId r) r of None \<Rightarrow> False | Some pr \<Rightarrow> \<not> prIsLearner pr)"

definition poll :: "u64 \<Rightarrow> bool \<Rightarrow> raft \<Rightarrow> raft \<times> VoteResult" where
  "poll i v r =
     (let r = r\<lparr>rPrs := RecordVote i v (rPrs r)\<rparr>
      in case TallyVotes (rPrs r) of (granted, rejected, res) \<Rightarrow> (r, res))"

text \<open>The vote requests of campaign.\<close>

definition requestVotes :: "CampaignType \<Rightarrow> u64 \<Rightarrow> MessageType \<Rightarrow> raft \<Rightarrow> raft option" where
  "requestVotes t term voteMsg r =
     foldM (\<lambda>i s.
         if i = rId s then Some s
         else do {
           lt \<leftarrow> lastTerm (rLog s);
           li \<leftarrow> lastIndex (rLog s);
           let ctx = (if t = CampaignTransfer then campaignTransfer_bytes else []);
           send (zeroMessage\<lparr>mTerm := term, mTo := i, mType := voteMsg, mIndex := li,
                   mLogTerm := lt, mContext := ctx\<rparr>) s
         }) (insertionSort (sorted_keys (Joint_IDs (Voters (trkConfig (rPrs r)))))) r"

function campaign :: "CampaignType \<Rightarrow> raft \<Rightarrow> raft option" where
  "campaign t r =
     (if t = CampaignPreElection then
        do {
          r \<leftarrow> becomePreCandidate r;
          let term = rTerm r + 1;
          let (r, res) = poll (rId r) True r;
          if res = VoteWon then campaign CampaignElection r
          else requestVotes t term MsgPreVote r
        }
      else
        do {
          r \<leftarrow> becomeCandidate r;
          let term = rTerm r;
          let (r, res) = poll (rId r) True r;
          if res = VoteWon then becomeLeader r
          else requestVotes t term MsgVote r
        })"
  by pat_completeness auto
termination by (relation "measure (\<lambda>(t, r). if t = CampaignPreElection then 1 else 0)") auto

declare campaign.simps [simp del]

section \<open>Configuration switches\<close>

definition switchToConfig :: "Config \<Rightarrow> ProgressMap \<Rightarrow> raft \<Rightarrow> (raft \<times> ConfState) option" where
  "switchToConfig cfg prs r =
     do {
       let r = r\<lparr>rPrs := (rPrs r)\<lparr>trkConfig := cfg, trkProgress := prs\<rparr>\<rparr>;
       let cs = Tracker_ConfState (rPrs r);
       let pr = get_pr (rId r) r;
       let ok = (pr \<noteq> None);
       let r = r\<lparr>rIsLearner := (case pr of None \<Rightarrow> False | Some pr \<Rightarrow> prIsLearner pr)\<rparr>;
       if (\<not> ok \<or> rIsLearner r) \<and> rState r = StateLeader then Some (r, cs)
       else if rState r \<noteq> StateLeader \<or> length (csVoters cs) = 0 then Some (r, cs)
       else do {
         (r, committed) \<leftarrow> maybeCommit r;
         r \<leftarrow> (if committed then bcastAppend r
               else Visit (\<lambda>i s. do { (s, _) \<leftarrow> maybeSendAppend i False s; Some s }) r);
         let r = (if get_pr (rLeadTransferee r) r = None \<and> rLeadTransferee r \<noteq> 0
                  then abortLeaderTransfer r else r);
         Some (r, cs)
       }
     }"

definition applyConfChange :: "ConfChangeV2 \<Rightarrow> raft \<Rightarrow> (raft \<times> ConfState) option" where
  "applyConfChange cc r =
     do {
       li \<leftarrow> lastIndex (rLog r);
       res \<leftarrow> Changer_change \<lparr>chTracker = rPrs r, chLastIndex = li\<rparr> cc;
       case res of
         Inl err \<Rightarrow> None
       | Inr (cfg, prs) \<Rightarrow> switchToConfig cfg prs r
     }"

definition loadState :: "HardState \<Rightarrow> raft \<Rightarrow> raft option" where
  "loadState st r =
     do {
       li \<leftarrow> lastIndex (rLog r);
       panic_if (hsCommit st < rlCommitted (rLog r) \<or> hsCommit st > li);
       Some (r\<lparr>rLog := (rLog r)\<lparr>rlCommitted := hsCommit st\<rparr>, rTerm := hsTerm st, rVote := hsVote st\<rparr>)
     }"

section \<open>Messages from a leader\<close>

text \<open>restore returns whether the snapshot replaced the log.\<close>

definition restore :: "Snapshot \<Rightarrow> raft \<Rightarrow> (raft \<times> bool) option" where
  "restore s r =
     (if smIndex (sMetadata s) \<le> rlCommitted (rLog r) then Some (r, False)
      else if rState r \<noteq> StateFollower then
        do { r \<leftarrow> becomeFollower (rTerm r + 1) None_id r; Some (r, False) }
      else
        let cs = smConfState (sMetadata s);
            found = (rId r \<in> set (csVoters cs) \<or> rId r \<in> set (csLearners cs))
        in if \<not> found then Some (r, False)
        else do {
          b \<leftarrow> matchTerm (rLog r) (smIndex (sMetadata s)) (smTerm (sMetadata s));
          if b then
            do {
              _ \<leftarrow> lastIndex (rLog r);
              _ \<leftarrow> lastTerm (rLog r);
              l \<leftarrow> commitTo (smIndex (sMetadata s)) (rLog r);
              Some (r\<lparr>rLog := l\<rparr>, False)
            }
          else do {
            let r = r\<lparr>rLog := raftLog_restore s (rLog r)\<rparr>;
            let r = r\<lparr>rPrs := MakeProgressTracker (trkMaxInflight (rPrs r))\<rparr>;
            li \<leftarrow> lastIndex (rLog r);
            res \<leftarrow> Restore \<lparr>chTracker = rPrs r, chLastIndex = li\<rparr> cs;
            case res of
              Inl err \<Rightarrow> None
            | Inr (cfg, prs) \<Rightarrow>
                do {
                  (r, cs') \<leftarrow> switchToConfig cfg prs r;
                  assertConfStatesEquivalent cs cs';
                  pr \<leftarrow> get_pr (rId r) r;
                  let r = put_pr (rId r) (fst (MaybeUpdate (prNext pr - 1) pr)) r;
                  _ \<leftarrow> lastTerm (rLog r);
                  Some (r, True)
                }
          }
        })"

definition handleAppendEntries :: "Message \<Rightarrow> raft \<Rightarrow> raft option" where
  "handleAppendEntries m r =
     (if mIndex m < rlCommitted (rLog r) then
        send (zeroMessage\<lparr>mTo := mFrom m, mType := MsgAppResp, mIndex := rlCommitted (rLog r)\<rparr>) r
      else do {
        (l, mlastIndex, ok) \<leftarrow> maybeAppend (mIndex m) (mLogTerm m) (mCommit m) (mEntries m) (rLog r);
        let r = r\<lparr>rLog := l\<rparr>;
        if ok then send (zeroMessage\<lparr>mTo := mFrom m, mType := MsgAppResp, mIndex := mlastIndex\<rparr>) r
        else do {
          t \<leftarrow> raftLog_term (rLog r) (mIndex m);
          _ \<leftarrow> zeroTermOnErrCompacted t;
          li \<leftarrow> lastIndex (rLog r);
          send (zeroMessage\<lparr>mTo := mFrom m, mType := MsgAppResp, mIndex := mIndex m, mReject := True,
                  mRejectHint := li\<rparr>) r
        }
      })"

definition handleHeartbeat :: "Message \<Rightarrow> raft \<Rightarrow> raft option" where
  "handleHeartbeat m r =
     do {
       l \<leftarrow> commitTo (mCommit m) (rLog r);
       send (zeroMessage\<lparr>mTo := mFrom m, mType := MsgHeartbeatResp, mContext := mContext m\<rparr>) (r\<lparr>rLog := l\<rparr>)
     }"

definition handleSnapshot :: "Message \<Rightarrow> raft \<Rightarrow> raft option" where
  "handleSnapshot m r =
     do {
       (r, restored) \<leftarrow> restore (mSnapshot m) r;
       if restored then
         do {
           li \<leftarrow> lastIndex (rLog r);
           send (zeroMessage\<lparr>mTo := mFrom m, mType := MsgAppResp, mIndex := li\<rparr>) r
         }
       else send (zeroMessage\<lparr>mTo := mFrom m, mType := MsgAppResp, mIndex := rlCommitted (rLog r)\<rparr>) r
     }"

section \<open>The step functions\<close>

text \<open>A step returns the state and the error it reports.\<close>

type_synonym stepResult = "(raft \<times> RaftErr option) option"

definition done_ok :: "raft option \<Rightarrow> stepResult" where
  "done_ok x = map_option (\<lambda>r. (r, None)) x"

lemma done_ok_Some [simp]: "done_ok x = Some (r, e) \<longleftrightarrow> x = Some r \<and> e = None"
  by (auto simp: done_ok_def)

definition stepFollower :: "Message \<Rightarrow> raft \<Rightarrow> stepResult" where
  "stepFollower m r =
     (case mType m of
        MsgProp \<Rightarrow>
          if rLead r = None_id then Some (r, Some ErrProposalDropped)
          else if rDisableProposalForwarding r then Some (r, Some ErrProposalDropped)
          else done_ok (send (m\<lparr>mTo := rLead r\<rparr>) r)
      | MsgApp \<Rightarrow> done_ok (handleAppendEntries m (r\<lparr>rElectionElapsed := 0, rLead := mFrom m\<rparr>))
      | MsgHeartbeat \<Rightarrow> done_ok (handleHeartbeat m (r\<lparr>rElectionElapsed := 0, rLead := mFrom m\<rparr>))
      | MsgSnap \<Rightarrow> done_ok (handleSnapshot m (r\<lparr>rElectionElapsed := 0, rLead := mFrom m\<rparr>))
      | MsgTransferLeader \<Rightarrow>
          if rLead r = None_id then Some (r, None) else done_ok (send (m\<lparr>mTo := rLead r\<rparr>) r)
      | MsgTimeoutNow \<Rightarrow>
          if promotable r then done_ok (campaign CampaignTransfer r) else Some (r, None)
      | MsgReadIndex \<Rightarrow>
          if rLead r = None_id then Some (r, None) else done_ok (send (m\<lparr>mTo := rLead r\<rparr>) r)
      | MsgReadIndexResp \<Rightarrow>
          (case mEntries m of
             [e] \<Rightarrow> Some (r\<lparr>rReadStates := rReadStates r @ [\<lparr>rsIndex = mIndex m, rsRequestCtx = eData e\<rparr>]\<rparr>, None)
           | _ \<Rightarrow> Some (r, None))
      | _ \<Rightarrow> Some (r, None))"

definition stepCandidate :: "Message \<Rightarrow> raft \<Rightarrow> stepResult" where
  "stepCandidate m r =
     (let myVoteRespType = (if rState r = StatePreCandidate then MsgPreVoteResp else MsgVoteResp) in
      if mType m = MsgProp then Some (r, Some ErrProposalDropped)
      else if mType m = MsgApp then
        done_ok (do { r \<leftarrow> becomeFollower (mTerm m) (mFrom m) r; handleAppendEntries m r })
      else if mType m = MsgHeartbeat then
        done_ok (do { r \<leftarrow> becomeFollower (mTerm m) (mFrom m) r; handleHeartbeat m r })
      else if mType m = MsgSnap then
        done_ok (do { r \<leftarrow> becomeFollower (mTerm m) (mFrom m) r; handleSnapshot m r })
      else if mType m = myVoteRespType then
        (let (r, res) = poll (mFrom m) (\<not> mReject m) r in
         done_ok (case res of
             VoteWon \<Rightarrow>
               if rState r = StatePreCandidate then campaign CampaignElection r
               else do { r \<leftarrow> becomeLeader r; bcastAppend r }
           | VoteLost \<Rightarrow> becomeFollower (rTerm r) None_id r
           | VotePending \<Rightarrow> Some r))
      else Some (r, None))"

text \<open>The configuration change in a proposed entry; an undecodable one panics.\<close>

definition entryConfChange :: "entry \<Rightarrow> ConfChangeI option option" where
  "entryConfChange e =
     (if eType e = EntryConfChange then
        (case ConfChange_Unmarshal (dataOf e) zeroConfChange of
           Some (Inr c) \<Rightarrow> Some (Some (V1 c))
         | _ \<Rightarrow> None)
      else if eType e = EntryConfChangeV2 then
        (case ConfChangeV2_Unmarshal (dataOf e) zeroConfChangeV2 of
           Some (Inr c) \<Rightarrow> Some (Some (V2 c))
         | _ \<Rightarrow> None)
      else Some None)"

text \<open>The loop over the proposed entries: a refused change becomes an empty normal entry.\<close>

fun propLoop :: "nat \<Rightarrow> entry list \<Rightarrow> raft \<Rightarrow> (entry list \<times> raft) option" where
  "propLoop i [] r = Some ([], r)"
| "propLoop i (e # es) r =
     do {
       occ \<leftarrow> entryConfChange e;
       (e, r) \<leftarrow> (case occ of
           None \<Rightarrow> Some (e, r)
         | Some cc \<Rightarrow>
             let alreadyPending = rPendingConfIndex r > rlApplied (rLog r);
                 alreadyJoint = fcard (ids_of (snd (Voters (trkConfig (rPrs r))))) > 0;
                 wantsLeaveJoint = length (v2Changes (AsV2 cc)) = 0;
                 refused = (alreadyPending \<or> (alreadyJoint \<and> \<not> wantsLeaveJoint)
                   \<or> (\<not> alreadyJoint \<and> wantsLeaveJoint))
             in if refused then Some (zeroEntry\<lparr>eType := EntryNormal\<rparr>, r)
                else do {
                  li \<leftarrow> lastIndex (rLog r);
                  Some (e, r\<lparr>rPendingConfIndex := li + word_of_nat i + 1\<rparr>)
                });
       (es, r) \<leftarrow> propLoop (i + 1) es r;
       Some (e # es, r)
     }"

definition leaderProp :: "Message \<Rightarrow> raft \<Rightarrow> stepResult" where
  "leaderProp m r =
     do {
       panic_if (length (mEntries m) = 0);
       if get_pr (rId r) r = None then Some (r, Some ErrProposalDropped)
       else if rLeadTransferee r \<noteq> None_id then Some (r, Some ErrProposalDropped)
       else do {
         (es, r) \<leftarrow> propLoop 0 (mEntries m) r;
         (r, ok) \<leftarrow> appendEntry es r;
         if \<not> ok then Some (r, Some ErrProposalDropped)
         else done_ok (bcastAppend r)
       }
     }"

definition leaderCheckQuorum :: "raft \<Rightarrow> raft option" where
  "leaderCheckQuorum r =
     do {
       let r = (case get_pr (rId r) r of
                  None \<Rightarrow> r
                | Some pr \<Rightarrow> put_pr (rId r) (pr\<lparr>prRecentActive := True\<rparr>) r);
       r \<leftarrow> (if \<not> QuorumActive (rPrs r) then becomeFollower (rTerm r) None_id r else Some r);
       Some (r\<lparr>rPrs := Visit_update (\<lambda>i pr. if i \<noteq> rId r then pr\<lparr>prRecentActive := False\<rparr> else pr)
         (rPrs r)\<rparr>)
     }"

text \<open>The answer to a read request at index \<open>ri\<close>: to the local application or to the member
  that forwarded it.\<close>

definition answerRead :: "Message \<Rightarrow> u64 \<Rightarrow> raft \<Rightarrow> raft option" where
  "answerRead req ri r =
     (if mFrom req = None_id \<or> mFrom req = rId r then
        do {
          e \<leftarrow> idx (mEntries req) 0;
          Some (r\<lparr>rReadStates := rReadStates r @ [\<lparr>rsIndex = ri, rsRequestCtx = eData e\<rparr>]\<rparr>)
        }
      else send (zeroMessage\<lparr>mTo := mFrom req, mType := MsgReadIndexResp, mIndex := ri,
                   mEntries := mEntries req\<rparr>) r)"

definition leaderReadIndex :: "Message \<Rightarrow> raft \<Rightarrow> raft option" where
  "leaderReadIndex m r =
     (if \<not> IsSingleton (rPrs r) then
        do {
          t \<leftarrow> raftLog_term (rLog r) (rlCommitted (rLog r));
          zt \<leftarrow> zeroTermOnErrCompacted t;
          if zt \<noteq> rTerm r then Some r
          else (case roOption (rReadOnly r) of
              ReadOnlySafe \<Rightarrow>
                do {
                  ro \<leftarrow> addRequest (rlCommitted (rLog r)) m (rReadOnly r);
                  e \<leftarrow> idx (mEntries m) 0;
                  let (ro, _) = recvAck (rId r) (dataOf e) ro;
                  bcastHeartbeatWithCtx (dataOf e) (r\<lparr>rReadOnly := ro\<rparr>)
                }
            | ReadOnlyLeaseBased \<Rightarrow> answerRead m (rlCommitted (rLog r)) r)
        }
      else answerRead m (rlCommitted (rLog r)) r)"

definition leaderAppResp :: "Message \<Rightarrow> Progress \<Rightarrow> raft \<Rightarrow> raft option" where
  "leaderAppResp m pr r =
     (let from = mFrom m;
          pr = pr\<lparr>prRecentActive := True\<rparr>
      in if mReject m then
           (case MaybeDecrTo (mIndex m) (mRejectHint m) pr of
              (pr, decreased) \<Rightarrow>
                if decreased then
                  let pr = (if prState pr = StateReplicate then BecomeProbe pr else pr)
                  in sendAppend from (put_pr from pr r)
                else Some (put_pr from pr r))
         else
           let oldPaused = IsPaused pr in
           case MaybeUpdate (mIndex m) pr of
             (pr, updated) \<Rightarrow>
               if \<not> updated then Some (put_pr from pr r)
               else do {
                 pr \<leftarrow> (if prState pr = StateProbe then Some (BecomeReplicate pr)
                   else if prState pr = StateSnapshot \<and> prMatch pr \<ge> prPendingSnapshot pr then
                     Some (BecomeReplicate (BecomeProbe pr))
                   else if prState pr = StateReplicate then
                     do { ins \<leftarrow> Inflights_FreeLE (prInflights pr) (mIndex m); Some (pr\<lparr>prInflights := ins\<rparr>) }
                   else Some pr);
                 (r, committed) \<leftarrow> maybeCommit (put_pr from pr r);
                 r \<leftarrow> (if committed then bcastAppend r
                       else if oldPaused then sendAppend from r
                       else Some r);
                 r \<leftarrow> sendLoop from r;
                 if from = rLeadTransferee r then
                   do {
                     pr \<leftarrow> get_pr from r;
                     li \<leftarrow> lastIndex (rLog r);
                     if prMatch pr = li then sendTimeoutNow from r else Some r
                   }
                 else Some r
               })"

definition leaderHeartbeatResp :: "Message \<Rightarrow> Progress \<Rightarrow> raft \<Rightarrow> raft option" where
  "leaderHeartbeatResp m pr r =
     do {
       let from = mFrom m;
       let pr = pr\<lparr>prRecentActive := True, prProbeSent := False\<rparr>;
       pr \<leftarrow> (if prState pr = StateReplicate \<and> Inflights_Full (prInflights pr) then
                do { ins \<leftarrow> Inflights_FreeFirstOne (prInflights pr); Some (pr\<lparr>prInflights := ins\<rparr>) }
              else Some pr);
       let r = put_pr from pr r;
       li \<leftarrow> lastIndex (rLog r);
       r \<leftarrow> (if prMatch pr < li then sendAppend from r else Some r);
       if roOption (rReadOnly r) \<noteq> ReadOnlySafe \<or> length (mContext m) = 0 then Some r
       else do {
         let (ro, acks) = recvAck from (mContext m) (rReadOnly r);
         let r = r\<lparr>rReadOnly := ro\<rparr>;
         if Joint_VoteResult (Voters (trkConfig (rPrs r))) acks \<noteq> VoteWon then Some r
         else do {
           (ro, rss) \<leftarrow> readOnly_advance m (rReadOnly r);
           foldM (\<lambda>rs s. answerRead (riReq rs) (riIndex rs) s) rss (r\<lparr>rReadOnly := ro\<rparr>)
         }
       }
     }"

definition leaderSnapStatus :: "Message \<Rightarrow> Progress \<Rightarrow> raft \<Rightarrow> raft" where
  "leaderSnapStatus m pr r =
     (if prState pr \<noteq> StateSnapshot then r
      else
        let pr = (if \<not> mReject m then BecomeProbe pr else BecomeProbe (pr\<lparr>prPendingSnapshot := 0\<rparr>))
        in put_pr (mFrom m) (pr\<lparr>prProbeSent := True\<rparr>) r)"

definition leaderTransfer :: "Message \<Rightarrow> Progress \<Rightarrow> raft \<Rightarrow> raft option" where
  "leaderTransfer m pr r =
     (if prIsLearner pr then Some r
      else
        let leadTransferee = mFrom m; lastLeadTransferee = rLeadTransferee r in
        if lastLeadTransferee \<noteq> None_id \<and> lastLeadTransferee = leadTransferee then Some r
        else
          let r = (if lastLeadTransferee \<noteq> None_id then abortLeaderTransfer r else r) in
          if leadTransferee = rId r then Some r
          else do {
            let r = r\<lparr>rElectionElapsed := 0, rLeadTransferee := leadTransferee\<rparr>;
            li \<leftarrow> lastIndex (rLog r);
            if prMatch pr = li then sendTimeoutNow leadTransferee r
            else sendAppend leadTransferee r
          })"

definition stepLeader :: "Message \<Rightarrow> raft \<Rightarrow> stepResult" where
  "stepLeader m r =
     (if mType m = MsgBeat then done_ok (bcastHeartbeat r)
      else if mType m = MsgCheckQuorum then done_ok (leaderCheckQuorum r)
      else if mType m = MsgProp then leaderProp m r
      else if mType m = MsgReadIndex then done_ok (leaderReadIndex m r)
      else case get_pr (mFrom m) r of
        None \<Rightarrow> Some (r, None)
      | Some pr \<Rightarrow>
          (case mType m of
             MsgAppResp \<Rightarrow> done_ok (leaderAppResp m pr r)
           | MsgHeartbeatResp \<Rightarrow> done_ok (leaderHeartbeatResp m pr r)
           | MsgSnapStatus \<Rightarrow> Some (leaderSnapStatus m pr r, None)
           | MsgUnreachable \<Rightarrow>
               Some (if prState pr = StateReplicate then put_pr (mFrom m) (BecomeProbe pr) r else r, None)
           | MsgTransferLeader \<Rightarrow> done_ok (leaderTransfer m pr r)
           | _ \<Rightarrow> Some (r, None)))"

section \<open>Step and tick\<close>

definition numOfPendingConf :: "entry list \<Rightarrow> nat" where
  "numOfPendingConf ents = length (filter (\<lambda>e. eType e = EntryConfChange) ents)"

definition stepHup :: "raft \<Rightarrow> raft option" where
  "stepHup r =
     (if rState r \<noteq> StateLeader then
        (if \<not> promotable r then Some r
         else do {
           ents \<leftarrow> must (raftLog_slice (rLog r) (rlApplied (rLog r) + 1) (rlCommitted (rLog r) + 1) noLimit);
           let n = numOfPendingConf ents;
           if n \<noteq> 0 \<and> rlCommitted (rLog r) > rlApplied (rLog r) then Some r
           else if rPreVote r then campaign CampaignPreElection r
           else campaign CampaignElection r
         })
      else Some r)"

definition stepVote :: "Message \<Rightarrow> raft \<Rightarrow> raft option" where
  "stepVote m r =
     do {
       let canVote = (rVote r = mFrom m
         \<or> (rVote r = None_id \<and> rLead r = None_id)
         \<or> (mType m = MsgPreVote \<and> mTerm m > rTerm r));
       upToDate \<leftarrow> (if canVote then isUpToDate (rLog r) (mIndex m) (mLogTerm m) else Some False);
       _ \<leftarrow> lastTerm (rLog r);
       respType \<leftarrow> voteRespMsgType (mType m);
       if upToDate then
         do {
           r \<leftarrow> send (zeroMessage\<lparr>mTo := mFrom m, mTerm := mTerm m, mType := respType\<rparr>) r;
           Some (if mType m = MsgVote then r\<lparr>rElectionElapsed := 0, rVote := mFrom m\<rparr> else r)
         }
       else send (zeroMessage\<lparr>mTo := mFrom m, mTerm := rTerm r, mType := respType, mReject := True\<rparr>) r
     }"

text \<open>The term checks of Step: the state afterwards, or nothing left to do.\<close>

datatype termCheck = Go raft | Return raft

definition inLease :: "raft \<Rightarrow> bool" where
  "inLease r \<longleftrightarrow> rCheckQuorum r \<and> rLead r \<noteq> None_id \<and> rElectionElapsed r < rElectionTimeout r"

definition checkTerm :: "Message \<Rightarrow> raft \<Rightarrow> termCheck option" where
  "checkTerm m r =
     (if mTerm m = 0 then Some (Go r)
      else if mTerm m > rTerm r then
        (if (mType m = MsgVote \<or> mType m = MsgPreVote)
             \<and> mContext m \<noteq> campaignTransfer_bytes \<and> inLease r then
           do { _ \<leftarrow> lastTerm (rLog r); Some (Return r) }
         else if mType m = MsgPreVote then Some (Go r)
         else if mType m = MsgPreVoteResp \<and> \<not> mReject m then Some (Go r)
         else if mType m = MsgApp \<or> mType m = MsgHeartbeat \<or> mType m = MsgSnap then
           map_option Go (becomeFollower (mTerm m) (mFrom m) r)
         else map_option Go (becomeFollower (mTerm m) None_id r))
      else if mTerm m < rTerm r then
        (if (rCheckQuorum r \<or> rPreVote r) \<and> (mType m = MsgHeartbeat \<or> mType m = MsgApp) then
           map_option Return (send (zeroMessage\<lparr>mTo := mFrom m, mType := MsgAppResp\<rparr>) r)
         else if mType m = MsgPreVote then
           do {
             _ \<leftarrow> lastTerm (rLog r);
             map_option Return (send (zeroMessage\<lparr>mTo := mFrom m, mTerm := rTerm r,
               mType := MsgPreVoteResp, mReject := True\<rparr>) r)
           }
         else Some (Return r))
      else Some (Go r))"

text \<open>\<open>r.step(r, m)\<close>: the call through the field; a nil function panics.\<close>

definition callStep :: "Message \<Rightarrow> raft \<Rightarrow> stepResult" where
  "callStep m r =
     (case rStep r of
        NoStep \<Rightarrow> None
      | StepFollower \<Rightarrow> stepFollower m r
      | StepCandidate \<Rightarrow> stepCandidate m r
      | StepLeader \<Rightarrow> stepLeader m r)"

definition Step :: "Message \<Rightarrow> raft \<Rightarrow> stepResult" where
  "Step m r =
     do {
       c \<leftarrow> checkTerm m r;
       case c of
         Return r \<Rightarrow> Some (r, None)
       | Go r \<Rightarrow>
           if mType m = MsgHup then done_ok (stepHup r)
           else if mType m = MsgVote \<or> mType m = MsgPreVote then done_ok (stepVote m r)
           else callStep m r
     }"

definition tickElection :: "raft \<Rightarrow> raft option" where
  "tickElection r =
     (let r = r\<lparr>rElectionElapsed := rElectionElapsed r + 1\<rparr> in
      if promotable r \<and> pastElectionTimeout r then
        do {
          let r = r\<lparr>rElectionElapsed := 0\<rparr>;
          (r, _) \<leftarrow> Step (zeroMessage\<lparr>mFrom := rId r, mType := MsgHup\<rparr>) r;
          Some r
        }
      else Some r)"

definition tickHeartbeat :: "raft \<Rightarrow> raft option" where
  "tickHeartbeat r =
     do {
       let r = r\<lparr>rHeartbeatElapsed := rHeartbeatElapsed r + 1, rElectionElapsed := rElectionElapsed r + 1\<rparr>;
       r \<leftarrow> (if rElectionElapsed r \<ge> rElectionTimeout r then
               do {
                 let r = r\<lparr>rElectionElapsed := 0\<rparr>;
                 r \<leftarrow> (if rCheckQuorum r then
                         do { (r, _) \<leftarrow> Step (zeroMessage\<lparr>mFrom := rId r, mType := MsgCheckQuorum\<rparr>) r; Some r }
                       else Some r);
                 Some (if rState r = StateLeader \<and> rLeadTransferee r \<noteq> None_id
                       then abortLeaderTransfer r else r)
               }
             else Some r);
       if rState r \<noteq> StateLeader then Some r
       else if rHeartbeatElapsed r \<ge> rHeartbeatTimeout r then
         do {
           let r = r\<lparr>rHeartbeatElapsed := 0\<rparr>;
           (r, _) \<leftarrow> Step (zeroMessage\<lparr>mFrom := rId r, mType := MsgBeat\<rparr>) r;
           Some r
         }
       else Some r
     }"

definition callTick :: "raft \<Rightarrow> raft option" where
  "callTick r =
     (case rTick r of
        NoTick \<Rightarrow> None
      | TickElection \<Rightarrow> tickElection r
      | TickHeartbeat \<Rightarrow> tickHeartbeat r)"

section \<open>Creation\<close>

text \<open>\<open>draws\<close> is the random source at the time of the call.\<close>

definition newRaft :: "(nat \<Rightarrow> nat) \<Rightarrow> RaftConfig \<Rightarrow> raft option" where
  "newRaft draws c =
     (case Config_validate c of
        Inl err \<Rightarrow> None
      | Inr c \<Rightarrow>
          do {
            storage \<leftarrow> cStorage c;
            raftlog \<leftarrow> newLogWithSize storage (cMaxCommittedSizePerReady c);
            let (hs, cs) = MS_InitialState storage;
            cs \<leftarrow> (if length (cPeers c) > 0 \<or> length (cLearners c) > 0 then
                     do {
                       panic_if (length (csVoters cs) > 0 \<or> length (csLearners cs) > 0);
                       Some (cs\<lparr>csVoters := cPeers c, csLearners := cLearners c\<rparr>)
                     }
                   else Some cs);
            let r = \<lparr>rId = cID c, rTerm = 0, rVote = 0, rReadStates = [], rLog = raftlog,
              rMaxMsgSize = cMaxSizePerMsg c, rMaxUncommittedSize = cMaxUncommittedEntriesSize c,
              rPrs = MakeProgressTracker (cMaxInflightMsgs c), rState = StateFollower,
              rIsLearner = False, rMsgs = [], rLead = None_id, rLeadTransferee = 0,
              rPendingConfIndex = 0, rUncommittedSize = 0,
              rReadOnly = newReadOnly (cReadOnlyOption c), rElectionElapsed = 0,
              rHeartbeatElapsed = 0, rCheckQuorum = cCheckQuorum c, rPreVote = cPreVote c,
              rHeartbeatTimeout = cHeartbeatTick c, rElectionTimeout = cElectionTick c,
              rRandomizedElectionTimeout = 0,
              rDisableProposalForwarding = cDisableProposalForwarding c,
              rTick = NoTick, rStep = NoStep, rDraws = draws\<rparr>;
            li \<leftarrow> lastIndex raftlog;
            res \<leftarrow> Restore \<lparr>chTracker = rPrs r, chLastIndex = li\<rparr> cs;
            case res of
              Inl err \<Rightarrow> None
            | Inr (cfg, prs) \<Rightarrow>
                do {
                  (r, cs') \<leftarrow> switchToConfig cfg prs r;
                  assertConfStatesEquivalent cs cs';
                  r \<leftarrow> (if \<not> IsEmptyHardState hs then loadState hs r else Some r);
                  r \<leftarrow> (if cApplied c > 0 then
                          do { l \<leftarrow> appliedTo (cApplied c) (rLog r); Some (r\<lparr>rLog := l\<rparr>) }
                        else Some r);
                  r \<leftarrow> becomeFollower (rTerm r) None_id r;
                  _ \<leftarrow> lastTerm (rLog r);
                  Some r
                }
          })"

end
