(* ===== verification/RawNode.thy ===== *)
theory RawNode
  imports Raft
begin

text \<open>
  raft/rawnode.go, raft/bootstrap.go, raft/status.go and the goroutine of raft/node.go: the
  application's view of the state machine. \<open>Ready\<close> is what the application must persist, send
  and apply; \<open>RawNode\<close> remembers the last soft and hard state it was given. The select loop of
  node.run is a step function on the loop's state, one event per case of the select; channels
  and contexts are not modelled beyond which cases are enabled.
\<close>

section \<open>Ready\<close>

record Ready =
  rdSoftState :: "SoftState option"
  rdHardState :: HardState
  rdReadStates :: "ReadState list"
  rdEntries :: "entry list"
  rdSnapshot :: Snapshot
  rdCommittedEntries :: "entry list"
  rdMessages :: "Message list"
  rdMustSync :: bool

definition zeroReady :: Ready where
  "zeroReady = \<lparr>rdSoftState = None, rdHardState = emptyState, rdReadStates = [], rdEntries = [],
     rdSnapshot = zeroSnapshot, rdCommittedEntries = [], rdMessages = [], rdMustSync = False\<rparr>"

definition MustSync :: "HardState \<Rightarrow> HardState \<Rightarrow> nat \<Rightarrow> bool" where
  "MustSync st prevst entsnum \<longleftrightarrow>
     entsnum \<noteq> 0 \<or> hsVote st \<noteq> hsVote prevst \<or> hsTerm st \<noteq> hsTerm prevst"

definition containsUpdates :: "Ready \<Rightarrow> bool" where
  "containsUpdates rd \<longleftrightarrow>
     rdSoftState rd \<noteq> None \<or> \<not> IsEmptyHardState (rdHardState rd) \<or> \<not> IsEmptySnap (rdSnapshot rd)
     \<or> length (rdEntries rd) > 0 \<or> length (rdCommittedEntries rd) > 0 \<or> length (rdMessages rd) > 0
     \<or> length (rdReadStates rd) \<noteq> 0"

definition appliedCursor :: "Ready \<Rightarrow> u64" where
  "appliedCursor rd =
     (if length (rdCommittedEntries rd) > 0 then eIndex (last (rdCommittedEntries rd))
      else if smIndex (sMetadata (rdSnapshot rd)) > 0 then smIndex (sMetadata (rdSnapshot rd))
      else 0)"

definition newReady :: "raft \<Rightarrow> SoftState \<Rightarrow> HardState \<Rightarrow> Ready option" where
  "newReady r prevSoftSt prevHardSt =
     do {
       committed \<leftarrow> nextEnts (rLog r);
       let rd = zeroReady\<lparr>rdEntries := unstableEntries (rLog r), rdCommittedEntries := committed,
                          rdMessages := rMsgs r\<rparr>;
       let rd = (if \<not> SoftState_equal (softState r) prevSoftSt
                 then rd\<lparr>rdSoftState := Some (softState r)\<rparr> else rd);
       let rd = (if \<not> isHardStateEqual (hardState r) prevHardSt
                 then rd\<lparr>rdHardState := hardState r\<rparr> else rd);
       let rd = (case uSnapshot (rlUnstable (rLog r)) of
                   Some s \<Rightarrow> rd\<lparr>rdSnapshot := s\<rparr> | None \<Rightarrow> rd);
       let rd = (if length (rReadStates r) \<noteq> 0 then rd\<lparr>rdReadStates := rReadStates r\<rparr> else rd);
       Some (rd\<lparr>rdMustSync := MustSync (hardState r) prevHardSt (length (rdEntries rd))\<rparr>)
     }"

text \<open>raft.advance (raft.go): the application has persisted and applied a Ready.\<close>

definition raft_advance :: "Ready \<Rightarrow> raft \<Rightarrow> raft option" where
  "raft_advance rd r =
     do {
       let index = appliedCursor rd;
       r \<leftarrow> (if index > 0 then
               do {
                 l \<leftarrow> appliedTo index (rLog r);
                 let r = r\<lparr>rLog := l\<rparr>;
                 if AutoLeave (trkConfig (rPrs r)) \<and> index \<ge> rPendingConfIndex r \<and> rState r = StateLeader then
                   do {
                     ccdata \<leftarrow> ConfChangeV2_Marshal zeroConfChangeV2;
                     let ent = zeroEntry\<lparr>eType := EntryConfChangeV2, eData := Some ccdata\<rparr>;
                     (r, ok) \<leftarrow> appendEntry [ent] r;
                     if \<not> ok then do { li \<leftarrow> lastIndex (rLog r); Some (r\<lparr>rPendingConfIndex := li\<rparr>) }
                     else Some r
                   }
                 else Some r
               }
             else Some r);
       let r = reduceUncommittedSize (rdCommittedEntries rd) r;
       r \<leftarrow> (if length (rdEntries rd) > 0 then
               do {
                 let e = last (rdEntries rd);
                 l \<leftarrow> stableTo (eIndex e) (eTerm e) (rLog r);
                 Some (r\<lparr>rLog := l\<rparr>)
               }
             else Some r);
       Some (if \<not> IsEmptySnap (rdSnapshot rd)
             then r\<lparr>rLog := stableSnapTo (smIndex (sMetadata (rdSnapshot rd))) (rLog r)\<rparr> else r)
     }"

section \<open>RawNode\<close>

record RawNode =
  rnRaft :: raft
  rnPrevSoftSt :: SoftState
  rnPrevHardSt :: HardState

definition NewRawNode :: "(nat \<Rightarrow> nat) \<Rightarrow> RaftConfig \<Rightarrow> RawNode option" where
  "NewRawNode draws config =
     do {
       r \<leftarrow> newRaft draws config;
       Some \<lparr>rnRaft = r, rnPrevSoftSt = softState r, rnPrevHardSt = hardState r\<rparr>
     }"

definition on_raft :: "raft option \<Rightarrow> RawNode \<Rightarrow> RawNode option" where
  "on_raft x rn = map_option (\<lambda>r. rn\<lparr>rnRaft := r\<rparr>) x"

definition RawNode_Tick :: "RawNode \<Rightarrow> RawNode option" where
  "RawNode_Tick rn = on_raft (callTick (rnRaft rn)) rn"

definition TickQuiesced :: "RawNode \<Rightarrow> RawNode" where
  "TickQuiesced rn = rn\<lparr>rnRaft := (rnRaft rn)\<lparr>rElectionElapsed := rElectionElapsed (rnRaft rn) + 1\<rparr>\<rparr>"

definition step_raft :: "Message \<Rightarrow> RawNode \<Rightarrow> (RawNode \<times> RaftErr option) option" where
  "step_raft m rn = map_option (\<lambda>(r, e). (rn\<lparr>rnRaft := r\<rparr>, e)) (Step m (rnRaft rn))"

definition RawNode_Campaign :: "RawNode \<Rightarrow> (RawNode \<times> RaftErr option) option" where
  "RawNode_Campaign rn = step_raft (zeroMessage\<lparr>mType := MsgHup\<rparr>) rn"

definition RawNode_Propose :: "bytes option \<Rightarrow> RawNode \<Rightarrow> (RawNode \<times> RaftErr option) option" where
  "RawNode_Propose data rn =
     step_raft (zeroMessage\<lparr>mType := MsgProp, mFrom := rId (rnRaft rn),
       mEntries := [zeroEntry\<lparr>eData := data\<rparr>]\<rparr>) rn"

definition confChangeToMsg :: "ConfChangeI \<Rightarrow> Message option" where
  "confChangeToMsg c =
     do {
       (typ, data) \<leftarrow> MarshalConfChange c;
       Some (zeroMessage\<lparr>mType := MsgProp, mEntries := [zeroEntry\<lparr>eType := typ, eData := Some data\<rparr>]\<rparr>)
     }"

definition RawNode_ProposeConfChange :: "ConfChangeI \<Rightarrow> RawNode \<Rightarrow> (RawNode \<times> RaftErr option) option" where
  "RawNode_ProposeConfChange cc rn = do { m \<leftarrow> confChangeToMsg cc; step_raft m rn }"

definition RawNode_ApplyConfChange :: "ConfChangeI \<Rightarrow> RawNode \<Rightarrow> (RawNode \<times> ConfState) option" where
  "RawNode_ApplyConfChange cc rn =
     map_option (\<lambda>(r, cs). (rn\<lparr>rnRaft := r\<rparr>, cs)) (applyConfChange (AsV2 cc) (rnRaft rn))"

definition RawNode_Step :: "Message \<Rightarrow> RawNode \<Rightarrow> (RawNode \<times> RaftErr option) option" where
  "RawNode_Step m rn =
     (if IsLocalMsg (mType m) then Some (rn, Some ErrStepLocalMsg)
      else if get_pr (mFrom m) (rnRaft rn) \<noteq> None \<or> \<not> IsResponseMsg (mType m) then step_raft m rn
      else Some (rn, Some ErrStepPeerNotFound))"

definition readyWithoutAccept :: "RawNode \<Rightarrow> Ready option" where
  "readyWithoutAccept rn = newReady (rnRaft rn) (rnPrevSoftSt rn) (rnPrevHardSt rn)"

definition acceptReady :: "Ready \<Rightarrow> RawNode \<Rightarrow> RawNode" where
  "acceptReady rd rn =
     (let rn = (case rdSoftState rd of Some s \<Rightarrow> rn\<lparr>rnPrevSoftSt := s\<rparr> | None \<Rightarrow> rn);
          rn = (if length (rdReadStates rd) \<noteq> 0
                then rn\<lparr>rnRaft := (rnRaft rn)\<lparr>rReadStates := []\<rparr>\<rparr> else rn)
      in rn\<lparr>rnRaft := (rnRaft rn)\<lparr>rMsgs := []\<rparr>\<rparr>)"

definition RawNode_Ready :: "RawNode \<Rightarrow> (RawNode \<times> Ready) option" where
  "RawNode_Ready rn = do { rd \<leftarrow> readyWithoutAccept rn; Some (acceptReady rd rn, rd) }"

definition HasReady :: "RawNode \<Rightarrow> bool option" where
  "HasReady rn =
     (let r = rnRaft rn in
      if \<not> SoftState_equal (softState r) (rnPrevSoftSt rn) then Some True
      else if \<not> IsEmptyHardState (hardState r) \<and> \<not> isHardStateEqual (hardState r) (rnPrevHardSt rn)
      then Some True
      else if (case uSnapshot (rlUnstable (rLog r)) of Some s \<Rightarrow> \<not> IsEmptySnap s | None \<Rightarrow> False)
      then Some True
      else if length (rMsgs r) > 0 \<or> length (unstableEntries (rLog r)) > 0 then Some True
      else do {
        nxt \<leftarrow> hasNextEnts (rLog r);
        if nxt then Some True else Some (length (rReadStates r) \<noteq> 0)
      })"

definition RawNode_Advance :: "Ready \<Rightarrow> RawNode \<Rightarrow> RawNode option" where
  "RawNode_Advance rd rn =
     (let rn = (if \<not> IsEmptyHardState (rdHardState rd) then rn\<lparr>rnPrevHardSt := rdHardState rd\<rparr> else rn)
      in on_raft (raft_advance rd (rnRaft rn)) rn)"

datatype SnapshotStatus = SnapshotFinish | SnapshotFailure

definition ignore_err :: "(RawNode \<times> RaftErr option) option \<Rightarrow> RawNode option" where
  "ignore_err x = map_option fst x"

definition ReportUnreachable :: "u64 \<Rightarrow> RawNode \<Rightarrow> RawNode option" where
  "ReportUnreachable i rn = ignore_err (step_raft (zeroMessage\<lparr>mType := MsgUnreachable, mFrom := i\<rparr>) rn)"

definition ReportSnapshot :: "u64 \<Rightarrow> SnapshotStatus \<Rightarrow> RawNode \<Rightarrow> RawNode option" where
  "ReportSnapshot i status rn =
     (let rej = (status = SnapshotFailure)
      in ignore_err (step_raft (zeroMessage\<lparr>mType := MsgSnapStatus, mFrom := i, mReject := rej\<rparr>) rn))"

definition TransferLeader :: "u64 \<Rightarrow> RawNode \<Rightarrow> RawNode option" where
  "TransferLeader transferee rn =
     ignore_err (step_raft (zeroMessage\<lparr>mType := MsgTransferLeader, mFrom := transferee\<rparr>) rn)"

definition RawNode_ReadIndex :: "bytes option \<Rightarrow> RawNode \<Rightarrow> RawNode option" where
  "RawNode_ReadIndex rctx rn =
     ignore_err (step_raft (zeroMessage\<lparr>mType := MsgReadIndex, mEntries := [zeroEntry\<lparr>eData := rctx\<rparr>]\<rparr>) rn)"

text \<open>WithProgress calls its visitor with each id, its type and a copy of its progress whose Inflights is nil.\<close>

datatype ProgressType = ProgressTypePeer | ProgressTypeLearner

record ProgressCopy =
  pcMatch :: u64
  pcNext :: u64
  pcState :: ProgressState
  pcPendingSnapshot :: u64
  pcRecentActive :: bool
  pcProbeSent :: bool
  pcIsLearner :: bool

definition progress_copy :: "Progress \<Rightarrow> ProgressCopy" where
  "progress_copy pr = \<lparr>pcMatch = prMatch pr, pcNext = prNext pr, pcState = prState pr, pcPendingSnapshot = prPendingSnapshot pr,
     pcRecentActive = prRecentActive pr, pcProbeSent = prProbeSent pr, pcIsLearner = prIsLearner pr\<rparr>"

definition WithProgress :: "(u64 \<Rightarrow> ProgressType \<Rightarrow> ProgressCopy \<Rightarrow> 'a \<Rightarrow> 'a) \<Rightarrow> RawNode \<Rightarrow> 'a \<Rightarrow> 'a" where
  "WithProgress visitor rn a =
     fold (\<lambda>i a. case get_pr i (rnRaft rn) of
         None \<Rightarrow> a
       | Some pr \<Rightarrow> visitor i (if prIsLearner pr then ProgressTypeLearner else ProgressTypePeer) (progress_copy pr) a)
       (visit_ids (rPrs (rnRaft rn))) a"

section \<open>Bootstrap\<close>

record Peer =
  peerID :: u64
  peerContext :: "bytes option"

datatype BootstrapErr = NoPeers | NonemptyStorage | StorageFailed StorageErr

fun bootstrapEntries :: "u64 \<Rightarrow> Peer list \<Rightarrow> entry list option" where
  "bootstrapEntries i [] = Some []"
| "bootstrapEntries i (p # ps) =
     do {
       data \<leftarrow> ConfChange_Marshal (zeroConfChange\<lparr>ccType := ConfChangeAddNode,
         ccNodeID := peerID p, ccContext := peerContext p\<rparr>);
       es \<leftarrow> bootstrapEntries (i + 1) ps;
       Some (zeroEntry\<lparr>eType := EntryConfChange, eTerm := 1, eIndex := i + 1, eData := Some data\<rparr> # es)
     }"

definition Bootstrap :: "Peer list \<Rightarrow> RawNode \<Rightarrow> (RawNode \<times> BootstrapErr option) option" where
  "Bootstrap peers rn =
     (if length peers = 0 then Some (rn, Some NoPeers)
      else do {
        li \<leftarrow> MS_LastIndex (rlStorage (rLog (rnRaft rn)));
        case li of
          Inl err \<Rightarrow> Some (rn, Some (StorageFailed err))
        | Inr lasti \<Rightarrow>
            if lasti \<noteq> 0 then Some (rn, Some NonemptyStorage)
            else do {
              let rn = rn\<lparr>rnPrevHardSt := emptyState\<rparr>;
              r \<leftarrow> becomeFollower 1 None_id (rnRaft rn);
              ents \<leftarrow> bootstrapEntries 0 peers;
              (l, _) \<leftarrow> raftLog_append ents (rLog r);
              let r = r\<lparr>rLog := l\<lparr>rlCommitted := word_of_nat (length ents)\<rparr>\<rparr>;
              r \<leftarrow> foldM (\<lambda>p s. do {
                  (s, _) \<leftarrow> applyConfChange (ConfChange_AsV2
                    (zeroConfChange\<lparr>ccNodeID := peerID p, ccType := ConfChangeAddNode\<rparr>)) s;
                  Some s
                }) peers r;
              Some (rn\<lparr>rnRaft := r\<rparr>, None)
            }
      })"

section \<open>Status\<close>

record BasicStatus =
  bsID :: u64
  bsHardState :: HardState
  bsSoftState :: SoftState
  bsApplied :: u64
  bsLeadTransferee :: u64

record Status =
  stBasic :: BasicStatus
  stConfig :: Config
  stProgress :: "ProgressMap option"

definition getProgressCopy :: "raft \<Rightarrow> ProgressMap" where
  "getProgressCopy r =
     fold (\<lambda>i m. case get_pr i r of
         None \<Rightarrow> m
       | Some pr \<Rightarrow> fmupd i (pr\<lparr>prInflights := Inflights_Clone (prInflights pr)\<rparr>) m)
       (visit_ids (rPrs r)) fmempty"

definition getBasicStatus :: "raft \<Rightarrow> BasicStatus" where
  "getBasicStatus r = \<lparr>bsID = rId r, bsHardState = hardState r, bsSoftState = softState r,
     bsApplied = rlApplied (rLog r), bsLeadTransferee = rLeadTransferee r\<rparr>"

definition getStatus :: "raft \<Rightarrow> Status" where
  "getStatus r = \<lparr>stBasic = getBasicStatus r, stConfig = Config_Clone (trkConfig (rPrs r)),
     stProgress = (if rState r = StateLeader then Some (getProgressCopy r) else None)\<rparr>"

section \<open>The goroutine of a node\<close>

text \<open>
  The variables of node.run: propc and readyc are nil or the node's channels (a boolean),
  advancec is set between handing out a Ready and Advance.
\<close>

record nodeState =
  nRn :: RawNode
  nPropc :: bool
  nReadyc :: bool
  nAdvancec :: bool
  nRd :: Ready
  nLead :: u64

datatype nodeEvent =
    EvProp Message
  | EvRecv Message
  | EvConf ConfChangeV2
  | EvTick
  | EvReady
  | EvAdvance
  | EvStatus

definition initNode :: "RawNode \<Rightarrow> nodeState" where
  "initNode rn = \<lparr>nRn = rn, nPropc = False, nReadyc = False, nAdvancec = False,
     nRd = zeroReady, nLead = None_id\<rparr>"

text \<open>The part of the loop body before the select.\<close>

definition runTop :: "nodeState \<Rightarrow> nodeState option" where
  "runTop n =
     do {
       n \<leftarrow> (if nAdvancec n then Some (n\<lparr>nReadyc := False\<rparr>)
             else do {
               h \<leftarrow> HasReady (nRn n);
               if h then do { rd \<leftarrow> readyWithoutAccept (nRn n); Some (n\<lparr>nRd := rd, nReadyc := True\<rparr>) }
               else Some n
             });
       let r = rnRaft (nRn n);
       Some (if nLead n \<noteq> rLead r then n\<lparr>nPropc := hasLeader r, nLead := rLead r\<rparr> else n)
     }"

text \<open>Which cases of the select can fire.\<close>

definition enabled :: "nodeEvent \<Rightarrow> nodeState \<Rightarrow> bool" where
  "enabled ev n =
     (case ev of EvProp _ \<Rightarrow> nPropc n | EvReady \<Rightarrow> nReadyc n | EvAdvance \<Rightarrow> nAdvancec n | _ \<Rightarrow> True)"

definition runSelect :: "nodeEvent \<Rightarrow> nodeState \<Rightarrow> nodeState option" where
  "runSelect ev n =
     (let rn = nRn n; r = rnRaft rn in
      case ev of
        EvProp m \<Rightarrow> do { (rn, _) \<leftarrow> step_raft (m\<lparr>mFrom := rId r\<rparr>) rn; Some (n\<lparr>nRn := rn\<rparr>) }
      | EvRecv m \<Rightarrow>
          if get_pr (mFrom m) r \<noteq> None \<or> \<not> IsResponseMsg (mType m)
          then do { (rn, _) \<leftarrow> step_raft m rn; Some (n\<lparr>nRn := rn\<rparr>) }
          else Some n
      | EvConf cc \<Rightarrow>
          do {
            let okBefore = get_pr (rId r) r \<noteq> None;
            (r, cs) \<leftarrow> applyConfChange cc r;
            let okAfter = get_pr (rId r) r \<noteq> None;
            let found = (rId r \<in> set (csVoters cs @ csVotersOutgoing cs));
            Some (n\<lparr>nRn := rn\<lparr>rnRaft := r\<rparr>,
                    nPropc := (if okBefore \<and> \<not> okAfter \<and> \<not> found then False else nPropc n)\<rparr>)
          }
      | EvTick \<Rightarrow> do { rn \<leftarrow> RawNode_Tick rn; Some (n\<lparr>nRn := rn\<rparr>) }
      | EvReady \<Rightarrow> Some (n\<lparr>nRn := acceptReady (nRd n) rn, nAdvancec := True\<rparr>)
      | EvAdvance \<Rightarrow>
          do { rn \<leftarrow> RawNode_Advance (nRd n) rn; Some (n\<lparr>nRn := rn, nRd := zeroReady, nAdvancec := False\<rparr>) }
      | EvStatus \<Rightarrow> Some n)"

text \<open>One turn of the loop: an event whose case cannot fire is not taken.\<close>

definition runStep :: "nodeEvent \<Rightarrow> nodeState \<Rightarrow> nodeState option" where
  "runStep ev n = do { n \<leftarrow> runTop n; if enabled ev n then runSelect ev n else Some n }"

end
