(* ===== verification/LogView.thy ===== *)
theory LogView
  imports RaftLog
begin

text \<open>
  The raft log as an abstract log: a base index, the term of the base and a list of entries.
  MemoryStorage and raftLog both show such a log to their readers; the contract they share is
  the locale \<open>indexed_log\<close>, interpreted for each. Under the structural invariant \<open>log_ok\<close> every
  read of the log returns what the abstract log says and none of the log's panics happens;
  every operation on the log is an operation on the abstract one.
\<close>

section \<open>Contiguous entries\<close>

definition contig :: "nat \<Rightarrow> entry list \<Rightarrow> bool" where
  "contig n es \<longleftrightarrow> (\<forall>k < length es. unat (eIndex (es ! k)) = n + k)"

lemma contig_Nil [simp]: "contig n []"
  by (simp add: contig_def)

lemma contig_Cons: "contig n (e # es) \<longleftrightarrow> unat (eIndex e) = n \<and> contig (Suc n) es"
  by (auto simp: contig_def nth_Cons' less_Suc_eq_0_disj)

lemma contig_append: "contig n (xs @ ys) \<longleftrightarrow> contig n xs \<and> contig (n + length xs) ys"
  by (induction xs arbitrary: n) (simp_all add: contig_Cons)

lemma contig_take: "contig n es \<Longrightarrow> contig n (take k es)"
  by (auto simp: contig_def)

lemma contig_drop: "contig n es \<Longrightarrow> k \<le> length es \<Longrightarrow> contig (n + k) (drop k es)"
  by (auto simp: contig_def)

lemma contig_nth: "contig n es \<Longrightarrow> k < length es \<Longrightarrow> unat (eIndex (es ! k)) = n + k"
  by (simp add: contig_def)

lemma contig_hd: "contig n es \<Longrightarrow> es \<noteq> [] \<Longrightarrow> unat (eIndex (hd es)) = n"
  by (cases es) (simp_all add: contig_Cons)

lemma contig_last: "contig n es \<Longrightarrow> es \<noteq> [] \<Longrightarrow> unat (eIndex (last es)) = n + length es - 1"
  by (cases es rule: rev_cases) (simp_all add: contig_append contig_Cons)

section \<open>limitSize\<close>

lemma limitLen_le: "limitLen m n es \<le> length es"
  by (induction es arbitrary: n) (auto simp: Let_def)

lemma limitLen_append:
  "limitLen m n xs < length xs \<Longrightarrow> limitLen m n (xs @ ys) = limitLen m n xs"
  by (induction xs arbitrary: n) (auto simp: Let_def)

lemma limitSize_short:
  assumes "length (limitSize xs m) < length xs"
  shows "limitSize (xs @ ys) m = limitSize xs m"
proof (cases xs)
  case (Cons e es)
  with assms limitLen_le [of m "Entry_Size e" es]
  have "limitLen m (Entry_Size e) es < length es"
    by (simp add: limitSize_def min_def split: if_splits)
  with Cons limitLen_append [of m "Entry_Size e" es ys] show ?thesis
    by (simp add: limitSize_def)
qed (use assms in simp)

lemma limitSize_full: "\<not> length (limitSize xs m) < length xs \<Longrightarrow> limitSize xs m = xs"
  using limitSize_take [of xs m] by (metis length_take min_def not_less take_all)

lemma length_limitSize: "length (limitSize xs m) \<le> length xs"
  using limitSize_take [of xs m] by auto

text \<open>Reading a range in two pieces, as the log does, and limiting each: the same as
  limiting the range.\<close>

lemma limitSize_two_phase:
  "(if length (limitSize xs m) < length xs then limitSize xs m
    else limitSize (limitSize xs m @ ys) m) = limitSize (xs @ ys) m"
  by (simp add: limitSize_short limitSize_full)

section \<open>The abstract log\<close>

text \<open>The index and the term of the entry before the first one, and the entries.\<close>

record alog =
  alBase :: nat
  alBaseTerm :: u64
  alEnts :: "entry list"

definition alLast :: "alog \<Rightarrow> nat" where
  "alLast a = alBase a + length (alEnts a)"

text \<open>The term of an index; 0 outside the log, as the code has it.\<close>

definition alTerm :: "alog \<Rightarrow> nat \<Rightarrow> u64" where
  "alTerm a i =
     (if i = alBase a then alBaseTerm a
      else if alBase a < i \<and> i \<le> alLast a then eTerm (alEnts a ! (i - alBase a - 1))
      else 0)"

definition alSlice :: "alog \<Rightarrow> nat \<Rightarrow> nat \<Rightarrow> entry list" where
  "alSlice a lo hi = take (hi - lo) (drop (lo - alBase a - 1) (alEnts a))"

text \<open>Entries from index \<open>n\<close> on replace everything from there.\<close>

definition alAppend :: "nat \<Rightarrow> entry list \<Rightarrow> alog \<Rightarrow> alog" where
  "alAppend n es a = a\<lparr>alEnts := take (n - alBase a - 1) (alEnts a) @ es\<rparr>"

definition alog_wf :: "alog \<Rightarrow> bool" where
  "alog_wf a \<longleftrightarrow> contig (alBase a + 1) (alEnts a) \<and> alLast a + 2 < 18446744073709551616"

lemma length_alSlice:
  "alBase a < lo \<Longrightarrow> lo \<le> hi \<Longrightarrow> hi \<le> alLast a + 1 \<Longrightarrow> length (alSlice a lo hi) = hi - lo"
  by (auto simp: alSlice_def alLast_def)

lemma contig_alSlice:
  assumes "alog_wf a" "alBase a < lo" "lo \<le> alLast a + 1"
  shows "contig lo (alSlice a lo hi)"
proof -
  have "contig (alBase a + 1 + (lo - alBase a - 1)) (drop (lo - alBase a - 1) (alEnts a))"
    using assms by (intro contig_drop) (auto simp: alog_wf_def alLast_def)
  moreover have "alBase a + 1 + (lo - alBase a - 1) = lo" using assms(2) by simp
  ultimately show ?thesis by (simp add: alSlice_def contig_take)
qed

lemma take_alSlice: "n \<le> hi - lo \<Longrightarrow> take n (alSlice a lo hi) = alSlice a lo (lo + n)"
  by (simp add: alSlice_def min_def)

section \<open>The contract of an indexed log\<close>

text \<open>
  What a reader of a log relies on, in the Storage interface and again in raftLog: the first
  and the last index, the term of an index, and the entries of a range up to a size limit.
\<close>

locale indexed_log =
  fixes wf :: "'l \<Rightarrow> bool"
    and view :: "'l \<Rightarrow> alog"
    and first :: "'l \<Rightarrow> u64 option"
    and last_ix :: "'l \<Rightarrow> u64 option"
    and term_of :: "'l \<Rightarrow> u64 \<Rightarrow> (StorageErr + u64) option"
    and slice :: "'l \<Rightarrow> u64 \<Rightarrow> u64 \<Rightarrow> u64 \<Rightarrow> (StorageErr + entry list) option"
  assumes view_wf: "wf l \<Longrightarrow> alog_wf (view l)"
    and first_eq: "wf l \<Longrightarrow> \<exists>i. first l = Some i \<and> unat i = alBase (view l) + 1"
    and last_eq: "wf l \<Longrightarrow> \<exists>i. last_ix l = Some i \<and> unat i = alLast (view l)"
    and term_eq: "wf l \<Longrightarrow> alBase (view l) \<le> unat i \<Longrightarrow> unat i \<le> alLast (view l)
      \<Longrightarrow> term_of l i = Some (Inr (alTerm (view l) (unat i)))"
    and slice_eq: "wf l \<Longrightarrow> alBase (view l) < unat lo \<Longrightarrow> unat lo < unat hi \<Longrightarrow> unat hi \<le> alLast (view l) + 1
      \<Longrightarrow> slice l lo hi m = Some (Inr (limitSize (alSlice (view l) (unat lo) (unat hi)) m))"
    and slice_compacted: "wf l \<Longrightarrow> unat lo \<le> alBase (view l) \<Longrightarrow> unat lo \<le> unat hi
      \<Longrightarrow> unat hi \<le> alLast (view l) + 1 \<Longrightarrow> slice l lo hi m = Some (Inl ErrCompacted)"
begin

text \<open>A page of the log is a non-empty contiguous run from its start.\<close>

lemma slice_page:
  assumes "wf l" "alBase (view l) < unat lo" "unat lo < unat hi" "unat hi \<le> alLast (view l) + 1"
  shows "\<exists>es. slice l lo hi m = Some (Inr es) \<and> es \<noteq> [] \<and> contig (unat lo) es
    \<and> length es \<le> unat hi - unat lo
    \<and> es = alSlice (view l) (unat lo) (unat lo + length es)"
proof -
  let ?s = "alSlice (view l) (unat lo) (unat hi)"
  have len: "length ?s = unat hi - unat lo" using assms by (intro length_alSlice) auto
  obtain n where n: "limitSize ?s m = take n ?s" using limitSize_take by blast
  then have n': "limitSize ?s m = take (length (limitSize ?s m)) ?s"
    by (metis length_take min_def take_all not_less nat_le_linear)
  have ne: "limitSize ?s m \<noteq> []" using len assms by auto
  have "contig (unat lo) (limitSize ?s m)"
    unfolding n using view_wf [OF assms(1)] assms(2-4) by (intro contig_take contig_alSlice) auto
  moreover have "limitSize ?s m = alSlice (view l) (unat lo) (unat lo + length (limitSize ?s m))"
    using n' take_alSlice length_limitSize [of ?s m] len by metis
  ultimately show ?thesis
    using ne slice_eq [OF assms] length_limitSize [of ?s m] len by auto
qed

end

section \<open>MemoryStorage\<close>

lemma unat_plus_len:
  assumes "unat (a :: u64) + n < 18446744073709551616"
  shows "unat (a + word_of_nat n) = unat a + n"
proof -
  have "unat (word_of_nat n :: u64) = n" using assms by (intro unat_of_nat_small) simp
  with assms unat_plus_small [of a "word_of_nat n"] show ?thesis by simp
qed

lemma unat_plus_len_minus_one:
  assumes "unat (a :: u64) + n < 18446744073709551616" "0 < n"
  shows "unat (a + word_of_nat n - 1) = unat a + n - 1"
proof -
  have "1 \<le> a + word_of_nat n"
    using unat_plus_len [OF assms(1)] assms(2) by (simp add: word_le_nat_alt)
  with unat_plus_len [OF assms(1)] show ?thesis by (simp add: unat_minus_le)
qed

definition ms_wf :: "MemoryStorage \<Rightarrow> bool" where
  "ms_wf ms \<longleftrightarrow> msEnts ms \<noteq> [] \<and> contig (unat (eIndex (hd (msEnts ms)))) (msEnts ms)
     \<and> unat (eIndex (hd (msEnts ms))) + length (msEnts ms) + 1 < 18446744073709551616"

definition ms_view :: "MemoryStorage \<Rightarrow> alog" where
  "ms_view ms = \<lparr>alBase = unat (eIndex (hd (msEnts ms))), alBaseTerm = eTerm (hd (msEnts ms)),
     alEnts = tl (msEnts ms)\<rparr>"

lemma ms_offset_eq: "ms_wf ms \<Longrightarrow> ms_offset ms = Some (eIndex (hd (msEnts ms)))"
  by (simp add: ms_wf_def ms_offset_def idx_def hd_conv_nth)

lemma alLast_ms_view: "ms_wf ms \<Longrightarrow> alLast (ms_view ms) = unat (eIndex (hd (msEnts ms))) + length (msEnts ms) - 1"
  by (cases "msEnts ms") (simp_all add: ms_wf_def alLast_def ms_view_def)

lemma ms_lastIndex_eq: "ms_wf ms \<Longrightarrow> \<exists>i. ms_lastIndex ms = Some i \<and> unat i = alLast (ms_view ms)"
  using unat_plus_len_minus_one [of "eIndex (hd (msEnts ms))" "length (msEnts ms)"]
  by (auto simp: ms_lastIndex_def ms_offset_eq alLast_ms_view ms_wf_def)

lemma ms_firstIndex_eq: "ms_wf ms \<Longrightarrow> \<exists>i. ms_firstIndex ms = Some i \<and> unat i = alBase (ms_view ms) + 1"
  using unat_plus_len [of "eIndex (hd (msEnts ms))" 1]
  by (auto simp: ms_firstIndex_def ms_offset_eq ms_view_def ms_wf_def)

lemma sint_le_uint: "sint (w :: u64) \<le> uint w"
proof -
  have "- 9223372036854775808 \<le> uint w" using uint_ge_0 [of w] by linarith
  then show ?thesis by (simp add: sint_uint signed_take_bit_int_less_eq_self_iff)
qed

lemma ms_Term_eq:
  assumes wf: "ms_wf ms" and i: "alBase (ms_view ms) \<le> unat i" "unat i \<le> alLast (ms_view ms)"
  shows "MS_Term ms i = Some (Inr (alTerm (ms_view ms) (unat i)))"
proof -
  let ?off = "eIndex (hd (msEnts ms))"
  have le: "?off \<le> i" using i(1) by (simp add: ms_view_def word_le_nat_alt)
  have d: "unat (i - ?off) = unat i - unat ?off" using le by (rule unat_minus_le)
  have lt: "unat (i - ?off) < length (msEnts ms)"
    using i wf unfolding d by (cases "msEnts ms") (auto simp: ms_view_def ms_wf_def alLast_def)
  have "sint (i - ?off) \<le> uint (i - ?off)" by (rule sint_le_uint)
  with lt have "sint (i - ?off) < int (length (msEnts ms))" by (simp only: uint_nat)
  then have "MS_Term ms i = Some (Inr (eTerm (msEnts ms ! unat (i - ?off))))"
    using le lt unfolding MS_Term_def ms_offset_eq [OF wf] idx_def by (simp add: not_le)
  moreover have "eTerm (msEnts ms ! unat (i - ?off)) = alTerm (ms_view ms) (unat i)"
    using i wf unfolding d by (cases "msEnts ms") (auto simp: alTerm_def ms_view_def ms_wf_def nth_Cons')
  ultimately show ?thesis by simp
qed

lemma ms_Entries_eq:
  assumes wf: "ms_wf ms" and "alBase (ms_view ms) < unat lo" "unat lo < unat hi"
    "unat hi \<le> alLast (ms_view ms) + 1"
  shows "MS_Entries ms lo hi m = Some (Inr (limitSize (alSlice (ms_view ms) (unat lo) (unat hi)) m))"
proof -
  let ?off = "eIndex (hd (msEnts ms))"
  obtain e es where es: "msEnts ms = e # es" using wf by (cases "msEnts ms") (auto simp: ms_wf_def)
  obtain li where li: "ms_lastIndex ms = Some li" "unat li = alLast (ms_view ms)"
    using ms_lastIndex_eq [OF wf] by auto
  have off: "?off < lo" "?off \<le> lo" "?off \<le> hi"
    using assms by (auto simp: ms_view_def word_less_nat_alt word_le_nat_alt)
  have "unat li + 1 < 18446744073709551616"
    using li wf by (simp add: alLast_def ms_view_def ms_wf_def es)
  then have "unat (li + 1) = unat li + 1" using unat_plus_len [of li 1] by simp
  then have hi: "\<not> li + 1 < hi" using assms(4) li by (simp add: word_less_nat_alt)
  have last: "alLast (ms_view ms) = unat ?off + length es" by (simp add: alLast_def ms_view_def es)
  have "length es \<noteq> 0" using assms last by (auto simp: ms_view_def)
  moreover have "drop (unat lo - unat ?off) (e # es) = drop (unat lo - unat ?off - 1) es"
    using assms(2) by (simp add: ms_view_def drop_Cons')
  ultimately show ?thesis
    using assms off hi li last
    by (simp add: MS_Entries_def ms_offset_eq slice_of_def unat_minus_le es alSlice_def)
      (auto simp: ms_view_def es slice_of_def)
qed

interpretation storage: indexed_log ms_wf ms_view ms_firstIndex ms_lastIndex MS_Term MS_Entries
proof unfold_locales
  fix ms assume "ms_wf ms"
  then show "alog_wf (ms_view ms)"
    by (cases "msEnts ms") (auto simp: alog_wf_def alLast_def ms_view_def ms_wf_def contig_Cons)
next
  fix ms and lo hi m :: u64 assume "ms_wf ms" "unat lo \<le> alBase (ms_view ms)"
  then show "MS_Entries ms lo hi m = Some (Inl ErrCompacted)"
    by (simp add: MS_Entries_def ms_offset_eq ms_view_def word_le_nat_alt)
qed (auto dest: ms_firstIndex_eq ms_lastIndex_eq simp: ms_Term_eq ms_Entries_eq)


section \<open>raftLog\<close>

definition log_view :: "raftLog \<Rightarrow> alog" where
  "log_view l =
     (let u = rlUnstable l; a = ms_view (rlStorage l) in
      case uSnapshot u of
        None \<Rightarrow> alAppend (unat (uOffset u)) (uEntries u) a
      | Some s \<Rightarrow> \<lparr>alBase = unat (smIndex (sMetadata s)), alBaseTerm = smTerm (sMetadata s),
                   alEnts = uEntries u\<rparr>)"

text \<open>
  The structural invariant: the stable and the unstable part are contiguous and the unstable
  part starts inside or right after the stable part, or right after the pending snapshot.
\<close>

definition log_ok :: "raftLog \<Rightarrow> bool" where
  "log_ok l \<longleftrightarrow>
     ms_wf (rlStorage l)
     \<and> contig (unat (uOffset (rlUnstable l))) (uEntries (rlUnstable l))
     \<and> unat (uOffset (rlUnstable l)) + length (uEntries (rlUnstable l)) + 1 < 18446744073709551616
     \<and> (case uSnapshot (rlUnstable l) of
          None \<Rightarrow> alBase (ms_view (rlStorage l)) < unat (uOffset (rlUnstable l))
            \<and> unat (uOffset (rlUnstable l)) \<le> alLast (ms_view (rlStorage l)) + 1
            \<and> (uEntries (rlUnstable l) = [] \<longrightarrow>
                 unat (uOffset (rlUnstable l)) = alLast (ms_view (rlStorage l)) + 1)
        | Some s \<Rightarrow> unat (uOffset (rlUnstable l)) = unat (smIndex (sMetadata s)) + 1)"

text \<open>With the positions of the committed and the applied index.\<close>

definition log_wf :: "raftLog \<Rightarrow> bool" where
  "log_wf l \<longleftrightarrow> log_ok l \<and> alBase (log_view l) \<le> unat (rlCommitted l)
     \<and> unat (rlCommitted l) \<le> alLast (log_view l) \<and> unat (rlApplied l) \<le> unat (rlCommitted l)"

lemma log_wf_ok: "log_wf l \<Longrightarrow> log_ok l"
  by (simp add: log_wf_def)

text \<open>The two shapes of a log.\<close>

lemma log_ok_stable:
  assumes "log_ok l" "uSnapshot (rlUnstable l) = None"
  defines "u \<equiv> rlUnstable l" and "a \<equiv> ms_view (rlStorage l)"
  shows "log_view l = alAppend (unat (uOffset u)) (uEntries u) a"
    "alBase (log_view l) = alBase a" "alBase a < unat (uOffset u)" "unat (uOffset u) \<le> alLast a + 1"
    "alLast (log_view l) = unat (uOffset u) + length (uEntries u) - 1"
    "uEntries u = [] \<Longrightarrow> unat (uOffset u) = alLast a + 1"
  using assms by (auto simp: log_ok_def log_view_def Let_def alAppend_def alLast_def)

lemma log_ok_snap:
  assumes "log_ok l" "uSnapshot (rlUnstable l) = Some s"
  defines "u \<equiv> rlUnstable l"
  shows "log_view l = \<lparr>alBase = unat (smIndex (sMetadata s)), alBaseTerm = smTerm (sMetadata s),
                   alEnts = uEntries u\<rparr>"
    "unat (uOffset u) = alBase (log_view l) + 1"
    "alLast (log_view l) = unat (uOffset u) + length (uEntries u) - 1"
  using assms by (auto simp: log_ok_def log_view_def Let_def alLast_def)

lemma log_ok_last:
  assumes "log_ok l"
  shows "alLast (log_view l) + 1 = unat (uOffset (rlUnstable l)) + length (uEntries (rlUnstable l))"
proof (cases "uSnapshot (rlUnstable l)")
  case None
  from log_ok_stable(3,5) [OF assms None] show ?thesis by linarith
next
  case (Some s)
  from log_ok_snap(2,3) [OF assms Some] show ?thesis by linarith
qed

lemma log_ok_offset:
  assumes "log_ok l"
  shows "alBase (log_view l) < unat (uOffset (rlUnstable l))"
proof (cases "uSnapshot (rlUnstable l)")
  case None
  from log_ok_stable(2,3) [OF assms None] show ?thesis by linarith
next
  case (Some s)
  from log_ok_snap(2) [OF assms Some] show ?thesis by linarith
qed

lemma log_view_wf: "log_ok l \<Longrightarrow> alog_wf (log_view l)"
proof (cases "uSnapshot (rlUnstable l)")
  case None
  assume ok: "log_ok l"
  note st = log_ok_stable [OF ok None]
  let ?a = "ms_view (rlStorage l)" and ?u = "rlUnstable l"
  have wf: "alog_wf ?a" using ok storage.view_wf by (simp add: log_ok_def)
  have len: "length (take (unat (uOffset ?u) - alBase ?a - 1) (alEnts ?a)) = unat (uOffset ?u) - alBase ?a - 1"
    using st(4) by (auto simp: alLast_def)
  have "contig (alBase ?a + 1) (alEnts (log_view l))"
    using ok wf st(3) len unfolding st(1)
    by (simp add: alAppend_def contig_append alog_wf_def contig_take log_ok_def)
  then show ?thesis
    using ok st(2,5) by (auto simp: alog_wf_def log_ok_def)
next
  case (Some s)
  assume ok: "log_ok l"
  from log_ok_snap [OF ok Some] ok show ?thesis by (auto simp: alog_wf_def log_ok_def)
qed

lemma firstIndex_eq: "log_ok l \<Longrightarrow> \<exists>i. firstIndex l = Some i \<and> unat i = alBase (log_view l) + 1"
proof (cases "uSnapshot (rlUnstable l)")
  case None
  assume ok: "log_ok l"
  then obtain i where "ms_firstIndex (rlStorage l) = Some i" "unat i = alBase (ms_view (rlStorage l)) + 1"
    using storage.first_eq [of "rlStorage l"] by (auto simp: log_ok_def)
  then show ?thesis
    using log_ok_stable(2) [OF ok None] None
    by (simp add: firstIndex_def maybeFirstIndex_def must_def MS_FirstIndex_def)
next
  case (Some s)
  assume ok: "log_ok l"
  from log_ok_snap [OF ok Some] have "unat (smIndex (sMetadata s)) + 1 < 18446744073709551616"
    using ok by (simp add: log_ok_def)
  then have "unat (smIndex (sMetadata s) + 1) = unat (smIndex (sMetadata s)) + 1"
    using unat_plus_len [of "smIndex (sMetadata s)" 1] by simp
  with Some log_ok_snap [OF ok Some] show ?thesis
    by (simp add: firstIndex_def maybeFirstIndex_def)
qed

lemma lastIndex_eq: "log_ok l \<Longrightarrow> \<exists>i. lastIndex l = Some i \<and> unat i = alLast (log_view l)"
proof (cases "uEntries (rlUnstable l) = []")
  case False
  assume ok: "log_ok l"
  then have "unat (uOffset (rlUnstable l) + word_of_nat (length (uEntries (rlUnstable l))) - 1)
      = unat (uOffset (rlUnstable l)) + length (uEntries (rlUnstable l)) - 1"
    using False by (intro unat_plus_len_minus_one) (auto simp: log_ok_def)
  with False log_ok_last [OF ok] show ?thesis
    by (auto simp: lastIndex_def maybeLastIndex_def Let_def)
next
  case True
  assume ok: "log_ok l"
  show ?thesis
  proof (cases "uSnapshot (rlUnstable l)")
    case None
    obtain i where "ms_lastIndex (rlStorage l) = Some i" "unat i = alLast (ms_view (rlStorage l))"
      using storage.last_eq [of "rlStorage l"] ok by (auto simp: log_ok_def)
    then show ?thesis
      using True None log_ok_stable [OF ok None]
      by (simp add: lastIndex_def maybeLastIndex_def must_def MS_LastIndex_def)
  next
    case (Some s)
    then show ?thesis
      using True log_ok_snap [OF ok Some]
      by (simp add: lastIndex_def maybeLastIndex_def alLast_def)
  qed
qed


text \<open>The view, read below and above the offset.\<close>

lemma alAppend_nth:
  assumes "alBase a < n" "n \<le> alLast a + 1" "alBase a < i"
  shows "alEnts (alAppend n es a) ! (i - alBase a - 1) =
    (if i < n then alEnts a ! (i - alBase a - 1) else es ! (i - n))"
proof -
  have len: "length (take (n - alBase a - 1) (alEnts a)) = n - alBase a - 1"
    using assms by (simp add: alLast_def)
  show ?thesis
  proof (cases "i < n")
    case True
    then have "i - alBase a - 1 < n - alBase a - 1" using assms(3) by linarith
    with True len show ?thesis by (simp add: alAppend_def nth_append)
  next
    case False
    then have "\<not> i - alBase a - 1 < n - alBase a - 1" "i - alBase a - 1 - (n - alBase a - 1) = i - n"
      using assms by linarith+
    with False len show ?thesis by (simp add: alAppend_def nth_append)
  qed
qed

lemma alAppend_slice:
  assumes "alBase a < n" "n \<le> alLast a + 1" "alBase a < lo" "lo \<le> hi"
  shows "alSlice (alAppend n es a) lo hi =
    (if hi \<le> n then alSlice a lo hi
     else if n \<le> lo then take (hi - lo) (drop (lo - n) es)
     else alSlice a lo n @ take (hi - n) es)"
proof -
  let ?b = "alBase a"
  let ?p = "take (n - ?b - 1) (alEnts a)"
  have len: "length ?p = n - ?b - 1" using assms by (simp add: alLast_def)
  have s: "alSlice (alAppend n es a) lo hi = take (hi - lo) (drop (lo - ?b - 1) ?p @ drop (lo - n) es)"
    using assms len by (simp add: alSlice_def alAppend_def)
  have d: "drop (lo - ?b - 1) ?p = take (n - lo) (drop (lo - ?b - 1) (alEnts a))"
    using assms by (simp add: drop_take)
  consider "hi \<le> n" | "n \<le> lo" "\<not> hi \<le> n" | "lo < n" "n < hi" by linarith
  then show ?thesis
  proof cases
    case 1
    have l: "length (drop (lo - ?b - 1) ?p) = n - lo" using len assms by simp
    have "take (hi - lo) (drop (lo - ?b - 1) ?p @ drop (lo - n) es) = take (hi - lo) (drop (lo - ?b - 1) ?p)"
      unfolding take_append l using 1 by simp
    also have "\<dots> = alSlice a lo hi" unfolding d alSlice_def using 1 by (simp add: min_def)
    finally show ?thesis using 1 by (simp only: s if_True)
  next
    case 2
    then show ?thesis using assms len by (simp add: s d)
  next
    case 3
    then have l: "length (drop (lo - ?b - 1) ?p) = n - lo" using len assms by simp
    have "take (hi - lo) (drop (lo - ?b - 1) ?p @ drop (lo - n) es) = drop (lo - ?b - 1) ?p @ take (hi - n) es"
      unfolding take_append l using 3 l by simp
    also have "\<dots> = alSlice a lo n @ take (hi - n) es" unfolding d alSlice_def ..
    finally show ?thesis using 3 by (simp add: s)
  qed
qed

lemma alBase_alAppend [simp]: "alBase (alAppend n es a) = alBase a" "alBaseTerm (alAppend n es a) = alBaseTerm a"
  by (simp_all add: alAppend_def)

lemma alLast_alAppend: "alBase a < n \<Longrightarrow> n \<le> alLast a + 1 \<Longrightarrow> alLast (alAppend n es a) = n + length es - 1"
  by (auto simp: alAppend_def alLast_def)

lemma alTerm_alAppend:
  assumes "alBase a < n" "n \<le> alLast a + 1"
  shows "alTerm (alAppend n es a) i =
    (if i < n then alTerm a i else if i < n + length es then eTerm (es ! (i - n)) else 0)"
  using assms alAppend_nth [OF assms, of i es]
  by (auto simp: alTerm_def alLast_alAppend)

lemma maybeTerm_above:
  assumes ok: "log_ok l" and i: "unat (uOffset (rlUnstable l)) \<le> unat i" "unat i \<le> alLast (log_view l)"
  shows "maybeTerm (rlUnstable l) i =
    Some (Some (eTerm (uEntries (rlUnstable l) ! (unat i - unat (uOffset (rlUnstable l))))))"
proof -
  let ?u = "rlUnstable l"
  have lt: "unat i - unat (uOffset ?u) < length (uEntries ?u)"
    using log_ok_last [OF ok] i by linarith
  then have "uEntries ?u \<noteq> []" by auto
  then have lst: "maybeLastIndex ?u = Some (uOffset ?u + word_of_nat (length (uEntries ?u)) - 1)"
    by (simp add: maybeLastIndex_def)
  have "unat (uOffset ?u + word_of_nat (length (uEntries ?u)) - 1) = unat (uOffset ?u) + length (uEntries ?u) - 1"
    using ok lt by (intro unat_plus_len_minus_one) (auto simp: log_ok_def)
  then have "\<not> uOffset ?u + word_of_nat (length (uEntries ?u)) - 1 < i"
    using log_ok_last [OF ok] i by (simp add: word_less_nat_alt)
  moreover have "\<not> i < uOffset ?u" using i by (simp add: word_less_nat_alt)
  moreover have "unat (i - uOffset ?u) = unat i - unat (uOffset ?u)"
    using i by (intro unat_minus_le) (simp add: word_le_nat_alt)
  ultimately show ?thesis using lt by (simp add: maybeTerm_def lst idx_def)
qed

lemma log_view_nth:
  assumes ok: "log_ok l" and i: "unat (uOffset (rlUnstable l)) \<le> i"
  shows "alEnts (log_view l) ! (i - alBase (log_view l) - 1) = uEntries (rlUnstable l) ! (i - unat (uOffset (rlUnstable l)))"
proof (cases "uSnapshot (rlUnstable l)")
  case None
  note st = log_ok_stable [OF ok None]
  show ?thesis using alAppend_nth [OF st(3,4), of i] st(3) i by (simp add: st(1))
next
  case (Some s)
  from log_ok_snap(1,2) [OF ok Some] show ?thesis by simp
qed

lemma raftLog_term_eq:
  assumes ok: "log_ok l"
  shows "raftLog_term l i = Some (Inr (alTerm (log_view l) (unat i)))"
proof -
  obtain fi where fi: "firstIndex l = Some fi" "unat fi = alBase (log_view l) + 1"
    using firstIndex_eq [OF ok] by auto
  obtain li where li: "lastIndex l = Some li" "unat li = alLast (log_view l)"
    using lastIndex_eq [OF ok] by auto
  have dummy: "unat (fi - 1) = alBase (log_view l)"
    using fi(2) by (subst unat_minus_le) (auto simp: word_le_nat_alt)
  let ?u = "rlUnstable l"
  show ?thesis
  proof (cases "unat i < alBase (log_view l) \<or> alLast (log_view l) < unat i")
    case True
    then have "i < fi - 1 \<or> li < i" by (auto simp: word_less_nat_alt dummy li)
    with True show ?thesis by (auto simp: raftLog_term_def fi li alTerm_def alLast_def)
  next
    case False
    then have "\<not> (i < fi - 1 \<or> li < i)" by (auto simp: word_less_nat_alt dummy li)
    then have step: "raftLog_term l i = Option.bind (maybeTerm ?u i) (\<lambda>mt. case mt of
           Some t \<Rightarrow> Some (Inr t)
         | None \<Rightarrow> Option.bind (MS_Term (rlStorage l) i) (\<lambda>r. case r of
               Inr t \<Rightarrow> Some (Inr t)
             | Inl err \<Rightarrow> if err = ErrCompacted \<or> err = ErrUnavailable then Some (Inl err) else None))"
      by (simp add: raftLog_term_def fi li)
    show ?thesis
    proof (cases "unat i < unat (uOffset ?u)")
      case below: True
      then have lt: "i < uOffset ?u" by (simp add: word_less_nat_alt)
      show ?thesis
      proof (cases "uSnapshot ?u")
        case None
        note st = log_ok_stable [OF ok None]
        have "MS_Term (rlStorage l) i = Some (Inr (alTerm (ms_view (rlStorage l)) (unat i)))"
          using ok False below st(2-4) by (intro storage.term_eq) (auto simp: log_ok_def)
        moreover have "alTerm (log_view l) (unat i) = alTerm (ms_view (rlStorage l)) (unat i)"
          using alTerm_alAppend [OF st(3,4)] below by (simp add: st(1))
        ultimately show ?thesis using lt None by (simp add: step maybeTerm_def)
      next
        case (Some s)
        note sn = log_ok_snap [OF ok Some]
        have "unat i = alBase (log_view l)" using False below sn(2) by linarith
        moreover from this have "smIndex (sMetadata s) = i" using sn(1) by (simp add: word_eq_nat)
        ultimately show ?thesis using lt Some sn(1) by (simp add: step maybeTerm_def alTerm_def)
      qed
    next
      case above: False
      then have "maybeTerm ?u i = Some (Some (eTerm (uEntries ?u ! (unat i - unat (uOffset ?u)))))"
        using False by (intro maybeTerm_above [OF ok]) auto
      moreover have "alTerm (log_view l) (unat i) = eTerm (uEntries ?u ! (unat i - unat (uOffset ?u)))"
        using log_view_nth [OF ok, of "unat i"] above False log_ok_offset [OF ok]
        by (simp add: alTerm_def)
      ultimately show ?thesis by (simp add: step)
    qed
  qed
qed

section \<open>Reading ranges\<close>

lemma raftLog_check_ok:
  assumes ok: "log_ok l" and "alBase (log_view l) < unat lo" "unat lo \<le> unat hi" "unat hi \<le> alLast (log_view l) + 1"
  shows "raftLog_mustCheckOutOfBounds l lo hi = Some None"
proof -
  obtain fi where fi: "firstIndex l = Some fi" "unat fi = alBase (log_view l) + 1"
    using firstIndex_eq [OF ok] by auto
  obtain li where li: "lastIndex l = Some li" "unat li = alLast (log_view l)"
    using lastIndex_eq [OF ok] by auto
  have "alLast (log_view l) + 2 < 18446744073709551616" using log_view_wf [OF ok] by (simp add: alog_wf_def)
  then have "unat (li + 1) = unat li + 1" using unat_plus_len [of li 1] li by simp
  moreover have "fi + (li + 1 - fi) = li + 1" by simp
  ultimately have "\<not> hi > fi + (li + 1 - fi)" using assms(4) li by (simp only: word_less_nat_alt)
  moreover have "\<not> lo > hi" "\<not> lo < fi" using assms fi by (auto simp: word_less_nat_alt)
  ultimately show ?thesis by (simp add: raftLog_mustCheckOutOfBounds_def fi li)
qed

lemma raftLog_slice_compacted:
  assumes ok: "log_ok l" and "unat lo \<le> alBase (log_view l)" "unat lo \<le> unat hi"
  shows "raftLog_slice l lo hi m = Some (Inl ErrCompacted)"
proof -
  obtain fi where fi: "firstIndex l = Some fi" "unat fi = alBase (log_view l) + 1"
    using firstIndex_eq [OF ok] by auto
  then have "\<not> lo > hi" "lo < fi" using assms by (auto simp: word_less_nat_alt)
  then show ?thesis by (simp add: raftLog_slice_def raftLog_mustCheckOutOfBounds_def fi)
qed

text \<open>The slice of the unstable part.\<close>

lemma unstable_slice_eq:
  assumes ok: "log_ok l" and "unat (uOffset (rlUnstable l)) \<le> unat lo" "unat lo \<le> unat hi"
    "unat hi \<le> alLast (log_view l) + 1"
  shows "unstable_slice (rlUnstable l) lo hi =
    Some (take (unat hi - unat lo) (drop (unat lo - unat (uOffset (rlUnstable l))) (uEntries (rlUnstable l))))"
proof -
  let ?u = "rlUnstable l"
  have up: "unat (uOffset ?u + word_of_nat (length (uEntries ?u))) = unat (uOffset ?u) + length (uEntries ?u)"
    using ok by (intro unat_plus_len) (simp add: log_ok_def)
  have d: "unat (lo - uOffset ?u) = unat lo - unat (uOffset ?u)" "unat (hi - uOffset ?u) = unat hi - unat (uOffset ?u)"
    using assms by (auto intro!: unat_minus_le simp: word_le_nat_alt)
  have "\<not> lo > hi" "\<not> lo < uOffset ?u" "\<not> hi > uOffset ?u + word_of_nat (length (uEntries ?u))"
    using assms log_ok_last [OF ok] by (auto simp: word_less_nat_alt up)
  moreover have "unat lo - unat (uOffset ?u) \<le> unat hi - unat (uOffset ?u)"
    "unat hi - unat (uOffset ?u) \<le> length (uEntries ?u)"
    using assms log_ok_last [OF ok] by linarith+
  moreover have "unat hi - unat (uOffset ?u) - (unat lo - unat (uOffset ?u)) = unat hi - unat lo"
    using assms by linarith
  ultimately show ?thesis
    by (simp only: unstable_slice_def unstable_mustCheckOutOfBounds_def Let_def d slice_of_def
        panic_if_False bind.bind_lunit simp_thms if_True)
qed

text \<open>Where the offset cuts the range.\<close>

lemma raftLog_slice_eq:
  assumes ok: "log_ok l" and lo: "alBase (log_view l) < unat lo" "unat lo < unat hi"
    and hi: "unat hi \<le> alLast (log_view l) + 1"
  shows "raftLog_slice l lo hi m = Some (Inr (limitSize (alSlice (log_view l) (unat lo) (unat hi)) m))"
proof -
  let ?u = "rlUnstable l" and ?off = "uOffset (rlUnstable l)" and ?a = "ms_view (rlStorage l)"
  have chk: "raftLog_mustCheckOutOfBounds l lo hi = Some None"
    using assms by (intro raftLog_check_ok) auto
  have ne: "lo \<noteq> hi" using lo by auto
  have mn: "unat (min hi ?off) = min (unat hi) (unat ?off)" by (rule unat_min)
  show ?thesis
  proof (cases "unat lo < unat ?off")
    case False
    then have "\<not> lo < ?off" "hi > ?off" using lo by (auto simp: word_less_nat_alt)
    moreover from this have "max lo ?off = lo" by simp
    moreover have "unstable_slice ?u lo hi = Some (take (unat hi - unat lo) (drop (unat lo - unat ?off) (uEntries ?u)))"
      using False lo hi by (intro unstable_slice_eq [OF ok]) auto
    moreover have "alSlice (log_view l) (unat lo) (unat hi) =
        take (unat hi - unat lo) (drop (unat lo - unat ?off) (uEntries ?u))"
    proof (cases "uSnapshot ?u")
      case None
      note st = log_ok_stable [OF ok None]
      show ?thesis
        using alAppend_slice [OF st(3,4), of "unat lo" "unat hi" "uEntries ?u"] lo False st(2) by (simp add: st(1))
    next
      case (Some s)
      note sn = log_ok_snap [OF ok Some]
      have "alEnts (log_view l) = uEntries ?u" by (simp add: sn(1))
      moreover have "unat lo - alBase (log_view l) - 1 = unat lo - unat ?off" using sn(2) by simp
      ultimately show ?thesis by (simp add: alSlice_def)
    qed
    ultimately show ?thesis using ne by (simp add: raftLog_slice_def chk)
  next
    case True
    then have lt: "lo < ?off" by (simp add: word_less_nat_alt)
    have None: "uSnapshot ?u = None"
    proof (cases "uSnapshot ?u")
      case (Some s)
      from log_ok_snap(2) [OF ok Some] True lo show ?thesis by linarith
    qed
    note st = log_ok_stable [OF ok None]
    let ?xs = "alSlice ?a (unat lo) (unat (min hi ?off))"
    have ents: "MS_Entries (rlStorage l) lo (min hi ?off) m =
        Some (Inr (limitSize ?xs m))"
      using ok True lo st(2,4) by (intro storage.slice_eq) (auto simp: mn log_ok_def)
    have "length ?xs = unat (min hi ?off) - unat lo"
      using st(2,4) lo True by (intro length_alSlice) (auto simp: mn)
    also have "\<dots> = unat (min hi ?off - lo)"
      using lo True by (intro unat_minus_le [symmetric]) (simp add: word_le_nat_alt mn)
    finally have len: "length ?xs = unat (min hi ?off - lo)" .
    have "length (limitSize ?xs m) < 18446744073709551616"
      using length_limitSize [of ?xs m] len unat_lt_2_64 [of "min hi ?off - lo"] by linarith
    then have short: "word_of_nat (length (limitSize ?xs m)) < min hi ?off - lo
        \<longleftrightarrow> length (limitSize ?xs m) < length ?xs"
      by (simp add: word_less_nat_alt unat_of_nat_small len)
    have view: "alSlice (log_view l) (unat lo) (unat hi) =
       (if unat hi \<le> unat ?off then alSlice ?a (unat lo) (unat hi)
        else alSlice ?a (unat lo) (unat ?off) @ take (unat hi - unat ?off) (uEntries ?u))"
      using alAppend_slice [OF st(3,4), of "unat lo" "unat hi" "uEntries ?u"] lo True st(2) by (simp add: st(1))
    show ?thesis
    proof (cases "unat hi \<le> unat ?off")
      case below: True
      then have "hi \<le> ?off" "\<not> ?off < hi" by (auto simp: word_le_nat_alt word_less_nat_alt)
      then have "min hi ?off = hi" by simp
      with below \<open>\<not> ?off < hi\<close> ne lt ents short view limitSize_full [of ?xs m] show ?thesis
        by (cases "length (limitSize ?xs m) < length ?xs") (simp_all add: raftLog_slice_def chk)
    next
      case above: False
      then have "?off < hi" "min hi ?off = ?off" by (auto simp: word_less_nat_alt min_def word_le_nat_alt)
      moreover have "unstable_slice ?u ?off hi = Some (take (unat hi - unat ?off) (uEntries ?u))"
        using unstable_slice_eq [OF ok, of ?off hi] above hi by simp
      moreover have "max lo ?off = ?off" using lt by simp
      ultimately show ?thesis
        using above ne lt ents short view limitSize_full [of ?xs m]
          limitSize_short [of ?xs m "take (unat hi - unat ?off) (uEntries ?u)"]
        by (cases "length (limitSize ?xs m) < length ?xs") (auto simp: raftLog_slice_def chk Let_def)
    qed
  qed
qed


interpretation rlog: indexed_log log_ok log_view firstIndex lastIndex raftLog_term raftLog_slice
proof unfold_locales
  fix l and lo hi m :: u64
  assume "log_ok l" "unat lo \<le> alBase (log_view l)" "unat lo \<le> unat hi"
  then show "raftLog_slice l lo hi m = Some (Inl ErrCompacted)" by (rule raftLog_slice_compacted)
qed (auto dest: firstIndex_eq lastIndex_eq intro: log_view_wf simp: raftLog_term_eq raftLog_slice_eq)

lemma raftLog_entries_eq:
  assumes ok: "log_ok l" and i: "alBase (log_view l) < unat i"
  shows "raftLog_entries l i m = Some (Inr (limitSize (drop (unat i - alBase (log_view l) - 1) (alEnts (log_view l))) m))"
proof -
  obtain li where li: "lastIndex l = Some li" "unat li = alLast (log_view l)"
    using lastIndex_eq [OF ok] by auto
  have "alLast (log_view l) + 2 < 18446744073709551616" using log_view_wf [OF ok] by (simp add: alog_wf_def)
  then have li1: "unat (li + 1) = alLast (log_view l) + 1" using unat_plus_len [of li 1] li by simp
  show ?thesis
  proof (cases "unat i \<le> alLast (log_view l)")
    case True
    then have "raftLog_slice l i (li + 1) m = Some (Inr (limitSize (alSlice (log_view l) (unat i) (alLast (log_view l) + 1)) m))"
      using raftLog_slice_eq [OF ok i, of "li + 1" m] by (simp add: li1)
    moreover have "alSlice (log_view l) (unat i) (alLast (log_view l) + 1) = drop (unat i - alBase (log_view l) - 1) (alEnts (log_view l))"
      using i by (simp add: alSlice_def alLast_def)
    ultimately show ?thesis using True li by (simp add: raftLog_entries_def word_less_nat_alt)
  next
    case False
    then have "drop (unat i - alBase (log_view l) - 1) (alEnts (log_view l)) = []" by (simp add: alLast_def)
    with False li show ?thesis by (simp add: raftLog_entries_def word_less_nat_alt)
  qed
qed

lemma raftLog_entries_compacted:
  assumes ok: "log_ok l" and i: "unat i \<le> alBase (log_view l)"
  shows "raftLog_entries l i m = Some (Inl ErrCompacted)"
proof -
  obtain li where li: "lastIndex l = Some li" "unat li = alLast (log_view l)"
    using lastIndex_eq [OF ok] by auto
  have "alLast (log_view l) + 2 < 18446744073709551616" using log_view_wf [OF ok] by (simp add: alog_wf_def)
  then have "unat (li + 1) = alLast (log_view l) + 1" using unat_plus_len [of li 1] li by simp
  with ok i li show ?thesis
    by (simp add: raftLog_entries_def word_less_nat_alt raftLog_slice_compacted alLast_def)
qed

section \<open>Appending\<close>

lemma alAppend_alAppend_low:
  assumes "alBase a < n" "n \<le> m" "m \<le> alLast a + 1"
  shows "alAppend n es (alAppend m xs a) = alAppend n es a"
  using assms by (simp add: alAppend_def alLast_def min_def)

lemma alAppend_alAppend_high:
  assumes "alBase a < m" "m \<le> alLast a + 1" "m \<le> n" "n \<le> m + length xs"
  shows "alAppend n es (alAppend m xs a) = alAppend m (take (n - m) xs @ es) a"
proof -
  have "length (take (m - alBase a - 1) (alEnts a)) = m - alBase a - 1"
    using assms by (simp add: alLast_def)
  then have "take (n - alBase a - 1) (take (m - alBase a - 1) (alEnts a) @ xs) =
      take (m - alBase a - 1) (alEnts a) @ take (n - m) xs"
    using assms by (simp add: take_append)
  then show ?thesis by (simp add: alAppend_def)
qed

lemma contig_eIndex_hd: "contig n es \<Longrightarrow> es \<noteq> [] \<Longrightarrow> idx es 0 = Some (hd es) \<and> unat (eIndex (hd es)) = n"
  by (cases es) (simp_all add: contig_Cons idx_def)

lemma truncateAndAppend_eq:
  assumes ok: "log_ok l" and es: "es \<noteq> []" "contig n es"
    and n: "alBase (log_view l) < n" "n \<le> alLast (log_view l) + 1"
    and bound: "n + length es + 1 < 18446744073709551616"
  shows "\<exists>u. truncateAndAppend es (rlUnstable l) = Some u \<and> log_ok (l\<lparr>rlUnstable := u\<rparr>)
    \<and> log_view (l\<lparr>rlUnstable := u\<rparr>) = alAppend n es (log_view l) \<and> uSnapshot u = uSnapshot (rlUnstable l)"
proof -
  let ?u = "rlUnstable l" and ?v = "log_view l"
  let ?off = "uOffset ?u" and ?ue = "uEntries ?u"
  obtain after where hd: "idx es 0 = Some (hd es)" "eIndex (hd es) = after" "unat after = n"
    using contig_eIndex_hd [OF es(2,1)] by auto
  have up: "unat (?off + word_of_nat (length ?ue)) = unat ?off + length ?ue"
    using ok by (intro unat_plus_len) (simp add: log_ok_def)
  note last = log_ok_last [OF ok]
  consider (app) "n = unat ?off + length ?ue" | (low) "n \<noteq> unat ?off + length ?ue" "n \<le> unat ?off"
    | (mid) "n \<noteq> unat ?off + length ?ue" "unat ?off < n" by linarith
  then obtain u' where r: "truncateAndAppend es ?u = Some u'" "uSnapshot u' = uSnapshot ?u"
    and shape: "(uOffset u' = ?off \<and> unat ?off \<le> n \<and> uEntries u' = take (n - unat ?off) ?ue @ es)
      \<or> (unat (uOffset u') = n \<and> n \<le> unat ?off \<and> uEntries u' = es)"
  proof cases
    case app
    then have "after = ?off + word_of_nat (length ?ue)" by (simp add: word_eq_nat hd(3) up)
    then have "truncateAndAppend es ?u = Some (?u\<lparr>uEntries := ?ue @ es\<rparr>)"
      by (simp add: truncateAndAppend_def hd)
    from that [OF this] app show ?thesis by simp
  next
    case low
    then have "after \<noteq> ?off + word_of_nat (length ?ue)" "after \<le> ?off"
      using up by (auto simp: word_eq_nat word_le_nat_alt hd(3))
    then have "truncateAndAppend es ?u = Some (?u\<lparr>uOffset := after, uEntries := es\<rparr>)"
      by (simp add: truncateAndAppend_def hd)
    from that [OF this] low hd(3) show ?thesis by simp
  next
    case mid
    then have "after \<noteq> ?off + word_of_nat (length ?ue)" "\<not> after \<le> ?off"
      using up by (auto simp: word_eq_nat word_le_nat_alt hd(3))
    moreover have "unstable_slice ?u ?off after = Some (take (n - unat ?off) ?ue)"
      using unstable_slice_eq [OF ok, of ?off after] mid n(2) by (simp add: hd(3))
    ultimately have "truncateAndAppend es ?u = Some (?u\<lparr>uEntries := take (n - unat ?off) ?ue @ es\<rparr>)"
      by (simp add: truncateAndAppend_def hd)
    from that [OF this] mid show ?thesis by simp
  qed
  let ?off' = "uOffset u'" and ?ue' = "uEntries u'"
  let ?l' = "l\<lparr>rlUnstable := u'\<rparr>"
  have cont: "contig (unat ?off') ?ue' \<and> unat ?off' + length ?ue' = n + length es \<and> ?ue' \<noteq> []"
  proof -
    have "contig (unat ?off) (take (n - unat ?off) ?ue)" using ok by (simp add: log_ok_def contig_take)
    moreover have "length (take (n - unat ?off) ?ue) = n - unat ?off" if "unat ?off \<le> n" using that n(2) last by simp
    ultimately show ?thesis using shape es by (auto simp: contig_append)
  qed
  show ?thesis
  proof (cases "uSnapshot ?u")
    case None
    note st = log_ok_stable [OF ok None]
    let ?a = "ms_view (rlStorage l)"
    have offp: "alBase ?a < unat ?off'" "unat ?off' \<le> alLast ?a + 1" using shape st(2-4) n by auto
    have "alAppend (unat ?off') ?ue' ?a = alAppend n es ?v"
      unfolding st(1) using shape
    proof
      assume *: "?off' = ?off \<and> unat ?off \<le> n \<and> ?ue' = take (n - unat ?off) ?ue @ es"
      then show "alAppend (unat ?off') ?ue' ?a = alAppend n es (alAppend (unat ?off) ?ue ?a)"
        using alAppend_alAppend_high [OF st(3,4), of n ?ue es] n(2) last by simp
    next
      assume *: "unat ?off' = n \<and> n \<le> unat ?off \<and> ?ue' = es"
      then show "alAppend (unat ?off') ?ue' ?a = alAppend n es (alAppend (unat ?off) ?ue ?a)"
        using alAppend_alAppend_low [of ?a n "unat ?off" es ?ue] n(1) st(2,4) by simp
    qed
    moreover have "log_ok ?l'" using ok None r(2) offp cont bound by (simp add: log_ok_def)
    ultimately show ?thesis using r None by (simp add: log_view_def)
  next
    case (Some s)
    note sn = log_ok_snap [OF ok Some]
    have "?off' = ?off" "n \<ge> unat ?off" using shape n(1) sn(2) by (auto simp: word_eq_nat)
    then have uep: "?ue' = take (n - unat ?off) ?ue @ es" using shape by auto
    moreover have "alAppend n es ?v = ?v\<lparr>alEnts := ?ue'\<rparr>"
      using sn(1,2) by (simp add: alAppend_def uep)
    moreover have "log_ok ?l'" using ok Some r(2) cont bound \<open>?off' = ?off\<close> by (simp add: log_ok_def)
    ultimately show ?thesis using r Some sn(1) by (simp add: log_view_def)
  qed
qed

lemma raftLog_append_eq:
  assumes wf: "log_wf l" and es: "es \<noteq> []" "contig n es"
    and n: "unat (rlCommitted l) < n" "n \<le> alLast (log_view l) + 1"
    and bound: "n + length es + 1 < 18446744073709551616"
  shows "\<exists>u i. raftLog_append es l = Some (l\<lparr>rlUnstable := u\<rparr>, i) \<and> unat i = n + length es - 1
    \<and> log_wf (l\<lparr>rlUnstable := u\<rparr>) \<and> log_view (l\<lparr>rlUnstable := u\<rparr>) = alAppend n es (log_view l)
    \<and> uSnapshot u = uSnapshot (rlUnstable l)"
proof -
  have ok: "log_ok l" and base: "alBase (log_view l) < n" using wf n by (auto simp: log_wf_def)
  obtain u where u: "truncateAndAppend es (rlUnstable l) = Some u" "log_ok (l\<lparr>rlUnstable := u\<rparr>)"
    "log_view (l\<lparr>rlUnstable := u\<rparr>) = alAppend n es (log_view l)" "uSnapshot u = uSnapshot (rlUnstable l)"
    using truncateAndAppend_eq [OF ok es base n(2) bound] by auto
  have last: "alLast (alAppend n es (log_view l)) = n + length es - 1"
    using base n(2) by (rule alLast_alAppend)
  obtain i where i: "lastIndex (l\<lparr>rlUnstable := u\<rparr>) = Some i" "unat i = n + length es - 1"
    using lastIndex_eq [OF u(2)] by (auto simp: u(3) last)
  have wf': "log_wf (l\<lparr>rlUnstable := u\<rparr>)" using wf n es last by (cases es) (auto simp: log_wf_def u(2,3))
  have hd: "idx es 0 = Some (hd es)" "unat (eIndex (hd es)) = n" using contig_eIndex_hd [OF es(2,1)] by auto
  then have "unat (eIndex (hd es) - 1) = n - 1" using n by (subst unat_minus_le) (auto simp: word_le_nat_alt)
  then have "\<not> eIndex (hd es) - 1 < rlCommitted l" using n by (simp add: word_less_nat_alt)
  then have "raftLog_append es l = Some (l\<lparr>rlUnstable := u\<rparr>, i)" using es(1) u(1) i(1) by (simp add: raftLog_append_def hd)
  with wf' u i show ?thesis by blast
qed

section \<open>Moving the cursors\<close>

lemma commitTo_eq:
  assumes wf: "log_wf l"
  shows "commitTo t l = (if unat t \<le> alLast (log_view l) then Some (l\<lparr>rlCommitted := max (rlCommitted l) t\<rparr>) else None)"
proof -
  obtain li where li: "lastIndex l = Some li" "unat li = alLast (log_view l)"
    using lastIndex_eq [OF log_wf_ok [OF wf]] by auto
  have c: "unat (rlCommitted l) \<le> alLast (log_view l)" using wf by (simp add: log_wf_def)
  show ?thesis
  proof (cases "rlCommitted l < t")
    case True
    then have "max (rlCommitted l) t = t" by simp
    with True li show ?thesis
      by (cases "li < t") (simp_all add: commitTo_def word_less_nat_alt)
  next
    case False
    then have "max (rlCommitted l) t = rlCommitted l" "unat t \<le> unat (rlCommitted l)"
      by (simp_all add: word_le_nat_alt not_less)
    with False c show ?thesis by (simp add: commitTo_def)
  qed
qed

lemma log_view_cursors [simp]:
  "log_view (l\<lparr>rlCommitted := c\<rparr>) = log_view l" "log_view (l\<lparr>rlApplied := c\<rparr>) = log_view l"
  "log_ok (l\<lparr>rlCommitted := c\<rparr>) = log_ok l" "log_ok (l\<lparr>rlApplied := c\<rparr>) = log_ok l"
  by (simp_all add: log_view_def log_ok_def split: option.split)

lemma log_wf_commit:
  "log_wf l \<Longrightarrow> unat t \<le> alLast (log_view l) \<Longrightarrow> log_wf (l\<lparr>rlCommitted := max (rlCommitted l) t\<rparr>)"
  by (auto simp: log_wf_def unat_max)

lemma appliedTo_eq:
  "appliedTo i l = (if i = 0 then Some l
     else if i \<le> rlCommitted l \<and> rlApplied l \<le> i then Some (l\<lparr>rlApplied := i\<rparr>) else None)"
  by (auto simp: appliedTo_def not_less panic_if_def)

lemma log_wf_applied: "log_wf l \<Longrightarrow> i \<le> rlCommitted l \<Longrightarrow> log_wf (l\<lparr>rlApplied := i\<rparr>)"
  by (auto simp: log_wf_def word_le_nat_alt)


section \<open>maybeAppend\<close>

lemma matchTerm_eq: "log_ok l \<Longrightarrow> matchTerm l i t = Some (alTerm (log_view l) (unat i) = t)"
  by (simp add: matchTerm_def raftLog_term_eq)

text \<open>The entries that the log already has: those before the first conflicting or new one.\<close>

definition agrees :: "alog \<Rightarrow> entry \<Rightarrow> bool" where
  "agrees a e \<longleftrightarrow> alTerm a (unat (eIndex e)) = eTerm e"

definition known_prefix :: "alog \<Rightarrow> entry list \<Rightarrow> nat" where
  "known_prefix a es = length (takeWhile (agrees a) es)"

lemma findConflict_eq:
  assumes ok: "log_ok l"
  shows "findConflict l es = Some (case dropWhile (agrees (log_view l)) es of [] \<Rightarrow> 0 | e # _ \<Rightarrow> eIndex e)"
proof -
  obtain li where li: "lastIndex l = Some li" using lastIndex_eq [OF ok] by auto
  show ?thesis
    by (induction es)
      (auto simp: matchTerm_eq [OF ok] raftLog_term_eq [OF ok] li agrees_def zeroTermOnErrCompacted_def)
qed

text \<open>What maybeAppend makes of the log when the previous entry matches.\<close>

definition alMaybeAppend :: "nat \<Rightarrow> entry list \<Rightarrow> alog \<Rightarrow> alog" where
  "alMaybeAppend i es a =
     (let k = known_prefix a es in
      if k = length es then a else alAppend (i + 1 + k) (drop k es) a)"

lemma known_prefix_le: "known_prefix a es \<le> length es"
  by (simp add: known_prefix_def length_takeWhile_le)

lemma known_prefix_agrees: "j < known_prefix a es \<Longrightarrow> agrees a (es ! j)"
  by (metis known_prefix_def nth_mem set_takeWhileD takeWhile_nth)

lemma alTerm_pos_in: "alTerm a i \<noteq> 0 \<Longrightarrow> alBase a \<le> i \<and> i \<le> alLast a"
  by (auto simp: alTerm_def alLast_def split: if_splits)

text \<open>The last known entry is in the log, so a conflict starts inside it or right behind it.\<close>

lemma known_prefix_in:
  assumes c: "contig (i + 1) es" and t: "\<forall>e \<in> set es. eTerm e \<noteq> 0" and i: "i \<le> alLast a"
  shows "i + known_prefix a es \<le> alLast a"
proof (cases "known_prefix a es")
  case (Suc k)
  then have k: "k < length es" using known_prefix_le [of a es] by simp
  have "agrees a (es ! k)" using Suc by (intro known_prefix_agrees) simp
  then have "alTerm a (i + 1 + k) \<noteq> 0" using t k contig_nth [OF c k] by (auto simp: agrees_def)
  then show ?thesis using alTerm_pos_in [of a "i + 1 + k"] Suc by simp
qed (use i in simp)

lemma maybeAppend_reject:
  "log_ok l \<Longrightarrow> alTerm (log_view l) (unat i) \<noteq> logTerm \<Longrightarrow> maybeAppend i logTerm committed es l = Some (l, 0, False)"
  by (simp add: maybeAppend_def matchTerm_eq)

lemma findConflict_known:
  assumes ok: "log_ok l"
  shows "findConflict l es = Some (if known_prefix (log_view l) es = length es then 0
    else eIndex (es ! known_prefix (log_view l) es))"
proof -
  let ?k = "known_prefix (log_view l) es"
  have drop: "dropWhile (agrees (log_view l)) es = drop ?k es"
    by (simp add: known_prefix_def dropWhile_eq_drop)
  show ?thesis
  proof (cases "?k = length es")
    case False
    then have "drop ?k es = es ! ?k # drop (Suc ?k) es"
      using known_prefix_le [of "log_view l" es] by (intro Cons_nth_drop_Suc [symmetric]) simp
    with False show ?thesis by (simp add: findConflict_eq [OF ok] drop)
  qed (simp add: findConflict_eq [OF ok] drop)
qed

lemma maybeAppend_ok:
  assumes wf: "log_wf l" and c: "contig (unat i + 1) es" and t: "\<forall>e \<in> set es. eTerm e \<noteq> 0"
    and i: "alBase (log_view l) \<le> unat i" "unat i \<le> alLast (log_view l)"
    and bound: "unat i + length es + 2 < 18446744073709551616"
    and match: "alTerm (log_view l) (unat i) = logTerm"
    and free: "known_prefix (log_view l) es = length es
      \<or> unat (rlCommitted l) < unat i + 1 + known_prefix (log_view l) es"
  shows "\<exists>u. maybeAppend i logTerm committed es l =
      Some (l\<lparr>rlUnstable := u, rlCommitted := max (rlCommitted l) (min committed (i + word_of_nat (length es)))\<rparr>,
            i + word_of_nat (length es), True)
    \<and> log_wf (l\<lparr>rlUnstable := u, rlCommitted := max (rlCommitted l) (min committed (i + word_of_nat (length es)))\<rparr>)
    \<and> log_view (l\<lparr>rlUnstable := u\<rparr>) = alMaybeAppend (unat i) es (log_view l)"
proof -
  note ok = log_wf_ok [OF wf]
  let ?v = "log_view l"
  let ?k = "known_prefix ?v es"
  let ?lastnewi = "i + word_of_nat (length es)"
  have lastnewi: "unat ?lastnewi = unat i + length es" using bound by (intro unat_plus_len) simp
  have kin: "unat i + ?k \<le> alLast ?v" using known_prefix_in [OF c t] i by simp
  have m: "matchTerm l i logTerm = Some True" by (simp add: matchTerm_eq [OF ok] match)
  show ?thesis
  proof (cases "?k = length es")
    case True
    then have v: "alMaybeAppend (unat i) es ?v = ?v" by (simp add: alMaybeAppend_def)
    have cm: "unat (min committed ?lastnewi) \<le> alLast ?v" using kin True by (simp add: unat_min lastnewi)
    then have "commitTo (min committed ?lastnewi) l = Some (l\<lparr>rlCommitted := max (rlCommitted l) (min committed ?lastnewi)\<rparr>)"
      by (simp add: commitTo_eq [OF wf])
    then have "maybeAppend i logTerm committed es l =
        Some (l\<lparr>rlCommitted := max (rlCommitted l) (min committed ?lastnewi)\<rparr>, ?lastnewi, True)"
      using True by (simp add: maybeAppend_def m findConflict_known [OF ok] Let_def)
    then show ?thesis
      using v log_wf_commit [OF wf cm] by (intro exI [of _ "rlUnstable l"]) simp
  next
    case False
    then have k: "?k < length es" using known_prefix_le [of ?v es] by simp
    let ?ci = "eIndex (es ! ?k)" and ?es = "drop ?k es" and ?n = "unat i + 1 + ?k"
    have ci: "unat ?ci = ?n" using contig_nth [OF c k] by simp
    have i1: "unat (i + 1) = unat i + 1" using bound unat_plus_len [of i 1] by simp
    have "unat (?ci - (i + 1)) = ?k" using ci by (subst unat_minus_le) (auto simp: word_le_nat_alt i1)
    then have sl: "slice_of es (unat (?ci - (i + 1))) (length es) = Some ?es" using k by simp
    have nz: "?ci \<noteq> 0" "\<not> ?ci \<le> rlCommitted l" using ci free False by (auto simp: word_le_nat_alt)
    have "contig ?n ?es" using contig_drop [OF c, of ?k] k by simp
    moreover have "?n + length ?es + 1 < 18446744073709551616" using bound k by simp
    moreover have "unat (rlCommitted l) < ?n" "?n \<le> alLast ?v + 1" "?es \<noteq> []" using free False kin k by auto
    ultimately obtain u x where u: "raftLog_append ?es l = Some (l\<lparr>rlUnstable := u\<rparr>, x)"
        "log_wf (l\<lparr>rlUnstable := u\<rparr>)" "log_view (l\<lparr>rlUnstable := u\<rparr>) = alAppend ?n ?es ?v"
      using raftLog_append_eq [OF wf, of ?es ?n] by blast
    have v: "alMaybeAppend (unat i) es ?v = alAppend ?n ?es ?v" using False by (simp add: alMaybeAppend_def Let_def)
    have "alLast (alAppend ?n ?es ?v) = ?n + length ?es - 1"
      using i kin by (intro alLast_alAppend) auto
    then have cm: "unat (min committed ?lastnewi) \<le> alLast (log_view (l\<lparr>rlUnstable := u\<rparr>))"
      using k by (simp add: u(3) unat_min lastnewi)
    then have "commitTo (min committed ?lastnewi) (l\<lparr>rlUnstable := u\<rparr>) =
        Some (l\<lparr>rlUnstable := u, rlCommitted := max (rlCommitted l) (min committed ?lastnewi)\<rparr>)"
      by (simp add: commitTo_eq [OF u(2)])
    then have "maybeAppend i logTerm committed es l =
        Some (l\<lparr>rlUnstable := u, rlCommitted := max (rlCommitted l) (min committed ?lastnewi)\<rparr>, ?lastnewi, True)"
      using False nz by (simp add: maybeAppend_def m findConflict_known [OF ok] sl u(1) Let_def del: slice_of_Some)
    then show ?thesis
      using v u(3) log_wf_commit [OF u(2) cm] by (intro exI [of _ u]) simp
  qed
qed

lemma maybeAppend_panics:
  assumes ok: "log_ok l" and c: "contig (unat i + 1) es" 
    and match: "alTerm (log_view l) (unat i) = logTerm"
    and conflict: "known_prefix (log_view l) es \<noteq> length es"
      "unat i + 1 + known_prefix (log_view l) es \<le> unat (rlCommitted l)"
  shows "maybeAppend i logTerm committed es l = None"
proof -
  have k: "known_prefix (log_view l) es < length es"
    using known_prefix_le [of "log_view l" es] conflict(1) by simp
  have "unat (eIndex (es ! known_prefix (log_view l) es)) = unat i + 1 + known_prefix (log_view l) es"
    using contig_nth [OF c k] by simp
  then have "eIndex (es ! known_prefix (log_view l) es) \<noteq> 0"
    "eIndex (es ! known_prefix (log_view l) es) \<le> rlCommitted l"
    using conflict(2) by (auto simp: word_le_nat_alt)
  then show ?thesis
    using conflict(1) by (simp add: maybeAppend_def matchTerm_eq [OF ok] match findConflict_known [OF ok])
qed

text \<open>What the abstract operation does: the sent entries are in the log afterwards, everything
  before the first conflict is untouched.\<close>

lemma alMaybeAppend_sent:
  assumes c: "contig (i + 1) es" and t: "\<forall>e \<in> set es. eTerm e \<noteq> 0"
    and i: "alBase a \<le> i" "i \<le> alLast a" and j: "j < length es"
  shows "alTerm (alMaybeAppend i es a) (i + 1 + j) = eTerm (es ! j)"
proof -
  let ?k = "known_prefix a es"
  have kin: "i + ?k \<le> alLast a" by (rule known_prefix_in [OF c t i(2)])
  have known: "alTerm a (i + 1 + j) = eTerm (es ! j)" if "j < ?k"
    using known_prefix_agrees [OF that] contig_nth [OF c j] by (simp add: agrees_def)
  show ?thesis
  proof (cases "?k = length es")
    case True
    with known j show ?thesis by (simp add: alMaybeAppend_def)
  next
    case False
    then have v: "alMaybeAppend i es a = alAppend (i + 1 + ?k) (drop ?k es) a" by (simp add: alMaybeAppend_def Let_def)
    have "alBase a < i + 1 + ?k" "i + 1 + ?k \<le> alLast a + 1" using i kin by auto
    from alTerm_alAppend [OF this, of "drop ?k es" "i + 1 + j"] known j show ?thesis
      by (cases "j < ?k") (auto simp: v)
  qed
qed

lemma alMaybeAppend_keeps:
  assumes c: "contig (i + 1) es" and t: "\<forall>e \<in> set es. eTerm e \<noteq> 0"
    and i: "alBase a \<le> i" "i \<le> alLast a" and p: "known_prefix a es = length es \<or> p < i + 1 + known_prefix a es"
    and p0: "alBase a < p"
  shows "alEnts (alMaybeAppend i es a) ! (p - alBase a - 1) = alEnts a ! (p - alBase a - 1)"
proof -
  let ?k = "known_prefix a es"
  have kin: "i + ?k \<le> alLast a" by (rule known_prefix_in [OF c t i(2)])
  show ?thesis
  proof (cases "?k = length es")
    case False
    then have v: "alMaybeAppend i es a = alAppend (i + 1 + ?k) (drop ?k es) a" by (simp add: alMaybeAppend_def Let_def)
    have "alBase a < i + 1 + ?k" "i + 1 + ?k \<le> alLast a + 1" using i kin by auto
    from alAppend_nth [OF this p0, of "drop ?k es"] p False show ?thesis by (simp add: v)
  qed (simp add: alMaybeAppend_def)
qed

section \<open>Reading for the state machine and for elections\<close>

lemma unat_last_plus_one:
  fixes i :: u64
  assumes "log_ok l" "unat i \<le> alLast (log_view l)"
  shows "unat (i + 1) = unat i + 1"
  using log_view_wf [OF assms(1)] assms(2) unat_plus_len [of i 1] by (simp add: alog_wf_def)

lemma lastTerm_eq:
  assumes "log_ok l"
  shows "lastTerm l = Some (alTerm (log_view l) (alLast (log_view l)))"
  using lastIndex_eq [OF assms] by (auto simp: lastTerm_def must_def raftLog_term_eq [OF assms])

lemma isUpToDate_eq:
  assumes ok: "log_ok l"
  shows "isUpToDate l lasti t = Some
    (let lt = alTerm (log_view l) (alLast (log_view l))
     in t > lt \<or> (t = lt \<and> alLast (log_view l) \<le> unat lasti))"
  using lastIndex_eq [OF ok] by (auto simp: isUpToDate_def lastTerm_eq [OF ok] Let_def word_le_nat_alt)

text \<open>The first index that nextEnts delivers.\<close>

definition next_start :: "raftLog \<Rightarrow> nat" where
  "next_start l = max (unat (rlApplied l) + 1) (alBase (log_view l) + 1)"

lemma next_start_word:
  assumes wf: "log_wf l"
  shows "\<exists>fi. firstIndex l = Some fi \<and> unat (max (rlApplied l + 1) fi) = next_start l"
proof -
  obtain fi where fi: "firstIndex l = Some fi" "unat fi = alBase (log_view l) + 1"
    using firstIndex_eq [OF log_wf_ok [OF wf]] by auto
  have "unat (rlApplied l + 1) = unat (rlApplied l) + 1"
    using wf by (intro unat_last_plus_one [of l]) (auto simp: log_wf_def)
  with fi show ?thesis by (simp add: next_start_def unat_max)
qed

lemma committed_plus_one:
  assumes wf: "log_wf l"
  shows "unat (rlCommitted l + 1) = unat (rlCommitted l) + 1"
  using wf by (intro unat_last_plus_one [of l]) (auto simp: log_wf_def)

lemma hasNextEnts_eq:
  assumes wf: "log_wf l"
  shows "hasNextEnts l = Some (next_start l \<le> unat (rlCommitted l))"
  using next_start_word [OF wf] committed_plus_one [OF wf]
  by (auto simp: hasNextEnts_def word_less_nat_alt)

lemma nextEnts_eq:
  assumes wf: "log_wf l"
  shows "nextEnts l = Some (if next_start l \<le> unat (rlCommitted l)
    then limitSize (alSlice (log_view l) (next_start l) (unat (rlCommitted l) + 1)) (rlMaxNextEntsSize l)
    else [])"
proof -
  note ok = log_wf_ok [OF wf]
  obtain fi where fi: "firstIndex l = Some fi" "unat (max (rlApplied l + 1) fi) = next_start l"
    using next_start_word [OF wf] by auto
  show ?thesis
  proof (cases "next_start l \<le> unat (rlCommitted l)")
    case True
    then have gt: "rlCommitted l + 1 > max (rlApplied l + 1) fi"
      using committed_plus_one [OF wf] fi(2) by (simp only: word_less_nat_alt)
    have "raftLog_slice l (max (rlApplied l + 1) fi) (rlCommitted l + 1) (rlMaxNextEntsSize l) =
        Some (Inr (limitSize (alSlice (log_view l) (next_start l) (unat (rlCommitted l) + 1)) (rlMaxNextEntsSize l)))"
      using raftLog_slice_eq [OF ok, of "max (rlApplied l + 1) fi" "rlCommitted l + 1"]
        True wf committed_plus_one [OF wf]
      by (simp add: fi(2) log_wf_def) (simp add: next_start_def)
    with True gt fi(1) show ?thesis by (simp add: nextEnts_def must_def)
  next
    case False
    then have "\<not> rlCommitted l + 1 > max (rlApplied l + 1) fi"
      using committed_plus_one [OF wf] fi(2) by (simp only: word_less_nat_alt)
    then show ?thesis using False fi(1) unfolding nextEnts_def by (simp add: Let_def del: max_less_iff_conj)
  qed
qed

lemma raftLog_maybeCommit_eq:
  assumes wf: "log_wf l"
  shows "raftLog_maybeCommit m t l =
    (if rlCommitted l < m \<and> alTerm (log_view l) (unat m) = t then
       if unat m \<le> alLast (log_view l) then Some (l\<lparr>rlCommitted := m\<rparr>, True) else None
     else Some (l, False))"
  using commitTo_eq [OF wf, of m] 
  by (simp add: raftLog_maybeCommit_def raftLog_term_eq [OF log_wf_ok [OF wf]] zeroTermOnErrCompacted_def max_def)

text \<open>With a term that is not 0 it cannot panic: an index past the end has term 0.\<close>

lemma raftLog_maybeCommit_total:
  assumes "log_wf l" "t \<noteq> 0"
  shows "\<exists>b. raftLog_maybeCommit m t l = Some (if b then l\<lparr>rlCommitted := m\<rparr> else l, b)
    \<and> (b \<longleftrightarrow> rlCommitted l < m \<and> alTerm (log_view l) (unat m) = t)
    \<and> log_wf (if b then l\<lparr>rlCommitted := m\<rparr> else l)"
proof (cases "rlCommitted l < m \<and> alTerm (log_view l) (unat m) = t")
  case True
  then have m: "unat m \<le> alLast (log_view l)" using assms(2) alTerm_pos_in by blast
  have "log_wf (l\<lparr>rlCommitted := max (rlCommitted l) m\<rparr>)" by (rule log_wf_commit [OF assms(1) m])
  moreover have "max (rlCommitted l) m = m" using True by simp
  ultimately show ?thesis using True m
    by (intro exI [of _ True]) (simp add: raftLog_maybeCommit_eq [OF assms(1)])
next
  case False
  then show ?thesis using assms(1) by (intro exI [of _ False]) (auto simp: raftLog_maybeCommit_eq [OF assms(1)])
qed

section \<open>Snapshots and creation\<close>

lemma raftLog_restore_eq:
  assumes wf: "log_wf l" and gt: "unat (rlCommitted l) \<le> unat (smIndex (sMetadata s))"
    and bound: "unat (smIndex (sMetadata s)) + 2 < 18446744073709551616"
  shows "log_wf (raftLog_restore s l) \<and> log_view (raftLog_restore s l) =
    \<lparr>alBase = unat (smIndex (sMetadata s)), alBaseTerm = smTerm (sMetadata s), alEnts = []\<rparr>"
proof -
  have "unat (smIndex (sMetadata s) + 1) = unat (smIndex (sMetadata s)) + 1"
    using bound unat_plus_len [of "smIndex (sMetadata s)" 1] by simp
  with assms show ?thesis
    by (simp add: log_wf_def log_ok_def log_view_def raftLog_restore_def unstable_restore_def alLast_def)
qed

lemma newLogWithSize_eq:
  assumes ms: "ms_wf ms"
  shows "\<exists>l. newLogWithSize ms m = Some l \<and> log_wf l \<and> log_view l = ms_view ms
    \<and> unat (rlCommitted l) = alBase (ms_view ms) \<and> rlApplied l = rlCommitted l
    \<and> rlStorage l = ms \<and> rlMaxNextEntsSize l = m"
proof -
  obtain fi where fi: "ms_firstIndex ms = Some fi" "unat fi = alBase (ms_view ms) + 1"
    using storage.first_eq [OF ms] by auto
  obtain li where li: "ms_lastIndex ms = Some li" "unat li = alLast (ms_view ms)"
    using storage.last_eq [OF ms] by auto
  have b: "alLast (ms_view ms) + 2 < 18446744073709551616" using storage.view_wf [OF ms] by (simp add: alog_wf_def)
  have li1: "unat (li + 1) = alLast (ms_view ms) + 1" using li b unat_plus_len [of li 1] by simp
  have fi1: "unat (fi - 1) = alBase (ms_view ms)" using fi by (subst unat_minus_le) (auto simp: word_le_nat_alt)
  have bl: "alBase (ms_view ms) \<le> alLast (ms_view ms)" by (simp add: alLast_def)
  let ?l = "\<lparr>rlStorage = ms, rlUnstable = \<lparr>uSnapshot = None, uEntries = [], uOffset = li + 1\<rparr>,
         rlCommitted = fi - 1, rlApplied = fi - 1, rlMaxNextEntsSize = m\<rparr>"
  have v: "log_view ?l = ms_view ms" by (simp add: log_view_def li1 alAppend_def alLast_def)
  have "log_wf ?l" using ms b bl by (simp add: log_wf_def v fi1) (simp add: log_ok_def li1)
  then show ?thesis using fi li v
    by (simp add: newLogWithSize_def must_def MS_FirstIndex_def MS_LastIndex_def fi1)
qed

section \<open>Writing to the storage\<close>

lemma MS_Append_eq:
  assumes wf: "ms_wf ms" and es: "es \<noteq> []" "contig n es" and n: "n \<le> alLast (ms_view ms) + 1"
    and bound: "n + length es + 1 < 18446744073709551616"
  defines "b \<equiv> alBase (ms_view ms)"
  defines "n' \<equiv> max n (b + 1)"
  shows "\<exists>ms'. MS_Append es ms = Some ms' \<and> ms_wf ms' \<and> msSnapshot ms' = msSnapshot ms
    \<and> msHardState ms' = msHardState ms
    \<and> ms_view ms' = (if n + length es \<le> b + 1 then ms_view ms else alAppend n' (drop (n' - n) es) (ms_view ms))"
proof -
  obtain d xs where ents: "msEnts ms = d # xs" using wf by (cases "msEnts ms") (auto simp: ms_wf_def)
  obtain e0 where hd: "hd es = e0" "unat (eIndex e0) = n" using contig_hd [OF es(2,1)] by auto
  obtain first where first: "ms_firstIndex ms = Some first" "unat first = b + 1"
    using storage.first_eq [OF wf] by (auto simp: b_def)
  have len: "0 < length es" using es(1) by simp
  have lst: "unat (eIndex e0 + word_of_nat (length es) - 1) = n + length es - 1"
    using bound hd(2) len by (subst unat_plus_len_minus_one) auto
  have b: "b = unat (eIndex d)" by (simp add: b_def ms_view_def ents)
  have last: "alLast (ms_view ms) + 1 = b + length (d # xs)" by (simp add: alLast_def ms_view_def ents b)
  show ?thesis
  proof (cases "n + length es \<le> b + 1")
    case True
    then have "eIndex e0 + word_of_nat (length es) - 1 < first" using lst first len by (simp add: word_less_nat_alt)
    then have "MS_Append es ms = Some ms" using es(1) by (simp add: MS_Append_def first hd)
    with True wf show ?thesis by simp
  next
    case False
    then have nlt: "\<not> eIndex e0 + word_of_nat (length es) - 1 < first" using lst first len by (simp add: word_less_nat_alt)
    let ?es = "drop (n' - n) es"
    have ne: "?es \<noteq> []" using False len by (auto simp: n'_def max_def split: if_splits)
    have cont: "contig n' ?es" using contig_drop [OF es(2), of "n' - n"] False by (simp add: n'_def split: if_splits)
    have cut: "(if first > eIndex e0 then slice_of es (unat (first - eIndex e0)) (length es) else Some es) = Some ?es"
    proof (cases "first > eIndex e0")
      case True
      then have "unat (first - eIndex e0) = n' - n" "n' - n \<le> length es"
        using first hd False by (auto simp: unat_minus_le word_less_nat_alt word_le_nat_alt n'_def)
      with True show ?thesis by (simp add: slice_of_def)
    next
      case gt: False
      then have "n' = n" using first hd by (simp add: n'_def word_less_nat_alt max_def)
      with gt show ?thesis by simp
    qed
    obtain e1 where e1: "idx ?es 0 = Some e1" "unat (eIndex e1) = n'"
      using contig_eIndex_hd [OF cont ne] by auto
    have off: "unat (eIndex e1 - eIndex d) = n' - b"
      using e1 b by (subst unat_minus_le) (auto simp: word_le_nat_alt n'_def)
    have wl: "unat (word_of_nat (length (d # xs)) :: u64) = length (d # xs)"
      using wf by (intro unat_of_nat_small) (simp add: ms_wf_def ents)
    have le: "n' - b \<le> length (d # xs)" "1 \<le> n' - b" using n last by (auto simp: n'_def)
    let ?ms' = "ms\<lparr>msEnts := take (n' - b) (d # xs) @ ?es\<rparr>"
    have "MS_Append es ms = Some ?ms'"
    proof (cases "n' - b = length (d # xs)")
      case True
      then have "\<not> word_of_nat (length (d # xs)) > eIndex e1 - eIndex d"
        "word_of_nat (length (d # xs)) = eIndex e1 - eIndex d"
        using wl off by (simp_all only: word_less_nat_alt word_eq_nat)
      moreover have "take (n' - b) (d # xs) = d # xs" using True by (intro take_all) simp
      ultimately show ?thesis
        using es(1) nlt cut e1(1) by (simp add: MS_Append_def first hd ms_offset_eq [OF wf] ents del: slice_of_Some idx_Some)
    next
      case False
      then have "word_of_nat (length (d # xs)) > eIndex e1 - eIndex d"
        using wl off le by (simp only: word_less_nat_alt)
      moreover have "slice_of (d # xs) 0 (unat (eIndex e1 - eIndex d)) = Some (take (n' - b) (d # xs))"
        unfolding off using le by (simp add: slice_of_def)
      ultimately show ?thesis
        using es(1) nlt cut e1(1) by (simp add: MS_Append_def first hd ms_offset_eq [OF wf] ents del: slice_of_Some idx_Some)
    qed
    moreover have take: "take (n' - b) (d # xs) = d # take (n' - b - 1) xs" using le by (cases "n' - b") auto
    moreover have "ms_view ?ms' = alAppend n' ?es (ms_view ms)"
      using b take by (simp add: ms_view_def ents alAppend_def)
    moreover have "ms_wf ?ms'"
    proof -
      have "contig b (d # xs)" using wf b by (simp add: ms_wf_def ents)
      then have "contig b (take (n' - b) (d # xs))" by (rule contig_take)
      moreover have "b + length (take (n' - b) (d # xs)) = n'" using le by simp
      ultimately have c: "contig b (take (n' - b) (d # xs) @ ?es)" using cont by (simp add: contig_append)
      define E where "E = take (n' - b) (d # xs) @ ?es"
      have "b + length E = n' + length ?es" using le unfolding E_def by simp
      moreover have "n' + length ?es = n + length es" using False by (auto simp: n'_def)
      ultimately have "b + length E = n + length es" by simp
      moreover have "E \<noteq> []" "hd E = d" by (simp_all add: E_def take)
      ultimately have "ms_wf (ms\<lparr>msEnts := E\<rparr>)" using bound b c [folded E_def] by (simp add: ms_wf_def)
      then show ?thesis by (simp add: E_def)
    qed
    ultimately show ?thesis using False by simp
  qed
qed

lemma MS_Compact_eq:
  assumes wf: "ms_wf ms" and i: "alBase (ms_view ms) < unat i" "unat i \<le> alLast (ms_view ms)"
  shows "\<exists>ms'. MS_Compact i ms = Some (None, ms') \<and> ms_wf ms' \<and> msSnapshot ms' = msSnapshot ms
    \<and> ms_view ms' = \<lparr>alBase = unat i, alBaseTerm = alTerm (ms_view ms) (unat i),
         alEnts = drop (unat i - alBase (ms_view ms)) (alEnts (ms_view ms))\<rparr>"
proof -
  obtain d xs where ents: "msEnts ms = d # xs" using wf by (cases "msEnts ms") (auto simp: ms_wf_def)
  let ?b = "unat (eIndex d)"
  have b: "alBase (ms_view ms) = ?b" "alEnts (ms_view ms) = xs" "alBaseTerm (ms_view ms) = eTerm d"
    by (simp_all add: ms_view_def ents)
  obtain li where li: "ms_lastIndex ms = Some li" "unat li = alLast (ms_view ms)"
    using storage.last_eq [OF wf] by auto
  have off: "unat (i - eIndex d) = unat i - ?b" using i by (intro unat_minus_le) (simp add: word_le_nat_alt b)
  let ?k = "unat i - ?b"
  have k: "?k < length (d # xs)" "0 < ?k" using i by (auto simp: alLast_def b)
  then have nth: "(d # xs) ! ?k = xs ! (?k - 1)" by (simp add: nth_Cons')
  have c: "contig ?b (d # xs)" using wf by (simp add: ms_wf_def ents)
  have ix: "unat (eIndex (xs ! (?k - 1))) = unat i" using contig_nth [OF c k(1)] nth i b by simp
  let ?ms' = "ms\<lparr>msEnts := zeroEntry\<lparr>eIndex := eIndex (xs ! (?k - 1)), eTerm := eTerm (xs ! (?k - 1))\<rparr> # drop ?k xs\<rparr>"
  have "\<not> i \<le> eIndex d" "\<not> i > li" using i li b by (auto simp: word_le_nat_alt word_less_nat_alt)
  moreover have "slice_of (d # xs) (?k + 1) (length (d # xs)) = Some (drop ?k xs)" using k by (simp add: slice_of_def)
  moreover have "idx (d # xs) ?k = Some (xs ! (?k - 1))" using k nth by (simp add: idx_def)
  ultimately have "MS_Compact i ms = Some (None, ?ms')"
    by (simp add: MS_Compact_def ms_offset_eq [OF wf] ents li off Let_def del: slice_of_Some idx_Some)
  moreover have "ms_wf ?ms'"
  proof -
    have "contig (?b + (?k + 1)) (drop (?k + 1) (d # xs))" using k by (intro contig_drop [OF c]) simp
    then have "contig (unat i + 1) (drop ?k xs)" using i b by simp
    then show ?thesis using wf i b by (simp add: ms_wf_def ents contig_Cons ix [simplified] alLast_def)
  qed
  moreover have "ms_view ?ms' = \<lparr>alBase = unat i, alBaseTerm = alTerm (ms_view ms) (unat i), alEnts = drop ?k xs\<rparr>"
    using i b by (simp add: ms_view_def alTerm_def ents ix [simplified])
  ultimately show ?thesis using b by simp
qed

lemma MS_ApplySnapshot_eq:
  assumes "smIndex (sMetadata (msSnapshot ms)) < smIndex (sMetadata s)"
    and "unat (smIndex (sMetadata s)) + 2 < 18446744073709551616"
  shows "\<exists>ms'. MS_ApplySnapshot s ms = (None, ms') \<and> ms_wf ms' \<and> msSnapshot ms' = s
    \<and> ms_view ms' = \<lparr>alBase = unat (smIndex (sMetadata s)), alBaseTerm = smTerm (sMetadata s), alEnts = []\<rparr>"
  using assms by (simp add: MS_ApplySnapshot_def ms_wf_def ms_view_def contig_Cons Let_def not_le)

text \<open>Marking a prefix of the unstable entries as stable.\<close>

lemma stableTo_eq:
  assumes c: "contig (unat (uOffset (rlUnstable l))) (uEntries (rlUnstable l))"
    and bound: "unat (uOffset (rlUnstable l)) + length (uEntries (rlUnstable l)) + 1 < 18446744073709551616"
    and k: "k < length (uEntries (rlUnstable l))" and i: "unat i = unat (uOffset (rlUnstable l)) + k"
    and t: "t = eTerm (uEntries (rlUnstable l) ! k)"
  shows "stableTo i t l = Some (l\<lparr>rlUnstable := (rlUnstable l)\<lparr>uEntries := drop (k + 1) (uEntries (rlUnstable l)), uOffset := i + 1\<rparr>\<rparr>)"
proof -
  let ?u = "rlUnstable l"
  have lst: "unat (uOffset ?u + word_of_nat (length (uEntries ?u)) - 1) = unat (uOffset ?u) + length (uEntries ?u) - 1"
    using bound k by (intro unat_plus_len_minus_one) auto
  have d: "unat (i - uOffset ?u) = k" using i by (subst unat_minus_le) (auto simp: word_le_nat_alt)
  have i1: "unat (i + 1) = unat i + 1" using bound k i unat_plus_len [of i 1] by simp
  have d1: "unat (i + 1 - uOffset ?u) = k + 1" using i i1 by (subst unat_minus_le) (auto simp: word_le_nat_alt)
  have "\<not> i < uOffset ?u" "uOffset ?u \<le> i" "\<not> i > uOffset ?u + word_of_nat (length (uEntries ?u)) - 1"
    using i k by (auto simp: word_less_nat_alt word_le_nat_alt lst)
  moreover from this have "maybeTerm ?u i = Some (Some t)"
    using k t by (auto simp: maybeTerm_def maybeLastIndex_def d idx_def)
  ultimately have "unstable_stableTo i t ?u = Some (shrinkEntriesArray (?u\<lparr>uEntries := drop (k + 1) (uEntries ?u), uOffset := i + 1\<rparr>))"
    using k by (simp add: unstable_stableTo_def d1 slice_of_def del: slice_of_Some idx_Some)
  moreover have "shrinkEntriesArray x = x" for x by (cases x) (simp add: shrinkEntriesArray_def)
  ultimately show ?thesis by (simp add: stableTo_def)
qed

end
