(* ===== verification/RaftFrame.thy ===== *)
theory RaftFrame
  imports RawNode LogView
begin

text \<open>
  What the parts of the raft state machine do to the state and leave alone: the results of
  sending, of reset and the role changes, of appending, committing and restoring a snapshot,
  and what sending through any of the loops keeps.
\<close>

section \<open>Frame facts\<close>

lemma send_SomeE:
  assumes "send m r = Some r'"
  obtains m' where "r' = r\<lparr>rMsgs := rMsgs r @ [m']\<rparr>"
    "m' = m\<lparr>mFrom := rId r\<rparr> \<or> m' = m\<lparr>mFrom := rId r, mTerm := rTerm r\<rparr>"
  using assms by (auto simp: send_def Let_def split: if_splits)

lemma put_pr_fields [simp]:
  "rId (put_pr i pr r) = rId r" "rTerm (put_pr i pr r) = rTerm r" "rVote (put_pr i pr r) = rVote r"
  "rReadStates (put_pr i pr r) = rReadStates r"
  "rLog (put_pr i pr r) = rLog r" "rState (put_pr i pr r) = rState r" "rMsgs (put_pr i pr r) = rMsgs r"
  "rLead (put_pr i pr r) = rLead r" "rLeadTransferee (put_pr i pr r) = rLeadTransferee r"
  "rPendingConfIndex (put_pr i pr r) = rPendingConfIndex r"
  "rUncommittedSize (put_pr i pr r) = rUncommittedSize r" "rReadOnly (put_pr i pr r) = rReadOnly r"
  "rTick (put_pr i pr r) = rTick r" "rStep (put_pr i pr r) = rStep r"
  "rMaxMsgSize (put_pr i pr r) = rMaxMsgSize r" "rMaxUncommittedSize (put_pr i pr r) = rMaxUncommittedSize r"
  "rElectionTimeout (put_pr i pr r) = rElectionTimeout r"
  "rHeartbeatTimeout (put_pr i pr r) = rHeartbeatTimeout r"
  "rRandomizedElectionTimeout (put_pr i pr r) = rRandomizedElectionTimeout r"
  "rElectionElapsed (put_pr i pr r) = rElectionElapsed r"
  "rHeartbeatElapsed (put_pr i pr r) = rHeartbeatElapsed r"
  "rCheckQuorum (put_pr i pr r) = rCheckQuorum r" "rPreVote (put_pr i pr r) = rPreVote r"
  "rDisableProposalForwarding (put_pr i pr r) = rDisableProposalForwarding r"
  "rIsLearner (put_pr i pr r) = rIsLearner r" "rDraws (put_pr i pr r) = rDraws r"
  "trkConfig (rPrs (put_pr i pr r)) = trkConfig (rPrs r)"
  "trkVotes (rPrs (put_pr i pr r)) = trkVotes (rPrs r)"
  "trkMaxInflight (rPrs (put_pr i pr r)) = trkMaxInflight (rPrs r)"
  "trkProgress (rPrs (put_pr i pr r)) = fmupd i pr (trkProgress (rPrs r))"
  by (simp_all add: put_pr_def)

lemma get_put_pr [simp]: "get_pr j (put_pr i pr r) = (if j = i then Some pr else get_pr j r)"
  by (simp add: get_pr_def)

text \<open>What reset does to the progress of the peers.\<close>

definition reset_progress :: "u64 \<Rightarrow> u64 \<Rightarrow> int \<Rightarrow> u64 \<Rightarrow> Progress \<Rightarrow> Progress" where
  "reset_progress me li n i pr = \<lparr>prMatch = (if i = me then li else 0), prNext = li + 1, prState = StateProbe,
     prPendingSnapshot = 0, prRecentActive = False, prProbeSent = False, prInflights = NewInflights n,
     prIsLearner = prIsLearner pr\<rparr>"

lemma reset_visit:
  assumes "distinct ids"
    and "foldM (\<lambda>i s.
           do {
             pr \<leftarrow> get_pr i s;
             li \<leftarrow> lastIndex (rLog s);
             let pr = \<lparr>prMatch = 0, prNext = li + 1, prState = StateProbe, prPendingSnapshot = 0,
               prRecentActive = False, prProbeSent = False,
               prInflights = NewInflights (trkMaxInflight (rPrs s)), prIsLearner = prIsLearner pr\<rparr>;
             let pr = (if i = rId s then pr\<lparr>prMatch := li\<rparr> else pr);
             Some (put_pr i pr s)
           }) ids r = Some r'"
    and "\<And>x. lastIndex (rLog r) = Some x \<Longrightarrow> x = li"
  shows "\<exists>m. r' = r\<lparr>rPrs := (rPrs r)\<lparr>trkProgress := m\<rparr>\<rparr> \<and> (\<forall>k. fmlookup m k =
     (if k \<in> set ids then map_option (reset_progress (rId r) li (trkMaxInflight (rPrs r)) k) (get_pr k r)
      else get_pr k r))"
  using assms
proof (induction ids arbitrary: r)
  case Nil
  then show ?case by (intro exI [of _ "trkProgress (rPrs r)"]) (simp add: get_pr_def)
next
  case (Cons i ids)
  from Cons.prems(2,3) obtain pr where pr: "get_pr i r = Some pr"
    and rest: "foldM (\<lambda>i s.
           do {
             pr \<leftarrow> get_pr i s;
             li \<leftarrow> lastIndex (rLog s);
             let pr = \<lparr>prMatch = 0, prNext = li + 1, prState = StateProbe, prPendingSnapshot = 0,
               prRecentActive = False, prProbeSent = False,
               prInflights = NewInflights (trkMaxInflight (rPrs s)), prIsLearner = prIsLearner pr\<rparr>;
             let pr = (if i = rId s then pr\<lparr>prMatch := li\<rparr> else pr);
             Some (put_pr i pr s)
           }) ids (put_pr i (reset_progress (rId r) li (trkMaxInflight (rPrs r)) i pr) r) = Some r'"
    by (auto simp: reset_progress_def Let_def split: if_splits)
  from Cons.IH [OF _ rest] Cons.prems(1,3) obtain m where
    m: "r' = (put_pr i (reset_progress (rId r) li (trkMaxInflight (rPrs r)) i pr) r)
          \<lparr>rPrs := (rPrs (put_pr i (reset_progress (rId r) li (trkMaxInflight (rPrs r)) i pr) r))\<lparr>trkProgress := m\<rparr>\<rparr>"
    "\<And>k. fmlookup m k = (if k \<in> set ids then map_option (reset_progress (rId r) li (trkMaxInflight (rPrs r)) k)
        (get_pr k (put_pr i (reset_progress (rId r) li (trkMaxInflight (rPrs r)) i pr) r))
      else get_pr k (put_pr i (reset_progress (rId r) li (trkMaxInflight (rPrs r)) i pr) r))"
    by (auto simp del: get_put_pr)
  show ?case
    using Cons.prems(1) pr by (intro exI [of _ m]) (auto simp: m(1) m(2) put_pr_def get_pr_def)
qed

text \<open>The state after reset.\<close>

definition reset_prs :: "u64 \<Rightarrow> raft \<Rightarrow> ProgressTracker" where
  "reset_prs li r = (rPrs r)\<lparr>trkVotes := fmempty,
     trkProgress := fmmap_keys (reset_progress (rId r) li (trkMaxInflight (rPrs r))) (trkProgress (rPrs r))\<rparr>"

lemma reset_SomeE:
  assumes "reset t r = Some r'"
  obtains li d where "0 < rElectionTimeout r"
    "\<And>x. lastIndex (rLog r) = Some x \<Longrightarrow> x = li"
    "trkProgress (rPrs r) \<noteq> fmempty \<Longrightarrow> lastIndex (rLog r) = Some li"
    "rElectionTimeout r \<le> d" "d < 2 * rElectionTimeout r"
    "r' = r\<lparr>rTerm := t, rVote := (if rTerm r = t then rVote r else 0), rLead := 0, rElectionElapsed := 0,
       rHeartbeatElapsed := 0, rRandomizedElectionTimeout := d, rDraws := (\<lambda>k. rDraws r (Suc k)),
       rLeadTransferee := 0, rPrs := reset_prs li r, rPendingConfIndex := 0, rUncommittedSize := 0,
       rReadOnly := newReadOnly (roOption (rReadOnly r))\<rparr>"
proof -
  define li where "li = (case lastIndex (rLog r) of Some x \<Rightarrow> x | None \<Rightarrow> 0)"
  define r1 where "r1 = r\<lparr>rTerm := t, rVote := (if rTerm r = t then rVote r else 0), rLead := 0, rElectionElapsed := 0,
       rHeartbeatElapsed := 0, rRandomizedElectionTimeout := rElectionTimeout r + int (rDraws r 0) mod rElectionTimeout r,
       rDraws := (\<lambda>k. rDraws r (Suc k)), rLeadTransferee := 0, rPrs := ResetVotes (rPrs r)\<rparr>"
  from assms obtain r2 where pos: "0 < rElectionTimeout r"
    and v: "foldM (\<lambda>i s.
           do {
             pr \<leftarrow> get_pr i s;
             li \<leftarrow> lastIndex (rLog s);
             let pr = \<lparr>prMatch = 0, prNext = li + 1, prState = StateProbe, prPendingSnapshot = 0,
               prRecentActive = False, prProbeSent = False,
               prInflights = NewInflights (trkMaxInflight (rPrs s)), prIsLearner = prIsLearner pr\<rparr>;
             let pr = (if i = rId s then pr\<lparr>prMatch := li\<rparr> else pr);
             Some (put_pr i pr s)
           }) (visit_ids (rPrs r1)) r1 = Some r2"
    and r': "r' = r2\<lparr>rPendingConfIndex := 0, rUncommittedSize := 0, rReadOnly := newReadOnly (roOption (rReadOnly r2))\<rparr>"
    by (auto simp: reset_def resetRandomizedElectionTimeout_def Visit_def abortLeaderTransfer_def None_id_def
        r1_def Let_def cong: if_cong simp del: visit_ids_eq split: if_splits)
  have li: "x = li" if "lastIndex (rLog r) = Some x" for x using that by (simp add: li_def)
  from reset_visit [OF _ v, of li] obtain m where
    m: "r2 = r1\<lparr>rPrs := (rPrs r1)\<lparr>trkProgress := m\<rparr>\<rparr>"
      "\<And>k. fmlookup m k = (if k \<in> set (visit_ids (rPrs r1))
         then map_option (reset_progress (rId r1) li (trkMaxInflight (rPrs r1)) k) (get_pr k r1) else get_pr k r1)"
    using li by (auto simp: r1_def)
  have "m = fmmap_keys (reset_progress (rId r) li (trkMaxInflight (rPrs r))) (trkProgress (rPrs r))"
  proof (rule fmap_ext)
    fix k show "fmlookup m k = fmlookup (fmmap_keys (reset_progress (rId r) li (trkMaxInflight (rPrs r))) (trkProgress (rPrs r))) k"
      by (auto simp: m(2) r1_def get_pr_def fmlookup_dom_iff)
  qed
  then have prs: "rPrs r2 = reset_prs li r" by (simp add: m(1) r1_def reset_prs_def ResetVotes_def)
  have ne: "lastIndex (rLog r) = Some li" if ne: "trkProgress (rPrs r) \<noteq> fmempty"
  proof -
    have "fmdom (trkProgress (rPrs r)) \<noteq> {||}" using ne by (metis fmrestrict_fset_dom fmrestrict_fset_null)
    then have "sorted_keys (fmdom (trkProgress (rPrs r))) \<noteq> []"
      by (metis set_sorted_keys list.set(1) bot_fset.rep_eq fset_inject)
    then obtain i ids where "visit_ids (rPrs r1) = i # ids"
      by (auto simp: r1_def neq_Nil_conv)
    with v have "\<exists>x. lastIndex (rLog r) = Some x" by (auto simp: r1_def)
    with li show ?thesis by auto
  qed
  have d: "0 \<le> int (rDraws r 0) mod rElectionTimeout r" "int (rDraws r 0) mod rElectionTimeout r < rElectionTimeout r"
    using pos by simp_all
  show thesis
    by (rule that [OF pos li ne, of "rElectionTimeout r + int (rDraws r 0) mod rElectionTimeout r"])
      (use d prs in \<open>simp_all add: r' m(1) r1_def\<close>)
qed


lemma becomeFollower_fields:
  assumes "becomeFollower t l r = Some r'"
  shows "rTerm r' = t" "rVote r' = (if rTerm r = t then rVote r else 0)" "rLead r' = l" "rState r' = StateFollower"
    "rStep r' = StepFollower" "rTick r' = TickElection" "rLog r' = rLog r" "rId r' = rId r" "rMsgs r' = rMsgs r"
    "trkConfig (rPrs r') = trkConfig (rPrs r)" "rElectionElapsed r' = 0"
  using assms by (auto simp: becomeFollower_def reset_prs_def elim!: reset_SomeE)

lemma becomeCandidate_fields:
  assumes "becomeCandidate r = Some r'"
  shows "rTerm r' = rTerm r + 1" "rVote r' = rId r" "rLead r' = 0" "rState r' = StateCandidate"
    "rStep r' = StepCandidate" "rTick r' = TickElection" "rLog r' = rLog r" "rId r' = rId r" "rMsgs r' = rMsgs r"
    "trkConfig (rPrs r') = trkConfig (rPrs r)"
  using assms by (auto simp: becomeCandidate_def reset_prs_def elim!: reset_SomeE)

lemma becomePreCandidate_fields:
  assumes "becomePreCandidate r = Some r'"
  shows "rTerm r' = rTerm r" "rVote r' = rVote r" "rState r' = StatePreCandidate" "rLog r' = rLog r" "rId r' = rId r"
    "rStep r' = StepCandidate" "trkConfig (rPrs r') = trkConfig (rPrs r)" "rMsgs r' = rMsgs r"
  using assms by (auto simp: becomePreCandidate_def)

lemma poll_fields [simp]:
  "rTerm (fst (poll i v r)) = rTerm r" "rVote (fst (poll i v r)) = rVote r" "rLog (fst (poll i v r)) = rLog r"
  "rId (fst (poll i v r)) = rId r" "rState (fst (poll i v r)) = rState r" "rStep (fst (poll i v r)) = rStep r"
  "trkConfig (rPrs (fst (poll i v r))) = trkConfig (rPrs r)" "rMsgs (fst (poll i v r)) = rMsgs r"
  by (simp_all add: poll_def split: prod.split)

lemma poll_eq: "poll i v r = (r\<lparr>rPrs := RecordVote i v (rPrs r)\<rparr>,
    Joint_VoteResult (Voters (trkConfig (rPrs r))) (trkVotes (RecordVote i v (rPrs r))))"
  using TallyVotes_result [of "RecordVote i v (rPrs r)"]
  by (cases "TallyVotes (RecordVote i v (rPrs r))") (simp add: poll_def)

text \<open>The loop over the proposals only moves the pending index of the configuration change.\<close>

lemma propLoop_pending:
  "propLoop i es r = Some (es', r') \<Longrightarrow> length es' = length es \<and> r' = r\<lparr>rPendingConfIndex := rPendingConfIndex r'\<rparr>"
proof (induction es arbitrary: i r es')
  case (Cons e es)
  from Cons.prems obtain occ e1 r1 es1 where s: "entryConfChange e = Some occ"
    "propLoop (i + 1) es r1 = Some (es1, r')" "es' = e1 # es1" "\<exists>p. r1 = r\<lparr>rPendingConfIndex := p\<rparr>"
    by (fastforce simp: Let_def split: option.splits if_splits intro: exI [of _ "rPendingConfIndex r"])
  with Cons.IH [OF s(2)] show ?case by auto
qed simp

text \<open>switchToConfig: installing the configuration, and what a leader does after it.\<close>

definition switched :: "Config \<Rightarrow> ProgressMap \<Rightarrow> raft \<Rightarrow> raft" where
  "switched cfg prs r = r\<lparr>rPrs := (rPrs r)\<lparr>trkConfig := cfg, trkProgress := prs\<rparr>,
     rIsLearner := (case fmlookup prs (rId r) of None \<Rightarrow> False | Some pr \<Rightarrow> prIsLearner pr)\<rparr>"

definition switchSend :: "raft \<Rightarrow> raft option" where
  "switchSend r =
     do {
       (r, committed) \<leftarrow> maybeCommit r;
       r \<leftarrow> (if committed then bcastAppend r
             else Visit (\<lambda>i s. do { (s, _) \<leftarrow> maybeSendAppend i False s; Some s }) r);
       Some (if get_pr (rLeadTransferee r) r = None \<and> rLeadTransferee r \<noteq> 0 then abortLeaderTransfer r else r)
     }"

lemma switchToConfig_Some:
  assumes "switchToConfig cfg prs r = Some (r', cs)"
  shows "cs = Tracker_ConfState (rPrs (switched cfg prs r))"
    "r' = switched cfg prs r \<or> rState r = StateLeader \<and> switchSend (switched cfg prs r) = Some r'"
proof -
  let ?s = "switched cfg prs r"
  have "cs = Tracker_ConfState (rPrs ?s) \<and> (r' = ?s \<or> rState r = StateLeader \<and> switchSend ?s = Some r')"
  proof (cases "((get_pr (rId r) (r\<lparr>rPrs := (rPrs r)\<lparr>trkConfig := cfg, trkProgress := prs\<rparr>\<rparr>) = None \<or> rIsLearner ?s)
      \<and> rState r = StateLeader) \<or> rState r \<noteq> StateLeader \<or> length (csVoters (Tracker_ConfState (rPrs ?s))) = 0")
    case True
    with assms show ?thesis unfolding switchToConfig_def Let_def
      by (auto simp: get_pr_def switched_def split: if_splits)
  next
    case False
    then have "rState r = StateLeader" by simp
    moreover have "\<exists>x. maybeCommit ?s = Some x" and "switchSend ?s = Some r'" and "cs = Tracker_ConfState (rPrs ?s)"
      using assms False unfolding switchToConfig_def Let_def switchSend_def
      by (auto simp: get_pr_def switched_def split: if_splits)
    ultimately show ?thesis by simp
  qed
  then show "cs = Tracker_ConfState (rPrs ?s)" "r' = ?s \<or> rState r = StateLeader \<and> switchSend ?s = Some r'"
    by auto
qed

section \<open>Updates without a part in the relations\<close>

text \<open>Fields without a part in the relations of this development: a change of them alone.\<close>

definition soft_eq :: "raft \<Rightarrow> raft \<Rightarrow> bool" where
  "soft_eq r r' \<longleftrightarrow> r' = r\<lparr>rReadStates := rReadStates r', rLeadTransferee := rLeadTransferee r',
     rPendingConfIndex := rPendingConfIndex r', rUncommittedSize := rUncommittedSize r',
     rReadOnly := rReadOnly r', rElectionElapsed := rElectionElapsed r',
     rHeartbeatElapsed := rHeartbeatElapsed r'\<rparr> \<and> roOption (rReadOnly r') = roOption (rReadOnly r)"

text \<open>What every update of a progress record between two resets keeps.\<close>

definition progress_step :: "Progress \<Rightarrow> Progress \<Rightarrow> bool" where
  "progress_step pr pr' \<longleftrightarrow> prIsLearner pr' = prIsLearner pr \<and> prMatch pr \<le> prMatch pr'
     \<and> (progress_wf pr \<longrightarrow> progress_wf pr')"

lemma progress_step_refl [simp, intro]: "progress_step pr pr"
  by (simp add: progress_step_def)

lemma progress_step_trans: "progress_step a b \<Longrightarrow> progress_step b c \<Longrightarrow> progress_step a c"
  by (auto simp: progress_step_def)

lemma progress_step_flags [simp]:
  "progress_step pr (pr\<lparr>prRecentActive := a\<rparr>)" "progress_step pr (pr\<lparr>prProbeSent := b\<rparr>)"
  "progress_step pr (pr\<lparr>prRecentActive := a, prProbeSent := b\<rparr>)"
  "progress_step pr (pr\<lparr>prPendingSnapshot := p\<rparr>)"
  by (simp_all add: progress_step_def progress_wf_def)

lemma progress_step_become [simp]:
  "progress_step pr (BecomeProbe pr)" "progress_step pr (BecomeReplicate pr)"
  "progress_step pr (BecomeSnapshot i pr)" "progress_step pr (OptimisticUpdate i pr)"
  by (auto simp: progress_step_def progress_wf_become) (simp_all add: progress_defs progress_wf_def)

lemma progress_step_updates:
  "MaybeUpdate n pr = (pr', b) \<Longrightarrow> progress_step pr pr'"
  "MaybeDecrTo x l pr = (pr', b) \<Longrightarrow> progress_step pr pr'"
  using MaybeUpdate_simps [of n pr pr' b] MaybeDecrTo_simps [of x l pr pr' b]
  by (auto simp: progress_step_def progress_wf_def)

lemma progress_step_inflights:
  assumes "inflights_wf (prInflights pr) \<Longrightarrow> inflights_wf ins"
  shows "progress_step pr (pr\<lparr>prInflights := ins\<rparr>)"
  using assms by (simp add: progress_step_def progress_wf_def)


section \<open>Shapes of the results\<close>

lemma commitTo_Some: "commitTo t l = Some l' \<Longrightarrow> l' = l\<lparr>rlCommitted := max (rlCommitted l) t\<rparr>"
  by (auto simp: commitTo_def max_def split: if_splits)

lemma raftLog_append_Some: "raftLog_append es l = Some (l', i) \<Longrightarrow> \<exists>u. l' = l\<lparr>rlUnstable := u\<rparr>"
  by (auto simp: raftLog_append_def Let_def split: if_splits intro: exI [of _ "rlUnstable l"])

lemma maybeAppend_Some:
  assumes "maybeAppend i t c es l = Some (l', li, ok)"
  shows "\<exists>u c'. l' = l\<lparr>rlUnstable := u, rlCommitted := c'\<rparr> \<and> rlCommitted l \<le> c'"
proof -
  from assms consider "l' = l" | "commitTo (min c (i + word_of_nat (length es))) l = Some l'"
    | l1 es' li' where "commitTo (min c (i + word_of_nat (length es))) l1 = Some l'" "raftLog_append es' l = Some (l1, li')"
    by (auto simp: maybeAppend_def Let_def split: if_splits)
  then show ?thesis
  proof cases
    case 1
    then show ?thesis by (intro exI [of _ "rlUnstable l"] exI [of _ "rlCommitted l"]) simp
  next
    case 2
    from commitTo_Some [OF this] show ?thesis by (intro exI [of _ "rlUnstable l"]) auto
  next
    case (3 l1)
    then obtain u where "l1 = l\<lparr>rlUnstable := u\<rparr>" by (auto dest: raftLog_append_Some)
    with commitTo_Some [OF 3(1)] show ?thesis
      by (intro exI [of _ u] exI [of _ "max (rlCommitted l) (min c (i + word_of_nat (length es)))"]) simp
  qed
qed

lemma maybeCommit_Some:
  assumes "maybeCommit r = Some (r', b)"
  shows "r' = (if b then r\<lparr>rLog := (rLog r)\<lparr>rlCommitted := Tracker_Committed (rPrs r)\<rparr>\<rparr> else r)"
    "b \<Longrightarrow> rlCommitted (rLog r) < Tracker_Committed (rPrs r)"
  using assms by (auto simp: maybeCommit_def raftLog_maybeCommit_def Let_def max_def dest!: commitTo_Some split: if_splits)

lemma appendEntry_Some:
  assumes "appendEntry es r = Some (r', ok)"
  obtains (refused) "\<not> ok" "r' = r"
  | (appended) li l i pr r1 b where "ok" "lastIndex (rLog r) = Some li"
      "raftLog_append (stamp (rTerm r) (li + 1) es) (rLog r) = Some (l, i)"
      "get_pr (rId r) r = Some pr"
      "r1 = put_pr (rId r) (fst (MaybeUpdate i pr))
        (r\<lparr>rUncommittedSize := rUncommittedSize r + payloads (stamp (rTerm r) (li + 1) es), rLog := l\<rparr>)"
      "maybeCommit r1 = Some (r', b)"
  using assms by (auto simp: appendEntry_def increaseUncommittedSize_def Let_def get_pr_def split: if_splits)

lemma maybeSendAppend_cases:
  assumes "maybeSendAppend to se r = Some (r', x)"
  obtains (quiet) "\<not> x" "r' = r"
  | (entries) pr pr' t es where "x" "get_pr to r = Some pr" "\<not> IsPaused pr" "progress_step pr pr'"
      "raftLog_term (rLog r) (prNext pr - 1) = Some (Inr t)"
      "raftLog_entries (rLog r) (prNext pr) (rMaxMsgSize r) = Some (Inr es)"
      "es = [] \<longrightarrow> se \<and> pr' = pr"
      "es \<noteq> [] \<longrightarrow> prState pr = StateProbe \<and> pr' = pr\<lparr>prProbeSent := True\<rparr>
        \<or> prState pr = StateReplicate \<and> prNext pr' = eIndex (last es) + 1"
      "send (zeroMessage\<lparr>mTo := to, mType := MsgApp, mIndex := prNext pr - 1, mLogTerm := t, mEntries := es,
         mCommit := rlCommitted (rLog r)\<rparr>) (put_pr to pr' r) = Some r'"
  | (snapshot) pr s where "x" "get_pr to r = Some pr" "\<not> IsPaused pr" "prRecentActive pr"
      "raftLog_snapshot (rLog r) = Inr s" "\<not> IsEmptySnap s"
      "send (zeroMessage\<lparr>mTo := to, mType := MsgSnap, mSnapshot := s\<rparr>)
        (put_pr to (BecomeSnapshot (smIndex (sMetadata s)) pr) r) = Some r'"
proof -
  from assms obtain pr where pr: "get_pr to r = Some pr" by (auto simp: maybeSendAppend_def)
  show thesis
  proof (cases "IsPaused pr")
    case True
    with assms pr quiet show thesis by (simp add: maybeSendAppend_def)
  next
    case False
    with assms pr obtain t es where t: "raftLog_term (rLog r) (prNext pr - 1) = Some t"
      and es: "raftLog_entries (rLog r) (prNext pr) (rMaxMsgSize r) = Some es"
      and rest: "(if (case es of Inr es \<Rightarrow> length es | Inl _ \<Rightarrow> 0) = 0 \<and> \<not> se then Some (r, False)
         else (case (t, es) of
             (Inr t, Inr es) \<Rightarrow> sendEntries to pr t es (zeroMessage\<lparr>mTo := to\<rparr>) r
           | _ \<Rightarrow> sendSnapshot to pr (zeroMessage\<lparr>mTo := to\<rparr>) r)) = Some (r', x)"
      unfolding maybeSendAppend_def Let_def by auto
    show thesis
    proof (cases "(case es of Inr es \<Rightarrow> length es | Inl _ \<Rightarrow> 0) = 0 \<and> \<not> se")
      case True
      with rest quiet show thesis by simp
    next
      case sends: False
      show thesis
      proof (cases "\<exists>t' es'. t = Inr t' \<and> es = Inr es'")
        case True
        then obtain t' es' where te: "t = Inr t'" "es = Inr es'" by auto
        with rest sends have s: "sendEntries to pr t' es' (zeroMessage\<lparr>mTo := to\<rparr>) r = Some (r', x)" by (auto split: if_splits)
        have inf: "prInflights (OptimisticUpdate j pr) = prInflights pr" for j by (simp add: OptimisticUpdate_def)
        from s obtain pr' where pr': "(if length es' \<noteq> 0 then
                (case prState pr of
                   StateReplicate \<Rightarrow> do {
                       ins \<leftarrow> Inflights_Add (prInflights pr) (eIndex (last es'));
                       Some ((OptimisticUpdate (eIndex (last es')) pr)\<lparr>prInflights := ins\<rparr>) }
                 | StateProbe \<Rightarrow> Some (pr\<lparr>prProbeSent := True\<rparr>)
                 | StateSnapshot \<Rightarrow> None)
              else Some pr) = Some pr'" and x
          and snd: "send (zeroMessage\<lparr>mTo := to, mType := MsgApp, mIndex := prNext pr - 1, mLogTerm := t', mEntries := es',
                 mCommit := rlCommitted (rLog r)\<rparr>) (put_pr to pr' r) = Some r'"
          unfolding sendEntries_def Let_def inf by auto
        have st: "progress_step pr pr'"
        proof -
          have "progress_step pr ((OptimisticUpdate j pr)\<lparr>prInflights := ins\<rparr>)"
            if "Inflights_Add (prInflights pr) j = Some ins" "prState pr = StateReplicate" for ins j
          proof -
            have "inflights_wf ins" if "inflights_wf (prInflights pr)"
              using Add_correct [OF that, of j] False \<open>Inflights_Add (prInflights pr) j = Some ins\<close> \<open>prState pr = StateReplicate\<close>
              by (auto simp: IsPaused_def)
            then show ?thesis by (simp add: progress_step_def progress_wf_def OptimisticUpdate_def)
          qed
          then show ?thesis using pr' by (auto split: if_splits ProgressState.splits)
        qed
        show thesis
          by (rule entries [OF \<open>x\<close> pr False st t [unfolded te] es [unfolded te] _ _ snd])
            (use pr' sends te in \<open>auto simp: OptimisticUpdate_def split: if_splits ProgressState.splits\<close>)
      next
        case False
        with rest sends have "sendSnapshot to pr (zeroMessage\<lparr>mTo := to\<rparr>) r = Some (r', x)"
          by (auto split: sum.splits if_splits)
        with pr \<open>\<not> IsPaused pr\<close> quiet snapshot show thesis
          by (auto simp: sendSnapshot_def Let_def split: if_splits sum.splits)
      qed
    qed
  qed
qed

lemma restore_True:
  assumes "restore s r = Some (r', True)"
  obtains cfg prs li cs pr where
    "rlCommitted (rLog r) < smIndex (sMetadata s)" "rState r = StateFollower"
    "Restore \<lparr>chTracker = MakeProgressTracker (trkMaxInflight (rPrs r)), chLastIndex = li\<rparr>
       (smConfState (sMetadata s)) = Some (Inr (cfg, prs))"
    "fmlookup prs (rId r) = Some pr"
    "assertConfStatesEquivalent (smConfState (sMetadata s)) cs = Some ()"
    "r' = put_pr (rId r) (fst (MaybeUpdate (prNext pr - 1) pr))
       (switched cfg prs (r\<lparr>rLog := raftLog_restore s (rLog r),
          rPrs := MakeProgressTracker (trkMaxInflight (rPrs r))\<rparr>))"
    "cs = Tracker_ConfState (rPrs (switched cfg prs (r\<lparr>rLog := raftLog_restore s (rLog r),
          rPrs := MakeProgressTracker (trkMaxInflight (rPrs r))\<rparr>)))"
proof -
  let ?r = "r\<lparr>rLog := raftLog_restore s (rLog r), rPrs := MakeProgressTracker (trkMaxInflight (rPrs r))\<rparr>"
  let ?cs = "smConfState (sMetadata s)"
  from assms have f: "rlCommitted (rLog r) < smIndex (sMetadata s)" "rState r = StateFollower"
    by (auto simp: restore_def split: if_splits)
  have mt: "matchTerm (rLog r) (smIndex (sMetadata s)) (smTerm (sMetadata s)) = Some False"
    and found: "rId r \<in> set (csVoters ?cs) \<or> rId r \<in> set (csLearners ?cs)"
    using assms f by (auto simp: restore_def Let_def split: if_splits)
  have "do {
            li \<leftarrow> lastIndex (rLog ?r);
            res \<leftarrow> Restore \<lparr>chTracker = rPrs ?r, chLastIndex = li\<rparr> ?cs;
            case res of
              Inl err \<Rightarrow> None
            | Inr (cfg, prs) \<Rightarrow>
                do {
                  (r, cs') \<leftarrow> switchToConfig cfg prs ?r;
                  assertConfStatesEquivalent ?cs cs';
                  pr \<leftarrow> get_pr (rId r) r;
                  let r = put_pr (rId r) (fst (MaybeUpdate (prNext pr - 1) pr)) r;
                  _ \<leftarrow> lastTerm (rLog r);
                  Some (r, True)
                }
          } = Some (r', True)"
    using assms f found mt by (auto simp: restore_def Let_def not_le split: if_splits)
  then obtain li x where
    R0: "Restore \<lparr>chTracker = rPrs ?r, chLastIndex = li\<rparr> ?cs = Some x" and
    rest: "(case x of
              Inl err \<Rightarrow> None
            | Inr (cfg, prs) \<Rightarrow>
                do {
                  (r, cs') \<leftarrow> switchToConfig cfg prs ?r;
                  assertConfStatesEquivalent ?cs cs';
                  pr \<leftarrow> get_pr (rId r) r;
                  let r = put_pr (rId r) (fst (MaybeUpdate (prNext pr - 1) pr)) r;
                  _ \<leftarrow> lastTerm (rLog r);
                  Some (r, True)
                }) = Some (r', True)"
    by (elim bind_SomeE)
  then obtain cfg prs where x: "x = Inr (cfg, prs)" by (cases x) auto
  from R0 have R: "Restore \<lparr>chTracker = rPrs ?r, chLastIndex = li\<rparr> ?cs = Some (Inr (cfg, prs))" by (simp only: x)
  from rest have "do {
                  (r, cs') \<leftarrow> switchToConfig cfg prs ?r;
                  assertConfStatesEquivalent ?cs cs';
                  pr \<leftarrow> get_pr (rId r) r;
                  let r = put_pr (rId r) (fst (MaybeUpdate (prNext pr - 1) pr)) r;
                  _ \<leftarrow> lastTerm (rLog r);
                  Some (r, True)
                } = Some (r', True)" unfolding x by simp
  then obtain r1 cs u pr where
    sw: "switchToConfig cfg prs ?r = Some (r1, cs)"
    and a: "assertConfStatesEquivalent ?cs cs = Some u"
    and pr: "get_pr (rId r1) r1 = Some pr"
    and r': "r' = put_pr (rId r1) (fst (MaybeUpdate (prNext pr - 1) pr)) r1"
    unfolding Let_def by auto
  from switchToConfig_Some [OF sw] f(2) have r1: "r1 = switched cfg prs ?r" "cs = Tracker_ConfState (rPrs (switched cfg prs ?r))"
    by auto
  have f1: "rId r1 = rId r" "get_pr (rId r) r1 = fmlookup prs (rId r)" by (simp_all add: r1(1) switched_def get_pr_def)
  have p: "fmlookup prs (rId r) = Some pr" using pr f1 by simp
  show thesis
    by (rule that [OF f R [simplified] p _ r' [unfolded f1(1), unfolded r1(1)] r1(2)]) (use a in simp)
qed


lemma appendEntry_fields:
  assumes "appendEntry es r = Some (r', b)"
  shows "rTerm r' = rTerm r" "rState r' = rState r" "trkConfig (rPrs r') = trkConfig (rPrs r)" "rStep r' = rStep r"
    "rId r' = rId r" "rVote r' = rVote r" "rMsgs r' = rMsgs r" "trkVotes (rPrs r') = trkVotes (rPrs r)"
    "rLead r' = rLead r" "rTick r' = rTick r"
  using assms by (cases rule: appendEntry_Some; auto dest: maybeCommit_Some(1))+

lemma becomeLeader_fields:
  assumes "becomeLeader r = Some r'"
  shows "rTerm r' = rTerm r" "rState r' = StateLeader" "trkConfig (rPrs r') = trkConfig (rPrs r)" "rStep r' = StepLeader"
    "rId r' = rId r" "rVote r' = rVote r" "rMsgs r' = rMsgs r" "trkVotes (rPrs r') = fmempty"
proof -
  from assms obtain r1 pr li r2 where r1: "reset (rTerm r) (r\<lparr>rStep := StepLeader\<rparr>) = Some r1"
    and a: "appendEntry [zeroEntry] ((put_pr (rId r1) (BecomeReplicate pr)
      (r1\<lparr>rTick := TickHeartbeat, rLead := rId r1, rState := StateLeader\<rparr>))\<lparr>rPendingConfIndex := li\<rparr>) = Some (r2, True)"
    and r': "r' = reduceUncommittedSize [zeroEntry] r2"
    unfolding becomeLeader_def Let_def by auto
  have "rTerm r1 = rTerm r" "trkConfig (rPrs r1) = trkConfig (rPrs r)" "rStep r1 = StepLeader" "rId r1 = rId r"
    "rVote r1 = rVote r" "rMsgs r1 = rMsgs r" "trkVotes (rPrs r1) = fmempty"
    using r1 by (rule reset_SomeE, simp add: reset_prs_def)+
  with appendEntry_fields [OF a] show "rTerm r' = rTerm r" "rState r' = StateLeader"
    "trkConfig (rPrs r') = trkConfig (rPrs r)" "rStep r' = StepLeader"
    "rId r' = rId r" "rVote r' = rVote r" "rMsgs r' = rMsgs r" "trkVotes (rPrs r') = fmempty"
    by (simp_all add: r' reduceUncommittedSize_def Let_def)
qed

section \<open>Sending\<close>

text \<open>Sending leaves everything but the outbox and the progress of the peers alone.\<close>

definition sent_only :: "raft \<Rightarrow> raft \<Rightarrow> bool" where
  "sent_only r r' \<longleftrightarrow> (\<exists>ms p. r' = r\<lparr>rMsgs := rMsgs r @ ms, rPrs := (rPrs r)\<lparr>trkProgress := p\<rparr>\<rparr>)"

lemma sent_only_refl: "sent_only r r"
  unfolding sent_only_def by (rule exI [of _ "[]"], rule exI [of _ "trkProgress (rPrs r)"]) simp

lemma sent_only_trans: "sent_only r s \<Longrightarrow> sent_only s t \<Longrightarrow> sent_only r t"
proof -
  assume "sent_only r s" "sent_only s t"
  then obtain ms p ms' p' where "s = r\<lparr>rMsgs := rMsgs r @ ms, rPrs := (rPrs r)\<lparr>trkProgress := p\<rparr>\<rparr>"
    "t = s\<lparr>rMsgs := rMsgs s @ ms', rPrs := (rPrs s)\<lparr>trkProgress := p'\<rparr>\<rparr>"
    by (auto simp: sent_only_def)
  then have "t = r\<lparr>rMsgs := rMsgs r @ (ms @ ms'), rPrs := (rPrs r)\<lparr>trkProgress := p'\<rparr>\<rparr>" by simp
  then show ?thesis unfolding sent_only_def by blast
qed

lemma sent_only_send: "send m r = Some r' \<Longrightarrow> sent_only r r'"
proof -
  assume "send m r = Some r'"
  then obtain m' where r': "r' = r\<lparr>rMsgs := rMsgs r @ [m']\<rparr>" by (rule send_SomeE)
  show ?thesis unfolding sent_only_def r'
    by (rule exI [of _ "[m']"], rule exI [of _ "trkProgress (rPrs r)"]) simp
qed

lemma sent_only_put: "sent_only r (put_pr i pr r)"
  unfolding sent_only_def put_pr_def
  by (rule exI [of _ "[]"], rule exI [of _ "fmupd i pr (trkProgress (rPrs r))"]) simp

lemma sent_only_maybeSendAppend: "maybeSendAppend to b r = Some (r', x) \<Longrightarrow> sent_only r r'"
  by (erule maybeSendAppend_cases) (blast intro: sent_only_refl sent_only_trans [OF sent_only_put sent_only_send])+

lemma sent_only_fields:
  assumes "sent_only r r'"
  shows "rTerm r' = rTerm r" "rState r' = rState r" "rVote r' = rVote r" "rLog r' = rLog r" "rId r' = rId r"
    "trkConfig (rPrs r') = trkConfig (rPrs r)" "rLead r' = rLead r" "rStep r' = rStep r"
  using assms by (auto simp: sent_only_def)

end
