(* ===== verification/RaftRel.thy ===== *)
theory RaftRel
  imports RaftFrame
begin

text \<open>
  The relation calculus: the locale \<open>raft_sends\<close> and its extensions \<open>raft_steps\<close> and
  \<open>raft_changes\<close> take a reflexive and transitive relation that holds across the elementary
  updates of the state and carry it through every handler, step, tick and configuration change
  of the machine.
\<close>

section \<open>The calculus\<close>

text \<open>
  Peers receive entries and snapshots through maybeSendAppend; every other message is a plain
  send, of which the relations single out the heartbeats of a leader and the granted votes.
\<close>

definition plain :: "Message \<Rightarrow> bool" where
  "plain m \<longleftrightarrow> mType m \<noteq> MsgApp \<and> mType m \<noteq> MsgSnap \<and> (mType m = MsgVoteResp \<longrightarrow> mReject m)"

definition quiet :: "Message \<Rightarrow> bool" where
  "quiet m \<longleftrightarrow> plain m \<and> mType m \<noteq> MsgHeartbeat"

lemma plain_cases: "plain m \<Longrightarrow> quiet m \<or> mType m = MsgHeartbeat"
  by (auto simp: quiet_def)

subsection \<open>Sending\<close>

text \<open>What a leader sends.\<close>

locale raft_sends =
  fixes R :: "raft \<Rightarrow> raft \<Rightarrow> bool"
  assumes R_refl: "R r r"
    and R_trans: "R r s \<Longrightarrow> R s t \<Longrightarrow> R r t"
    and R_send: "send m r = Some r' \<Longrightarrow> plain m \<Longrightarrow> R r r'"
    and R_progress: "get_pr i r = Some pr \<Longrightarrow> progress_step pr pr' \<Longrightarrow> R r (put_pr i pr' r)"
    and R_maybeSendAppend: "maybeSendAppend to b r = Some (r', x) \<Longrightarrow> R r r'"
begin

lemma R_sendAppend: "sendAppend to r = Some r' \<Longrightarrow> R r r'"
  by (auto simp: sendAppend_def intro: R_maybeSendAppend)

lemma R_sendLoop:
  assumes "sendLoop to r = Some r'"
  shows "R r r'"
proof (rule sendLoop.raw_induct [OF _ assms])
  fix f to r r'
  assume 1: "\<And>to r r'. f to r = Some r' \<Longrightarrow> R r r'"
    and "Option.bind (maybeSendAppend to False r) (\<lambda>x. if snd x then f to (fst x) else Some (fst x)) = Some r'"
  then obtain x where x: "maybeSendAppend to False r = Some x"
    "(if snd x then f to (fst x) else Some (fst x)) = Some r'" by auto
  have "R r (fst x)" using x(1) R_maybeSendAppend [of to False r "fst x" "snd x"] by simp
  with x(2) 1 show "R r r'" by (auto split: if_splits intro: R_trans)
qed

lemma R_sendHeartbeat: "sendHeartbeat to ctx r = Some r' \<Longrightarrow> R r r'"
  by (auto simp: sendHeartbeat_def plain_def Let_def intro: R_send)

lemma R_Visit:
  assumes "Visit f r = Some r'" and "\<And>i s s'. f i s = Some s' \<Longrightarrow> R s s'"
  shows "R r r'"
  using assms(1) unfolding Visit_def by (rule foldM_relation) (use R_refl R_trans assms(2) in blast)+

lemma R_bcastAppend: "bcastAppend r = Some r' \<Longrightarrow> R r r'"
  unfolding bcastAppend_def by (erule R_Visit) (auto split: if_splits intro: R_refl R_sendAppend)

lemma R_bcastHeartbeatWithCtx: "bcastHeartbeatWithCtx ctx r = Some r' \<Longrightarrow> R r r'"
  unfolding bcastHeartbeatWithCtx_def by (erule R_Visit) (auto split: if_splits intro: R_refl R_sendHeartbeat)

lemma R_bcastHeartbeat: "bcastHeartbeat r = Some r' \<Longrightarrow> R r r'"
  by (auto simp: bcastHeartbeat_def Let_def split: if_splits intro: R_bcastHeartbeatWithCtx)

lemma R_sendTimeoutNow: "sendTimeoutNow to r = Some r' \<Longrightarrow> R r r'"
  by (auto simp: sendTimeoutNow_def plain_def intro: R_send)

end

interpretation sends: raft_sends sent_only
  by unfold_locales
    (rule sent_only_refl sent_only_put | erule (1) sent_only_trans | erule sent_only_send sent_only_maybeSendAppend)+

lemmas sent_step =
  sends.R_sendAppend [THEN sent_only_fields(8)] sends.R_sendLoop [THEN sent_only_fields(8)]
  sends.R_bcastAppend [THEN sent_only_fields(8)]

lemma maybeCommit_step: "maybeCommit r = Some (r', b) \<Longrightarrow> rStep r' = rStep r"
  by (auto dest: maybeCommit_Some(1))

subsection \<open>Steps\<close>

text \<open>The bounds on incoming messages and on the length of the log.\<close>

definition room :: "nat \<Rightarrow> raft \<Rightarrow> bool" where
  "room n r \<longleftrightarrow> alLast (log_view (rLog r)) + n + 2 < 18446744073709551616"

definition append_msg :: "Message \<Rightarrow> bool" where
  "append_msg m \<longleftrightarrow> contig (unat (mIndex m) + 1) (mEntries m) \<and> (\<forall>e \<in> set (mEntries m). eTerm e \<noteq> 0 \<and> eTerm e \<le> mTerm m)
     \<and> unat (mIndex m) + length (mEntries m) + 2 < 18446744073709551616
     \<and> (mIndex m \<noteq> 0 \<longrightarrow> mLogTerm m \<noteq> 0)"

definition snap_msg :: "Message \<Rightarrow> bool" where
  "snap_msg m \<longleftrightarrow> unat (smIndex (sMetadata (mSnapshot m))) + 2 < 18446744073709551616
     \<and> smTerm (sMetadata (mSnapshot m)) \<le> mTerm m"

text \<open>What a message from a peer or from the application satisfies: messages of a leader carry
  its term, entries are consecutive and of terms up to the leader's, and no term or index is at
  the end of the 64-bit range.\<close>

definition term_ok :: "Message \<Rightarrow> bool" where
  "term_ok m \<longleftrightarrow> mTerm m \<noteq> - 1 \<and> (mType m \<in> {MsgApp, MsgHeartbeat, MsgSnap} \<longrightarrow> mTerm m \<noteq> 0)"

definition content_ok :: "Message \<Rightarrow> bool" where
  "content_ok m \<longleftrightarrow> (mType m = MsgApp \<longrightarrow> append_msg m) \<and> (mType m = MsgSnap \<longrightarrow> snap_msg m)"

definition msg_ok :: "Message \<Rightarrow> bool" where
  "msg_ok m \<longleftrightarrow> term_ok m \<and> content_ok m"

text \<open>The type of the response that a candidate counts.\<close>

definition answers :: "Message \<Rightarrow> raft \<Rightarrow> bool" where
  "answers m r \<longleftrightarrow> mType m = (if rState r = StatePreCandidate then MsgPreVoteResp else MsgVoteResp)"

text \<open>
  A relation that holds across the elementary updates. Its parameters say which votes a node may
  count (\<open>V r i v\<close>: the answer v of i, at r) and what the messages that change a log hold
  (\<open>M\<close>).
\<close>

locale raft_steps =
  fixes R :: "raft \<Rightarrow> raft \<Rightarrow> bool"
    and V :: "raft \<Rightarrow> u64 \<Rightarrow> bool \<Rightarrow> bool"
    and M :: "Message \<Rightarrow> bool"
  assumes R_refl: "R r r"
    and R_trans: "R r s \<Longrightarrow> R s u \<Longrightarrow> R r u"
    and R_send: "send m r = Some r' \<Longrightarrow> quiet m \<Longrightarrow> R r r'"
    and R_heartbeat: "send m r = Some r' \<Longrightarrow> mType m = MsgHeartbeat \<Longrightarrow> rStep r = StepLeader \<Longrightarrow> R r r'"
    and R_progress: "get_pr i r = Some pr \<Longrightarrow> progress_step pr pr' \<Longrightarrow> R r (put_pr i pr' r)"
    and R_maybeSendAppend: "maybeSendAppend to b r = Some (r', x) \<Longrightarrow> rStep r = StepLeader \<Longrightarrow> R r r'"
    and R_soft: "soft_eq r r' \<Longrightarrow> R r r'"
    and R_setLead: "rStep r = StepFollower \<Longrightarrow> R r (r\<lparr>rElectionElapsed := 0, rLead := l\<rparr>)"
    and V_self: "V r (rId r) True"
    and R_vote: "V r i v \<Longrightarrow> R r (fst (poll i v r))"
    and R_grant: "send (zeroMessage\<lparr>mTo := c, mTerm := rTerm r, mType := MsgVoteResp\<rparr>) r = Some r'
      \<Longrightarrow> rVote r = 0 \<or> rVote r = c \<Longrightarrow> R r (r'\<lparr>rElectionElapsed := 0, rVote := c\<rparr>)"
    and R_active: "R r (r\<lparr>rPrs := Visit_update (\<lambda>i pr. if i \<noteq> rId r then pr\<lparr>prRecentActive := False\<rparr> else pr) (rPrs r)\<rparr>)"
    and R_maybeCommit: "maybeCommit r = Some (r', b) \<Longrightarrow> R r r'"
    and R_appendEntry: "appendEntry es r = Some (r', b) \<Longrightarrow> room (length es) r \<Longrightarrow> rStep r = StepLeader \<Longrightarrow> R r r'"
    and R_follower: "becomeFollower t lead r = Some r' \<Longrightarrow> rTerm r \<le> t \<Longrightarrow> R r r'"
    and R_candidate: "becomeCandidate r = Some r' \<Longrightarrow> rTerm r \<noteq> - 1 \<Longrightarrow> R r r'"
    and R_precandidate: "becomePreCandidate r = Some r' \<Longrightarrow> R r r'"
    and R_leader: "becomeLeader r = Some r' \<Longrightarrow> rState r \<noteq> StatePreCandidate \<Longrightarrow> room 1 r
      \<Longrightarrow> Joint_VoteResult (Voters (trkConfig (rPrs r))) (trkVotes (rPrs r)) = VoteWon \<Longrightarrow> R r r'"
    and R_maybeAppend: "maybeAppend (mIndex m) (mLogTerm m) (mCommit m) (mEntries m) (rLog r) = Some (lg, li, ok)
      \<Longrightarrow> mType m = MsgApp \<Longrightarrow> M m \<Longrightarrow> mTerm m = rTerm r \<Longrightarrow> rlCommitted (rLog r) \<le> mIndex m
      \<Longrightarrow> R r (r\<lparr>rLog := lg\<rparr>)"
    and R_commitTo: "commitTo ci (rLog r) = Some lg \<Longrightarrow> R r (r\<lparr>rLog := lg\<rparr>)"
    and R_install: "restore (mSnapshot m) r = Some (r', True) \<Longrightarrow> mType m = MsgSnap \<Longrightarrow> M m
      \<Longrightarrow> mTerm m = rTerm r \<Longrightarrow> R r r'"

text \<open>For a leader, the relation lets through everything that sending does.\<close>

sublocale raft_steps \<subseteq> led: raft_sends "\<lambda>r r'. (rStep r = StepLeader \<longrightarrow> R r r') \<and> sent_only r r'"
proof unfold_locales
  fix r s t
  assume "(rStep r = StepLeader \<longrightarrow> R r s) \<and> sent_only r s" "(rStep s = StepLeader \<longrightarrow> R s t) \<and> sent_only s t"
  then show "(rStep r = StepLeader \<longrightarrow> R r t) \<and> sent_only r t"
    using sent_only_fields(8) [of r s] by (auto intro: R_trans sent_only_trans)
next
  fix m r r' assume "send m r = Some r'" "plain m"
  then show "(rStep r = StepLeader \<longrightarrow> R r r') \<and> sent_only r r'"
    using plain_cases [of m] by (auto intro: R_send R_heartbeat sent_only_send)
qed (auto intro: R_refl R_progress R_maybeSendAppend sent_only_refl sent_only_put sent_only_maybeSendAppend)

context raft_steps
begin

lemma R_sendTimeoutNow: "sendTimeoutNow to r = Some r' \<Longrightarrow> R r r'"
  by (auto simp: sendTimeoutNow_def quiet_def plain_def intro: R_send)

lemma R_requestVotes:
  "requestVotes t tm v r = Some r' \<Longrightarrow> v = MsgVote \<or> v = MsgPreVote \<Longrightarrow> R r r'"
  unfolding requestVotes_def
  by (erule foldM_relation) (auto simp: quiet_def plain_def Let_def split: if_splits intro: R_refl R_trans R_send)

text \<open>The sending loops of a leader.\<close>

lemma R_led:
  "sendAppend to r = Some r' \<Longrightarrow> rStep r = StepLeader \<Longrightarrow> R r r'"
  "sendLoop to r = Some r' \<Longrightarrow> rStep r = StepLeader \<Longrightarrow> R r r'"
  "bcastAppend r = Some r' \<Longrightarrow> rStep r = StepLeader \<Longrightarrow> R r r'"
  "bcastHeartbeat r = Some r' \<Longrightarrow> rStep r = StepLeader \<Longrightarrow> R r r'"
  "bcastHeartbeatWithCtx x r = Some r' \<Longrightarrow> rStep r = StepLeader \<Longrightarrow> R r r'"
  using led.R_sendAppend led.R_sendLoop led.R_bcastAppend led.R_bcastHeartbeat led.R_bcastHeartbeatWithCtx by blast+

lemma R_restore:
  assumes "restore (mSnapshot m) r = Some (r', b)" and "mType m = MsgSnap" and "M m" and "mTerm m = rTerm r"
    and "rTerm r \<noteq> - 1"
  shows "R r r'"
proof (cases b)
  case True
  with assms show ?thesis by (auto intro: R_install)
next
  case False
  have "rTerm r \<le> rTerm r + 1" using less_plus_one [OF assms(5)] by simp
  then show ?thesis using assms(1) False
    by (auto simp: restore_def Let_def split: if_splits sum.splits intro: R_refl R_follower R_commitTo)
qed

text \<open>The answers of a follower.\<close>

lemma R_reply:
  "\<exists>i. send (zeroMessage\<lparr>mTo := to, mType := MsgAppResp, mIndex := i\<rparr>) r = Some r' \<Longrightarrow> R r r'"
  "\<exists>i h. send (zeroMessage\<lparr>mTo := to, mType := MsgAppResp, mIndex := i, mReject := True, mRejectHint := h\<rparr>) r = Some r'
    \<Longrightarrow> R r r'"
  by (auto simp: quiet_def plain_def intro: R_send)

lemma R_handleAppendEntries:
  assumes "handleAppendEntries m r = Some r'" and "mType m = MsgApp" and "M m" and "mTerm m = rTerm r"
  shows "R r r'"
proof (cases "mIndex m < rlCommitted (rLog r)")
  case True
  with assms(1) show ?thesis by (intro R_reply(1)) (auto simp: handleAppendEntries_def)
next
  case False
  with assms(1) obtain l li ok where
    l: "maybeAppend (mIndex m) (mLogTerm m) (mCommit m) (mEntries m) (rLog r) = Some (l, li, ok)"
    unfolding handleAppendEntries_def by auto
  have "R (r\<lparr>rLog := l\<rparr>) r'"
  proof (cases ok)
    case True
    with False assms(1) l show ?thesis by (intro R_reply(1)) (auto simp: handleAppendEntries_def Let_def)
  next
    case notok: False
    with False assms(1) l show ?thesis by (intro R_reply(2)) (auto simp: handleAppendEntries_def Let_def)
  qed
  with False assms(2-4) R_maybeAppend [OF l] show ?thesis by (auto simp: not_less intro: R_trans)
qed

lemma R_handleHeartbeat: "handleHeartbeat m r = Some r' \<Longrightarrow> R r r'"
  unfolding handleHeartbeat_def
  by (auto simp: quiet_def plain_def intro: R_trans [OF R_commitTo R_send])

lemma R_handleSnapshot:
  assumes "handleSnapshot m r = Some r'" "mType m = MsgSnap" "M m" "mTerm m = rTerm r" "rTerm r \<noteq> - 1"
  shows "R r r'"
proof -
  from assms(1) obtain s b i where s: "restore (mSnapshot m) r = Some (s, b)"
    and i: "send (zeroMessage\<lparr>mTo := mFrom m, mType := MsgAppResp, mIndex := i\<rparr>) s = Some r'"
    unfolding handleSnapshot_def by (auto split: if_splits)
  have "R s r'" using i by (blast intro: R_reply(1))
  with R_restore [OF s] assms(2-5) show ?thesis by (blast intro: R_trans)
qed

lemma R_poll: "poll i v r = (r', x) \<Longrightarrow> V r i v \<Longrightarrow> R r r'"
  using R_vote [of r i v] by simp

lemma poll_won: "poll i v r = (r', VoteWon) \<Longrightarrow>
    Joint_VoteResult (Voters (trkConfig (rPrs r'))) (trkVotes (rPrs r')) = VoteWon"
  by (auto simp: poll_eq)

lemma campaign_election_eq:
  "t \<noteq> CampaignPreElection \<Longrightarrow> campaign t r = do {
      r \<leftarrow> becomeCandidate r;
      let term = rTerm r;
      let (r, res) = poll (rId r) True r;
      if res = VoteWon then becomeLeader r else requestVotes t term MsgVote r }"
  by (subst campaign.simps) simp

lemma R_campaign_election:
  assumes "campaign t r = Some r'" "t \<noteq> CampaignPreElection" "rTerm r \<noteq> - 1" "room 1 r"
  shows "R r r'"
proof -
  from assms obtain r1 r2 x where c: "becomeCandidate r = Some r1" "poll (rId r1) True r1 = (r2, x)"
    and rest: "(if x = VoteWon then becomeLeader r2 else requestVotes t (rTerm r1) MsgVote r2) = Some r'"
    by (auto simp: campaign_election_eq Let_def split: prod.splits)
  have "R r r1" using c(1) assms(3) by (rule R_candidate)
  moreover have "R r1 r2" using c(2) by (rule R_poll [OF _ V_self])
  moreover have st: "rState r2 = StateCandidate" "rLog r2 = rLog r"
    using becomeCandidate_fields(4,7) [OF c(1)] poll_fields(3,5) [of "rId r1" True r1] c(2) by simp_all
  have "R r2 r'" using rest st assms(4) poll_won [of "rId r1" True r1 r2] c(2)
    by (auto simp: room_def split: if_splits intro: R_leader R_requestVotes)
  ultimately show ?thesis by (blast intro: R_trans)
qed

lemma R_campaign:
  assumes "campaign t r = Some r'" "rTerm r \<noteq> - 1" "room 1 r"
  shows "R r r'"
proof (cases "t = CampaignPreElection")
  case False
  with assms show ?thesis by (intro R_campaign_election)
next
  case True
  with assms(1) obtain r1 r2 x where c: "becomePreCandidate r = Some r1" "poll (rId r1) True r1 = (r2, x)"
    and rest: "(if x = VoteWon then campaign CampaignElection r2
      else requestVotes t (rTerm r1 + 1) MsgPreVote r2) = Some r'"
    by (subst (asm) campaign.simps) (auto simp: Let_def split: prod.splits)
  have "R r r1" using c(1) by (rule R_precandidate)
  moreover have "R r1 r2" using c(2) by (rule R_poll [OF _ V_self])
  moreover have f: "rTerm r2 = rTerm r" "rLog r2 = rLog r"
    using becomePreCandidate_fields(1,4) [OF c(1)] poll_fields(1,3) [of "rId r1" True r1] c(2) by simp_all
  have "R r2 r'" using rest f assms(2,3)
    by (auto simp: room_def split: if_splits intro: R_campaign_election R_requestVotes)
  ultimately show ?thesis by (blast intro: R_trans)
qed

lemma R_lead: "R r (r\<lparr>rElectionElapsed := 0\<rparr>)" "R r (r\<lparr>rReadStates := rs\<rparr>)"
  "R r (r\<lparr>rPendingConfIndex := p\<rparr>)" "R r (r\<lparr>rUncommittedSize := z\<rparr>)" "R r (r\<lparr>rLeadTransferee := l\<rparr>)"
  "R r (r\<lparr>rElectionElapsed := x\<rparr>)" "R r (r\<lparr>rHeartbeatElapsed := y, rElectionElapsed := x\<rparr>)"
  "R r (r\<lparr>rHeartbeatElapsed := y\<rparr>)" "R r (r\<lparr>rElectionElapsed := x, rLeadTransferee := l\<rparr>)"
  by (rule R_soft, simp add: soft_eq_def)+

lemma R_readOnly: "roOption ro = roOption (rReadOnly r) \<Longrightarrow> R r (r\<lparr>rReadOnly := ro\<rparr>)"
  by (rule R_soft) (simp add: soft_eq_def)

lemma R_abort: "R r (abortLeaderTransfer r)"
  unfolding abortLeaderTransfer_def by (rule R_lead)

lemma R_stepFollower:
  assumes "stepFollower m r = Some (r', e)" "term_ok m"
    "mType m \<in> {MsgApp, MsgHeartbeat, MsgSnap} \<Longrightarrow> mTerm m = rTerm r" "rTerm r \<noteq> - 1" "room 1 r" "rStep r = StepFollower"
    "mType m = MsgApp \<or> mType m = MsgSnap \<Longrightarrow> M m"
  shows "R r r'"
proof -
  let ?r = "r\<lparr>rElectionElapsed := 0, rLead := mFrom m\<rparr>"
  have lead: "R r ?r" using assms(6) by (rule R_setLead)
  show ?thesis
    using assms unfolding stepFollower_def
    by (auto simp: quiet_def plain_def term_ok_def split: MessageType.splits if_splits list.splits
        intro: R_refl R_send R_lead R_campaign R_trans [OF lead R_handleAppendEntries]
          R_trans [OF lead R_handleHeartbeat] R_trans [OF lead R_handleSnapshot])
qed

text \<open>A counted answer.\<close>

lemma R_counted:
  assumes "poll i v r = (r1, x)" "V r i v"
    "(case x of
        VoteWon \<Rightarrow> if rState r1 = StatePreCandidate then campaign CampaignElection r1
                   else do { r \<leftarrow> becomeLeader r1; bcastAppend r }
      | VoteLost \<Rightarrow> becomeFollower (rTerm r1) None_id r1
      | VotePending \<Rightarrow> Some r1) = Some r'"
    "rTerm r \<noteq> - 1" "room 1 r"
  shows "R r r'"
proof -
  have f: "rState r1 = rState r" "rTerm r1 = rTerm r" "rLog r1 = rLog r"
    using assms(1) poll_fields [of i v r] by simp_all
  have r1: "R r r1" using assms(1,2) by (rule R_poll)
  have "R r1 r'"
  proof (cases x)
    case VoteWon
    have room: "room 1 r1" using assms(5) f by (simp add: room_def)
    note won = poll_won [OF assms(1) [unfolded VoteWon]]
    show ?thesis
    proof (cases "rState r1 = StatePreCandidate")
      case True
      with VoteWon assms(3,4) f room show ?thesis by (auto intro: R_campaign)
    next
      case False
      with VoteWon assms(3) obtain r2 where r2: "becomeLeader r1 = Some r2" "bcastAppend r2 = Some r'" by auto
      have "R r1 r2" using r2(1) False room won by (rule R_leader)
      moreover have "R r2 r'" using r2(2) becomeLeader_fields(4) [OF r2(1)] by (rule R_led)
      ultimately show ?thesis by (rule R_trans)
    qed
  qed (use assms(3) f in \<open>auto intro: R_refl R_follower\<close>)
  with r1 show ?thesis by (rule R_trans)
qed

lemma R_stepCandidate:
  assumes "stepCandidate m r = Some (r', e)" "term_ok m"
    "mType m \<in> {MsgApp, MsgHeartbeat, MsgSnap} \<Longrightarrow> mTerm m = rTerm r" "rTerm r \<noteq> - 1" "room 1 r"
    "mType m = MsgApp \<or> mType m = MsgSnap \<Longrightarrow> M m" "answers m r \<Longrightarrow> V r (mFrom m) (\<not> mReject m)"
  shows "R r r'"
proof (cases "answers m r")
  case True
  obtain r1 x where p: "poll (mFrom m) (\<not> mReject m) r = (r1, x)" by force
  from True assms(1) show ?thesis
    by (intro R_counted [OF p assms(7) _ assms(4,5)])
      (auto simp: stepCandidate_def answers_def p Let_def split: if_splits)
next
  case False
  have fol: "R r s" if "becomeFollower (mTerm m) (mFrom m) r = Some s"
    "mType m \<in> {MsgApp, MsgHeartbeat, MsgSnap}" for s
    using that assms(3) by (intro R_follower) auto
  have tm: "rTerm s = mTerm m" if "becomeFollower (mTerm m) (mFrom m) r = Some s" for s
    using becomeFollower_fields(1) [OF that] .
  show ?thesis
    using assms(1-6) False unfolding stepCandidate_def Let_def
    by (auto simp: term_ok_def answers_def tm split: if_splits
        intro: R_refl R_trans [OF fol R_handleAppendEntries] R_trans [OF fol R_handleHeartbeat] R_trans [OF fol R_handleSnapshot])
qed


lemma R_propLoop: "propLoop i es r = Some (es', r') \<Longrightarrow> R r r'"
  using propLoop_pending R_lead(3) by metis

lemma R_leaderProp:
  assumes "leaderProp m r = Some (r', e)" "room (length (mEntries m)) r" "rStep r = StepLeader"
  shows "R r r'"
proof (cases "get_pr (rId r) r = None \<or> rLeadTransferee r \<noteq> None_id")
  case True
  with assms(1) show ?thesis by (auto simp: leaderProp_def split: if_splits intro: R_refl)
next
  case False
  with assms(1) obtain es r1 r2 ok where p: "propLoop 0 (mEntries m) r = Some (es, r1)"
    and a: "appendEntry es r1 = Some (r2, ok)" and rest: "(if ok then bcastAppend r2 = Some r' else r2 = r')"
    by (auto simp: leaderProp_def split: if_splits)
  have "R r r1" using p by (rule R_propLoop)
  moreover have "rLog r1 = rLog r" "length es = length (mEntries m)" "rStep r1 = rStep r"
    using propLoop_pending [OF p] by (metis raft.select_convs(5) raft.surjective raft.update_convs(14), simp,
      metis raft.select_convs(26) raft.surjective raft.update_convs(14))
  note f = this
  have "R r1 r2" using f assms(2,3) by (intro R_appendEntry [OF a]) (simp_all add: room_def)
  moreover have "rStep r2 = StepLeader" using appendEntry_fields(4) [OF a] assms(3) f by simp
  then have "R r2 r'" using rest by (auto split: if_splits intro: R_refl R_led)
  ultimately show ?thesis by (blast intro: R_trans)
qed

lemma R_leaderCheckQuorum:
  assumes "leaderCheckQuorum r = Some r'"
  shows "R r r'"
proof -
  define r1 where "r1 = (case get_pr (rId r) r of None \<Rightarrow> r | Some pr \<Rightarrow> put_pr (rId r) (pr\<lparr>prRecentActive := True\<rparr>) r)"
  have r1: "R r r1" unfolding r1_def by (auto split: option.split intro: R_refl R_progress)
  obtain r2 where r2: "(if \<not> QuorumActive (rPrs r1) then becomeFollower (rTerm r1) None_id r1 else Some r1) = Some r2"
    and r': "r' = r2\<lparr>rPrs := Visit_update (\<lambda>i pr. if i \<noteq> rId r2 then pr\<lparr>prRecentActive := False\<rparr> else pr) (rPrs r2)\<rparr>"
    using assms unfolding leaderCheckQuorum_def Let_def r1_def [symmetric] by auto
  have "R r1 r2" using r2 by (auto split: if_splits intro: R_refl R_follower)
  with r1 show ?thesis unfolding r' by (blast intro: R_trans R_active)
qed

lemma R_answerRead: "answerRead req ri r = Some r' \<Longrightarrow> R r r'"
  by (auto simp: answerRead_def quiet_def plain_def split: if_splits intro: R_lead R_send)

lemma R_leaderReadIndex:
  assumes "leaderReadIndex m r = Some r'" "rStep r = StepLeader"
  shows "R r r'"
proof -
  have "R r r'" if "addRequest c m (rReadOnly r) = Some ro"
    "bcastHeartbeatWithCtx x (r\<lparr>rReadOnly := fst (recvAck i x ro)\<rparr>) = Some r'" for c ro i x
  proof -
    have "roOption (fst (recvAck i x ro)) = roOption (rReadOnly r)"
      using that(1) by (auto simp: addRequest_def recvAck_def Let_def split: option.splits)
    moreover have "R (r\<lparr>rReadOnly := fst (recvAck i x ro)\<rparr>) r'" using assms(2) by (intro R_led(5) [OF that(2)]) simp
    ultimately show ?thesis by (blast intro: R_trans R_readOnly)
  qed
  then show ?thesis
    using assms(1) by (auto simp: leaderReadIndex_def case_prod_unfold split: if_splits ReadOnlyOption.splits
        intro: R_refl R_answerRead)
qed

lemma R_leaderSnapStatus: "get_pr (mFrom m) r = Some pr \<Longrightarrow> R r (leaderSnapStatus m pr r)"
proof -
  assume g: "get_pr (mFrom m) r = Some pr"
  have "progress_step pr (BecomeProbe (pr\<lparr>prPendingSnapshot := 0\<rparr>)\<lparr>prProbeSent := True\<rparr>)"
    "progress_step pr (BecomeProbe pr\<lparr>prProbeSent := True\<rparr>)"
    by (rule progress_step_trans [OF progress_step_flags(4) progress_step_trans [OF progress_step_become(1) progress_step_flags(2)]],
        rule progress_step_trans [OF progress_step_become(1) progress_step_flags(2)])
  then show ?thesis using R_progress [OF g] by (simp add: leaderSnapStatus_def Let_def R_refl)
qed

lemma R_leaderTransfer:
  assumes "leaderTransfer m pr r = Some r'" "rStep r = StepLeader"
  shows "R r r'"
proof -
  let ?r = "if rLeadTransferee r \<noteq> None_id then abortLeaderTransfer r else r"
  have "R r ?r" by (auto intro: R_refl R_abort)
  moreover have "R ?r (?r\<lparr>rElectionElapsed := 0, rLeadTransferee := mFrom m\<rparr>)" by (rule R_lead)
  ultimately have r1: "R r (?r\<lparr>rElectionElapsed := 0, rLeadTransferee := mFrom m\<rparr>)" "R r ?r"
    by (blast intro: R_trans)+
  let ?q = "?r\<lparr>rElectionElapsed := 0, rLeadTransferee := mFrom m\<rparr>"
  have "r' = r \<or> r' = ?r \<or> sendTimeoutNow (mFrom m) ?q = Some r' \<or> sendAppend (mFrom m) ?q = Some r'"
    using assms(1) unfolding leaderTransfer_def Let_def
    by (simp del: if_split_asm split: if_split_asm) (auto split: if_splits)
  moreover have "rStep ?q = StepLeader" using assms(2) by (simp add: abortLeaderTransfer_def)
  ultimately have "r' = r \<or> r' = ?r \<or> R ?q r'" using R_sendTimeoutNow R_led(1) by blast
  with r1 show ?thesis by (blast intro: R_refl R_trans)
qed

lemma put_put [simp]: "put_pr i a (put_pr i b r) = put_pr i a r"
  by (simp add: put_pr_def fmupd_idem)

lemma R_leaderAppResp:
  assumes "leaderAppResp m pr r = Some r'" and g: "get_pr (mFrom m) r = Some pr" and led: "rStep r = StepLeader"
  shows "R r r'"
proof -
  let ?f = "mFrom m" and ?p = "pr\<lparr>prRecentActive := True\<rparr>"
  have put: "R r (put_pr ?f q r)" if "progress_step ?p q" for q
    using that g by (intro R_progress) (blast intro: progress_step_trans progress_step_flags)+
  show ?thesis
  proof (cases "mReject m")
    case True
    obtain q d where q: "MaybeDecrTo (mIndex m) (mRejectHint m) ?p = (q, d)" by force
    let ?q = "if prState q = StateReplicate then BecomeProbe q else q"
    have st: "progress_step ?p q" using q by (rule progress_step_updates)
    have "progress_step q ?q" by simp
    with st have stq: "progress_step ?p ?q" by (rule progress_step_trans)
    have "(if d then sendAppend ?f (put_pr ?f ?q r) else Some (put_pr ?f q r)) = Some r'"
      using assms(1) True q by (auto simp: leaderAppResp_def Let_def)
    then show ?thesis using put [OF st] R_trans [OF put [OF stq] R_led(1)] led by (auto split: if_split_asm)
  next
    case False
    obtain q u where q: "MaybeUpdate (mIndex m) ?p = (q, u)" by force
    have st: "progress_step ?p q" using q by (rule progress_step_updates)
    show ?thesis
    proof (cases u)
      case False
      with assms(1) \<open>\<not> mReject m\<close> q put [OF st] show ?thesis by (simp add: leaderAppResp_def)
    next
      case True
      define mid where "mid = (if prState q = StateProbe then Some (BecomeReplicate q)
                   else if prState q = StateSnapshot \<and> prMatch q \<ge> prPendingSnapshot q then
                     Some (BecomeReplicate (BecomeProbe q))
                   else if prState q = StateReplicate then
                     do { ins \<leftarrow> Inflights_FreeLE (prInflights q) (mIndex m); Some (q\<lparr>prInflights := ins\<rparr>) }
                   else Some q)"
      from assms(1) True \<open>\<not> mReject m\<close> q obtain q1 r1 c r2 r3 where
        q1: "mid = Some q1" and
        r1: "maybeCommit (put_pr ?f q1 r) = Some (r1, c)" and
        r2: "(if c then bcastAppend r1 else if IsPaused ?p then sendAppend ?f r1 else Some r1) = Some r2" and
        r3: "sendLoop ?f r2 = Some r3" and
        r4: "(if ?f = rLeadTransferee r3 then do {
                     pr \<leftarrow> get_pr ?f r3;
                     li \<leftarrow> lastIndex (rLog r3);
                     if prMatch pr = li then sendTimeoutNow ?f r3 else Some r3
                   } else Some r3) = Some r'"
        unfolding leaderAppResp_def Let_def mid_def [symmetric] by (auto simp: Let_def simp flip: mid_def)
      have "progress_step q q1"
      proof -
        have "progress_step q (BecomeReplicate (BecomeProbe q))"
          by (rule progress_step_trans [OF progress_step_become(1) progress_step_become(2)])
        moreover have "progress_step q (q\<lparr>prInflights := ins\<rparr>)" if "Inflights_FreeLE (prInflights q) t = Some ins" for ins t
          using that FreeLE_correct [of "prInflights q" t] by (intro progress_step_inflights) auto
        ultimately show ?thesis using q1 by (auto simp: mid_def split: if_splits)
      qed
      with st have "R r (put_pr ?f q1 r)" by (intro put) (rule progress_step_trans)
      moreover have "R (put_pr ?f q1 r) r1" using r1 by (rule R_maybeCommit)
      moreover have l1: "rStep r1 = StepLeader" using maybeCommit_step [OF r1] led by simp
      then have "R r1 r2" using r2 by (auto split: if_splits intro: R_refl R_led)
      moreover have "rStep r2 = StepLeader" using r2 l1 by (auto split: if_splits dest: sent_step)
      with r3 have "R r2 r3" by (rule R_led)
      moreover have "R r3 r'" using r4 by (auto split: if_splits intro: R_refl R_sendTimeoutNow)
      ultimately show ?thesis by (blast intro: R_trans)
    qed
  qed
qed

lemma R_answerReads:
  "foldM (\<lambda>rs s. answerRead (riReq rs) (riIndex rs) s) rss r = Some r' \<Longrightarrow> R r r'"
  by (erule foldM_relation) (blast intro: R_refl R_trans R_answerRead)+

lemma readOnly_option:
  "readOnly_advance m ro = Some (ro', rss) \<Longrightarrow> roOption ro' = roOption ro"
  "roOption (fst (recvAck i x ro)) = roOption ro"
  by (auto simp: readOnly_advance_def recvAck_def Let_def split: option.splits)

lemma R_leaderHeartbeatResp:
  assumes "leaderHeartbeatResp m pr r = Some r'" and g: "get_pr (mFrom m) r = Some pr" and led: "rStep r = StepLeader"
  shows "R r r'"
proof -
  let ?p = "pr\<lparr>prRecentActive := True, prProbeSent := False\<rparr>"
  from assms(1) obtain q li r1 where
    q: "(if prState ?p = StateReplicate \<and> Inflights_Full (prInflights ?p) then
                do { ins \<leftarrow> Inflights_FreeFirstOne (prInflights ?p); Some (?p\<lparr>prInflights := ins\<rparr>) }
              else Some ?p) = Some q" and
    r1: "(if prMatch q < li then sendAppend (mFrom m) (put_pr (mFrom m) q r) else Some (put_pr (mFrom m) q r)) = Some r1" and
    rest: "(if roOption (rReadOnly r1) \<noteq> ReadOnlySafe \<or> length (mContext m) = 0 then Some r1
       else do {
         let (ro, acks) = recvAck (mFrom m) (mContext m) (rReadOnly r1);
         let r = r1\<lparr>rReadOnly := ro\<rparr>;
         if Joint_VoteResult (Voters (trkConfig (rPrs r))) acks \<noteq> VoteWon then Some r
         else do {
           (ro, rss) \<leftarrow> readOnly_advance m (rReadOnly r);
           foldM (\<lambda>rs s. answerRead (riReq rs) (riIndex rs) s) rss (r\<lparr>rReadOnly := ro\<rparr>)
         }
       }) = Some r'"
    unfolding leaderHeartbeatResp_def Let_def by auto
  have "progress_step ?p q"
  proof -
    have "inflights_wf ins" if "inflights_wf (prInflights pr)" "Inflights_Full (prInflights pr)"
      "Inflights_FreeFirstOne (prInflights pr) = Some ins" for ins
    proof -
      have "window (prInflights pr) \<noteq> []"
        using Full_iff [OF that(1)] inflights_size_pos [OF that(1)] that(2) by (auto simp del: length_window)
      then show ?thesis using FreeFirstOne_correct [of "prInflights pr"] that by auto
    qed
    then show ?thesis using q progress_step_inflights [of ?p] by (auto split: if_splits)
  qed
  then have "progress_step pr q" by (rule progress_step_trans [OF progress_step_flags(3)])
  with g have "R r (put_pr (mFrom m) q r)" by (rule R_progress)
  moreover have "R (put_pr (mFrom m) q r) r1" using r1 led by (auto split: if_splits intro: R_refl R_led)
  moreover have "R r1 r'"
  proof -
    define ro where "ro = fst (recvAck (mFrom m) (mContext m) (rReadOnly r1))"
    have o: "roOption ro = roOption (rReadOnly r1)" by (simp add: ro_def readOnly_option)
    have "r' = r1 \<or> r' = r1\<lparr>rReadOnly := ro\<rparr> \<or> (\<exists>ro2 rss. readOnly_advance m ro = Some (ro2, rss) \<and>
        foldM (\<lambda>rs s. answerRead (riReq rs) (riIndex rs) s) rss (r1\<lparr>rReadOnly := ro2\<rparr>) = Some r')"
      using rest by (auto simp: case_prod_unfold Let_def simp flip: ro_def split: if_splits)
    then show ?thesis
    proof (elim disjE exE conjE)
      fix ro2 rss assume a: "readOnly_advance m ro = Some (ro2, rss)"
        "foldM (\<lambda>rs s. answerRead (riReq rs) (riIndex rs) s) rss (r1\<lparr>rReadOnly := ro2\<rparr>) = Some r'"
      have "roOption ro2 = roOption (rReadOnly r1)" using readOnly_option(1) [OF a(1)] o by simp
      then show ?thesis using R_answerReads [OF a(2)] by (blast intro: R_trans R_readOnly)
    qed (use o in \<open>auto intro: R_refl R_readOnly\<close>)
  qed
  ultimately show ?thesis by (blast intro: R_trans)
qed

lemma R_stepLeader:
  assumes "stepLeader m r = Some (r', e)" "mType m = MsgProp \<Longrightarrow> room (length (mEntries m)) r" "rStep r = StepLeader"
  shows "R r r'"
proof -
  consider "mType m = MsgBeat" | "mType m = MsgCheckQuorum" | "mType m = MsgProp" | "mType m = MsgReadIndex"
    | "mType m \<notin> {MsgBeat, MsgCheckQuorum, MsgProp, MsgReadIndex}" by auto
  then show ?thesis
  proof cases
    case 5
    show ?thesis
    proof (cases "get_pr (mFrom m) r")
      case None
      with 5 assms(1) show ?thesis by (auto simp: stepLeader_def intro: R_refl)
    next
      case (Some pr)
      with 5 assms(1,3) show ?thesis
        by (auto simp: stepLeader_def split: MessageType.splits if_splits
            intro: R_refl R_leaderAppResp R_leaderHeartbeatResp R_leaderSnapStatus R_leaderTransfer R_progress)
    qed
  qed (use assms in \<open>auto simp: stepLeader_def
      intro: R_led R_leaderCheckQuorum R_leaderProp R_leaderReadIndex\<close>)
qed

lemma R_stepHup: "stepHup r = Some r' \<Longrightarrow> rTerm r \<noteq> - 1 \<Longrightarrow> room 1 r \<Longrightarrow> R r r'"
  by (auto simp: stepHup_def Let_def simp del: One_nat_def split: if_splits intro: R_refl R_campaign)

lemma voteRespMsgType_plain: "voteRespMsgType t = Some t' \<Longrightarrow> t' = MsgVoteResp \<or> t' = MsgPreVoteResp"
  by (auto simp: voteRespMsgType_def split: MessageType.splits)

lemma R_stepVote:
  assumes "stepVote m r = Some r'" "mType m = MsgVote \<Longrightarrow> mTerm m \<noteq> 0 \<Longrightarrow> mTerm m = rTerm r"
  shows "R r r'"
proof -
  from assms(1) obtain up rt where u: "(if rVote r = mFrom m \<or> (rVote r = None_id \<and> rLead r = None_id)
         \<or> (mType m = MsgPreVote \<and> mTerm m > rTerm r) then isUpToDate (rLog r) (mIndex m) (mLogTerm m) else Some False) = Some up"
    and rt: "voteRespMsgType (mType m) = Some rt"
    and rest: "(if up then do {
           r \<leftarrow> send (zeroMessage\<lparr>mTo := mFrom m, mTerm := mTerm m, mType := rt\<rparr>) r;
           Some (if mType m = MsgVote then r\<lparr>rElectionElapsed := 0, rVote := mFrom m\<rparr> else r)
         } else send (zeroMessage\<lparr>mTo := mFrom m, mTerm := rTerm r, mType := rt, mReject := True\<rparr>) r) = Some r'"
    unfolding stepVote_def Let_def by auto
  have pl: "rt \<noteq> MsgApp" "rt \<noteq> MsgSnap" "rt \<noteq> MsgHeartbeat" using voteRespMsgType_plain [OF rt] by auto
  show ?thesis
  proof (cases up)
    case False
    with rest pl show ?thesis by (auto simp: quiet_def plain_def intro: R_send)
  next
    case True
    with rest obtain r1 where r1: "send (zeroMessage\<lparr>mTo := mFrom m, mTerm := mTerm m, mType := rt\<rparr>) r = Some r1"
      and r': "r' = (if mType m = MsgVote then r1\<lparr>rElectionElapsed := 0, rVote := mFrom m\<rparr> else r1)" by auto
    show ?thesis
    proof (cases "mType m = MsgVote")
      case v: True
      then have rt': "rt = MsgVoteResp" using rt by (simp add: voteRespMsgType_def)
      have t: "mTerm m = rTerm r" using assms(2) [OF v] r1 by (auto simp: send_def rt')
      have "rVote r = 0 \<or> rVote r = mFrom m" using u True v by (auto simp: None_id_def split: if_splits)
      with r1 v show ?thesis unfolding r' rt' t by (simp add: R_grant)
    next
      case False
      then have "rt = MsgPreVoteResp" using rt by (auto simp: voteRespMsgType_def split: MessageType.splits)
      with r1 False show ?thesis unfolding r' by (auto simp: quiet_def plain_def intro: R_send)
    qed
  qed
qed

lemma R_checkTerm:
  assumes "checkTerm m r = Some c"
  shows "R r (case c of Go s \<Rightarrow> s | Return s \<Rightarrow> s)"
  using assms unfolding checkTerm_def
  by (auto simp: quiet_def plain_def split: if_splits intro: R_refl R_follower R_send)

end

lemma checkTerm_Go:
  assumes "checkTerm m r = Some (Go s)"
  shows "rLog s = rLog r" "rId s = rId r"
    "mTerm m \<noteq> 0 \<Longrightarrow> mType m \<notin> {MsgPreVote, MsgPreVoteResp} \<Longrightarrow> rTerm s = mTerm m"
    "rTerm s = rTerm r \<or> rTerm s = mTerm m"
  using assms becomeFollower_fields [of "mTerm m" _ r] unfolding checkTerm_def
  by (auto split: if_splits dest: becomeFollower_fields)

lemma checkQuorum_keeps:
  assumes "Step m s = Some (t, e)" "mType m = MsgCheckQuorum" "mTerm m = 0"
  shows "rTerm t = rTerm s" "rLog t = rLog s"
proof -
  have "rTerm t = rTerm s \<and> rLog t = rLog s" if "leaderCheckQuorum s = Some t"
    using that by (auto simp: leaderCheckQuorum_def Let_def becomeFollower_fields split: if_splits option.splits)
  then have "rTerm t = rTerm s \<and> rLog t = rLog s"
    using assms by (auto simp: Step_def checkTerm_def callStep_def stepFollower_def stepCandidate_def stepLeader_def
        Let_def split: StepFunc.splits if_splits)
  then show "rTerm t = rTerm s" "rLog t = rLog s" by auto
qed

text \<open>A state in which no counter is at the end of its range, for a message.\<close>

definition fits :: "Message \<Rightarrow> raft \<Rightarrow> bool" where
  "fits m r \<longleftrightarrow> rTerm r \<noteq> - 1 \<and> room 1 r \<and> (mType m = MsgProp \<longrightarrow> room (length (mEntries m)) r)"

context raft_steps
begin

theorem R_Step:
  assumes "Step m r = Some (r', e)" and "term_ok m" and "fits m r"
    and "mType m = MsgApp \<or> mType m = MsgSnap \<Longrightarrow> M m"
    and "\<And>s. checkTerm m r = Some (Go s) \<Longrightarrow> answers m s \<Longrightarrow> V s (mFrom m) (\<not> mReject m)"
  shows "R r r'"
proof -
  from assms(1) obtain c where c: "checkTerm m r = Some c" by (auto simp: Step_def)
  note R_checkTerm [OF c]
  show ?thesis
  proof (cases c)
    case (Return s)
    with assms(1) c R_checkTerm [OF c] show ?thesis by (simp add: Step_def)
  next
    case (Go s)
    have s: "R r s" using R_checkTerm [OF c] Go by simp
    note f = checkTerm_Go [OF c [unfolded Go]]
    have t: "rTerm s \<noteq> - 1" using f(4) assms(2,3) by (auto simp: term_ok_def fits_def)
    have room: "room 1 s" "mType m = MsgProp \<Longrightarrow> room (length (mEntries m)) s"
      using assms(3) f(1) by (auto simp: fits_def room_def)
    have lead: "mType m \<in> {MsgApp, MsgHeartbeat, MsgSnap} \<Longrightarrow> mTerm m = rTerm s"
      using f(3) assms(2) by (auto simp: term_ok_def)
    have "(if mType m = MsgHup then done_ok (stepHup s)
           else if mType m = MsgVote \<or> mType m = MsgPreVote then done_ok (stepVote m s)
           else callStep m s) = Some (r', e)"
      using assms(1) c Go by (simp add: Step_def)
    then have "R s r'"
      using t room lead assms(2) assms(4) assms(5) [OF c [unfolded Go]] f(3)
      by (auto simp: callStep_def simp del: One_nat_def split: if_splits StepFunc.splits
          intro: R_stepHup R_stepVote R_stepFollower R_stepCandidate R_stepLeader)
    with s show ?thesis by (rule R_trans)
  qed
qed

lemma R_local: "Step (zeroMessage\<lparr>mFrom := i, mType := t\<rparr>) r = Some (r', e) \<Longrightarrow>
    t \<in> {MsgHup, MsgBeat, MsgCheckQuorum} \<Longrightarrow> rTerm r \<noteq> - 1 \<Longrightarrow> room 1 r \<Longrightarrow> R r r'"
  by (rule R_Step) (auto simp: term_ok_def fits_def answers_def zeroMessage_def simp del: One_nat_def split: if_splits)

lemma R_tickElection:
  assumes "tickElection r = Some r'" "rTerm r \<noteq> - 1" "room 1 r"
  shows "R r r'"
proof -
  have a: "R r (r\<lparr>rElectionElapsed := rElectionElapsed r + 1\<rparr>)" "R r (r\<lparr>rElectionElapsed := 0\<rparr>)"
    by (rule R_lead)+
  have "R r r'" if "Step (zeroMessage\<lparr>mFrom := rId r, mType := MsgHup\<rparr>) (r\<lparr>rElectionElapsed := 0\<rparr>) = Some (r', e)" for e
    using a(2) R_local [OF that] assms(2,3) by (auto simp: room_def intro: R_trans)
  with a(1) assms(1) show ?thesis by (auto simp: tickElection_def Let_def split: if_splits)
qed

lemma R_tickHeartbeat:
  assumes "tickHeartbeat r = Some r'" "rTerm r \<noteq> - 1" "room 1 r"
  shows "R r r'"
proof -
  let ?r = "r\<lparr>rHeartbeatElapsed := rHeartbeatElapsed r + 1, rElectionElapsed := rElectionElapsed r + 1\<rparr>"
  from assms(1) obtain r1 where
    r1: "(if rElectionElapsed ?r \<ge> rElectionTimeout ?r then
               do {
                 let r = ?r\<lparr>rElectionElapsed := 0\<rparr>;
                 r \<leftarrow> (if rCheckQuorum r then
                         do { (r, _) \<leftarrow> Step (zeroMessage\<lparr>mFrom := rId r, mType := MsgCheckQuorum\<rparr>) r; Some r }
                       else Some r);
                 Some (if rState r = StateLeader \<and> rLeadTransferee r \<noteq> None_id
                       then abortLeaderTransfer r else r)
               }
             else Some ?r) = Some r1"
    and r': "(if rState r1 \<noteq> StateLeader then Some r1
       else if rHeartbeatElapsed r1 \<ge> rHeartbeatTimeout r1 then
         do {
           let r = r1\<lparr>rHeartbeatElapsed := 0\<rparr>;
           (r, _) \<leftarrow> Step (zeroMessage\<lparr>mFrom := rId r, mType := MsgBeat\<rparr>) r;
           Some r
         }
       else Some r1) = Some r'"
    unfolding tickHeartbeat_def Let_def by blast
  define r0 where "r0 = ?r\<lparr>rElectionElapsed := 0\<rparr>"
  have a: "R r ?r" "R r r0" unfolding r0_def by (rule R_soft, simp add: soft_eq_def)+
  have f0: "rTerm r0 = rTerm r" "rLog r0 = rLog r" by (simp_all add: r0_def)
  have "R r r1 \<and> rTerm r1 = rTerm r \<and> rLog r1 = rLog r"
  proof (cases "rElectionElapsed ?r \<ge> rElectionTimeout ?r")
    case False
    with r1 a show ?thesis by auto
  next
    case True
    with r1 obtain r2 where r2: "(if rCheckQuorum r0 then
        do { (r, _) \<leftarrow> Step (zeroMessage\<lparr>mFrom := rId r0, mType := MsgCheckQuorum\<rparr>) r0; Some r }
                       else Some r0) = Some r2"
      and r1': "r1 = (if rState r2 = StateLeader \<and> rLeadTransferee r2 \<noteq> None_id then abortLeaderTransfer r2 else r2)"
      unfolding Let_def r0_def [symmetric] by (auto simp flip: r0_def)
    have "R r r2 \<and> rTerm r2 = rTerm r \<and> rLog r2 = rLog r"
    proof (cases "rCheckQuorum r0")
      case True
      with r2 obtain e where st: "Step (zeroMessage\<lparr>mFrom := rId r0, mType := MsgCheckQuorum\<rparr>) r0 = Some (r2, e)"
        by auto
      have "R r0 r2" using R_local [OF st] assms(2,3) f0 by (simp add: room_def)
      with a(2) checkQuorum_keeps [OF st] f0 show ?thesis by (auto simp: zeroMessage_def intro: R_trans)
    qed (use r2 a f0 in auto)
    then show ?thesis unfolding r1' by (auto simp: abortLeaderTransfer_def intro: R_trans R_lead)
  qed
  moreover have "R r1 r'"
    if "rTerm r1 \<noteq> - 1" "room 1 r1"
  proof -
    have "R r1 r'" if "Step (zeroMessage\<lparr>mFrom := rId r1, mType := MsgBeat\<rparr>) (r1\<lparr>rHeartbeatElapsed := 0\<rparr>) = Some (r', e)" for e
      using R_lead(8) [of r1 0] R_local [OF that] \<open>rTerm r1 \<noteq> - 1\<close> \<open>room 1 r1\<close> by (auto simp: room_def intro: R_trans)
    then show ?thesis using r' by (auto simp: Let_def split: if_splits intro: R_refl)
  qed
  ultimately show ?thesis using assms(2,3) by (auto simp: room_def intro: R_trans)
qed

theorem R_callTick: "callTick r = Some r' \<Longrightarrow> rTerm r \<noteq> - 1 \<Longrightarrow> room 1 r \<Longrightarrow> R r r'"
  by (auto simp: callTick_def split: TickFunc.splits intro: R_tickElection R_tickHeartbeat)

end

text \<open>What a leader sends after a configuration change.\<close>

context raft_steps
begin

lemma R_switchSend:
  assumes "switchSend r = Some r'" "rStep r = StepLeader"
  shows "R r r'"
proof -
  from assms(1) obtain r2 c r3 where c: "maybeCommit r = Some (r2, c)"
    and h: "(if c then bcastAppend r2 else Visit (\<lambda>i s. do { (s, _) \<leftarrow> maybeSendAppend i False s; Some s }) r2) = Some r3"
    and r': "r' = (if get_pr (rLeadTransferee r3) r3 = None \<and> rLeadTransferee r3 \<noteq> 0 then abortLeaderTransfer r3 else r3)"
    unfolding switchSend_def by auto
  have "(rStep s = StepLeader \<longrightarrow> R s s') \<and> sent_only s s'"
    if "Visit (\<lambda>i s. do { (s, _) \<leftarrow> maybeSendAppend i False s; Some s }) s = Some s'" for s s'
    using that by (rule led.R_Visit) (use led.R_maybeSendAppend in fastforce)
  then have "R r2 r3" using h maybeCommit_step [OF c] assms(2) R_led(3) by (cases c) auto
  moreover have "R r r2" using c by (rule R_maybeCommit)
  moreover have "R r3 r'" unfolding r' by (simp add: R_refl R_abort)
  ultimately show ?thesis by (blast intro: R_trans)
qed

end

text \<open>With configuration changes.\<close>

locale raft_changes = raft_steps +
  assumes R_config: "Changer_change \<lparr>chTracker = rPrs r, chLastIndex = li\<rparr> cc = Some (Inr (cfg, prs)) \<Longrightarrow>
    R r (r\<lparr>rPrs := (rPrs r)\<lparr>trkConfig := cfg, trkProgress := prs\<rparr>, rIsLearner := b\<rparr>)"
begin

theorem R_applyConfChange:
  assumes "applyConfChange cc r = Some (r', cs)" "rState r = StateLeader \<Longrightarrow> rStep r = StepLeader"
  shows "R r r'"
proof -
  from assms(1) obtain li cfg prs where c: "Changer_change \<lparr>chTracker = rPrs r, chLastIndex = li\<rparr> cc = Some (Inr (cfg, prs))"
    and s: "switchToConfig cfg prs r = Some (r', cs)"
    by (auto simp: applyConfChange_def split: sum.splits)
  have "R r (switched cfg prs r)" unfolding switched_def using c by (rule R_config)
  moreover have "R (switched cfg prs r) r'" if "switchSend (switched cfg prs r) = Some r'" "rState r = StateLeader"
    using that assms(2) by (intro R_switchSend) (simp_all add: switched_def)
  ultimately show ?thesis using switchToConfig_Some [OF s] by (auto intro: R_trans)
qed

end

end
