(* ===== verification/LogProps.thy ===== *)
theory LogProps
  imports LogView
begin

text \<open>
  The properties of the raft log and of MemoryStorage, with witnesses on small logs. The
  helper definitions at the start state the hypotheses: a message whose entries are
  consecutive, carry a term and do not run out of 64-bit indexes.
\<close>

section \<open>Well-formed append requests\<close>

definition append_ok :: "u64 \<Rightarrow> entry list \<Rightarrow> bool" where
  "append_ok i es \<longleftrightarrow> contig (unat i + 1) es \<and> (\<forall>e \<in> set es. eTerm e \<noteq> 0)
     \<and> unat i + length es + 2 < 18446744073709551616"

text \<open>The previous index of a request lies in the log and has the term the request says.\<close>

definition prev_matches :: "raftLog \<Rightarrow> u64 \<Rightarrow> u64 \<Rightarrow> bool" where
  "prev_matches l i t \<longleftrightarrow> alBase (log_view l) \<le> unat i \<and> unat i \<le> alLast (log_view l)
     \<and> alTerm (log_view l) (unat i) = t"

text \<open>A request contradicts a committed entry.\<close>

definition conflicts_committed :: "raftLog \<Rightarrow> entry list \<Rightarrow> bool" where
  "conflicts_committed l es \<longleftrightarrow>
     (\<exists>e \<in> set es. \<not> agrees (log_view l) e \<and> unat (eIndex e) \<le> unat (rlCommitted l))"

lemma conflicts_committed_known:
  assumes c: "contig n es"
  shows "conflicts_committed l es \<longleftrightarrow> known_prefix (log_view l) es \<noteq> length es
    \<and> n + known_prefix (log_view l) es \<le> unat (rlCommitted l)"
proof
  let ?k = "known_prefix (log_view l) es"
  assume "conflicts_committed l es"
  then obtain j where j: "j < length es" "\<not> agrees (log_view l) (es ! j)" "unat (eIndex (es ! j)) \<le> unat (rlCommitted l)"
    by (auto simp: conflicts_committed_def in_set_conv_nth)
  then have "?k \<le> j" using known_prefix_agrees [of j "log_view l" es] by (meson not_less)
  with j contig_nth [OF c j(1)] show "?k \<noteq> length es \<and> n + ?k \<le> unat (rlCommitted l)" by auto
next
  let ?k = "known_prefix (log_view l) es"
  assume a: "?k \<noteq> length es \<and> n + ?k \<le> unat (rlCommitted l)"
  then have k: "?k < length es" using known_prefix_le [of "log_view l" es] by simp
  then have "\<not> agrees (log_view l) (es ! ?k)" unfolding known_prefix_def by (rule nth_length_takeWhile)
  with a k contig_nth [OF c k] show "conflicts_committed l es"
    by (auto simp: conflicts_committed_def intro!: bexI [of _ "es ! ?k"])
qed

text \<open>The entry at an index above the base.\<close>

definition entry_at :: "raftLog \<Rightarrow> nat \<Rightarrow> entry" where
  "entry_at l p = alEnts (log_view l) ! (p - alBase (log_view l) - 1)"

lemma alMaybeAppend_base [simp]: "alBase (alMaybeAppend i es a) = alBase a"
  by (simp add: alMaybeAppend_def Let_def)

lemma maybeAppend_cases:
  assumes wf: "log_wf l" and ok: "append_ok i es" and m: "prev_matches l i t"
  shows "if conflicts_committed l es then maybeAppend i t c es l = None
    else \<exists>l'. maybeAppend i t c es l = Some (l', i + word_of_nat (length es), True) \<and> log_wf l'
      \<and> log_view l' = alMaybeAppend (unat i) es (log_view l)
      \<and> rlCommitted l' = max (rlCommitted l) (min c (i + word_of_nat (length es)))
      \<and> rlApplied l' = rlApplied l \<and> rlStorage l' = rlStorage l"
proof (cases "conflicts_committed l es")
  case True
  then show ?thesis
    using maybeAppend_panics [OF log_wf_ok [OF wf], of i es t] ok m conflicts_committed_known [of "unat i + 1" es l]
    by (auto simp: append_ok_def prev_matches_def)
next
  case False
  then show ?thesis
    using maybeAppend_ok [OF wf, of i es t c] ok m conflicts_committed_known [of "unat i + 1" es l]
    by (auto simp: append_ok_def prev_matches_def)
qed

section \<open>Properties\<close>

text \<open>C8: maybeAppend on a request whose previous entry matches and which does not contradict a
  committed entry succeeds: afterwards every entry sent is in the log (by index and term),
  the entries up to the previous index and all committed entries are untouched, the commit
  index is the old one or the sender's cut off at the last new entry, and the log invariant
  holds again.\<close>

theorem maybeAppend_accepts:
  assumes "log_wf l" and "append_ok i es" and "prev_matches l i t" and "\<not> conflicts_committed l es"
  shows "\<exists>l'. maybeAppend i t c es l = Some (l', i + word_of_nat (length es), True) \<and> log_wf l'
    \<and> (\<forall>j < length es. alTerm (log_view l') (unat i + 1 + j) = eTerm (es ! j))
    \<and> (\<forall>p. alBase (log_view l) < p \<and> (p \<le> unat i \<or> p \<le> unat (rlCommitted l)) \<longrightarrow> entry_at l' p = entry_at l p)
    \<and> rlCommitted l' = max (rlCommitted l) (min c (i + word_of_nat (length es)))"
proof -
  from maybeAppend_cases [OF assms(1-3), of c] assms(4) obtain l' where
    l': "maybeAppend i t c es l = Some (l', i + word_of_nat (length es), True)" "log_wf l'"
      "log_view l' = alMaybeAppend (unat i) es (log_view l)"
      "rlCommitted l' = max (rlCommitted l) (min c (i + word_of_nat (length es)))"
    by auto
  have c: "contig (unat i + 1) es" "\<forall>e \<in> set es. eTerm e \<noteq> 0"
    and i: "alBase (log_view l) \<le> unat i" "unat i \<le> alLast (log_view l)"
    using assms(2,3) by (auto simp: append_ok_def prev_matches_def)
  have "entry_at l' p = entry_at l p" if "alBase (log_view l) < p" "p \<le> unat i \<or> p \<le> unat (rlCommitted l)" for p
    using alMaybeAppend_keeps [OF c i, of p] that assms(4) conflicts_committed_known [OF c(1), of l]
    by (auto simp: entry_at_def l'(3))
  with l' alMaybeAppend_sent [OF c i] show ?thesis by auto
qed

text \<open>A log with the entries 1, 2 (term 1) stored and 3, 4 (term 2) unstable; 2 is committed.\<close>

definition wit_entry :: "u64 \<Rightarrow> u64 \<Rightarrow> entry" where
  "wit_entry i t = zeroEntry\<lparr>eIndex := i, eTerm := t\<rparr>"

definition wit_log :: raftLog where
  "wit_log = \<lparr>rlStorage = NewMemoryStorage\<lparr>msEnts := [wit_entry 0 0, wit_entry 1 1, wit_entry 2 1]\<rparr>,
     rlUnstable = \<lparr>uSnapshot = None, uEntries = [wit_entry 3 2, wit_entry 4 2], uOffset = 3\<rparr>,
     rlCommitted = 2, rlApplied = 1, rlMaxNextEntsSize = 1000\<rparr>"

lemma wit_log_wf: "log_wf wit_log"
  by (simp add: wit_log_def log_wf_def log_ok_def log_view_def ms_wf_def ms_view_def alLast_def
      alAppend_def contig_Cons wit_entry_def NewMemoryStorage_def)

lemma wit_log_view: "log_view wit_log = \<lparr>alBase = 0, alBaseTerm = 0,
    alEnts = [wit_entry 1 1, wit_entry 2 1, wit_entry 3 2, wit_entry 4 2]\<rparr>"
  by code_simp

definition wit_sent :: "entry list" where
  "wit_sent = [wit_entry 3 2, wit_entry 4 3, wit_entry 5 3]"

lemma wit_append_ok: "append_ok 2 wit_sent"
  by (simp add: append_ok_def wit_sent_def contig_Cons wit_entry_def)

lemma wit_prev: "prev_matches wit_log 2 1"
  by (simp add: prev_matches_def wit_log_view alLast_def alTerm_def wit_entry_def)

lemma wit_no_conflict: "\<not> conflicts_committed wit_log wit_sent"
  by (simp add: conflicts_committed_def wit_sent_def wit_entry_def wit_log_def)

theorem maybeAppend_accepts_witness:
  "\<exists>l'. maybeAppend 2 1 4 wit_sent wit_log = Some (l', 5, True) \<and> log_wf l'
     \<and> rlCommitted l' = 4"
proof -
  from maybeAppend_accepts [OF wit_log_wf wit_append_ok wit_prev wit_no_conflict, of 4]
  show ?thesis by (auto simp: wit_sent_def wit_log_def)
qed

text \<open>C9: on a request whose previous entry matches, maybeAppend panics exactly when the request
  contradicts a committed entry; it never drops or overwrites a committed entry.\<close>

theorem maybeAppend_panics_iff:
  assumes "log_wf l" and "append_ok i es" and "prev_matches l i t"
  shows "maybeAppend i t c es l = None \<longleftrightarrow> conflicts_committed l es"
  using maybeAppend_cases [OF assms, of c] by (auto split: if_splits)

theorem maybeAppend_panics_iff_witness:
  "maybeAppend 1 1 4 [wit_entry 2 3] wit_log = None \<longleftrightarrow> conflicts_committed wit_log [wit_entry 2 3]"
  by (rule maybeAppend_panics_iff [OF wit_log_wf])
    (simp_all add: append_ok_def prev_matches_def contig_Cons wit_entry_def wit_log_view alLast_def alTerm_def)

text \<open>C13: the readers of a well-formed log implement the abstract log: firstIndex, lastIndex and
  term never fail, term answers 0 outside the log, and slice returns the longest prefix of
  the requested range that fits the size limit, wherever the boundary between the stable and
  the unstable part cuts the range.\<close>

theorem raftLog_reads:
  assumes "log_wf l"
  shows "(\<exists>fi. firstIndex l = Some fi \<and> unat fi = alBase (log_view l) + 1)
    \<and> (\<exists>li. lastIndex l = Some li \<and> unat li = alLast (log_view l))
    \<and> (\<forall>i. raftLog_term l i = Some (Inr (alTerm (log_view l) (unat i))))
    \<and> (\<forall>lo hi m. alBase (log_view l) < unat lo \<and> unat lo < unat hi \<and> unat hi \<le> alLast (log_view l) + 1 \<longrightarrow>
         raftLog_slice l lo hi m = Some (Inr (limitSize (alSlice (log_view l) (unat lo) (unat hi)) m)))"
  using rlog.first_eq rlog.last_eq raftLog_term_eq rlog.slice_eq log_wf_ok [OF assms] by blast

theorem raftLog_reads_witness:
  "raftLog_slice wit_log 2 5 1000 = Some (Inr (limitSize [wit_entry 2 1, wit_entry 3 2, wit_entry 4 2] 1000))"
proof -
  from raftLog_reads [OF wit_log_wf]
  have "raftLog_slice wit_log 2 5 1000 = Some (Inr (limitSize (alSlice (log_view wit_log) 2 5) 1000))"
    by (auto simp: wit_log_view alLast_def)
  then show ?thesis by (simp add: wit_log_view alSlice_def)
qed

text \<open>C14: persisting does not change the log: when no snapshot is pending and the application appends the unstable entries
  to the storage and stableTo is told the last of them, the log shows the same entries and
  terms, nothing is unstable any more and the invariant holds.\<close>

theorem persist_keeps_log:
  assumes "log_wf l" and "uSnapshot (rlUnstable l) = None" and "unstableEntries l \<noteq> []"
  shows "\<exists>ms' l'. MS_Append (unstableEntries l) (rlStorage l) = Some ms'
    \<and> stableTo (eIndex (last (unstableEntries l))) (eTerm (last (unstableEntries l))) (l\<lparr>rlStorage := ms'\<rparr>) = Some l'
    \<and> log_view l' = log_view l \<and> unstableEntries l' = [] \<and> log_wf l'"
proof -
  note ok = log_wf_ok [OF assms(1)] and st = log_ok_stable [OF log_wf_ok [OF assms(1)] assms(2)]
  let ?u = "rlUnstable l" and ?ms = "rlStorage l"
  let ?es = "uEntries ?u" and ?n = "unat (uOffset (rlUnstable l))"
  have es: "unstableEntries l = ?es" "?es \<noteq> []" using assms(3) by (auto simp: unstableEntries_def split: if_splits)
  have c: "contig ?n ?es" and b: "?n + length ?es + 1 < 18446744073709551616" and msw: "ms_wf ?ms"
    using ok by (auto simp: log_ok_def)
  have mx: "max ?n (alBase (ms_view ?ms) + 1) = ?n" using st(3) by simp
  have "0 < length ?es" using es(2) by simp
  then have ge: "\<not> ?n + length ?es \<le> alBase (ms_view ?ms) + 1" using st(3) by linarith
  from MS_Append_eq [OF msw es(2) c st(4) b] obtain ms' where
    ms': "MS_Append ?es ?ms = Some ms'" "ms_wf ms'" "ms_view ms' = alAppend ?n ?es (ms_view ?ms)"
    using mx ge by (auto simp del: max.absorb1)
  let ?k = "length ?es - 1"
  have last: "last ?es = ?es ! ?k" "?k < length ?es" using es(2) by (auto simp: last_conv_nth)
  have i: "unat (eIndex (last ?es)) = ?n + ?k" using contig_nth [OF c last(2)] last(1) by simp
  let ?l' = "l\<lparr>rlStorage := ms', rlUnstable := ?u\<lparr>uEntries := drop (?k + 1) ?es, uOffset := eIndex (last ?es) + 1\<rparr>\<rparr>"
  have st': "stableTo (eIndex (last ?es)) (eTerm (last ?es)) (l\<lparr>rlStorage := ms'\<rparr>) = Some ?l'"
    using stableTo_eq [of "l\<lparr>rlStorage := ms'\<rparr>" ?k "eIndex (last ?es)" "eTerm (last ?es)"] c b last i by simp
  have off: "unat (eIndex (last ?es) + 1) = ?n + length ?es"
    using i b es(2) unat_plus_len [of "eIndex (last ?es)" 1] by (cases ?es) auto
  have lst: "alLast (ms_view ms') = ?n + length ?es - 1" using alLast_alAppend [OF st(3,4)] ms'(3) by simp
  have v: "log_view ?l' = log_view l"
    using assms(2) lst es(2) st(1)
    by (simp add: log_view_def off alAppend_def [of "?n + length ?es"] ms'(3))
      (simp add: alLast_def alAppend_def)
  have "log_ok ?l'"
    using ok assms(2) lst off b ms'(2) es(2) st(3) by (simp add: log_ok_def) (simp add: ms'(3))
  then have "log_wf ?l'" using assms(1) v by (simp add: log_wf_def)
  with ms'(1) st' v es show ?thesis by (auto simp: unstableEntries_def)
qed

theorem persist_keeps_log_witness:
  "\<exists>ms' l'. MS_Append (unstableEntries wit_log) (rlStorage wit_log) = Some ms'
    \<and> stableTo 4 2 (wit_log\<lparr>rlStorage := ms'\<rparr>) = Some l' \<and> unstableEntries l' = [] \<and> log_wf l'"
proof -
  have "unstableEntries wit_log \<noteq> []" "uSnapshot (rlUnstable wit_log) = None"
    "eIndex (last (unstableEntries wit_log)) = 4" "eTerm (last (unstableEntries wit_log)) = 2"
    by code_simp+
  with persist_keeps_log [OF wit_log_wf] show ?thesis by auto
qed

text \<open>C12: nextEnts delivers the committed entries in order, without gaps and without repeats: a
  delivery is a non-empty consecutive run that starts right after what was applied (or after
  the snapshot) and ends at or below the commit index; after appliedTo of its last entry the
  next delivery starts right behind it.\<close>

theorem nextEnts_delivers:
  assumes "log_wf l" and "next_start l \<le> unat (rlCommitted l)"
  shows "\<exists>es l'. nextEnts l = Some es \<and> es \<noteq> [] \<and> contig (next_start l) es
    \<and> next_start l + length es \<le> unat (rlCommitted l) + 1
    \<and> es = alSlice (log_view l) (next_start l) (next_start l + length es)
    \<and> appliedTo (eIndex (last es)) l = Some l' \<and> log_wf l' \<and> log_view l' = log_view l
    \<and> next_start l' = next_start l + length es"
proof -
  note ok = log_wf_ok [OF assms(1)]
  let ?v = "log_view l" and ?s = "next_start l" and ?c = "unat (rlCommitted l)"
  have s: "alBase ?v < ?s" "?s \<le> ?c" "?c \<le> alLast ?v" "unat (rlApplied l) < ?s"
    using assms by (auto simp: next_start_def log_wf_def)
  have lt: "?s < 18446744073709551616" using s log_view_wf [OF ok] by (simp add: alog_wf_def)
  define lo where "lo = (word_of_nat ?s :: u64)"
  have lo: "unat lo = ?s" unfolding lo_def using lt by (rule unat_of_nat_small)
  have hi: "unat (rlCommitted l + 1) = ?c + 1" by (rule committed_plus_one [OF assms(1)])
  obtain es where es: "raftLog_slice l lo (rlCommitted l + 1) (rlMaxNextEntsSize l) = Some (Inr es)"
    "es \<noteq> []" "contig ?s es" "length es \<le> ?c + 1 - ?s" "es = alSlice ?v ?s (?s + length es)"
    using rlog.slice_page [OF ok, of lo "rlCommitted l + 1"] s by (auto simp: lo hi)
  have n: "nextEnts l = Some es"
    using nextEnts_eq [OF assms(1)] raftLog_slice_eq [OF ok, of lo "rlCommitted l + 1"] es(1) s
    by (simp add: lo hi)
  have l: "unat (eIndex (last es)) = ?s + length es - 1" using contig_last [OF es(3,2)] .
  have len: "0 < length es" using es(2) by simp
  have pos: "0 < ?s + length es - 1" using s(1) len by linarith
  have a: "eIndex (last es) \<le> rlCommitted l" "rlApplied l \<le> eIndex (last es)"
    using l len es(4) s unfolding word_le_nat_alt by linarith+
  have a0: "eIndex (last es) \<noteq> 0" using l pos by (metis unat_0 less_irrefl)
  with a have ap: "appliedTo (eIndex (last es)) l = Some (l\<lparr>rlApplied := eIndex (last es)\<rparr>)" by (simp add: appliedTo_eq)
  have "next_start (l\<lparr>rlApplied := eIndex (last es)\<rparr>) = ?s + length es"
    using l s(1) len by (simp add: next_start_def)
  with n es ap log_wf_applied [OF assms(1) a(1)] s show ?thesis
    by (intro exI [of _ es] exI [of _ "l\<lparr>rlApplied := eIndex (last es)\<rparr>"]) auto
qed

theorem nextEnts_delivers_witness: "\<exists>es. nextEnts wit_log = Some es \<and> es \<noteq> [] \<and> contig 2 es"
proof -
  have "next_start wit_log = 2" "unat (rlCommitted wit_log) = 2" by code_simp+
  with nextEnts_delivers [OF wit_log_wf] show ?thesis by auto
qed

text \<open>C15: MemoryStorage implements the abstract log too: Append replaces everything from the
  first new entry on (what lies at or below the compacted index is skipped), and Compact
  drops the entries up to its index and keeps the rest with the term of the boundary.\<close>

theorem MemoryStorage_writes:
  assumes "ms_wf ms"
  shows "(\<forall>es n. es \<noteq> [] \<and> contig n es \<and> n \<le> alLast (ms_view ms) + 1 \<and> n + length es + 1 < 18446744073709551616 \<longrightarrow>
      (\<exists>ms'. MS_Append es ms = Some ms' \<and> ms_wf ms' \<and>
        ms_view ms' = (if n + length es \<le> alBase (ms_view ms) + 1 then ms_view ms
          else let n' = max n (alBase (ms_view ms) + 1) in alAppend n' (drop (n' - n) es) (ms_view ms))))
    \<and> (\<forall>i. alBase (ms_view ms) < unat i \<and> unat i \<le> alLast (ms_view ms) \<longrightarrow>
      (\<exists>ms'. MS_Compact i ms = Some (None, ms') \<and> ms_wf ms' \<and>
        ms_view ms' = \<lparr>alBase = unat i, alBaseTerm = alTerm (ms_view ms) (unat i),
          alEnts = drop (unat i - alBase (ms_view ms)) (alEnts (ms_view ms))\<rparr>))"
proof (intro conjI allI impI; elim conjE)
  fix es n assume "es \<noteq> []" "contig n es" "n \<le> alLast (ms_view ms) + 1" "n + length es + 1 < 18446744073709551616"
  from MS_Append_eq [OF assms this] show "\<exists>ms'. MS_Append es ms = Some ms' \<and> ms_wf ms' \<and>
        ms_view ms' = (if n + length es \<le> alBase (ms_view ms) + 1 then ms_view ms
          else let n' = max n (alBase (ms_view ms) + 1) in alAppend n' (drop (n' - n) es) (ms_view ms))"
    unfolding Let_def by blast
qed (use MS_Compact_eq [OF assms] in blast)

theorem MemoryStorage_writes_witness:
  "\<exists>ms'. MS_Append wit_sent (rlStorage wit_log) = Some ms' \<and> ms_wf ms'
     \<and> alEnts (ms_view ms') = [wit_entry 1 1, wit_entry 2 1, wit_entry 3 2, wit_entry 4 3, wit_entry 5 3]"
proof -
  have v: "ms_view (rlStorage wit_log) = \<lparr>alBase = 0, alBaseTerm = 0, alEnts = [wit_entry 1 1, wit_entry 2 1]\<rparr>"
    by code_simp
  have "ms_wf (rlStorage wit_log)" using wit_log_wf by (simp add: log_wf_def log_ok_def)
  from conjunct1 [OF MemoryStorage_writes [OF this], rule_format, of wit_sent 3]
  show ?thesis by (auto simp: v alLast_def wit_sent_def contig_Cons wit_entry_def alAppend_def Let_def)
qed

end
