(* ===== verification/RaftMono.thy ===== *)
theory RaftMono
  imports RaftRel LogProps
begin

text \<open>
  The monotone part of a node's life: through every Step, tick and configuration change the
  term and the commit index never go back, a vote is not taken back within its term, messages
  are only added, and what belongs to the node's identity and configuration is not touched.
\<close>

section \<open>The monotone relation\<close>

definition same_node :: "raft \<Rightarrow> raft \<Rightarrow> bool" where
  "same_node r r' \<longleftrightarrow> rId r' = rId r \<and> rMaxMsgSize r' = rMaxMsgSize r \<and> rMaxUncommittedSize r' = rMaxUncommittedSize r
     \<and> rCheckQuorum r' = rCheckQuorum r \<and> rPreVote r' = rPreVote r \<and> rHeartbeatTimeout r' = rHeartbeatTimeout r
     \<and> rElectionTimeout r' = rElectionTimeout r \<and> rDisableProposalForwarding r' = rDisableProposalForwarding r
     \<and> roOption (rReadOnly r') = roOption (rReadOnly r)
     \<and> trkMaxInflight (rPrs r') = trkMaxInflight (rPrs r)
     \<and> rlStorage (rLog r') = rlStorage (rLog r) \<and> rlApplied (rLog r') = rlApplied (rLog r)
     \<and> rlMaxNextEntsSize (rLog r') = rlMaxNextEntsSize (rLog r)"

definition ballot_mono :: "raft \<Rightarrow> raft \<Rightarrow> bool" where
  "ballot_mono r r' \<longleftrightarrow> rTerm r < rTerm r' \<or> rTerm r = rTerm r' \<and> (rVote r' = rVote r \<or> rVote r = 0)"

definition advances :: "raft \<Rightarrow> raft \<Rightarrow> bool" where
  "advances r r' \<longleftrightarrow> same_node r r' \<and> ballot_mono r r' \<and> rlCommitted (rLog r) \<le> rlCommitted (rLog r')
     \<and> (\<exists>ms. rMsgs r' = rMsgs r @ ms)"

lemmas advances_defs = advances_def same_node_def ballot_mono_def

lemma advances_refl: "advances r r"
  by (simp add: advances_defs)

lemma same_node_trans: "same_node r s \<Longrightarrow> same_node s t \<Longrightarrow> same_node r t"
  by (simp add: same_node_def)

lemma ballot_mono_trans: "ballot_mono r s \<Longrightarrow> ballot_mono s t \<Longrightarrow> ballot_mono r t"
  unfolding ballot_mono_def by (metis order.strict_trans)

lemma advances_trans: "advances r s \<Longrightarrow> advances s t \<Longrightarrow> advances r t"
  unfolding advances_def using same_node_trans ballot_mono_trans
  by (metis append.assoc order.trans)

lemma advances_send: "send m r = Some r' \<Longrightarrow> advances r r'"
proof -
  assume "send m r = Some r'"
  then obtain m' where r': "r' = r\<lparr>rMsgs := rMsgs r @ [m']\<rparr>" by (rule send_SomeE)
  show ?thesis unfolding r' by (simp add: advances_defs)
qed

lemma advances_put: "advances r (put_pr i pr r)"
  by (simp add: advances_defs)

lemma advances_maybeSendAppend: "maybeSendAppend to b r = Some (r', x) \<Longrightarrow> advances r r'"
  by (erule maybeSendAppend_cases) (blast intro: advances_refl advances_trans [OF advances_put advances_send])+

lemma advances_maybeCommit: "maybeCommit r = Some (r', b) \<Longrightarrow> advances r r'"
  using maybeCommit_Some [of r r' b] by (auto simp: advances_defs)

lemma advances_appendEntry: "appendEntry es r = Some (r', b) \<Longrightarrow> advances r r'"
proof (erule appendEntry_Some)
  fix li l i pr r1 c
  assume a: "raftLog_append (stamp (rTerm r) (li + 1) es) (rLog r) = Some (l, i)"
    "r1 = put_pr (rId r) (fst (MaybeUpdate i pr))
        (r\<lparr>rUncommittedSize := rUncommittedSize r + payloads (stamp (rTerm r) (li + 1) es), rLog := l\<rparr>)"
    "maybeCommit r1 = Some (r', c)"
  then obtain u where "l = (rLog r)\<lparr>rlUnstable := u\<rparr>" by (auto dest: raftLog_append_Some)
  then have "advances r r1" by (simp add: a(2) advances_defs)
  then show ?thesis using advances_maybeCommit [OF a(3)] by (rule advances_trans)
qed (simp add: advances_refl)

lemma advances_reset:
  "reset t r = Some r' \<Longrightarrow> rTerm r \<le> t \<Longrightarrow> advances r r'"
  by (auto simp: advances_defs reset_prs_def newReadOnly_def order_le_less elim!: reset_SomeE)

lemma advances_steps [simp]:
  "advances (r\<lparr>rStep := x\<rparr>) r' \<longleftrightarrow> advances r r'"
  "advances r (r'\<lparr>rTick := tk, rLead := l, rState := st\<rparr>) \<longleftrightarrow> advances r r'"
  by (simp_all add: advances_defs)

lemma advances_becomeFollower: "becomeFollower t l r = Some r' \<Longrightarrow> rTerm r \<le> t \<Longrightarrow> advances r r'"
  by (auto simp: becomeFollower_def dest!: advances_reset)

lemma advances_becomeCandidate: "becomeCandidate r = Some r' \<Longrightarrow> rTerm r \<noteq> - 1 \<Longrightarrow> advances r r'"
proof -
  assume "becomeCandidate r = Some r'" and t: "rTerm r \<noteq> - 1"
  then obtain r1 where r1: "reset (rTerm r + 1) (r\<lparr>rStep := StepCandidate\<rparr>) = Some r1"
    and r': "r' = r1\<lparr>rTick := TickElection, rVote := rId r1, rState := StateCandidate\<rparr>"
    unfolding becomeCandidate_def by auto
  have lt: "rTerm r < rTerm r + 1" using t by (rule less_plus_one)
  with advances_reset [OF r1] have "advances r r1" by simp
  moreover have "rTerm r1 = rTerm r + 1" using r1 by (rule reset_SomeE) simp
  ultimately show ?thesis using lt by (simp add: r' advances_defs)
qed

lemma advances_becomePreCandidate: "becomePreCandidate r = Some r' \<Longrightarrow> advances r r'"
  by (auto simp: becomePreCandidate_def advances_defs ResetVotes_def)

lemma advances_becomeLeader: "becomeLeader r = Some r' \<Longrightarrow> advances r r'"
proof -
  assume "becomeLeader r = Some r'"
  then obtain r1 pr li r2 where r1: "reset (rTerm r) (r\<lparr>rStep := StepLeader\<rparr>) = Some r1"
    and a: "appendEntry [zeroEntry] ((put_pr (rId r1) (BecomeReplicate pr)
      (r1\<lparr>rTick := TickHeartbeat, rLead := rId r1, rState := StateLeader\<rparr>))\<lparr>rPendingConfIndex := li\<rparr>) = Some (r2, True)"
    and r': "r' = reduceUncommittedSize [zeroEntry] r2"
    unfolding becomeLeader_def Let_def by auto
  have "advances r r1" using advances_reset [OF r1] by simp
  moreover have "advances r1 ((put_pr (rId r1) (BecomeReplicate pr)
      (r1\<lparr>rTick := TickHeartbeat, rLead := rId r1, rState := StateLeader\<rparr>))\<lparr>rPendingConfIndex := li\<rparr>)"
    by (simp add: advances_defs)
  moreover note advances_appendEntry [OF a]
  moreover have "advances r2 r'" by (simp add: r' reduceUncommittedSize_def Let_def advances_defs)
  ultimately show ?thesis by (blast intro: advances_trans)
qed

lemma advances_install: "restore s r = Some (r', True) \<Longrightarrow> advances r r'"
  by (erule restore_True) (auto simp: advances_defs switched_def raftLog_restore_def MakeProgressTracker_def)

lemma advances_soft: "soft_eq r r' \<Longrightarrow> advances r r'"
  unfolding soft_eq_def by (elim conjE) (erule ssubst, simp add: advances_defs)

lemma advances_log:
  "rlCommitted (rLog r) \<le> rlCommitted l \<Longrightarrow> rlStorage l = rlStorage (rLog r) \<Longrightarrow> rlApplied l = rlApplied (rLog r)
    \<Longrightarrow> rlMaxNextEntsSize l = rlMaxNextEntsSize (rLog r) \<Longrightarrow> advances r (r\<lparr>rLog := l\<rparr>)"
  by (simp add: advances_defs)

lemma advances_maybeAppend: "maybeAppend i t c es (rLog r) = Some (l, li, ok) \<Longrightarrow> advances r (r\<lparr>rLog := l\<rparr>)"
  using maybeAppend_Some [of i t c es "rLog r" l li ok] by (auto intro!: advances_log)

lemma advances_commitTo: "commitTo c (rLog r) = Some l \<Longrightarrow> advances r (r\<lparr>rLog := l\<rparr>)"
  using commitTo_Some [of c "rLog r" l] by (auto intro!: advances_log)

lemma advances_poll: "advances r (fst (poll i v r))"
  by (simp add: poll_eq advances_defs)

lemma advances_grant: "send m r = Some r' \<Longrightarrow> rVote r = 0 \<or> rVote r = c \<Longrightarrow>
    advances r (r'\<lparr>rElectionElapsed := 0, rVote := c\<rparr>)"
  by (erule send_SomeE) (auto simp: advances_defs)

lemma advances_setLead: "advances r (r\<lparr>rElectionElapsed := 0, rLead := l\<rparr>)"
  by (simp add: advances_defs)

lemma advances_prs: "trkMaxInflight p = trkMaxInflight (rPrs r) \<Longrightarrow> advances r (r\<lparr>rPrs := p\<rparr>)"
  "trkMaxInflight p = trkMaxInflight (rPrs r) \<Longrightarrow> advances r (r\<lparr>rPrs := p, rIsLearner := b\<rparr>)"
  by (simp_all add: advances_defs)

interpretation mono: raft_changes advances "\<lambda>_ _ _. True" "\<lambda>_. True"
  by unfold_locales
    (rule TrueI advances_refl advances_put advances_poll advances_setLead
     | erule (1) advances_trans advances_becomeFollower advances_becomeCandidate advances_grant
     | erule advances_send advances_maybeSendAppend advances_maybeCommit advances_appendEntry
        advances_becomePreCandidate advances_becomeLeader advances_install advances_soft advances_maybeAppend
        advances_commitTo
     | rule advances_prs, simp)+

end
