(* ===== verification/RaftInv.thy ===== *)
theory RaftInv
  imports RaftMono
begin

text \<open>
  The invariant of a node. \<open>raft_inv\<close> joins what the parts promise: the role with its step and
  tick functions, its term, vote and leader; the timers; the peers' configuration and progress;
  the log and the terms of its entries. Every Step, tick and configuration change keeps it, and
  on the way no entry at or below the commit index changes.
\<close>

section \<open>Every peer of a configuration change\<close>

definition peers :: "(Progress \<Rightarrow> bool) \<Rightarrow> ProgressMap \<Rightarrow> bool" where
  "peers P prs \<longleftrightarrow> (\<forall>i pr. fmlookup prs i = Some pr \<longrightarrow> P pr)"

lemma peersD: "peers P prs \<Longrightarrow> fmlookup prs i = Some pr \<Longrightarrow> P pr"
  by (simp add: peers_def)

lemma peers_empty [simp]: "peers P fmempty"
  by (simp add: peers_def)

lemma peers_upd: "peers P prs \<Longrightarrow> P pr \<Longrightarrow> peers P (fmupd i pr prs)"
  by (simp add: peers_def)

lemma peers_drop: "peers P prs \<Longrightarrow> peers P (fmdrop i prs)"
  by (simp add: peers_def)

text \<open>A predicate that new peers satisfy and that does not look at the learner mark.\<close>

definition peer_law :: "Changer \<Rightarrow> (Progress \<Rightarrow> bool) \<Rightarrow> bool" where
  "peer_law c P \<longleftrightarrow> (\<forall>pr b. P pr \<longrightarrow> P (pr\<lparr>prIsLearner := b\<rparr>))
     \<and> (\<forall>b. P \<lparr>prMatch = 0, prNext = chLastIndex c, prState = StateProbe, prPendingSnapshot = 0,
          prRecentActive = True, prProbeSent = False,
          prInflights = NewInflights (trkMaxInflight (chTracker c)), prIsLearner = b\<rparr>)"

lemma peers_initProgress:
  "peer_law c P \<Longrightarrow> initProgress c i b (cfg, prs) = Some (cfg', prs') \<Longrightarrow> peers P prs \<Longrightarrow> peers P prs'"
  by (auto simp: initProgress_def peer_law_def intro!: peers_upd split: if_splits)

lemma peers_makeVoter:
  "peer_law c P \<Longrightarrow> makeVoter c i (cfg, prs) = Some (cfg', prs') \<Longrightarrow> peers P prs \<Longrightarrow> peers P prs'"
  by (auto simp: makeVoter_def peer_law_def Let_def intro!: peers_upd dest: peersD
      intro: peers_initProgress [of c P] split: option.splits)

lemma peers_remove: "peers P prs \<Longrightarrow> peers P (snd (remove i (cfg, prs)))"
  by (auto simp: remove_def Let_def intro: peers_drop)

lemma peers_makeLearner:
  assumes "peer_law c P" "makeLearner c i (cfg, prs) = Some (cfg', prs')" "peers P prs"
  shows "peers P prs'"
proof (cases "fmlookup prs i")
  case None
  with assms show ?thesis by (auto simp: makeLearner_def intro: peers_initProgress [of c P])
next
  case (Some pr)
  have P: "P pr" "P (pr\<lparr>prIsLearner := True\<rparr>)" using assms(1,3) Some by (auto simp: peer_law_def dest: peersD)
  have r: "peers P (snd (remove i (cfg, prs)))" using assms(3) by (rule peers_remove)
  show ?thesis using assms(2,3) Some P r
    by (auto simp: makeLearner_def Let_def case_prod_unfold split: if_splits intro!: peers_upd)
qed

lemma peers_applyLoop:
  "applyLoop c ccs s = Some (Inr s') \<Longrightarrow> peer_law c P \<Longrightarrow> peers P (snd s) \<Longrightarrow> peers P (snd s')"
proof (induction c ccs s rule: applyLoop.induct)
  case (2 c cc ccs s)
  obtain cfg prs where s: "s = (cfg, prs)" by (cases s)
  have "peers P (snd t)" if "makeVoter c (csNodeID cc) s = Some t \<or> makeLearner c (csNodeID cc) s = Some t" for t
    using that peers_makeVoter [OF 2(7), of "csNodeID cc" cfg prs "fst t" "snd t"]
      peers_makeLearner [OF 2(7), of "csNodeID cc" cfg prs "fst t" "snd t"] 2(8) by (auto simp: s)
  moreover have "peers P (snd (remove (csNodeID cc) s))" using peers_remove 2(8) by (simp add: s)
  ultimately show ?case using 2 by (auto split: if_splits)
qed auto

lemma peers_apply:
  "Changer_apply c ccs (cfg, prs) = Some (Inr (cfg', prs')) \<Longrightarrow> peer_law c P \<Longrightarrow> peers P prs \<Longrightarrow> peers P prs'"
  using peers_applyLoop [of c ccs "(cfg, prs)" "(cfg', prs')" P]
  by (auto simp: Changer_apply_def split: sum.splits if_splits)

lemma checkAndReturn_Inr: "checkAndReturn cfg prs = Some (Inr (cfg', prs')) \<Longrightarrow> cfg' = cfg \<and> prs' = prs"
  by (auto simp: checkAndReturn_def split: option.splits)

lemma checkAndCopy_Inr: "checkAndCopy c = Some (Inr (cfg, prs)) \<Longrightarrow> prs = trkProgress (chTracker c)"
  by (auto simp: checkAndCopy_def Let_def dest: checkAndReturn_Inr)

lemma peers_EnterJoint:
  "Changer_EnterJoint c al ccs = Some (Inr (cfg', prs')) \<Longrightarrow> peer_law c P \<Longrightarrow> peers P (trkProgress (chTracker c))
    \<Longrightarrow> peers P prs'"
  unfolding Changer_EnterJoint_def Let_def
  by (auto split: sum.splits if_splits dest!: checkAndReturn_Inr checkAndCopy_Inr)
    (metis peers_apply)

lemma peers_Simple:
  "Changer_Simple c ccs = Some (Inr (cfg', prs')) \<Longrightarrow> peer_law c P \<Longrightarrow> peers P (trkProgress (chTracker c))
    \<Longrightarrow> peers P prs'"
  unfolding Changer_Simple_def
  by (auto split: sum.splits if_splits dest!: checkAndReturn_Inr checkAndCopy_Inr)
    (metis peers_apply)

lemma peers_LeaveJoint:
  assumes "Changer_LeaveJoint c = Some (Inr (cfg', prs'))" "peer_law c P" "peers P (trkProgress (chTracker c))"
  shows "peers P prs'"
proof -
  have stage: "peers P q'" if "foldM (\<lambda>i (cfg, prs).
                 do {
                   let cfg = cfg\<lparr>Learners := nilAwareAdd i (Learners cfg)\<rparr>;
                   pr \<leftarrow> fmlookup prs i;
                   Some (cfg, fmupd i (pr\<lparr>prIsLearner := True\<rparr>) prs)
                 }) ids (g, q) = Some (g', q')" "peers P q" for ids g q g' q'
    using that
  proof (induction ids arbitrary: g q)
    case (Cons i ids)
    from Cons.prems(1) obtain pr where pr: "fmlookup q i = Some pr" and rest: "foldM (\<lambda>i (cfg, prs).
                 do {
                   let cfg = cfg\<lparr>Learners := nilAwareAdd i (Learners cfg)\<rparr>;
                   pr \<leftarrow> fmlookup prs i;
                   Some (cfg, fmupd i (pr\<lparr>prIsLearner := True\<rparr>) prs)
                 }) ids (g\<lparr>Learners := nilAwareAdd i (Learners g)\<rparr>, fmupd i (pr\<lparr>prIsLearner := True\<rparr>) q) = Some (g', q')"
      by (auto simp: Let_def)
    have "P (pr\<lparr>prIsLearner := True\<rparr>)" using peersD [OF Cons.prems(2) pr] assms(2) by (simp add: peer_law_def)
    with Cons.IH [OF rest] Cons.prems(2) show ?case by (simp add: peers_upd)
  qed simp
  have drop: "peers P (fold (\<lambda>i prs. if Q i then fmdrop i prs else prs) ids q)" if "peers P q" for Q ids q
    using that by (induction ids arbitrary: q) (auto intro: peers_drop)
  show ?thesis
    using assms(1,3) unfolding Changer_LeaveJoint_def Let_def
    by (auto split: sum.splits if_splits dest!: checkAndReturn_Inr checkAndCopy_Inr)
      (erule notE, rule drop, erule stage [unfolded Let_def], assumption)
qed

lemma peers_change:
  "Changer_change c cc = Some (Inr (cfg', prs')) \<Longrightarrow> peer_law c P \<Longrightarrow> peers P (trkProgress (chTracker c))
    \<Longrightarrow> peers P prs'"
  by (erule Changer_change_cases) (blast intro: peers_LeaveJoint peers_EnterJoint peers_Simple)+

text \<open>A rebuilt configuration satisfies the configuration invariant.\<close>

lemma chain_inv:
  assumes "chain c ops = Some (Inr (cfg, prs))" "changer_ok c" "peer_law c P" "peers P (trkProgress (chTracker c))"
    and "\<And>op. op \<in> set ops \<Longrightarrow> (\<exists>ccs. op = (\<lambda>chg. Changer_Simple chg ccs)) \<or> (\<exists>al ccs. op = (\<lambda>chg. Changer_EnterJoint chg al ccs))"
  shows "conf_inv cfg prs \<and> peers P prs"
  using assms
proof (induction ops arbitrary: c)
  case Nil
  then show ?case by (simp add: changer_ok_def)
next
  case (Cons op ops)
  from Cons.prems(1) obtain cfg1 prs1 where op: "op c = Some (Inr (cfg1, prs1))"
    and rest: "chain (c\<lparr>chTracker := (chTracker c)\<lparr>trkConfig := cfg1, trkProgress := prs1\<rparr>\<rparr>) ops = Some (Inr (cfg, prs))"
    by (auto split: sum.splits)
  have "conf_inv cfg1 prs1 \<and> peers P prs1"
    using Cons.prems(5) [of op] op Changer_ops_inv(1,2) [OF Cons.prems(2)]
      peers_Simple [OF _ Cons.prems(3,4)] peers_EnterJoint [OF _ Cons.prems(3,4)] by fastforce
  with Cons.IH [OF rest] Cons.prems(3,5) show ?case by (simp add: changer_ok_def peer_law_def)
qed

lemma Restore_inv:
  assumes "Restore \<lparr>chTracker = MakeProgressTracker n, chLastIndex = li\<rparr> cs = Some (Inr (cfg, prs))" "0 < n"
  shows "conf_inv cfg prs" "peers progress_wf prs"
proof -
  let ?c = "\<lparr>chTracker = MakeProgressTracker n, chLastIndex = li\<rparr>"
  have "changer_ok ?c" using emptyChanger_ok(1) [of n li] by (simp add: emptyChanger_def)
  moreover have "peer_law ?c progress_wf"
    using assms(2) by (simp add: peer_law_def progress_wf_def MakeProgressTracker_def NewInflights_wf)
  moreover have "peers progress_wf (trkProgress (chTracker ?c))" by (simp add: MakeProgressTracker_def)
  ultimately have "conf_inv cfg prs \<and> peers progress_wf prs"
    using assms(1) unfolding Restore_def Let_def
    by (auto split: if_splits prod.splits dest!: chain_inv)
  then show "conf_inv cfg prs" "peers progress_wf prs" by auto
qed

section \<open>The invariant\<close>

definition role_ok :: "raft \<Rightarrow> bool" where
  "role_ok r \<longleftrightarrow>
     (case rState r of
        StateFollower \<Rightarrow> rStep r = StepFollower \<and> rTick r = TickElection
      | StatePreCandidate \<Rightarrow> rStep r = StepCandidate \<and> rTick r = TickElection \<and> rLead r = 0
      | StateCandidate \<Rightarrow> rStep r = StepCandidate \<and> rTick r = TickElection \<and> rLead r = 0
          \<and> rTerm r \<noteq> 0 \<and> rVote r = rId r
      | StateLeader \<Rightarrow> rStep r = StepLeader \<and> rTick r = TickHeartbeat \<and> rLead r = rId r
          \<and> rTerm r \<noteq> 0 \<and> rVote r = rId r)"

definition timers_ok :: "raft \<Rightarrow> bool" where
  "timers_ok r \<longleftrightarrow> 0 < rElectionTimeout r \<and> rElectionTimeout r \<le> rRandomizedElectionTimeout r
     \<and> rRandomizedElectionTimeout r < 2 * rElectionTimeout r"

definition peers_ok :: "raft \<Rightarrow> bool" where
  "peers_ok r \<longleftrightarrow> 0 < trkMaxInflight (rPrs r) \<and> conf_inv (trkConfig (rPrs r)) (trkProgress (rPrs r))
     \<and> peers progress_wf (trkProgress (rPrs r))"

text \<open>No entry is of a term above the node's, and none is of term 0.\<close>

definition terms_ok :: "raft \<Rightarrow> bool" where
  "terms_ok r \<longleftrightarrow> alBaseTerm (log_view (rLog r)) \<le> rTerm r
     \<and> (\<forall>e \<in> set (alEnts (log_view (rLog r))). eTerm e \<noteq> 0 \<and> eTerm e \<le> rTerm r)"

definition raft_inv :: "raft \<Rightarrow> bool" where
  "raft_inv r \<longleftrightarrow> rId r \<noteq> 0 \<and> role_ok r \<and> timers_ok r \<and> peers_ok r \<and> log_wf (rLog r) \<and> terms_ok r"

text \<open>How a log may change: the committed entries that it still has stay what they are.\<close>

definition log_grows :: "raftLog \<Rightarrow> raftLog \<Rightarrow> bool" where
  "log_grows l l' \<longleftrightarrow> alBase (log_view l) \<le> alBase (log_view l') \<and> rlCommitted l \<le> rlCommitted l'
     \<and> (\<forall>p. alBase (log_view l') < p \<and> p \<le> unat (rlCommitted l) \<longrightarrow> entry_at l' p = entry_at l p)"

definition keeps :: "raft \<Rightarrow> raft \<Rightarrow> bool" where
  "keeps r r' \<longleftrightarrow> (raft_inv r \<longrightarrow> raft_inv r' \<and> log_grows (rLog r) (rLog r'))"

lemma log_grows_refl [simp]: "log_grows l l"
  by (simp add: log_grows_def)

lemma log_grows_trans: "log_grows a b \<Longrightarrow> log_grows b c \<Longrightarrow> log_grows a c"
  unfolding log_grows_def word_le_nat_alt by simp

lemma keeps_refl: "keeps r r"
  by (simp add: keeps_def)

lemma keeps_trans: "keeps r s \<Longrightarrow> keeps s t \<Longrightarrow> keeps r t"
  unfolding keeps_def using log_grows_trans by blast

text \<open>An update that leaves the log and what the invariant reads alone.\<close>

lemma keepsI:
  assumes "raft_inv r \<Longrightarrow> rId r' = rId r \<and> role_ok r' \<and> timers_ok r' \<and> peers_ok r'"
    and "rLog r' = rLog r" and "rTerm r \<le> rTerm r'"
  shows "keeps r r'"
  using assms by (auto simp: keeps_def raft_inv_def terms_ok_def)

lemma keeps_same:
  assumes "rId r' = rId r" "rState r' = rState r" "rStep r' = rStep r" "rTick r' = rTick r" "rLead r' = rLead r"
    "rTerm r' = rTerm r" "rVote r' = rVote r" "rElectionTimeout r' = rElectionTimeout r"
    "rRandomizedElectionTimeout r' = rRandomizedElectionTimeout r" "rLog r' = rLog r"
    "raft_inv r \<Longrightarrow> peers_ok r'"
  shows "keeps r r'"
  using assms by (intro keepsI) (auto simp: raft_inv_def role_ok_def timers_ok_def cong: StateType.case_cong)

lemma keeps_send: "send m r = Some r' \<Longrightarrow> keeps r r'"
proof -
  assume "send m r = Some r'"
  then obtain m' where r': "r' = r\<lparr>rMsgs := rMsgs r @ [m']\<rparr>" by (rule send_SomeE)
  show ?thesis unfolding r' by (rule keeps_same) (simp_all add: raft_inv_def peers_ok_def)
qed

lemma conf_inv_upd:
  "conf_inv cfg prs \<Longrightarrow> fmlookup prs i = Some pr \<Longrightarrow> prIsLearner pr' = prIsLearner pr \<Longrightarrow> conf_inv cfg (fmupd i pr' prs)"
  unfolding conf_inv_def by (auto simp: finsert_absorb fmlookup_dom_iff)

lemma keeps_progress: "get_pr i r = Some pr \<Longrightarrow> progress_step pr pr' \<Longrightarrow> keeps r (put_pr i pr' r)"
  by (rule keeps_same)
    (auto simp: raft_inv_def peers_ok_def get_pr_def progress_step_def intro!: conf_inv_upd peers_upd dest: peersD)

lemma keeps_maybeSendAppend: "maybeSendAppend to b r = Some (r', x) \<Longrightarrow> keeps r r'"
  by (erule maybeSendAppend_cases)
    (blast intro: keeps_refl keeps_trans [OF keeps_progress keeps_send] progress_step_become(3))+

lemma keeps_soft: "soft_eq r r' \<Longrightarrow> keeps r r'"
proof -
  assume s: "soft_eq r r'"
  show ?thesis
    by (rule keeps_same; subst conjunct1 [OF s [unfolded soft_eq_def]]) (simp_all add: raft_inv_def peers_ok_def)
qed

section \<open>The elementary updates keep it\<close>

lemma log_grows_same_view:
  "log_view l' = log_view l \<Longrightarrow> rlCommitted l \<le> rlCommitted l' \<Longrightarrow> log_grows l l'"
  by (simp add: log_grows_def entry_at_def)

lemma commitTo_wf:
  assumes "log_wf l" "commitTo t l = Some l'"
  shows "log_wf l'" "log_view l' = log_view l" "log_grows l l'"
  using assms commitTo_eq [OF assms(1), of t] log_wf_commit [OF assms(1), of t]
  by (auto split: if_splits intro!: log_grows_same_view)

lemma keeps_log:
  assumes "raft_inv r \<Longrightarrow> log_wf l \<and> log_grows (rLog r) l \<and> terms_ok (r\<lparr>rLog := l\<rparr>)"
  shows "keeps r (r\<lparr>rLog := l\<rparr>)"
  using assms by (auto simp: keeps_def raft_inv_def role_ok_def timers_ok_def peers_ok_def cong: StateType.case_cong)

lemma keeps_commitTo: "commitTo c (rLog r) = Some l \<Longrightarrow> keeps r (r\<lparr>rLog := l\<rparr>)"
  by (rule keeps_log) (auto simp: raft_inv_def terms_ok_def commitTo_wf)

lemma keeps_maybeCommit: "maybeCommit r = Some (r', b) \<Longrightarrow> keeps r r'"
  by (auto simp: maybeCommit_def raftLog_maybeCommit_def Let_def split: if_splits
      intro: keeps_refl keeps_commitTo)

lemma stamp_facts:
  assumes "unat i + length es < 18446744073709551616"
  shows "contig (unat i) (stamp t i es)" "length (stamp t i es) = length es" "\<forall>e \<in> set (stamp t i es). eTerm e = t"
  using assms
proof (induction es arbitrary: i)
  case (Cons e es)
  { case 1
    then have "unat (i + 1) = Suc (unat i)" using unat_plus_len [of i 1] by simp
    with Cons.IH(1) [of "i + 1"] 1 show ?case by (simp add: contig_Cons) }
  { case 2
    then have "unat (i + 1) = Suc (unat i)" using unat_plus_len [of i 1] by simp
    with Cons.IH(2) [of "i + 1"] 2 show ?case by simp }
  { case 3
    then have "unat (i + 1) = Suc (unat i)" using unat_plus_len [of i 1] by simp
    with Cons.IH(3) [of "i + 1"] 3 show ?case by simp }
qed simp_all

lemma raftLog_append_wf:
  assumes wf: "log_wf l" and li: "lastIndex l = Some li" and b: "alLast (log_view l) + length es + 2 < 18446744073709551616"
    and a: "raftLog_append (stamp t (li + 1) es) l = Some (l', i)"
  shows "log_wf l'" "log_grows l l'" "alBaseTerm (log_view l') = alBaseTerm (log_view l)"
    "alEnts (log_view l') = alEnts (log_view l) @ stamp t (li + 1) es" "alBase (log_view l') = alBase (log_view l)"
proof -
  obtain li' where li': "lastIndex l = Some li'" "unat li' = alLast (log_view l)"
    using lastIndex_eq [OF log_wf_ok [OF wf]] by auto
  then have u: "unat li = alLast (log_view l)" using li by simp
  then have u1: "unat (li + 1) = alLast (log_view l) + 1" using b unat_plus_len [of li 1] by simp
  let ?es = "stamp t (li + 1) es"
  have st: "contig (alLast (log_view l) + 1) ?es" "length ?es = length es"
    using stamp_facts [of "li + 1" es t] b by (simp_all add: u1)
  have "log_wf l' \<and> log_grows l l' \<and> alBaseTerm (log_view l') = alBaseTerm (log_view l)
    \<and> alEnts (log_view l') = alEnts (log_view l) @ ?es \<and> alBase (log_view l') = alBase (log_view l)"
  proof (cases "es = []")
    case True
    with a li wf show ?thesis by (auto simp: raftLog_append_def)
  next
    case False
    have c: "unat (rlCommitted l) \<le> alLast (log_view l)" using wf by (simp add: log_wf_def)
    have ne: "?es \<noteq> []" using False by (cases es) auto
    obtain x i' where r: "raftLog_append ?es l = Some (l\<lparr>rlUnstable := x\<rparr>, i')" "log_wf (l\<lparr>rlUnstable := x\<rparr>)"
      "log_view (l\<lparr>rlUnstable := x\<rparr>) = alAppend (alLast (log_view l) + 1) ?es (log_view l)"
      using raftLog_append_eq [OF wf ne st(1)] c b st(2) by auto
    then have l': "l' = l\<lparr>rlUnstable := x\<rparr>" using a by simp
    have v: "log_view l' = (log_view l)\<lparr>alEnts := alEnts (log_view l) @ ?es\<rparr>"
      using r(3) by (simp add: l' alAppend_def alLast_def)
    have "entry_at l' p = entry_at l p" if "alBase (log_view l) < p" "p \<le> unat (rlCommitted l)" for p
      using that c by (auto simp: entry_at_def v nth_append alLast_def)
    then show ?thesis using r(2) v by (simp add: l' log_grows_def)
  qed
  then show "log_wf l'" "log_grows l l'" "alBaseTerm (log_view l') = alBaseTerm (log_view l)"
    "alEnts (log_view l') = alEnts (log_view l) @ ?es" "alBase (log_view l') = alBase (log_view l)" by auto
qed

lemma keeps_appendEntry:
  assumes "appendEntry es r = Some (r', b)" "room (length es) r" "rStep r = StepLeader"
  shows "keeps r r'"
  using assms(1)
proof (cases rule: appendEntry_Some)
  case refused
  then show ?thesis by (simp add: keeps_refl)
next
  case (appended li l i pr r1 c)
  let ?es = "stamp (rTerm r) (li + 1) es"
  let ?r0 = "r\<lparr>rUncommittedSize := rUncommittedSize r + payloads ?es\<rparr>"
  have "keeps r ?r0" by (rule keeps_soft) (simp add: soft_eq_def)
  moreover have "keeps ?r0 (?r0\<lparr>rLog := l\<rparr>)"
  proof (rule keeps_log)
    assume inv: "raft_inv ?r0"
    then have wf: "log_wf (rLog r)" and t: "terms_ok r" "rTerm r \<noteq> 0"
      using assms(3) by (auto simp: raft_inv_def terms_ok_def role_ok_def split: StateType.splits)
    note a = raftLog_append_wf [OF wf appended(2) _ appended(3)]
    have b: "alLast (log_view (rLog r)) + length es + 2 < 18446744073709551616" using assms(2) by (simp add: room_def)
    have li: "unat (li + 1) + length es < 18446744073709551616"
      using b appended(2) lastIndex_eq [OF log_wf_ok [OF wf]] unat_plus_len [of li 1] by auto
    show "log_wf l \<and> log_grows (rLog ?r0) l \<and> terms_ok (?r0\<lparr>rLog := l\<rparr>)"
      using a [OF b] t stamp_facts(3) [OF li, of "rTerm r"] by (auto simp: terms_ok_def)
  qed
  moreover have "keeps (?r0\<lparr>rLog := l\<rparr>) r1"
    unfolding appended(5)
    by (rule keeps_progress [of _ "?r0\<lparr>rLog := l\<rparr>", simplified])
      (use appended(4) progress_step_updates(1) [of i pr] in \<open>auto simp: get_pr_def intro: prod.collapse [symmetric]\<close>)
  moreover have "keeps r1 r'" using appended(6) by (rule keeps_maybeCommit)
  ultimately show ?thesis by (blast intro: keeps_trans)
qed


lemma conf_inv_map:
  "conf_inv cfg prs \<Longrightarrow> (\<And>i pr. prIsLearner (f i pr) = prIsLearner pr) \<Longrightarrow> conf_inv cfg (fmmap_keys f prs)"
  unfolding conf_inv_def by auto

lemma peers_ok_reset: "peers_ok r \<Longrightarrow> peers_ok (r\<lparr>rPrs := reset_prs li r\<rparr>)"
  by (auto simp: peers_ok_def reset_prs_def reset_progress_def peers_def progress_wf_def NewInflights_wf
      intro!: conf_inv_map)

text \<open>What reset establishes for a state whose peers, log and terms are in order.\<close>

lemma reset_inv:
  assumes "reset t r = Some r'" "raft_inv r0" "rId r = rId r0" "rPrs r = rPrs r0" "rLog r = rLog r0" "rTerm r0 \<le> t"
  shows "timers_ok r'" "peers_ok r'" "log_wf (rLog r')" "terms_ok r'" "rLog r' = rLog r0" "rId r' = rId r0"
    "rTerm r' = t" "rVote r' = (if rTerm r = t then rVote r else 0)" "rStep r' = rStep r" "rState r' = rState r"
proof -
  have p: "peers_ok r" using assms by (simp add: raft_inv_def peers_ok_def)
  have "timers_ok r' \<and> peers_ok r' \<and> log_wf (rLog r') \<and> terms_ok r' \<and> rLog r' = rLog r0 \<and> rId r' = rId r0
    \<and> rTerm r' = t \<and> rVote r' = (if rTerm r = t then rVote r else 0) \<and> rStep r' = rStep r \<and> rState r' = rState r"
    using assms(1)
  proof (rule reset_SomeE)
    fix li d assume d: "0 < rElectionTimeout r" "rElectionTimeout r \<le> d" "d < 2 * rElectionTimeout r"
      and r': "r' = r\<lparr>rTerm := t, rVote := (if rTerm r = t then rVote r else 0), rLead := 0, rElectionElapsed := 0,
       rHeartbeatElapsed := 0, rRandomizedElectionTimeout := d, rDraws := (\<lambda>k. rDraws r (Suc k)),
       rLeadTransferee := 0, rPrs := reset_prs li r, rPendingConfIndex := 0, rUncommittedSize := 0,
       rReadOnly := newReadOnly (roOption (rReadOnly r))\<rparr>"
    have "peers_ok r'" using peers_ok_reset [OF p, of li] by (simp add: r' peers_ok_def)
    moreover have "terms_ok r'" using assms(2,5,6) by (auto simp: r' raft_inv_def terms_ok_def)
    moreover have "log_wf (rLog r')" "rLog r' = rLog r0" "rId r' = rId r0"
      using assms(2,3,5) by (simp_all add: r' raft_inv_def)
    ultimately show ?thesis using d by (simp add: r' timers_ok_def)
  qed
  then show "timers_ok r'" "peers_ok r'" "log_wf (rLog r')" "terms_ok r'" "rLog r' = rLog r0" "rId r' = rId r0"
    "rTerm r' = t" "rVote r' = (if rTerm r = t then rVote r else 0)" "rStep r' = rStep r" "rState r' = rState r"
    by blast+
qed

lemma keeps_becomeFollower:
  assumes "becomeFollower t l r = Some r'" "rTerm r \<le> t"
  shows "keeps r r'"
proof -
  from assms(1) obtain r1 where r1: "reset t (r\<lparr>rStep := StepFollower\<rparr>) = Some r1"
    and r': "r' = r1\<lparr>rTick := TickElection, rLead := l, rState := StateFollower\<rparr>"
    unfolding becomeFollower_def by auto
  show ?thesis unfolding keeps_def
  proof
    assume inv: "raft_inv r"
    from reset_inv [OF r1 inv] assms(2) inv show "raft_inv r' \<and> log_grows (rLog r) (rLog r')"
      by (simp add: raft_inv_def r' role_ok_def timers_ok_def peers_ok_def terms_ok_def)
  qed
qed

lemma keeps_becomeCandidate:
  assumes "becomeCandidate r = Some r'" "rTerm r \<noteq> - 1"
  shows "keeps r r'"
proof -
  from assms(1) obtain r1 where r1: "reset (rTerm r + 1) (r\<lparr>rStep := StepCandidate\<rparr>) = Some r1"
    and r': "r' = r1\<lparr>rTick := TickElection, rVote := rId r1, rState := StateCandidate\<rparr>"
    unfolding becomeCandidate_def by auto
  have lt: "rTerm r \<le> rTerm r + 1" "rTerm r + 1 \<noteq> 0" using less_plus_one [OF assms(2)] by auto
  have l: "rLead r1 = 0" using r1 by (rule reset_SomeE) simp
  show ?thesis unfolding keeps_def
  proof
    assume inv: "raft_inv r"
    from reset_inv [OF r1 inv] lt inv l show "raft_inv r' \<and> log_grows (rLog r) (rLog r')"
      by (simp add: raft_inv_def r' role_ok_def timers_ok_def peers_ok_def terms_ok_def)
  qed
qed

lemma keeps_becomePreCandidate: "becomePreCandidate r = Some r' \<Longrightarrow> keeps r r'"
  by (rule keepsI) (auto simp: becomePreCandidate_def raft_inv_def role_ok_def timers_ok_def peers_ok_def ResetVotes_def None_id_def)

lemma keeps_becomeLeader:
  assumes "becomeLeader r = Some r'" "rState r \<noteq> StatePreCandidate" "room 1 r"
  shows "keeps r r'"
proof -
  from assms(1) obtain r1 pr li r2 where f: "rState r \<noteq> StateFollower"
    and r1: "reset (rTerm r) (r\<lparr>rStep := StepLeader\<rparr>) = Some r1"
    and pr: "get_pr (rId r1) (r1\<lparr>rTick := TickHeartbeat, rLead := rId r1, rState := StateLeader\<rparr>) = Some pr"
    and a: "appendEntry [zeroEntry] ((put_pr (rId r1) (BecomeReplicate pr)
      (r1\<lparr>rTick := TickHeartbeat, rLead := rId r1, rState := StateLeader\<rparr>))\<lparr>rPendingConfIndex := li\<rparr>) = Some (r2, True)"
    and r': "r' = reduceUncommittedSize [zeroEntry] r2"
    unfolding becomeLeader_def Let_def by auto
  let ?r1 = "r1\<lparr>rTick := TickHeartbeat, rLead := rId r1, rState := StateLeader\<rparr>"
  let ?r3 = "(put_pr (rId r1) (BecomeReplicate pr) ?r1)\<lparr>rPendingConfIndex := li\<rparr>"
  have st: "rStep r1 = StepLeader" "rLog r1 = rLog r" using r1 by (auto elim!: reset_SomeE)
  have "keeps r ?r1" unfolding keeps_def
  proof
    assume inv: "raft_inv r"
    have v: "rVote r = rId r" "rTerm r \<noteq> 0"
      using inv f assms(2) by (auto simp: raft_inv_def role_ok_def split: StateType.splits)
    from reset_inv [OF r1 inv] inv v st show "raft_inv ?r1 \<and> log_grows (rLog r) (rLog ?r1)"
      by (simp add: raft_inv_def role_ok_def timers_ok_def peers_ok_def terms_ok_def)
  qed
  moreover have "keeps ?r1 (put_pr (rId r1) (BecomeReplicate pr) ?r1)"
    by (rule keeps_progress [OF pr]) simp
  moreover have "keeps (put_pr (rId r1) (BecomeReplicate pr) ?r1) ?r3" by (rule keeps_soft) (simp add: soft_eq_def)
  moreover have "keeps ?r3 r2" using assms(3) st by (intro keeps_appendEntry [OF a]) (simp_all add: room_def)
  moreover have "keeps r2 r'" unfolding r' by (rule keeps_soft) (simp add: soft_eq_def reduceUncommittedSize_def Let_def)
  ultimately show ?thesis by (blast intro: keeps_trans)
qed

lemma set_alMaybeAppend: "set (alEnts (alMaybeAppend i es a)) \<subseteq> set (alEnts a) \<union> set es"
  by (auto simp: alMaybeAppend_def Let_def alAppend_def dest: in_set_takeD in_set_dropD)

lemma keeps_maybeAppend:
  assumes "maybeAppend (mIndex m) (mLogTerm m) (mCommit m) (mEntries m) (rLog r) = Some (l, li, ok)"
    "mType m = MsgApp" "content_ok m" "mTerm m = rTerm r" "rlCommitted (rLog r) \<le> mIndex m"
  shows "keeps r (r\<lparr>rLog := l\<rparr>)"
proof (rule keeps_log)
  assume inv: "raft_inv r"
  let ?l = "rLog r" and ?i = "mIndex m" and ?es = "mEntries m"
  have wf: "log_wf ?l" and t: "terms_ok r" using inv by (auto simp: raft_inv_def)
  have ok: "append_ok ?i ?es" and t0: "?i \<noteq> 0 \<longrightarrow> mLogTerm m \<noteq> 0" using assms(2,3) by (auto simp: content_ok_def append_msg_def append_ok_def)
  have base: "alBase (log_view ?l) \<le> unat ?i" using wf assms(5) by (simp add: log_wf_def word_le_nat_alt)
  show "log_wf l \<and> log_grows ?l l \<and> terms_ok (r\<lparr>rLog := l\<rparr>)"
  proof (cases "alTerm (log_view ?l) (unat ?i) = mLogTerm m")
    case False
    with maybeAppend_reject [OF log_wf_ok [OF wf], of ?i "mLogTerm m"] assms(1) wf t show ?thesis
      by (simp add: terms_ok_def)
  next
    case True
    have "unat ?i \<le> alLast (log_view ?l)"
    proof (cases "?i = 0")
      case False
      with t0 True show ?thesis using alTerm_pos_in by metis
    qed simp
    with True base have pm: "prev_matches ?l ?i (mLogTerm m)" by (simp add: prev_matches_def)
    from maybeAppend_cases [OF wf ok pm, of "mCommit m"] assms(1)
    have nc: "\<not> conflicts_committed ?l ?es" and l: "log_wf l" "log_view l = alMaybeAppend (unat ?i) ?es (log_view ?l)"
      "rlCommitted l = max (rlCommitted ?l) (min (mCommit m) (?i + word_of_nat (length ?es)))"
      by (auto split: if_splits)
    have c: "contig (unat ?i + 1) ?es" using ok by (simp add: append_ok_def)
    have "entry_at l p = entry_at ?l p" if "alBase (log_view ?l) < p" "p \<le> unat (rlCommitted ?l)" for p
      using alMaybeAppend_keeps [OF c _ base, of p] pm ok that nc conflicts_committed_known [OF c, of ?l]
      by (auto simp: entry_at_def l(2) prev_matches_def append_ok_def)
    then have "log_grows ?l l" by (simp add: log_grows_def l(2,3))
    moreover have "alBaseTerm (log_view l) = alBaseTerm (log_view ?l)"
      by (simp add: l(2) alMaybeAppend_def Let_def)
    then have "terms_ok (r\<lparr>rLog := l\<rparr>)"
      using t assms(2-4) set_alMaybeAppend [of "unat ?i" ?es "log_view ?l"]
      by (auto simp: terms_ok_def l(2) content_ok_def append_msg_def)
    ultimately show ?thesis using l(1) by simp
  qed
qed

lemma keeps_install:
  assumes "restore (mSnapshot m) r = Some (r', True)" "mType m = MsgSnap" "content_ok m" "mTerm m = rTerm r"
  shows "keeps r r'"
  using assms(1)
proof (rule restore_True)
  define s where "s = mSnapshot m"
  have sm: "unat (smIndex (sMetadata s)) + 2 < 18446744073709551616" "smTerm (sMetadata s) \<le> rTerm r"
    using assms(2-4) by (simp_all add: content_ok_def snap_msg_def s_def)
  fix cfg prs li cs pr
  let ?r1 = "r\<lparr>rLog := raftLog_restore (mSnapshot m) (rLog r), rPrs := MakeProgressTracker (trkMaxInflight (rPrs r))\<rparr>"
  assume i: "rlCommitted (rLog r) < smIndex (sMetadata (mSnapshot m))" "rState r = StateFollower"
    and R: "Restore \<lparr>chTracker = MakeProgressTracker (trkMaxInflight (rPrs r)), chLastIndex = li\<rparr>
       (smConfState (sMetadata (mSnapshot m))) = Some (Inr (cfg, prs))"
    and pr: "fmlookup prs (rId r) = Some pr"
    and r': "r' = put_pr (rId r) (fst (MaybeUpdate (prNext pr - 1) pr)) (switched cfg prs ?r1)"
  have "keeps r (switched cfg prs ?r1)" unfolding keeps_def
  proof
    assume inv: "raft_inv r"
    have n: "0 < trkMaxInflight (rPrs r)" using inv by (simp add: raft_inv_def peers_ok_def)
    have c: "unat (rlCommitted (rLog r)) < unat (smIndex (sMetadata s))" using i(1) by (simp add: word_less_nat_alt s_def)
    have wf: "log_wf (rLog r)" using inv by (simp add: raft_inv_def)
    note l = raftLog_restore_eq [OF wf less_imp_le [OF c] sm(1), unfolded s_def]
    have "log_grows (rLog r) (raftLog_restore (mSnapshot m) (rLog r))"
    proof -
      have "alBase (log_view (rLog r)) \<le> unat (rlCommitted (rLog r))" using wf by (simp add: log_wf_def)
      moreover have "rlCommitted (rLog r) \<le> rlCommitted (raftLog_restore (mSnapshot m) (rLog r))"
        using i(1) by (simp add: raftLog_restore_def)
      ultimately show ?thesis using c unfolding log_grows_def conjunct2 [OF l] s_def by auto
    qed
    moreover have "log_wf (raftLog_restore (mSnapshot m) (rLog r))" using l by simp
    moreover have "terms_ok (switched cfg prs ?r1)"
      using conjunct2 [OF l] sm(2) by (simp add: terms_ok_def switched_def s_def)
    moreover have "role_ok (switched cfg prs ?r1)" "timers_ok (switched cfg prs ?r1)"
      using inv i(2) by (simp_all add: raft_inv_def role_ok_def timers_ok_def switched_def)
    moreover have "peers_ok (switched cfg prs ?r1)"
      using Restore_inv [OF R n] n by (simp add: peers_ok_def switched_def MakeProgressTracker_def)
    moreover have "rId r \<noteq> 0" using inv by (simp add: raft_inv_def)
    ultimately show "raft_inv (switched cfg prs ?r1) \<and> log_grows (rLog r) (rLog (switched cfg prs ?r1))"
      unfolding raft_inv_def by (simp add: switched_def)
  qed
  moreover have "keeps (switched cfg prs ?r1) r'"
    unfolding r' using pr progress_step_updates(1) [of "prNext pr - 1" pr]
    by (intro keeps_progress [of _ _ pr]) (auto simp: switched_def get_pr_def intro: prod.collapse [symmetric])
  ultimately show ?thesis by (rule keeps_trans)
qed

lemma keeps_poll: "keeps r (fst (poll i v r))"
  by (rule keeps_same) (simp_all add: poll_eq raft_inv_def peers_ok_def)

lemma keeps_grant: "send m r = Some r' \<Longrightarrow> rVote r = 0 \<or> rVote r = c \<Longrightarrow>
    keeps r (r'\<lparr>rElectionElapsed := 0, rVote := c\<rparr>)"
  by (erule send_SomeE, rule keepsI)
    (auto simp: raft_inv_def role_ok_def timers_ok_def peers_ok_def split: StateType.splits)

lemma keeps_setLead: "rStep r = StepFollower \<Longrightarrow> keeps r (r\<lparr>rElectionElapsed := 0, rLead := l\<rparr>)"
  by (rule keepsI) (auto simp: raft_inv_def role_ok_def timers_ok_def peers_ok_def split: StateType.splits)

lemma keeps_active:
  "keeps r (r\<lparr>rPrs := Visit_update (\<lambda>i pr. if i \<noteq> rId r then pr\<lparr>prRecentActive := False\<rparr> else pr) (rPrs r)\<rparr>)"
  by (rule keeps_same)
    (auto simp: raft_inv_def peers_ok_def Visit_update_eq peers_def progress_wf_def intro!: conf_inv_map split: if_splits)

lemma keeps_config:
  assumes "Changer_change \<lparr>chTracker = rPrs r, chLastIndex = li\<rparr> cc = Some (Inr (cfg, prs))"
  shows "keeps r (r\<lparr>rPrs := (rPrs r)\<lparr>trkConfig := cfg, trkProgress := prs\<rparr>, rIsLearner := b\<rparr>)"
proof (rule keeps_same)
  let ?c = "\<lparr>chTracker = rPrs r, chLastIndex = li\<rparr>"
  assume inv: "raft_inv r"
  then have ok: "changer_ok ?c" and n: "0 < trkMaxInflight (rPrs r)" and p: "peers progress_wf (trkProgress (chTracker ?c))"
    by (auto simp: raft_inv_def peers_ok_def changer_ok_def)
  have "conf_inv cfg prs"
    using assms by (cases rule: Changer_change_cases) (use Changer_ops_inv [OF ok] in blast)+
  moreover have "peers progress_wf prs"
    using peers_change [OF assms _ p] n by (simp add: peer_law_def progress_wf_def NewInflights_wf)
  ultimately show "peers_ok (r\<lparr>rPrs := (rPrs r)\<lparr>trkConfig := cfg, trkProgress := prs\<rparr>, rIsLearner := b\<rparr>)"
    using n by (simp add: peers_ok_def)
qed simp_all

interpretation inv: raft_changes keeps "\<lambda>_ _ _. True" content_ok
  by unfold_locales
    (rule TrueI keeps_refl keeps_poll keeps_active
     | erule (1) keeps_trans keeps_progress keeps_becomeFollower keeps_becomeCandidate keeps_grant
     | erule keeps_send keeps_maybeSendAppend keeps_maybeCommit keeps_becomePreCandidate keeps_soft
        keeps_commitTo keeps_setLead keeps_config
     | erule (2) keeps_appendEntry keeps_becomeLeader
     | erule (3) keeps_install | erule (4) keeps_maybeAppend)+

end
