(* ===== verification/RaftProps.thy ===== *)
theory RaftProps
  imports RaftInv
begin

text \<open>
  The properties of the raft state machine, with witnesses on a node built by newRaft.
\<close>

section \<open>Creation\<close>

text \<open>What a storage must hold for a node: its entries carry terms up to the saved term.\<close>

definition storage_ok :: "MemoryStorage \<Rightarrow> bool" where
  "storage_ok ms \<longleftrightarrow> ms_wf ms \<and> alBaseTerm (ms_view ms) \<le> hsTerm (msHardState ms)
     \<and> (\<forall>e \<in> set (alEnts (ms_view ms)). eTerm e \<noteq> 0 \<and> eTerm e \<le> hsTerm (msHardState ms))"

lemma Config_validate_Inr:
  "Config_validate c = Inr c' \<Longrightarrow> cID c' = cID c \<and> cID c \<noteq> 0 \<and> cStorage c' = cStorage c
    \<and> cElectionTick c' = cElectionTick c \<and> 0 < cElectionTick c \<and> cApplied c' = cApplied c
    \<and> cMaxInflightMsgs c' = cMaxInflightMsgs c \<and> 0 < cMaxInflightMsgs c"
  by (auto simp: Config_validate_def Let_def None_id_def split: if_splits)

lemma newRaft_raft_inv:
  assumes "newRaft draws c = Some r" "cStorage c = Some ms" "storage_ok ms"
  shows "raft_inv r \<and> rId r = cID c \<and> rState r = StateFollower \<and> rMsgs r = []
    \<and> log_view (rLog r) = ms_view ms \<and> rTerm r = hsTerm (msHardState ms)
    \<and> rVote r = hsVote (msHardState ms)"
proof -
  from assms(1) obtain c' where c': "Config_validate c = Inr c'" by (auto simp: newRaft_def split: sum.splits)
  note v = Config_validate_Inr [OF c']
  have sto: "cStorage c' = Some ms" using v assms(2) by simp
  have ms: "ms_wf ms" using assms(3) by (simp add: storage_ok_def)
  obtain l where l: "newLogWithSize ms (cMaxCommittedSizePerReady c') = Some l" "log_wf l" "log_view l = ms_view ms"
    "rlStorage l = ms" "unat (rlCommitted l) = alBase (ms_view ms)" "rlApplied l = rlCommitted l"
    using newLogWithSize_eq [OF ms] by blast
  define r0 where "r0 = \<lparr>rId = cID c', rTerm = 0, rVote = 0, rReadStates = [], rLog = l,
              rMaxMsgSize = cMaxSizePerMsg c', rMaxUncommittedSize = cMaxUncommittedEntriesSize c',
              rPrs = MakeProgressTracker (cMaxInflightMsgs c'), rState = StateFollower,
              rIsLearner = False, rMsgs = [], rLead = None_id, rLeadTransferee = 0,
              rPendingConfIndex = 0, rUncommittedSize = 0,
              rReadOnly = newReadOnly (cReadOnlyOption c'), rElectionElapsed = 0,
              rHeartbeatElapsed = 0, rCheckQuorum = cCheckQuorum c', rPreVote = cPreVote c',
              rHeartbeatTimeout = cHeartbeatTick c', rElectionTimeout = cElectionTick c',
              rRandomizedElectionTimeout = 0,
              rDisableProposalForwarding = cDisableProposalForwarding c',
              rTick = NoTick, rStep = NoStep, rDraws = draws\<rparr>"
  obtain hs cs0 where hs: "MS_InitialState ms = (hs, cs0)" "hs = msHardState ms" by (auto simp: MS_InitialState_def)
  from assms(1) obtain cs li cfg prs r1 cs' r2 r3 u where
    R: "Restore \<lparr>chTracker = MakeProgressTracker (cMaxInflightMsgs c'), chLastIndex = li\<rparr> cs = Some (Inr (cfg, prs))"
    and sw: "switchToConfig cfg prs r0 = Some (r1, cs')"
    and r2: "(if \<not> IsEmptyHardState hs then loadState hs r1 else Some r1) = Some r2"
    and r3: "(if cApplied c' > 0 then do { l \<leftarrow> appliedTo (cApplied c') (rLog r2); Some (r2\<lparr>rLog := l\<rparr>) } else Some r2) = Some r3"
    and r: "becomeFollower (rTerm r3) None_id r3 = Some r"
    using c' sto hs(1) l(1) unfolding newRaft_def
    by (auto simp: Let_def simp flip: r0_def split: sum.splits)
  have "r1 = switched cfg prs r0" using switchToConfig_Some(2) [OF sw] by (simp add: r0_def)
  then have f1: "rId r1 = cID c" "rTerm r1 = 0" "rVote r1 = 0" "rLog r1 = l" "rState r1 = StateFollower" "rMsgs r1 = []"
    "rElectionTimeout r1 = cElectionTick c" and p1: "peers_ok r1"
    using v Restore_inv [of "cMaxInflightMsgs c'" li cs cfg prs] R
    by (auto simp: switched_def r0_def peers_ok_def MakeProgressTracker_def)
  have t: "hsTerm hs = 0 \<Longrightarrow> IsEmptyHardState hs \<Longrightarrow> rTerm r2 = 0" using r2 f1 by auto
  have f2: "rId r2 = cID c" "rTerm r2 = hsTerm hs" "rVote r2 = hsVote hs" "rState r2 = StateFollower" "rMsgs r2 = []"
    "rElectionTimeout r2 = cElectionTick c" "peers_ok r2" "log_wf (rLog r2)" "log_view (rLog r2) = ms_view ms"
  proof -
    obtain la where la: "lastIndex l = Some la" "unat la = alLast (log_view l)"
      using lastIndex_eq [OF log_wf_ok [OF l(2)]] by auto
    have "rId r2 = cID c \<and> rTerm r2 = hsTerm hs \<and> rVote r2 = hsVote hs \<and> rState r2 = StateFollower \<and> rMsgs r2 = []
      \<and> rElectionTimeout r2 = cElectionTick c \<and> peers_ok r2 \<and> log_wf (rLog r2) \<and> log_view (rLog r2) = ms_view ms"
    proof (cases "IsEmptyHardState hs")
      case True
      then have "hsTerm hs = 0" "hsVote hs = 0" by (auto simp: IsEmptyHardState_def isHardStateEqual_def emptyState_def)
      with True r2 f1 p1 l show ?thesis by simp
    next
      case False
      with r2 la f1(4) have c: "\<not> hsCommit hs < rlCommitted l" "\<not> la < hsCommit hs"
        and r2': "r2 = r1\<lparr>rLog := l\<lparr>rlCommitted := hsCommit hs\<rparr>, rTerm := hsTerm hs, rVote := hsVote hs\<rparr>"
        by (auto simp: loadState_def)
      have "log_wf (l\<lparr>rlCommitted := hsCommit hs\<rparr>)"
        using l(2) c la by (auto simp: log_wf_def not_less word_le_nat_alt)
      then show ?thesis using f1 p1 l(3) by (simp add: r2' peers_ok_def)
    qed
    then show "rId r2 = cID c" "rTerm r2 = hsTerm hs" "rVote r2 = hsVote hs" "rState r2 = StateFollower" "rMsgs r2 = []"
      "rElectionTimeout r2 = cElectionTick c" "peers_ok r2" "log_wf (rLog r2)" "log_view (rLog r2) = ms_view ms" by auto
  qed
  have "\<exists>l3. r3 = r2\<lparr>rLog := l3\<rparr> \<and> log_wf l3 \<and> log_view l3 = ms_view ms"
    using r3 f2(8,9) log_wf_applied [OF f2(8)]
    by (auto simp: appliedTo_eq split: if_splits intro: exI [of _ "rLog r2"])
  then obtain l3 where r3': "r3 = r2\<lparr>rLog := l3\<rparr>" "log_wf l3" "log_view l3 = ms_view ms" by auto
  from r obtain r4 where r4: "reset (rTerm r3) (r3\<lparr>rStep := StepFollower\<rparr>) = Some r4"
    and r': "r = r4\<lparr>rTick := TickElection, rLead := None_id, rState := StateFollower\<rparr>"
    unfolding becomeFollower_def by auto
  have "raft_inv r"
    using r4
  proof (rule reset_SomeE)
    fix lx d assume d: "rElectionTimeout (r3\<lparr>rStep := StepFollower\<rparr>) \<le> d" "d < 2 * rElectionTimeout (r3\<lparr>rStep := StepFollower\<rparr>)"
      "0 < rElectionTimeout (r3\<lparr>rStep := StepFollower\<rparr>)"
      and e: "r4 = (r3\<lparr>rStep := StepFollower\<rparr>)\<lparr>rTerm := rTerm r3, rVote := (if rTerm (r3\<lparr>rStep := StepFollower\<rparr>) = rTerm r3 then rVote (r3\<lparr>rStep := StepFollower\<rparr>) else 0), rLead := 0, rElectionElapsed := 0,
       rHeartbeatElapsed := 0, rRandomizedElectionTimeout := d, rDraws := (\<lambda>k. rDraws (r3\<lparr>rStep := StepFollower\<rparr>) (Suc k)),
       rLeadTransferee := 0, rPrs := reset_prs lx (r3\<lparr>rStep := StepFollower\<rparr>), rPendingConfIndex := 0, rUncommittedSize := 0,
       rReadOnly := newReadOnly (roOption (rReadOnly (r3\<lparr>rStep := StepFollower\<rparr>)))\<rparr>"
    have "peers_ok r" using peers_ok_reset [of "r3\<lparr>rStep := StepFollower\<rparr>" lx] f2(7)
      by (simp add: r' e peers_ok_def r3'(1))
    moreover have "terms_ok r" using assms(3) f2(2) hs by (simp add: terms_ok_def r' e r3' storage_ok_def)
    moreover have "timers_ok r" using d by (simp add: timers_ok_def r' e)
    moreover have "role_ok r" by (simp add: role_ok_def r' e)
    moreover have "rId r \<noteq> 0" "log_wf (rLog r)" using f2(1) v r3' by (simp_all add: r' e)
    ultimately show ?thesis by (simp add: raft_inv_def)
  qed
  moreover have "rId r = cID c" "rState r = StateFollower" "rMsgs r = []" "rLog r = l3" "rTerm r = hsTerm hs" "rVote r = hsVote hs"
    using becomeFollower_fields [OF r] f2 r3' by auto
  ultimately show ?thesis using r3'(3) hs by simp
qed


text \<open>A node with the id 1 of a cluster of three, just started on an empty storage.\<close>

definition wit_config :: RaftConfig where
  "wit_config = \<lparr>cID = 1, cPeers = [1, 2, 3], cLearners = [], cElectionTick = 10, cHeartbeatTick = 1,
     cStorage = Some NewMemoryStorage, cApplied = 0, cMaxSizePerMsg = 1000, cMaxCommittedSizePerReady = 0,
     cMaxUncommittedEntriesSize = 0, cMaxInflightMsgs = 4, cCheckQuorum = True, cPreVote = False,
     cReadOnlyOption = ReadOnlySafe, cDisableProposalForwarding = False\<rparr>"

definition wit_node :: raft where
  "wit_node = the (newRaft (\<lambda>k. k) wit_config)"

lemma wit_node_new: "newRaft (\<lambda>k. k) wit_config = Some wit_node"
proof -
  have "\<not> Option.is_none (newRaft (\<lambda>k. k) wit_config)" by code_simp
  then show ?thesis by (cases "newRaft (\<lambda>k. k) wit_config") (simp_all add: wit_node_def)
qed

lemma wit_storage_ok: "cStorage wit_config = Some NewMemoryStorage" "storage_ok NewMemoryStorage"
  by (simp_all add: wit_config_def storage_ok_def NewMemoryStorage_def ms_wf_def ms_view_def contig_Cons zeroEntry_def)

lemma wit_node_inv: "raft_inv wit_node" "log_view (rLog wit_node) = ms_view NewMemoryStorage" "rTerm wit_node = 0"
  using newRaft_raft_inv [OF wit_node_new wit_storage_ok] by (simp_all add: NewMemoryStorage_def emptyState_def)

lemma wit_node_room: "room n wit_node \<longleftrightarrow> n + 2 < 18446744073709551616"
  by (simp add: room_def wit_node_inv(2) alLast_def ms_view_def NewMemoryStorage_def zeroEntry_def)

text \<open>The node steps: a step that does not panic, by evaluation.\<close>

lemma step_result:
  assumes "\<not> Option.is_none (Step m r)"
  obtains r' e where "Step m r = Some (r', e)"
  using assms by (cases "Step m r") auto

definition wit_campaigner :: raft where
  "wit_campaigner = fst (the (Step (zeroMessage\<lparr>mFrom := 1, mType := MsgHup\<rparr>) wit_node))"

definition wit_vote_resp :: Message where
  "wit_vote_resp = zeroMessage\<lparr>mType := MsgVoteResp, mFrom := 2, mTo := 1, mTerm := 1\<rparr>"

lemma wit_campaigner_step: "\<exists>e. Step (zeroMessage\<lparr>mFrom := 1, mType := MsgHup\<rparr>) wit_node = Some (wit_campaigner, e)"
proof -
  have "\<not> Option.is_none (Step (zeroMessage\<lparr>mFrom := 1, mType := MsgHup\<rparr>) wit_node)" by code_simp
  then obtain r' e where "Step (zeroMessage\<lparr>mFrom := 1, mType := MsgHup\<rparr>) wit_node = Some (r', e)" by (rule step_result)
  then show ?thesis by (simp add: wit_campaigner_def)
qed

lemma wit_hup_ok: "msg_ok (zeroMessage\<lparr>mFrom := 1, mType := MsgHup\<rparr>)" "fits (zeroMessage\<lparr>mFrom := 1, mType := MsgHup\<rparr>) wit_node"
  using wit_node_room [of 1] by (simp_all add: msg_ok_def term_ok_def content_ok_def fits_def zeroMessage_def wit_node_inv(3))

lemma wit_campaigner_inv: "raft_inv wit_campaigner"
  proof -
  from wit_campaigner_step obtain e where "Step (zeroMessage\<lparr>mFrom := 1, mType := MsgHup\<rparr>) wit_node = Some (wit_campaigner, e)" by blast
  from inv.R_Step [OF this _ wit_hup_ok(2)] wit_hup_ok(1) wit_node_inv(1) show ?thesis
    by (simp add: keeps_def msg_ok_def content_ok_def)
qed

lemma wit_campaigner_facts: "rState wit_campaigner = StateCandidate" "rTerm wit_campaigner = 1"
  "alLast (log_view (rLog wit_campaigner)) = 0" "length (rMsgs wit_campaigner) = 2"
  by code_simp+

lemma wit_vote_resp_ok: "msg_ok wit_vote_resp" "fits wit_vote_resp wit_campaigner"
  by (simp_all add: msg_ok_def term_ok_def content_ok_def wit_vote_resp_def zeroMessage_def fits_def wit_campaigner_facts room_def)

lemma wit_elected: "\<exists>r' e. Step wit_vote_resp wit_campaigner = Some (r', e) \<and> rState r' = StateLeader"
proof -
  have "map_option (\<lambda>(r, e). rState r) (Step wit_vote_resp wit_campaigner) = Some StateLeader" by code_simp
  then show ?thesis by auto
qed

section \<open>Monotonicity and the invariant\<close>

text \<open>C4: through a Step that returns, the term never goes back, a vote once cast is not changed
  within its term, the commit index never goes back, the applied index, the storage and the
  node's configuration are not touched, and messages are only added to the outbox.\<close>

theorem Step_monotone:
  assumes "Step m r = Some (r', e)" and "term_ok m" and "fits m r"
  shows "rTerm r \<le> rTerm r' \<and> (rTerm r' = rTerm r \<and> rVote r \<noteq> 0 \<longrightarrow> rVote r' = rVote r)
    \<and> rlCommitted (rLog r) \<le> rlCommitted (rLog r') \<and> same_node r r' \<and> (\<exists>ms. rMsgs r' = rMsgs r @ ms)"
  using mono.R_Step [OF assms TrueI TrueI] by (auto simp: advances_def ballot_mono_def)

theorem Step_monotone_witness:
  "\<exists>r' e. Step wit_vote_resp wit_campaigner = Some (r', e) \<and> rTerm wit_campaigner \<le> rTerm r'
     \<and> rlCommitted (rLog wit_campaigner) \<le> rlCommitted (rLog r')"
  using wit_elected Step_monotone [OF _ _ wit_vote_resp_ok(2)] wit_vote_resp_ok(1) unfolding msg_ok_def by blast

text \<open>C3: Step keeps the node's invariant (role, timers, configuration, flow-control windows, log
  and entry terms), and no committed entry that is still in the log changes.\<close>

theorem Step_keeps_invariant:
  assumes "Step m r = Some (r', e)" and "msg_ok m" and "fits m r" and "raft_inv r"
  shows "raft_inv r' \<and> (\<forall>p. alBase (log_view (rLog r')) < p \<and> p \<le> unat (rlCommitted (rLog r))
    \<longrightarrow> entry_at (rLog r') p = entry_at (rLog r) p)"
  using inv.R_Step [OF assms(1) _ assms(3)] assms(2,4) by (auto simp: keeps_def log_grows_def msg_ok_def)

theorem Step_keeps_invariant_witness:
  "\<exists>r' e. Step wit_vote_resp wit_campaigner = Some (r', e) \<and> raft_inv r'"
  using wit_elected Step_keeps_invariant [OF _ wit_vote_resp_ok wit_campaigner_inv] by blast

text \<open>C17: a tick of the logical clock keeps the invariant too, moves no counter back and changes
  no committed entry.\<close>

theorem tick_keeps_invariant:
  assumes "callTick r = Some r'" and "rTerm r \<noteq> - 1" and "room 1 r" and "raft_inv r"
  shows "raft_inv r' \<and> rTerm r \<le> rTerm r' \<and> rlCommitted (rLog r) \<le> rlCommitted (rLog r')
    \<and> (\<forall>p. alBase (log_view (rLog r')) < p \<and> p \<le> unat (rlCommitted (rLog r))
      \<longrightarrow> entry_at (rLog r') p = entry_at (rLog r) p)"
  using inv.R_callTick [OF assms(1-3)] mono.R_callTick [OF assms(1-3)] assms(4)
  by (auto simp: keeps_def log_grows_def advances_def ballot_mono_def)

theorem tick_keeps_invariant_witness: "\<exists>r'. callTick wit_campaigner = Some r' \<and> raft_inv r'"
proof -
  have "\<not> Option.is_none (callTick wit_campaigner)" by code_simp
  then obtain r' where "callTick wit_campaigner = Some r'" by (cases "callTick wit_campaigner") auto
  with tick_keeps_invariant [OF this] wit_campaigner_inv show ?thesis
    by (simp add: wit_campaigner_facts room_def)
qed

text \<open>C18: applying a configuration change keeps the invariant, whatever it asks for, and never
  moves the term or the commit index back.\<close>

theorem applyConfChange_keeps_invariant:
  assumes "applyConfChange cc r = Some (r', cs)" and "raft_inv r"
  shows "raft_inv r' \<and> rTerm r \<le> rTerm r' \<and> rlCommitted (rLog r) \<le> rlCommitted (rLog r')
    \<and> (\<forall>p. alBase (log_view (rLog r')) < p \<and> p \<le> unat (rlCommitted (rLog r))
      \<longrightarrow> entry_at (rLog r') p = entry_at (rLog r) p)"
proof -
  have "rState r = StateLeader \<Longrightarrow> rStep r = StepLeader" using assms(2) by (simp add: raft_inv_def role_ok_def)
  from inv.R_applyConfChange [OF assms(1) this] mono.R_applyConfChange [OF assms(1) this] assms(2) show ?thesis
    by (auto simp: keeps_def log_grows_def advances_def ballot_mono_def)
qed

definition wit_add4 :: ConfChangeV2 where
  "wit_add4 = zeroConfChangeV2\<lparr>v2Changes := [zeroConfChangeSingle\<lparr>csType := ConfChangeAddNode, csNodeID := 4\<rparr>]\<rparr>"

theorem applyConfChange_keeps_invariant_witness:
  "\<exists>r' cs. applyConfChange wit_add4 wit_node = Some (r', cs) \<and> csVoters cs = [1, 2, 3, 4] \<and> raft_inv r'"
proof -
  have "map_option (\<lambda>(r, cs). csVoters cs) (applyConfChange wit_add4 wit_node) = Some [1, 2, 3, 4]" by code_simp
  then obtain r' cs where "applyConfChange wit_add4 wit_node = Some (r', cs)" "csVoters cs = [1, 2, 3, 4]" by auto
  with applyConfChange_keeps_invariant [OF this(1) wit_node_inv(1)] show ?thesis by blast
qed

text \<open>C16: newRaft on a well-formed storage builds a follower that satisfies the invariant, with
  the log of the storage and the saved term and vote.\<close>

theorem newRaft_establishes_invariant:
  assumes "newRaft draws c = Some r" and "cStorage c = Some ms" and "storage_ok ms"
  shows "raft_inv r \<and> rId r = cID c \<and> rState r = StateFollower \<and> rMsgs r = []
    \<and> log_view (rLog r) = ms_view ms \<and> rTerm r = hsTerm (msHardState ms)
    \<and> rVote r = hsVote (msHardState ms)"
  using newRaft_raft_inv [OF assms] .

theorem newRaft_establishes_invariant_witness: "\<exists>r. newRaft (\<lambda>k. k) wit_config = Some r \<and> raft_inv r"
  using wit_node_new newRaft_establishes_invariant [OF wit_node_new wit_storage_ok] by blast

section \<open>Committing\<close>

text \<open>C5: maybeCommit of a node with a term advances the commit index exactly when the largest
  index that a quorum of every half of the configuration has acknowledged lies above it and is
  an entry of the current term; it never panics.\<close>

theorem commit_rule:
  assumes "raft_inv r" and "rTerm r \<noteq> 0"
  shows "\<exists>b c. maybeCommit r = Some (if b then r\<lparr>rLog := (rLog r)\<lparr>rlCommitted := c\<rparr>\<rparr> else r, b)
    \<and> (b \<longleftrightarrow> rlCommitted (rLog r) < c \<and> alTerm (log_view (rLog r)) (unat c) = rTerm r)
    \<and> (\<forall>k. k \<le> c \<longleftrightarrow> k = 0 \<or> joint_quorum (Voters (trkConfig (rPrs r))) {i. \<exists>pr. get_pr i r = Some pr \<and> k \<le> prMatch pr})"
proof -
  let ?c = "Tracker_Committed (rPrs r)"
  have "ackers (AckedIndex (trkProgress (rPrs r))) k = {i. \<exists>pr. get_pr i r = Some pr \<and> k \<le> prMatch pr}" for k
    by (auto simp: ackers_def AckedIndex_def get_pr_def split: option.splits)
  then have ge: "k \<le> ?c \<longleftrightarrow> k = 0 \<or> joint_quorum (Voters (trkConfig (rPrs r))) {i. \<exists>pr. get_pr i r = Some pr \<and> k \<le> prMatch pr}" for k
    by (simp add: Tracker_Committed_def joint.committed_ge)
  obtain b where b: "raftLog_maybeCommit ?c (rTerm r) (rLog r) = Some (if b then (rLog r)\<lparr>rlCommitted := ?c\<rparr> else rLog r, b)"
    "b \<longleftrightarrow> rlCommitted (rLog r) < ?c \<and> alTerm (log_view (rLog r)) (unat ?c) = rTerm r"
    using raftLog_maybeCommit_total [of "rLog r" "rTerm r" ?c] assms by (auto simp: raft_inv_def)
  then have "maybeCommit r = Some (if b then r\<lparr>rLog := (rLog r)\<lparr>rlCommitted := ?c\<rparr>\<rparr> else r, b)"
    by (simp add: maybeCommit_def)
  with b(2) ge show ?thesis by blast
qed

theorem commit_rule_witness: "\<exists>b c. maybeCommit wit_campaigner =
    Some (if b then wit_campaigner\<lparr>rLog := (rLog wit_campaigner)\<lparr>rlCommitted := c\<rparr>\<rparr> else wit_campaigner, b)"
proof -
  have "rTerm wit_campaigner \<noteq> 0" by (simp add: wit_campaigner_facts)
  from commit_rule [OF wit_campaigner_inv this] show ?thesis by blast
qed

section \<open>Elections\<close>

lemma candidate_step:
  assumes "raft_inv r" "rState r = StateCandidate" "Step m r = Some (r', e)" "mType m = MsgVoteResp" "rState r' = StateLeader"
  shows "rTerm r' = rTerm r \<and> Joint_VoteResult (Voters (trkConfig (rPrs r)))
    (trkVotes (RecordVote (mFrom m) (\<not> mReject m) (rPrs r))) = VoteWon"
proof -
  have st: "rStep r = StepCandidate" using assms(1,2) by (simp add: raft_inv_def role_ok_def)
  from assms(3) obtain c where c: "checkTerm m r = Some c" by (auto simp: Step_def)
  show ?thesis
  proof (cases "mTerm m = 0 \<or> mTerm m = rTerm r")
    case True
    then have "checkTerm m r = Some (Go r)" by (auto simp: checkTerm_def)
    with assms(3,4) st have s: "stepCandidate m r = Some (r', e)" by (simp add: Step_def callStep_def)
    define r1 where "r1 = fst (poll (mFrom m) (\<not> mReject m) r)"
    define x where "x = Joint_VoteResult (Voters (trkConfig (rPrs r))) (trkVotes (RecordVote (mFrom m) (\<not> mReject m) (rPrs r)))"
    have p: "poll (mFrom m) (\<not> mReject m) r = (r1, x)" by (simp add: r1_def x_def poll_eq)
    have r1: "rTerm r1 = rTerm r" "rState r1 = StateCandidate" using assms(2) by (simp_all add: r1_def)
    have "(case x of VoteWon \<Rightarrow> do { r \<leftarrow> becomeLeader r1; bcastAppend r }
           | VoteLost \<Rightarrow> becomeFollower (rTerm r1) None_id r1
           | VotePending \<Rightarrow> Some r1) = Some r'"
      using s assms(2,4) r1 by (auto simp: stepCandidate_def p Let_def split: VoteResult.splits)
    then show ?thesis
      using r1 assms(5) becomeFollower_fields(4) [of "rTerm r1" None_id r1 r']
      by (auto simp flip: x_def split: VoteResult.splits dest!: sends.R_bcastAppend sent_only_fields(1) becomeLeader_fields(1))
  next
    case False
    show ?thesis
    proof (cases "mTerm m > rTerm r")
      case True
      with False assms(4) c have "map_option Go (becomeFollower (mTerm m) None_id r) = Some c" by (simp add: checkTerm_def)
      then obtain s where s: "becomeFollower (mTerm m) None_id r = Some s" "c = Go s" by auto
      with assms(3,4) c becomeFollower_fields(5) [OF s(1)] have "r' = s"
        by (simp add: Step_def callStep_def stepFollower_def)
      with becomeFollower_fields(4) [OF s(1)] assms(5) show ?thesis by simp
    next
      case lt: False
      with False have "mTerm m < rTerm r" by auto
      with False lt assms(4) c have "c = Return r" by (simp add: checkTerm_def)
      with assms c show ?thesis by (simp add: Step_def)
    qed
  qed
qed

text \<open>C7: a vote response makes a candidate the leader only with the votes of a quorum of every
  half of the configuration, recorded for its unchanged term.\<close>

theorem elected_by_quorum:
  assumes "raft_inv r" and "rState r = StateCandidate" and "Step m r = Some (r', e)" and "mType m = MsgVoteResp"
    and "rState r' = StateLeader"
  shows "rTerm r' = rTerm r \<and> joint_quorum (Voters (trkConfig (rPrs r)))
    {i. fmlookup (trkVotes (RecordVote (mFrom m) (\<not> mReject m) (rPrs r))) i = Some True}"
  using candidate_step [OF assms] by (simp add: joint.won_iff yes_votes_def)

theorem elected_by_quorum_witness: "\<exists>r' e. Step wit_vote_resp wit_campaigner = Some (r', e) \<and> rTerm r' = 1"
proof -
  from wit_elected obtain r' e where s: "Step wit_vote_resp wit_campaigner = Some (r', e)" "rState r' = StateLeader" by auto
  have "mType wit_vote_resp = MsgVoteResp" by (simp add: wit_vote_resp_def)
  from elected_by_quorum [OF wit_campaigner_inv wit_campaigner_facts(1) s(1) this s(2)] s(1) show ?thesis
    by (auto simp: wit_campaigner_facts)
qed

text \<open>The test of a vote request: the voter is free to vote for the candidate, and the
  candidate's log is at least as up to date as its own.\<close>

definition log_up_to_date :: "Message \<Rightarrow> raft \<Rightarrow> bool" where
  "log_up_to_date m r \<longleftrightarrow> (let v = log_view (rLog r); lt = alTerm v (alLast v)
     in lt < mLogTerm m \<or> (mLogTerm m = lt \<and> alLast v \<le> unat (mIndex m)))"

definition may_vote :: "Message \<Rightarrow> raft \<Rightarrow> bool" where
  "may_vote m r \<longleftrightarrow> rVote r = mFrom m \<or> (rVote r = 0 \<and> rLead r = 0)"

lemma stepVote_eq:
  assumes "log_wf (rLog r)" "mType m = MsgVote" "mTerm m \<noteq> 0" "rTerm r \<noteq> 0"
  shows "stepVote m r = Some (if may_vote m r \<and> log_up_to_date m r
    then r\<lparr>rMsgs := rMsgs r @ [zeroMessage\<lparr>mTo := mFrom m, mFrom := rId r, mTerm := mTerm m, mType := MsgVoteResp\<rparr>],
           rElectionElapsed := 0, rVote := mFrom m\<rparr>
    else r\<lparr>rMsgs := rMsgs r @ [zeroMessage\<lparr>mTo := mFrom m, mFrom := rId r, mTerm := rTerm r, mType := MsgVoteResp, mReject := True\<rparr>]\<rparr>)"
proof -
  note ok = log_wf_ok [OF assms(1)]
  have up: "(if rVote r = mFrom m \<or> (rVote r = None_id \<and> rLead r = None_id) \<or> (mType m = MsgPreVote \<and> mTerm m > rTerm r)
      then isUpToDate (rLog r) (mIndex m) (mLogTerm m) else Some False) = Some (may_vote m r \<and> log_up_to_date m r)"
    using assms(2) by (auto simp: isUpToDate_eq [OF ok] may_vote_def log_up_to_date_def None_id_def Let_def)
  have "voteRespMsgType (mType m) = Some MsgVoteResp" using assms(2) by (simp add: voteRespMsgType_def)
  then show ?thesis
    using assms(2-4) unfolding stepVote_def Let_def up
    by (simp add: lastTerm_eq [OF ok] send_def zeroMessage_def)
qed

text \<open>C11: a vote request of the current term is answered as the algorithm demands: granted, with
  the vote recorded and the election timer reset, exactly when the vote is still free (or was
  for this candidate) and the candidate's log is up to date; refused otherwise, with nothing
  else changed.\<close>

theorem vote_rule:
  assumes "raft_inv r" and "mType m = MsgVote" and "mTerm m = rTerm r" and "rTerm r \<noteq> 0"
  shows "Step m r = Some (if may_vote m r \<and> log_up_to_date m r
    then r\<lparr>rMsgs := rMsgs r @ [zeroMessage\<lparr>mTo := mFrom m, mFrom := rId r, mTerm := mTerm m, mType := MsgVoteResp\<rparr>],
           rElectionElapsed := 0, rVote := mFrom m\<rparr>
    else r\<lparr>rMsgs := rMsgs r @ [zeroMessage\<lparr>mTo := mFrom m, mFrom := rId r, mTerm := rTerm r, mType := MsgVoteResp, mReject := True\<rparr>]\<rparr>, None)"
  using stepVote_eq [of r m] assms by (simp add: Step_def checkTerm_def raft_inv_def done_ok_def)

definition wit_vote_req :: Message where
  "wit_vote_req = zeroMessage\<lparr>mType := MsgVote, mFrom := 2, mTo := 1, mTerm := 1\<rparr>"

theorem vote_rule_witness: "\<exists>r'. Step wit_vote_req wit_campaigner = Some (r', None) \<and> rVote r' = rVote wit_campaigner"
proof -
  have v: "rVote wit_campaigner = 1" by code_simp
  have n: "\<not> may_vote wit_vote_req wit_campaigner"
    using v by (simp add: may_vote_def wit_vote_req_def)
  have m: "mType wit_vote_req = MsgVote" "mTerm wit_vote_req = rTerm wit_campaigner" "rTerm wit_campaigner \<noteq> 0"
    by (simp_all add: wit_vote_req_def wit_campaigner_facts)
  show ?thesis using vote_rule [OF wit_campaigner_inv m] n by simp
qed

text \<open>C6: whatever the terms, a node that answers a vote request with a grant has the candidate as
  its vote in the candidate's term afterwards, had no other vote in that term before, and the
  candidate's log is up to date with its own.\<close>

theorem vote_granted:
  assumes "raft_inv r" and "Step m r = Some (r', e)" and "mType m = MsgVote" and "mTerm m \<noteq> 0"
    and "rMsgs r' = rMsgs r @ [v]" and "\<not> mReject v"
  shows "rTerm r' = mTerm m \<and> rVote r' = mFrom m \<and> mType v = MsgVoteResp \<and> mTo v = mFrom m \<and> mTerm v = mTerm m
    \<and> rTerm r \<le> mTerm m \<and> (rTerm r = mTerm m \<longrightarrow> rVote r = 0 \<or> rVote r = mFrom m) \<and> log_up_to_date m r"
proof -
  from assms(2) obtain c where c: "checkTerm m r = Some c" by (auto simp: Step_def)
  show ?thesis
  proof (cases c)
    case (Return s)
    with c assms(3,4) have "s = r" by (auto simp: checkTerm_def split: if_splits)
    with Return c assms(2,5) show ?thesis by (simp add: Step_def)
  next
    case (Go s)
    have wf: "log_wf (rLog s)" using checkTerm_Go(1) [OF c [unfolded Go]] assms(1) by (simp add: raft_inv_def)
    have t: "rTerm s = mTerm m" using checkTerm_Go(3) [OF c [unfolded Go]] assms(3,4) by simp
    have s: "s = r \<and> rTerm r = mTerm m \<or> rTerm r < mTerm m \<and> rMsgs s = rMsgs r"
      using c [unfolded Go] assms(3,4) t
      by (auto simp: checkTerm_def split: if_splits dest: becomeFollower_fields(9))
    have up: "log_up_to_date m s = log_up_to_date m r"
      using checkTerm_Go(1) [OF c [unfolded Go]] by (simp add: log_up_to_date_def)
    have msgs: "rMsgs s = rMsgs r" using s by auto
    have "stepVote m s = Some r'" using assms(2,3) c Go by (simp add: Step_def)
    with stepVote_eq [OF wf assms(3,4)] t assms(4)
    have r': "r' = (if may_vote m s \<and> log_up_to_date m s
    then s\<lparr>rMsgs := rMsgs s @ [zeroMessage\<lparr>mTo := mFrom m, mFrom := rId s, mTerm := mTerm m, mType := MsgVoteResp\<rparr>],
           rElectionElapsed := 0, rVote := mFrom m\<rparr>
    else s\<lparr>rMsgs := rMsgs s @ [zeroMessage\<lparr>mTo := mFrom m, mFrom := rId s, mTerm := rTerm s, mType := MsgVoteResp, mReject := True\<rparr>]\<rparr>)"
      by simp
    show ?thesis
    proof (cases "may_vote m s \<and> log_up_to_date m s")
      case True
      with r' msgs assms(5) have "v = zeroMessage\<lparr>mTo := mFrom m, mFrom := rId s, mTerm := mTerm m, mType := MsgVoteResp\<rparr>" by simp
      with True r' t s up show ?thesis by (auto simp: may_vote_def)
    next
      case False
      with r' msgs assms(5,6) show ?thesis by auto
    qed
  qed
qed

lemma wit_vote_step: "\<exists>r' e v. Step wit_vote_req wit_node = Some (r', e) \<and> rMsgs r' = rMsgs wit_node @ [v] \<and> \<not> mReject v"
proof -
  have "map_option (\<lambda>(r, e). (rMsgs r, rMsgs wit_node)) (Step wit_vote_req wit_node) =
      Some ([zeroMessage\<lparr>mTo := 2, mFrom := 1, mTerm := 1, mType := MsgVoteResp\<rparr>], [])" by code_simp
  then show ?thesis by (auto simp: zeroMessage_def)
qed

theorem vote_granted_witness: "\<exists>r' e. Step wit_vote_req wit_node = Some (r', e) \<and> rVote r' = 2 \<and> rTerm r' = 1"
proof -
  from wit_vote_step obtain r' e v where s: "Step wit_vote_req wit_node = Some (r', e)"
    "rMsgs r' = rMsgs wit_node @ [v]" "\<not> mReject v" by blast
  from vote_granted [OF wit_node_inv(1) s(1) _ _ s(2,3)] s(1) show ?thesis by (simp add: wit_vote_req_def zeroMessage_def)
qed

end
