(* ===== verification/Application.thy ===== *)
theory Application
  imports RaftProps
begin

text \<open>
  contrib/raftexample/raft.go: an application around a node. A raftNode replays its WAL into a
  MemoryStorage when it starts; then, for every Ready, it saves the hard state, the snapshot and
  the entries, sends the messages, hands the committed entries to its key-value store and from
  time to time takes a snapshot of that store and compacts the log.

  The WAL and the snapshot files hold the same data as the MemoryStorage, which the model takes
  for the persistent state: \<open>save_ready\<close> also stores the hard state there, as replayWAL does after
  a crash. What the loop sends on commitC and tells its transport is collected in lists of
  events. log.Fatalf and panic are the value None. An entry whose configuration change cannot be
  decoded has no result either (the code ignores the error and applies the fields read so far).
\<close>

datatype commit = Commit bytes | Reload

datatype peerEvent = AddPeer u64 bytes | RemovePeer u64

record raftNode =
  rcId :: u64
  rcLastIndex :: u64
  rcConfState :: ConfState
  rcSnapshotIndex :: u64
  rcAppliedIndex :: u64
  rcNode :: RawNode
  rcSnapCount :: u64
  rcCommitC :: "commit list"
  rcPeers :: "peerEvent list"

section \<open>The storage\<close>

definition storage_of :: "RawNode \<Rightarrow> MemoryStorage" where
  "storage_of rn = rlStorage (rLog (rnRaft rn))"

definition put_storage :: "MemoryStorage \<Rightarrow> RawNode \<Rightarrow> RawNode" where
  "put_storage ms rn = rn\<lparr>rnRaft := (rnRaft rn)\<lparr>rLog := (rLog (rnRaft rn))\<lparr>rlStorage := ms\<rparr>\<rparr>\<rparr>"

text \<open>The hard state, the snapshot and the entries of a Ready, in the order of the loop.\<close>

definition save_ready :: "Ready \<Rightarrow> MemoryStorage \<Rightarrow> MemoryStorage option" where
  "save_ready rd ms =
     do {
       let ms = (if IsEmptyHardState (rdHardState rd) then ms else MS_SetHardState (rdHardState rd) ms);
       let ms = (if IsEmptySnap (rdSnapshot rd) then ms else snd (MS_ApplySnapshot (rdSnapshot rd) ms));
       MS_Append (rdEntries rd) ms
     }"

text \<open>The end of maybeTriggerSnapshot: a snapshot of the applied state, then the log is compacted.\<close>

definition trigger_snapshot :: "u64 \<Rightarrow> ConfState \<Rightarrow> bytes \<Rightarrow> u64 \<Rightarrow> MemoryStorage \<Rightarrow> MemoryStorage option" where
  "trigger_snapshot appliedIndex confState data compactIndex ms =
     do {
       (res, ms) \<leftarrow> MS_CreateSnapshot appliedIndex (Some confState) data ms;
       case res of
         Inl err \<Rightarrow> None
       | Inr s \<Rightarrow>
           do {
             (err, ms) \<leftarrow> MS_Compact compactIndex ms;
             if err = None then Some ms else None
           }
     }"

definition snapshotCatchUpEntriesN :: u64 where
  "snapshotCatchUpEntriesN = 10000"

definition maybeTriggerSnapshot :: "bytes \<Rightarrow> raftNode \<Rightarrow> raftNode option" where
  "maybeTriggerSnapshot data rc =
     (if rcAppliedIndex rc - rcSnapshotIndex rc \<le> rcSnapCount rc then Some rc
      else do {
        let compactIndex = (if rcAppliedIndex rc > snapshotCatchUpEntriesN
                            then rcAppliedIndex rc - snapshotCatchUpEntriesN else 1);
        ms \<leftarrow> trigger_snapshot (rcAppliedIndex rc) (rcConfState rc) data compactIndex (storage_of (rcNode rc));
        Some (rc\<lparr>rcNode := put_storage ms (rcNode rc), rcSnapshotIndex := rcAppliedIndex rc\<rparr>)
      })"

text \<open>replayWAL, from the newest snapshot file, the hard state and the entries of the WAL; the last
  index for which startRaft sends its reload.\<close>

definition replayWAL :: "Snapshot option \<Rightarrow> HardState \<Rightarrow> entry list \<Rightarrow> (MemoryStorage \<times> u64 \<times> commit list) option" where
  "replayWAL snapshot st ents =
     do {
       let ms = NewMemoryStorage;
       let ms = (case snapshot of None \<Rightarrow> ms | Some s \<Rightarrow> snd (MS_ApplySnapshot s ms));
       let ms = MS_SetHardState st ms;
       ms \<leftarrow> MS_Append ents ms;
       Some (if ents \<noteq> [] then (ms, eIndex (last ents), []) else (ms, 0, [Reload]))
     }"

section \<open>The committed entries\<close>

definition entriesToApply :: "entry list \<Rightarrow> raftNode \<Rightarrow> entry list option" where
  "entriesToApply ents rc =
     (if ents = [] then Some ents
      else do {
        let firstIdx = eIndex (hd ents);
        panic_if (firstIdx > rcAppliedIndex rc + 1);
        if rcAppliedIndex rc - firstIdx + 1 < word_of_nat (length ents)
        then slice_of ents (unat (rcAppliedIndex rc - firstIdx + 1)) (length ents)
        else Some []
      })"

definition publish_conf :: "ConfChange \<Rightarrow> raftNode \<Rightarrow> (raftNode \<times> bool) option" where
  "publish_conf cc rc =
     do {
       (rn, cs) \<leftarrow> RawNode_ApplyConfChange (V1 cc) (rcNode rc);
       let rc = rc\<lparr>rcNode := rn, rcConfState := cs\<rparr>;
       if ccType cc = ConfChangeAddNode then
         (case ccContext cc of
            Some (b # bs) \<Rightarrow> Some (rc\<lparr>rcPeers := rcPeers rc @ [AddPeer (ccNodeID cc) (b # bs)]\<rparr>, True)
          | _ \<Rightarrow> Some (rc, True))
       else if ccType cc = ConfChangeRemoveNode then
         (if ccNodeID cc = rcId rc then Some (rc, False)
          else Some (rc\<lparr>rcPeers := rcPeers rc @ [RemovePeer (ccNodeID cc)]\<rparr>, True))
       else Some (rc, True)
     }"

definition publish_entry :: "entry \<Rightarrow> raftNode \<Rightarrow> (raftNode \<times> bool) option" where
  "publish_entry e rc =
     (if eType e = EntryNormal then
        (case eData e of
           Some (b # bs) \<Rightarrow> Some (rc\<lparr>rcCommitC := rcCommitC rc @ [Commit (b # bs)]\<rparr>, True)
         | _ \<Rightarrow> Some (rc, True))
      else if eType e = EntryConfChange then
        (case ConfChange_Unmarshal (dataOf e) zeroConfChange of
           Some (Inr cc) \<Rightarrow> publish_conf cc rc
         | _ \<Rightarrow> None)
      else Some (rc, True))"

text \<open>The result is whether all entries could be published; the stop channel stays open.\<close>

fun publishEntries :: "entry list \<Rightarrow> raftNode \<Rightarrow> (raftNode \<times> bool) option" where
  "publishEntries [] rc = Some (rc, True)"
| "publishEntries (e # es) rc =
     do {
       (rc, ok) \<leftarrow> publish_entry e rc;
       if \<not> ok then Some (rc, False)
       else
         let rc = rc\<lparr>rcAppliedIndex := eIndex e\<rparr>;
             rc = (if eIndex e = rcLastIndex rc then rc\<lparr>rcCommitC := rcCommitC rc @ [Reload]\<rparr> else rc)
         in publishEntries es rc
     }"

definition publishSnapshot :: "Snapshot \<Rightarrow> raftNode \<Rightarrow> raftNode option" where
  "publishSnapshot s rc =
     (if IsEmptySnap s then Some rc
      else if smIndex (sMetadata s) \<le> rcAppliedIndex rc then None
      else Some (rc\<lparr>rcCommitC := rcCommitC rc @ [Reload], rcConfState := smConfState (sMetadata s),
        rcSnapshotIndex := smIndex (sMetadata s), rcAppliedIndex := smIndex (sMetadata s)\<rparr>))"

text \<open>
  One round of serveChannels for a Ready. It returns the messages that have been handed to the
  transport, and whether the loop goes on.
\<close>

definition serveReady :: "bytes \<Rightarrow> raftNode \<Rightarrow> (raftNode \<times> Message list \<times> bool) option" where
  "serveReady data rc =
     do {
       (rn, rd) \<leftarrow> RawNode_Ready (rcNode rc);
       ms \<leftarrow> save_ready rd (storage_of rn);
       let rc = rc\<lparr>rcNode := put_storage ms rn\<rparr>;
       rc \<leftarrow> publishSnapshot (rdSnapshot rd) rc;
       ents \<leftarrow> entriesToApply (rdCommittedEntries rd) rc;
       (rc, ok) \<leftarrow> publishEntries ents rc;
       if \<not> ok then Some (rc, rdMessages rd, False)
       else do {
         rc \<leftarrow> maybeTriggerSnapshot data rc;
         rn \<leftarrow> RawNode_Advance rd (rcNode rc);
         Some (rc\<lparr>rcNode := rn\<rparr>, rdMessages rd, True)
       }
     }"

section \<open>What is applied\<close>

text \<open>entriesToApply keeps exactly the entries that are not yet applied.\<close>

lemma filter_contig:
  assumes "contig n es" "n \<le> k + 1"
  shows "filter (\<lambda>e. k < unat (eIndex e)) es = drop (k + 1 - n) es"
  using assms
proof (induction es arbitrary: n)
  case (Cons e es)
  show ?case
  proof (cases "n \<le> k")
    case True
    with Cons.prems Cons.IH [of "Suc n"] show ?thesis by (simp add: contig_Cons Suc_diff_le)
  next
    case False
    then have n: "n = k + 1" using Cons.prems(2) by simp
    have "\<forall>x \<in> set es. k < unat (eIndex x)"
    proof
      fix x assume "x \<in> set es"
      then obtain i where "i < length es" "es ! i = x" by (auto simp: in_set_conv_nth)
      with contig_nth [OF Cons.prems(1), of "Suc i"] n show "k < unat (eIndex x)" by simp
    qed
    then show ?thesis using Cons.prems(1) n by (simp add: contig_Cons)
  qed
qed simp

lemma entriesToApply_eq:
  assumes "contig n es" "n \<le> unat (rcAppliedIndex rc) + 1" "rcAppliedIndex rc \<noteq> - 1"
    and "length es < 18446744073709551616"
  shows "entriesToApply es rc = Some (filter (\<lambda>e. unat (rcAppliedIndex rc) < unat (eIndex e)) es)"
proof (cases "es = []")
  case False
  let ?a = "rcAppliedIndex rc" and ?f = "eIndex (hd es)"
  have f: "unat ?f = n" using assms(1) False by (rule contig_hd)
  have a1: "unat (?a + 1) = unat ?a + 1" using assms(3) by (rule unat_plus_one)
  then have le: "?f \<le> ?a + 1" using assms(2) f by (simp add: word_le_nat_alt)
  have comm: "?a - ?f + 1 = ?a + 1 - ?f" by simp
  have d: "unat (?a - ?f + 1) = unat ?a + 1 - n"
    unfolding comm using unat_minus_le [OF le] a1 f by simp
  have len: "unat (word_of_nat (length es) :: u64) = length es"
    by (rule unat_of_nat_small) (use assms(4) in simp)
  show ?thesis
    using False le d len filter_contig [OF assms(1,2)]
    by (auto simp: entriesToApply_def Let_def word_less_nat_alt word_le_nat_alt slice_of_def)
qed (simp add: entriesToApply_def)

text \<open>What an entry sends on commitC.\<close>

definition commits_of :: "u64 \<Rightarrow> entry \<Rightarrow> commit list" where
  "commits_of li e =
     (if eType e = EntryNormal \<and> dataOf e \<noteq> [] then [Commit (dataOf e)] else [])
     @ (if eIndex e = li then [Reload] else [])"

lemma publish_entry_keeps:
  assumes "publish_entry e rc = Some (rc', ok)"
  shows "rcLastIndex rc' = rcLastIndex rc" "rcAppliedIndex rc' = rcAppliedIndex rc"
    "rcCommitC rc' = rcCommitC rc @ (if eType e = EntryNormal \<and> dataOf e \<noteq> [] then [Commit (dataOf e)] else [])"
  using assms
  by (auto simp: publish_entry_def publish_conf_def dataOf_def enum_defs Let_def
      split: if_splits option.splits list.splits sum.splits prod.splits)

lemma publishEntries_commits:
  assumes "publishEntries es rc = Some (rc', True)"
  shows "rcCommitC rc' = rcCommitC rc @ concat (map (commits_of (rcLastIndex rc)) es)
    \<and> rcAppliedIndex rc' = (if es = [] then rcAppliedIndex rc else eIndex (last es))"
  using assms
proof (induction es arbitrary: rc)
  case (Cons e es)
  then obtain rc1 where rc1: "publish_entry e rc = Some (rc1, True)"
    and rest: "publishEntries es (if eIndex e = rcLastIndex rc1
      then rc1\<lparr>rcAppliedIndex := eIndex e, rcCommitC := rcCommitC rc1 @ [Reload]\<rparr>
      else rc1\<lparr>rcAppliedIndex := eIndex e\<rparr>) = Some (rc', True)"
    by (auto simp: Let_def split: prod.splits if_splits)
  from Cons.IH [OF rest] publish_entry_keeps [OF rc1] show ?case
    by (simp add: commits_of_def split: if_splits)
qed simp

section \<open>The properties\<close>

text \<open>C22: whatever committed entries a Ready repeats, the application hands each one to its store once:
  of a batch that starts no later than the entry after the last applied one, exactly the entries
  not yet applied are sent on commitC, in order, and the applied index moves to the end of the batch.\<close>

theorem each_entry_once:
  assumes "contig n ents" "n \<le> unat (rcAppliedIndex rc) + 1" "rcAppliedIndex rc \<noteq> - 1"
    and "length ents < 18446744073709551616"
    and "entriesToApply ents rc = Some new" "publishEntries new rc = Some (rc', True)"
  shows "rcCommitC rc' = rcCommitC rc @ concat (map (commits_of (rcLastIndex rc))
      (filter (\<lambda>e. unat (rcAppliedIndex rc) < unat (eIndex e)) ents))
    \<and> unat (rcAppliedIndex rc') = max (unat (rcAppliedIndex rc)) (n + length ents - 1)"
proof -
  have new: "new = filter (\<lambda>e. unat (rcAppliedIndex rc) < unat (eIndex e)) ents"
    using entriesToApply_eq [OF assms(1-4)] assms(5) by simp
  then have drop: "new = drop (unat (rcAppliedIndex rc) + 1 - n) ents"
    using filter_contig [OF assms(1,2)] by simp
  show ?thesis
  proof (cases "new = []")
    case True
    with drop assms(2) have "n + length ents - 1 \<le> unat (rcAppliedIndex rc)" by simp
    with True publishEntries_commits [OF assms(6)] new show ?thesis by (simp add: max_def)
  next
    case False
    then have "last new = last ents" "ents \<noteq> []" using drop by auto
    moreover have "unat (rcAppliedIndex rc) < n + length ents - 1" using False drop assms(2) by auto
    ultimately show ?thesis
      using False publishEntries_commits [OF assms(6)] new contig_last [OF assms(1)] by (simp add: max_def)
  qed
qed

definition wit_app :: raftNode where
  "wit_app = \<lparr>rcId = 1, rcLastIndex = 3, rcConfState = zeroConfState, rcSnapshotIndex = 0, rcAppliedIndex = 2,
     rcNode = the (NewRawNode (\<lambda>k. k) wit_config), rcSnapCount = 10000, rcCommitC = [], rcPeers = []\<rparr>"

definition wit_ents :: "entry list" where
  "wit_ents = [zeroEntry\<lparr>eIndex := 2, eData := Some [7]\<rparr>, zeroEntry\<lparr>eIndex := 3, eData := Some [8]\<rparr>, zeroEntry\<lparr>eIndex := 4\<rparr>]"

theorem each_entry_once_witness:
  "\<exists>new rc'. entriesToApply wit_ents wit_app = Some new \<and> publishEntries new wit_app = Some (rc', True)
     \<and> rcCommitC rc' = [Commit [8], Reload] \<and> unat (rcAppliedIndex rc') = 4"
proof -
  have c: "contig 2 wit_ents" "2 \<le> unat (rcAppliedIndex wit_app) + 1" "rcAppliedIndex wit_app \<noteq> - 1"
    "length wit_ents < 18446744073709551616"
    by (simp_all add: wit_ents_def wit_app_def contig_Cons)
  have new: "entriesToApply wit_ents wit_app = Some (drop 1 wit_ents)"
    using entriesToApply_eq [OF c] by (simp add: wit_ents_def wit_app_def)
  obtain rc' where rc': "publishEntries (drop 1 wit_ents) wit_app = Some (rc', True)"
    by (simp add: wit_ents_def wit_app_def publish_entry_def zeroEntry_def Let_def)
  from each_entry_once [OF c new rc'] new rc' show ?thesis
    by (simp add: wit_ents_def wit_app_def commits_of_def dataOf_def zeroEntry_def max_def)
qed

end
