(* ===== verification/Cluster.thy ===== *)
theory Cluster
  imports Application
begin

text \<open>
  A cluster: several RawNodes, each driven by an application as contrib/raftexample/raft.go
  drives its node, and a network. The application's loop calls the node (Tick, Step, Propose,
  ...), and for every Ready persists its hard state, snapshot and entries, hands its messages to
  the network and then calls Advance; a member that crashes restarts from what it has persisted.
  The network loses, repeats, delays and reorders messages: it holds every message ever sent,
  and any of them may be delivered to its addressee at any time.

  A run fixes the set \<open>cs\<close> of configurations (pairs of incoming and outgoing voters) that may be
  in force: a step whose result would use another one is not part of the run.
\<close>

section \<open>Voters\<close>

type_synonym voters = "u64 fset \<times> u64 fset"

definition voters_of :: "raft \<Rightarrow> voters" where
  "voters_of r = (let v = Voters (trkConfig (rPrs r)) in (ids_of (fst v), ids_of (snd v)))"

definition snap_voters :: "Snapshot \<Rightarrow> voters" where
  "snap_voters s = (let cs = smConfState (sMetadata s)
     in (fset_of_list (csVoters cs), fset_of_list (csVotersOutgoing cs)))"

definition voter_quorum :: "voters \<Rightarrow> u64 set \<Rightarrow> bool" where
  "voter_quorum v S \<longleftrightarrow> joint_quorum (Some (fst v), Some (snd v)) S"

text \<open>Any two quorums of configurations of the set meet.\<close>

definition overlapping :: "voters set \<Rightarrow> bool" where
  "overlapping cs \<longleftrightarrow> (\<forall>a \<in> cs. \<forall>b \<in> cs. \<forall>S T. voter_quorum a S \<longrightarrow> voter_quorum b T \<longrightarrow> S \<inter> T \<noteq> {})"

section \<open>A member and its application\<close>

text \<open>
  \<open>mbReady\<close> is the Ready that the application is working on. What the application has
  persisted is the MemoryStorage of the node, with the last hard state it has saved: the WAL
  and the snapshot files that hold the same data are not modelled.
\<close>

record member =
  mbNode :: RawNode
  mbReady :: "Ready option"

text \<open>The calls that an application makes on a node of its own accord.\<close>

datatype call =
    Campaign
  | Propose "bytes option"
  | ProposeConfChange ConfChangeI
  | Unreachable u64
  | SnapshotReport u64 SnapshotStatus
  | Transfer u64
  | Read "bytes option"

definition call_node :: "call \<Rightarrow> RawNode \<Rightarrow> RawNode option" where
  "call_node c rn =
     (case c of
        Campaign \<Rightarrow> ignore_err (RawNode_Campaign rn)
      | Propose d \<Rightarrow> ignore_err (RawNode_Propose d rn)
      | ProposeConfChange cc \<Rightarrow> ignore_err (RawNode_ProposeConfChange cc rn)
      | Unreachable i \<Rightarrow> ReportUnreachable i rn
      | SnapshotReport i st \<Rightarrow> ReportSnapshot i st rn
      | Transfer i \<Rightarrow> TransferLeader i rn
      | Read x \<Rightarrow> RawNode_ReadIndex x rn)"

text \<open>A node with room for the counters: neither its term nor its last index is at the end of the
  64-bit range.\<close>

definition roomy :: "RawNode \<Rightarrow> bool" where
  "roomy rn \<longleftrightarrow> rTerm (rnRaft rn) \<noteq> - 1 \<and> room 1 (rnRaft rn)"

section \<open>The cluster\<close>

record cluster =
  clMembers :: "u64 \<Rightarrow> member option"
  clNet :: "Message set"

definition set_member :: "u64 \<Rightarrow> member \<Rightarrow> cluster \<Rightarrow> cluster" where
  "set_member i mb c = c\<lparr>clMembers := (clMembers c)(i \<mapsto> mb)\<rparr>"

definition set_node :: "u64 \<Rightarrow> RawNode \<Rightarrow> cluster \<Rightarrow> cluster" where
  "set_node i rn c = (case clMembers c i of None \<Rightarrow> c | Some mb \<Rightarrow> set_member i (mb\<lparr>mbNode := rn\<rparr>) c)"

text \<open>A storage whose snapshot is of an admitted configuration.\<close>

definition storage_voters :: "voters set \<Rightarrow> MemoryStorage \<Rightarrow> bool" where
  "storage_voters cs ms \<longleftrightarrow> (\<not> IsEmptySnap (msSnapshot ms) \<longrightarrow> snap_voters (msSnapshot ms) \<in> cs)"

text \<open>A member at its start: a node on its storage, or one bootstrapped with its peers.\<close>

inductive fresh :: "voters set \<Rightarrow> u64 \<Rightarrow> RawNode \<Rightarrow> bool" for cs i where
  fresh_node: "\<lbrakk>NewRawNode draws conf = Some rn; cID conf = i; cStorage conf = Some ms; storage_voters cs ms;
     voters_of (rnRaft rn) \<in> cs\<rbrakk> \<Longrightarrow> fresh cs i rn"
| fresh_peers: "\<lbrakk>NewRawNode draws conf = Some rn0; cID conf = i; cStorage conf = Some NewMemoryStorage;
     Bootstrap ps rn0 = Some (rn, None); voters_of (rnRaft rn) \<in> cs\<rbrakk> \<Longrightarrow> fresh cs i rn"

definition initial :: "voters set \<Rightarrow> cluster \<Rightarrow> bool" where
  "initial cs c \<longleftrightarrow> clNet c = {} \<and>
     (\<forall>i mb. clMembers c i = Some mb \<longrightarrow> fresh cs i (mbNode mb) \<and> mbReady mb = None)"

inductive cluster_step :: "voters set \<Rightarrow> cluster \<Rightarrow> cluster \<Rightarrow> bool" for cs where
  deliver: "\<lbrakk>clMembers c i = Some mb; m \<in> clNet c; mTo m = i; mTerm m \<noteq> - 1;
     fits m (rnRaft (mbNode mb)); RawNode_Step m (mbNode mb) = Some (rn, e)\<rbrakk>
     \<Longrightarrow> cluster_step cs c (set_node i rn c)"
| invoke: "\<lbrakk>clMembers c i = Some mb; roomy (mbNode mb); call_node a (mbNode mb) = Some rn\<rbrakk>
     \<Longrightarrow> cluster_step cs c (set_node i rn c)"
| tick: "\<lbrakk>clMembers c i = Some mb; roomy (mbNode mb); RawNode_Tick (mbNode mb) = Some rn\<rbrakk>
     \<Longrightarrow> cluster_step cs c (set_node i rn c)"
| configure: "\<lbrakk>clMembers c i = Some mb; RawNode_ApplyConfChange cc (mbNode mb) = Some (rn, cst);
     voters_of (rnRaft rn) \<in> cs\<rbrakk> \<Longrightarrow> cluster_step cs c (set_node i rn c)"
| ready: "\<lbrakk>clMembers c i = Some mb; mbReady mb = None; RawNode_Ready (mbNode mb) = Some (rn, rd);
     save_ready rd (storage_of rn) = Some ms\<rbrakk>
     \<Longrightarrow> cluster_step cs c ((set_member i \<lparr>mbNode = put_storage ms rn, mbReady = Some rd\<rparr> c)
           \<lparr>clNet := clNet c \<union> set (rdMessages rd)\<rparr>)"
| advance: "\<lbrakk>clMembers c i = Some mb; mbReady mb = Some rd; roomy (mbNode mb);
     RawNode_Advance rd (mbNode mb) = Some rn\<rbrakk>
     \<Longrightarrow> cluster_step cs c (set_member i \<lparr>mbNode = rn, mbReady = None\<rparr> c)"
| compact: "\<lbrakk>clMembers c i = Some mb; trigger_snapshot j cst data k (storage_of (mbNode mb)) = Some ms;
     storage_voters cs ms\<rbrakk> \<Longrightarrow> cluster_step cs c (set_node i (put_storage ms (mbNode mb)) c)"
| restart: "\<lbrakk>clMembers c i = Some mb; NewRawNode draws conf = Some rn; cID conf = i;
     cStorage conf = Some (storage_of (mbNode mb)); voters_of (rnRaft rn) \<in> cs\<rbrakk>
     \<Longrightarrow> cluster_step cs c (set_member i \<lparr>mbNode = rn, mbReady = None\<rparr> c)"

inductive reachable :: "voters set \<Rightarrow> cluster \<Rightarrow> bool" for cs where
  reach_init: "initial cs c \<Longrightarrow> reachable cs c"
| reach_step: "reachable cs c \<Longrightarrow> cluster_step cs c c' \<Longrightarrow> reachable cs c'"


text \<open>The leaders of a term.\<close>

definition leaders :: "cluster \<Rightarrow> u64 \<Rightarrow> u64 set" where
  "leaders c t = {i. \<exists>mb. clMembers c i = Some mb \<and> rState (rnRaft (mbNode mb)) = StateLeader \<and> rTerm (rnRaft (mbNode mb)) = t}"

end
