(* ===== verification/Election.thy ===== *)
theory Election
  imports Cluster
begin

text \<open>
  Election safety. A node's votes are recorded in the messages that grant them, in the messages
  that it sends as a leader (a vote for itself) and in its persisted hard state; \<open>elects\<close>
  follows them through every step of a node, and the invariant of the cluster joins them: a node
  votes at most once in a term, and a leader has the votes of a quorum.
\<close>

section \<open>What messages say\<close>

definition is_grant :: "Message \<Rightarrow> bool" where
  "is_grant x \<longleftrightarrow> mType x = MsgVoteResp \<and> \<not> mReject x"

definition by_leader :: "Message \<Rightarrow> bool" where
  "by_leader x \<longleftrightarrow> mType x = MsgApp \<or> mType x = MsgSnap \<or> mType x = MsgHeartbeat"

text \<open>The members whose messages of a term speak as its leader.\<close>

definition leader_senders :: "cluster \<Rightarrow> u64 \<Rightarrow> u64 set" where
  "leader_senders c t = {mFrom x |x. x \<in> clNet c \<and> by_leader x \<and> mTerm x = t}"

text \<open>The vote (term and candidate) that a message stands for.\<close>

definition claims :: "Message set \<Rightarrow> (u64 \<times> u64) set" where
  "claims X = {(mTerm x, mTo x) |x. x \<in> X \<and> is_grant x} \<union> {(mTerm x, mFrom x) |x. x \<in> X \<and> by_leader x}"

text \<open>The votes granted: term, voter, candidate.\<close>

definition grants :: "Message set \<Rightarrow> (u64 \<times> u64 \<times> u64) set" where
  "grants X = {(mTerm x, mFrom x, mTo x) |x. x \<in> X \<and> is_grant x}"

lemma claims_simps [simp]:
  "claims {} = {}" "claims (X \<union> Y) = claims X \<union> claims Y"
  "claims (insert x X) = (if is_grant x then {(mTerm x, mTo x)} else {})
     \<union> (if by_leader x then {(mTerm x, mFrom x)} else {}) \<union> claims X"
  by (auto simp: claims_def)

lemma grants_mono: "X \<subseteq> Y \<Longrightarrow> grants X \<subseteq> grants Y"
  by (auto simp: grants_def)

text \<open>The candidate c has the votes of a quorum, its own and the granted ones.\<close>

definition backed :: "voters set \<Rightarrow> (u64 \<times> u64 \<times> u64) set \<Rightarrow> u64 \<Rightarrow> u64 \<Rightarrow> bool" where
  "backed cs G t c \<longleftrightarrow> (\<exists>q \<in> cs. voter_quorum q (insert c {v. (t, v, c) \<in> G}))"

lemma joint_quorum_voters: "joint_quorum v S \<longleftrightarrow> voter_quorum (ids_of (fst v), ids_of (snd v)) S"
  by (simp add: voter_quorum_def joint_quorum_def majority_quorum_def)

lemma voter_quorum_mono: "voter_quorum q S \<Longrightarrow> S \<subseteq> T \<Longrightarrow> voter_quorum q T"
  unfolding voter_quorum_def by (rule joint.Q_mono)

lemma backed_mono: "backed cs G t c \<Longrightarrow> G \<subseteq> G' \<Longrightarrow> backed cs G' t c"
  unfolding backed_def by (blast intro: voter_quorum_mono)

text \<open>What a sent message satisfies.\<close>

definition sent_ok :: "voters set \<Rightarrow> (u64 \<times> u64 \<times> u64) set \<Rightarrow> u64 \<Rightarrow> Message \<Rightarrow> bool" where
  "sent_ok cs G i x \<longleftrightarrow> mFrom x = i \<and> (is_grant x \<longrightarrow> mTerm x \<noteq> 0)
     \<and> (by_leader x \<longrightarrow> mTerm x \<noteq> 0 \<and> backed cs G (mTerm x) i)
     \<and> (mType x = MsgSnap \<longrightarrow> snap_voters (mSnapshot x) \<in> cs)"

lemma sent_ok_mono: "sent_ok cs G i x \<Longrightarrow> G \<subseteq> G' \<Longrightarrow> sent_ok cs G' i x"
  unfolding sent_ok_def by (blast intro: backed_mono)

section \<open>A node with a history of votes\<close>

definition snaps_ok :: "voters set \<Rightarrow> raftLog \<Rightarrow> bool" where
  "snaps_ok cs l \<longleftrightarrow> (\<forall>s. uSnapshot (rlUnstable l) = Some s \<longrightarrow> snap_voters s \<in> cs) \<and> storage_voters cs (rlStorage l)"

text \<open>The votes of the history are at most one per term, of terms up to the node's own, and its
  current vote if of its current term.\<close>

definition votes_once :: "(u64 \<times> u64) set \<Rightarrow> u64 \<Rightarrow> u64 \<Rightarrow> bool" where
  "votes_once H t v \<longleftrightarrow>
     (\<forall>t' c. (t', c) \<in> H \<and> c \<noteq> 0 \<longrightarrow> t' \<le> t \<and> (t' = t \<longrightarrow> v = c))
     \<and> (\<forall>t' c c'. (t', c) \<in> H \<and> (t', c') \<in> H \<and> c \<noteq> 0 \<and> c' \<noteq> 0 \<longrightarrow> c = c')"

lemma votes_once_subset: "votes_once H t v \<Longrightarrow> H' \<subseteq> H \<Longrightarrow> votes_once H' t v"
  unfolding votes_once_def by blast

lemma votes_once_insert: "votes_once H t v \<Longrightarrow> votes_once (insert (t, v) H) t v"
  unfolding votes_once_def by auto

lemma votes_once_empty [simp]: "votes_once {} t v"
  by (simp add: votes_once_def)

lemma votes_once_later:
  assumes "votes_once H t v" "t < t'"
  shows "votes_once H t' v'"
proof -
  have "a < t'" if "(a, c) \<in> H" "c \<noteq> 0" for a c
    using assms that order.strict_trans1 [of a t t'] unfolding votes_once_def by blast
  moreover have "c = c'" if "(a, c) \<in> H" "(a, c') \<in> H" "c \<noteq> 0" "c' \<noteq> 0" for a c c'
    using assms(1) that unfolding votes_once_def by blast
  ultimately show ?thesis unfolding votes_once_def by (blast intro: less_imp_le dest: less_imp_neq)
qed

lemma votes_once_grant: "votes_once H t v \<Longrightarrow> v = 0 \<or> v = c \<Longrightarrow> votes_once (insert (t, c) H) t c"
  unfolding votes_once_def by auto

definition node_ok :: "voters set \<Rightarrow> (u64 \<times> u64 \<times> u64) set \<Rightarrow> (u64 \<times> u64) set \<Rightarrow> raft \<Rightarrow> bool" where
  "node_ok cs G H r \<longleftrightarrow> rId r \<noteq> 0 \<and> role_ok r \<and> voters_of r \<in> cs \<and> snaps_ok cs (rLog r)
     \<and> votes_once H (rTerm r) (rVote r)
     \<and> (rState r = StateCandidate \<longrightarrow> yes_votes (trkVotes (rPrs r)) \<subseteq> insert (rId r) {v. (rTerm r, v, rId r) \<in> G})
     \<and> (rState r = StateLeader \<longrightarrow> backed cs G (rTerm r) (rId r))"

lemma node_ok_subset: "node_ok cs G H r \<Longrightarrow> H' \<subseteq> H \<Longrightarrow> node_ok cs G H' r"
  unfolding node_ok_def by (blast intro: votes_once_subset)

lemma node_ok_mono: "node_ok cs G H r \<Longrightarrow> G \<subseteq> G' \<Longrightarrow> node_ok cs G' H r"
  unfolding node_ok_def by (blast intro: backed_mono)

text \<open>What follows a node: whatever its history, it stays in order when the votes that its new
  messages stand for are added.\<close>

definition elects :: "voters set \<Rightarrow> (u64 \<times> u64 \<times> u64) set \<Rightarrow> raft \<Rightarrow> raft \<Rightarrow> bool" where
  "elects cs G r r' \<longleftrightarrow> rId r' = rId r \<and> (\<exists>ms. rMsgs r' = rMsgs r @ ms \<and>
     (\<forall>H. node_ok cs G H r \<longrightarrow> node_ok cs G (H \<union> claims (set ms)) r' \<and> (\<forall>x \<in> set ms. sent_ok cs G (rId r) x)))"

definition counts :: "(u64 \<times> u64 \<times> u64) set \<Rightarrow> raft \<Rightarrow> u64 \<Rightarrow> bool \<Rightarrow> bool" where
  "counts G r i v \<longleftrightarrow> (v \<longrightarrow> rState r = StateCandidate \<longrightarrow> i = rId r \<or> (rTerm r, i, rId r) \<in> G)"

definition carries :: "voters set \<Rightarrow> Message \<Rightarrow> bool" where
  "carries cs m \<longleftrightarrow> (mType m = MsgSnap \<longrightarrow> snap_voters (mSnapshot m) \<in> cs)"

lemma elects_trans:
  assumes "elects cs G r s" "elects cs G s u"
  shows "elects cs G r u"
proof -
  from assms(1) obtain ms where ms: "rId s = rId r" "rMsgs s = rMsgs r @ ms"
    "\<And>H. node_ok cs G H r \<Longrightarrow> node_ok cs G (H \<union> claims (set ms)) s \<and> (\<forall>x \<in> set ms. sent_ok cs G (rId r) x)"
    unfolding elects_def by blast
  from assms(2) obtain ms' where ms': "rId u = rId s" "rMsgs u = rMsgs s @ ms'"
    "\<And>H. node_ok cs G H s \<Longrightarrow> node_ok cs G (H \<union> claims (set ms')) u \<and> (\<forall>x \<in> set ms'. sent_ok cs G (rId s) x)"
    unfolding elects_def by blast
  have "node_ok cs G (H \<union> claims (set (ms @ ms'))) u \<and> (\<forall>x \<in> set (ms @ ms'). sent_ok cs G (rId r) x)"
    if "node_ok cs G H r" for H
    using ms(3) [OF that] ms'(3) [of "H \<union> claims (set ms)"] ms(1) by (auto simp: Un_assoc)
  then show ?thesis using ms(1,2) ms'(1,2) unfolding elects_def by (intro conjI exI [of _ "ms @ ms'"]) auto
qed

text \<open>An update without a message.\<close>

lemma electsI:
  assumes "rId r' = rId r" "rMsgs r' = rMsgs r" "\<And>H. node_ok cs G H r \<Longrightarrow> node_ok cs G H r'"
  shows "elects cs G r r'"
  using assms unfolding elects_def by (intro conjI exI [of _ "[]"]) auto

lemma elects_same:
  assumes "rId r' = rId r" "rMsgs r' = rMsgs r" "rTerm r' = rTerm r" "rVote r' = rVote r" "rState r' = rState r"
    "rStep r' = rStep r" "rTick r' = rTick r" "rLead r' = rLead r" "trkConfig (rPrs r') = trkConfig (rPrs r)"
    "trkVotes (rPrs r') = trkVotes (rPrs r)" "snaps_ok cs (rLog r) \<Longrightarrow> snaps_ok cs (rLog r')"
  shows "elects cs G r r'"
  by (rule electsI) (use assms in \<open>auto simp: node_ok_def role_ok_def voters_of_def cong: StateType.case_cong\<close>)

lemma elects_refl: "elects cs G r r"
  by (rule elects_same) simp_all

text \<open>An update that sends one message.\<close>

lemma elects_one:
  assumes "rMsgs r' = rMsgs r @ [x]" "rId r' = rId r"
    and "\<And>H. node_ok cs G H r \<Longrightarrow> node_ok cs G (H \<union> claims {x}) r'"
    and "\<And>H. node_ok cs G H r \<Longrightarrow> sent_ok cs G (rId r) x"
  shows "elects cs G r r'"
  using assms unfolding elects_def by (intro conjI exI [of _ "[x]"]) auto

lemma node_ok_msgs [simp]: "node_ok cs G H (r\<lparr>rMsgs := ms\<rparr>) = node_ok cs G H r"
  by (simp add: node_ok_def role_ok_def voters_of_def cong: StateType.case_cong)

lemma node_ok_claims:
  assumes "node_ok cs G H r" "claims X \<subseteq> H \<union> {(rTerm r, rVote r)}"
  shows "node_ok cs G (H \<union> claims X) r"
proof -
  have "votes_once (H \<union> claims X) (rTerm r) (rVote r)"
    using assms votes_once_subset [OF votes_once_insert, of H "rTerm r" "rVote r" "H \<union> claims X"]
    by (auto simp: node_ok_def)
  then show ?thesis using assms(1) by (simp add: node_ok_def)
qed

lemma leader_claim:
  assumes "node_ok cs G H r" "rStep r = StepLeader"
  shows "rTerm r \<noteq> 0" "rVote r = rId r" "backed cs G (rTerm r) (rId r)"
  using assms by (auto simp: node_ok_def role_ok_def split: StateType.splits)

lemma elects_send_leader:
  assumes "send m r = Some r'" "by_leader m" "rStep r = StepLeader"
    "\<And>H. node_ok cs G H r \<Longrightarrow> mType m = MsgSnap \<Longrightarrow> snap_voters (mSnapshot m) \<in> cs"
  shows "elects cs G r r'"
proof -
  define x where "x = m\<lparr>mFrom := rId r, mTerm := rTerm r\<rparr>"
  have r': "r' = r\<lparr>rMsgs := rMsgs r @ [x]\<rparr>"
    using assms(1,2) by (auto simp: send_def by_leader_def x_def split: if_splits)
  have x: "by_leader x" "\<not> is_grant x" "mTerm x = rTerm r" "mFrom x = rId r" "mType x = mType m" "mSnapshot x = mSnapshot m"
    using assms(2) by (auto simp: x_def by_leader_def is_grant_def)
  show ?thesis unfolding r'
  proof (rule elects_one)
    fix H assume n: "node_ok cs G H r"
    note l = leader_claim [OF n assms(3)]
    show "node_ok cs G (H \<union> claims {x}) (r\<lparr>rMsgs := rMsgs r @ [x]\<rparr>)"
      using node_ok_claims [OF n, of "{x}"] x l by simp
    show "sent_ok cs G (rId r) x" using x l assms(4) [OF n] by (simp add: sent_ok_def)
  qed simp_all
qed

lemma elects_send: "send m r = Some r' \<Longrightarrow> quiet m \<Longrightarrow> elects cs G r r'"
proof -
  assume s: "send m r = Some r'" and q: "quiet m"
  from s obtain x where r': "r' = r\<lparr>rMsgs := rMsgs r @ [x]\<rparr>"
    and x: "x = m\<lparr>mFrom := rId r\<rparr> \<or> x = m\<lparr>mFrom := rId r, mTerm := rTerm r\<rparr>" by (rule send_SomeE)
  have f: "mFrom x = rId r" "\<not> is_grant x" "\<not> by_leader x"
    using x q by (auto simp: quiet_def plain_def is_grant_def by_leader_def)
  show ?thesis unfolding r'
    by (rule elects_one) (use f in \<open>auto simp: sent_ok_def by_leader_def\<close>)
qed

lemma elects_heartbeat:
  "send m r = Some r' \<Longrightarrow> mType m = MsgHeartbeat \<Longrightarrow> rStep r = StepLeader \<Longrightarrow> elects cs G r r'"
  by (rule elects_send_leader) (auto simp: by_leader_def)

lemma elects_put: "elects cs G r (put_pr i pr r)"
  by (rule elects_same) simp_all

lemma elects_maybeSendAppend:
  assumes "maybeSendAppend to b r = Some (r', x)" "rStep r = StepLeader"
  shows "elects cs G r r'"
  using assms(1)
proof (cases rule: maybeSendAppend_cases)
  case quiet
  then show ?thesis by (simp add: elects_refl)
next
  case (entries pr pr' t es)
  have "elects cs G (put_pr to pr' r) r'" using assms(2)
    by (intro elects_send_leader [OF entries(9)]) (auto simp: by_leader_def)
  then show ?thesis by (rule elects_trans [OF elects_put])
next
  case (snapshot pr s)
  have "snap_voters s \<in> cs" if "node_ok cs G H r" for H
    using snapshot(5,6) that
    by (auto simp: node_ok_def snaps_ok_def storage_voters_def raftLog_snapshot_def MS_Snapshot_def split: option.splits)
  then have "elects cs G (put_pr to (BecomeSnapshot (smIndex (sMetadata s)) pr) r) r'" using assms(2)
    by (intro elects_send_leader [OF snapshot(7)])
      (auto simp: by_leader_def node_ok_def voters_of_def role_ok_def cong: StateType.case_cong)
  then show ?thesis by (rule elects_trans [OF elects_put])
qed

section \<open>The elementary updates\<close>

lemma truncateAndAppend_snap: "truncateAndAppend es u = Some u' \<Longrightarrow> uSnapshot u' = uSnapshot u"
  by (auto simp: truncateAndAppend_def Let_def split: if_splits)

lemma raftLog_append_snap:
  "raftLog_append es l = Some (l', i) \<Longrightarrow> uSnapshot (rlUnstable l') = uSnapshot (rlUnstable l) \<and> rlStorage l' = rlStorage l"
  by (auto simp: raftLog_append_def Let_def split: if_splits dest: truncateAndAppend_snap)

lemma commitTo_snap:
  "commitTo c l = Some l' \<Longrightarrow> uSnapshot (rlUnstable l') = uSnapshot (rlUnstable l) \<and> rlStorage l' = rlStorage l"
  by (auto dest: commitTo_Some)

lemma maybeAppend_snap:
  assumes "maybeAppend i t c es l = Some (l', li, ok)"
  shows "uSnapshot (rlUnstable l') = uSnapshot (rlUnstable l) \<and> rlStorage l' = rlStorage l"
proof -
  from assms consider "l' = l" | "commitTo (min c (i + word_of_nat (length es))) l = Some l'"
    | l1 es' li' where "commitTo (min c (i + word_of_nat (length es))) l1 = Some l'" "raftLog_append es' l = Some (l1, li')"
    by (auto simp: maybeAppend_def Let_def split: if_splits)
  then show ?thesis by cases (auto dest!: commitTo_snap raftLog_append_snap)
qed

lemma snaps_ok_cong:
  "uSnapshot (rlUnstable l') = uSnapshot (rlUnstable l) \<and> rlStorage l' = rlStorage l \<Longrightarrow> snaps_ok cs l \<Longrightarrow> snaps_ok cs l'"
  by (simp add: snaps_ok_def)

lemma elects_log:
  "uSnapshot (rlUnstable l) = uSnapshot (rlUnstable (rLog r)) \<and> rlStorage l = rlStorage (rLog r)
    \<Longrightarrow> elects cs G r (r\<lparr>rLog := l\<rparr>)"
  by (rule elects_same) (auto intro: snaps_ok_cong)

lemma elects_soft: "soft_eq r r' \<Longrightarrow> elects cs G r r'"
proof -
  assume s: "soft_eq r r'"
  show ?thesis by (rule elects_same; subst conjunct1 [OF s [unfolded soft_eq_def]]) simp_all
qed

lemma elects_setLead: "rStep r = StepFollower \<Longrightarrow> elects cs G r (r\<lparr>rElectionElapsed := 0, rLead := l\<rparr>)"
  by (rule electsI) (auto simp: node_ok_def role_ok_def voters_of_def split: StateType.splits)

lemma elects_poll: "counts G r i v \<Longrightarrow> elects cs G r (fst (poll i v r))"
  by (rule electsI)
    (auto simp: poll_eq node_ok_def role_ok_def voters_of_def counts_def RecordVote_def yes_votes_def
      split: if_splits option.splits StateType.splits)

lemma elects_grant:
  assumes "send (zeroMessage\<lparr>mTo := c, mTerm := rTerm r, mType := MsgVoteResp\<rparr>) r = Some r'" "rVote r = 0 \<or> rVote r = c"
  shows "elects cs G r (r'\<lparr>rElectionElapsed := 0, rVote := c\<rparr>)"
proof -
  define x where "x = zeroMessage\<lparr>mTo := c, mTerm := rTerm r, mType := MsgVoteResp, mFrom := rId r\<rparr>"
  have r': "r' = r\<lparr>rMsgs := rMsgs r @ [x]\<rparr>" and t: "rTerm r \<noteq> 0"
    using assms(1) by (auto simp: send_def x_def split: if_splits)
  have x: "is_grant x" "\<not> by_leader x" "mTerm x = rTerm r" "mTo x = c" "mFrom x = rId r" "mType x \<noteq> MsgSnap"
    by (simp_all add: x_def is_grant_def by_leader_def zeroMessage_def)
  show ?thesis
  proof (rule elects_one)
    fix H assume n: "node_ok cs G H r"
    have "H \<union> claims {x} = insert (rTerm r, c) H" using x by simp
    moreover have "votes_once H (rTerm r) (rVote r)" using n by (simp add: node_ok_def)
    ultimately have "votes_once (H \<union> claims {x}) (rTerm r) c"
      using votes_once_grant assms(2) by metis
    moreover have "rVote r = rId r \<Longrightarrow> c = rId r" using n assms(2) by (auto simp: node_ok_def)
    ultimately show "node_ok cs G (H \<union> claims {x}) (r'\<lparr>rElectionElapsed := 0, rVote := c\<rparr>)"
      using n by (auto simp: r' node_ok_def role_ok_def voters_of_def split: StateType.splits)
    show "sent_ok cs G (rId r) x" using x t by (simp add: sent_ok_def)
  qed (simp_all add: r')
qed

lemma elects_active:
  "elects cs G r (r\<lparr>rPrs := Visit_update (\<lambda>i pr. if i \<noteq> rId r then pr\<lparr>prRecentActive := False\<rparr> else pr) (rPrs r)\<rparr>)"
  by (rule elects_same) (simp_all add: Visit_update_eq)

lemma elects_maybeCommit: "maybeCommit r = Some (r', b) \<Longrightarrow> elects cs G r r'"
  by (drule maybeCommit_Some(1)) (auto intro: elects_refl elects_log)

lemma elects_appendEntry: "appendEntry es r = Some (r', b) \<Longrightarrow> elects cs G r r'"
proof (erule appendEntry_Some)
  fix li l i pr r1 c
  assume a: "raftLog_append (stamp (rTerm r) (li + 1) es) (rLog r) = Some (l, i)"
    "r1 = put_pr (rId r) (fst (MaybeUpdate i pr))
        (r\<lparr>rUncommittedSize := rUncommittedSize r + payloads (stamp (rTerm r) (li + 1) es), rLog := l\<rparr>)"
    "maybeCommit r1 = Some (r', c)"
  have "elects cs G r r1"
    by (rule elects_same) (use raftLog_append_snap [OF a(1)] in \<open>auto simp: a(2) intro: snaps_ok_cong\<close>)
  then show ?thesis using elects_maybeCommit [OF a(3)] by (rule elects_trans)
qed (simp add: elects_refl)

lemma elects_becomeFollower:
  assumes "becomeFollower t l r = Some r'" "rTerm r \<le> t"
  shows "elects cs G r r'"
proof (rule electsI)
  note f = becomeFollower_fields [OF assms(1)]
  show "rId r' = rId r" "rMsgs r' = rMsgs r" by (fact f)+
  fix H assume n: "node_ok cs G H r"
  have "votes_once H t (rVote r')"
    using n assms(2) votes_once_later [of H "rTerm r" "rVote r" t "rVote r'"] f(2)
    by (cases "rTerm r = t") (auto simp: node_ok_def)
  then show "node_ok cs G H r'" using n f by (auto simp: node_ok_def role_ok_def voters_of_def)
qed

lemma elects_becomeCandidate:
  assumes "becomeCandidate r = Some r'" "rTerm r \<noteq> - 1"
  shows "elects cs G r r'"
proof (rule electsI)
  note f = becomeCandidate_fields [OF assms(1)]
  show "rId r' = rId r" "rMsgs r' = rMsgs r" by (fact f)+
  have lt: "rTerm r < rTerm r + 1" using assms(2) by (rule less_plus_one)
  then have "rTerm r + 1 \<noteq> 0" by auto
  have v: "trkVotes (rPrs r') = fmempty"
    using assms(1) by (auto simp: becomeCandidate_def reset_prs_def elim!: reset_SomeE)
  fix H assume n: "node_ok cs G H r"
  have "votes_once H (rTerm r + 1) (rId r)"
    using n lt votes_once_later [of H "rTerm r" "rVote r"] by (auto simp: node_ok_def)
  then show "node_ok cs G H r'" using n f v \<open>rTerm r + 1 \<noteq> 0\<close>
    by (auto simp: node_ok_def role_ok_def voters_of_def yes_votes_def)
qed

lemma elects_becomePreCandidate: "becomePreCandidate r = Some r' \<Longrightarrow> elects cs G r r'"
  by (rule electsI)
    (auto simp: becomePreCandidate_def node_ok_def role_ok_def voters_of_def ResetVotes_def None_id_def)

lemma elects_becomeLeader:
  assumes "becomeLeader r = Some r'" "rState r \<noteq> StatePreCandidate"
    "Joint_VoteResult (Voters (trkConfig (rPrs r))) (trkVotes (rPrs r)) = VoteWon"
  shows "elects cs G r r'"
proof -
  from assms(1) obtain r1 pr li r2 where nf: "rState r \<noteq> StateFollower"
    and r1: "reset (rTerm r) (r\<lparr>rStep := StepLeader\<rparr>) = Some r1"
    and a: "appendEntry [zeroEntry] ((put_pr (rId r1) (BecomeReplicate pr)
      (r1\<lparr>rTick := TickHeartbeat, rLead := rId r1, rState := StateLeader\<rparr>))\<lparr>rPendingConfIndex := li\<rparr>) = Some (r2, True)"
    and r': "r' = reduceUncommittedSize [zeroEntry] r2"
    unfolding becomeLeader_def Let_def by auto
  let ?r1 = "(put_pr (rId r1) (BecomeReplicate pr)
      (r1\<lparr>rTick := TickHeartbeat, rLead := rId r1, rState := StateLeader\<rparr>))\<lparr>rPendingConfIndex := li\<rparr>"
  have f: "rTerm r1 = rTerm r" "rVote r1 = rVote r" "rId r1 = rId r" "rLog r1 = rLog r" "rMsgs r1 = rMsgs r"
    "trkConfig (rPrs r1) = trkConfig (rPrs r)" "rStep r1 = StepLeader"
    using r1 by (rule reset_SomeE, simp add: reset_prs_def)+
  have won: "voter_quorum (voters_of r) (yes_votes (trkVotes (rPrs r)))"
    using assms(3) by (simp add: joint.won_iff joint_quorum_voters voters_of_def Let_def)
  have "elects cs G r ?r1"
  proof (rule electsI)
    fix H assume n: "node_ok cs G H r"
    have "rState r = StateCandidate \<or> rState r = StateLeader" using nf assms(2) by (cases "rState r") auto
    then have b: "backed cs G (rTerm r) (rId r)" "rTerm r \<noteq> 0" "rVote r = rId r"
      using n won by (auto simp: node_ok_def backed_def role_ok_def intro: voter_quorum_mono)
    then show "node_ok cs G H ?r1" using n f by (auto simp: node_ok_def role_ok_def voters_of_def)
  qed (simp_all add: f)
  moreover note elects_appendEntry [OF a]
  moreover have "elects cs G r2 r'" unfolding r'
    by (rule elects_soft) (simp add: soft_eq_def reduceUncommittedSize_def Let_def)
  ultimately show ?thesis by (blast intro: elects_trans)
qed

text \<open>A snapshot is installed with its own configuration.\<close>

lemma Equivalent_voters:
  assumes "ConfState_Equivalent a b"
  shows "set (csVoters a) = set (csVoters b)" "set (csVotersOutgoing a) = set (csVotersOutgoing b)"
proof -
  from assms have e: "a\<lparr>csVoters := sort (csVoters a), csLearners := sort (csLearners a),
      csVotersOutgoing := sort (csVotersOutgoing a), csLearnersNext := sort (csLearnersNext a)\<rparr>
    = b\<lparr>csVoters := sort (csVoters b), csLearners := sort (csLearners b),
      csVotersOutgoing := sort (csVotersOutgoing b), csLearnersNext := sort (csLearnersNext b)\<rparr>"
    by (simp add: ConfState_Equivalent_def Let_def)
  have "sort (csVoters a) = sort (csVoters b)" "sort (csVotersOutgoing a) = sort (csVotersOutgoing b)"
    using arg_cong [OF e, of csVoters] arg_cong [OF e, of csVotersOutgoing] by simp_all
  then show "set (csVoters a) = set (csVoters b)" "set (csVotersOutgoing a) = set (csVotersOutgoing b)"
    by (metis set_sort)+
qed

lemma ConfState_voters:
  assumes "ConfState_Equivalent a (Tracker_ConfState (rPrs r))"
  shows "(fset_of_list (csVoters a), fset_of_list (csVotersOutgoing a)) = voters_of r"
  using Equivalent_voters [OF assms]
  by (auto simp: voters_of_def Tracker_ConfState_def Majority_Slice_def Let_def fset_of_list.rep_eq simp flip: fset_inject)

lemma elects_install:
  assumes "restore (mSnapshot m) r = Some (r', True)" "mType m = MsgSnap" "carries cs m"
  shows "elects cs G r r'"
  using assms(1)
proof (rule restore_True)
  fix cfg prs li cst pr
  let ?s = "mSnapshot m"
  let ?r1 = "r\<lparr>rLog := raftLog_restore ?s (rLog r), rPrs := MakeProgressTracker (trkMaxInflight (rPrs r))\<rparr>"
  assume i: "rState r = StateFollower"
    and e: "assertConfStatesEquivalent (smConfState (sMetadata ?s)) cst = Some ()"
    and r': "r' = put_pr (rId r) (fst (MaybeUpdate (prNext pr - 1) pr)) (switched cfg prs ?r1)"
    and cst: "cst = Tracker_ConfState (rPrs (switched cfg prs ?r1))"
  have sv: "snap_voters ?s \<in> cs" using assms(2,3) by (simp add: carries_def)
  have "ConfState_Equivalent (smConfState (sMetadata ?s)) (Tracker_ConfState (rPrs (switched cfg prs ?r1)))"
    using e by (simp add: assertConfStatesEquivalent_def cst)
  from ConfState_voters [OF this] have v: "voters_of (switched cfg prs ?r1) = snap_voters ?s"
    by (simp add: snap_voters_def Let_def)
  have "elects cs G r (switched cfg prs ?r1)"
  proof (rule electsI)
    fix H assume n: "node_ok cs G H r"
    have "snaps_ok cs (raftLog_restore ?s (rLog r))"
      using n sv by (simp add: node_ok_def snaps_ok_def raftLog_restore_def unstable_restore_def)
    then show "node_ok cs G H (switched cfg prs ?r1)"
      using n v sv i by (simp add: node_ok_def role_ok_def switched_def)
  qed (simp_all add: switched_def)
  then show ?thesis unfolding r' by (rule elects_trans [OF _ elects_put])
qed

interpretation el: raft_steps "elects cs G" "counts G" "carries cs" for cs G
  by unfold_locales
    (rule elects_refl elects_put elects_active
     | erule (1) elects_trans elects_send elects_heartbeat elects_maybeSendAppend elects_grant elects_becomeFollower
        elects_becomeCandidate
     | erule elects_soft elects_setLead elects_poll elects_maybeCommit elects_appendEntry elects_becomePreCandidate
     | erule (2) elects_install
     | erule (1) elects_becomeLeader, assumption
     | (rule elects_log, erule maybeAppend_snap)
     | (rule elects_log, erule commitTo_snap)
     | simp add: counts_def)+

section \<open>The steps of a member\<close>

lemma deliver_elects:
  assumes "Step m r = Some (r', e)" "m \<in> N" "sent_ok cs (grants N) (mFrom m) m" "mTo m = rId r"
    "mTerm m \<noteq> - 1" "fits m r"
  shows "elects cs (grants N) r r'"
  using assms(1)
proof (rule el.R_Step)
  show "term_ok m" using assms(3,5) by (auto simp: term_ok_def sent_ok_def by_leader_def)
  show "fits m r" by fact
  show "carries cs m" using assms(3) by (simp add: carries_def sent_ok_def)
  fix s assume c: "checkTerm m r = Some (Go s)" and a: "answers m s"
  show "counts (grants N) s (mFrom m) (\<not> mReject m)"
    unfolding counts_def
  proof (intro impI)
    assume "\<not> mReject m" "rState s = StateCandidate"
    then have g: "is_grant m" "mType m = MsgVoteResp" using a by (simp_all add: answers_def is_grant_def)
    then have "rTerm s = mTerm m" using checkTerm_Go(3) [OF c] assms(3) by (simp add: sent_ok_def)
    then show "mFrom m = rId s \<or> (rTerm s, mFrom m, rId s) \<in> grants N"
      using g(1) assms(2,4) checkTerm_Go(2) [OF c] by (auto simp: grants_def)
  qed
qed

text \<open>A call of the application is a Step of a message without a term.\<close>

lemma call_node_step:
  assumes "call_node a rn = Some rn'"
  obtains m e where "Step m (rnRaft rn) = Some (rnRaft rn', e)" "mTerm m = 0" "length (mEntries m) \<le> 1"
    "mType m \<notin> {MsgApp, MsgHeartbeat, MsgSnap, MsgVoteResp, MsgPreVoteResp}" "rn' = rn\<lparr>rnRaft := rnRaft rn'\<rparr>"
proof -
  have "\<exists>m. (\<exists>e. step_raft m rn = Some (rn', e)) \<and> mTerm m = 0 \<and> length (mEntries m) \<le> 1
      \<and> mType m \<notin> {MsgApp, MsgHeartbeat, MsgSnap, MsgVoteResp, MsgPreVoteResp}"
    using assms
    by (cases a)
      (auto simp: call_node_def ignore_err_def RawNode_Campaign_def RawNode_Propose_def RawNode_ProposeConfChange_def
        confChangeToMsg_def ReportUnreachable_def ReportSnapshot_def TransferLeader_def RawNode_ReadIndex_def Let_def
        zeroMessage_def)
  then obtain m e where "step_raft m rn = Some (rn', e)" and m: "mTerm m = 0" "length (mEntries m) \<le> 1"
    "mType m \<notin> {MsgApp, MsgHeartbeat, MsgSnap, MsgVoteResp, MsgPreVoteResp}" by blast
  then have s: "Step m (rnRaft rn) = Some (rnRaft rn', e)" "rn' = rn\<lparr>rnRaft := rnRaft rn'\<rparr>"
    by (auto simp: step_raft_def)
  show thesis by (rule that [OF s(1) m s(2)])
qed

lemma call_elects:
  assumes "Step m r = Some (r', e)" "mTerm m = 0" "length (mEntries m) \<le> 1"
    "mType m \<notin> {MsgApp, MsgHeartbeat, MsgSnap, MsgVoteResp, MsgPreVoteResp}" "rTerm r \<noteq> - 1" "room 1 r"
  shows "elects cs G r r'" "rlStorage (rLog r') = rlStorage (rLog r)"
proof -
  have f: "fits m r" using assms(3,5,6) by (auto simp: fits_def room_def)
  have t: "term_ok m" using assms(2,4) by (auto simp: term_ok_def)
  show "elects cs G r r'"
    by (rule el.R_Step [OF assms(1) t f]) (use assms(4) in \<open>auto simp: answers_def split: if_splits\<close>)
  show "rlStorage (rLog r') = rlStorage (rLog r)"
    using mono.R_Step [OF assms(1) t f TrueI TrueI] by (simp add: advances_def same_node_def)
qed

lemma switchSend_config: "switchSend r = Some r' \<Longrightarrow> trkConfig (rPrs r') = trkConfig (rPrs r)"
proof -
  assume "switchSend r = Some r'"
  then obtain r2 c r3 where c: "maybeCommit r = Some (r2, c)"
    and h: "(if c then bcastAppend r2 else Visit (\<lambda>i s. do { (s, _) \<leftarrow> maybeSendAppend i False s; Some s }) r2) = Some r3"
    and r': "r' = (if get_pr (rLeadTransferee r3) r3 = None \<and> rLeadTransferee r3 \<noteq> 0 then abortLeaderTransfer r3 else r3)"
    unfolding switchSend_def by auto
  have "sent_only s s'" if "Visit (\<lambda>i s. do { (s, _) \<leftarrow> maybeSendAppend i False s; Some s }) s = Some s'" for s s'
    using that by (rule sends.R_Visit) (auto intro: sends.R_maybeSendAppend)
  then have "sent_only r2 r3" using h sends.R_bcastAppend by (cases c) auto
  then show ?thesis using maybeCommit_Some(1) [OF c] sent_only_fields(6) by (auto simp: r' abortLeaderTransfer_def)
qed

lemma configure_elects:
  assumes "applyConfChange cc r = Some (r', cst)" "voters_of r' \<in> cs" "role_ok r"
  shows "elects cs G r r'" "rlStorage (rLog r') = rlStorage (rLog r)"
proof -
  have lead: "rState r = StateLeader \<Longrightarrow> rStep r = StepLeader" using assms(3) by (simp add: role_ok_def)
  show "rlStorage (rLog r') = rlStorage (rLog r)"
    using mono.R_applyConfChange [OF assms(1) lead] by (simp add: advances_def same_node_def)
  from assms(1) obtain cfg prs where s: "switchToConfig cfg prs r = Some (r', cst)"
    by (auto simp: applyConfChange_def split: sum.splits)
  have "trkConfig (rPrs r') = trkConfig (rPrs (switched cfg prs r))"
    using switchToConfig_Some(2) [OF s] switchSend_config by auto
  then have v: "voters_of (switched cfg prs r) \<in> cs" using assms(2) by (simp add: voters_of_def)
  have "elects cs G r (switched cfg prs r)"
  proof (rule electsI)
    fix H assume "node_ok cs G H r"
    then show "node_ok cs G H (switched cfg prs r)" using v
      by (simp add: node_ok_def role_ok_def switched_def cong: StateType.case_cong)
  qed (simp_all add: switched_def)
  moreover have "elects cs G (switched cfg prs r) r'" if "switchSend (switched cfg prs r) = Some r'" "rState r = StateLeader"
    using that lead by (intro el.R_switchSend) (simp_all add: switched_def)
  ultimately show "elects cs G r r'" using switchToConfig_Some(2) [OF s] by (auto intro: elects_trans)
qed

lemma advance_elects:
  assumes "raft_advance rd r = Some r'"
  shows "elects cs G r r'" "rlStorage (rLog r') = rlStorage (rLog r)"
proof -
  define P where "P s = (elects cs G r s \<and> rlStorage (rLog s) = rlStorage (rLog r))" for s
  have step: "P t" if "P s" "elects cs G s t" "rlStorage (rLog t) = rlStorage (rLog s)" for s t
    using that unfolding P_def by (auto intro: elects_trans)
  have log: "P (s\<lparr>rLog := l\<rparr>)" if "P s" "uSnapshot (rlUnstable l) = uSnapshot (rlUnstable (rLog s)) \<and> rlStorage l = rlStorage (rLog s)" for s l
    using step [OF that(1) elects_log [OF that(2)]] that(2) by simp
  have P0: "P r" by (simp add: P_def elects_refl)
  from assms obtain r1 r2 where
    r1: "(if appliedCursor rd > 0 then
               do {
                 l \<leftarrow> appliedTo (appliedCursor rd) (rLog r);
                 let r = r\<lparr>rLog := l\<rparr>;
                 if AutoLeave (trkConfig (rPrs r)) \<and> appliedCursor rd \<ge> rPendingConfIndex r \<and> rState r = StateLeader then
                   do {
                     ccdata \<leftarrow> ConfChangeV2_Marshal zeroConfChangeV2;
                     let ent = zeroEntry\<lparr>eType := EntryConfChangeV2, eData := Some ccdata\<rparr>;
                     (r, ok) \<leftarrow> appendEntry [ent] r;
                     if \<not> ok then do { li \<leftarrow> lastIndex (rLog r); Some (r\<lparr>rPendingConfIndex := li\<rparr>) }
                     else Some r
                   }
                 else Some r
               }
             else Some r) = Some r1"
    and r2: "(if length (rdEntries rd) > 0 then
               do {
                 let e = last (rdEntries rd);
                 l \<leftarrow> stableTo (eIndex e) (eTerm e) (rLog (reduceUncommittedSize (rdCommittedEntries rd) r1));
                 Some ((reduceUncommittedSize (rdCommittedEntries rd) r1)\<lparr>rLog := l\<rparr>)
               }
             else Some (reduceUncommittedSize (rdCommittedEntries rd) r1)) = Some r2"
    and r': "r' = (if \<not> IsEmptySnap (rdSnapshot rd)
             then r2\<lparr>rLog := stableSnapTo (smIndex (sMetadata (rdSnapshot rd))) (rLog r2)\<rparr> else r2)"
    unfolding raft_advance_def Let_def by auto
  have app: "P t" if "appendEntry es s = Some (t, b)" "P s" for es s t b
    using step [OF that(2) elects_appendEntry [OF that(1)]] advances_appendEntry [OF that(1)]
    by (simp add: advances_def same_node_def)
  have soft: "P t" if "P s" "soft_eq s t" "rLog t = rLog s" for s t
    using step [OF that(1) elects_soft [OF that(2)]] that(3) by simp
  have "P r1"
  proof (cases "appliedCursor rd > 0")
    case True
    with r1 obtain l where l: "appliedTo (appliedCursor rd) (rLog r) = Some l" by auto
    have "l = (rLog r)\<lparr>rlApplied := rlApplied l\<rparr>"
      using l by (auto simp: appliedTo_def split: if_splits)
    then have "uSnapshot (rlUnstable l) = uSnapshot (rlUnstable (rLog r)) \<and> rlStorage l = rlStorage (rLog r)"
      by (cases "rLog r") (simp, metis raftLog.select_convs(1,2))
    with P0 have Pl: "P (r\<lparr>rLog := l\<rparr>)" by (rule log)
    have pend: "P (s\<lparr>rPendingConfIndex := p\<rparr>)" if "P s" for s p
      using that by (rule soft) (simp_all add: soft_eq_def)
    show ?thesis using r1 True l Pl by (auto simp: Let_def split: if_splits intro: app pend [OF app])
  qed (use r1 P0 in auto)
  then have "P (reduceUncommittedSize (rdCommittedEntries rd) r1)"
    by (rule soft) (simp_all add: soft_eq_def reduceUncommittedSize_def Let_def)
  then have "P r2"
  proof (cases "length (rdEntries rd) > 0")
    case True
    let ?s = "reduceUncommittedSize (rdCommittedEntries rd) r1"
    assume Ps: "P ?s"
    from True r2 obtain l where l: "stableTo (eIndex (last (rdEntries rd))) (eTerm (last (rdEntries rd))) (rLog ?s) = Some l"
      and r2': "r2 = ?s\<lparr>rLog := l\<rparr>" by (auto simp: Let_def)
    have "uSnapshot (rlUnstable l) = uSnapshot (rlUnstable (rLog ?s)) \<and> rlStorage l = rlStorage (rLog ?s)"
      using l by (auto simp: stableTo_def unstable_stableTo_def shrinkEntriesArray_def Let_def split: option.splits if_splits)
    with Ps show ?thesis unfolding r2' by (rule log)
  qed (use r2 in auto)
  then have "P r'"
    unfolding r'
    by (auto simp: stableSnapTo_def unstable_stableSnapTo_def snaps_ok_def split: option.splits
        intro!: step [of r2] elects_same)
  then show "elects cs G r r'" "rlStorage (rLog r') = rlStorage (rLog r)" by (simp_all add: P_def)
qed

text \<open>What a new node starts with.\<close>

lemma newLogWithSize_Some:
  "newLogWithSize ms n = Some l \<Longrightarrow> rlStorage l = ms \<and> uSnapshot (rlUnstable l) = None"
  by (auto simp: newLogWithSize_def)

lemma appliedTo_Some: "appliedTo i l = Some l' \<Longrightarrow> rlStorage l' = rlStorage l \<and> rlUnstable l' = rlUnstable l"
  by (auto simp: appliedTo_def split: if_splits)

lemma newRaft_start:
  assumes "newRaft draws c = Some r" "cStorage c = Some ms"
  shows "rId r = cID c" "rId r \<noteq> 0" "rState r = StateFollower" "rStep r = StepFollower" "rTick r = TickElection"
    "rMsgs r = []" "rTerm r = hsTerm (msHardState ms)" "rVote r = hsVote (msHardState ms)"
    "rlStorage (rLog r) = ms" "uSnapshot (rlUnstable (rLog r)) = None"
proof -
  from assms(1) obtain c' where c': "Config_validate c = Inr c'" by (auto simp: newRaft_def split: sum.splits)
  note v = Config_validate_Inr [OF c']
  have sto: "cStorage c' = Some ms" using v assms(2) by simp
  obtain hs cs0 where hs: "MS_InitialState ms = (hs, cs0)" "hs = msHardState ms" by (auto simp: MS_InitialState_def)
  from assms(1) c' sto obtain l where l: "newLogWithSize ms (cMaxCommittedSizePerReady c') = Some l"
    unfolding newRaft_def by (auto simp: Let_def)
  define r0 where "r0 = \<lparr>rId = cID c', rTerm = 0, rVote = 0, rReadStates = [], rLog = l,
              rMaxMsgSize = cMaxSizePerMsg c', rMaxUncommittedSize = cMaxUncommittedEntriesSize c',
              rPrs = MakeProgressTracker (cMaxInflightMsgs c'), rState = StateFollower,
              rIsLearner = False, rMsgs = [], rLead = None_id, rLeadTransferee = 0,
              rPendingConfIndex = 0, rUncommittedSize = 0,
              rReadOnly = newReadOnly (cReadOnlyOption c'), rElectionElapsed = 0,
              rHeartbeatElapsed = 0, rCheckQuorum = cCheckQuorum c', rPreVote = cPreVote c',
              rHeartbeatTimeout = cHeartbeatTick c', rElectionTimeout = cElectionTick c',
              rRandomizedElectionTimeout = 0,
              rDisableProposalForwarding = cDisableProposalForwarding c',
              rTick = NoTick, rStep = NoStep, rDraws = draws\<rparr>"
  from assms(1) obtain cfg prs r1 cs' r2 r3 where
    sw: "switchToConfig cfg prs r0 = Some (r1, cs')"
    and r2: "(if \<not> IsEmptyHardState hs then loadState hs r1 else Some r1) = Some r2"
    and r3: "(if cApplied c' > 0 then do { l \<leftarrow> appliedTo (cApplied c') (rLog r2); Some (r2\<lparr>rLog := l\<rparr>) } else Some r2) = Some r3"
    and r: "becomeFollower (rTerm r3) None_id r3 = Some r"
    using c' sto hs(1) l unfolding newRaft_def
    by (auto simp: Let_def simp flip: r0_def split: sum.splits)
  have "r1 = switched cfg prs r0" using switchToConfig_Some(2) [OF sw] by (simp add: r0_def)
  then have f1: "rId r1 = cID c" "rTerm r1 = 0" "rVote r1 = 0" "rLog r1 = l" "rMsgs r1 = []"
    using v by (simp_all add: switched_def r0_def)
  have f2: "rId r2 = cID c" "rTerm r2 = hsTerm hs" "rVote r2 = hsVote hs" "rMsgs r2 = []"
    "rlStorage (rLog r2) = ms" "uSnapshot (rlUnstable (rLog r2)) = None"
    using r2 f1 newLogWithSize_Some [OF l]
    by (auto simp: loadState_def IsEmptyHardState_def isHardStateEqual_def emptyState_def Let_def split: if_splits)
  have f3: "rId r3 = cID c" "rTerm r3 = hsTerm hs" "rVote r3 = hsVote hs" "rMsgs r3 = []"
    "rlStorage (rLog r3) = ms" "uSnapshot (rlUnstable (rLog r3)) = None"
    using r3 f2 by (auto dest: appliedTo_Some split: if_splits)
  note f = becomeFollower_fields [OF r]
  show "rId r = cID c" "rId r \<noteq> 0" "rState r = StateFollower" "rStep r = StepFollower" "rTick r = TickElection"
    "rMsgs r = []" "rTerm r = hsTerm (msHardState ms)" "rVote r = hsVote (msHardState ms)"
    "rlStorage (rLog r) = ms" "uSnapshot (rlUnstable (rLog r)) = None"
    using f f3 v hs(2) by simp_all
qed

lemma Bootstrap_start:
  assumes "Bootstrap ps rn0 = Some (rn, None)" "rState (rnRaft rn0) = StateFollower" "rMsgs (rnRaft rn0) = []"
    "rId (rnRaft rn0) \<noteq> 0" "uSnapshot (rlUnstable (rLog (rnRaft rn0))) = None"
  shows "rId (rnRaft rn) = rId (rnRaft rn0)" "role_ok (rnRaft rn)" "rState (rnRaft rn) = StateFollower"
    "rMsgs (rnRaft rn) = []" "rlStorage (rLog (rnRaft rn)) = rlStorage (rLog (rnRaft rn0))"
    "uSnapshot (rlUnstable (rLog (rnRaft rn))) = None" "rnPrevHardSt rn = emptyState"
proof -
  define P where "P s = (rId s = rId (rnRaft rn0) \<and> role_ok s \<and> rState s = StateFollower \<and> rMsgs s = []
    \<and> rlStorage (rLog s) = rlStorage (rLog (rnRaft rn0)) \<and> uSnapshot (rlUnstable (rLog s)) = None)" for s
  from assms(1) obtain r ents l i r' where
    r: "becomeFollower 1 None_id (rnRaft rn0) = Some r"
    and l: "raftLog_append ents (rLog r) = Some (l, i)"
    and f: "foldM (\<lambda>p s. do {
                  (s, _) \<leftarrow> applyConfChange (ConfChange_AsV2
                    (zeroConfChange\<lparr>ccNodeID := peerID p, ccType := ConfChangeAddNode\<rparr>)) s;
                  Some s
                }) ps (r\<lparr>rLog := l\<lparr>rlCommitted := word_of_nat (length ents)\<rparr>\<rparr>) = Some r'"
    and rn: "rn = rn0\<lparr>rnPrevHardSt := emptyState, rnRaft := r'\<rparr>"
    unfolding Bootstrap_def Let_def by (auto split: if_splits sum.splits)
  have "P (r\<lparr>rLog := l\<lparr>rlCommitted := word_of_nat (length ents)\<rparr>\<rparr>)"
    using becomeFollower_fields [OF r] raftLog_append_snap [OF l] assms by (simp add: P_def role_ok_def)
  with f have "P r'"
  proof (rule foldM_invariant)
    fix p s t assume s: "P s" and "do {
                  (s, _) \<leftarrow> applyConfChange (ConfChange_AsV2
                    (zeroConfChange\<lparr>ccNodeID := peerID p, ccType := ConfChangeAddNode\<rparr>)) s;
                  Some s
                } = Some t"
    then obtain cc cst where a: "applyConfChange cc s = Some (t, cst)" by auto
    then obtain cfg prs where sw: "switchToConfig cfg prs s = Some (t, cst)"
      by (auto simp: applyConfChange_def split: sum.splits)
    then have "t = switched cfg prs s" using switchToConfig_Some(2) [OF sw] s by (auto simp: P_def)
    with s show "P t" by (auto simp: P_def switched_def role_ok_def)
  qed
  then show "rId (rnRaft rn) = rId (rnRaft rn0)" "role_ok (rnRaft rn)" "rState (rnRaft rn) = StateFollower"
    "rMsgs (rnRaft rn) = []" "rlStorage (rLog (rnRaft rn)) = rlStorage (rLog (rnRaft rn0))"
    "uSnapshot (rlUnstable (rLog (rnRaft rn))) = None" "rnPrevHardSt rn = emptyState"
    by (simp_all add: P_def rn)
qed

section \<open>The invariant of the cluster\<close>

text \<open>The term and the vote of a hard state.\<close>

definition ballot :: "HardState \<Rightarrow> u64 \<times> u64" where
  "ballot hs = (hsTerm hs, hsVote hs)"

text \<open>The hard state on disk is the one that the node takes for saved.\<close>

definition saved_ok :: "member \<Rightarrow> bool" where
  "saved_ok mb \<longleftrightarrow> ballot (msHardState (storage_of (mbNode mb))) =
     (case mbReady mb of
        Some rd \<Rightarrow> if IsEmptyHardState (rdHardState rd) then ballot (rnPrevHardSt (mbNode mb)) else ballot (rdHardState rd)
      | None \<Rightarrow> ballot (rnPrevHardSt (mbNode mb)))"

text \<open>A member with the votes H that it has handed out: they agree with what is on disk, and,
  together with the votes in its outbox, with the state of the node.\<close>

definition member_ok :: "voters set \<Rightarrow> Message set \<Rightarrow> (u64 \<times> u64) set \<Rightarrow> member \<Rightarrow> bool" where
  "member_ok cs N H mb \<longleftrightarrow> (let r = rnRaft (mbNode mb); d = msHardState (storage_of (mbNode mb)) in
     node_ok cs (grants N) (H \<union> claims (set (rMsgs r))) r
     \<and> (\<forall>x \<in> set (rMsgs r). sent_ok cs (grants N) (rId r) x)
     \<and> votes_once H (hsTerm d) (hsVote d) \<and> saved_ok mb)"

definition net_ok :: "voters set \<Rightarrow> (u64 \<Rightarrow> (u64 \<times> u64) set) \<Rightarrow> cluster \<Rightarrow> bool" where
  "net_ok cs hist c \<longleftrightarrow> (\<forall>x \<in> clNet c. sent_ok cs (grants (clNet c)) (mFrom x) x
     \<and> claims {x} \<subseteq> hist (mFrom x) \<and> clMembers c (mFrom x) \<noteq> None)"

definition cluster_ok :: "voters set \<Rightarrow> (u64 \<Rightarrow> (u64 \<times> u64) set) \<Rightarrow> cluster \<Rightarrow> bool" where
  "cluster_ok cs hist c \<longleftrightarrow> net_ok cs hist c \<and>
     (\<forall>i mb. clMembers c i = Some mb \<longrightarrow> rId (rnRaft (mbNode mb)) = i \<and> member_ok cs (clNet c) (hist i) mb)"

lemma member_ok_net: "member_ok cs N H mb \<Longrightarrow> N \<subseteq> N' \<Longrightarrow> member_ok cs N' H mb"
  using grants_mono [of N N'] unfolding member_ok_def Let_def
  by (blast intro: node_ok_mono sent_ok_mono)

lemma cluster_ok_member:
  assumes "cluster_ok cs hist c" "clMembers c i = Some mb0" "member_ok cs (clNet c) (hist i) mb" "rId (rnRaft (mbNode mb)) = i"
  shows "cluster_ok cs hist (set_member i mb c)"
  using assms by (auto simp: cluster_ok_def net_ok_def set_member_def)

lemma member_elects:
  assumes "member_ok cs N H mb" "elects cs (grants N) (rnRaft (mbNode mb)) (rnRaft rn)"
    "storage_of rn = storage_of (mbNode mb)" "rnPrevHardSt rn = rnPrevHardSt (mbNode mb)"
  shows "member_ok cs N H (mb\<lparr>mbNode := rn\<rparr>)" "rId (rnRaft rn) = rId (rnRaft (mbNode mb))"
proof -
  from assms(2) obtain ms where ms: "rId (rnRaft rn) = rId (rnRaft (mbNode mb))" "rMsgs (rnRaft rn) = rMsgs (rnRaft (mbNode mb)) @ ms"
    "\<And>H. node_ok cs (grants N) H (rnRaft (mbNode mb)) \<Longrightarrow> node_ok cs (grants N) (H \<union> claims (set ms)) (rnRaft rn)
      \<and> (\<forall>x \<in> set ms. sent_ok cs (grants N) (rId (rnRaft (mbNode mb))) x)"
    unfolding elects_def by blast
  show "rId (rnRaft rn) = rId (rnRaft (mbNode mb))" by fact
  have "saved_ok (mb\<lparr>mbNode := rn\<rparr>)" using assms(1,3,4)
    by (simp add: member_ok_def saved_ok_def Let_def split: option.splits)
  then show "member_ok cs N H (mb\<lparr>mbNode := rn\<rparr>)"
    using assms(1,3) ms(3) [of "H \<union> claims (set (rMsgs (rnRaft (mbNode mb))))"] ms(1,2)
    by (auto simp: member_ok_def Let_def Un_assoc)
qed

lemma set_node_Some: "clMembers c i = Some mb \<Longrightarrow> set_node i rn c = set_member i (mb\<lparr>mbNode := rn\<rparr>) c"
  by (simp add: set_node_def)

lemma cluster_elects:
  assumes "cluster_ok cs hist c" "clMembers c i = Some mb" "elects cs (grants (clNet c)) (rnRaft (mbNode mb)) (rnRaft rn)"
    "storage_of rn = storage_of (mbNode mb)" "rnPrevHardSt rn = rnPrevHardSt (mbNode mb)"
  shows "cluster_ok cs hist (set_node i rn c)"
proof -
  have m: "member_ok cs (clNet c) (hist i) mb" "rId (rnRaft (mbNode mb)) = i"
    using assms(1,2) by (auto simp: cluster_ok_def)
  from member_elects [OF m(1) assms(3-5)] m(2) show ?thesis
    unfolding set_node_Some [OF assms(2)] by (intro cluster_ok_member [OF assms(1,2)]) simp_all
qed


section \<open>Every step keeps it\<close>

lemma save_ready_Some:
  assumes "save_ready rd ms = Some ms'"
  shows "msHardState ms' = (if IsEmptyHardState (rdHardState rd) then msHardState ms else rdHardState rd)"
    "msSnapshot ms' = msSnapshot ms \<or> \<not> IsEmptySnap (rdSnapshot rd) \<and> msSnapshot ms' = rdSnapshot rd"
proof -
  have a: "msHardState m2 = msHardState m1 \<and> msSnapshot m2 = msSnapshot m1" if "MS_Append es m1 = Some m2" for es m1 m2
    using that by (auto simp: MS_Append_def Let_def split: if_splits)
  have s: "msHardState (snd (MS_ApplySnapshot sn m1)) = msHardState m1
    \<and> (msSnapshot (snd (MS_ApplySnapshot sn m1)) = msSnapshot m1 \<or> msSnapshot (snd (MS_ApplySnapshot sn m1)) = sn)" for sn m1
    by (simp add: MS_ApplySnapshot_def Let_def)
  show "msHardState ms' = (if IsEmptyHardState (rdHardState rd) then msHardState ms else rdHardState rd)"
    "msSnapshot ms' = msSnapshot ms \<or> \<not> IsEmptySnap (rdSnapshot rd) \<and> msSnapshot ms' = rdSnapshot rd"
    using assms s [of "rdSnapshot rd" ms] s [of "rdSnapshot rd" "ms\<lparr>msHardState := rdHardState rd\<rparr>"]
    unfolding save_ready_def Let_def
    by (auto simp: MS_SetHardState_def dest!: a split: if_splits)
qed

lemma newReady_facts:
  assumes "newReady r ss hs = Some rd"
  shows "rdMessages rd = rMsgs r"
    "rdHardState rd = (if isHardStateEqual (hardState r) hs then emptyState else hardState r)"
    "IsEmptySnap (rdSnapshot rd) \<or> uSnapshot (rlUnstable (rLog r)) = Some (rdSnapshot rd)"
  using assms by (auto simp: newReady_def Let_def zero_defs zeroReady_def IsEmptySnap_def split: option.splits)

lemma acceptReady_raft:
  "rnRaft (acceptReady rd rn) = (rnRaft rn)\<lparr>rMsgs := [],
     rReadStates := (if length (rdReadStates rd) \<noteq> 0 then [] else rReadStates (rnRaft rn))\<rparr>"
  "rnPrevHardSt (acceptReady rd rn) = rnPrevHardSt rn"
  by (auto simp: acceptReady_def Let_def split: option.splits)

lemma node_ok_update:
  assumes "node_ok cs G H r" "rId r' = rId r" "rTerm r' = rTerm r" "rVote r' = rVote r" "rState r' = rState r"
    "rStep r' = rStep r" "rTick r' = rTick r" "rLead r' = rLead r" "rPrs r' = rPrs r" "snaps_ok cs (rLog r')"
  shows "node_ok cs G H r'"
  using assms by (simp add: node_ok_def role_ok_def voters_of_def cong: StateType.case_cong)

text \<open>What the member has on disk after a Ready agrees with the votes that it now hands out.\<close>

lemma ready_votes:
  assumes "votes_once H (rTerm r) (rVote r)"
    "ballot d' = (if IsEmptyHardState rh then ballot d else ballot rh)"
    "rh = (if isHardStateEqual (hardState r) p then emptyState else hardState r)" "ballot d = ballot p"
  shows "votes_once H (hsTerm d') (hsVote d')"
proof (cases "IsEmptyHardState rh")
  case False
  then have "ballot d' = (rTerm r, rVote r)"
    using assms(2,3) by (auto simp: hardState_def ballot_def IsEmptyHardState_def isHardStateEqual_def emptyState_def split: if_splits)
  then show ?thesis using assms(1) by (simp add: ballot_def)
next
  case True
  show ?thesis
  proof (cases "isHardStateEqual (hardState r) p")
    case eq: True
    then have "ballot d' = (rTerm r, rVote r)"
      using True assms(2,4) by (simp add: hardState_def ballot_def isHardStateEqual_def)
    then show ?thesis using assms(1) by (simp add: ballot_def)
  next
    case False
    with True assms(3) have "rTerm r = 0" "rVote r = 0"
      by (auto simp: hardState_def IsEmptyHardState_def isHardStateEqual_def emptyState_def)
    with assms(1) have "\<And>t c. (t, c) \<in> H \<Longrightarrow> c = 0" by (fastforce simp: votes_once_def)
    then show ?thesis by (auto simp: votes_once_def)
  qed
qed

lemma cluster_ready:
  assumes "cluster_ok cs hist c" "clMembers c i = Some mb" "mbReady mb = None"
    "RawNode_Ready (mbNode mb) = Some (rn, rd)" "save_ready rd (storage_of rn) = Some ms"
  shows "cluster_ok cs (hist(i := hist i \<union> claims (set (rdMessages rd))))
    ((set_member i \<lparr>mbNode = put_storage ms rn, mbReady = Some rd\<rparr> c)\<lparr>clNet := clNet c \<union> set (rdMessages rd)\<rparr>)"
proof -
  let ?r = "rnRaft (mbNode mb)" and ?N = "clNet c" and ?N' = "clNet c \<union> set (rdMessages rd)"
  let ?H = "hist i \<union> claims (set (rdMessages rd))" and ?mb = "\<lparr>mbNode = put_storage ms rn, mbReady = Some rd\<rparr>"
  have m: "member_ok cs ?N (hist i) mb" "rId ?r = i" and net: "net_ok cs hist c"
    using assms(1,2) by (auto simp: cluster_ok_def)
  from assms(4) have rd: "newReady ?r (rnPrevSoftSt (mbNode mb)) (rnPrevHardSt (mbNode mb)) = Some rd"
    and rn: "rn = acceptReady rd (mbNode mb)" by (auto simp: RawNode_Ready_def readyWithoutAccept_def)
  note rf = newReady_facts [OF rd] and sv = save_ready_Some [OF assms(5)]
  have sto: "storage_of rn = storage_of (mbNode mb)" by (simp add: storage_of_def rn acceptReady_raft)
  have n: "node_ok cs (grants ?N) ?H ?r" using m(1) rf(1) by (simp add: member_ok_def Let_def)
  then have n': "node_ok cs (grants ?N') ?H ?r" by (rule node_ok_mono) (rule grants_mono, simp)
  have snaps: "snaps_ok cs (rLog ?r)" using n by (simp add: node_ok_def)
  have "storage_voters cs ms"
    using sv(2) [unfolded sto] snaps rf(3) by (auto simp: snaps_ok_def storage_voters_def storage_of_def)
  then have "node_ok cs (grants ?N') ?H (rnRaft (put_storage ms rn))"
    using snaps by (intro node_ok_update [OF n']) (simp_all add: put_storage_def rn acceptReady_raft snaps_ok_def)
  moreover have "votes_once ?H (hsTerm (msHardState ms)) (hsVote (msHardState ms))"
  proof (rule ready_votes)
    show "votes_once ?H (rTerm ?r) (rVote ?r)" using n by (simp add: node_ok_def)
    show "ballot (msHardState ms) = (if IsEmptyHardState (rdHardState rd) then ballot (msHardState (storage_of rn)) else ballot (rdHardState rd))"
      by (simp add: sv(1))
    show "ballot (msHardState (storage_of rn)) = ballot (rnPrevHardSt (mbNode mb))"
      using m(1) assms(3) by (simp add: member_ok_def saved_ok_def Let_def sto)
  qed (rule rf(2))
  moreover have "saved_ok ?mb"
    using m(1) assms(3) by (simp add: member_ok_def saved_ok_def Let_def sto sv(1) storage_of_def put_storage_def rn acceptReady_raft)
  ultimately have m': "member_ok cs ?N' ?H ?mb"
    by (simp add: member_ok_def Let_def put_storage_def storage_of_def rn acceptReady_raft)
  have sent: "sent_ok cs (grants ?N) i x" if "x \<in> set (rdMessages rd)" for x
    using m that rf(1) by (simp add: member_ok_def Let_def)
  have g: "grants ?N \<subseteq> grants ?N'" by (rule grants_mono) simp
  have new: "sent_ok cs (grants ?N') (mFrom x) x \<and> mFrom x = i" if "x \<in> set (rdMessages rd)" for x
    using sent_ok_mono [OF sent [OF that] g] by (simp add: sent_ok_def)
  have old: "sent_ok cs (grants ?N') (mFrom x) x \<and> claims {x} \<subseteq> hist (mFrom x) \<and> clMembers c (mFrom x) \<noteq> None" if "x \<in> ?N" for x
    using net that sent_ok_mono [OF _ g] by (auto simp: net_ok_def)
  have cl: "claims {x} \<subseteq> claims (set (rdMessages rd))" if "x \<in> set (rdMessages rd)" for x
    using that by (auto simp: claims_def)
  have "net_ok cs (hist(i := ?H)) ((set_member i ?mb c)\<lparr>clNet := ?N'\<rparr>)"
    unfolding net_ok_def
  proof
    fix x assume "x \<in> clNet ((set_member i ?mb c)\<lparr>clNet := ?N'\<rparr>)"
    then consider "x \<in> ?N" | "x \<in> set (rdMessages rd)" by auto
    then show "sent_ok cs (grants (clNet ((set_member i ?mb c)\<lparr>clNet := ?N'\<rparr>))) (mFrom x) x
      \<and> claims {x} \<subseteq> (hist(i := ?H)) (mFrom x) \<and> clMembers ((set_member i ?mb c)\<lparr>clNet := ?N'\<rparr>) (mFrom x) \<noteq> None"
      using old [of x] new [of x] cl [of x] by cases (auto simp: set_member_def)
  qed
  moreover have "member_ok cs ?N' (hist j) mb'" "rId (rnRaft (mbNode mb')) = j" if "clMembers c j = Some mb'" for j mb'
    using assms(1) that member_ok_net [of cs ?N "hist j" mb' ?N'] by (auto simp: cluster_ok_def)
  moreover have "rId (rnRaft (mbNode ?mb)) = i" using m(2) by (simp add: put_storage_def rn acceptReady_raft)
  ultimately show ?thesis using m' by (auto simp: cluster_ok_def set_member_def)
qed


lemma cluster_advance:
  assumes "cluster_ok cs hist c" "clMembers c i = Some mb" "mbReady mb = Some rd" "RawNode_Advance rd (mbNode mb) = Some rn"
  shows "cluster_ok cs hist (set_member i \<lparr>mbNode = rn, mbReady = None\<rparr> c)"
proof -
  have m: "member_ok cs (clNet c) (hist i) mb" "rId (rnRaft (mbNode mb)) = i"
    using assms(1,2) by (auto simp: cluster_ok_def)
  let ?rn = "if \<not> IsEmptyHardState (rdHardState rd) then (mbNode mb)\<lparr>rnPrevHardSt := rdHardState rd\<rparr> else mbNode mb"
  from assms(4) obtain r where r: "raft_advance rd (rnRaft (mbNode mb)) = Some r" and rn: "rn = ?rn\<lparr>rnRaft := r\<rparr>"
    by (cases "IsEmptyHardState (rdHardState rd)") (auto simp: RawNode_Advance_def on_raft_def Let_def)
  let ?rn1 = "(mbNode mb)\<lparr>rnRaft := r\<rparr>"
  note a = advance_elects [OF r]
  from member_elects [OF m(1), of ?rn1] a have m1: "member_ok cs (clNet c) (hist i) (mb\<lparr>mbNode := ?rn1\<rparr>)"
    "rId r = rId (rnRaft (mbNode mb))" by (simp_all add: storage_of_def)
  have "saved_ok \<lparr>mbNode = rn, mbReady = None\<rparr>"
    using m1(1) assms(3) by (simp add: member_ok_def saved_ok_def Let_def rn storage_of_def)
  then have "member_ok cs (clNet c) (hist i) \<lparr>mbNode = rn, mbReady = None\<rparr>"
    using m1(1) by (simp add: member_ok_def Let_def rn storage_of_def)
  then show ?thesis using m1(2) m(2) by (intro cluster_ok_member [OF assms(1,2)]) (simp_all add: rn)
qed

lemma MS_Compact_Some:
  "MS_Compact k ms = Some (err, ms') \<Longrightarrow> msHardState ms' = msHardState ms"
  by (auto simp: MS_Compact_def Let_def split: if_splits)

lemma trigger_snapshot_Some:
  assumes "trigger_snapshot j cst data k ms = Some ms'"
  shows "msHardState ms' = msHardState ms"
proof -
  from assms obtain s ms1 where "MS_CreateSnapshot j (Some cst) data ms = Some (Inr s, ms1)" "MS_Compact k ms1 = Some (None, ms')"
    by (auto simp: trigger_snapshot_def split: sum.splits if_splits)
  then show ?thesis
    by (auto simp: MS_CreateSnapshot_def Let_def dest!: MS_Compact_Some split: if_splits)
qed

lemma cluster_compact:
  assumes "cluster_ok cs hist c" "clMembers c i = Some mb"
    "trigger_snapshot j cst data k (storage_of (mbNode mb)) = Some ms" "storage_voters cs ms"
  shows "cluster_ok cs hist (set_node i (put_storage ms (mbNode mb)) c)"
proof -
  have m: "member_ok cs (clNet c) (hist i) mb" "rId (rnRaft (mbNode mb)) = i"
    using assms(1,2) by (auto simp: cluster_ok_def)
  let ?r = "rnRaft (put_storage ms (mbNode mb))"
  have "node_ok cs (grants (clNet c)) (hist i \<union> claims (set (rMsgs ?r))) ?r"
  proof (rule node_ok_update)
    show "node_ok cs (grants (clNet c)) (hist i \<union> claims (set (rMsgs ?r))) (rnRaft (mbNode mb))"
      using m(1) by (simp add: member_ok_def Let_def put_storage_def)
    then have "snaps_ok cs (rLog (rnRaft (mbNode mb)))" by (simp add: node_ok_def)
    then show "snaps_ok cs (rLog ?r)" using assms(4) by (simp add: snaps_ok_def put_storage_def)
  qed (simp_all add: put_storage_def)
  then have "member_ok cs (clNet c) (hist i) (mb\<lparr>mbNode := put_storage ms (mbNode mb)\<rparr>)"
    using m(1) trigger_snapshot_Some [OF assms(3)]
    by (simp add: member_ok_def Let_def saved_ok_def storage_of_def put_storage_def split: option.splits)
  then show ?thesis unfolding set_node_Some [OF assms(2)]
    using m(2) by (intro cluster_ok_member [OF assms(1,2)]) (simp_all add: put_storage_def)
qed

text \<open>A node that starts on a storage.\<close>

lemma start_ok:
  assumes "NewRawNode draws conf = Some rn" "cStorage conf = Some ms" "voters_of (rnRaft rn) \<in> cs" "storage_voters cs ms"
    "votes_once H (hsTerm (msHardState ms)) (hsVote (msHardState ms))"
  shows "member_ok cs N H \<lparr>mbNode = rn, mbReady = None\<rparr>" "rId (rnRaft rn) = cID conf"
proof -
  from assms(1) obtain r where r: "newRaft draws conf = Some r"
    and rn: "rn = \<lparr>rnRaft = r, rnPrevSoftSt = softState r, rnPrevHardSt = hardState r\<rparr>" by (auto simp: NewRawNode_def)
  note f = newRaft_start [OF r assms(2)]
  show "rId (rnRaft rn) = cID conf" using f by (simp add: rn)
  have "node_ok cs (grants N) H r"
    using f assms(3-5) by (simp add: node_ok_def role_ok_def snaps_ok_def rn)
  then show "member_ok cs N H \<lparr>mbNode = rn, mbReady = None\<rparr>"
    using f assms(5) by (simp add: member_ok_def saved_ok_def ballot_def storage_of_def hardState_def rn)
qed

lemma fresh_ok:
  assumes "fresh cs i rn"
  shows "member_ok cs N {} \<lparr>mbNode = rn, mbReady = None\<rparr>" "rId (rnRaft rn) = i"
proof -
  have "member_ok cs N {} \<lparr>mbNode = rn, mbReady = None\<rparr> \<and> rId (rnRaft rn) = i"
    using assms
  proof cases
    case (fresh_node draws conf ms)
    then show ?thesis using start_ok [OF fresh_node(1,3,5,4), where H = "{}"] by simp
  next
    case (fresh_peers draws conf rn0 ps)
    from fresh_peers(1) obtain r where r: "newRaft draws conf = Some r" and rn0: "rnRaft rn0 = r"
      by (auto simp: NewRawNode_def)
    note f = newRaft_start [OF r fresh_peers(3)]
    note b = Bootstrap_start [OF fresh_peers(4)]
    have b': "rId (rnRaft rn) = i" "role_ok (rnRaft rn)" "rState (rnRaft rn) = StateFollower"
      "rMsgs (rnRaft rn) = []" "rlStorage (rLog (rnRaft rn)) = NewMemoryStorage"
      "uSnapshot (rlUnstable (rLog (rnRaft rn))) = None" "rnPrevHardSt rn = emptyState" "i \<noteq> 0"
      using b f fresh_peers(2) by (simp_all add: rn0)
    have "node_ok cs (grants N) {} (rnRaft rn)"
      using b' fresh_peers(5)
      by (simp add: node_ok_def snaps_ok_def storage_voters_def NewMemoryStorage_def zero_defs IsEmptySnap_def)
    then show ?thesis
      using b' by (simp add: member_ok_def saved_ok_def ballot_def storage_of_def NewMemoryStorage_def)
  qed
  then show "member_ok cs N {} \<lparr>mbNode = rn, mbReady = None\<rparr>" "rId (rnRaft rn) = i" by auto
qed

lemma initial_ok:
  assumes "initial cs c"
  shows "cluster_ok cs (\<lambda>_. {}) c"
  unfolding cluster_ok_def
proof (intro conjI allI impI)
  show "net_ok cs (\<lambda>_. {}) c" using assms by (simp add: net_ok_def initial_def)
  fix i mb assume "clMembers c i = Some mb"
  then have f: "fresh cs i (mbNode mb)" "mbReady mb = None" using assms by (auto simp: initial_def)
  have mb: "\<lparr>mbNode = mbNode mb, mbReady = None\<rparr> = mb" using f(2) by (cases mb) simp
  show "rId (rnRaft (mbNode mb)) = i" "member_ok cs (clNet c) {} mb"
    using fresh_ok [OF f(1)] by (simp_all add: mb)
qed

lemma cluster_step_ok:
  assumes "cluster_step cs c c'" "cluster_ok cs hist c"
  shows "\<exists>hist'. cluster_ok cs hist' c'"
  using assms
proof cases
  case (deliver i mb m rn e)
  have m: "member_ok cs (clNet c) (hist i) mb" "rId (rnRaft (mbNode mb)) = i"
    and s: "sent_ok cs (grants (clNet c)) (mFrom m) m"
    using assms(2) deliver(2,3) by (auto simp: cluster_ok_def net_ok_def)
  show ?thesis
  proof (cases "rn = mbNode mb")
    case True
    have "cluster_ok cs hist (set_node i rn c)"
      unfolding True by (rule cluster_elects [OF assms(2) deliver(2)]) (simp_all add: elects_refl)
    then show ?thesis unfolding deliver(1) by blast
  next
    case False
    then obtain r where r: "Step m (rnRaft (mbNode mb)) = Some (r, e)" "rn = (mbNode mb)\<lparr>rnRaft := r\<rparr>"
      using deliver(7) by (auto simp: RawNode_Step_def step_raft_def split: if_splits)
    have "elects cs (grants (clNet c)) (rnRaft (mbNode mb)) r"
      using deliver m(2) by (intro deliver_elects [OF r(1) deliver(3) s]) simp_all
    moreover have "term_ok m" using s deliver(5) by (auto simp: term_ok_def sent_ok_def by_leader_def)
    then have "rlStorage (rLog r) = rlStorage (rLog (rnRaft (mbNode mb)))"
      using mono.R_Step [OF r(1) _ deliver(6) TrueI TrueI] by (simp add: advances_def same_node_def)
    ultimately have "cluster_ok cs hist (set_node i rn c)"
      by (intro cluster_elects [OF assms(2) deliver(2)]) (simp_all add: r(2) storage_of_def)
    then show ?thesis unfolding deliver(1) by blast
  qed
next
  case (invoke i mb a rn)
  from call_node_step [OF invoke(4)] obtain m e where s: "Step m (rnRaft (mbNode mb)) = Some (rnRaft rn, e)"
    "mTerm m = 0" "length (mEntries m) \<le> 1" "mType m \<notin> {MsgApp, MsgHeartbeat, MsgSnap, MsgVoteResp, MsgPreVoteResp}"
    "rn = (mbNode mb)\<lparr>rnRaft := rnRaft rn\<rparr>" by blast
  have "rTerm (rnRaft (mbNode mb)) \<noteq> - 1" "room 1 (rnRaft (mbNode mb))" using invoke(3) by (simp_all add: roomy_def)
  note c = call_elects [OF s(1-4) this]
  have "rnPrevHardSt rn = rnPrevHardSt (mbNode mb)" by (subst s(5)) simp
  with c have "cluster_ok cs hist (set_node i rn c)"
    by (intro cluster_elects [OF assms(2) invoke(2)]) (simp_all add: storage_of_def)
  then show ?thesis unfolding invoke(1) by blast
next
  case (tick i mb rn)
  from tick(4) obtain r where r: "callTick (rnRaft (mbNode mb)) = Some r" "rn = (mbNode mb)\<lparr>rnRaft := r\<rparr>"
    by (auto simp: RawNode_Tick_def on_raft_def)
  have t: "rTerm (rnRaft (mbNode mb)) \<noteq> - 1" "room 1 (rnRaft (mbNode mb))" using tick(3) by (simp_all add: roomy_def)
  have "elects cs (grants (clNet c)) (rnRaft (mbNode mb)) r" using r(1) t by (rule el.R_callTick)
  moreover have "rlStorage (rLog r) = rlStorage (rLog (rnRaft (mbNode mb)))"
    using mono.R_callTick [OF r(1) t] by (simp add: advances_def same_node_def)
  ultimately have "cluster_ok cs hist (set_node i rn c)"
    by (intro cluster_elects [OF assms(2) tick(2)]) (simp_all add: r(2) storage_of_def)
  then show ?thesis unfolding tick(1) by blast
next
  case (configure i mb cc rn cst)
  from configure(3) obtain r where r: "applyConfChange (AsV2 cc) (rnRaft (mbNode mb)) = Some (r, cst)"
    "rn = (mbNode mb)\<lparr>rnRaft := r\<rparr>" by (auto simp: RawNode_ApplyConfChange_def)
  have "role_ok (rnRaft (mbNode mb))" using assms(2) configure(2)
    by (auto simp: cluster_ok_def member_ok_def node_ok_def Let_def)
  note e = configure_elects [OF r(1) _ this, of cs]
  have "voters_of r \<in> cs" using configure(4) by (simp add: r(2))
  with e have "cluster_ok cs hist (set_node i rn c)"
    by (intro cluster_elects [OF assms(2) configure(2)]) (simp_all add: r(2) storage_of_def)
  then show ?thesis unfolding configure(1) by blast
next
  case (ready i mb rn rd ms)
  from cluster_ready [OF assms(2) ready(2-5)] show ?thesis unfolding ready(1) by blast
next
  case (advance i mb rd rn)
  from cluster_advance [OF assms(2) advance(2,3,5)] show ?thesis unfolding advance(1) by blast
next
  case (compact i mb j cst data k ms)
  from cluster_compact [OF assms(2) compact(2-4)] show ?thesis unfolding compact(1) by blast
next
  case (restart i mb draws conf rn)
  have m: "member_ok cs (clNet c) (hist i) mb" using assms(2) restart(2) by (auto simp: cluster_ok_def)
  then have v: "storage_voters cs (storage_of (mbNode mb))"
    "votes_once (hist i) (hsTerm (msHardState (storage_of (mbNode mb)))) (hsVote (msHardState (storage_of (mbNode mb))))"
    by (auto simp: member_ok_def node_ok_def snaps_ok_def storage_of_def Let_def)
  from start_ok [OF restart(3,5,6) v] restart(4)
  have "cluster_ok cs hist (set_member i \<lparr>mbNode = rn, mbReady = None\<rparr> c)"
    by (intro cluster_ok_member [OF assms(2) restart(2)]) simp_all
  then show ?thesis unfolding restart(1) by blast
qed

lemma reachable_ok: "reachable cs c \<Longrightarrow> \<exists>hist. cluster_ok cs hist c"
  by (induction rule: reachable.induct) (blast intro: initial_ok cluster_step_ok)+

section \<open>At most one leader\<close>

text \<open>The votes of two backed candidates meet in a voter.\<close>

lemma backed_share:
  assumes "overlapping cs" "backed cs G t a" "backed cs G t b"
  obtains v where "v = a \<or> (t, v, a) \<in> G" "v = b \<or> (t, v, b) \<in> G"
proof -
  from assms(2,3) obtain p q where "p \<in> cs" "voter_quorum p (insert a {v. (t, v, a) \<in> G})"
    "q \<in> cs" "voter_quorum q (insert b {v. (t, v, b) \<in> G})" unfolding backed_def by blast
  with assms(1) have "insert a {v. (t, v, a) \<in> G} \<inter> insert b {v. (t, v, b) \<in> G} \<noteq> {}"
    unfolding overlapping_def by blast
  then show thesis using that by blast
qed

text \<open>A granted vote is in the history of its voter.\<close>

lemma granted_voter:
  assumes "cluster_ok cs hist c" "(t, v, a) \<in> grants (clNet c)"
  obtains mb where "clMembers c v = Some mb" "(t, a) \<in> hist v" "member_ok cs (clNet c) (hist v) mb"
proof -
  from assms(2) obtain x where x: "x \<in> clNet c" "is_grant x" "mTerm x = t" "mFrom x = v" "mTo x = a"
    by (auto simp: grants_def)
  with assms(1) have "claims {x} \<subseteq> hist v" "clMembers c v \<noteq> None" by (auto simp: cluster_ok_def net_ok_def)
  moreover have "(t, a) \<in> claims {x}" using x by simp
  ultimately show thesis using that assms(1) by (auto simp: cluster_ok_def)
qed

lemma vote_of_member:
  assumes "member_ok cs N H mb" "(t, a) \<in> H" "(t, b) \<in> H" "a \<noteq> 0" "b \<noteq> 0"
  shows "a = b"
  using assms by (auto simp: member_ok_def votes_once_def Let_def)

lemma leader_vote:
  assumes "cluster_ok cs hist c" "clMembers c i = Some mb" "rState (rnRaft (mbNode mb)) = StateLeader"
    "(rTerm (rnRaft (mbNode mb)), b) \<in> hist i" "b \<noteq> 0"
  shows "b = i"
proof -
  have n: "node_ok cs (grants (clNet c)) (hist i \<union> claims (set (rMsgs (rnRaft (mbNode mb))))) (rnRaft (mbNode mb))"
    and i: "rId (rnRaft (mbNode mb)) = i" using assms(1,2) by (auto simp: cluster_ok_def member_ok_def Let_def)
  then have "rVote (rnRaft (mbNode mb)) = i" using assms(3) by (auto simp: node_ok_def role_ok_def)
  with n assms(4,5) show ?thesis by (auto simp: node_ok_def votes_once_def)
qed

lemma one_leader:
  assumes "cluster_ok cs hist c" "overlapping cs" "clMembers c i = Some mi" "clMembers c j = Some mj"
    "rState (rnRaft (mbNode mi)) = StateLeader" "rState (rnRaft (mbNode mj)) = StateLeader"
    "rTerm (rnRaft (mbNode mi)) = rTerm (rnRaft (mbNode mj))"
  shows "i = j"
proof -
  let ?t = "rTerm (rnRaft (mbNode mi))" and ?G = "grants (clNet c)"
  have n: "node_ok cs ?G (hist k \<union> claims (set (rMsgs (rnRaft (mbNode mk))))) (rnRaft (mbNode mk))" "rId (rnRaft (mbNode mk)) = k"
    if "clMembers c k = Some mk" for k mk using assms(1) that by (auto simp: cluster_ok_def member_ok_def Let_def)
  have b: "backed cs ?G ?t i" "backed cs ?G ?t j" "i \<noteq> 0" "j \<noteq> 0"
    using n [OF assms(3)] n [OF assms(4)] assms(5-7) by (auto simp: node_ok_def)
  from backed_share [OF assms(2) b(1,2)] obtain v where v: "v = i \<or> (?t, v, i) \<in> ?G" "v = j \<or> (?t, v, j) \<in> ?G" .
  show "i = j"
  proof (rule ccontr)
    assume ne: "i \<noteq> j"
    consider "v = i" "(?t, i, j) \<in> ?G" | "v = j" "(?t, j, i) \<in> ?G" | "(?t, v, i) \<in> ?G" "(?t, v, j) \<in> ?G" using v ne by blast
    then show False
    proof cases
      case 1
      from granted_voter [OF assms(1) 1(2)] have "(?t, j) \<in> hist i" by metis
      from leader_vote [OF assms(1,3,5) this b(4)] ne show False by simp
    next
      case 2
      from granted_voter [OF assms(1) 2(2)] have "(?t, i) \<in> hist j" by metis
      from leader_vote [OF assms(1,4,6) this [unfolded assms(7)] b(3)] ne show False by simp
    next
      case 3
      from granted_voter [OF assms(1) 3(1)] obtain mb where m: "clMembers c v = Some mb" "(?t, i) \<in> hist v"
        "member_ok cs (clNet c) (hist v) mb" .
      from granted_voter [OF assms(1) 3(2)] have "(?t, j) \<in> hist v" by metis
      from vote_of_member [OF m(3,2) this b(3,4)] ne show False by simp
    qed
  qed
qed

lemma one_sender:
  assumes "cluster_ok cs hist c" "overlapping cs" "x \<in> clNet c" "y \<in> clNet c" "by_leader x" "by_leader y" "mTerm x = mTerm y"
  shows "mFrom x = mFrom y"
proof -
  let ?t = "mTerm x" and ?G = "grants (clNet c)" and ?i = "mFrom x" and ?j = "mFrom y"
  have net: "sent_ok cs ?G (mFrom z) z \<and> claims {z} \<subseteq> hist (mFrom z) \<and> (\<exists>mb. clMembers c (mFrom z) = Some mb
      \<and> rId (rnRaft (mbNode mb)) = mFrom z \<and> member_ok cs (clNet c) (hist (mFrom z)) mb)" if "z \<in> clNet c" for z
    using assms(1) that by (fastforce simp: cluster_ok_def net_ok_def)
  have b: "backed cs ?G ?t ?i" "backed cs ?G ?t ?j" "(?t, ?i) \<in> hist ?i" "(?t, ?j) \<in> hist ?j"
    using net [OF assms(3)] net [OF assms(4)] assms(5-7) by (auto simp: sent_ok_def)
  obtain mi mj where mi: "rId (rnRaft (mbNode mi)) = ?i" "member_ok cs (clNet c) (hist ?i) mi"
    and mj: "rId (rnRaft (mbNode mj)) = ?j" "member_ok cs (clNet c) (hist ?j) mj"
    using net [OF assms(3)] net [OF assms(4)] by blast
  have nz: "?i \<noteq> 0" "?j \<noteq> 0" using mi mj by (auto simp: member_ok_def node_ok_def Let_def)
  from backed_share [OF assms(2) b(1,2)] obtain v where v: "v = ?i \<or> (?t, v, ?i) \<in> ?G" "v = ?j \<or> (?t, v, ?j) \<in> ?G" .
  show ?thesis
  proof (rule ccontr)
    assume ne: "?i \<noteq> ?j"
    consider "v = ?i" "(?t, ?i, ?j) \<in> ?G" | "v = ?j" "(?t, ?j, ?i) \<in> ?G" | "(?t, v, ?i) \<in> ?G" "(?t, v, ?j) \<in> ?G" using v ne by blast
    then show False
    proof cases
      case 1
      from granted_voter [OF assms(1) 1(2)] have "(?t, ?j) \<in> hist ?i" by metis
      from vote_of_member [OF mi(2) this b(3) nz(2,1)] ne show False by simp
    next
      case 2
      from granted_voter [OF assms(1) 2(2)] have "(?t, ?i) \<in> hist ?j" by metis
      from vote_of_member [OF mj(2) this b(4) nz] ne show False by simp
    next
      case 3
      from granted_voter [OF assms(1) 3(1)] obtain mb where m: "(?t, ?i) \<in> hist v"
        "member_ok cs (clNet c) (hist v) mb" .
      from granted_voter [OF assms(1) 3(2)] have "(?t, ?j) \<in> hist v" by metis
      from vote_of_member [OF m(2,1) this nz] ne show False by simp
    qed
  qed
qed

end
