(* ===== verification/ElectionProps.thy ===== *)
theory ElectionProps
  imports Election
begin

text \<open>
  Election safety of the cluster, with a run of three members in which the first is elected.
\<close>

section \<open>A run\<close>

text \<open>Three members start, the first campaigns, the second grants its vote, the first is elected
  and sends its first entries.\<close>

definition wit_voters :: "voters set" where
  "wit_voters = {({|1, 2, 3|}, {||})}"

definition wit_start :: "u64 \<Rightarrow> RawNode" where
  "wit_start i = the (NewRawNode (\<lambda>k. k) (wit_config\<lparr>cID := i\<rparr>))"

definition wit_ready :: "RawNode \<Rightarrow> RawNode \<times> Ready" where
  "wit_ready rn = (let (rn, rd) = the (RawNode_Ready rn)
     in (put_storage (the (save_ready rd (storage_of rn))) rn, rd))"

definition wit_ready_ok :: "RawNode \<Rightarrow> bool" where
  "wit_ready_ok rn \<longleftrightarrow> (case RawNode_Ready rn of None \<Rightarrow> False
     | Some (rn, rd) \<Rightarrow> \<not> Option.is_none (save_ready rd (storage_of rn)))"

definition wit_request :: Message where
  "wit_request = zeroMessage\<lparr>mType := MsgVote, mFrom := 1, mTo := 2, mTerm := 1\<rparr>"

definition wit_called :: RawNode where
  "wit_called = the (call_node Campaign (wit_start 1))"

definition wit_voted :: RawNode where
  "wit_voted = fst (the (RawNode_Step wit_request (wit_start 2)))"

definition wit_winner :: RawNode where
  "wit_winner = fst (the (RawNode_Step wit_vote_resp (fst (wit_ready wit_called))))"

definition wit_advanced :: RawNode where
  "wit_advanced = the (RawNode_Advance (snd (wit_ready wit_called)) wit_winner)"

definition wit_after_ready :: "u64 \<Rightarrow> RawNode \<Rightarrow> cluster \<Rightarrow> cluster" where
  "wit_after_ready i rn c = (set_member i \<lparr>mbNode = fst (wit_ready rn), mbReady = Some (snd (wit_ready rn))\<rparr> c)
     \<lparr>clNet := clNet c \<union> set (rdMessages (snd (wit_ready rn)))\<rparr>"

definition wit_cluster0 :: cluster where
  "wit_cluster0 = \<lparr>clMembers = (\<lambda>i. if i \<in> {1, 2, 3} then Some \<lparr>mbNode = wit_start i, mbReady = None\<rparr> else None),
     clNet = {}\<rparr>"

definition wit_cluster1 :: cluster where
  "wit_cluster1 = wit_after_ready 1 wit_called (set_node 1 wit_called wit_cluster0)"

definition wit_cluster2 :: cluster where
  "wit_cluster2 = wit_after_ready 2 wit_voted (set_node 2 wit_voted wit_cluster1)"

definition wit_cluster3 :: cluster where
  "wit_cluster3 = wit_after_ready 1 wit_advanced
     (set_member 1 \<lparr>mbNode = wit_advanced, mbReady = None\<rparr> (set_node 1 wit_winner wit_cluster2))"

lemmas wit_cluster_defs = wit_cluster0_def wit_cluster1_def wit_cluster2_def wit_cluster3_def wit_after_ready_def
  set_member_def set_node_def

lemma is_some: "\<not> Option.is_none x \<Longrightarrow> x = Some (the x)"
  by (cases x) simp_all

lemma wit_reach_ready:
  assumes "reachable cs c" "clMembers c i = Some \<lparr>mbNode = rn, mbReady = None\<rparr>" "wit_ready_ok rn"
  shows "reachable cs (wit_after_ready i rn c)"
proof -
  obtain rn' rd where r: "RawNode_Ready rn = Some (rn', rd)" "\<not> Option.is_none (save_ready rd (storage_of rn'))"
    using assms(3) by (auto simp: wit_ready_ok_def split: option.splits)
  have "cluster_step cs c (wit_after_ready i rn c)"
    using cluster_step.ready [OF assms(2) _ _ is_some [OF r(2)]] r(1)
    by (simp add: wit_after_ready_def wit_ready_def)
  with assms(1) show ?thesis by (rule reach_step)
qed

lemma wit_start_ok:
  assumes "i \<in> {1, 2, 3}"
  shows "fresh wit_voters i (wit_start i)"
proof -
  have "\<forall>i \<in> set [1, 2, 3]. \<not> Option.is_none (NewRawNode (\<lambda>k. k) (wit_config\<lparr>cID := i\<rparr>))
      \<and> voters_of (rnRaft (wit_start i)) = ({|1, 2, 3|}, {||})" by code_simp
  with assms have "\<not> Option.is_none (NewRawNode (\<lambda>k. k) (wit_config\<lparr>cID := i\<rparr>))" "voters_of (rnRaft (wit_start i)) = ({|1, 2, 3|}, {||})"
    by auto
  then show ?thesis
    by (intro fresh_node [of "\<lambda>k. k" "wit_config\<lparr>cID := i\<rparr>" _ _ NewMemoryStorage])
      (auto simp: wit_start_def is_some wit_voters_def storage_voters_def NewMemoryStorage_def zero_defs IsEmptySnap_def wit_config_def)
qed


text \<open>Where the nodes are, by evaluation.\<close>

lemma wit_places:
  "alLast (log_view (rLog (rnRaft (wit_start 1)))) = 0 \<and> rTerm (rnRaft (wit_start 1)) = 0"
  "alLast (log_view (rLog (rnRaft (wit_start 2)))) = 0 \<and> rTerm (rnRaft (wit_start 2)) = 0"
  "alLast (log_view (rLog (rnRaft (fst (wit_ready wit_called))))) = 0 \<and> rTerm (rnRaft (fst (wit_ready wit_called))) = 1"
  "alLast (log_view (rLog (rnRaft wit_winner))) = 1 \<and> rTerm (rnRaft wit_winner) = 1"
  by code_simp+

lemma wit_steps:
  "\<not> Option.is_none (call_node Campaign (wit_start 1))"
  "\<not> Option.is_none (RawNode_Step wit_request (wit_start 2))"
  "\<not> Option.is_none (RawNode_Step wit_vote_resp (fst (wit_ready wit_called)))"
  "\<not> Option.is_none (RawNode_Advance (snd (wit_ready wit_called)) wit_winner)"
  by code_simp+

lemma wit_readies:
  "wit_ready_ok wit_called" "wit_request \<in> set (rdMessages (snd (wit_ready wit_called)))"
  "wit_ready_ok wit_voted" "wit_vote_resp \<in> set (rdMessages (snd (wit_ready wit_voted)))"
  "wit_ready_ok wit_advanced"
  by code_simp+

lemma wit_leader:
  "list_ex (\<lambda>x. by_leader x \<and> mTerm x = 1 \<and> mFrom x = 1) (rdMessages (snd (wit_ready wit_advanced)))"
  "rState (rnRaft (fst (wit_ready wit_advanced))) = StateLeader \<and> rTerm (rnRaft (fst (wit_ready wit_advanced))) = 1"
  by code_simp+

lemma wit_reachable: "reachable wit_voters wit_cluster3"
proof -
  have i: "initial wit_voters wit_cluster0"
    by (auto simp: initial_def wit_cluster0_def wit_start_ok split: if_splits)
  note m = wit_cluster_defs wit_request_def wit_vote_resp_def zeroMessage_def fits_def roomy_def
  have r: "room 1 (rnRaft (wit_start 1))" "room 1 (rnRaft (wit_start 2))" "room 1 (rnRaft (fst (wit_ready wit_called)))"
    "room 1 (rnRaft wit_winner)"
    using wit_places by (simp_all add: room_def)
  have "reachable wit_voters (set_node 1 wit_called wit_cluster0)"
    by (rule reach_step [OF reach_init [OF i]], rule invoke [where a = Campaign and mb = "\<lparr>mbNode = wit_start 1, mbReady = None\<rparr>"])
      (use r wit_places wit_steps(1) in \<open>simp_all add: m wit_called_def is_some\<close>)
  then have 1: "reachable wit_voters wit_cluster1" unfolding wit_cluster1_def
    by (rule wit_reach_ready) (simp_all add: m wit_readies)
  have "reachable wit_voters (set_node 2 wit_voted wit_cluster1)"
    by (rule reach_step [OF 1], rule deliver [where m = wit_request and mb = "\<lparr>mbNode = wit_start 2, mbReady = None\<rparr>"
          and e = "snd (the (RawNode_Step wit_request (wit_start 2)))"])
      (use r wit_places wit_steps(2) wit_readies(2) in \<open>simp_all add: m wit_voted_def is_some\<close>)
  then have 2: "reachable wit_voters wit_cluster2" unfolding wit_cluster2_def
    by (rule wit_reach_ready) (simp_all add: m wit_readies)
  have "reachable wit_voters (set_node 1 wit_winner wit_cluster2)"
    by (rule reach_step [OF 2], rule deliver [where m = wit_vote_resp
          and mb = "\<lparr>mbNode = fst (wit_ready wit_called), mbReady = Some (snd (wit_ready wit_called))\<rparr>"
          and e = "snd (the (RawNode_Step wit_vote_resp (fst (wit_ready wit_called))))"])
      (use r wit_places wit_steps(3) wit_readies(4) in \<open>simp_all add: m wit_winner_def is_some\<close>)
  then have "reachable wit_voters (set_member 1 \<lparr>mbNode = wit_advanced, mbReady = None\<rparr> (set_node 1 wit_winner wit_cluster2))"
    by (rule reach_step, intro advance [where mb = "\<lparr>mbNode = wit_winner, mbReady = Some (snd (wit_ready wit_called))\<rparr>"
          and rd = "snd (wit_ready wit_called)"])
      (use r wit_places wit_steps(4) in \<open>simp_all add: m wit_advanced_def is_some\<close>)
  then show ?thesis unfolding wit_cluster3_def
    by (rule wit_reach_ready) (simp_all add: m wit_readies)
qed

lemma voters_overlapping:
  assumes "joint_valid v"
  shows "overlapping {(ids_of (fst v), ids_of (snd v))}"
  using joint.Q_intersect [OF assms] by (simp add: overlapping_def flip: joint_quorum_voters)

lemma wit_overlapping: "overlapping wit_voters"
  using voters_overlapping [of "(Some {|1, 2, 3|}, None)"]
  by (simp add: wit_voters_def joint_valid_def majority_valid_def)

section \<open>The properties\<close>

text \<open>C1: election safety. In every reachable state of a cluster whose configurations have
  overlapping quorums, two members that are leaders of the same term are the same member. The
  cluster loses, repeats and reorders messages, and its members crash and restart from what they
  have persisted.\<close>

theorem election_safety:
  assumes "reachable cs c" and "overlapping cs" and "i \<in> leaders c t" and "j \<in> leaders c t"
  shows "i = j"
proof -
  from reachable_ok [OF assms(1)] obtain hist where "cluster_ok cs hist c" ..
  from one_leader [OF this assms(2)] assms(3,4) show ?thesis by (auto simp: leaders_def)
qed

theorem election_safety_witness: "leaders wit_cluster3 1 = {1}"
proof -
  have "1 \<in> leaders wit_cluster3 1" using wit_leader(2) by (simp add: leaders_def wit_cluster3_def wit_after_ready_def set_member_def)
  then show ?thesis using election_safety [OF wit_reachable wit_overlapping] by blast
qed

text \<open>C2: whatever the members and messages of a run do, all messages that only a leader sends in a
  term (appends, heartbeats, snapshots) that were ever sent, by members that may have crashed or
  stepped down since, have the same sender.\<close>

theorem one_leader_speaks:
  assumes "reachable cs c" and "overlapping cs" and "i \<in> leader_senders c t" and "j \<in> leader_senders c t"
  shows "i = j"
proof -
  from reachable_ok [OF assms(1)] obtain hist where "cluster_ok cs hist c" ..
  moreover from assms(3,4) obtain x y where "x \<in> clNet c" "y \<in> clNet c" "by_leader x" "by_leader y" "mTerm x = mTerm y"
    "i = mFrom x" "j = mFrom y" unfolding leader_senders_def by auto
  ultimately show ?thesis using one_sender [OF _ assms(2)] by blast
qed

theorem one_leader_speaks_witness: "leader_senders wit_cluster3 1 = {1}"
proof -
  from wit_leader(1) obtain x where x: "x \<in> set (rdMessages (snd (wit_ready wit_advanced)))" "by_leader x" "mTerm x = 1" "mFrom x = 1"
    unfolding list_ex_iff by blast
  then have "x \<in> clNet wit_cluster3" by (simp add: wit_cluster3_def wit_after_ready_def)
  with x have "1 \<in> leader_senders wit_cluster3 1" unfolding leader_senders_def by (intro CollectI exI [of _ x]) simp
  then show ?thesis using one_leader_speaks [OF wit_reachable wit_overlapping] by blast
qed

end
