(* ===== verification/WireProps.thy ===== *)
theory WireProps
  imports Wire
begin

text \<open>
  What the codec promises: a varint decodes to the value that was encoded, Size is the number of
  bytes that MarshalTo writes, so that Marshal does not panic, and Unmarshal of what Marshal has
  written gives the message back.
\<close>

unbundle bit_operations_syntax

section \<open>Varints\<close>

lemma word_7F: "(0x7F :: 'a::len word) = mask 7"
  by (simp add: mask_eq_exp_minus_1)

lemma bit_80 [simp]: "bit (0x80 :: 'a::len word) n \<longleftrightarrow> n = 7 \<and> 7 < LENGTH('a)"
proof -
  have "(0x80 :: 'a word) = 2 ^ 7" by simp
  then have "bit (0x80 :: 'a word) n \<longleftrightarrow> bit (2 ^ 7 :: 'a word) n" by (rule arg_cong)
  also have "\<dots> \<longleftrightarrow> n = 7 \<and> 7 < LENGTH('a)" unfolding bit_exp_iff by auto
  finally show ?thesis .
qed

lemma ucast_and_7F: "(ucast x :: 'a::len word) AND 0x7F = ucast (x AND 0x7F)" for x :: "'b::len word"
  unfolding word_7F by (rule bit_word_eqI) (auto simp: bit_simps dest: bit_imp_le_length)

lemma ucast_byte: "(ucast (ucast (v AND 0x7F) :: u8) :: 'a::len word) = ucast (v AND 0x7F)" for v :: u64
  unfolding word_7F by (rule bit_word_eqI) (auto simp: bit_simps dest: bit_imp_le_length)

lemma low_or_high:
  "(ucast (v AND 0x7F) :: 'a::len word) OR push_bit 7 (ucast (drop_bit 7 v)) = ucast v" for v :: "'b::len word"
  unfolding word_7F
proof (rule bit_word_eqI)
  fix n assume "n < LENGTH('a)"
  then show "bit ((ucast (v AND mask 7) :: 'a word) OR push_bit 7 (ucast (drop_bit 7 v))) n = bit (ucast v :: 'a word) n"
    by (cases "n < 7") (auto simp: bit_simps dest: bit_imp_le_length)
qed

lemma bit_7_ge: "bit (b :: u8) 7 \<longleftrightarrow> \<not> b < 0x80"
proof -
  have "bit b 7 \<longleftrightarrow> odd (unat b div 128)"
    by (simp add: bit_unsigned_iff flip: bit_iff_odd [of "unat b" 7, simplified])
  moreover have "unat b < 256" using unsigned_less [of b] by simp
  then have "unat b div 128 = 0 \<or> unat b div 128 = 1" by linarith
  ultimately show ?thesis by (auto simp: word_less_nat_alt div_eq_0_iff)
qed

lemma small_and_7F: "unat v < 128 \<Longrightarrow> v AND 0x7F = v" for v :: "'a::len word"
proof -
  assume v: "unat v < 128"
  have "unat (take_bit 7 v) = take_bit 7 (unat v)" by (rule unsigned_take_bit_eq)
  also have "\<dots> = unat v" using v by (simp add: take_bit_eq_mod)
  finally show ?thesis unfolding word_7F by (simp add: word_unat_eq_iff flip: take_bit_eq_mask)
qed

lemma encodeVarint_small: "v < 128 \<Longrightarrow> encodeVarint v = [ucast v]"
  using encodeVarint.simps [of v] by (simp add: not_le [symmetric])

lemma encodeVarint_big:
  "128 \<le> v \<Longrightarrow> encodeVarint v = ucast ((v AND 0x7F) OR 0x80) # encodeVarint (drop_bit 7 v)"
  by (subst encodeVarint.simps) simp

lemma readVarint_encode_from:
  fixes acc :: "'a::len word"
  assumes "s < 64" "unat v < 2 ^ (64 - s)"
  shows "readVarint s acc (encodeVarint v @ rest)
    = Inr (acc OR push_bit s (ucast v), length (encodeVarint v))"
  using assms
proof (induction v arbitrary: s acc rule: encodeVarint.induct)
  case (1 v)
  show ?case
  proof (cases "128 \<le> v")
    case False
    then have small: "unat v < 128" by (simp add: word_le_nat_alt)
    have "unat (ucast v :: u8) = unat v" using small by (simp add: unsigned_ucast_eq take_bit_eq_mod)
    then have "(ucast v :: u8) < 0x80" using small by (simp add: word_less_nat_alt)
    moreover have "(ucast (ucast v :: u8) :: 'a word) AND 0x7F = ucast v"
    proof -
      have v: "v AND 0x7F = v" using small by (rule small_and_7F)
      have "(ucast (ucast v :: u8) :: 'a word) AND 0x7F = ucast ((ucast v :: u8) AND 0x7F)" by (rule ucast_and_7F)
      also have "(ucast v :: u8) AND 0x7F = ucast (v AND 0x7F)" by (rule ucast_and_7F)
      also have "(ucast (ucast (v AND 0x7F) :: u8) :: 'a word) = ucast (v AND 0x7F)"
        by (rule ucast_byte)
      finally show ?thesis by (simp only: v)
    qed
    ultimately show ?thesis using False 1(2) by (simp add: encodeVarint_small not_le)
  next
    case True
    let ?b = "ucast ((v AND 0x7F) OR 0x80) :: u8"
    from True 1(3) have "(128 :: nat) < 2 ^ (64 - s)" by (simp add: word_le_nat_alt)
    then have "7 < 64 - s" using power_strict_increasing_iff [of "2 :: nat" 7 "64 - s"] by simp
    then have s: "s + 7 < 64" by simp
    have "unat (drop_bit 7 v) < 2 ^ (64 - (s + 7))"
    proof -
      have "64 - s = (64 - (s + 7)) + 7" using s by simp
      then have "(2::nat) ^ (64 - s) = 2 ^ (64 - (s + 7)) * 2 ^ 7" by (simp only: power_add)
      then show ?thesis using 1(3) by (simp add: unat_drop_bit_7 less_mult_imp_div_less)
    qed
    note IH = 1(1) [OF True s this]
    have b: "\<not> ?b < 0x80" unfolding bit_7_ge [symmetric] by (simp add: bit_simps)
    have v: "((v AND 0x7F) OR 0x80) AND 0x7F = v AND 0x7F"
      unfolding word_7F by (rule bit_word_eqI) (auto simp: bit_and_iff bit_or_iff bit_mask_iff bit_80 simp del: bit_numeral_word_iff)
    have a: "(ucast ?b :: 'a word) AND 0x7F = ucast (v AND 0x7F)"
      unfolding ucast_and_7F v by (rule ucast_byte)
    have "(acc OR push_bit s (ucast (v AND 0x7F))) OR push_bit (s + 7) (ucast (drop_bit 7 v) :: 'a word)
      = acc OR push_bit s (ucast v)"
    proof -
      have "push_bit s (ucast (v AND 0x7F)) OR push_bit (s + 7) (ucast (drop_bit 7 v) :: 'a word)
        = push_bit s (ucast (v AND 0x7F) OR push_bit 7 (ucast (drop_bit 7 v)))"
        by (simp add: push_bit_or push_bit_push_bit)
      then show ?thesis by (simp only: or.assoc low_or_high)
    qed
    with IH b a 1(2) show ?thesis by (simp add: encodeVarint_big [OF True] Let_def)
  qed
qed

lemma readVarint_encode [simp]:
  "readVarint 0 0 (encodeVarint v @ rest) = Inr (ucast v, length (encodeVarint v))"
  using readVarint_encode_from [of 0 v 0 rest] unsigned_less [of v] by simp

lemma readVarint_tag: "t < 0x80 \<Longrightarrow> readVarint 0 0 (t # rest) = Inr (ucast t :: u64, 1)"
proof -
  assume t: "t < 0x80"
  then have "unat (ucast t :: u64) < 128" by (simp add: word_less_nat_alt unsigned_ucast_eq take_bit_eq_mod)
  then show ?thesis using t by (simp add: small_and_7F)
qed

lemma length_encodeVarint: "length (encodeVarint v) = sovRaft v"
proof (induction v rule: encodeVarint.induct)
  case (1 v)
  show ?case
  proof (cases "128 \<le> v")
    case True
    have "drop_bit 7 v \<noteq> 0" using True by (simp add: word_le_nat_alt unat_drop_bit_7 flip: unat_eq_0)
    with 1 [OF True] show ?thesis by (simp add: encodeVarint_big [OF True] sovRaft.simps [of v])
  next
    case False
    then have "drop_bit 7 v = 0" by (simp add: word_le_nat_alt unat_drop_bit_7 flip: unat_eq_0)
    with False show ?thesis by (simp add: encodeVarint_small not_le sovRaft.simps [of v])
  qed
qed

section \<open>Marshal writes Size bytes\<close>

lemma length_encodeBytesField: "length (encodeBytesField t d) = bytes_field_size d"
  by (cases d) (simp_all add: encodeBytesField_def bytes_field_size_def length_encodeVarint)

lemma length_ConfChangeSingle: "length (ConfChangeSingle_MarshalTo m) = ConfChangeSingle_Size m"
  by (simp add: ConfChangeSingle_MarshalTo_def ConfChangeSingle_Size_def length_encodeVarint)

lemma length_Entry: "length (Entry_MarshalTo m) = Entry_Size m"
  by (simp add: Entry_MarshalTo_def Entry_Size_def length_encodeVarint length_encodeBytesField)

lemma length_ConfChange: "length (ConfChange_MarshalTo m) = ConfChange_Size m"
  by (simp add: ConfChange_MarshalTo_def ConfChange_Size_def length_encodeVarint length_encodeBytesField)

lemma length_ConfChangeV2: "length (ConfChangeV2_MarshalTo m) = ConfChangeV2_Size m"
  by (simp add: ConfChangeV2_MarshalTo_def ConfChangeV2_Size_def length_encodeVarint length_encodeBytesField
      length_concat length_ConfChangeSingle comp_def Let_def add_ac)

lemma Marshal_total:
  "Entry_Marshal e = Some (Entry_MarshalTo e)" "ConfChange_Marshal c = Some (ConfChange_MarshalTo c)"
  "ConfChangeSingle_Marshal s = Some (ConfChangeSingle_MarshalTo s)" "ConfChangeV2_Marshal v = Some (ConfChangeV2_MarshalTo v)"
  by (simp_all add: Entry_Marshal_def ConfChange_Marshal_def ConfChangeSingle_Marshal_def ConfChangeV2_Marshal_def
      length_Entry length_ConfChange length_ConfChangeSingle length_ConfChangeV2)

section \<open>Unmarshal inverts Marshal\<close>

text \<open>One field of a message: a tag byte with field number f and a wire type, then a varint or
  length-delimited bytes.\<close>

lemma loop_tag:
  assumes "t < 0x80" "sint (ucast (drop_bit 3 (ucast t :: u64)) :: int32) = f" "0 < f"
    "(ucast t :: u64) AND 7 = w" "w \<noteq> 4"
    and "h f w l (l - length (t # d) + 1) d m = Some (Some (Inr (m', k)))"
  shows "unmarshalLoop h unk l (t # d) m = unmarshalLoop h unk l (drop k d) m'"
  using assms by (subst unmarshalLoop.simps) (simp add: readVarint_tag Let_def del: readVarint.simps)

lemma loop_varint:
  assumes "t < 0x80" "sint (ucast (drop_bit 3 (ucast t :: u64)) :: int32) = f" "0 < f"
    "(ucast t :: u64) AND 7 = 0"
    and "\<And>pos d. h f 0 l pos d m = Some (varintField 0 d upd)"
  shows "unmarshalLoop h unk l (t # encodeVarint v @ rest) m = unmarshalLoop h unk l rest (upd (ucast v))"
  using loop_tag [OF assms(1-4), of h l "encodeVarint v @ rest" m "upd (ucast v)" "length (encodeVarint v)" unk] assms(5)
  by (simp add: varintField_def)

lemma bytesField_encode:
  assumes "pos + length (encodeVarint (word_of_nat (length b))) + length b \<le> l" "l < 9223372036854775808"
  shows "bytesField 2 l pos (encodeVarint (word_of_nat (length b)) @ b @ rest)
    = Some (Inr (b, length (encodeVarint (word_of_nat (length b))) + length b))"
proof -
  have b: "length b < 9223372036854775808" using assms by simp
  then have u: "unat (word_of_nat (length b) :: u64) = length b" by (simp add: unat_of_nat)
  have sint_small: "sint w = int (unat w)" if "unat w < 9223372036854775808" for w :: u64
  proof -
    from that have "int (unat w) < int 9223372036854775808" by (simp only: of_nat_less_iff)
    then have "uint w < 9223372036854775808" by simp
    moreover have "- (2 ^ 63) \<le> uint w" by (rule order_trans [of _ 0]) simp_all
    ultimately have "signed_take_bit 63 (uint w) = uint w" by (intro signed_take_bit_int_eq_self) simp_all
    then show ?thesis by (simp add: sint_uint)
  qed
  let ?n = "length (encodeVarint (word_of_nat (length b)))"
  have sint_nat: "sint (word_of_nat N :: u64) = int N" if "N < 9223372036854775808" for N
  proof -
    have "unat (word_of_nat N :: u64) = N" using that by (intro unat_of_nat_small) simp
    with sint_small [of "word_of_nat N"] that show ?thesis by (simp del: unsigned_of_nat)
  qed
  have "pos + ?n + length b < 9223372036854775808" using assms by simp
  from sint_nat [OF this] have "int64 (int (pos + ?n) + int (length b)) = int (pos + ?n + length b)"
    unfolding int64_def by (simp del: signed_of_nat)
  moreover have "sint (word_of_nat (length b) :: u64) = int (length b)"
    using sint_nat [OF b] .
  moreover have "readVarint 0 (0 :: u64) (encodeVarint (word_of_nat (length b)) @ b @ rest) = Inr (word_of_nat (length b), ?n)"
    using readVarint_encode [of "word_of_nat (length b)" "b @ rest", where 'a = 64] by simp
  ultimately show ?thesis
    unfolding bytesField_def using assms(1) by (simp add: Let_def u del: signed_of_nat)
qed

lemma loop_bytes:
  assumes "t < 0x80" "sint (ucast (drop_bit 3 (ucast t :: u64)) :: int32) = f" "0 < f"
    "(ucast t :: u64) AND 7 = 2"
    and "\<And>pos d. h f 2 l pos d m = Some (res_bind (bytesField 2 l pos d) F)" "\<And>n. F (b, n) = Some (Inr (m', n))"
    and "length (t # encodeVarint (word_of_nat (length b)) @ b @ rest) \<le> l" "l < 9223372036854775808"
  shows "unmarshalLoop h unk l (t # encodeVarint (word_of_nat (length b)) @ b @ rest) m = unmarshalLoop h unk l rest m'"
proof -
  let ?d = "encodeVarint (word_of_nat (length b)) @ b @ rest"
  have "bytesField 2 l (l - length (t # ?d) + 1) ?d
      = Some (Inr (b, length (encodeVarint (word_of_nat (length b))) + length b))"
    using assms(7,8) by (intro bytesField_encode) auto
  then have "h f 2 l (l - length (t # ?d) + 1) ?d m
      = Some (Some (Inr (m', length (encodeVarint (word_of_nat (length b))) + length b)))"
    using assms(5,6) by simp
  then have "unmarshalLoop h unk l (t # ?d) m
      = unmarshalLoop h unk l (drop (length (encodeVarint (word_of_nat (length b))) + length b) ?d) m'"
    by (intro loop_tag [OF assms(1-4)]) simp_all
  then show ?thesis by simp
qed

lemma loop_end [simp]: "unmarshalLoop h unk l [] m = Some (Inr m)"
  by (simp add: unmarshalLoop.simps)

lemma ucast_u64_of_int32 [simp]: "ucast (u64_of_int32 x) = x"
  unfolding u64_of_int32_def by (rule bit_word_eqI) (auto simp: bit_simps)

lemma Entry_roundtrip:
  assumes "eXXX e = []" "Entry_Size e < 9223372036854775808"
  shows "Entry_Unmarshal (Entry_MarshalTo e) zeroEntry = Some (Inr e)"
proof -
  define l where "l = length (Entry_MarshalTo e)"
  have l: "l < 9223372036854775808" using assms(2) by (simp add: l_def length_Entry)
  let ?L = "unmarshalLoop Entry_field (\<lambda>u m. m\<lparr>eXXX := eXXX m @ u\<rparr>) l"
  let ?m = "zeroEntry\<lparr>eType := eType e, eTerm := eTerm e, eIndex := eIndex e\<rparr>"
  have "?L (Entry_MarshalTo e) zeroEntry = ?L (encodeBytesField 0x22 (eData e)) ?m"
    using assms(1) by (simp add: Entry_MarshalTo_def loop_varint [where f = 1 and t = "0x8" and upd = "\<lambda>v. zeroEntry\<lparr>eType := v\<rparr>"]
        loop_varint [where f = 2 and t = "0x10" and upd = "\<lambda>v. zeroEntry\<lparr>eType := eType e, eTerm := v\<rparr>"]
        loop_varint [where f = 3 and t = "0x18" and rest = "encodeBytesField 0x22 (eData e)" and upd = "\<lambda>v. zeroEntry\<lparr>eType := eType e, eTerm := eTerm e, eIndex := v\<rparr>"])
  also have "\<dots> = Some (Inr e)"
  proof (cases "eData e")
    case None
    with assms(1) show ?thesis by (cases e) (simp add: encodeBytesField_def zeroEntry_def)
  next
    case (Some b)
    have "?L (0x22 # encodeVarint (word_of_nat (length b)) @ b @ []) ?m = ?L [] (?m\<lparr>eData := Some b\<rparr>)"
      by (rule loop_bytes [where f = 4 and F = "\<lambda>(b, n). Some (Inr (?m\<lparr>eData := Some b\<rparr>, n))"])
        (use l Some in \<open>simp_all add: l_def Entry_MarshalTo_def encodeBytesField_def\<close>)
    with assms(1) Some show ?thesis by (cases e) (simp add: encodeBytesField_def zeroEntry_def)
  qed
  finally show ?thesis by (simp add: Entry_Unmarshal_def l_def)
qed

lemma ConfChange_roundtrip:
  assumes "ccXXX c = []" "ConfChange_Size c < 9223372036854775808"
  shows "ConfChange_Unmarshal (ConfChange_MarshalTo c) zeroConfChange = Some (Inr c)"
proof -
  define l where "l = length (ConfChange_MarshalTo c)"
  have l: "l < 9223372036854775808" using assms(2) by (simp add: l_def length_ConfChange)
  let ?L = "unmarshalLoop ConfChange_field (\<lambda>u m. m\<lparr>ccXXX := ccXXX m @ u\<rparr>) l"
  let ?m = "zeroConfChange\<lparr>ccID := ccID c, ccType := ccType c, ccNodeID := ccNodeID c\<rparr>"
  have "?L (ConfChange_MarshalTo c) zeroConfChange = ?L (encodeBytesField 0x22 (ccContext c)) ?m"
    using assms(1) by (simp add: ConfChange_MarshalTo_def loop_varint [where f = 1 and t = "0x8" and upd = "\<lambda>v. zeroConfChange\<lparr>ccID := v\<rparr>"]
        loop_varint [where f = 2 and t = "0x10" and upd = "\<lambda>v. zeroConfChange\<lparr>ccID := ccID c, ccType := v\<rparr>"]
        loop_varint [where f = 3 and t = "0x18" and rest = "encodeBytesField 0x22 (ccContext c)"
          and upd = "\<lambda>v. zeroConfChange\<lparr>ccID := ccID c, ccType := ccType c, ccNodeID := v\<rparr>"])
  also have "\<dots> = Some (Inr c)"
  proof (cases "ccContext c")
    case None
    with assms(1) show ?thesis by (cases c) (simp add: encodeBytesField_def zeroConfChange_def)
  next
    case (Some b)
    have "?L (0x22 # encodeVarint (word_of_nat (length b)) @ b @ []) ?m = ?L [] (?m\<lparr>ccContext := Some b\<rparr>)"
      by (rule loop_bytes [where f = 4 and F = "\<lambda>(b, n). Some (Inr (?m\<lparr>ccContext := Some b\<rparr>, n))"])
        (use l Some in \<open>simp_all add: l_def ConfChange_MarshalTo_def encodeBytesField_def\<close>)
    with assms(1) Some show ?thesis by (cases c) (simp add: encodeBytesField_def zeroConfChange_def)
  qed
  finally show ?thesis by (simp add: ConfChange_Unmarshal_def l_def)
qed

lemma ConfChangeSingle_roundtrip:
  assumes "csXXX c = []"
  shows "ConfChangeSingle_Unmarshal (ConfChangeSingle_MarshalTo c) zeroConfChangeSingle = Some (Inr c)"
proof -
  define l where "l = length (ConfChangeSingle_MarshalTo c)"
  let ?L = "unmarshalLoop ConfChangeSingle_field (\<lambda>u m. m\<lparr>csXXX := csXXX m @ u\<rparr>) l"
  have "?L (ConfChangeSingle_MarshalTo c) zeroConfChangeSingle = ?L [] (zeroConfChangeSingle\<lparr>csType := csType c, csNodeID := csNodeID c\<rparr>)"
    using assms loop_varint [where f = 2 and t = "0x10" and rest = "[]" and h = ConfChangeSingle_field
          and upd = "\<lambda>v. zeroConfChangeSingle\<lparr>csType := csType c, csNodeID := v\<rparr>"]
    by (simp add: ConfChangeSingle_MarshalTo_def
        loop_varint [where f = 1 and t = "0x8" and upd = "\<lambda>v. zeroConfChangeSingle\<lparr>csType := v\<rparr>"])
  then show ?thesis using assms by (cases c) (simp add: ConfChangeSingle_Unmarshal_def l_def zeroConfChangeSingle_def)
qed

definition encodeChange :: "ConfChangeSingle \<Rightarrow> bytes" where
  "encodeChange c = 0x12 # encodeVarint (word_of_nat (length (ConfChangeSingle_MarshalTo c))) @ ConfChangeSingle_MarshalTo c"

lemma loop_changes:
  assumes "\<forall>c \<in> set cs. csXXX c = []" "length (concat (map encodeChange cs) @ rest) \<le> l" "l < 9223372036854775808"
  shows "unmarshalLoop ConfChangeV2_field unk l (concat (map encodeChange cs) @ rest) m
    = unmarshalLoop ConfChangeV2_field unk l rest (m\<lparr>v2Changes := v2Changes m @ cs\<rparr>)"
  using assms(1,2)
proof (induction cs arbitrary: m)
  case (Cons c cs)
  let ?b = "ConfChangeSingle_MarshalTo c" and ?rest = "concat (map encodeChange cs) @ rest"
  let ?m = "m\<lparr>v2Changes := v2Changes m @ [c]\<rparr>"
  have "unmarshalLoop ConfChangeV2_field unk l (0x12 # encodeVarint (word_of_nat (length ?b)) @ ?b @ ?rest) m
    = unmarshalLoop ConfChangeV2_field unk l ?rest ?m"
    by (rule loop_bytes [where f = 2 and F = "\<lambda>(b, n). res_bind (ConfChangeSingle_Unmarshal b zeroConfChangeSingle)
        (\<lambda>c. Some (Inr (m\<lparr>v2Changes := v2Changes m @ [c]\<rparr>, n)))"])
      (use Cons.prems assms(3) in \<open>simp_all add: ConfChangeSingle_roundtrip encodeChange_def [of c]\<close>)
  with Cons.IH [of ?m] Cons.prems show ?case
    by (simp add: encodeChange_def [of c] del: ConfChangeV2_field.simps)
qed simp

lemma ConfChangeV2_roundtrip:
  assumes "v2XXX c = []" "\<forall>x \<in> set (v2Changes c). csXXX x = []" "ConfChangeV2_Size c < 9223372036854775808"
  shows "ConfChangeV2_Unmarshal (ConfChangeV2_MarshalTo c) zeroConfChangeV2 = Some (Inr c)"
proof -
  define l where "l = length (ConfChangeV2_MarshalTo c)"
  have l: "l < 9223372036854775808" using assms(3) by (simp add: l_def length_ConfChangeV2)
  let ?unk = "\<lambda>u m. m\<lparr>v2XXX := v2XXX m @ u\<rparr>"
  let ?L = "unmarshalLoop ConfChangeV2_field ?unk l"
  let ?z = "zeroConfChangeV2\<lparr>v2Transition := v2Transition c\<rparr>"
  let ?m = "?z\<lparr>v2Changes := v2Changes c\<rparr>" and ?rest = "encodeBytesField 0x1a (v2Context c)"
  have enc: "ConfChangeV2_MarshalTo c = 0x8 # encodeVarint (u64_of_int32 (v2Transition c))
      @ concat (map encodeChange (v2Changes c)) @ ?rest"
    using assms(1) by (simp add: ConfChangeV2_MarshalTo_def encodeChange_def [abs_def] length_ConfChangeSingle)
  let ?cs = "concat (map encodeChange (v2Changes c)) @ encodeBytesField 0x1a (v2Context c)"
  have "?L (0x8 # encodeVarint (u64_of_int32 (v2Transition c)) @ ?cs) zeroConfChangeV2
    = ?L ?cs (zeroConfChangeV2\<lparr>v2Transition := ucast (u64_of_int32 (v2Transition c))\<rparr>)"
    by (rule loop_varint [where f = 1 and upd = "\<lambda>v. zeroConfChangeV2\<lparr>v2Transition := v\<rparr>"]) simp_all
  then have "?L (ConfChangeV2_MarshalTo c) zeroConfChangeV2 = ?L ?cs ?z"
    unfolding enc by simp
  also have "\<dots> = ?L ?rest ?m"
    using loop_changes [OF assms(2) _ l, of ?rest ?unk ?z] by (simp add: l_def enc zeroConfChangeV2_def)
  also have "\<dots> = Some (Inr c)"
  proof (cases "v2Context c")
    case None
    with assms(1) show ?thesis by (cases c) (simp add: encodeBytesField_def zeroConfChangeV2_def)
  next
    case (Some b)
    have "?L (0x1a # encodeVarint (word_of_nat (length b)) @ b @ []) ?m = ?L [] (?m\<lparr>v2Context := Some b\<rparr>)"
      by (rule loop_bytes [where f = 3 and F = "\<lambda>(b, n). Some (Inr (?m\<lparr>v2Context := Some b\<rparr>, n))"])
        (use l Some in \<open>simp_all add: l_def enc encodeBytesField_def\<close>)
    with assms(1) Some show ?thesis by (cases c) (simp add: encodeBytesField_def zeroConfChangeV2_def)
  qed
  finally show ?thesis by (simp add: ConfChangeV2_Unmarshal_def l_def)
qed

section \<open>The properties\<close>

text \<open>C27: Marshal of an entry never panics and writes exactly Size bytes, and Unmarshal of these bytes
  gives the entry back, including the difference between no data and empty data (for an entry
  without unrecognised fields, of a size that fits a Go int).\<close>

theorem entry_codec:
  assumes "eXXX e = []" "Entry_Size e < 9223372036854775808"
  shows "\<exists>d. Entry_Marshal e = Some d \<and> length d = Entry_Size e \<and> Entry_Unmarshal d zeroEntry = Some (Inr e)"
  using Entry_roundtrip [OF assms] Marshal_total(1) [of e] length_Entry [of e] by auto

definition wit_wire_entry :: entry where
  "wit_wire_entry = zeroEntry\<lparr>eTerm := 300, eIndex := 2, eData := Some [1, 2]\<rparr>"

theorem entry_codec_witness:
  "\<exists>d. Entry_Marshal wit_wire_entry = Some d \<and> length d = 11 \<and> Entry_Unmarshal d zeroEntry = Some (Inr wit_wire_entry)"
proof -
  have size: "eXXX wit_wire_entry = []" "Entry_Size wit_wire_entry = 11" by code_simp+
  from entry_codec [OF size(1)] size(2) show ?thesis by simp
qed

text \<open>C28: what a node proposes as a configuration change is what is decoded from the entry: the change
  itself in the format of the entry's type, V1 or V2.\<close>

theorem confchange_codec:
  assumes "case c of V1 cc \<Rightarrow> ccXXX cc = [] \<and> ConfChange_Size cc < 9223372036854775808
    | V2 cc \<Rightarrow> v2XXX cc = [] \<and> (\<forall>x \<in> set (v2Changes cc). csXXX x = []) \<and> ConfChangeV2_Size cc < 9223372036854775808"
  shows "\<exists>d. MarshalConfChange c = Some (if snd (AsV1 c) then EntryConfChange else EntryConfChangeV2, d)
    \<and> (if snd (AsV1 c) then ConfChange_Unmarshal d zeroConfChange = Some (Inr (fst (AsV1 c)))
       else ConfChangeV2_Unmarshal d zeroConfChangeV2 = Some (Inr (AsV2 c)))"
proof (cases c)
  case (V1 cc)
  with assms show ?thesis by (simp add: MarshalConfChange_def Marshal_total ConfChange_roundtrip)
next
  case (V2 cc)
  with assms show ?thesis by (simp add: MarshalConfChange_def Marshal_total ConfChangeV2_roundtrip)
qed

definition wit_wire_change :: ConfChangeV2 where
  "wit_wire_change = zeroConfChangeV2\<lparr>v2Changes := [zeroConfChangeSingle\<lparr>csNodeID := 4\<rparr>, zeroConfChangeSingle\<lparr>csType := ConfChangeRemoveNode, csNodeID := 1\<rparr>]\<rparr>"

theorem confchange_codec_witness:
  "\<exists>d. MarshalConfChange (V2 wit_wire_change) = Some (EntryConfChangeV2, d)
     \<and> ConfChangeV2_Unmarshal d zeroConfChangeV2 = Some (Inr wit_wire_change)"
proof -
  have "v2XXX wit_wire_change = []" "\<forall>x \<in> set (v2Changes wit_wire_change). csXXX x = []"
    "ConfChangeV2_Size wit_wire_change = 14" by code_simp+
  then show ?thesis using confchange_codec [of "V2 wit_wire_change"] by simp
qed

end
