(* ===== verification/Backend.thy ===== *)
theory Backend
  imports Prelude "HOL-Library.List_Lexorder"
begin

text \<open>
  mvcc/backend/batch_tx.go: reading and writing a bucket of the backend, a bbolt database. A bucket
  is an ordered map of byte strings and is a finite map here; a cursor visits its keys in order.
  Transactions, batching and the read buffer are not modelled: a read sees all earlier writes.
\<close>

type_synonym bucket = "(bytes, bytes) fmap"

definition bucket_keys :: "bucket \<Rightarrow> bytes list" where
  "bucket_keys b = sorted_list_of_fset (fmdom b)"

definition UnsafePut :: "bytes \<Rightarrow> bytes \<Rightarrow> bucket \<Rightarrow> bucket" where
  "UnsafePut k v b = fmupd k v b"

definition UnsafeDelete :: "bytes \<Rightarrow> bucket \<Rightarrow> bucket" where
  "UnsafeDelete k b = fmdrop k b"

text \<open>The cursor seeks the first key not before \<open>key\<close>; without an end key only \<open>key\<close> itself matches.\<close>

definition UnsafeRange :: "bucket \<Rightarrow> bytes \<Rightarrow> bytes \<Rightarrow> int \<Rightarrow> bytes list \<times> bytes list" where
  "UnsafeRange b key endKey lim =
     (let isMatch = (if length endKey > 0 then (\<lambda>k. k < endKey) else (\<lambda>k. k = key));
          lim = (if length endKey > 0 then lim else 1);
          ks = takeWhile isMatch (dropWhile (\<lambda>k. k < key) (bucket_keys b));
          ks = (if lim \<le> 0 then ks else take (nat lim) ks)
      in (ks, map (\<lambda>k. the (fmlookup b k)) ks))"

end
