(* ===== verification/LeaseQueue.thy ===== *)
theory LeaseQueue
  imports Prelude "HOL-Library.Multiset"
begin

text \<open>
  lease/lease_queue.go: a binary heap of leases with a time, on the operations of Go's
  container/heap, and the notifier that keeps one entry per lease. The entries of the notifier are
  shared between its map and its queue by pointers; an entry of the map stands for the entry of the
  queue with the same id.
\<close>


type_synonym LeaseID = int

record LeaseWithTime =
  lwID :: LeaseID
  lwTime :: int
  lwIndex :: int

type_synonym LeaseQueue = "LeaseWithTime list"

definition lq_Less :: "nat \<Rightarrow> nat \<Rightarrow> LeaseQueue \<Rightarrow> bool" where
  "lq_Less i j pq \<longleftrightarrow> lwTime (pq ! i) < lwTime (pq ! j)"

definition lq_Swap :: "nat \<Rightarrow> nat \<Rightarrow> LeaseQueue \<Rightarrow> LeaseQueue" where
  "lq_Swap i j pq = (let pq = pq[i := pq ! j, j := pq ! i]; pq = pq[i := (pq ! i)\<lparr>lwIndex := int i\<rparr>]
     in pq[j := (pq ! j)\<lparr>lwIndex := int j\<rparr>])"

definition lq_Push :: "LeaseWithTime \<Rightarrow> LeaseQueue \<Rightarrow> LeaseQueue" where
  "lq_Push item pq = pq @ [item\<lparr>lwIndex := int (length pq)\<rparr>]"

definition lq_Pop :: "LeaseQueue \<Rightarrow> LeaseQueue \<times> LeaseWithTime" where
  "lq_Pop old = (butlast old, (last old)\<lparr>lwIndex := - 1\<rparr>)"

section \<open>container/heap\<close>

fun heap_up :: "nat \<Rightarrow> LeaseQueue \<Rightarrow> LeaseQueue" where
  "heap_up j h = (let i = (j - 1) div 2 in
     if j = 0 \<or> \<not> lq_Less j i h then h else heap_up i (lq_Swap i j h))"

declare heap_up.simps [simp del]

text \<open>The result tells whether the element has moved.\<close>

function heap_down :: "nat \<Rightarrow> nat \<Rightarrow> LeaseQueue \<Rightarrow> LeaseQueue \<times> bool" where
  "heap_down i n h =
     (let j1 = 2 * i + 1 in
      if n \<le> j1 then (h, False)
      else let j2 = j1 + 1; j = (if j2 < n \<and> lq_Less j2 j1 h then j2 else j1) in
        if \<not> lq_Less j i h then (h, False)
        else (fst (heap_down j n (lq_Swap i j h)), True))"
  by pat_completeness auto
termination
  by (relation "measure (\<lambda>(i, n, h). n - i)") (auto simp: Let_def)

declare heap_down.simps [simp del]

fun initFrom :: "nat \<Rightarrow> LeaseQueue \<Rightarrow> LeaseQueue" where
  "initFrom 0 h = h"
| "initFrom (Suc i) h = initFrom i (fst (heap_down i (length h) h))"

definition heap_Init :: "LeaseQueue \<Rightarrow> LeaseQueue" where
  "heap_Init h = initFrom (length h div 2) h"

definition heap_Push :: "LeaseWithTime \<Rightarrow> LeaseQueue \<Rightarrow> LeaseQueue" where
  "heap_Push x h = (let h = lq_Push x h in heap_up (length h - 1) h)"

definition heap_Pop :: "LeaseQueue \<Rightarrow> (LeaseQueue \<times> LeaseWithTime) option" where
  "heap_Pop h =
     (if h = [] then None
      else let n = length h - 1; h = lq_Swap 0 n h; (h, _) = heap_down 0 n h in Some (lq_Pop h))"

definition heap_Fix :: "nat \<Rightarrow> LeaseQueue \<Rightarrow> LeaseQueue" where
  "heap_Fix i h = (case heap_down i (length h) h of (h', moved) \<Rightarrow> if moved then h' else heap_up i h')"

section \<open>The notifier\<close>

record LeaseExpiredNotifier =
  nqM :: "LeaseID fset"
  nqQueue :: LeaseQueue

definition newLeaseExpiredNotifier :: LeaseExpiredNotifier where
  "newLeaseExpiredNotifier = \<lparr>nqM = {||}, nqQueue = []\<rparr>"

definition nq_Init :: "LeaseExpiredNotifier \<Rightarrow> LeaseExpiredNotifier" where
  "nq_Init mq = (let q = heap_Init (nqQueue mq) in \<lparr>nqM = fset_of_list (map lwID q), nqQueue = q\<rparr>)"

text \<open>Where the entry of a lease is: the entry that the map points to, then its index.\<close>

definition set_time :: "LeaseID \<Rightarrow> int \<Rightarrow> LeaseQueue \<Rightarrow> LeaseQueue" where
  "set_time i t q = map (\<lambda>x. if lwID x = i then x\<lparr>lwTime := t\<rparr> else x) q"

definition RegisterOrUpdate :: "LeaseWithTime \<Rightarrow> LeaseExpiredNotifier \<Rightarrow> LeaseExpiredNotifier option" where
  "RegisterOrUpdate item mq =
     (if lwID item |\<in>| nqM mq then
        do {
          old \<leftarrow> find (\<lambda>x. lwID x = lwID item) (nqQueue mq);
          panic_if (lwIndex old < 0 \<or> int (length (nqQueue mq)) \<le> lwIndex old);
          Some (mq\<lparr>nqQueue := heap_Fix (nat (lwIndex old)) (set_time (lwID item) (lwTime item) (nqQueue mq))\<rparr>)
        }
      else Some \<lparr>nqM = finsert (lwID item) (nqM mq), nqQueue = heap_Push item (nqQueue mq)\<rparr>)"

definition Unregister :: "LeaseExpiredNotifier \<Rightarrow> (LeaseExpiredNotifier \<times> LeaseWithTime) option" where
  "Unregister mq =
     do {
       (q, item) \<leftarrow> heap_Pop (nqQueue mq);
       Some (\<lparr>nqM = nqM mq |-| {|lwID item|}, nqQueue = q\<rparr>, item)
     }"

definition nq_Len :: "LeaseExpiredNotifier \<Rightarrow> nat" where
  "nq_Len mq = fcard (nqM mq)"

text \<open>The first entry, or nil; with entries in the map and none in the queue, a panic.\<close>

definition Poll :: "LeaseExpiredNotifier \<Rightarrow> LeaseWithTime option option" where
  "Poll mq = (if nq_Len mq = 0 then Some None else case nqQueue mq of [] \<Rightarrow> None | x # _ \<Rightarrow> Some (Some x))"

end
