(* ===== verification/KeyIndex.thy ===== *)
theory KeyIndex
  imports Prelude "HOL-Library.List_Lexorder"
begin

text \<open>
  mvcc/revision.go and mvcc/key_index.go: revisions of the key space, and the index that keeps, for
  one key, its revisions grouped in generations. A generation ends with the revision of a
  tombstone; the last one is still open, and empty after a tombstone.

  Revisions and versions are int64 values that count up from 1; they are \<open>int\<close> here. The set of
  revisions that compaction keeps, a Go map, is an \<open>fset\<close>. Panics (also those of the logger) are the
  value None; the gauges of the metrics are not modelled.
\<close>

section \<open>Revisions\<close>

datatype revision = Revision (main: int) (sub: int)

definition GreaterThan :: "revision \<Rightarrow> revision \<Rightarrow> bool" where
  "GreaterThan a b =
     (if main a > main b then True else if main a < main b then False else sub a > sub b)"

lemma GreaterThan_Revision [simp]:
  "GreaterThan (Revision a b) (Revision c d) \<longleftrightarrow> a > c \<or> a = c \<and> b > d"
  by (simp add: GreaterThan_def)

lemma GreaterThan_asym: "GreaterThan a b \<Longrightarrow> \<not> GreaterThan b a"
  by (cases a; cases b) auto

lemma GreaterThan_trans: "GreaterThan a b \<Longrightarrow> GreaterThan b c \<Longrightarrow> GreaterThan a c"
  by (cases a; cases b; cases c) auto

lemma GreaterThan_total: "a \<noteq> b \<Longrightarrow> GreaterThan a b \<or> GreaterThan b a"
  by (cases a; cases b) auto

text \<open>The order of revisions is the one of GreaterThan.\<close>

instantiation revision :: linorder
begin

definition less_revision :: "revision \<Rightarrow> revision \<Rightarrow> bool" where
  "a < b \<longleftrightarrow> GreaterThan b a"

definition less_eq_revision :: "revision \<Rightarrow> revision \<Rightarrow> bool" where
  "a \<le> b \<longleftrightarrow> a = b \<or> GreaterThan b a"

instance
  by intro_classes
    (unfold less_revision_def less_eq_revision_def,
      (blast dest: GreaterThan_asym GreaterThan_trans GreaterThan_total)+)

end

lemma GreaterThan_iff [simp]: "GreaterThan a b \<longleftrightarrow> b < a"
  by (simp add: less_revision_def)

lemma revision_less: "a < b \<longleftrightarrow> main a < main b \<or> main a = main b \<and> sub a < sub b"
  by (cases a; cases b) (auto simp: less_revision_def simp del: GreaterThan_iff)

lemma revision_less_main: "a < b \<Longrightarrow> main a \<le> main b"
  by (auto simp: revision_less)

abbreviation zeroRev :: revision where
  "zeroRev \<equiv> Revision 0 0"

section \<open>Generations\<close>

record generation =
  genVer :: int
  genCreated :: revision
  genRevs :: "revision list"

definition zeroGen :: generation where
  "zeroGen = \<lparr>genVer = 0, genCreated = zeroRev, genRevs = []\<rparr>"

text \<open>A nil generation is None.\<close>

definition gen_isEmpty :: "generation option \<Rightarrow> bool" where
  "gen_isEmpty g = (case g of None \<Rightarrow> True | Some g \<Rightarrow> genRevs g = [])"

text \<open>walk visits the revisions from the last one on and returns where its function says stop.\<close>

fun walkFrom :: "nat \<Rightarrow> (revision \<Rightarrow> bool) \<Rightarrow> revision list \<Rightarrow> int" where
  "walkFrom 0 f rs = - 1"
| "walkFrom (Suc n) f rs = (if \<not> f (rs ! n) then int n else walkFrom n f rs)"

definition walk :: "(revision \<Rightarrow> bool) \<Rightarrow> generation \<Rightarrow> int" where
  "walk f g = walkFrom (length (genRevs g)) f (genRevs g)"

definition gen_equal :: "generation \<Rightarrow> generation \<Rightarrow> bool" where
  "gen_equal a b =
     (if genVer a \<noteq> genVer b then False
      else if length (genRevs a) \<noteq> length (genRevs b) then False
      else list_all2 (=) (genRevs a) (genRevs b))"

section \<open>The index of a key\<close>

record keyIndex =
  kiKey :: bytes
  kiModified :: revision
  kiGenerations :: "generation list"

definition newKeyIndex :: "bytes \<Rightarrow> keyIndex" where
  "newKeyIndex key = \<lparr>kiKey = key, kiModified = zeroRev, kiGenerations = []\<rparr>"

datatype MvccErr = ErrRevisionNotFound | ErrCompacted | ErrFutureRev

definition ki_isEmpty :: "keyIndex \<Rightarrow> bool" where
  "ki_isEmpty ki = (case kiGenerations ki of [g] \<Rightarrow> genRevs g = [] | _ \<Rightarrow> False)"

definition ki_put :: "revision \<Rightarrow> keyIndex \<Rightarrow> keyIndex option" where
  "ki_put r ki =
     do {
       panic_if (\<not> GreaterThan r (kiModified ki));
       let gens = (if kiGenerations ki = [] then [zeroGen] else kiGenerations ki);
       let g = last gens;
       let g = (if genRevs g = [] then g\<lparr>genCreated := r\<rparr> else g);
       let g = g\<lparr>genRevs := genRevs g @ [r], genVer := genVer g + 1\<rparr>;
       Some (ki\<lparr>kiGenerations := butlast gens @ [g], kiModified := r\<rparr>)
     }"

definition ki_restore :: "revision \<Rightarrow> revision \<Rightarrow> int \<Rightarrow> keyIndex \<Rightarrow> keyIndex option" where
  "ki_restore created modified ver ki =
     do {
       panic_if (kiGenerations ki \<noteq> []);
       Some (ki\<lparr>kiModified := modified, kiGenerations := kiGenerations ki @
         [\<lparr>genVer = ver, genCreated = created, genRevs = [modified]\<rparr>]\<rparr>)
     }"

text \<open>The error is paired with the index, which is unchanged when there is one.\<close>

definition ki_tombstone :: "revision \<Rightarrow> keyIndex \<Rightarrow> (MvccErr option \<times> keyIndex) option" where
  "ki_tombstone r ki =
     do {
       panic_if (ki_isEmpty ki);
       panic_if (kiGenerations ki = []);
       if genRevs (last (kiGenerations ki)) = [] then Some (Some ErrRevisionNotFound, ki)
       else do {
         ki \<leftarrow> ki_put r ki;
         Some (None, ki\<lparr>kiGenerations := kiGenerations ki @ [zeroGen]\<rparr>)
       }
     }"

text \<open>findGeneration, from the generation before position n down; lastg is the last position.\<close>

fun findGenFrom :: "nat \<Rightarrow> nat \<Rightarrow> generation list \<Rightarrow> int \<Rightarrow> generation option" where
  "findGenFrom 0 lastg gens r = None"
| "findGenFrom (Suc cg) lastg gens r =
     (let g = gens ! cg in
      if genRevs g = [] then findGenFrom cg lastg gens r
      else if cg \<noteq> lastg \<and> main (last (genRevs g)) \<le> r then None
      else if main (hd (genRevs g)) \<le> r then Some g
      else findGenFrom cg lastg gens r)"

definition findGeneration :: "int \<Rightarrow> keyIndex \<Rightarrow> generation option" where
  "findGeneration r ki =
     findGenFrom (length (kiGenerations ki)) (length (kiGenerations ki) - 1) (kiGenerations ki) r"

definition ki_get :: "int \<Rightarrow> keyIndex \<Rightarrow> (MvccErr + revision \<times> revision \<times> int) option" where
  "ki_get atRev ki =
     do {
       panic_if (ki_isEmpty ki);
       Some (case findGeneration atRev ki of
         None \<Rightarrow> Inl ErrRevisionNotFound
       | Some g \<Rightarrow>
           if genRevs g = [] then Inl ErrRevisionNotFound
           else
             let n = walk (\<lambda>r. main r > atRev) g
             in if n \<noteq> - 1
                then Inr (genRevs g ! nat n, genCreated g, genVer g - (int (length (genRevs g)) - n - 1))
                else Inl ErrRevisionNotFound)
     }"

text \<open>since: the generation to start at, then the revisions from there; of several revisions of a
  transaction only the last one.\<close>

fun sinceGen :: "nat \<Rightarrow> revision \<Rightarrow> generation list \<Rightarrow> nat" where
  "sinceGen 0 since gens = 0"
| "sinceGen (Suc gi) since gens =
     (let g = gens ! Suc gi in
      if genRevs g = [] then sinceGen gi since gens
      else if GreaterThan since (genCreated g) then Suc gi
      else sinceGen gi since gens)"

fun sinceLoop :: "revision \<Rightarrow> int \<Rightarrow> revision list \<Rightarrow> revision list \<Rightarrow> revision list option" where
  "sinceLoop since lst acc [] = Some acc"
| "sinceLoop since lst acc (r # rs) =
     (if GreaterThan since r then sinceLoop since lst acc rs
      else if main r = lst
      then if acc = [] then None else sinceLoop since lst (butlast acc @ [r]) rs
      else sinceLoop since (main r) (acc @ [r]) rs)"

definition ki_since :: "int \<Rightarrow> keyIndex \<Rightarrow> revision list option" where
  "ki_since r ki =
     do {
       panic_if (ki_isEmpty ki);
       let since = Revision r 0;
       let gi = sinceGen (length (kiGenerations ki) - 1) since (kiGenerations ki);
       sinceLoop since 0 [] (concat (map genRevs (drop gi (kiGenerations ki))))
     }"

section \<open>Compaction of a key\<close>

text \<open>The first generation that reaches beyond atRev, or the last one.\<close>

fun compactGen :: "int \<Rightarrow> nat \<Rightarrow> generation list \<Rightarrow> nat option" where
  "compactGen atRev i [] = None"
| "compactGen atRev i [g] = Some i"
| "compactGen atRev i (g # gs) =
     (if genRevs g = [] then None
      else if main (last (genRevs g)) > atRev then Some i
      else compactGen atRev (Suc i) gs)"

definition doCompact :: "int \<Rightarrow> revision fset \<Rightarrow> keyIndex \<Rightarrow> (nat \<times> int \<times> revision fset) option" where
  "doCompact atRev available ki =
     do {
       genIdx \<leftarrow> compactGen atRev 0 (kiGenerations ki);
       let g = kiGenerations ki ! genIdx;
       let revIndex = walk (\<lambda>r. \<not> main r \<le> atRev) g;
       let available = (if revIndex = - 1 then available else finsert (genRevs g ! nat revIndex) available);
       Some (genIdx, revIndex, available)
     }"

definition ki_compact :: "int \<Rightarrow> revision fset \<Rightarrow> keyIndex \<Rightarrow> (keyIndex \<times> revision fset) option" where
  "ki_compact atRev available ki =
     do {
       panic_if (ki_isEmpty ki);
       (genIdx, revIndex, available) \<leftarrow> doCompact atRev available ki;
       let gens = kiGenerations ki;
       let g = gens ! genIdx;
       if genRevs g = [] then Some (ki\<lparr>kiGenerations := drop genIdx gens\<rparr>, available)
       else do {
         let g = (if revIndex \<noteq> - 1 then g\<lparr>genRevs := drop (nat revIndex) (genRevs g)\<rparr> else g);
         let gens = gens[genIdx := g];
         if length (genRevs g) = 1 \<and> genIdx \<noteq> length gens - 1
         then Some (ki\<lparr>kiGenerations := drop (genIdx + 1) gens\<rparr>, available |-| {|hd (genRevs g)|})
         else Some (ki\<lparr>kiGenerations := drop genIdx gens\<rparr>, available)
       }
     }"

definition ki_keep :: "int \<Rightarrow> revision fset \<Rightarrow> keyIndex \<Rightarrow> revision fset option" where
  "ki_keep atRev available ki =
     (if ki_isEmpty ki then Some available
      else do {
        (genIdx, revIndex, available) \<leftarrow> doCompact atRev available ki;
        let g = kiGenerations ki ! genIdx;
        if genRevs g \<noteq> [] \<and> revIndex = int (length (genRevs g)) - 1 \<and> genIdx \<noteq> length (kiGenerations ki) - 1
        then do { r \<leftarrow> idx (genRevs g) (nat revIndex); Some (available |-| {|r|}) }
        else Some available
      })"

definition ki_equal :: "keyIndex \<Rightarrow> keyIndex \<Rightarrow> bool" where
  "ki_equal a b =
     (if kiKey a \<noteq> kiKey b then False
      else if kiModified a \<noteq> kiModified b then False
      else if length (kiGenerations a) \<noteq> length (kiGenerations b) then False
      else list_all2 gen_equal (kiGenerations a) (kiGenerations b))"

end
