(* ===== verification/KvCodec.thy ===== *)
theory KvCodec
  imports WireProps KeyIndex
begin

text \<open>
  mvcc/mvccpb/kv.pb.go: the KeyValue records that the store keeps in its backend, with their
  protobuf codec. The generated code has the skeleton of Wire (with its own names for the same
  errors); being proto3, it leaves out fields that are zero and skips unknown ones. int64 fields are
  \<open>int\<close>, cast to and from the 64 bits of the wire. Unmarshal leaves absent byte fields nil and makes
  present ones non-nil; the two are not distinguished here, as no reader does.

  Also the keys of the backend: the bytes of a revision (mvcc/revision.go, mvcc/kvstore.go), in
  big-endian order, with a mark for tombstones.
\<close>

section \<open>KeyValue\<close>

record KeyValue =
  kvKey :: bytes
  kvCreateRevision :: int
  kvModRevision :: int
  kvVersion :: int
  kvValue :: bytes
  kvLease :: int

definition zeroKeyValue :: KeyValue where
  "zeroKeyValue = \<lparr>kvKey = [], kvCreateRevision = 0, kvModRevision = 0, kvVersion = 0, kvValue = [], kvLease = 0\<rparr>"

definition u64_of :: "int \<Rightarrow> u64" where
  "u64_of x = word_of_int x"

definition putBytes :: "u8 \<Rightarrow> bytes \<Rightarrow> bytes" where
  "putBytes tag b = (if length b > 0 then tag # encodeVarint (word_of_nat (length b)) @ b else [])"

definition putInt64 :: "u8 \<Rightarrow> int \<Rightarrow> bytes" where
  "putInt64 tag x = (if x \<noteq> 0 then tag # encodeVarint (u64_of x) else [])"

definition KeyValue_MarshalTo :: "KeyValue \<Rightarrow> bytes" where
  "KeyValue_MarshalTo m =
     putBytes 0xa (kvKey m) @ putInt64 0x10 (kvCreateRevision m) @ putInt64 0x18 (kvModRevision m)
     @ putInt64 0x20 (kvVersion m) @ putBytes 0x2a (kvValue m) @ putInt64 0x30 (kvLease m)"

definition sizeBytes :: "bytes \<Rightarrow> nat" where
  "sizeBytes b = (if length b > 0 then 1 + length b + sovRaft (word_of_nat (length b)) else 0)"

definition sizeInt64 :: "int \<Rightarrow> nat" where
  "sizeInt64 x = (if x \<noteq> 0 then 1 + sovRaft (u64_of x) else 0)"

definition KeyValue_Size :: "KeyValue \<Rightarrow> nat" where
  "KeyValue_Size m =
     sizeBytes (kvKey m) + sizeInt64 (kvCreateRevision m) + sizeInt64 (kvModRevision m)
     + sizeInt64 (kvVersion m) + sizeBytes (kvValue m) + sizeInt64 (kvLease m)"

definition KeyValue_Marshal :: "KeyValue \<Rightarrow> bytes option" where
  "KeyValue_Marshal m =
     do { let b = KeyValue_MarshalTo m; panic_if (length b > KeyValue_Size m); Some b }"

definition int64Field :: "u64 \<Rightarrow> bytes \<Rightarrow> (int \<Rightarrow> 'm) \<Rightarrow> ('m \<times> nat) res" where
  "int64Field wireType d upd = varintField wireType d (\<lambda>v :: u64. upd (sint v))"

fun KeyValue_field :: "KeyValue handler" where
  "KeyValue_field fieldNum wireType l pos d m =
     (if fieldNum = 1 then
        Some (res_bind (bytesField wireType l pos d) (\<lambda>(b, n). Some (Inr (m\<lparr>kvKey := b\<rparr>, n))))
      else if fieldNum = 2 then Some (int64Field wireType d (\<lambda>v. m\<lparr>kvCreateRevision := v\<rparr>))
      else if fieldNum = 3 then Some (int64Field wireType d (\<lambda>v. m\<lparr>kvModRevision := v\<rparr>))
      else if fieldNum = 4 then Some (int64Field wireType d (\<lambda>v. m\<lparr>kvVersion := v\<rparr>))
      else if fieldNum = 5 then
        Some (res_bind (bytesField wireType l pos d) (\<lambda>(b, n). Some (Inr (m\<lparr>kvValue := b\<rparr>, n))))
      else if fieldNum = 6 then Some (int64Field wireType d (\<lambda>v. m\<lparr>kvLease := v\<rparr>))
      else None)"

definition KeyValue_Unmarshal :: "bytes \<Rightarrow> KeyValue \<Rightarrow> KeyValue res" where
  "KeyValue_Unmarshal d m = unmarshalLoop KeyValue_field (\<lambda>u m. m) (length d) d m"

section \<open>The bytes of a revision\<close>

text \<open>binary.BigEndian.PutUint64 and Uint64.\<close>

definition PutUint64 :: "u64 \<Rightarrow> bytes" where
  "PutUint64 v = map (\<lambda>i. ucast (drop_bit (8 * (7 - i)) v)) [0..<8]"

definition Uint64 :: "bytes \<Rightarrow> u64 option" where
  "Uint64 b = (if length b < 8 then None else Some (fold (\<lambda>x acc. acc * 256 + ucast x) (take 8 b) 0))"

definition revBytesLen :: nat where
  "revBytesLen = 17"

definition markTombstone :: u8 where
  "markTombstone = 116"

definition revToBytes :: "revision \<Rightarrow> bytes" where
  "revToBytes r = PutUint64 (u64_of (main r)) @ [95] @ PutUint64 (u64_of (sub r))"

definition bytesToRev :: "bytes \<Rightarrow> revision option" where
  "bytesToRev b =
     do { m \<leftarrow> Uint64 (take 8 b); s \<leftarrow> Uint64 (drop 9 b); Some (Revision (sint m) (sint s)) }"

definition appendMarkTombstone :: "bytes \<Rightarrow> bytes option" where
  "appendMarkTombstone b = (if length b \<noteq> revBytesLen then None else Some (b @ [markTombstone]))"

definition isTombstone :: "bytes \<Rightarrow> bool" where
  "isTombstone b \<longleftrightarrow> length b = revBytesLen + 1 \<and> b ! revBytesLen = markTombstone"

section \<open>The codec is faithful\<close>

definition int64_ok :: "int \<Rightarrow> bool" where
  "int64_ok x \<longleftrightarrow> - 9223372036854775808 \<le> x \<and> x < 9223372036854775808"

definition kv_ok :: "KeyValue \<Rightarrow> bool" where
  "kv_ok m \<longleftrightarrow> int64_ok (kvCreateRevision m) \<and> int64_ok (kvModRevision m) \<and> int64_ok (kvVersion m)
     \<and> int64_ok (kvLease m) \<and> int (KeyValue_Size m) < 9223372036854775808"

lemma sint_u64_of [simp]: "int64_ok x \<Longrightarrow> sint (u64_of x) = x"
  unfolding u64_of_def int64_ok_def sint_sbintrunc' by (simp add: signed_take_bit_int_eq_self)

lemma KeyValue_Marshal_total: "KeyValue_Marshal m = Some (KeyValue_MarshalTo m)"
proof -
  have "length (putBytes t b) = sizeBytes b" "length (putInt64 t x) = sizeInt64 x" for t b x
    by (simp_all add: putBytes_def putInt64_def sizeBytes_def sizeInt64_def length_encodeVarint)
  then show ?thesis by (simp add: KeyValue_Marshal_def KeyValue_MarshalTo_def KeyValue_Size_def)
qed

lemma length_KeyValue: "length (KeyValue_MarshalTo m) = KeyValue_Size m"
  by (simp add: KeyValue_MarshalTo_def KeyValue_Size_def putBytes_def putInt64_def sizeBytes_def sizeInt64_def
      length_encodeVarint)

lemma loop_int64:
  assumes "t < 0x80" "sint (ucast (drop_bit 3 (ucast t :: u64)) :: int32) = f" "0 < f"
    "(ucast t :: u64) AND 7 = 0" "int64_ok x"
    and "\<And>pos d. h f 0 l pos d m = Some (int64Field 0 d upd)" "upd 0 = m"
  shows "unmarshalLoop h unk l (putInt64 t x @ rest) m = unmarshalLoop h unk l rest (upd x)"
proof (cases "x = 0")
  case False
  have "unmarshalLoop h unk l (t # encodeVarint (u64_of x) @ rest) m
      = unmarshalLoop h unk l rest ((\<lambda>v :: u64. upd (sint v)) (ucast (u64_of x)))"
    by (rule loop_varint [OF assms(1-4)]) (simp add: assms(6) int64Field_def)
  with False assms(5) show ?thesis by (simp add: putInt64_def)
qed (use assms(7) in \<open>simp add: putInt64_def\<close>)

lemma loop_putBytes:
  assumes "t < 0x80" "sint (ucast (drop_bit 3 (ucast t :: u64)) :: int32) = f" "0 < f"
    "(ucast t :: u64) AND 7 = 2"
    and "\<And>pos d. h f 2 l pos d m = Some (res_bind (bytesField 2 l pos d) (\<lambda>(b, n). Some (Inr (upd b, n))))"
    and "upd [] = m" "length (putBytes t b @ rest) \<le> l" "l < 9223372036854775808"
  shows "unmarshalLoop h unk l (putBytes t b @ rest) m = unmarshalLoop h unk l rest (upd b)"
proof (cases "b = []")
  case False
  have "unmarshalLoop h unk l (t # encodeVarint (word_of_nat (length b)) @ b @ rest) m = unmarshalLoop h unk l rest (upd b)"
    by (rule loop_bytes [where F = "\<lambda>(b, n). Some (Inr (upd b, n))", OF assms(1-4)])
      (use False assms(5,7,8) in \<open>simp_all add: putBytes_def\<close>)
  with False show ?thesis by (simp add: putBytes_def)
qed (use assms(6) in \<open>simp add: putBytes_def\<close>)

lemma KeyValue_roundtrip:
  assumes "kv_ok m"
  shows "KeyValue_Unmarshal (KeyValue_MarshalTo m) zeroKeyValue = Some (Inr m)"
proof -
  define l where "l = length (KeyValue_MarshalTo m)"
  have l: "l < 9223372036854775808" using assms by (simp add: l_def length_KeyValue kv_ok_def)
  have ok: "int64_ok (kvCreateRevision m)" "int64_ok (kvModRevision m)" "int64_ok (kvVersion m)" "int64_ok (kvLease m)"
    using assms by (simp_all add: kv_ok_def)
  let ?L = "unmarshalLoop KeyValue_field (\<lambda>u m. m) l"
  let ?r6 = "putInt64 0x30 (kvLease m)"
  let ?r5 = "putBytes 0x2a (kvValue m) @ ?r6"
  let ?r4 = "putInt64 0x20 (kvVersion m) @ ?r5"
  let ?r3 = "putInt64 0x18 (kvModRevision m) @ ?r4"
  let ?r2 = "putInt64 0x10 (kvCreateRevision m) @ ?r3"
  let ?k1 = "zeroKeyValue\<lparr>kvKey := kvKey m\<rparr>"
  let ?k2 = "?k1\<lparr>kvCreateRevision := kvCreateRevision m\<rparr>"
  let ?k3 = "?k2\<lparr>kvModRevision := kvModRevision m\<rparr>"
  let ?k4 = "?k3\<lparr>kvVersion := kvVersion m\<rparr>"
  let ?k5 = "?k4\<lparr>kvValue := kvValue m\<rparr>"
  have enc: "KeyValue_MarshalTo m = putBytes 0xa (kvKey m) @ ?r2" by (simp add: KeyValue_MarshalTo_def)
  have "?L (putBytes 0xa (kvKey m) @ ?r2) zeroKeyValue = ?L ?r2 ?k1"
    by (rule loop_putBytes [where f = 1 and upd = "\<lambda>b. zeroKeyValue\<lparr>kvKey := b\<rparr>"])
      (use l in \<open>simp_all add: l_def enc zeroKeyValue_def\<close>)
  also have "\<dots> = ?L ?r3 ?k2"
    by (rule loop_int64 [where f = 2 and upd = "\<lambda>v. ?k1\<lparr>kvCreateRevision := v\<rparr>"]) (use ok in \<open>simp_all add: zeroKeyValue_def\<close>)
  also have "\<dots> = ?L ?r4 ?k3"
    by (rule loop_int64 [where f = 3 and upd = "\<lambda>v. ?k2\<lparr>kvModRevision := v\<rparr>"]) (use ok in \<open>simp_all add: zeroKeyValue_def\<close>)
  also have "\<dots> = ?L ?r5 ?k4"
    by (rule loop_int64 [where f = 4 and upd = "\<lambda>v. ?k3\<lparr>kvVersion := v\<rparr>"]) (use ok in \<open>simp_all add: zeroKeyValue_def\<close>)
  also have "\<dots> = ?L ?r6 ?k5"
    by (rule loop_putBytes [where f = 5 and upd = "\<lambda>b. ?k4\<lparr>kvValue := b\<rparr>"])
      (use l in \<open>simp_all add: l_def enc zeroKeyValue_def\<close>)
  also have "\<dots> = ?L [] m"
    using loop_int64 [where f = 6 and upd = "\<lambda>v. ?k5\<lparr>kvLease := v\<rparr>" and t = "0x30" and x = "kvLease m" and rest = "[]"
        and h = KeyValue_field and m = ?k5 and l = l and unk = "\<lambda>u m. m"] ok
    by (cases m) (simp add: zeroKeyValue_def)
  finally show ?thesis by (simp add: KeyValue_Unmarshal_def l_def enc)
qed

section \<open>The bytes of a revision\<close>

text \<open>The value of big-endian digits; equally long lists of them are ordered by their values.\<close>

definition be_value :: "bytes \<Rightarrow> nat" where
  "be_value b = fold (\<lambda>x acc. acc * 256 + unat x) b 0"

lemma be_fold: "fold (\<lambda>x acc. acc * 256 + unat (x :: u8)) b a = a * 256 ^ length b + be_value b"
  unfolding be_value_def
proof (induction b arbitrary: a)
  case (Cons x b)
  show ?case using Cons [of "a * 256 + unat x"] Cons [of "unat x"] by (simp add: algebra_simps)
qed simp

lemma be_value_Cons: "be_value (x # b) = unat x * 256 ^ length b + be_value b"
  using be_fold [of b "unat x"] by (simp add: be_value_def)

lemma be_value_less: "be_value b < 256 ^ length b"
proof (induction b)
  case (Cons x b)
  have "unat x < 256" using unsigned_less [of x, where 'a = nat] by simp
  then have "Suc (unat x) \<le> 256" by simp
  then have "Suc (unat x) * 256 ^ length b \<le> 256 * 256 ^ length b" by (rule mult_le_mono1)
  moreover have "be_value (x # b) < Suc (unat x) * 256 ^ length b" using Cons by (simp add: be_value_Cons)
  ultimately have "be_value (x # b) < 256 * 256 ^ length b" by (rule less_le_trans [rotated])
  then show ?case by simp
qed (simp add: be_value_def)

lemma be_value_order:
  "length a = length b \<Longrightarrow> a < b \<longleftrightarrow> be_value a < be_value b"
proof (induction a b rule: list_induct2)
  case (Cons x a y b)
  let ?n = "256 ^ length b :: nat"
  have ab: "be_value a < ?n" "be_value b < ?n" using be_value_less [of a] be_value_less [of b] Cons by simp_all
  consider "unat x < unat y" | "x = y" | "unat y < unat x" by (metis nat_neq_iff word_unat_eq_iff)
  then show ?case
  proof cases
    case 1
    then have "unat x * ?n + ?n \<le> unat y * ?n" by (metis Suc_leI add.commute mult_Suc mult_le_mono1)
    with ab 1 Cons show ?thesis by (simp add: be_value_Cons word_less_nat_alt)
  next
    case 2
    with Cons show ?thesis by (simp add: be_value_Cons)
  next
    case 3
    then have "unat y * ?n + ?n \<le> unat x * ?n" by (metis Suc_leI add.commute mult_Suc mult_le_mono1)
    with ab 3 Cons show ?thesis by (auto simp: be_value_Cons word_less_nat_alt)
  qed
qed (simp add: be_value_def)

lemma be_value_inj: "length a = length b \<Longrightarrow> be_value a = be_value b \<Longrightarrow> a = b"
  using be_value_order [of a b] be_value_order [of b a] by auto

lemma length_PutUint64 [simp]: "length (PutUint64 v) = 8"
  by (simp add: PutUint64_def)

lemma be_value_PutUint64 [simp]: "be_value (PutUint64 v) = unat v"
proof -
  have byte: "unat (ucast (drop_bit n v) :: u8) = unat v div 2 ^ n mod 256" for n
    by (simp add: unsigned_ucast_eq take_bit_eq_mod unsigned_drop_bit_eq) (simp add: drop_bit_eq_div)
  have step: "x div (2 ^ n * 256) * 256 + x div 2 ^ n mod 256 = x div 2 ^ n" for x n :: nat
    by (simp add: div_mult2_eq div_mod_decomp)
  have "unat v div 2 ^ 56 < 256" by (simp add: div_less_iff_less_mult)
  then show ?thesis
    using step [of "unat v" 48] step [of "unat v" 40] step [of "unat v" 32] step [of "unat v" 24]
      step [of "unat v" 16] step [of "unat v" 8] step [of "unat v" 0] byte [of 0]
    by (simp add: be_value_def PutUint64_def upt_rec byte)
qed

lemma Uint64_value: "length b = 8 \<Longrightarrow> Uint64 b = Some (word_of_nat (be_value b))"
proof -
  have "fold (\<lambda>x acc. acc * 256 + ucast x) b (word_of_nat a :: u64) = word_of_nat (fold (\<lambda>x acc. acc * 256 + unat x) b a)" for a and b :: bytes
  proof (induction b arbitrary: a)
    case (Cons x b)
    from Cons [of "a * 256 + unat x"] show ?case by simp
  qed simp
  from this [of b 0] show "length b = 8 \<Longrightarrow> ?thesis" by (simp add: Uint64_def be_value_def)
qed

lemma Uint64_PutUint64 [simp]: "Uint64 (PutUint64 v) = Some v" "Uint64 (PutUint64 v @ m) = Some v"
  using Uint64_value [of "PutUint64 v"] by (simp_all add: Uint64_def)

definition rev_ok :: "revision \<Rightarrow> bool" where
  "rev_ok r \<longleftrightarrow> 0 \<le> main r \<and> int64_ok (main r) \<and> 0 \<le> sub r \<and> int64_ok (sub r)"

lemma length_revToBytes [simp]: "length (revToBytes r) = 17"
  by (simp add: revToBytes_def)

lemma bytesToRev_revToBytes [simp]:
  "rev_ok r \<Longrightarrow> bytesToRev (revToBytes r @ mark) = Some r"
  by (cases r) (simp add: bytesToRev_def revToBytes_def rev_ok_def)

lemma u64_of_nonneg: "0 \<le> x \<Longrightarrow> int64_ok x \<Longrightarrow> unat (u64_of x) = nat x"
proof -
  assume "0 \<le> x" "int64_ok x"
  then obtain n where "x = int n" "n < 18446744073709551616" by (cases x) (simp_all add: int64_ok_def)
  then show ?thesis using unat_of_nat_small [of n] by (simp add: u64_of_def del: unsigned_of_nat)
qed

lemma list_less_append:
  fixes a b :: "'a::linorder list"
  assumes "length a = length b"
  shows "a @ c < b @ d \<longleftrightarrow> a < b \<or> a = b \<and> c < d"
  using assms by (induction a b rule: list_induct2) auto

text \<open>The backend keeps revisions in their order: bytes compare as revisions do, and a tombstone of
  a revision stays between it and the next.\<close>

lemma revToBytes_order:
  assumes "rev_ok a" "rev_ok b"
  shows "revToBytes a < revToBytes b \<longleftrightarrow> a < b" "a < b \<Longrightarrow> revToBytes a @ m < revToBytes b @ n"
    "revToBytes a = revToBytes b \<longleftrightarrow> a = b"
proof -
  have lt: "PutUint64 (u64_of x) < PutUint64 (u64_of y) \<longleftrightarrow> x < y"
    and eq: "PutUint64 (u64_of x) = PutUint64 (u64_of y) \<longleftrightarrow> x = y"
    if "0 \<le> x" "int64_ok x" "0 \<le> y" "int64_ok y" for x y
  proof -
    show "PutUint64 (u64_of x) < PutUint64 (u64_of y) \<longleftrightarrow> x < y"
      using be_value_order [of "PutUint64 (u64_of x)" "PutUint64 (u64_of y)"] that by (auto simp: u64_of_nonneg)
    have "u64_of x = u64_of y \<longleftrightarrow> x = y" using sint_u64_of that by metis
    then show "PutUint64 (u64_of x) = PutUint64 (u64_of y) \<longleftrightarrow> x = y" using Uint64_PutUint64(1) by (metis option.inject)
  qed
  show 1: "revToBytes a < revToBytes b \<longleftrightarrow> a < b"
    using assms lt eq by (simp add: revToBytes_def rev_ok_def list_less_append revision_less)
  show "a < b \<Longrightarrow> revToBytes a @ m < revToBytes b @ n" using 1 by (simp add: list_less_append)
  show "revToBytes a = revToBytes b \<longleftrightarrow> a = b"
    using assms by (metis append_Nil2 bytesToRev_revToBytes option.inject)
qed

end
