(* ===== verification/LeaseCodec.thy ===== *)
theory LeaseCodec
  imports KvCodec
begin

text \<open>
  lease/leasepb/lease.pb.go: the records of the leases in the backend, with the skeleton of the codec
  of KvCodec; and their keys (int64ToBytes of lease/lessor.go).
\<close>

record leasepb =
  lpbID :: int
  lpbTTL :: int
  lpbRemainingTTL :: int

definition zero_leasepb :: leasepb where
  "zero_leasepb = \<lparr>lpbID = 0, lpbTTL = 0, lpbRemainingTTL = 0\<rparr>"

definition Lease_MarshalTo :: "leasepb \<Rightarrow> bytes" where
  "Lease_MarshalTo m =
     putInt64 0x8 (lpbID m) @ putInt64 0x10 (lpbTTL m) @ putInt64 0x18 (lpbRemainingTTL m)"

definition Lease_Size :: "leasepb \<Rightarrow> nat" where
  "Lease_Size m = sizeInt64 (lpbID m) + sizeInt64 (lpbTTL m) + sizeInt64 (lpbRemainingTTL m)"

definition Lease_Marshal :: "leasepb \<Rightarrow> bytes option" where
  "Lease_Marshal m = do { let b = Lease_MarshalTo m; panic_if (length b > Lease_Size m); Some b }"

fun Lease_field :: "leasepb handler" where
  "Lease_field fieldNum wireType l pos d m =
     (if fieldNum = 1 then Some (int64Field wireType d (\<lambda>v. m\<lparr>lpbID := v\<rparr>))
      else if fieldNum = 2 then Some (int64Field wireType d (\<lambda>v. m\<lparr>lpbTTL := v\<rparr>))
      else if fieldNum = 3 then Some (int64Field wireType d (\<lambda>v. m\<lparr>lpbRemainingTTL := v\<rparr>))
      else None)"

definition Lease_Unmarshal :: "bytes \<Rightarrow> leasepb \<Rightarrow> leasepb res" where
  "Lease_Unmarshal d m = unmarshalLoop Lease_field (\<lambda>u m. m) (length d) d m"

definition int64ToBytes :: "int \<Rightarrow> bytes" where
  "int64ToBytes n = PutUint64 (u64_of n)"

lemma Lease_Marshal_total [simp]: "Lease_Marshal m = Some (Lease_MarshalTo m)"
proof -
  have "length (putInt64 t x) = sizeInt64 x" for t x
    by (simp add: putInt64_def sizeInt64_def length_encodeVarint)
  then show ?thesis by (simp add: Lease_Marshal_def Lease_MarshalTo_def Lease_Size_def)
qed

lemma Lease_roundtrip [simp]:
  assumes "int64_ok (lpbID m)" "int64_ok (lpbTTL m)" "int64_ok (lpbRemainingTTL m)"
  shows "Lease_Unmarshal (Lease_MarshalTo m) zero_leasepb = Some (Inr m)"
proof -
  let ?L = "unmarshalLoop Lease_field (\<lambda>u m. m) (length (Lease_MarshalTo m))"
  let ?r3 = "putInt64 0x18 (lpbRemainingTTL m)"
  let ?r2 = "putInt64 0x10 (lpbTTL m) @ ?r3"
  let ?k1 = "zero_leasepb\<lparr>lpbID := lpbID m\<rparr>"
  let ?k2 = "?k1\<lparr>lpbTTL := lpbTTL m\<rparr>"
  have "?L (putInt64 0x8 (lpbID m) @ ?r2) zero_leasepb = ?L ?r2 ?k1"
    by (rule loop_int64 [where f = 1 and upd = "\<lambda>v. zero_leasepb\<lparr>lpbID := v\<rparr>"]) (use assms in \<open>simp_all add: zero_leasepb_def\<close>)
  also have "\<dots> = ?L ?r3 ?k2"
    by (rule loop_int64 [where f = 2 and upd = "\<lambda>v. ?k1\<lparr>lpbTTL := v\<rparr>"]) (use assms in \<open>simp_all add: zero_leasepb_def\<close>)
  also have "\<dots> = ?L [] m"
    using loop_int64 [where f = 3 and upd = "\<lambda>v. ?k2\<lparr>lpbRemainingTTL := v\<rparr>" and t = "0x18" and x = "lpbRemainingTTL m" and rest = "[]"
        and h = Lease_field and m = ?k2 and l = "length (Lease_MarshalTo m)" and unk = "\<lambda>u m. m"] assms
    by (cases m) (simp add: zero_leasepb_def)
  finally show ?thesis by (simp add: Lease_Unmarshal_def Lease_MarshalTo_def)
qed

text \<open>The keys of the leases that are not negative are ordered as their ids.\<close>

lemma length_int64ToBytes [simp]: "length (int64ToBytes n) = 8"
  by (simp add: int64ToBytes_def)

lemma int64ToBytes_less [simp]:
  "0 \<le> a \<Longrightarrow> int64_ok a \<Longrightarrow> 0 \<le> b \<Longrightarrow> int64_ok b \<Longrightarrow> int64ToBytes a < int64ToBytes b \<longleftrightarrow> a < b"
  using be_value_order [of "int64ToBytes a" "int64ToBytes b"] by (auto simp: int64ToBytes_def u64_of_nonneg)

lemma int64ToBytes_inj: "int64_ok a \<Longrightarrow> int64_ok b \<Longrightarrow> int64ToBytes a = int64ToBytes b \<longleftrightarrow> a = b"
  using Uint64_PutUint64(1) [of "u64_of a"] Uint64_PutUint64(1) [of "u64_of b"] sint_u64_of [of a] sint_u64_of [of b]
  unfolding int64ToBytes_def by (metis option.inject)

end
