(* ===== verification/Float64.thy ===== *)
theory Float64
  imports Main
begin

text \<open>
  The float64 arithmetic that the lessor uses: the pair \<open>(m, e)\<close> is the number \<open>m * 2 ^ e\<close>, and each
  operation rounds its exact result to 53 bits, ties to even. Overflow, denormals, infinities, NaN
  and division by zero do not occur for durations.
\<close>

type_synonym f64 = "int \<times> int"

fun bits :: "nat \<Rightarrow> nat" where
  "bits n = (if n = 0 then 0 else Suc (bits (n div 2)))"

declare bits.simps [simp del]

text \<open>The ratio \<open>p / q / 2 ^ e\<close>.\<close>

definition scaled :: "int \<Rightarrow> nat \<Rightarrow> nat \<Rightarrow> nat \<times> nat" where
  "scaled e p q = (if 0 \<le> e then (p, q * 2 ^ nat e) else (p * 2 ^ nat (- e), q))"

definition round_even :: "nat \<Rightarrow> nat \<Rightarrow> nat" where
  "round_even p q = (let f = p div q; r = p mod q in
     if 2 * r < q then f else if q < 2 * r then f + 1 else if even f then f else f + 1)"

text \<open>The number nearest to \<open>p / q\<close>, for a positive \<open>q\<close>.\<close>

definition f64_round :: "int \<Rightarrow> nat \<Rightarrow> f64" where
  "f64_round p q =
     (if p = 0 then (0, 0)
      else let a = nat \<bar>p\<bar>; e = int (bits a) - int (bits q);
               e = (case scaled e a q of (x, y) \<Rightarrow> if x < y then e - 1 else e) - 52
        in (case scaled e a q of (x, y) \<Rightarrow> (sgn p * int (round_even x y), e)))"

definition f64_num :: "f64 \<Rightarrow> int" where
  "f64_num x = (if 0 \<le> snd x then fst x * 2 ^ nat (snd x) else fst x)"

definition f64_den :: "f64 \<Rightarrow> nat" where
  "f64_den x = (if 0 \<le> snd x then 1 else 2 ^ nat (- snd x))"

definition f64_of_int :: "int \<Rightarrow> f64" where
  "f64_of_int i = f64_round i 1"

definition f64_add :: "f64 \<Rightarrow> f64 \<Rightarrow> f64" where
  "f64_add x y = f64_round (f64_num x * int (f64_den y) + f64_num y * int (f64_den x)) (f64_den x * f64_den y)"

definition f64_sub :: "f64 \<Rightarrow> f64 \<Rightarrow> f64" where
  "f64_sub x y = f64_round (f64_num x * int (f64_den y) - f64_num y * int (f64_den x)) (f64_den x * f64_den y)"

definition f64_mul :: "f64 \<Rightarrow> f64 \<Rightarrow> f64" where
  "f64_mul x y = f64_round (f64_num x * f64_num y) (f64_den x * f64_den y)"

definition f64_div :: "f64 \<Rightarrow> f64 \<Rightarrow> f64" where
  "f64_div x y = f64_round (sgn (f64_num y) * f64_num x * int (f64_den y)) (f64_den x * nat \<bar>f64_num y\<bar>)"

text \<open>The conversion to an integer drops the fraction; math.Ceil goes up.\<close>

definition f64_trunc :: "f64 \<Rightarrow> int" where
  "f64_trunc x = sgn (f64_num x) * (\<bar>f64_num x\<bar> div int (f64_den x))"

definition Ceil :: "f64 \<Rightarrow> int" where
  "Ceil x = - (- f64_num x div int (f64_den x))"

text \<open>time.Duration.Seconds: the whole seconds and the nanoseconds are converted on their own.\<close>

definition Seconds :: "int \<Rightarrow> f64" where
  "Seconds d =
     (let s = sgn d * (\<bar>d\<bar> div 1000000000)
      in f64_add (f64_of_int s) (f64_div (f64_of_int (d - s * 1000000000)) (f64_of_int 1000000000)))"

end
