(* ===== verification/Lessor.thy ===== *)
theory Lessor
  imports LeaseQueue LeaseCodec Backend Float64
begin

text \<open>
  lease/lessor.go: the leases, the keys attached to them, their records in the backend, the queues of
  their deadlines and of their checkpoints. Revoke, which also writes to the store, is in LeaseRevoke.

  Times and durations are in nanoseconds, a time from 1970; the clock is an argument \<open>now\<close>, read
  once in an operation. A Lease object is the value that the map keeps: its channel \<open>revokec\<close> is
  whether it is closed, its expiry None for \<open>forever\<close>. The range deleter and the checkpointer are
  whether they are set; what is handed to the checkpointer is a result. A panic is the value None. Map
  iterations go in the order of the ids. The goroutine of runLoop and Stop are not modelled; the
  operations that runLoop calls are.
\<close>

datatype LeaseErr = ErrNotPrimary | ErrLeaseNotFound | ErrLeaseExists | ErrLeaseTTLTooLarge

definition NoLease :: LeaseID where
  "NoLease = 0"

definition MaxLeaseTTL :: int where
  "MaxLeaseTTL = 9000000000"

definition leaseRevokeRate :: nat where
  "leaseRevokeRate = 1000"

definition leaseCheckpointRate :: nat where
  "leaseCheckpointRate = 1000"

definition maxLeaseCheckpointBatchSize :: nat where
  "maxLeaseCheckpointBatchSize = 1000"

definition second :: int where
  "second = 1000000000"

record Lease =
  lsID :: LeaseID
  lsTtl :: int
  lsRemainingTTL :: int
  lsExpiry :: "int option"
  lsItems :: "bytes fset"
  lsRevoked :: bool

record LessorConfig =
  lcMinLeaseTTL :: int
  lcCheckpointInterval :: int
  lcRetryInterval :: int

record lessor =
  lePrimary :: bool
  leLeaseMap :: "(LeaseID, Lease) fmap"
  leNotifier :: LeaseExpiredNotifier
  leCheckpointHeap :: LeaseQueue
  leItemMap :: "(bytes, LeaseID) fmap"
  leRd :: bool
  leCp :: bool
  leB :: bucket
  leMinLeaseTTL :: int
  leExpiredC :: "LeaseID list list"
  leCheckpointInterval :: int
  leRetryInterval :: int

section \<open>A lease\<close>

definition RemainingTTL :: "Lease \<Rightarrow> int" where
  "RemainingTTL l = (if lsRemainingTTL l > 0 then lsRemainingTTL l else lsTtl l)"

definition refresh :: "int \<Rightarrow> int \<Rightarrow> Lease \<Rightarrow> Lease" where
  "refresh now ext l = l\<lparr>lsExpiry := Some (now + int64 (ext + int64 (RemainingTTL l * second)))\<rparr>"

definition set_forever :: "Lease \<Rightarrow> Lease" where
  "set_forever l = l\<lparr>lsExpiry := None\<rparr>"

text \<open>time.Until and Sub saturate.\<close>

definition time_sub :: "int \<Rightarrow> int \<Rightarrow> int" where
  "time_sub t u = max (- 9223372036854775808) (min 9223372036854775807 (t - u))"

definition Remaining :: "int \<Rightarrow> Lease \<Rightarrow> int" where
  "Remaining now l = (case lsExpiry l of None \<Rightarrow> 9223372036854775807 | Some e \<Rightarrow> time_sub e now)"

definition expired :: "int \<Rightarrow> Lease \<Rightarrow> bool" where
  "expired now l \<longleftrightarrow> Remaining now l \<le> 0"

text \<open>UnixNano wraps. The lessor calls it on expiries that refresh has set.\<close>

definition UnixNano :: "int option \<Rightarrow> int option" where
  "UnixNano t = map_option int64 t"

definition persistTo :: "Lease \<Rightarrow> bucket \<Rightarrow> bucket option" where
  "persistTo l b =
     do {
       v \<leftarrow> Lease_Marshal \<lparr>lpbID = lsID l, lpbTTL = lsTtl l, lpbRemainingTTL = lsRemainingTTL l\<rparr>;
       Some (UnsafePut (int64ToBytes (lsID l)) v b)
     }"

definition Keys :: "Lease \<Rightarrow> bytes list" where
  "Keys l = sorted_list_of_fset (lsItems l)"

section \<open>Granting\<close>

text \<open>The deadline of a refreshed lease goes to the notifier.\<close>

definition register :: "Lease \<Rightarrow> lessor \<Rightarrow> lessor option" where
  "register l le =
     do {
       t \<leftarrow> UnixNano (lsExpiry l);
       nq \<leftarrow> RegisterOrUpdate \<lparr>lwID = lsID l, lwTime = t, lwIndex = 0\<rparr> (leNotifier le);
       Some (le\<lparr>leNotifier := nq\<rparr>)
     }"

definition scheduleCheckpointIfNeeded :: "int \<Rightarrow> Lease \<Rightarrow> lessor \<Rightarrow> lessor" where
  "scheduleCheckpointIfNeeded now l le =
     (if \<not> leCp le then le
      else if RemainingTTL l > f64_trunc (Seconds (leCheckpointInterval le))
      then le\<lparr>leCheckpointHeap := heap_Push
        \<lparr>lwID = lsID l, lwTime = int64 (now + leCheckpointInterval le), lwIndex = 0\<rparr> (leCheckpointHeap le)\<rparr>
      else le)"

definition Grant :: "int \<Rightarrow> LeaseID \<Rightarrow> int \<Rightarrow> lessor \<Rightarrow> ((LeaseErr + Lease) \<times> lessor) option" where
  "Grant now i ttl le =
     (if i = NoLease then Some (Inl ErrLeaseNotFound, le)
      else if ttl > MaxLeaseTTL then Some (Inl ErrLeaseTTLTooLarge, le)
      else if i |\<in>| fmdom (leLeaseMap le) then Some (Inl ErrLeaseExists, le)
      else
        let ttl = (if ttl < leMinLeaseTTL le then leMinLeaseTTL le else ttl);
            l = \<lparr>lsID = i, lsTtl = ttl, lsRemainingTTL = 0, lsExpiry = None, lsItems = {||}, lsRevoked = False\<rparr>;
            l = (if lePrimary le then refresh now 0 l else set_forever l) in
        do {
          b \<leftarrow> persistTo l (leB le);
          let le = le\<lparr>leLeaseMap := fmupd i l (leLeaseMap le), leB := b\<rparr>;
          le \<leftarrow> (if lePrimary le
                 then map_option (scheduleCheckpointIfNeeded now l) (register l le)
                 else Some le);
          Some (Inr l, le)
        })"

section \<open>Checkpoints, renewals, lookups\<close>

definition Checkpoint :: "int \<Rightarrow> LeaseID \<Rightarrow> int \<Rightarrow> lessor \<Rightarrow> lessor" where
  "Checkpoint now i remainingTTL le =
     (case fmlookup (leLeaseMap le) i of
        None \<Rightarrow> le
      | Some l \<Rightarrow>
          let l = l\<lparr>lsRemainingTTL := remainingTTL\<rparr>; le = le\<lparr>leLeaseMap := fmupd i l (leLeaseMap le)\<rparr>
          in if lePrimary le then scheduleCheckpointIfNeeded now l le else le)"

text \<open>
  Renew: an error, waiting for the revocation of an expired lease or for the end of the leadership,
  or going on, after a checkpoint that clears the remaining TTL if there is one.
\<close>

datatype RenewStep = RenewErr LeaseErr | RenewWait | RenewGo bool

definition Renew :: "int \<Rightarrow> LeaseID \<Rightarrow> lessor \<Rightarrow> RenewStep" where
  "Renew now i le =
     (if \<not> lePrimary le then RenewErr ErrNotPrimary
      else case fmlookup (leLeaseMap le) i of
        None \<Rightarrow> RenewErr ErrLeaseNotFound
      | Some l \<Rightarrow>
          let clearRemainingTTL = (leCp le \<and> lsRemainingTTL l > 0) in
          if expired now l then (if lsRevoked l then RenewErr ErrLeaseNotFound else RenewWait)
          else RenewGo clearRemainingTTL)"

text \<open>The end of a renewal that goes on: whether the lease found before is still the object in the map, or a revoked one.\<close>

definition renewEnd :: "int \<Rightarrow> Lease \<Rightarrow> bool \<Rightarrow> lessor \<Rightarrow> (int \<times> lessor) option" where
  "renewEnd now l shared le =
     (let l = (if shared then (case fmlookup (leLeaseMap le) (lsID l) of None \<Rightarrow> l | Some l' \<Rightarrow> l') else l);
          l = refresh now 0 l;
          le = (if shared \<and> lsID l |\<in>| fmdom (leLeaseMap le) then le\<lparr>leLeaseMap := fmupd (lsID l) l (leLeaseMap le)\<rparr> else le)
      in map_option (\<lambda>le. (lsTtl l, le)) (register l le))"

definition Lookup :: "LeaseID \<Rightarrow> lessor \<Rightarrow> Lease option" where
  "Lookup i le = fmlookup (leLeaseMap le) i"

definition unsafeLeases :: "lessor \<Rightarrow> Lease list" where
  "unsafeLeases le = map (\<lambda>i. the (fmlookup (leLeaseMap le) i)) (sorted_list_of_fset (fmdom (leLeaseMap le)))"

definition leasesByExpiry :: "int \<Rightarrow> Lease list \<Rightarrow> Lease list" where
  "leasesByExpiry now ls = sort_key (Remaining now) ls"

definition Leases :: "int \<Rightarrow> lessor \<Rightarrow> Lease list" where
  "Leases now le = leasesByExpiry now (unsafeLeases le)"

section \<open>Promotion and demotion\<close>

text \<open>Refreshes a lease of the map and registers its deadline.\<close>

definition refreshLease :: "int \<Rightarrow> int \<Rightarrow> LeaseID \<Rightarrow> lessor \<Rightarrow> lessor option" where
  "refreshLease now ext i le =
     do {
       l \<leftarrow> fmlookup (leLeaseMap le) i;
       let l = refresh now ext l;
       register l (le\<lparr>leLeaseMap := fmupd i l (leLeaseMap le)\<rparr>)
     }"

text \<open>The loop that spreads leases which would expire at the same time; its state is the two windows and the count.\<close>

fun spreadExpiries :: "int \<Rightarrow> int \<Rightarrow> Lease list \<Rightarrow> int \<times> int \<times> int \<Rightarrow> lessor \<Rightarrow> lessor option" where
  "spreadExpiries now ext [] w le = Some le"
| "spreadExpiries now ext (l # ls) (baseWindow, nextWindow, expires) le =
     (let remaining = Remaining now l; target = int ((3 * leaseRevokeRate) div 4) in
      if remaining > nextWindow then
        spreadExpiries now ext ls (remaining, int64 (remaining + second), 1) le
      else if expires + 1 \<le> target then
        spreadExpiries now ext ls (baseWindow, nextWindow, expires + 1) le
      else
        let rateDelay = f64_mul (f64_of_int second) (f64_div (f64_of_int (expires + 1)) (f64_of_int target));
            rateDelay = f64_sub rateDelay (f64_of_int (int64 (remaining - baseWindow)));
            delay = f64_trunc rateDelay;
            l = refresh now (int64 (delay + ext)) l in
        do {
          le \<leftarrow> register l (le\<lparr>leLeaseMap := fmupd (lsID l) l (leLeaseMap le)\<rparr>);
          spreadExpiries now ext ls (baseWindow, int64 (baseWindow + delay), expires + 1) (scheduleCheckpointIfNeeded now l le)
        })"

definition Promote :: "int \<Rightarrow> int \<Rightarrow> lessor \<Rightarrow> lessor option" where
  "Promote now ext le =
     do {
       let le = le\<lparr>lePrimary := True\<rparr>;
       le \<leftarrow> foldM (refreshLease now ext) (sorted_list_of_fset (fmdom (leLeaseMap le))) le;
       if fcard (fmdom (leLeaseMap le)) < leaseRevokeRate then Some le
       else do {
         let leases = leasesByExpiry now (unsafeLeases le);
         let baseWindow = Remaining now (hd leases);
         spreadExpiries now ext leases (baseWindow, int64 (baseWindow + second), 0) le
       }
     }"

definition Demote :: "lessor \<Rightarrow> lessor" where
  "Demote le = le\<lparr>leLeaseMap := fmmap set_forever (leLeaseMap le), leCheckpointHeap := [],
     leNotifier := newLeaseExpiredNotifier, lePrimary := False\<rparr>"

section \<open>The keys of the leases\<close>

definition Attach :: "LeaseID \<Rightarrow> bytes list \<Rightarrow> lessor \<Rightarrow> LeaseErr option \<times> lessor" where
  "Attach i items le =
     (case fmlookup (leLeaseMap le) i of
        None \<Rightarrow> (Some ErrLeaseNotFound, le)
      | Some l \<Rightarrow>
          (None, le\<lparr>leLeaseMap := fmupd i (l\<lparr>lsItems := fold finsert items (lsItems l)\<rparr>) (leLeaseMap le),
             leItemMap := fold (\<lambda>it m. fmupd it i m) items (leItemMap le)\<rparr>))"

definition GetLease :: "bytes \<Rightarrow> lessor \<Rightarrow> LeaseID" where
  "GetLease it le = (case fmlookup (leItemMap le) it of None \<Rightarrow> NoLease | Some i \<Rightarrow> i)"

definition Detach :: "LeaseID \<Rightarrow> bytes list \<Rightarrow> lessor \<Rightarrow> LeaseErr option \<times> lessor" where
  "Detach i items le =
     (case fmlookup (leLeaseMap le) i of
        None \<Rightarrow> (Some ErrLeaseNotFound, le)
      | Some l \<Rightarrow>
          (None, le\<lparr>leLeaseMap := fmupd i (l\<lparr>lsItems := lsItems l |-| fset_of_list items\<rparr>) (leLeaseMap le),
             leItemMap := fold fmdrop items (leItemMap le)\<rparr>))"

section \<open>The loop's work: expired leases and due checkpoints\<close>

text \<open>The lease, whether it may have expired, and whether to try the next one.\<close>

definition expireExists :: "int \<Rightarrow> lessor \<Rightarrow> (lessor \<times> Lease option \<times> bool \<times> bool) option" where
  "expireExists now le =
     (if nq_Len (leNotifier le) = 0 then Some (le, None, False, False)
      else do {
        polled \<leftarrow> Poll (leNotifier le);
        item \<leftarrow> polled;
        (case fmlookup (leLeaseMap le) (lwID item) of
           None \<Rightarrow> map_option (\<lambda>(nq, _). (le\<lparr>leNotifier := nq\<rparr>, None, False, True)) (Unregister (leNotifier le))
         | Some l \<Rightarrow>
             if int64 now < lwTime item then Some (le, Some l, False, False)
             else do {
               nq \<leftarrow> RegisterOrUpdate (item\<lparr>lwTime := int64 (now + leRetryInterval le)\<rparr>) (leNotifier le);
               Some (le\<lparr>leNotifier := nq\<rparr>, Some l, True, False)
             })
      })"

partial_function (option) findExpired :: "int \<Rightarrow> nat \<Rightarrow> Lease list \<Rightarrow> lessor \<Rightarrow> (lessor \<times> Lease list) option" where
  "findExpired now lim leases le =
     Option.bind (expireExists now le) (\<lambda>(le, l, ok, next).
       if \<not> ok \<and> \<not> next then Some (le, leases)
       else if \<not> ok \<or> next then findExpired now lim leases le
       else Option.bind l (\<lambda>l.
         if expired now l then
           (if length leases + 1 = lim then Some (le, leases @ [l]) else findExpired now lim (leases @ [l]) le)
         else findExpired now lim leases le))"

definition findExpiredLeases :: "int \<Rightarrow> nat \<Rightarrow> lessor \<Rightarrow> (lessor \<times> Lease list) option" where
  "findExpiredLeases now lim le = findExpired now lim [] le"

text \<open>The channel of expired leases has room for 16 lists; with no room the list is dropped.\<close>

definition revokeExpiredLeases :: "int \<Rightarrow> lessor \<Rightarrow> lessor option" where
  "revokeExpiredLeases now le =
     do {
       (le, ls) \<leftarrow> (if lePrimary le then findExpiredLeases now (leaseRevokeRate div 2) le else Some (le, []));
       Some (if ls \<noteq> [] \<and> length (leExpiredC le) < 16 then le\<lparr>leExpiredC := leExpiredC le @ [map lsID ls]\<rparr> else le)
     }"

type_synonym LeaseCheckpoint = "LeaseID \<times> int"

text \<open>Each round pops an entry, so that the length of the heap bounds the rounds.\<close>

fun dueCheckpoints :: "nat \<Rightarrow> int \<Rightarrow> nat \<Rightarrow> LeaseCheckpoint list \<Rightarrow> lessor \<Rightarrow> (lessor \<times> LeaseCheckpoint list) option" where
  "dueCheckpoints 0 now lim cps le = Some (le, cps)"
| "dueCheckpoints (Suc n) now lim cps le =
     (if leCheckpointHeap le = [] \<or> lim \<le> length cps then Some (le, cps)
      else
        let lt = hd (leCheckpointHeap le) in
        if lwTime lt > int64 now then Some (le, cps)
        else do {
          (q, _) \<leftarrow> heap_Pop (leCheckpointHeap le);
          let le = le\<lparr>leCheckpointHeap := q\<rparr>;
          case fmlookup (leLeaseMap le) (lwID lt) of
            None \<Rightarrow> dueCheckpoints n now lim cps le
          | Some l \<Rightarrow>
              (case lsExpiry l of
                 None \<Rightarrow> dueCheckpoints n now lim cps le
               | Some e \<Rightarrow>
                   if e \<le> now then dueCheckpoints n now lim cps le
                   else let remainingTTL = Ceil (Seconds (time_sub e now)) in
                     if remainingTTL \<ge> lsTtl l then dueCheckpoints n now lim cps le
                     else dueCheckpoints n now lim (cps @ [(lwID lt, remainingTTL)]) le)
        })"

definition findDueScheduledCheckpoints :: "int \<Rightarrow> nat \<Rightarrow> lessor \<Rightarrow> (lessor \<times> LeaseCheckpoint list) option" where
  "findDueScheduledCheckpoints now lim le =
     (if \<not> leCp le then Some (le, [])
      else dueCheckpoints (length (leCheckpointHeap le)) now lim [] le)"

text \<open>The batches that go to the checkpointer, one after the other, with nothing between them; the last batch is kept.\<close>

fun checkpointBatches :: "nat \<Rightarrow> int \<Rightarrow> LeaseCheckpoint list \<Rightarrow> lessor \<Rightarrow> (lessor \<times> LeaseCheckpoint list list) option" where
  "checkpointBatches 0 now cps le = Some (le, [])"
| "checkpointBatches (Suc n) now cps le =
     do {
       (le, cps) \<leftarrow> (if lePrimary le then findDueScheduledCheckpoints now maxLeaseCheckpointBatchSize le else Some (le, cps));
       if length cps < maxLeaseCheckpointBatchSize then Some (le, if cps \<noteq> [] then [cps] else [])
       else map_option (\<lambda>(le, css). (le, cps # css)) (checkpointBatches n now cps le)
     }"

definition checkpointScheduledLeases :: "int \<Rightarrow> lessor \<Rightarrow> (lessor \<times> LeaseCheckpoint list list) option" where
  "checkpointScheduledLeases now le = checkpointBatches (leaseCheckpointRate div 2) now [] le"

section \<open>Opening\<close>

definition recoverLease :: "bytes \<Rightarrow> lessor \<Rightarrow> lessor option" where
  "recoverLease v le =
     (case Lease_Unmarshal v zero_leasepb of
        Some (Inr lpb) \<Rightarrow>
          let ttl = (if lpbTTL lpb < leMinLeaseTTL le then leMinLeaseTTL le else lpbTTL lpb) in
          Some (le\<lparr>leLeaseMap := fmupd (lpbID lpb) \<lparr>lsID = lpbID lpb, lsTtl = ttl, lsRemainingTTL = 0,
             lsExpiry = None, lsItems = {||}, lsRevoked = False\<rparr> (leLeaseMap le)\<rparr>)
      | _ \<Rightarrow> None)"

definition initAndRecover :: "lessor \<Rightarrow> lessor option" where
  "initAndRecover le =
     do {
       let (_, vs) = UnsafeRange (leB le) (int64ToBytes 0) (int64ToBytes 9223372036854775807) 0;
       le \<leftarrow> foldM recoverLease vs le;
       Some (le\<lparr>leNotifier := nq_Init (leNotifier le), leCheckpointHeap := heap_Init (leCheckpointHeap le)\<rparr>)
     }"

definition newLessor :: "bucket \<Rightarrow> LessorConfig \<Rightarrow> lessor option" where
  "newLessor b cfg = initAndRecover
     \<lparr>lePrimary = False, leLeaseMap = fmempty, leNotifier = newLeaseExpiredNotifier, leCheckpointHeap = [],
      leItemMap = fmempty, leRd = False, leCp = False, leB = b, leMinLeaseTTL = lcMinLeaseTTL cfg, leExpiredC = [],
      leCheckpointInterval = (if lcCheckpointInterval cfg = 0 then 300 * second else lcCheckpointInterval cfg),
      leRetryInterval = (if lcRetryInterval cfg = 0 then 3 * second else lcRetryInterval cfg)\<rparr>"

definition SetRangeDeleter :: "lessor \<Rightarrow> lessor" where
  "SetRangeDeleter le = le\<lparr>leRd := True\<rparr>"

definition SetCheckpointer :: "lessor \<Rightarrow> lessor" where
  "SetCheckpointer le = le\<lparr>leCp := True\<rparr>"

definition lessor_Recover :: "bucket \<Rightarrow> lessor \<Rightarrow> lessor option" where
  "lessor_Recover b le = initAndRecover (le\<lparr>leB := b, leRd := True, leLeaseMap := fmempty, leItemMap := fmempty\<rparr>)"

end
