(* ===== verification/TreeIndex.thy ===== *)
theory TreeIndex
  imports KeyIndex
begin

text \<open>
  mvcc/index.go: the index of all keys, a btree of key indexes ordered by bytes.Compare. The btree
  (the vendored github.com/google/btree) is used as an ordered map and is a finite map here; its
  iterations run over the keys in order. A key index is shared by pointer between the tree and
  the clone that Compact iterates over, and nowhere else, so it is updated in the map. The lock is
  held by each operation; Compact takes it for each key, and is one step here. An \<open>end\<close> that is
  nil is None.
\<close>

type_synonym treeIndex = "(bytes, keyIndex) fmap"

definition newTreeIndex :: treeIndex where
  "newTreeIndex = fmempty"

definition tree_keys :: "treeIndex \<Rightarrow> bytes list" where
  "tree_keys ti = sorted_list_of_fset (fmdom ti)"

definition ti_KeyIndex :: "bytes \<Rightarrow> treeIndex \<Rightarrow> keyIndex option" where
  "ti_KeyIndex key ti = fmlookup ti key"

definition ti_Insert :: "keyIndex \<Rightarrow> treeIndex \<Rightarrow> treeIndex" where
  "ti_Insert ki ti = fmupd (kiKey ki) ki ti"

definition ti_Put :: "bytes \<Rightarrow> revision \<Rightarrow> treeIndex \<Rightarrow> treeIndex option" where
  "ti_Put key r ti =
     (case fmlookup ti key of
        None \<Rightarrow> do { keyi \<leftarrow> ki_put r (newKeyIndex key); Some (fmupd key keyi ti) }
      | Some okeyi \<Rightarrow> do { okeyi \<leftarrow> ki_put r okeyi; Some (fmupd key okeyi ti) })"

definition ti_Get :: "bytes \<Rightarrow> int \<Rightarrow> treeIndex \<Rightarrow> (MvccErr + revision \<times> revision \<times> int) option" where
  "ti_Get key atRev ti =
     (case ti_KeyIndex key ti of
        None \<Rightarrow> Some (Inl ErrRevisionNotFound)
      | Some keyi \<Rightarrow> ki_get atRev keyi)"

text \<open>The keys that visit passes to its function.\<close>

definition visit_keys :: "bytes \<Rightarrow> bytes \<Rightarrow> treeIndex \<Rightarrow> bytes list" where
  "visit_keys key endk ti =
     takeWhile (\<lambda>k. \<not> (length endk > 0 \<and> \<not> k < endk)) (dropWhile (\<lambda>k. k < key) (tree_keys ti))"

fun visit_get :: "int \<Rightarrow> treeIndex \<Rightarrow> bytes list \<Rightarrow> (bytes \<times> revision) list option" where
  "visit_get atRev ti [] = Some []"
| "visit_get atRev ti (k # ks) =
     do {
       ki \<leftarrow> fmlookup ti k;
       res \<leftarrow> ki_get atRev ki;
       rest \<leftarrow> visit_get atRev ti ks;
       Some (case res of Inr (r, _, _) \<Rightarrow> (kiKey ki, r) # rest | Inl _ \<Rightarrow> rest)
     }"

definition ti_Range :: "bytes \<Rightarrow> bytes option \<Rightarrow> int \<Rightarrow> treeIndex \<Rightarrow> (bytes list \<times> revision list) option" where
  "ti_Range key endk atRev ti =
     (case endk of
        None \<Rightarrow>
          do {
            res \<leftarrow> ti_Get key atRev ti;
            Some (case res of Inl _ \<Rightarrow> ([], []) | Inr (r, _, _) \<Rightarrow> ([key], [r]))
          }
      | Some endk \<Rightarrow>
          do {
            xs \<leftarrow> visit_get atRev ti (visit_keys key endk ti);
            Some (map fst xs, map snd xs)
          })"

definition ti_Revisions :: "bytes \<Rightarrow> bytes option \<Rightarrow> int \<Rightarrow> treeIndex \<Rightarrow> revision list option" where
  "ti_Revisions key endk atRev ti =
     (case endk of
        None \<Rightarrow>
          do {
            res \<leftarrow> ti_Get key atRev ti;
            Some (case res of Inl _ \<Rightarrow> [] | Inr (r, _, _) \<Rightarrow> [r])
          }
      | Some endk \<Rightarrow> map_option (map snd) (visit_get atRev ti (visit_keys key endk ti)))"

definition ti_Tombstone :: "bytes \<Rightarrow> revision \<Rightarrow> treeIndex \<Rightarrow> (MvccErr option \<times> treeIndex) option" where
  "ti_Tombstone key r ti =
     (case fmlookup ti key of
        None \<Rightarrow> Some (Some ErrRevisionNotFound, ti)
      | Some ki \<Rightarrow> do { (err, ki) \<leftarrow> ki_tombstone r ki; Some (err, fmupd key ki ti) })"

fun visit_since :: "int \<Rightarrow> treeIndex \<Rightarrow> bytes list \<Rightarrow> revision list option" where
  "visit_since r ti [] = Some []"
| "visit_since r ti (k # ks) =
     do {
       ki \<leftarrow> fmlookup ti k;
       rs \<leftarrow> ki_since r ki;
       rest \<leftarrow> visit_since r ti ks;
       Some (rs @ rest)
     }"

definition ti_RangeSince :: "bytes \<Rightarrow> bytes option \<Rightarrow> int \<Rightarrow> treeIndex \<Rightarrow> revision list option" where
  "ti_RangeSince key endk r ti =
     (case endk of
        None \<Rightarrow> (case fmlookup ti key of None \<Rightarrow> Some [] | Some ki \<Rightarrow> ki_since r ki)
      | Some endk \<Rightarrow> map_option sort (visit_since r ti (visit_keys key endk ti)))"

text \<open>Compact compacts each key index and deletes the ones that end up empty.\<close>

definition compact_key :: "int \<Rightarrow> bytes \<Rightarrow> treeIndex \<times> revision fset \<Rightarrow> (treeIndex \<times> revision fset) option" where
  "compact_key r k = (\<lambda>(ti, available).
     do {
       ki \<leftarrow> fmlookup ti k;
       (ki, available) \<leftarrow> ki_compact r available ki;
       Some (if ki_isEmpty ki then fmdrop k ti else fmupd k ki ti, available)
     })"

definition ti_Compact :: "int \<Rightarrow> treeIndex \<Rightarrow> (treeIndex \<times> revision fset) option" where
  "ti_Compact r ti = foldM (compact_key r) (tree_keys ti) (ti, {||})"

definition keep_key :: "int \<Rightarrow> treeIndex \<Rightarrow> bytes \<Rightarrow> revision fset \<Rightarrow> revision fset option" where
  "keep_key r ti k available = do { ki \<leftarrow> fmlookup ti k; ki_keep r available ki }"

definition ti_Keep :: "int \<Rightarrow> treeIndex \<Rightarrow> revision fset option" where
  "ti_Keep r ti = foldM (keep_key r ti) (tree_keys ti) {||}"

text \<open>A key of the first tree that the second does not have is a failed type assertion.\<close>

fun equal_keys :: "treeIndex \<Rightarrow> treeIndex \<Rightarrow> bytes list \<Rightarrow> bool option" where
  "equal_keys a b [] = Some True"
| "equal_keys a b (k # ks) =
     do {
       aki \<leftarrow> fmlookup a k;
       bki \<leftarrow> fmlookup b k;
       if ki_equal aki bki then equal_keys a b ks else Some False
     }"

definition ti_Equal :: "treeIndex \<Rightarrow> treeIndex \<Rightarrow> bool option" where
  "ti_Equal a b =
     (if fcard (fmdom a) \<noteq> fcard (fmdom b) then Some False else equal_keys a b (tree_keys a))"

end
