(* ===== verification/Store.thy ===== *)
theory Store
  imports Backend Lessor KvCodec TreeIndex
begin

text \<open>
  mvcc/kvstore.go, kvstore_txn.go and kvstore_compaction.go: the multi-version store. Its index maps
  keys to revisions and its backend revisions to key-value records. A write transaction holds the
  lock of the backend from Write to End and is a value here; a read runs at once.

  A call on a nil lessor, a failed attach and the logger's Fatal are the value None. The bytes for
  the consistent index, the hashes and the metrics are not modelled, nor the scheduler that runs a
  compaction in the background: its steps are operations of their own.
\<close>

record store =
  sKey :: bucket
  sMeta :: bucket
  sIndex :: treeIndex
  sLessor :: "lessor option"
  sCurrentRev :: int
  sCompactMainRev :: int
  sBatchLimit :: int

definition scheduledCompactKeyName :: bytes where
  "scheduledCompactKeyName = map (word_of_nat \<circ> of_char) ''scheduledCompactRev''"

definition finishedCompactKeyName :: bytes where
  "finishedCompactKeyName = map (word_of_nat \<circ> of_char) ''finishedCompactRev''"

text \<open>NewStore on an empty backend.\<close>

definition NewStore :: "lessor option \<Rightarrow> int \<Rightarrow> store" where
  "NewStore le lim = \<lparr>sKey = fmempty, sMeta = fmempty, sIndex = newTreeIndex, sLessor = le,
     sCurrentRev = 1, sCompactMainRev = - 1, sBatchLimit = (if lim = 0 then 1000 else lim)\<rparr>"

section \<open>Reading\<close>

record RangeOptions =
  roLimit :: int
  roRev :: int
  roCount :: bool

record RangeResult =
  rrKVs :: "KeyValue list"
  rrRev :: int
  rrCount :: int

text \<open>The record of a revision in the backend.\<close>

definition readRev :: "store \<Rightarrow> revision \<Rightarrow> KeyValue option" where
  "readRev s revpair =
     (case UnsafeRange (sKey s) (revToBytes revpair) [] 0 of
        (_, [v]) \<Rightarrow> (case KeyValue_Unmarshal v zeroKeyValue of Some (Inr kv) \<Rightarrow> Some kv | _ \<Rightarrow> None)
      | _ \<Rightarrow> None)"

fun readRevs :: "store \<Rightarrow> revision list \<Rightarrow> KeyValue list option" where
  "readRevs s [] = Some []"
| "readRevs s (r # rs) = do { kv \<leftarrow> readRev s r; kvs \<leftarrow> readRevs s rs; Some (kv # kvs) }"

definition rangeKeys ::
  "bytes \<Rightarrow> bytes option \<Rightarrow> int \<Rightarrow> RangeOptions \<Rightarrow> store \<Rightarrow> (RangeResult \<times> MvccErr option) option" where
  "rangeKeys key endk curRev ro s =
     (let r = roRev ro in
      if r > curRev then Some (\<lparr>rrKVs = [], rrRev = curRev, rrCount = - 1\<rparr>, Some ErrFutureRev)
      else
        let r = (if r \<le> 0 then curRev else r) in
        if r < sCompactMainRev s then Some (\<lparr>rrKVs = [], rrRev = 0, rrCount = - 1\<rparr>, Some ErrCompacted)
        else do {
          revpairs \<leftarrow> ti_Revisions key endk r (sIndex s);
          let n = int (length revpairs);
          if n = 0 then Some (\<lparr>rrKVs = [], rrRev = curRev, rrCount = 0\<rparr>, None)
          else if roCount ro then Some (\<lparr>rrKVs = [], rrRev = curRev, rrCount = n\<rparr>, None)
          else do {
            let lim = (if roLimit ro \<le> 0 \<or> roLimit ro > n then n else roLimit ro);
            kvs \<leftarrow> readRevs s (take (nat lim) revpairs);
            Some (\<lparr>rrKVs = kvs, rrRev = curRev, rrCount = n\<rparr>, None)
          }
        })"

text \<open>Range of a read transaction, which sees the revision of the last completed write.\<close>

definition store_Range ::
  "bytes \<Rightarrow> bytes option \<Rightarrow> RangeOptions \<Rightarrow> store \<Rightarrow> (RangeResult \<times> MvccErr option) option" where
  "store_Range key endk ro s = rangeKeys key endk (sCurrentRev s) ro s"

section \<open>Writing\<close>

record storeTxnWrite =
  twStore :: store
  twBeginRev :: int
  twChanges :: "KeyValue list"

definition store_Write :: "store \<Rightarrow> storeTxnWrite" where
  "store_Write s = \<lparr>twStore = s, twBeginRev = sCurrentRev s, twChanges = []\<rparr>"

text \<open>With the zap logger that the server sets, an error of Detach stops the process, as one of Attach always does.\<close>

definition detach_key :: "LeaseID \<Rightarrow> bytes \<Rightarrow> store \<Rightarrow> store option" where
  "detach_key leaseID key s =
     (if leaseID = NoLease then Some s
      else case sLessor s of
        None \<Rightarrow> None
      | Some le \<Rightarrow>
          (case Detach leaseID [key] le of
             (None, le) \<Rightarrow> Some (s\<lparr>sLessor := Some le\<rparr>)
           | _ \<Rightarrow> None))"

definition attach_key :: "LeaseID \<Rightarrow> bytes \<Rightarrow> store \<Rightarrow> store option" where
  "attach_key leaseID key s =
     (if leaseID = NoLease then Some s
      else case sLessor s of
        None \<Rightarrow> None
      | Some le \<Rightarrow>
          (case Attach leaseID [key] le of
             (None, le) \<Rightarrow> Some (s\<lparr>sLessor := Some le\<rparr>)
           | _ \<Rightarrow> None))"

definition tw_put :: "bytes \<Rightarrow> bytes \<Rightarrow> LeaseID \<Rightarrow> storeTxnWrite \<Rightarrow> storeTxnWrite option" where
  "tw_put key val leaseID tw =
     do {
       let s = twStore tw;
       let r = twBeginRev tw + 1;
       res \<leftarrow> ti_Get key r (sIndex s);
       (c, ver, oldLease) \<leftarrow> (case res of
           Inr (_, created, ver) \<Rightarrow>
             (case sLessor s of None \<Rightarrow> None | Some le \<Rightarrow> Some (main created, ver, GetLease key le))
         | Inl _ \<Rightarrow> Some (r, 0, NoLease));
       let idxRev = Revision r (int (length (twChanges tw)));
       let ibytes = revToBytes idxRev;
       let kv = \<lparr>kvKey = key, kvCreateRevision = c, kvModRevision = r, kvVersion = ver + 1, kvValue = val, kvLease = leaseID\<rparr>;
       d \<leftarrow> KeyValue_Marshal kv;
       ti \<leftarrow> ti_Put key idxRev (sIndex s);
       let s = s\<lparr>sKey := UnsafePut ibytes d (sKey s), sIndex := ti\<rparr>;
       s \<leftarrow> detach_key oldLease key s;
       s \<leftarrow> attach_key leaseID key s;
       Some (tw\<lparr>twStore := s, twChanges := twChanges tw @ [kv]\<rparr>)
     }"

definition tw_delete :: "bytes \<Rightarrow> storeTxnWrite \<Rightarrow> storeTxnWrite option" where
  "tw_delete key tw =
     do {
       let s = twStore tw;
       let idxRev = Revision (twBeginRev tw + 1) (int (length (twChanges tw)));
       ibytes \<leftarrow> appendMarkTombstone (revToBytes idxRev);
       let kv = zeroKeyValue\<lparr>kvKey := key\<rparr>;
       d \<leftarrow> KeyValue_Marshal kv;
       (err, ti) \<leftarrow> ti_Tombstone key idxRev (sIndex s);
       panic_if (err \<noteq> None);
       let s = s\<lparr>sKey := UnsafePut ibytes d (sKey s), sIndex := ti\<rparr>;
       le \<leftarrow> sLessor s;
       s \<leftarrow> detach_key (GetLease key le) key s;
       Some (tw\<lparr>twStore := s, twChanges := twChanges tw @ [kv]\<rparr>)
     }"

definition tw_deleteRange :: "bytes \<Rightarrow> bytes option \<Rightarrow> storeTxnWrite \<Rightarrow> (storeTxnWrite \<times> int) option" where
  "tw_deleteRange key endk tw =
     do {
       let rrev = (if length (twChanges tw) > 0 then twBeginRev tw + 1 else twBeginRev tw);
       (keys, _) \<leftarrow> ti_Range key endk rrev (sIndex (twStore tw));
       tw \<leftarrow> foldM tw_delete keys tw;
       Some (tw, int (length keys))
     }"

definition tw_DeleteRange :: "bytes \<Rightarrow> bytes option \<Rightarrow> storeTxnWrite \<Rightarrow> (storeTxnWrite \<times> int \<times> int) option" where
  "tw_DeleteRange key endk tw =
     do {
       (tw, n) \<leftarrow> tw_deleteRange key endk tw;
       Some (if n \<noteq> 0 \<or> length (twChanges tw) > 0 then (tw, n, twBeginRev tw + 1) else (tw, 0, twBeginRev tw))
     }"

definition tw_Put :: "bytes \<Rightarrow> bytes \<Rightarrow> LeaseID \<Rightarrow> storeTxnWrite \<Rightarrow> (storeTxnWrite \<times> int) option" where
  "tw_Put key val leaseID tw = map_option (\<lambda>tw. (tw, twBeginRev tw + 1)) (tw_put key val leaseID tw)"

definition tw_Range ::
  "bytes \<Rightarrow> bytes option \<Rightarrow> RangeOptions \<Rightarrow> storeTxnWrite \<Rightarrow> (RangeResult \<times> MvccErr option) option" where
  "tw_Range key endk ro tw =
     rangeKeys key endk (if length (twChanges tw) > 0 then twBeginRev tw + 1 else twBeginRev tw) ro (twStore tw)"

definition tw_End :: "storeTxnWrite \<Rightarrow> store" where
  "tw_End tw =
     (if length (twChanges tw) \<noteq> 0 then (twStore tw)\<lparr>sCurrentRev := sCurrentRev (twStore tw) + 1\<rparr> else twStore tw)"

section \<open>Compaction\<close>

definition updateCompactRev :: "int \<Rightarrow> store \<Rightarrow> store \<times> MvccErr option" where
  "updateCompactRev r s =
     (if r \<le> sCompactMainRev s then (s, Some ErrCompacted)
      else if r > sCurrentRev s then (s, Some ErrFutureRev)
      else (s\<lparr>sCompactMainRev := r,
        sMeta := UnsafePut scheduledCompactKeyName (revToBytes (Revision r 0)) (sMeta s)\<rparr>, None))"

text \<open>The first step of the compaction job: the index.\<close>

definition compactIndex :: "int \<Rightarrow> store \<Rightarrow> (store \<times> revision fset) option" where
  "compactIndex r s = map_option (\<lambda>(ti, keep). (s\<lparr>sIndex := ti\<rparr>, keep)) (ti_Compact r (sIndex s))"

definition drop_revision :: "revision fset \<Rightarrow> bytes \<Rightarrow> bucket \<Rightarrow> bucket option" where
  "drop_revision keep key b =
     do { r \<leftarrow> bytesToRev key; Some (if r |\<in>| keep then b else UnsafeDelete key b) }"

text \<open>One batch of scheduleCompaction; the result is where the next one starts, or None at the end.\<close>

definition compactBatch :: "int \<Rightarrow> revision fset \<Rightarrow> bytes \<Rightarrow> store \<Rightarrow> (store \<times> bytes option) option" where
  "compactBatch compactMainRev keep lst s =
     do {
       let endk = PutUint64 (u64_of (compactMainRev + 1));
       let (keys, _) = UnsafeRange (sKey s) lst endk (sBatchLimit s);
       b \<leftarrow> foldM (drop_revision keep) keys (sKey s);
       if int (length keys) < sBatchLimit s
       then Some (s\<lparr>sKey := b, sMeta := UnsafePut finishedCompactKeyName (revToBytes (Revision compactMainRev 0)) (sMeta s)\<rparr>, None)
       else do {
         r \<leftarrow> (if keys = [] then Some zeroRev else bytesToRev (last keys));
         Some (s\<lparr>sKey := b\<rparr>, Some (revToBytes (Revision (main r) (sub r + 1))))
       }
     }"

end
