(* ===== verification/KeyHist.thy ===== *)
theory KeyHist
  imports KeyIndex
begin

text \<open>
  What a key index stands for: the history of a key, a list of its revisions in increasing order,
  each with the revision at which its generation was created and its version, or with None for a
  tombstone. Under the invariant \<open>ki_wf\<close> every operation of the index is an operation on the history.
\<close>

type_synonym hist = "(revision \<times> (revision \<times> int) option) list"

section \<open>Histories\<close>

text \<open>The last event up to main revision t, and what is alive there.\<close>

definition last_at :: "int \<Rightarrow> hist \<Rightarrow> (revision \<times> (revision \<times> int) option) option" where
  "last_at t h = find (\<lambda>e. main (fst e) \<le> t) (rev h)"

definition alive_at :: "int \<Rightarrow> hist \<Rightarrow> (revision \<times> revision \<times> int) option" where
  "alive_at t h = (case last_at t h of Some (r, Some (c, v)) \<Rightarrow> Some (r, c, v) | _ \<Rightarrow> None)"

definition hist_alive :: "hist \<Rightarrow> (revision \<times> int) option" where
  "hist_alive h = (if h = [] then None else snd (last h))"

definition hist_put :: "revision \<Rightarrow> hist \<Rightarrow> hist" where
  "hist_put r h = h @ [(r, Some (case hist_alive h of Some (c, v) \<Rightarrow> (c, v + 1) | None \<Rightarrow> (r, 1)))]"

definition hist_tombstone :: "revision \<Rightarrow> hist \<Rightarrow> hist" where
  "hist_tombstone r h = h @ [(r, None)]"

text \<open>What compaction at t keeps: what is alive at t, and everything later.\<close>

definition hist_compact :: "int \<Rightarrow> hist \<Rightarrow> hist" where
  "hist_compact t h =
     (case last_at t h of Some (r, Some m) \<Rightarrow> [(r, Some m)] | _ \<Rightarrow> []) @ filter (\<lambda>e. t < main (fst e)) h"

definition hist_ok :: "hist \<Rightarrow> bool" where
  "hist_ok h \<longleftrightarrow> sorted_wrt (<) (map fst h)"

lemma last_at_Nil [simp]: "last_at t [] = None"
  by (simp add: last_at_def)

lemma last_at_snoc [simp]:
  "last_at t (h @ [e]) = (if main (fst e) \<le> t then Some e else last_at t h)"
  by (simp add: last_at_def)

lemma last_at_append:
  "last_at t (h @ h') = (case last_at t h' of None \<Rightarrow> last_at t h | Some e \<Rightarrow> Some e)"
  by (induction h' rule: rev_induct) (simp_all flip: append_assoc)

lemma last_at_above: "(\<forall>e \<in> set h. t < main (fst e)) \<Longrightarrow> last_at t h = None"
  by (auto simp: last_at_def find_None_iff)

lemma last_at_none: "last_at t h = None \<longleftrightarrow> (\<forall>e \<in> set h. t < main (fst e))"
  by (auto simp: last_at_def find_None_iff)

lemma last_at_below: "h \<noteq> [] \<Longrightarrow> main (fst (last h)) \<le> t \<Longrightarrow> last_at t h = Some (last h)"
  by (cases h rule: rev_cases) auto

lemma last_at_in: "last_at t h = Some e \<Longrightarrow> e \<in> set h \<and> main (fst e) \<le> t"
  by (auto simp: last_at_def find_Some_iff) (metis length_rev nth_mem set_rev)

lemma hist_ok_append:
  "hist_ok (h @ h') \<longleftrightarrow> hist_ok h \<and> hist_ok h' \<and> (\<forall>a \<in> set h. \<forall>b \<in> set h'. fst a < fst b)"
  by (auto simp: hist_ok_def sorted_wrt_append)

lemma hist_ok_Cons: "hist_ok (e # h) \<longleftrightarrow> hist_ok h \<and> (\<forall>b \<in> set h. fst e < fst b)"
  by (auto simp: hist_ok_def)

text \<open>In a sorted history the events up to t form a prefix.\<close>

lemma hist_ok_filter:
  assumes "hist_ok (h @ e # h')" "main (fst e) \<le> t" "\<forall>x \<in> set h'. t < main (fst x)"
  shows "filter (\<lambda>x. t < main (fst x)) (h @ e # h') = h'" "last_at t (h @ e # h') = Some e"
proof -
  have "\<forall>x \<in> set h. \<not> t < main (fst x)"
    using assms(1,2) by (auto simp: hist_ok_append dest!: revision_less_main)
  then show "filter (\<lambda>x. t < main (fst x)) (h @ e # h') = h'" using assms(2,3) by (simp add: filter_empty_conv)
  show "last_at t (h @ e # h') = Some e"
    using assms(2,3) last_at_above [of h' t] last_at_append [of t "h @ [e]" h'] by simp
qed

text \<open>Compaction changes nothing that is read at its revision or later.\<close>

lemma last_at_filter:
  assumes "t \<le> t'" "last_at t' (filter (\<lambda>e. t < main (fst e)) h) = None"
  shows "last_at t' h = last_at t h"
  using assms
proof (induction h rule: rev_induct)
  case (snoc e h)
  then show ?case by (auto split: if_splits)
qed simp

lemma last_at_filter_Some:
  assumes "t \<le> t'" "last_at t' (filter (\<lambda>e. t < main (fst e)) h) = Some e" "hist_ok h"
  shows "last_at t' h = Some e"
  using assms(2,3)
proof (induction h rule: rev_induct)
  case (snoc x h)
  show ?case
  proof (cases "t < main (fst x)")
    case True
    with snoc show ?thesis by (auto simp: hist_ok_append split: if_splits)
  next
    case False
    then have "\<forall>y \<in> set h. \<not> t < main (fst y)"
      using snoc.prems(2) by (auto simp: hist_ok_append dest!: revision_less_main)
    then have "filter (\<lambda>e. t < main (fst e)) h = []" by (simp add: filter_empty_conv)
    with False snoc.prems(1) show ?thesis by simp
  qed
qed simp

lemma alive_at_compact:
  assumes "hist_ok h" "t \<le> t'"
  shows "alive_at t' (hist_compact t h) = alive_at t' h"
proof (cases "last_at t' (filter (\<lambda>e. t < main (fst e)) h)")
  case None
  have "last_at t' h = last_at t h" using assms(2) None by (rule last_at_filter)
  with None assms(2) show ?thesis
    by (auto simp: alive_at_def hist_compact_def last_at_append last_at_below dest!: last_at_in
        split: option.splits)
next
  case (Some e)
  from last_at_filter_Some [OF assms(2) Some assms(1)] Some show ?thesis
    by (auto simp: alive_at_def hist_compact_def last_at_append split: option.splits)
qed

lemma hist_ok_compact: "hist_ok h \<Longrightarrow> hist_ok (hist_compact t h)"
proof -
  assume h: "hist_ok h"
  then have f: "hist_ok (filter (\<lambda>e. t < main (fst e)) h)"
    by (simp add: hist_ok_def sorted_wrt_map sorted_wrt_filter)
  show ?thesis
  proof (cases "last_at t h")
    case (Some e)
    then have "main (fst e) \<le> t" by (auto dest: last_at_in)
    then have "\<forall>x. t < main (fst x) \<longrightarrow> fst e < fst x" by (auto simp: revision_less)
    with f Some show ?thesis
      by (cases e; cases "snd e") (auto simp: hist_compact_def hist_ok_append hist_ok_def)
  qed (use f in \<open>simp add: hist_compact_def\<close>)
qed

end
