(* ===== verification/KeyView.thy ===== *)
theory KeyView
  imports KeyHist
begin

text \<open>
  The history of a key index and the invariant that ties its generations to it.
\<close>

section \<open>The history of an index\<close>

text \<open>The i-th revision of a generation has the version of the generation less the number of
  later ones; the last revision of a closed generation is a tombstone.\<close>

definition gen_hist :: "generation \<Rightarrow> hist" where
  "gen_hist g = map (\<lambda>i. (genRevs g ! i, Some (genCreated g, genVer g - int (length (genRevs g) - Suc i))))
     [0..<length (genRevs g)]"

definition closed_hist :: "generation \<Rightarrow> hist" where
  "closed_hist g = butlast (gen_hist g) @ [(last (genRevs g), None)]"

fun gens_hist :: "generation list \<Rightarrow> hist" where
  "gens_hist [] = []"
| "gens_hist [g] = gen_hist g"
| "gens_hist (g # gs) = closed_hist g @ gens_hist gs"

definition ki_hist :: "keyIndex \<Rightarrow> hist" where
  "ki_hist ki = gens_hist (kiGenerations ki)"

definition gens_ok :: "generation list \<Rightarrow> bool" where
  "gens_ok gs \<longleftrightarrow> (\<forall>g \<in> set (butlast gs). 2 \<le> length (genRevs g))
     \<and> (gs \<noteq> [] \<longrightarrow> genRevs (last gs) = [] \<longrightarrow> genVer (last gs) = 0)
     \<and> hist_ok (gens_hist gs)"

definition ki_wf :: "keyIndex \<Rightarrow> bool" where
  "ki_wf ki \<longleftrightarrow> gens_ok (kiGenerations ki) \<and> (\<forall>e \<in> set (ki_hist ki). fst e \<le> kiModified ki)"

lemma length_gen_hist [simp]: "length (gen_hist g) = length (genRevs g)"
  by (simp add: gen_hist_def)

lemma gen_hist_Nil [simp]: "gen_hist g = [] \<longleftrightarrow> genRevs g = []"
  by (simp add: gen_hist_def)

lemma fst_gen_hist: "map fst (gen_hist g) = genRevs g"
  by (simp add: gen_hist_def comp_def map_nth)

lemma fst_closed_hist: "genRevs g \<noteq> [] \<Longrightarrow> map fst (closed_hist g) = genRevs g"
  by (simp add: closed_hist_def map_butlast fst_gen_hist)

lemma closed_hist_ne [simp]: "closed_hist g \<noteq> []"
  by (simp add: closed_hist_def)

lemma last_closed_hist [simp]: "last (closed_hist g) = (last (genRevs g), None)"
  by (simp add: closed_hist_def)

lemma gens_hist_Cons: "gs \<noteq> [] \<Longrightarrow> gens_hist (g # gs) = closed_hist g @ gens_hist gs"
  by (cases gs) simp_all

lemma gens_hist_snoc: "gens_hist (gs @ [g]) = concat (map closed_hist gs) @ gen_hist g"
  by (induction gs) (simp_all add: gens_hist_Cons)

lemma gen_hist_snoc:
  "gen_hist (g\<lparr>genRevs := genRevs g @ [r], genVer := genVer g + 1\<rparr>) = gen_hist g @ [(r, Some (genCreated g, genVer g + 1))]"
  by (auto simp: gen_hist_def nth_append intro!: map_cong)

lemma gens_ok_Cons: "gens_ok (g # gs) \<Longrightarrow> gs \<noteq> [] \<Longrightarrow> gens_ok gs"
  by (auto simp: gens_ok_def gens_hist_Cons hist_ok_append)

lemma gens_ok_nonempty: "gens_ok (g # gs) \<Longrightarrow> gs \<noteq> [] \<Longrightarrow> 2 \<le> length (genRevs g)"
  by (simp add: gens_ok_def)

section \<open>walk\<close>

lemma walkFrom_sorted:
  assumes "sorted_wrt (<) rs" "n \<le> length rs"
  shows "walkFrom n (\<lambda>r. t < main r) rs = int (length (takeWhile (\<lambda>r. main r \<le> t) (take n rs))) - 1"
  using assms(2)
proof (induction n)
  case (Suc n)
  then have n: "take (Suc n) rs = take n rs @ [rs ! n]" by (simp add: take_Suc_conv_app_nth)
  show ?case
  proof (cases "main (rs ! n) \<le> t")
    case True
    have "main r \<le> t" if r: "r \<in> set (take n rs)" for r
    proof -
      from r obtain i where "i < n" "r = rs ! i" using Suc.prems by (auto simp: in_set_conv_nth)
      then have "r < rs ! n" using assms(1) Suc.prems by (simp add: sorted_wrt_iff_nth_less)
      then show ?thesis using True revision_less_main [of r "rs ! n"] by linarith
    qed
    then have "takeWhile (\<lambda>r. main r \<le> t) (take n rs @ [rs ! n]) = take n rs @ [rs ! n]"
      using True by (simp add: takeWhile_append2)
    with True Suc.prems show ?thesis unfolding n by simp
  next
    case False
    then have "takeWhile (\<lambda>r. main r \<le> t) (take (Suc n) rs) = takeWhile (\<lambda>r. main r \<le> t) (take n rs)"
      unfolding n by (simp add: takeWhile_append) (metis takeWhile_eq_all_conv)
    with False Suc show ?thesis by simp
  qed
qed simp

text \<open>The number of revisions of a generation up to t.\<close>

definition upto_t :: "int \<Rightarrow> generation \<Rightarrow> nat" where
  "upto_t t g = length (takeWhile (\<lambda>r. main r \<le> t) (genRevs g))"

lemma walk_eq:
  "sorted_wrt (<) (genRevs g) \<Longrightarrow> walk (\<lambda>r. t < main r) g = int (upto_t t g) - 1"
  by (simp add: walk_def walkFrom_sorted upto_t_def)

lemma upto_t_le: "upto_t t g \<le> length (genRevs g)"
  by (simp add: upto_t_def length_takeWhile_le)

lemma upto_t_split:
  assumes "sorted_wrt (<) (genRevs g)"
  shows "i < length (genRevs g) \<Longrightarrow> main (genRevs g ! i) \<le> t \<longleftrightarrow> i < upto_t t g"
proof
  assume i: "i < length (genRevs g)" "i < upto_t t g"
  then show "main (genRevs g ! i) \<le> t"
    unfolding upto_t_def using nth_mem [of i "takeWhile (\<lambda>r. main r \<le> t) (genRevs g)"]
    by (auto simp: takeWhile_nth dest: set_takeWhileD)
next
  assume i: "i < length (genRevs g)" "main (genRevs g ! i) \<le> t"
  show "i < upto_t t g"
  proof (rule ccontr)
    assume "\<not> i < upto_t t g"
    then have u: "upto_t t g < length (genRevs g)" "upto_t t g \<le> i" using i(1) by auto
    then have "t < main (genRevs g ! upto_t t g)"
      unfolding upto_t_def using nth_length_takeWhile [of "\<lambda>r. main r \<le> t" "genRevs g"] by simp
    moreover have "upto_t t g = i \<or> genRevs g ! upto_t t g < genRevs g ! i"
      using u i(1) assms by (auto simp: sorted_wrt_iff_nth_less le_less)
    ultimately show False using i(2) revision_less_main [of "genRevs g ! upto_t t g" "genRevs g ! i"] by auto
  qed
qed

lemma gen_hist_nth:
  "i < length (genRevs g) \<Longrightarrow>
    gen_hist g ! i = (genRevs g ! i, Some (genCreated g, genVer g - int (length (genRevs g) - Suc i)))"
  by (simp add: gen_hist_def)

text \<open>What is last in a list whose elements up to t are its first k ones.\<close>

lemma last_at_prefix:
  assumes "\<And>i. i < length h \<Longrightarrow> main (fst (h ! i)) \<le> t \<longleftrightarrow> i < k" "k \<le> length h"
  shows "last_at t h = (if k = 0 then None else Some (h ! (k - 1)))"
    and "filter (\<lambda>e. t < main (fst e)) h = drop k h"
proof -
  have h: "h = take k h @ drop k h" by simp
  have d: "\<forall>e \<in> set (drop k h). t < main (fst e)"
  proof
    fix e assume "e \<in> set (drop k h)"
    then obtain i where "i < length h - k" "e = h ! (k + i)" by (auto simp: in_set_conv_nth)
    moreover from this have "k + i < length h" by simp
    ultimately show "t < main (fst e)" using assms(1) [of "k + i"] by simp
  qed
  have t: "\<forall>e \<in> set (take k h). \<not> t < main (fst e)"
  proof
    fix e assume "e \<in> set (take k h)"
    then obtain i where "i < k" "e = h ! i" by (auto simp: in_set_conv_nth)
    then show "\<not> t < main (fst e)" using assms(1) [of i] assms(2) by simp
  qed
  have "last_at t (take k h @ drop k h) = last_at t (take k h)"
    unfolding last_at_append using d by (simp add: last_at_above)
  also have "\<dots> = (if k = 0 then None else Some (h ! (k - 1)))"
  proof (cases "k = 0")
    case False
    then have "take k h \<noteq> []" using assms(2) by auto
    moreover from this have "last (take k h) = h ! (k - 1)" using False assms(2) by (simp add: last_conv_nth)
    ultimately show ?thesis using t False last_in_set [of "take k h"] by (simp add: last_at_below not_less)
  qed simp
  finally show "last_at t h = (if k = 0 then None else Some (h ! (k - 1)))" by simp
  have "filter (\<lambda>e. t < main (fst e)) (take k h @ drop k h) = drop k h"
    unfolding filter_append using d t by (simp add: filter_empty_conv)
  then show "filter (\<lambda>e. t < main (fst e)) h = drop k h" by simp
qed

lemma gen_hist_prefix:
  assumes "sorted_wrt (<) (genRevs g)" "i < length (gen_hist g)"
  shows "main (fst (gen_hist g ! i)) \<le> t \<longleftrightarrow> i < upto_t t g"
  using upto_t_split [OF assms(1)] assms(2) by (simp add: gen_hist_nth)

lemma gen_hist_last_at:
  assumes "sorted_wrt (<) (genRevs g)"
  shows "last_at t (gen_hist g) = (if upto_t t g = 0 then None else Some (gen_hist g ! (upto_t t g - 1)))"
    and "filter (\<lambda>e. t < main (fst e)) (gen_hist g) = drop (upto_t t g) (gen_hist g)"
  using last_at_prefix [of "gen_hist g" t "upto_t t g"] gen_hist_prefix [OF assms] upto_t_le by auto

end
