(* ===== verification/KeyOps.thy ===== *)
theory KeyOps
  imports KeyView
begin

text \<open>
  put and tombstone of a key index append to its history.
\<close>

section \<open>The operations are operations on the history\<close>

lemma gen_sorted: "hist_ok (gen_hist g) \<longleftrightarrow> sorted_wrt (<) (genRevs g)"
  by (simp add: hist_ok_def fst_gen_hist)

lemma closed_sorted: "genRevs g \<noteq> [] \<Longrightarrow> hist_ok (closed_hist g) \<longleftrightarrow> sorted_wrt (<) (genRevs g)"
  by (simp add: hist_ok_def fst_closed_hist)

lemma gens_hist_split:
  assumes "gs \<noteq> []"
  shows "gens_hist gs = concat (map closed_hist (butlast gs)) @ gen_hist (last gs)"
  using gens_hist_snoc [of "butlast gs" "last gs"] assms by simp

lemma gens_hist_close:
  assumes "gs \<noteq> []" "genRevs (last gs) \<noteq> []"
  shows "gens_hist (gs @ [zeroGen]) = butlast (gens_hist gs) @ [(last (genRevs (last gs)), None)]"
proof -
  obtain xs x where gs: "gs = xs @ [x]" using assms(1) by (cases gs rule: rev_cases) auto
  have "gen_hist zeroGen = []" by (simp add: zeroGen_def)
  moreover have "gens_hist (xs @ [x] @ [zeroGen]) = concat (map closed_hist (xs @ [x])) @ gen_hist zeroGen"
    using gens_hist_snoc [of "xs @ [x]" zeroGen] by simp
  ultimately show ?thesis using assms(2) unfolding gs by (simp add: gens_hist_snoc closed_hist_def butlast_append)
qed

lemma gen_hist_last:
  "genRevs g \<noteq> [] \<Longrightarrow> last (gen_hist g) = (last (genRevs g), Some (genCreated g, genVer g))"
  by (simp add: last_conv_nth gen_hist_nth)

lemma in_butlast_or_last: "x \<in> set xs \<Longrightarrow> x \<in> set (butlast xs) \<or> x = last xs"
  by (cases xs rule: rev_cases) auto

lemma hist_alive_gens:
  assumes "gs \<noteq> []"
  shows "hist_alive (gens_hist gs) =
    (if genRevs (last gs) = [] then None else Some (genCreated (last gs), genVer (last gs)))"
proof (cases "genRevs (last gs) = []")
  case True
  show ?thesis
  proof (cases "butlast gs" rule: rev_cases)
    case (snoc xs x)
    with True assms show ?thesis
      by (simp add: gens_hist_split hist_alive_def flip: gen_hist_Nil)
  qed (use True assms in \<open>simp add: gens_hist_split hist_alive_def flip: gen_hist_Nil\<close>)
next
  case False
  with assms gen_hist_last [OF False] show ?thesis
    by (simp add: gens_hist_split hist_alive_def)
qed

lemma ki_wf_new: "ki_wf (newKeyIndex key)" "ki_hist (newKeyIndex key) = []"
  by (simp_all add: ki_wf_def ki_hist_def newKeyIndex_def gens_ok_def hist_ok_def)

text \<open>put appends a version, and panics exactly when the revision does not move forward.\<close>

lemma ki_put_hist:
  assumes "ki_wf ki" "kiModified ki < r"
  shows "\<exists>ki'. ki_put r ki = Some ki' \<and> ki_wf ki' \<and> ki_hist ki' = hist_put r (ki_hist ki)
    \<and> kiModified ki' = r \<and> kiKey ki' = kiKey ki"
proof -
  define gs where "gs = (if kiGenerations ki = [] then [zeroGen] else kiGenerations ki)"
  define g where "g = (if genRevs (last gs) = [] then (last gs)\<lparr>genCreated := r\<rparr> else last gs)"
  define g' where "g' = g\<lparr>genRevs := genRevs g @ [r], genVer := genVer g + 1\<rparr>"
  let ?ki = "ki\<lparr>kiGenerations := butlast gs @ [g'], kiModified := r\<rparr>"
  have put: "ki_put r ki = Some ?ki"
    using assms(2) by (simp add: ki_put_def gs_def [symmetric] g_def [symmetric] g'_def [symmetric] Let_def)
  have gs: "gs \<noteq> []" "gens_hist gs = ki_hist ki" "gens_ok gs"
    using assms(1) by (auto simp: gs_def ki_hist_def ki_wf_def gens_ok_def zeroGen_def gen_hist_def hist_ok_def)
  have revs: "genRevs g = genRevs (last gs)" "genVer g = genVer (last gs)" by (simp_all add: g_def)
  have gh: "gen_hist g = gen_hist (last gs)" by (auto simp: g_def gen_hist_def)
  have h: "gens_hist (butlast gs @ [g']) = gens_hist gs @ [(r, Some (genCreated g, genVer g + 1))]"
    using gs(1) by (simp add: gens_hist_snoc g'_def gen_hist_snoc gh gens_hist_split)
  have a: "(case hist_alive (ki_hist ki) of Some (c, v) \<Rightarrow> (c, v + 1) | None \<Rightarrow> (r, 1)) = (genCreated g, genVer g + 1)"
    using hist_alive_gens [OF gs(1)] gs(3) gs(1) unfolding gs(2) by (auto simp: g_def gens_ok_def)
  have "\<forall>e \<in> set (gens_hist gs). fst e < r"
    using assms gs(2) by (auto simp: ki_wf_def intro: le_less_trans)
  then have ok: "gens_ok (butlast gs @ [g'])"
    using gs unfolding gens_ok_def h by (auto simp: g'_def hist_ok_append hist_ok_def [of "[_]"])
  show ?thesis
    using put ok h gs(2) a assms(1) \<open>\<forall>e \<in> set (gens_hist gs). fst e < r\<close>
    by (auto simp: ki_wf_def ki_hist_def hist_put_def)
qed

lemma ki_put_panics: "ki_put r ki = None \<longleftrightarrow> r \<le> kiModified ki"
  by (auto simp: ki_put_def Let_def panic_if_def not_less)

text \<open>tombstone ends the life of a key that is alive, and is an error on one that is not.\<close>

lemma ki_tombstone_hist:
  assumes "ki_wf ki" "ki_hist ki \<noteq> []" "kiModified ki < r"
  shows "if hist_alive (ki_hist ki) = None then ki_tombstone r ki = Some (Some ErrRevisionNotFound, ki)
    else \<exists>ki'. ki_tombstone r ki = Some (None, ki') \<and> ki_wf ki' \<and> ki_hist ki' = hist_tombstone r (ki_hist ki)
      \<and> kiModified ki' = r \<and> kiKey ki' = kiKey ki"
proof -
  have gs: "kiGenerations ki \<noteq> []" using assms(2) by (auto simp: ki_hist_def)
  have ne: "\<not> ki_isEmpty ki"
    using assms(2) by (auto simp: ki_hist_def ki_isEmpty_def gen_hist_def split: list.splits)
  obtain ki' where put: "ki_put r ki = Some ki'" "ki_wf ki'" "ki_hist ki' = hist_put r (ki_hist ki)"
    "kiModified ki' = r" "kiKey ki' = kiKey ki"
    using ki_put_hist [OF assms(1,3)] by blast
  show ?thesis
  proof (cases "genRevs (last (kiGenerations ki)) = []")
    case True
    with ne gs hist_alive_gens [OF gs] show ?thesis by (simp add: ki_tombstone_def ki_hist_def)
  next
    case False
    then have alive: "hist_alive (ki_hist ki) \<noteq> None" using hist_alive_gens [OF gs] by (simp add: ki_hist_def)
    let ?ki = "ki'\<lparr>kiGenerations := kiGenerations ki' @ [zeroGen]\<rparr>"
    have step: "ki_tombstone r ki = Some (None, ?ki)" using False ne gs put by (simp add: ki_tombstone_def)
    have gens': "kiGenerations ki' \<noteq> []" "2 \<le> length (genRevs (last (kiGenerations ki')))"
      "last (genRevs (last (kiGenerations ki'))) = r"
      using put(1) gs False by (auto simp: ki_put_def Let_def Suc_le_eq)
    have ne': "genRevs (last (kiGenerations ki')) \<noteq> []" using gens'(2) by auto
    have hist: "ki_hist ?ki = hist_tombstone r (ki_hist ki)"
      using gens_hist_close [OF gens'(1) ne'] put(3) gens'(3) by (simp add: ki_hist_def hist_put_def hist_tombstone_def)
    have all: "fst ` set (ki_hist ?ki) = fst ` set (ki_hist ki')" "map fst (ki_hist ?ki) = map fst (ki_hist ki')"
      unfolding hist put(3) by (simp_all add: hist_put_def hist_tombstone_def)
    have "\<forall>g \<in> set (kiGenerations ki'). 2 \<le> length (genRevs g)"
      using put(2) gens'(2) in_butlast_or_last unfolding ki_wf_def gens_ok_def by metis
    moreover have "sorted_wrt (<) (map fst (ki_hist ?ki))"
      unfolding all(2) using put(2) by (simp add: ki_wf_def gens_ok_def hist_ok_def ki_hist_def)
    ultimately have "gens_ok (kiGenerations ?ki)"
      by (simp add: gens_ok_def hist_ok_def ki_hist_def) (simp add: zeroGen_def)
    moreover have "\<forall>e \<in> set (ki_hist ?ki). fst e \<le> kiModified ki'"
    proof
      fix e assume "e \<in> set (ki_hist ?ki)"
      then obtain e' where "e' \<in> set (ki_hist ki')" "fst e' = fst e" using all(1) by (metis image_iff)
      then show "fst e \<le> kiModified ki'" using put(2) unfolding ki_wf_def by fastforce
    qed
    ultimately have "ki_wf ?ki" by (simp add: ki_wf_def)
    with step hist alive put show ?thesis by auto
  qed
qed

end
