(* ===== verification/KeyRead.thy ===== *)
theory KeyRead
  imports KeyOps
begin

text \<open>
  get reads the history of a key index at a revision, compact cuts it, keep is what compact would keep.
\<close>

section \<open>Reading at a revision\<close>

lemma last_at_closed:
  assumes "genRevs g \<noteq> []" "sorted_wrt (<) (genRevs g)"
  shows "last_at t (closed_hist g) =
    (if main (last (genRevs g)) \<le> t then Some (last (genRevs g), None) else last_at t (gen_hist g))"
proof -
  have "gen_hist g = butlast (gen_hist g) @ [(last (genRevs g), Some (genCreated g, genVer g))]"
    using assms(1) gen_hist_last [OF assms(1)] by (metis append_butlast_last_id gen_hist_Nil)
  then have "last_at t (gen_hist g) = (if main (last (genRevs g)) \<le> t then Some (last (genRevs g), Some (genCreated g, genVer g))
    else last_at t (butlast (gen_hist g)))"
    by (metis fst_conv last_at_snoc)
  then show ?thesis by (simp add: closed_hist_def)
qed

lemma upto_t_0: "genRevs g \<noteq> [] \<Longrightarrow> upto_t t g = 0 \<longleftrightarrow> t < main (hd (genRevs g))"
  by (cases "genRevs g") (auto simp: upto_t_def)

text \<open>The generation found is the one that holds the last event up to t, unless that is a tombstone.\<close>

definition found :: "int \<Rightarrow> hist \<Rightarrow> generation option \<Rightarrow> bool" where
  "found t h res \<longleftrightarrow> (case res of
     None \<Rightarrow> alive_at t h = None
   | Some g \<Rightarrow> genRevs g \<noteq> [] \<and> sorted_wrt (<) (genRevs g) \<and> main (hd (genRevs g)) \<le> t
       \<and> last_at t h = last_at t (gen_hist g))"

lemma found_append:
  assumes "found t h res" "last_at t h' = None"
  shows "found t (h @ h') res"
  using assms by (auto simp: found_def alive_at_def last_at_append split: option.splits)

lemma findGen_closed:
  assumes "n \<le> lastg" "lastg < length gs"
    and "\<forall>i < n. genRevs (gs ! i) \<noteq> [] \<and> sorted_wrt (<) (genRevs (gs ! i))"
  shows "found t (concat (map closed_hist (take n gs))) (findGenFrom n lastg gs t)"
  using assms
proof (induction n)
  case 0
  show ?case by (simp add: found_def alive_at_def)
next
  case (Suc n)
  let ?g = "gs ! n"
  have n: "take (Suc n) gs = take n gs @ [?g]" using Suc.prems by (simp add: take_Suc_conv_app_nth)
  have g: "genRevs ?g \<noteq> []" "sorted_wrt (<) (genRevs ?g)" using Suc.prems(3) by auto
  note lc = last_at_closed [OF g] and lg = gen_hist_last_at(1) [OF g(2)] and u0 = upto_t_0 [OF g(1)]
  have IH: "found t (concat (map closed_hist (take n gs))) (findGenFrom n lastg gs t)"
    using Suc by simp
  consider "main (last (genRevs ?g)) \<le> t" | "t < main (last (genRevs ?g))" "main (hd (genRevs ?g)) \<le> t"
    | "t < main (last (genRevs ?g))" "t < main (hd (genRevs ?g))" by linarith
  then show ?case
  proof cases
    case 1
    with Suc.prems g(1) show ?thesis
      by (simp add: n found_def alive_at_def last_at_append lc)
  next
    case 2
    with Suc.prems g u0 show ?thesis
      by (simp add: n found_def last_at_append lc lg)
  next
    case 3
    then have "last_at t (closed_hist ?g) = None" using lc lg u0 by simp
    with 3 Suc.prems g(1) found_append [OF IH] show ?thesis by (simp add: n)
  qed
qed

lemma ki_gens_sorted:
  assumes "gens_ok gs" "i < length gs"
  shows "sorted_wrt (<) (genRevs (gs ! i))" "i < length gs - 1 \<Longrightarrow> genRevs (gs ! i) \<noteq> []"
proof -
  have gs: "gs \<noteq> []" using assms(2) by auto
  then have h: "hist_ok (concat (map closed_hist (butlast gs)) @ gen_hist (last gs))"
    using assms(1) gens_hist_split [OF gs] by (simp add: gens_ok_def)
  have sub: "hist_ok (closed_hist g)" if "g \<in> set (butlast gs)" for g
    using split_list [OF that] h by (auto simp: hist_ok_append)
  { assume i: "i < length gs - 1"
    then have m: "gs ! i \<in> set (butlast gs)" by (metis in_set_conv_nth length_butlast nth_butlast)
    then have ne: "genRevs (gs ! i) \<noteq> []" using assms(1) by (force simp: gens_ok_def)
    then show "genRevs (gs ! i) \<noteq> []" .
    have "sorted_wrt (<) (genRevs (gs ! i))" using sub [OF m] closed_sorted [OF ne] by simp }
  moreover have "sorted_wrt (<) (genRevs (last gs))" using h by (simp add: hist_ok_append gen_sorted)
  ultimately show "sorted_wrt (<) (genRevs (gs ! i))"
    using assms(2) last_conv_nth [OF gs] by (cases "i = length gs - 1") auto
qed

lemma findGeneration_found:
  assumes "ki_wf ki" "kiGenerations ki \<noteq> []"
  shows "found t (ki_hist ki) (findGeneration t ki)"
proof -
  let ?gs = "kiGenerations ki"
  define lst where "lst = length ?gs - 1"
  have len: "length ?gs = Suc lst" using assms(2) by (simp add: lst_def)
  have ok: "gens_ok ?gs" using assms(1) by (simp add: ki_wf_def)
  have last: "last ?gs = ?gs ! lst" "butlast ?gs = take lst ?gs"
    using assms(2) by (simp_all add: last_conv_nth butlast_conv_take lst_def)
  have IH: "found t (concat (map closed_hist (take lst ?gs))) (findGenFrom lst lst ?gs t)"
    using ki_gens_sorted [OF ok] len by (intro findGen_closed) auto
  have sorted: "sorted_wrt (<) (genRevs (?gs ! lst))" using ki_gens_sorted [OF ok] len by auto
  have h: "ki_hist ki = concat (map closed_hist (take lst ?gs)) @ gen_hist (?gs ! lst)"
    using gens_hist_split [OF assms(2)] last by (simp add: ki_hist_def)
  have def: "findGeneration t ki = findGenFrom (Suc lst) lst ?gs t" by (simp add: findGeneration_def len)
  show ?thesis
  proof (cases "genRevs (?gs ! lst) = [] \<or> t < main (hd (genRevs (?gs ! lst)))")
    case True
    then have "last_at t (gen_hist (?gs ! lst)) = None"
      using gen_hist_last_at(1) [OF sorted, of t] upto_t_0 [of "?gs ! lst" t]
      by (cases "genRevs (?gs ! lst) = []") (auto simp: upto_t_def)
    with True found_append [OF IH] show ?thesis unfolding def h by (auto simp: Let_def)
  next
    case False
    then show ?thesis unfolding def h
      using sorted gen_hist_last_at(1) [OF sorted, of t] upto_t_0 [of "?gs ! lst" t]
      by (auto simp: found_def last_at_append Let_def not_less)
  qed
qed

lemma ki_get_hist:
  assumes "ki_wf ki" "ki_hist ki \<noteq> []"
  shows "ki_get t ki = Some (case alive_at t (ki_hist ki) of None \<Rightarrow> Inl ErrRevisionNotFound | Some x \<Rightarrow> Inr x)"
proof -
  have gs: "kiGenerations ki \<noteq> []" using assms(2) by (auto simp: ki_hist_def)
  have ne: "\<not> ki_isEmpty ki"
    using assms(2) by (auto simp: ki_hist_def ki_isEmpty_def gen_hist_def split: list.splits)
  from findGeneration_found [OF assms(1) gs, of t] have f: "found t (ki_hist ki) (findGeneration t ki)" .
  show ?thesis
  proof (cases "findGeneration t ki")
    case None
    with f ne show ?thesis by (simp add: ki_get_def found_def)
  next
    case (Some g)
    with f have g: "genRevs g \<noteq> []" "sorted_wrt (<) (genRevs g)" "main (hd (genRevs g)) \<le> t"
      "last_at t (ki_hist ki) = last_at t (gen_hist g)" by (auto simp: found_def)
    define u where "u = upto_t t g"
    have u: "0 < u" "u \<le> length (genRevs g)"
      using upto_t_0 [OF g(1), of t] g(3) upto_t_le by (auto simp: u_def not_less)
    have "last_at t (ki_hist ki) = Some (genRevs g ! (u - 1), Some (genCreated g, genVer g - int (length (genRevs g) - u)))"
      using g(4) gen_hist_last_at(1) [OF g(2), of t] u by (simp add: u_def [symmetric] gen_hist_nth)
    moreover have "walk (\<lambda>r. main r > t) g = int u - 1" using walk_eq [OF g(2)] by (simp add: u_def)
    ultimately show ?thesis
      using Some g(1) u ne by (simp add: ki_get_def alive_at_def Let_def nat_diff_distrib of_nat_diff)
  qed
qed

section \<open>Compaction\<close>

text \<open>The generations before the one that compaction stops at hold nothing later than t; that one
  ends later than t, unless it is the last.\<close>

lemma compactGen_split:
  assumes "gens_ok gs" "gs \<noteq> []"
  shows "\<exists>as g bs. gs = as @ g # bs \<and> compactGen t i gs = Some (i + length as)
    \<and> (\<forall>a \<in> set as. genRevs a \<noteq> [] \<and> main (last (genRevs a)) \<le> t)
    \<and> (bs \<noteq> [] \<longrightarrow> 2 \<le> length (genRevs g) \<and> t < main (last (genRevs g)))"
  using assms
proof (induction t i gs rule: compactGen.induct)
  case (2 t i g)
  show ?case by (intro exI [of _ "[]"]) auto
next
  case (3 t i g g' gs)
  have g: "2 \<le> length (genRevs g)" "genRevs g \<noteq> []" using gens_ok_nonempty [OF 3(2)] by auto
  show ?case
  proof (cases "main (last (genRevs g)) > t")
    case True
    with g show ?thesis by (intro exI [of _ "[]"] exI [of _ g] exI [of _ "g' # gs"]) auto
  next
    case False
    have "gens_ok (g' # gs)" using gens_ok_Cons [OF 3(2)] by simp
    from 3(1) [OF g(2) False this list.distinct(2)] obtain as h bs where IH: "g' # gs = as @ h # bs"
      "compactGen t (Suc i) (g' # gs) = Some (Suc i + length as)"
      "\<forall>a \<in> set as. genRevs a \<noteq> [] \<and> main (last (genRevs a)) \<le> t"
      "bs \<noteq> [] \<longrightarrow> 2 \<le> length (genRevs h) \<and> t < main (last (genRevs h))"
      by blast
    have "compactGen t i (g # g' # gs) = Some (i + length (g # as))"
      using g(2) False IH(2) by simp
    moreover have "g # g' # gs = (g # as) @ h # bs" using IH(1) by simp
    moreover have "\<forall>a \<in> set (g # as). genRevs a \<noteq> [] \<and> main (last (genRevs a)) \<le> t"
      using IH(3) g(2) False by simp
    ultimately show ?thesis using IH(4) by blast
  qed
qed simp

lemma gens_hist_append:
  "bs \<noteq> [] \<Longrightarrow> gens_hist (as @ bs) = concat (map closed_hist as) @ gens_hist bs"
  by (induction as) (simp_all add: gens_hist_Cons)

lemma fst_gens_hist:
  assumes "bs \<noteq> [] \<Longrightarrow> genRevs g \<noteq> []"
  shows "map fst (gens_hist (g # bs)) = genRevs g @ map fst (gens_hist bs)"
  using assms by (cases bs) (simp_all add: fst_gen_hist fst_closed_hist)

lemma closed_upto:
  assumes "\<forall>a \<in> set as. genRevs a \<noteq> [] \<and> main (last (genRevs a)) \<le> t" "hist_ok (concat (map closed_hist as))"
  shows "\<forall>e \<in> set (concat (map closed_hist as)). main (fst e) \<le> t"
    and "case last_at t (concat (map closed_hist as)) of Some (r, Some m) \<Rightarrow> False | _ \<Rightarrow> True"
proof -
  have "\<forall>e \<in> set (closed_hist a). main (fst e) \<le> t" if a: "a \<in> set as" for a
  proof
    fix e assume e: "e \<in> set (closed_hist a)"
    have ok: "hist_ok (closed_hist a)" using split_list [OF a] assms(2) by (auto simp: hist_ok_append)
    have "fst e \<in> set (genRevs a)" using e a assms(1) fst_closed_hist [of a] by (metis image_eqI image_set)
    then have "fst e \<le> last (genRevs a)"
      using ok closed_sorted [of a] a assms(1) by (cases "genRevs a" rule: rev_cases) (auto simp: sorted_wrt_append)
    then have "main (fst e) \<le> main (last (genRevs a))" by (auto simp: le_less dest: revision_less_main)
    moreover have "main (last (genRevs a)) \<le> t" using a assms(1) by blast
    ultimately show "main (fst e) \<le> t" by (rule order_trans)
  qed
  then show all: "\<forall>e \<in> set (concat (map closed_hist as)). main (fst e) \<le> t" by auto
  show "case last_at t (concat (map closed_hist as)) of Some (r, Some m) \<Rightarrow> False | _ \<Rightarrow> True"
    using assms(1) by (cases as rule: rev_cases) (simp_all add: last_at_append last_at_below)
qed

lemma gens_hist_drop:
  assumes "0 < u" "u \<le> length (genRevs g)" "bs \<noteq> [] \<longrightarrow> u < length (genRevs g)"
  shows "gens_hist (g\<lparr>genRevs := drop (u - 1) (genRevs g)\<rparr> # bs) = drop (u - 1) (gens_hist (g # bs))"
    (is "gens_hist (?g # bs) = _")
proof -
  have gen: "gen_hist ?g = drop (u - 1) (gen_hist g)"
    using assms(1,2) by (intro nth_equalityI) (auto simp: gen_hist_nth)
  show ?thesis
  proof (cases "bs = []")
    case False
    with assms have "closed_hist ?g = drop (u - 1) (closed_hist g)"
      by (auto simp: closed_hist_def gen [unfolded One_nat_def] butlast_conv_take drop_take)
    moreover have "u - 1 \<le> length (closed_hist g)" using assms by (simp add: closed_hist_def)
    ultimately show ?thesis using False by (simp add: gens_hist_Cons)
  qed (simp add: gen [unfolded One_nat_def])
qed

definition kept :: "int \<Rightarrow> hist \<Rightarrow> revision fset" where
  "kept t h = (case alive_at t h of Some (r, c, v) \<Rightarrow> {|r|} | None \<Rightarrow> {||})"

lemma gens_hist_compact:
  assumes "gens_ok (as @ g # bs)" "\<forall>a \<in> set as. genRevs a \<noteq> [] \<and> main (last (genRevs a)) \<le> t"
    and "bs \<noteq> [] \<longrightarrow> 2 \<le> length (genRevs g) \<and> t < main (last (genRevs g))"
  defines "u \<equiv> upto_t t g" and "H \<equiv> gens_hist (as @ g # bs)"
  shows "hist_compact t H = gens_hist (g\<lparr>genRevs := drop (u - 1) (genRevs g)\<rparr> # bs)"
    and "kept t H = (if u = 0 then {||} else {|genRevs g ! (u - 1)|})"
    and "bs \<noteq> [] \<Longrightarrow> u < length (genRevs g)" and "sorted_wrt (<) (genRevs g)"
proof -
  let ?A = "concat (map closed_hist as)" and ?B = "gens_hist (g # bs)"
  have H: "H = ?A @ ?B" unfolding H_def by (simp add: gens_hist_append)
  have ok: "hist_ok ?A" "hist_ok ?B" using assms(1) H by (simp_all add: gens_ok_def H_def hist_ok_append)
  have ne: "bs \<noteq> [] \<Longrightarrow> genRevs g \<noteq> []" using assms(3) by auto
  note fst_B = fst_gens_hist [of bs g, OF ne]
  have sorted: "sorted_wrt (<) (genRevs g @ map fst (gens_hist bs))" using ok(2) fst_B by (simp add: hist_ok_def)
  then show sg: "sorted_wrt (<) (genRevs g)" by (simp add: sorted_wrt_append)
  show ub: "u < length (genRevs g)" if "bs \<noteq> []"
    using assms(3) that upto_t_split [OF sg, of "length (genRevs g) - 1" t] ne [OF that] upto_t_le [of t g]
    by (auto simp: u_def last_conv_nth not_le)
  have len: "length ?B = length (genRevs g) + length (gens_hist bs)" using arg_cong [OF fst_B, of length] by simp
  have prefix: "main (fst (?B ! i)) \<le> t \<longleftrightarrow> i < u" if i: "i < length ?B" for i
  proof (cases "i < length (genRevs g)")
    case True
    have "fst (?B ! i) = genRevs g ! i" using arg_cong [OF fst_B, of "\<lambda>x. x ! i"] i True by (simp add: nth_append)
    then show ?thesis using upto_t_split [OF sg True] by (simp add: u_def)
  next
    case False
    with i len have bs: "bs \<noteq> []" and j: "i - length (genRevs g) < length (gens_hist bs)" by auto
    have "fst (?B ! i) = map fst (gens_hist bs) ! (i - length (genRevs g))"
      using arg_cong [OF fst_B, of "\<lambda>x. x ! i"] i False by (simp add: nth_append)
    then have "last (genRevs g) < fst (?B ! i)" using sorted ne [OF bs] j by (auto simp: sorted_wrt_append)
    moreover have "t < main (last (genRevs g))" using assms(3) bs by simp
    ultimately show ?thesis using False ub [OF bs] revision_less_main by fastforce
  qed
  have u_len: "u \<le> length ?B" using upto_t_le [of t g] len by (simp add: u_def)
  note pre = last_at_prefix [OF prefix u_len]
  note A = closed_upto [OF assms(2) ok(1)]
  have filter: "filter (\<lambda>e. t < main (fst e)) H = drop u ?B"
    unfolding H using A(1) pre(2) by (auto simp: filter_empty_conv not_less)
  have last: "last_at t H = (if u = 0 then last_at t ?A else Some (?B ! (u - 1)))"
    unfolding H last_at_append using pre(1) by simp
  have "hist_compact t H = gens_hist (g\<lparr>genRevs := drop (u - 1) (genRevs g)\<rparr> # bs)
    \<and> kept t H = (if u = 0 then {||} else {|genRevs g ! (u - 1)|})"
  proof (cases "u = 0")
    case True
    with A(2) last filter show ?thesis by (auto simp: hist_compact_def kept_def alive_at_def split: option.splits)
  next
    case False
    then have u: "u - 1 < length (genRevs g)" using upto_t_le [of t g] by (simp add: u_def)
    have "?B ! (u - 1) = gen_hist g ! (u - 1)"
    proof (cases "bs = []")
      case False
      with ub u \<open>u \<noteq> 0\<close> show ?thesis by (auto simp: gens_hist_Cons closed_hist_def nth_append nth_butlast)
    qed simp
    with last False u have l: "last_at t H = Some (genRevs g ! (u - 1), Some (genCreated g, genVer g - int (length (genRevs g) - u)))"
      by (simp add: gen_hist_nth)
    have "drop (u - 1) ?B = ?B ! (u - 1) # drop u ?B"
      using False u_len by (metis Cons_nth_drop_Suc Suc_pred' diff_less le_eq_less_or_eq less_imp_diff_less less_numeral_extra(1) neq0_conv order_less_le_trans)
    moreover have "drop (u - 1) ?B = gens_hist (g\<lparr>genRevs := drop (u - 1) (genRevs g)\<rparr> # bs)"
      using gens_hist_drop [of u g bs] False upto_t_le [of t g] ub by (simp add: u_def)
    ultimately show ?thesis using l filter last False by (simp add: hist_compact_def kept_def alive_at_def)
  qed
  then show "hist_compact t H = gens_hist (g\<lparr>genRevs := drop (u - 1) (genRevs g)\<rparr> # bs)"
    "kept t H = (if u = 0 then {||} else {|genRevs g ! (u - 1)|})" by blast+
qed

lemma gens_ok_tail:
  assumes "gens_ok (as @ g # bs)" "hist_ok (gens_hist (g' # bs))" "bs \<noteq> [] \<Longrightarrow> 2 \<le> length (genRevs g')"
    "bs = [] \<Longrightarrow> genVer g' = genVer g \<and> (genRevs g' = [] \<longrightarrow> genRevs g = [])"
  shows "gens_ok (g' # bs)"
  using assms by (auto simp: gens_ok_def butlast_append)

lemma doCompact_pieces:
  assumes "ki_wf ki" "kiGenerations ki \<noteq> []"
  obtains as g bs u where "kiGenerations ki = as @ g # bs" "u = upto_t t g"
    "\<forall>a \<in> set as. genRevs a \<noteq> [] \<and> main (last (genRevs a)) \<le> t"
    "bs \<noteq> [] \<longrightarrow> 2 \<le> length (genRevs g) \<and> t < main (last (genRevs g))"
    "doCompact t av ki = Some (length as, int u - 1, if u = 0 then av else finsert (genRevs g ! (u - 1)) av)"
proof -
  have ok: "gens_ok (kiGenerations ki)" using assms(1) by (simp add: ki_wf_def)
  from compactGen_split [OF this assms(2), of t 0] obtain as g bs where split: "kiGenerations ki = as @ g # bs"
    and gen: "compactGen t 0 (kiGenerations ki) = Some (0 + length as)"
    and as: "\<forall>a \<in> set as. genRevs a \<noteq> [] \<and> main (last (genRevs a)) \<le> t"
    and bs: "bs \<noteq> [] \<longrightarrow> 2 \<le> length (genRevs g) \<and> t < main (last (genRevs g))" by blast
  have sorted: "sorted_wrt (<) (genRevs g)" using ki_gens_sorted(1) [OF ok, of "length as"] split by simp
  have "walk (\<lambda>r. \<not> main r \<le> t) g = int (upto_t t g) - 1" using walk_eq [OF sorted] by (simp add: not_le)
  then have "doCompact t av ki = Some (length as, int (upto_t t g) - 1,
      if upto_t t g = 0 then av else finsert (genRevs g ! (upto_t t g - 1)) av)"
    using gen split by (auto simp: doCompact_def Let_def nat_diff_distrib)
  with split as bs show ?thesis using that by blast
qed

lemma ki_compact_hist:
  assumes "ki_wf ki" "ki_hist ki \<noteq> []"
  shows "\<exists>ki'. ki_compact t av ki = Some (ki', av |\<union>| kept t (ki_hist ki)) \<and> ki_wf ki'
    \<and> ki_hist ki' = hist_compact t (ki_hist ki) \<and> kiModified ki' = kiModified ki \<and> kiKey ki' = kiKey ki
    \<and> kiGenerations ki' \<noteq> []"
proof -
  have gs: "kiGenerations ki \<noteq> []" using assms(2) by (auto simp: ki_hist_def)
  have ne: "\<not> ki_isEmpty ki"
    using assms(2) by (auto simp: ki_hist_def ki_isEmpty_def gen_hist_def split: list.splits)
  obtain as g bs u where split: "kiGenerations ki = as @ g # bs" and u_def: "u = upto_t t g"
    and as: "\<forall>a \<in> set as. genRevs a \<noteq> [] \<and> main (last (genRevs a)) \<le> t"
    and bs: "bs \<noteq> [] \<longrightarrow> 2 \<le> length (genRevs g) \<and> t < main (last (genRevs g))"
    and do: "doCompact t av ki = Some (length as, int u - 1, if u = 0 then av else finsert (genRevs g ! (u - 1)) av)"
    by (rule doCompact_pieces [OF assms(1) gs])
  have ok: "gens_ok (kiGenerations ki)" using assms(1) by (simp add: ki_wf_def)
  define g' where "g' = g\<lparr>genRevs := drop (u - 1) (genRevs g)\<rparr>"
  note c = gens_hist_compact [OF ok [unfolded split] as bs, folded u_def g'_def]
  have hist: "ki_hist ki = gens_hist (as @ g # bs)" by (simp add: ki_hist_def split)
  have u: "u \<le> length (genRevs g)" using upto_t_le by (simp add: u_def)
  have g': "genRevs g' = [] \<longleftrightarrow> genRevs g = []" using u by (cases "genRevs g") (auto simp: g'_def)
  have len: "bs \<noteq> [] \<Longrightarrow> 2 \<le> length (genRevs g')" using c(3) bs by (auto simp: g'_def)
  have "ki_compact t av ki = Some (ki\<lparr>kiGenerations := g' # bs\<rparr>, av |\<union>| kept t (ki_hist ki))"
    using do ne g' len c(2) u unfolding hist
    by (auto simp: ki_compact_def split Let_def g'_def nat_diff_distrib list_update_append)
  moreover have "gens_ok (g' # bs)"
    using ok hist_ok_compact [of "ki_hist ki" t] len g' c(1) unfolding split hist
    by (intro gens_ok_tail [of as g]) (auto simp: gens_ok_def g'_def)
  moreover have "fst ` set (hist_compact t (ki_hist ki)) \<subseteq> fst ` set (ki_hist ki)"
    using last_at_in by (fastforce simp: hist_compact_def split: option.splits)
  then have "\<forall>e \<in> set (gens_hist (g' # bs)). fst e \<le> kiModified ki"
    using assms(1) unfolding hist ki_wf_def ki_hist_def split c(1) [symmetric, folded g'_def]
    by fastforce
  ultimately show ?thesis using c(1) [folded g'_def] by (simp add: ki_wf_def ki_hist_def split)
qed

lemma ki_keep_hist:
  assumes "ki_wf ki" "kiGenerations ki \<noteq> []"
  shows "ki_keep t av ki = Some (av |\<union>| kept t (ki_hist ki))"
proof (cases "ki_hist ki = []")
  case True
  obtain g gs where gen: "kiGenerations ki = g # gs" using assms(2) by (cases "kiGenerations ki") auto
  have "gs = []" using True gen by (cases gs) (auto simp: ki_hist_def)
  then have "ki_isEmpty ki" using True gen by (simp add: ki_hist_def ki_isEmpty_def)
  with True show ?thesis by (simp add: ki_keep_def kept_def alive_at_def)
next
  case False
  have ne: "\<not> ki_isEmpty ki"
    using False by (auto simp: ki_hist_def ki_isEmpty_def gen_hist_def split: list.splits)
  obtain as g bs u where split: "kiGenerations ki = as @ g # bs" and u_def: "u = upto_t t g"
    and as: "\<forall>a \<in> set as. genRevs a \<noteq> [] \<and> main (last (genRevs a)) \<le> t"
    and bs: "bs \<noteq> [] \<longrightarrow> 2 \<le> length (genRevs g) \<and> t < main (last (genRevs g))"
    and do: "doCompact t av ki = Some (length as, int u - 1, if u = 0 then av else finsert (genRevs g ! (u - 1)) av)"
    by (rule doCompact_pieces [OF assms])
  have ok: "gens_ok (kiGenerations ki)" using assms(1) by (simp add: ki_wf_def)
  note c = gens_hist_compact [OF ok [unfolded split] as bs, folded u_def]
  have hist: "ki_hist ki = gens_hist (as @ g # bs)" by (simp add: ki_hist_def split)
  have u: "u \<le> length (genRevs g)" using upto_t_le by (simp add: u_def)
  show ?thesis using do ne c(2,3) u unfolding hist
    by (auto simp: ki_keep_def split Let_def)
qed

end
