(* ===== verification/TreeHist.thy ===== *)
theory TreeHist
  imports TreeIndex KeyRead
begin

text \<open>
  What the index of all keys stands for: a history for every key. Under the invariant \<open>ti_wf\<close> no
  operation of the index panics, and each is an operation on the histories.
\<close>

definition ti_hist :: "treeIndex \<Rightarrow> bytes \<Rightarrow> hist" where
  "ti_hist ti k = (case fmlookup ti k of None \<Rightarrow> [] | Some ki \<Rightarrow> ki_hist ki)"

definition ti_wf :: "treeIndex \<Rightarrow> bool" where
  "ti_wf ti \<longleftrightarrow> (\<forall>k ki. fmlookup ti k = Some ki \<longrightarrow> ki_wf ki \<and> kiKey ki = k \<and> ki_hist ki \<noteq> [])"

text \<open>All revisions of the index are before r.\<close>

definition ti_before :: "revision \<Rightarrow> treeIndex \<Rightarrow> bool" where
  "ti_before r ti \<longleftrightarrow> (\<forall>k ki. fmlookup ti k = Some ki \<longrightarrow> kiModified ki < r)"

lemma ti_wfD: "ti_wf ti \<Longrightarrow> fmlookup ti k = Some ki \<Longrightarrow> ki_wf ki \<and> kiKey ki = k \<and> ki_hist ki \<noteq> []"
  by (simp add: ti_wf_def)

lemma ti_hist_None: "ti_wf ti \<Longrightarrow> ti_hist ti k = [] \<longleftrightarrow> fmlookup ti k = None"
  by (auto simp: ti_hist_def ti_wf_def split: option.splits)

lemma ti_hist_new [simp]: "ti_hist newTreeIndex k = []" "ti_wf newTreeIndex" "ti_before r newTreeIndex"
  by (simp_all add: ti_hist_def newTreeIndex_def ti_wf_def ti_before_def)

lemma ti_hist_upd: "ti_hist (fmupd k ki ti) = (ti_hist ti)(k := ki_hist ki)"
  by (auto simp: ti_hist_def)

lemma ti_wf_upd: "ti_wf ti \<Longrightarrow> ki_wf ki \<Longrightarrow> kiKey ki = k \<Longrightarrow> ki_hist ki \<noteq> [] \<Longrightarrow> ti_wf (fmupd k ki ti)"
  by (auto simp: ti_wf_def split: if_splits)

lemma ti_hist_ok: "ti_wf ti \<Longrightarrow> hist_ok (ti_hist ti k)"
  by (auto simp: ti_hist_def ti_wf_def ki_wf_def gens_ok_def ki_hist_def hist_ok_def split: option.splits)

lemma ti_before_events:
  assumes "ti_wf ti" "ti_before r ti" "e \<in> set (ti_hist ti k)"
  shows "fst e < r"
proof -
  obtain ki where ki: "fmlookup ti k = Some ki" "e \<in> set (ki_hist ki)"
    using assms(3) by (cases "fmlookup ti k") (auto simp: ti_hist_def)
  then have "fst e \<le> kiModified ki" "kiModified ki < r"
    using ti_wfD [OF assms(1) ki(1)] assms(2) by (auto simp: ki_wf_def ti_before_def)
  then show ?thesis by (rule le_less_trans)
qed

lemma ti_before_mono: "ti_before r ti \<Longrightarrow> r \<le> r' \<Longrightarrow> ti_before r' ti"
  unfolding ti_before_def by (meson less_le_trans)

lemma in_fmdom: "k |\<in>| fmdom m \<longleftrightarrow> (\<exists>v. fmlookup m k = Some v)"
  by (rule fmlookup_dom_iff)

lemma ti_hist_notin: "k |\<notin>| fmdom ti \<Longrightarrow> ti_hist ti k = []"
  by (simp add: ti_hist_def fmdom_notD)

lemma alive_at_Nil [simp]: "alive_at t [] = None"
  by (simp add: alive_at_def)

lemma hist_compact_Nil [simp]: "hist_compact t [] = []" "kept t [] = {||}"
  by (simp_all add: hist_compact_def kept_def)

section \<open>Writing\<close>

lemma ti_Put_hist:
  assumes "ti_wf ti" "ti_before r ti" "zeroRev < r"
  shows "\<exists>ti'. ti_Put k r ti = Some ti' \<and> ti_wf ti' \<and> ti_hist ti' = (ti_hist ti)(k := hist_put r (ti_hist ti k))
    \<and> (\<forall>r' > r. ti_before r' ti')"
proof -
  obtain ki where ki: "ki_wf ki" "kiModified ki < r" "ki_hist ki = ti_hist ti k" "kiKey ki = k"
    "ti_Put k r ti = map_option (\<lambda>ki. fmupd k ki ti) (ki_put r ki)"
  proof (cases "fmlookup ti k")
    case None
    then show ?thesis using that [of "newKeyIndex k"] assms(3)
      by (cases "ki_put r (newKeyIndex k)") (simp_all add: ki_wf_new ti_Put_def ti_hist_def, simp_all add: newKeyIndex_def)
  next
    case (Some ki)
    moreover from Some have "ki_wf ki" "kiModified ki < r" "kiKey ki = k"
      using assms(1,2) by (auto simp: ti_wf_def ti_before_def)
    ultimately show ?thesis using that [of ki]
      by (cases "ki_put r ki") (simp_all add: ti_Put_def ti_hist_def)
  qed
  from ki_put_hist [OF ki(1,2)] obtain ki' where ki': "ki_put r ki = Some ki'" "ki_wf ki'"
    "ki_hist ki' = hist_put r (ki_hist ki)" "kiModified ki' = r" "kiKey ki' = kiKey ki" by blast
  have "ti_wf (fmupd k ki' ti)" using assms(1) ki' ki(4) by (intro ti_wf_upd) (auto simp: hist_put_def)
  moreover have "\<forall>r' > r. ti_before r' (fmupd k ki' ti)"
    using assms(2) ki'(4) by (auto simp: ti_before_def intro: less_trans)
  ultimately show ?thesis using ki ki' by (simp add: ti_hist_upd)
qed

lemma ti_Tombstone_hist:
  assumes "ti_wf ti" "ti_before r ti" "hist_alive (ti_hist ti k) \<noteq> None"
  shows "\<exists>ti'. ti_Tombstone k r ti = Some (None, ti') \<and> ti_wf ti'
    \<and> ti_hist ti' = (ti_hist ti)(k := hist_tombstone r (ti_hist ti k)) \<and> (\<forall>r' > r. ti_before r' ti')"
proof -
  obtain ki where ki: "fmlookup ti k = Some ki" using assms(3) by (cases "fmlookup ti k") (auto simp: ti_hist_def hist_alive_def)
  then have wf: "ki_wf ki" "kiKey ki = k" "ki_hist ki \<noteq> []" "kiModified ki < r" "ti_hist ti k = ki_hist ki"
    using assms(1,2) by (auto simp: ti_wf_def ti_before_def ti_hist_def)
  have "\<exists>ki'. ki_tombstone r ki = Some (None, ki') \<and> ki_wf ki' \<and> ki_hist ki' = hist_tombstone r (ki_hist ki)
      \<and> kiModified ki' = r \<and> kiKey ki' = kiKey ki"
    using ki_tombstone_hist [OF wf(1,3,4)] assms(3) unfolding wf(5) by (simp only: if_False)
  then obtain ki' where ki': "ki_tombstone r ki = Some (None, ki')" "ki_wf ki'"
    "ki_hist ki' = hist_tombstone r (ki_hist ki)" "kiModified ki' = r" "kiKey ki' = kiKey ki" by blast
  have "ti_wf (fmupd k ki' ti)" using assms(1) ki' wf(2) by (intro ti_wf_upd) (auto simp: hist_tombstone_def)
  moreover have "\<forall>r' > r. ti_before r' (fmupd k ki' ti)"
    using assms(2) ki'(4) by (auto simp: ti_before_def intro: less_trans)
  ultimately show ?thesis using ki ki' wf(5) by (simp add: ti_hist_upd ti_Tombstone_def)
qed

section \<open>Reading\<close>

lemma ti_Get_hist:
  assumes "ti_wf ti"
  shows "ti_Get k t ti = Some (case alive_at t (ti_hist ti k) of None \<Rightarrow> Inl ErrRevisionNotFound | Some x \<Rightarrow> Inr x)"
proof (cases "fmlookup ti k")
  case None
  then show ?thesis by (simp add: ti_Get_def ti_KeyIndex_def ti_hist_def alive_at_def)
next
  case (Some ki)
  with ti_wfD [OF assms Some] show ?thesis by (simp add: ti_Get_def ti_KeyIndex_def ti_hist_def ki_get_hist)
qed

text \<open>The keys of a request: one key, or those of the half-open range, the upper end open when it is empty.\<close>

definition in_range :: "bytes \<Rightarrow> bytes option \<Rightarrow> bytes \<Rightarrow> bool" where
  "in_range key endk k \<longleftrightarrow> (case endk of None \<Rightarrow> k = key | Some e \<Rightarrow> key \<le> k \<and> (e = [] \<or> k < e))"

lemma set_tree_keys: "set (tree_keys ti) = fset (fmdom ti)"
  by (simp add: tree_keys_def)

lemma sorted_tree_keys: "sorted_wrt (<) (tree_keys ti)"
  unfolding tree_keys_def strict_sorted_iff
  by (simp add: sorted_list_of_fset.rep_eq)

lemma sorted_dropWhile_filter:
  fixes a :: "'a::linorder"
  shows "sorted xs \<Longrightarrow> dropWhile (\<lambda>k. k < a) xs = filter (\<lambda>k. a \<le> k) xs"
proof (induction xs)
  case (Cons x xs)
  show ?case
  proof (cases "x < a")
    case False
    then have "\<forall>y \<in> set xs. a \<le> y" using Cons.prems by (auto intro: order_trans)
    then have "filter (\<lambda>k. a \<le> k) xs = xs" by simp
    with False show ?thesis by simp
  qed (use Cons in \<open>simp add: not_le\<close>)
qed simp

lemma sorted_takeWhile_filter:
  "sorted_wrt (<) xs \<Longrightarrow> (\<And>x y. x < y \<Longrightarrow> P y \<Longrightarrow> P x) \<Longrightarrow> takeWhile P xs = filter P xs"
proof (induction xs)
  case (Cons x xs)
  show ?case
  proof (cases "P x")
    case False
    then have "filter P xs = []" using Cons.prems by (auto simp: filter_empty_conv)
    with False show ?thesis by simp
  qed (use Cons in simp)
qed simp

lemma visit_keys_eq: "visit_keys key e ti = filter (in_range key (Some e)) (tree_keys ti)"
proof -
  have s: "sorted (tree_keys ti)" using sorted_tree_keys by (simp add: strict_sorted_iff)
  have "sorted_wrt (<) (filter (\<lambda>k. key \<le> k) (tree_keys ti))" using sorted_tree_keys by (rule sorted_wrt_filter)
  then have "takeWhile (\<lambda>k. \<not> (length e > 0 \<and> \<not> k < e)) (filter (\<lambda>k. key \<le> k) (tree_keys ti))
      = filter (\<lambda>k. \<not> (length e > 0 \<and> \<not> k < e)) (filter (\<lambda>k. key \<le> k) (tree_keys ti))"
    by (rule sorted_takeWhile_filter) (auto intro: less_trans)
  then show ?thesis
    unfolding visit_keys_def sorted_dropWhile_filter [OF s]
    by (simp add: in_range_def [abs_def])
qed

definition alive_keys :: "bytes \<Rightarrow> bytes option \<Rightarrow> int \<Rightarrow> treeIndex \<Rightarrow> bytes list" where
  "alive_keys key endk t ti = filter (\<lambda>k. in_range key endk k \<and> alive_at t (ti_hist ti k) \<noteq> None) (tree_keys ti)"

lemma visit_get_eq:
  assumes "ti_wf ti" "set ks \<subseteq> fset (fmdom ti)"
  shows "visit_get t ti ks = Some (map (\<lambda>k. (k, fst (the (alive_at t (ti_hist ti k)))))
    (filter (\<lambda>k. alive_at t (ti_hist ti k) \<noteq> None) ks))"
  using assms(2)
proof (induction ks)
  case (Cons k ks)
  then have "k |\<in>| fmdom ti" by simp
  then obtain ki where ki: "fmlookup ti k = Some ki" unfolding in_fmdom ..
  note wf = ti_wfD [OF assms(1) ki]
  then have "ki_get t ki = Some (case alive_at t (ti_hist ti k) of None \<Rightarrow> Inl ErrRevisionNotFound | Some x \<Rightarrow> Inr x)"
    using ki by (simp add: ki_get_hist ti_hist_def)
  with Cons ki wf show ?case by (auto split: option.splits)
qed simp

lemma tree_single:
  assumes "ti_wf ti"
  shows "alive_keys key None t ti = (if alive_at t (ti_hist ti key) = None then [] else [key])"
proof -
  let ?alive = "\<lambda>k. alive_at t (ti_hist ti k) \<noteq> None"
  have f: "filter (\<lambda>k. k = key \<and> P k) xs = (if key \<in> set xs \<and> P key then [key] else [])" if "distinct xs" for xs P
    using that by (induction xs) (auto simp: filter_empty_conv)
  have d: "distinct (tree_keys ti)" using sorted_tree_keys [of ti] by (simp add: strict_sorted_iff)
  have m: "?alive key \<Longrightarrow> key \<in> set (tree_keys ti)"
    using ti_hist_notin [of key ti] unfolding set_tree_keys by (metis alive_at_Nil)
  have "alive_keys key None t ti = filter (\<lambda>k. k = key \<and> ?alive k) (tree_keys ti)"
    by (simp add: alive_keys_def in_range_def)
  also have "\<dots> = (if key \<in> set (tree_keys ti) \<and> ?alive key then [key] else [])" by (rule f [OF d])
  also have "\<dots> = (if ?alive key then [key] else [])" using m by presburger
  finally show ?thesis by simp
qed

lemma ti_Range_hist:
  assumes "ti_wf ti"
  shows "ti_Range key endk t ti = Some (alive_keys key endk t ti,
      map (\<lambda>k. fst (the (alive_at t (ti_hist ti k)))) (alive_keys key endk t ti))"
    and "ti_Revisions key endk t ti = Some (map (\<lambda>k. fst (the (alive_at t (ti_hist ti k)))) (alive_keys key endk t ti))"
proof -
  have "ti_Range key endk t ti = Some (alive_keys key endk t ti,
      map (\<lambda>k. fst (the (alive_at t (ti_hist ti k)))) (alive_keys key endk t ti))
    \<and> ti_Revisions key endk t ti = Some (map (\<lambda>k. fst (the (alive_at t (ti_hist ti k)))) (alive_keys key endk t ti))"
  proof (cases endk)
    case None
    with tree_single [OF assms, of key t] ti_Get_hist [OF assms, of key t] show ?thesis
      by (auto simp: ti_Range_def ti_Revisions_def split: option.splits)
  next
    case (Some e)
    have "visit_get t ti (visit_keys key e ti) = Some (map (\<lambda>k. (k, fst (the (alive_at t (ti_hist ti k)))))
      (filter (\<lambda>k. alive_at t (ti_hist ti k) \<noteq> None) (visit_keys key e ti)))"
      by (rule visit_get_eq [OF assms]) (auto simp: visit_keys_eq set_tree_keys)
    with Some show ?thesis
      by (simp add: ti_Range_def ti_Revisions_def visit_keys_eq alive_keys_def comp_def conj_commute)
  qed
  then show "ti_Range key endk t ti = Some (alive_keys key endk t ti,
      map (\<lambda>k. fst (the (alive_at t (ti_hist ti k)))) (alive_keys key endk t ti))"
    "ti_Revisions key endk t ti = Some (map (\<lambda>k. fst (the (alive_at t (ti_hist ti k)))) (alive_keys key endk t ti))"
    by simp_all
qed

section \<open>Compaction\<close>

lemma compact_key_hist:
  assumes "ti_wf ti" "k |\<in>| fmdom ti"
  shows "\<exists>ti'. compact_key t k (ti, av) = Some (ti', av |\<union>| kept t (ti_hist ti k)) \<and> ti_wf ti'
    \<and> ti_hist ti' = (ti_hist ti)(k := hist_compact t (ti_hist ti k)) \<and> fmdom ti' |\<subseteq>| fmdom ti
    \<and> (\<forall>r. ti_before r ti \<longrightarrow> ti_before r ti') \<and> fmdom ti |-| {|k|} |\<subseteq>| fmdom ti'"
proof -
  obtain ki where ki: "fmlookup ti k = Some ki" using assms(2) unfolding in_fmdom by blast
  note wf = ti_wfD [OF assms(1) ki]
  obtain ki' where ki': "ki_compact t av ki = Some (ki', av |\<union>| kept t (ki_hist ki))" "ki_wf ki'"
    "ki_hist ki' = hist_compact t (ki_hist ki)" "kiModified ki' = kiModified ki" "kiKey ki' = kiKey ki" "kiGenerations ki' \<noteq> []"
    using ki_compact_hist [of ki t av] wf by blast
  have h: "ti_hist ti k = ki_hist ki" using ki by (simp add: ti_hist_def)
  show ?thesis
  proof (cases "ki_isEmpty ki'")
    case True
    then have "ki_hist ki' = []" by (auto simp: ki_isEmpty_def ki_hist_def split: list.splits)
    then have "ti_hist (fmdrop k ti) = (ti_hist ti)(k := hist_compact t (ti_hist ti k))"
      using ki'(3) h by (auto simp: ti_hist_def)
    with True ki ki' h assms(1) show ?thesis
      by (auto simp: compact_key_def ti_wf_def ti_before_def)
  next
    case False
    then have "ki_hist ki' \<noteq> []"
      using ki'(6) by (cases "kiGenerations ki'" rule: gens_hist.cases) (auto simp: ki_isEmpty_def ki_hist_def)
    then have "ti_wf (fmupd k ki' ti)" using assms(1) ki' wf by (intro ti_wf_upd) auto
    with False ki ki' h assms(2) show ?thesis
      by (auto simp: compact_key_def ti_hist_upd ti_before_def)
  qed
qed

lemma kept_dom: "(\<Union>k \<in> fset (fmdom ti). fset (kept t (ti_hist ti k))) = (\<Union>k. fset (kept t (ti_hist ti k)))"
proof -
  have "kept t (ti_hist ti k) = {||}" if "k \<notin> fset (fmdom ti)" for k using that ti_hist_notin by simp
  then show ?thesis by fastforce
qed

lemma ti_Compact_hist:
  assumes "ti_wf ti"
  shows "\<exists>ti' av. ti_Compact t ti = Some (ti', av) \<and> ti_wf ti' \<and> (\<forall>k. ti_hist ti' k = hist_compact t (ti_hist ti k))
    \<and> fset av = (\<Union>k. fset (kept t (ti_hist ti k))) \<and> (\<forall>r. ti_before r ti \<longrightarrow> ti_before r ti')"
proof -
  have "\<exists>ti' av'. foldM (compact_key t) ks (ti, av) = Some (ti', av') \<and> ti_wf ti'
      \<and> (\<forall>k. ti_hist ti' k = (if k \<in> set ks then hist_compact t (ti_hist ti k) else ti_hist ti k))
      \<and> fset av' = fset av \<union> (\<Union>k \<in> set ks. fset (kept t (ti_hist ti k))) \<and> (\<forall>r. ti_before r ti \<longrightarrow> ti_before r ti')"
    if "ti_wf ti" "set ks \<subseteq> fset (fmdom ti)" "distinct ks" for ks ti av
    using that
  proof (induction ks arbitrary: ti av)
    case (Cons k ks)
    from Cons.prems(2) have "k |\<in>| fmdom ti" by simp
    from compact_key_hist [OF Cons.prems(1) this, of t av] obtain ti1 where t1: 
      "compact_key t k (ti, av) = Some (ti1, av |\<union>| kept t (ti_hist ti k))" "ti_wf ti1"
      "ti_hist ti1 = (ti_hist ti)(k := hist_compact t (ti_hist ti k))"
      "\<forall>r. ti_before r ti \<longrightarrow> ti_before r ti1" "fmdom ti |-| {|k|} |\<subseteq>| fmdom ti1" by blast
    have "set ks \<subseteq> fset (fmdom ti1)" using t1(5) Cons.prems(2,3) by (auto simp: less_eq_fset.rep_eq)
    from Cons.IH [OF t1(2) this, of "av |\<union>| kept t (ti_hist ti k)"] Cons.prems(3) obtain ti' av' where r:
      "foldM (compact_key t) ks (ti1, av |\<union>| kept t (ti_hist ti k)) = Some (ti', av')" "ti_wf ti'"
      "\<forall>k. ti_hist ti' k = (if k \<in> set ks then hist_compact t (ti_hist ti1 k) else ti_hist ti1 k)"
      "fset av' = fset (av |\<union>| kept t (ti_hist ti k)) \<union> (\<Union>k \<in> set ks. fset (kept t (ti_hist ti1 k)))"
      "\<forall>r. ti_before r ti1 \<longrightarrow> ti_before r ti'" by auto
    have "\<forall>k' \<in> set ks. ti_hist ti1 k' = ti_hist ti k'" using t1(3) Cons.prems(3) by auto
    with r t1 Cons.prems(3) show ?case by (intro exI [of _ ti'] exI [of _ av']) auto
  qed auto
  from this [of ti "tree_keys ti" "{||}"] assms sorted_tree_keys [of ti] obtain ti' av where c: "ti_Compact t ti = Some (ti', av)" "ti_wf ti'"
      "\<forall>k. ti_hist ti' k = (if k |\<in>| fmdom ti then hist_compact t (ti_hist ti k) else ti_hist ti k)"
      "fset av = (\<Union>k \<in> fset (fmdom ti). fset (kept t (ti_hist ti k)))" "\<forall>r. ti_before r ti \<longrightarrow> ti_before r ti'"
    unfolding ti_Compact_def by (auto simp: set_tree_keys strict_sorted_iff)
  have "\<forall>k. ti_hist ti' k = hist_compact t (ti_hist ti k)"
    using c(3) ti_hist_notin by (metis hist_compact_Nil(1))
  moreover have "fset av = (\<Union>k. fset (kept t (ti_hist ti k)))" unfolding c(4) by (rule kept_dom)
  ultimately show ?thesis using c by blast
qed

text \<open>Keep computes what Compact would keep.\<close>

lemma ti_Keep_hist:
  assumes "ti_wf ti"
  shows "\<exists>av. ti_Keep t ti = Some av \<and> fset av = (\<Union>k. fset (kept t (ti_hist ti k)))"
proof -
  have "\<exists>av'. foldM (keep_key t ti) ks av = Some av' \<and> fset av' = fset av \<union> (\<Union>k \<in> set ks. fset (kept t (ti_hist ti k)))"
    if "set ks \<subseteq> fset (fmdom ti)" for ks av
    using that
  proof (induction ks arbitrary: av)
    case (Cons k ks)
    then have "k |\<in>| fmdom ti" by simp
    then obtain ki where ki: "fmlookup ti k = Some ki" unfolding in_fmdom ..
    with ti_wfD [OF assms ki] have "ki_wf ki" "kiGenerations ki \<noteq> []" by (auto simp: ki_hist_def)
    then have "keep_key t ti k av = Some (av |\<union>| kept t (ti_hist ti k))"
      using ki_keep_hist [of ki t av] ki by (simp add: keep_key_def ti_hist_def)
    with Cons.IH [of "av |\<union>| kept t (ti_hist ti k)"] Cons.prems show ?case by auto
  qed simp
  from this [of "tree_keys ti" "{||}"] obtain av where c: "ti_Keep t ti = Some av"
    "fset av = (\<Union>k \<in> fset (fmdom ti). fset (kept t (ti_hist ti k)))"
    unfolding ti_Keep_def by (auto simp: set_tree_keys)
  have "fset av = (\<Union>k. fset (kept t (ti_hist ti k)))" unfolding c(2) by (rule kept_dom)
  with c(1) show ?thesis by blast
qed

end
