(* ===== verification/StoreView.thy ===== *)
theory StoreView
  imports Store TreeHist
begin

text \<open>
  What the store shows: for every revision since the last compaction a map from keys to records.
  Under the invariant \<open>store_ok\<close>, which ties the records of the backend to the revisions of the index,
  Range is a query of this map, a write transaction changes the map of the next revision only, and the
  steps of a compaction leave the maps from its revision on alone.
\<close>

section \<open>The backend\<close>

lemma bucket_sorted: "sorted_wrt (<) (bucket_keys b)"
  unfolding bucket_keys_def strict_sorted_iff by (simp add: sorted_list_of_fset.rep_eq)

lemma set_bucket_keys: "set (bucket_keys b) = fset (fmdom b)"
  by (simp add: bucket_keys_def)

lemma UnsafeRange_keys:
  "set (fst (UnsafeRange b key endk lim)) \<subseteq> {k \<in> fset (fmdom b). key \<le> k \<and> (endk \<noteq> [] \<longrightarrow> k < endk)}"
proof -
  have s: "sorted (bucket_keys b)" using bucket_sorted by (simp add: strict_sorted_iff)
  show ?thesis
    unfolding UnsafeRange_def sorted_dropWhile_filter [OF s]
    by (auto simp: Let_def set_bucket_keys dest!: set_takeWhileD in_set_takeD split: if_splits)
qed

lemma UnsafeRange_single:
  "UnsafeRange b key [] lim = (case fmlookup b key of None \<Rightarrow> ([], []) | Some v \<Rightarrow> ([key], [v]))"
proof -
  have s: "sorted (bucket_keys b)" using bucket_sorted by (simp add: strict_sorted_iff)
  have "takeWhile (\<lambda>k. k = key) (filter (\<lambda>k. key \<le> k) xs) = (if key \<in> set xs then [key] else [])"
    if "sorted_wrt (<) xs" for xs
    using that
  proof (induction xs)
    case (Cons x xs)
    consider "x = key" | "x < key" | "key < x" by (metis linorder_less_linear)
    then show ?case
    proof cases
      case 1
      then have "filter (\<lambda>k. key \<le> k) xs = xs" "key \<notin> set xs" using Cons.prems by (auto simp: less_imp_le)
      moreover have "takeWhile (\<lambda>k. k = key) xs = []" using \<open>key \<notin> set xs\<close> by (cases xs) auto
      ultimately show ?thesis using 1 by simp
    next
      case 2
      then have "\<not> key \<le> x" "x \<noteq> key" by auto
      with Cons show ?thesis by simp
    next
      case 3
      then have "key \<notin> set (x # xs)" using Cons.prems by (auto dest: less_trans)
      then show ?thesis using 3 by (auto simp: less_imp_le)
    qed
  qed simp
  from this [OF bucket_sorted] have "takeWhile (\<lambda>k. k = key) (dropWhile (\<lambda>k. k < key) (bucket_keys b))
      = (case fmlookup b key of None \<Rightarrow> [] | Some v \<Rightarrow> [key])"
    unfolding sorted_dropWhile_filter [OF s] set_bucket_keys
    by (auto simp: in_fmdom split: option.splits)
  then show ?thesis by (simp add: UnsafeRange_def split: option.splits)
qed

section \<open>The invariant\<close>

definition stored :: "bucket \<Rightarrow> bytes \<Rightarrow> revision \<Rightarrow> revision \<Rightarrow> int \<Rightarrow> KeyValue \<Rightarrow> bool" where
  "stored b k r c v kv \<longleftrightarrow> fmlookup b (revToBytes r) = Some (KeyValue_MarshalTo kv) \<and> kv_ok kv
     \<and> kvKey kv = k \<and> kvCreateRevision kv = main c \<and> kvModRevision kv = main r \<and> kvVersion kv = v"

definition bucket_ok :: "bucket \<Rightarrow> bool" where
  "bucket_ok b \<longleftrightarrow> (\<forall>x. x |\<in>| fmdom b \<longrightarrow> (\<exists>r m. x = revToBytes r @ m \<and> rev_ok r \<and> int64_ok (sub r + 1)))"

definition store_ok :: "store \<Rightarrow> bool" where
  "store_ok s \<longleftrightarrow> ti_wf (sIndex s) \<and> bucket_ok (sKey s)
     \<and> (\<forall>k e. e \<in> set (ti_hist (sIndex s) k) \<longrightarrow> rev_ok (fst e))
     \<and> (\<forall>k r c v. (r, Some (c, v)) \<in> set (ti_hist (sIndex s) k) \<longrightarrow> (\<exists>kv. stored (sKey s) k r c v kv))"

lemma store_okD:
  assumes "store_ok s"
  shows "ti_wf (sIndex s)" "bucket_ok (sKey s)" "e \<in> set (ti_hist (sIndex s) k) \<Longrightarrow> rev_ok (fst e)"
    and "(r, Some (c, v)) \<in> set (ti_hist (sIndex s) k) \<Longrightarrow> \<exists>kv. stored (sKey s) k r c v kv"
  using assms unfolding store_ok_def by (blast, blast, blast, metis)

definition view :: "store \<Rightarrow> int \<Rightarrow> bytes \<Rightarrow> KeyValue option" where
  "view s t k = (case alive_at t (ti_hist (sIndex s) k) of None \<Rightarrow> None | Some (r, c, v) \<Rightarrow> readRev s r)"

lemma readRev_stored: "stored (sKey s) k r c v kv \<Longrightarrow> readRev s r = Some kv"
  by (simp add: readRev_def UnsafeRange_single stored_def KeyValue_roundtrip)

lemma readRev_cong: "sKey s' = sKey s \<Longrightarrow> readRev s' r = readRev s r"
  by (simp add: readRev_def)

lemma alive_at_in: "alive_at t h = Some (r, c, v) \<Longrightarrow> (r, Some (c, v)) \<in> set h \<and> main r \<le> t"
  by (auto simp: alive_at_def split: option.splits prod.splits dest: last_at_in)

lemma view_cases:
  assumes "store_ok s"
  obtains "alive_at t (ti_hist (sIndex s) k) = None" "view s t k = None"
  | r c v kv where "alive_at t (ti_hist (sIndex s) k) = Some (r, c, v)" "view s t k = Some kv"
      "stored (sKey s) k r c v kv" "readRev s r = Some kv"
proof (cases "alive_at t (ti_hist (sIndex s) k)")
  case None
  then show thesis by (intro that(1)) (simp_all add: view_def)
next
  case (Some x)
  obtain r c v where x: "x = (r, c, v)" by (cases x)
  then have "(r, Some (c, v)) \<in> set (ti_hist (sIndex s) k)" using Some alive_at_in by simp
  then obtain kv where "stored (sKey s) k r c v kv" using assms unfolding store_ok_def by blast
  with Some x readRev_stored [OF this] show thesis by (intro that(2)) (simp_all add: view_def)
qed

lemma view_None: "store_ok s \<Longrightarrow> view s t k = None \<longleftrightarrow> alive_at t (ti_hist (sIndex s) k) = None"
  by (erule view_cases [of s t k]) auto

section \<open>Range\<close>

text \<open>The keys of the request that are present, in order, and their records.\<close>

definition present :: "store \<Rightarrow> int \<Rightarrow> bytes \<Rightarrow> bytes option \<Rightarrow> bytes list" where
  "present s t key endk = filter (\<lambda>k. in_range key endk k \<and> view s t k \<noteq> None) (tree_keys (sIndex s))"

lemma present_set: "store_ok s \<Longrightarrow> set (present s t key endk) = {k. in_range key endk k \<and> view s t k \<noteq> None}"
  using ti_hist_notin [of _ "sIndex s"]
  by (auto simp: present_def set_tree_keys view_None) (metis alive_at_Nil option.distinct(1))

lemma present_sorted: "sorted_wrt (<) (present s t key endk)"
  unfolding present_def by (rule sorted_wrt_filter) (rule sorted_tree_keys)

lemma readRevs_present:
  assumes "store_ok s" "\<forall>k \<in> set ks. view s t k \<noteq> None"
  shows "readRevs s (map (\<lambda>k. fst (the (alive_at t (ti_hist (sIndex s) k)))) ks) = Some (map (\<lambda>k. the (view s t k)) ks)"
  using assms(2)
proof (induction ks)
  case (Cons k ks)
  then show ?case by (cases rule: view_cases [OF assms(1), of t k]) auto
qed simp

lemma rangeKeys_view:
  fixes key :: bytes and endk :: "bytes option"
  assumes "store_ok s" "roRev ro \<le> cur" "sCompactMainRev s \<le> cur" "0 < roRev ro \<longrightarrow> sCompactMainRev s \<le> roRev ro"
  defines "t \<equiv> (if roRev ro \<le> 0 then cur else roRev ro)"
  defines "ks \<equiv> present s t key endk"
  shows "rangeKeys key endk cur ro s = Some (\<lparr>rrKVs = (if roCount ro then []
      else map (\<lambda>k. the (view s t k)) (if 0 < roLimit ro then take (nat (roLimit ro)) ks else ks)),
    rrRev = cur, rrCount = int (length ks)\<rparr>, None)"
proof -
  have wf: "ti_wf (sIndex s)" using assms(1) by (simp add: store_ok_def)
  have "alive_keys key endk t (sIndex s) = ks"
    using view_None [OF assms(1), of t] by (simp add: alive_keys_def ks_def present_def)
  then have revs: "ti_Revisions key endk t (sIndex s) = Some (map (\<lambda>k. fst (the (alive_at t (ti_hist (sIndex s) k)))) ks)"
    using ti_Range_hist(2) [OF wf, of key endk t] by simp
  have read: "readRevs s (map (\<lambda>k. fst (the (alive_at t (ti_hist (sIndex s) k)))) (take n ks))
      = Some (map (\<lambda>k. the (view s t k)) (take n ks))" for n
    using present_set [OF assms(1), of t key endk] by (intro readRevs_present [OF assms(1)]) (auto simp: ks_def dest: in_set_takeD)
  have "t \<ge> sCompactMainRev s" using assms(3,4) by (simp add: t_def)
  then show ?thesis
    using assms(2) revs read [of "length ks"] read [of "nat (roLimit ro)"]
    by (auto simp: rangeKeys_def Let_def t_def [symmetric] take_map not_less)
qed

lemma range_view_cong:
  assumes "store_ok s" "store_ok s'" "view s' = view s" "sIndex s' = sIndex s"
    and "sCurrentRev s' = sCurrentRev s" "sCompactMainRev s' = sCompactMainRev s" "sCompactMainRev s \<le> sCurrentRev s"
  shows "store_Range key endk ro s' = store_Range key endk ro s"
proof (cases "roRev ro \<le> sCurrentRev s \<and> (0 < roRev ro \<longrightarrow> sCompactMainRev s \<le> roRev ro)")
  case True
  then show ?thesis
    using rangeKeys_view [OF assms(1), of ro "sCurrentRev s" key endk] rangeKeys_view [OF assms(2), of ro "sCurrentRev s" key endk] assms(3-)
    by (simp add: store_Range_def present_def)
qed (auto simp: store_Range_def rangeKeys_def Let_def assms(5,6))

section \<open>Writing\<close>

text \<open>An open transaction: all revisions are before the next one to be written.\<close>

definition tw_ok :: "storeTxnWrite \<Rightarrow> bool" where
  "tw_ok tw \<longleftrightarrow> store_ok (twStore tw) \<and> 1 \<le> twBeginRev tw \<and> twBeginRev tw = sCurrentRev (twStore tw)
     \<and> ti_before (Revision (twBeginRev tw + 1) (int (length (twChanges tw)))) (sIndex (twStore tw))"

definition now :: "storeTxnWrite \<Rightarrow> bytes \<Rightarrow> KeyValue option" where
  "now tw = view (twStore tw) (twBeginRev tw + 1)"

definition put_kv :: "int \<Rightarrow> bytes \<Rightarrow> bytes \<Rightarrow> int \<Rightarrow> KeyValue option \<Rightarrow> KeyValue" where
  "put_kv r key val lease old = \<lparr>kvKey = key,
     kvCreateRevision = (case old of None \<Rightarrow> r | Some kv \<Rightarrow> kvCreateRevision kv), kvModRevision = r,
     kvVersion = (case old of None \<Rightarrow> 1 | Some kv \<Rightarrow> kvVersion kv + 1), kvValue = val, kvLease = lease\<rparr>"

text \<open>What a write has in common with the store before: everything but the index and the records.\<close>

definition same_revs :: "store \<Rightarrow> store \<Rightarrow> bool" where
  "same_revs s s' \<longleftrightarrow> sCurrentRev s' = sCurrentRev s \<and> sCompactMainRev s' = sCompactMainRev s
     \<and> sBatchLimit s' = sBatchLimit s"

lemma same_revs_trans: "same_revs s s' \<Longrightarrow> same_revs s' s'' \<Longrightarrow> same_revs s s''"
  by (simp add: same_revs_def)

lemma lease_key_frame:
  "detach_key i key s = Some s' \<Longrightarrow> sKey s' = sKey s \<and> sIndex s' = sIndex s \<and> sMeta s' = sMeta s \<and> same_revs s s'"
  "attach_key i key s = Some s' \<Longrightarrow> sKey s' = sKey s \<and> sIndex s' = sIndex s \<and> sMeta s' = sMeta s \<and> same_revs s s'"
  by (auto simp: detach_key_def attach_key_def same_revs_def split: if_splits option.splits prod.splits)

lemma view_cong:
  assumes "sKey s' = sKey s" "sIndex s' = sIndex s"
  shows "view s' = view s"
proof -
  have r: "readRev s' = readRev s" using readRev_cong [OF assms(1)] by (rule ext)
  show ?thesis unfolding view_def r assms(2) ..
qed

lemma store_ok_cong: "sKey s' = sKey s \<Longrightarrow> sIndex s' = sIndex s \<Longrightarrow> store_ok s' = store_ok s"
  by (simp add: store_ok_def)

lemma alive_now:
  assumes "ti_wf ti" "ti_before (Revision (t + 1) n) ti" "\<forall>e \<in> set (ti_hist ti k). rev_ok (fst e)"
  shows "hist_alive (ti_hist ti k) = map_option (\<lambda>(r, c, v). (c, v)) (alive_at (t + 1) (ti_hist ti k))"
    and "n = 0 \<Longrightarrow> t \<le> t' \<Longrightarrow> alive_at t' (ti_hist ti k) = alive_at t (ti_hist ti k)"
    and "t + 1 \<le> t' \<Longrightarrow> alive_at t' (ti_hist ti k) = alive_at (t + 1) (ti_hist ti k)"
proof -
  let ?h = "ti_hist ti k"
  have le: "main (fst e) \<le> t + 1" if "e \<in> set ?h" for e
    using ti_before_events [OF assms(1,2) that] by (auto simp: revision_less)
  have last: "last_at t' ?h = (if ?h = [] then None else Some (last ?h))" if "t + 1 \<le> t'" for t'
    using le [of "last ?h"] that by (auto intro!: last_at_below)
  show "hist_alive ?h = map_option (\<lambda>(r, c, v). (c, v)) (alive_at (t + 1) ?h)"
    using last [of "t + 1"] by (auto simp: hist_alive_def alive_at_def split: option.splits prod.splits)
  show "t + 1 \<le> t' \<Longrightarrow> alive_at t' ?h = alive_at (t + 1) ?h"
    using last by (simp add: alive_at_def)
  assume n: "n = 0"
  have m: "main (fst e) \<le> t" if "e \<in> set ?h" for e
    using ti_before_events [OF assms(1,2) that] assms(3) that n by (auto simp: revision_less rev_ok_def)
  have "last_at t' ?h = (if ?h = [] then None else Some (last ?h))" if "t \<le> t'" for t'
  proof (cases "?h = []")
    case False
    then have "main (fst (last ?h)) \<le> t'" using m [OF last_in_set [OF False]] that by simp
    with False show ?thesis by (simp add: last_at_below)
  qed simp
  note l = this
  show "t \<le> t' \<Longrightarrow> alive_at t' ?h = alive_at t ?h" using l by (simp add: alive_at_def)
qed

text \<open>A new record under a new revision leaves the older records alone.\<close>

lemma stored_upd:
  assumes "stored b k r c v kv" "rev_ok r" "rev_ok r'" "r < r'"
  shows "stored (UnsafePut (revToBytes r' @ m) d b) k r c v kv"
proof -
  have "revToBytes r @ [] < revToBytes r' @ m" using revToBytes_order(2) [OF assms(2,3,4)] .
  then show ?thesis using assms(1) by (auto simp: stored_def UnsafePut_def)
qed

lemma bucket_ok_upd: "bucket_ok b \<Longrightarrow> rev_ok r \<Longrightarrow> int64_ok (sub r + 1) \<Longrightarrow> bucket_ok (UnsafePut (revToBytes r @ m) d b)"
  by (auto simp: bucket_ok_def UnsafePut_def)

lemma alive_at_put:
  "alive_at t (hist_put r h) = (if main r \<le> t
    then Some (case hist_alive h of Some (c, v) \<Rightarrow> (r, c, v + 1) | None \<Rightarrow> (r, r, 1)) else alive_at t h)"
  by (auto simp: alive_at_def hist_put_def split: option.splits prod.splits)

lemma alive_at_tombstone:
  "alive_at t (hist_tombstone r h) = (if main r \<le> t then None else alive_at t h)"
  by (simp add: alive_at_def hist_tombstone_def)

text \<open>The store after a write of one key: its index has one more event for the key, the backend one more record.\<close>

lemma write_ok:
  assumes "store_ok s" "ti_before r (sIndex s)" "rev_ok r" "int64_ok (sub r + 1)"
    and "ti_wf (sIndex s')" "ti_hist (sIndex s') = (ti_hist (sIndex s))(key := ti_hist (sIndex s) key @ [(r, x)])"
    and "sKey s' = UnsafePut (revToBytes r @ m) d (sKey s)"
    and "\<And>c v. x = Some (c, v) \<Longrightarrow> \<exists>kv. stored (sKey s') key r c v kv"
  shows "store_ok s'" "\<And>r' k c v kv. (r', Some (c, v)) \<in> set (ti_hist (sIndex s) k) \<Longrightarrow> readRev s' r' = readRev s r'"
proof -
  have old: "\<exists>kv. stored (sKey s') k r' c v kv \<and> stored (sKey s) k r' c v kv"
    if ev: "(r', Some (c, v)) \<in> set (ti_hist (sIndex s) k)" for k r' c v
  proof -
    obtain kv where kv: "stored (sKey s) k r' c v kv"
      using store_okD(4) [OF assms(1) ev] by blast
    have ok: "rev_ok r'" using store_okD(3) [OF assms(1) ev] by simp
    have "r' < r" using ti_before_events [OF _ assms(2) ev] assms(1) by (simp add: store_ok_def)
    from stored_upd [OF kv ok assms(3) this] kv show ?thesis unfolding assms(7) by blast
  qed
  show "readRev s' r' = readRev s r'" if ev: "(r', Some (c, v)) \<in> set (ti_hist (sIndex s) k)" for r' k c v
  proof -
    obtain kv where kv: "stored (sKey s') k r' c v kv" "stored (sKey s) k r' c v kv" using old [OF ev] by blast
    from readRev_stored [OF kv(1)] readRev_stored [OF kv(2)] show ?thesis by simp
  qed
  have "\<exists>kv. stored (sKey s') k r' c v kv" if "(r', Some (c, v)) \<in> set (ti_hist (sIndex s') k)" for k r' c v
    using that old [of r' c v k] assms(6,8) by (auto split: if_splits)
  moreover have "rev_ok (fst e)" if "e \<in> set (ti_hist (sIndex s') k)" for k e
    using that assms(3,6) store_okD(3) [OF assms(1), of e k] by (auto split: if_splits)
  moreover have "bucket_ok (sKey s')"
    using assms(1,3,4,7) bucket_ok_upd by (simp add: store_ok_def)
  ultimately show "store_ok s'"
    using assms(5) unfolding store_ok_def by blast
qed

end
