(* ===== verification/StoreOps.thy ===== *)
theory StoreOps
  imports StoreView
begin

text \<open>
  The operations of a write transaction as operations on maps: each changes the map that the
  transaction will commit, and none changes the map of an earlier revision.
\<close>

section \<open>One write\<close>

lemma alive_at_snoc:
  "alive_at t (h @ [(r, x)]) = (if main r \<le> t then map_option (\<lambda>(c, v). (r, c, v)) x else alive_at t h)"
  by (simp add: alive_at_def split: option.splits)

lemma view_write:
  assumes "store_ok s" "ti_before r (sIndex s)" "rev_ok r" "int64_ok (sub r + 1)"
    and "ti_wf (sIndex s')" "ti_hist (sIndex s') = (ti_hist (sIndex s))(key := ti_hist (sIndex s) key @ [(r, x)])"
    and "sKey s' = UnsafePut (revToBytes r @ m) d (sKey s)"
    and "\<And>c v. x = Some (c, v) \<Longrightarrow> \<exists>kv. stored (sKey s') key r c v kv"
  shows "view s' t k = (if k = key \<and> main r \<le> t then (if x = None then None else readRev s' r) else view s t k)"
proof -
  have old: "(r', Some (c, v)) \<in> set (ti_hist (sIndex s) k) \<Longrightarrow> readRev s' r' = readRev s r'" for r' c v
    by (rule write_ok(2) [OF assms])
  have "view s' t k = view s t k" if "alive_at t (ti_hist (sIndex s') k) = alive_at t (ti_hist (sIndex s) k)"
  proof (cases "alive_at t (ti_hist (sIndex s) k)")
    case (Some a)
    then obtain r' c v where a: "a = (r', c, v)" by (cases a)
    then have "(r', Some (c, v)) \<in> set (ti_hist (sIndex s) k)" using Some alive_at_in by simp
    from old [OF this] Some a that show ?thesis by (simp add: view_def)
  qed (simp add: view_def that)
  then show ?thesis
    by (cases "k = key") (auto simp: assms(6) alive_at_snoc view_def split: option.splits)
qed

lemma hist_put_snoc: "hist_put r h = h @ [(r, Some (case hist_alive h of Some (c, v) \<Rightarrow> (c, v + 1) | None \<Rightarrow> (r, 1)))]"
  by (simp add: hist_put_def)

text \<open>One event more for a key, and its record: a put, or the tombstone of a key that is alive.\<close>

definition rec_of :: "revision \<times> (revision \<times> int) option \<Rightarrow> bytes" where
  "rec_of e = revToBytes (fst e) @ (if snd e = None then [markTombstone] else [])"

definition next_event :: "revision \<Rightarrow> (revision \<times> int) option \<Rightarrow> hist \<Rightarrow> bool" where
  "next_event r x h \<longleftrightarrow> (if x = None then hist_alive h \<noteq> None else h @ [(r, x)] = hist_put r h)"

definition one_write :: "storeTxnWrite \<Rightarrow> storeTxnWrite \<Rightarrow> bool" where
  "one_write tw tw' \<longleftrightarrow> (\<exists>key x kv. let r = Revision (twBeginRev tw + 1) (int (length (twChanges tw)));
       s = twStore tw; s' = twStore tw'; h = ti_hist (sIndex s) key in
     tw_ok tw \<and> rev_ok r \<and> length (twChanges tw') = length (twChanges tw) + 1 \<and> twBeginRev tw' = twBeginRev tw
     \<and> ti_hist (sIndex s') = (ti_hist (sIndex s))(key := h @ [(r, x)]) \<and> next_event r x h
     \<and> sKey s' = UnsafePut (rec_of (r, x)) (KeyValue_MarshalTo kv) (sKey s) \<and> kv_ok kv \<and> kvKey kv = key
     \<and> sMeta s' = sMeta s \<and> same_revs s s')"

text \<open>What every operation of a transaction keeps: the transaction's invariant, its start, and the maps of the past.\<close>

definition extends :: "storeTxnWrite \<Rightarrow> storeTxnWrite \<Rightarrow> bool" where
  "extends tw tw' \<longleftrightarrow> tw_ok tw' \<and> twBeginRev tw' = twBeginRev tw \<and> same_revs (twStore tw) (twStore tw')
     \<and> length (twChanges tw) \<le> length (twChanges tw')
     \<and> (\<forall>t \<le> twBeginRev tw. view (twStore tw') t = view (twStore tw) t)
     \<and> (\<forall>k e. e \<in> set (ti_hist (sIndex (twStore tw')) k) \<longrightarrow>
        e \<in> set (ti_hist (sIndex (twStore tw)) k) \<or> main (fst e) = twBeginRev tw + 1)
     \<and> one_write\<^sup>*\<^sup>* tw tw'"

lemma extends_refl: "tw_ok tw \<Longrightarrow> extends tw tw"
  by (simp add: extends_def same_revs_def)

lemma extends_trans:
  assumes "extends tw tw'" "extends tw' tw''"
  shows "extends tw tw''"
  using assms unfolding extends_def same_revs_def by (metis order.trans rtranclp_trans)

lemma tw_okD:
  assumes "tw_ok tw"
  shows "store_ok (twStore tw)" "ti_wf (sIndex (twStore tw))"
    and "ti_before (Revision (twBeginRev tw + 1) (int (length (twChanges tw)))) (sIndex (twStore tw))"
    and "alive_at (twBeginRev tw + 1) (ti_hist (sIndex (twStore tw)) k) = None \<longleftrightarrow> now tw k = None"
    and "twChanges tw = [] \<Longrightarrow> view (twStore tw) (twBeginRev tw) = now tw"
    and "twBeginRev tw + 1 \<le> t \<Longrightarrow> view (twStore tw) t = now tw"
proof -
  show ok: "store_ok (twStore tw)" and b: "ti_before (Revision (twBeginRev tw + 1) (int (length (twChanges tw)))) (sIndex (twStore tw))"
    using assms unfolding tw_ok_def by blast+
  show wf: "ti_wf (sIndex (twStore tw))" using store_okD(1) [OF ok] .
  show "alive_at (twBeginRev tw + 1) (ti_hist (sIndex (twStore tw)) k) = None \<longleftrightarrow> now tw k = None"
    using view_None [OF ok] by (simp add: now_def)
  have revs: "\<forall>e \<in> set (ti_hist (sIndex (twStore tw)) k). rev_ok (fst e)" for k using store_okD(3) [OF ok] by blast
  show "view (twStore tw) (twBeginRev tw) = now tw" if "twChanges tw = []"
    using alive_now(2) [OF wf b revs, of "twBeginRev tw + 1"] that by (auto simp: now_def view_def)
  show "view (twStore tw) t = now tw" if "twBeginRev tw + 1 \<le> t"
    using alive_now(3) [OF wf b revs that] by (auto simp: now_def view_def)
qed

lemma rev_ok_pred:
  assumes "rev_ok (Revision r (int n + 1))"
  shows "rev_ok (Revision r (int n))" "int64_ok (sub (Revision r (int n)) + 1)"
  using assms by (simp_all add: rev_ok_def int64_ok_def)

lemma tw_put_spec:
  assumes "tw_ok tw" "tw_put key val i tw = Some tw'"
    and "kv_ok (put_kv (twBeginRev tw + 1) key val i (now tw key))"
    and "rev_ok (Revision (twBeginRev tw + 1) (int (length (twChanges tw)) + 1))"
  shows "extends tw tw'" "now tw' = (now tw)(key := Some (put_kv (twBeginRev tw + 1) key val i (now tw key)))"
    and "twChanges tw' = twChanges tw @ [put_kv (twBeginRev tw + 1) key val i (now tw key)]"
proof -
  let ?s = "twStore tw" and ?r = "twBeginRev tw + 1"
  let ?idx = "Revision ?r (int (length (twChanges tw)))"
  let ?h = "ti_hist (sIndex ?s) key" and ?kv = "put_kv ?r key val i (now tw key)"
  note ok = tw_okD [OF assms(1)] and idx_ok = rev_ok_pred [OF assms(4)]
  have idx: "zeroRev < ?idx" using assms(1) by (simp add: revision_less tw_ok_def)
  obtain ti where ti: "ti_Put key ?idx (sIndex ?s) = Some ti" "ti_wf ti"
      "ti_hist ti = (ti_hist (sIndex ?s))(key := hist_put ?idx ?h)" "\<forall>r' > ?idx. ti_before r' ti"
    using ti_Put_hist [OF ok(2,3) idx] by blast
  have revs: "\<forall>e \<in> set ?h. rev_ok (fst e)" using store_okD(3) [OF ok(1)] by blast
  note alive = alive_now(1) [OF ok(2,3) revs]
  obtain c v where cv: "c = (case hist_alive ?h of Some (c, v) \<Rightarrow> c | None \<Rightarrow> ?idx)"
      "v = (case hist_alive ?h of Some (c, v) \<Rightarrow> v | None \<Rightarrow> 0)" by blast
  have kv: "?kv = \<lparr>kvKey = key, kvCreateRevision = main c, kvModRevision = ?r, kvVersion = v + 1, kvValue = val, kvLease = i\<rparr>"
    using view_cases [OF ok(1), of ?r key] alive cv
    by (cases rule: view_cases [OF ok(1), of ?r key]) (auto simp: put_kv_def now_def stored_def)
  define s1 where "s1 = ?s\<lparr>sKey := UnsafePut (revToBytes ?idx) (KeyValue_MarshalTo ?kv) (sKey ?s), sIndex := ti\<rparr>"
  have hist: "ti_hist (sIndex s1) = (ti_hist (sIndex ?s))(key := ?h @ [(?idx, Some (c, v + 1))])"
    using ti(3) cv by (auto simp: s1_def hist_put_def split: option.splits)
  have key: "sKey s1 = UnsafePut (revToBytes ?idx @ []) (KeyValue_MarshalTo ?kv) (sKey ?s)" by (simp add: s1_def)
  have wf1: "ti_wf (sIndex s1)" using ti(2) by (simp add: s1_def)
  have st: "stored (sKey s1) key ?idx c (v + 1) ?kv" using assms(3) by (simp add: s1_def stored_def UnsafePut_def kv)
  have ex: "\<exists>kv. stored (sKey s1) key ?idx c' v' kv" if "Some (c, v + 1) = Some (c', v')" for c' v'
    using that st by (intro exI [of _ ?kv]) simp
  have ok1: "store_ok s1"
    by (rule write_ok(1) [OF ok(1,3) idx_ok wf1 hist key ex])
  have view1: "view s1 t k = (if k = key \<and> ?r \<le> t then Some ?kv else view ?s t k)" for t k
    using view_write [OF ok(1,3) idx_ok wf1 hist key ex, of t k] readRev_stored [OF st] by auto
  have frame: "sKey (twStore tw') = sKey s1 \<and> sIndex (twStore tw') = sIndex s1 \<and> same_revs s1 (twStore tw')
      \<and> sMeta (twStore tw') = sMeta s1 \<and> twBeginRev tw' = twBeginRev tw \<and> twChanges tw' = twChanges tw @ [?kv]"
  proof -
    have "\<exists>old. tw_put key val i tw = do { s \<leftarrow> detach_key old key s1; s \<leftarrow> attach_key i key s;
        Some (tw\<lparr>twStore := s, twChanges := twChanges tw @ [?kv]\<rparr>) }"
    proof (cases "alive_at ?r ?h")
      case None
      then have "c = ?idx" "v = 0" using alive cv by simp_all
      with None ti(1) show ?thesis
        by (intro exI [of _ NoLease]) (simp add: tw_put_def ti_Get_hist [OF ok(2)] kv s1_def KeyValue_Marshal_total Let_def)
    next
      case (Some x)
      then obtain r0 where x: "x = (r0, c, v)" using alive cv by (cases x) simp
      obtain le where "sLessor ?s = Some le"
        using assms(2) Some x by (cases "sLessor ?s") (simp_all add: tw_put_def ti_Get_hist [OF ok(2)] Let_def)
      with Some x ti(1) show ?thesis
        by (intro exI [of _ "GetLease key le"]) (simp add: tw_put_def ti_Get_hist [OF ok(2)] kv s1_def KeyValue_Marshal_total Let_def)
    qed
    then obtain old s2 s3 where s: "detach_key old key s1 = Some s2" "attach_key i key s2 = Some s3"
        "tw' = tw\<lparr>twStore := s3, twChanges := twChanges tw @ [?kv]\<rparr>"
      using assms(2) by (auto split: Option.bind_splits)
    from lease_key_frame(1) [OF s(1)] lease_key_frame(2) [OF s(2)] s(3) show ?thesis
      by (auto simp: same_revs_def)
  qed
  then have view': "view (twStore tw') = view s1" and ok': "store_ok (twStore tw')"
    using view_cong store_ok_cong ok1 by blast+
  have same: "same_revs ?s (twStore tw')"
    using frame by (auto simp: s1_def same_revs_def)
  show ch: "twChanges tw' = twChanges tw @ [?kv]" using frame by blast
  have "next_event ?idx (Some (c, v + 1)) ?h"
    using cv by (auto simp: next_event_def hist_put_def split: option.splits)
  moreover have "sMeta s1 = sMeta ?s" by (simp add: s1_def)
  ultimately have "one_write tw tw'"
    using assms(1,3) idx_ok(1) frame hist key same unfolding one_write_def Let_def
    by (intro exI [of _ key] exI [of _ "Some (c, v + 1)"] exI [of _ ?kv]) (simp add: rec_of_def put_kv_def)
  then have wr: "one_write\<^sup>*\<^sup>* tw tw'" by (rule r_into_rtranclp)
  show "now tw' = (now tw)(key := Some ?kv)" using view' frame view1 by (auto simp: now_def)
  have "ti_before (Revision ?r (int (length (twChanges tw')))) (sIndex (twStore tw'))"
    using frame ti(4) by (auto simp: s1_def revision_less)
  then show "extends tw tw'"
    using ok' same frame assms(1) view' view1 hist wr
    by (auto simp: extends_def tw_ok_def same_revs_def split: if_splits)
qed

lemma tw_delete_spec:
  assumes "tw_ok tw" "tw_delete key tw = Some tw'" "now tw key \<noteq> None"
    and "rev_ok (Revision (twBeginRev tw + 1) (int (length (twChanges tw)) + 1))"
  shows "extends tw tw'" "now tw' = (now tw)(key := None)"
    and "twChanges tw' = twChanges tw @ [zeroKeyValue\<lparr>kvKey := key\<rparr>]"
proof -
  let ?s = "twStore tw" and ?r = "twBeginRev tw + 1"
  let ?idx = "Revision ?r (int (length (twChanges tw)))"
  let ?h = "ti_hist (sIndex ?s) key" and ?kv = "zeroKeyValue\<lparr>kvKey := key\<rparr>"
  note ok = tw_okD [OF assms(1)] and idx_ok = rev_ok_pred [OF assms(4)]
  have revs: "\<forall>e \<in> set ?h. rev_ok (fst e)" using store_okD(3) [OF ok(1)] by blast
  have alive: "hist_alive ?h \<noteq> None"
    using alive_now(1) [OF ok(2,3) revs] ok(4) [of key] assms(3) by simp
  then obtain ti where ti: "ti_Tombstone key ?idx (sIndex ?s) = Some (None, ti)" "ti_wf ti"
      "ti_hist ti = (ti_hist (sIndex ?s))(key := hist_tombstone ?idx ?h)" "\<forall>r' > ?idx. ti_before r' ti"
    using ti_Tombstone_hist [OF ok(2,3)] by blast
  define s1 where "s1 = ?s\<lparr>sKey := UnsafePut (revToBytes ?idx @ [markTombstone]) (KeyValue_MarshalTo ?kv) (sKey ?s), sIndex := ti\<rparr>"
  have hist: "ti_hist (sIndex s1) = (ti_hist (sIndex ?s))(key := ?h @ [(?idx, None)])"
    using ti(3) by (simp add: s1_def hist_tombstone_def)
  have key: "sKey s1 = UnsafePut (revToBytes ?idx @ [markTombstone]) (KeyValue_MarshalTo ?kv) (sKey ?s)"
    by (simp add: s1_def)
  have wf1: "ti_wf (sIndex s1)" using ti(2) by (simp add: s1_def)
  have ok1: "store_ok s1" by (rule write_ok(1) [OF ok(1,3) idx_ok wf1 hist key]) simp
  have view1: "view s1 t k = (if k = key \<and> ?r \<le> t then None else view ?s t k)" for t k
    using view_write [OF ok(1,3) idx_ok wf1 hist key, of t k] by auto
  have frame: "sKey (twStore tw') = sKey s1 \<and> sIndex (twStore tw') = sIndex s1 \<and> same_revs s1 (twStore tw')
      \<and> sMeta (twStore tw') = sMeta s1 \<and> twBeginRev tw' = twBeginRev tw \<and> twChanges tw' = twChanges tw @ [?kv]"
  proof -
    obtain le where "sLessor ?s = Some le"
      using assms(2) ti(1) by (cases "sLessor ?s")
        (simp_all add: tw_delete_def Let_def appendMarkTombstone_def revBytesLen_def KeyValue_Marshal_total)
    then have "tw_delete key tw = do { s \<leftarrow> detach_key (GetLease key le) key s1;
        Some (tw\<lparr>twStore := s, twChanges := twChanges tw @ [?kv]\<rparr>) }"
      using ti(1) by (simp add: tw_delete_def Let_def appendMarkTombstone_def revBytesLen_def KeyValue_Marshal_total s1_def)
    then obtain s2 where s: "detach_key (GetLease key le) key s1 = Some s2"
        "tw' = tw\<lparr>twStore := s2, twChanges := twChanges tw @ [?kv]\<rparr>"
      using assms(2) by (auto split: Option.bind_splits)
    from lease_key_frame(1) [OF s(1)] s(2) show ?thesis by simp
  qed
  then have view': "view (twStore tw') = view s1" and ok': "store_ok (twStore tw')"
    using view_cong store_ok_cong ok1 by blast+
  have same: "same_revs ?s (twStore tw')"
    using frame by (auto simp: s1_def same_revs_def)
  show ch: "twChanges tw' = twChanges tw @ [?kv]" using frame by blast
  have "next_event ?idx None ?h" using alive by (simp add: next_event_def)
  moreover obtain r0 c0 v0 kv0 where "stored (sKey ?s) key r0 c0 v0 kv0"
    by (rule view_cases [OF ok(1), of ?r key]) (use assms(3) in \<open>auto simp: now_def\<close>)
  then have "kvKey kv0 = key" "kv_ok kv0" by (simp_all add: stored_def)
  then have "kv_ok ?kv"
    by (auto simp: kv_ok_def zeroKeyValue_def int64_ok_def KeyValue_Size_def sizeInt64_def sizeBytes_def)
  moreover have "sMeta s1 = sMeta ?s" by (simp add: s1_def)
  ultimately have "one_write tw tw'"
    using assms(1) idx_ok(1) frame hist key same unfolding one_write_def Let_def
    by (intro exI [of _ key] exI [of _ None] exI [of _ ?kv]) (simp add: rec_of_def)
  then have wr: "one_write\<^sup>*\<^sup>* tw tw'" by (rule r_into_rtranclp)
  show "now tw' = (now tw)(key := None)" using view' frame view1 by (auto simp: now_def)
  have "ti_before (Revision ?r (int (length (twChanges tw')))) (sIndex (twStore tw'))"
    using frame ti(4) by (auto simp: s1_def revision_less)
  then show "extends tw tw'"
    using ok' same frame assms(1) view' view1 hist wr
    by (auto simp: extends_def tw_ok_def same_revs_def split: if_splits)
qed

section \<open>Deleting a range\<close>

lemma foldM_delete_spec:
  assumes "tw_ok tw" "foldM tw_delete ks tw = Some tw'" "\<forall>k \<in> set ks. now tw k \<noteq> None" "distinct ks"
    and "rev_ok (Revision (twBeginRev tw + 1) (int (length (twChanges tw) + length ks)))"
  shows "extends tw tw' \<and> now tw' = (\<lambda>k. if k \<in> set ks then None else now tw k)
    \<and> length (twChanges tw') = length (twChanges tw) + length ks"
  using assms
proof (induction ks arbitrary: tw)
  case Nil
  then show ?case by (simp add: extends_refl)
next
  case (Cons k ks)
  from Cons.prems(2) obtain tw1 where tw1: "tw_delete k tw = Some tw1" "foldM tw_delete ks tw1 = Some tw'"
    by (auto split: Option.bind_splits)
  have "rev_ok (Revision (twBeginRev tw + 1) (int (length (twChanges tw)) + 1))"
    using Cons.prems(5) by (simp add: rev_ok_def int64_ok_def)
  note d = tw_delete_spec [OF Cons.prems(1) tw1(1) _ this]
  have k: "now tw k \<noteq> None" using Cons.prems(3) by simp
  have b: "twBeginRev tw1 = twBeginRev tw" "tw_ok tw1" using d(1) [OF k] by (simp_all add: extends_def)
  have "\<forall>k' \<in> set ks. now tw1 k' \<noteq> None" using d(2) [OF k] Cons.prems(3,4) by auto
  moreover have "rev_ok (Revision (twBeginRev tw1 + 1) (int (length (twChanges tw1) + length ks)))"
    using Cons.prems(5) d(3) [OF k] b by simp
  ultimately have "extends tw1 tw' \<and> now tw' = (\<lambda>k. if k \<in> set ks then None else now tw1 k)
      \<and> length (twChanges tw') = length (twChanges tw1) + length ks"
    using Cons.IH [OF b(2) tw1(2)] Cons.prems(4) by simp
  then show ?case using extends_trans [OF d(1) [OF k]] d(2,3) [OF k] by auto
qed

lemma tw_deleteRange_spec:
  fixes key :: bytes and endk :: "bytes option"
  assumes "tw_ok tw" "tw_deleteRange key endk tw = Some (tw', n)"
    and "rev_ok (Revision (twBeginRev tw + 1) (int (length (twChanges tw) + card {k. in_range key endk k \<and> now tw k \<noteq> None})))"
  shows "extends tw tw' \<and> now tw' = (\<lambda>k. if in_range key endk k then None else now tw k)
    \<and> n = int (card {k. in_range key endk k \<and> now tw k \<noteq> None})
    \<and> length (twChanges tw') = length (twChanges tw) + nat n"
proof -
  let ?s = "twStore tw"
  define t where "t = (if length (twChanges tw) > 0 then twBeginRev tw + 1 else twBeginRev tw)"
  define ks where "ks = alive_keys key endk t (sIndex ?s)"
  note ok = tw_okD [OF assms(1)]
  have t: "view ?s t = now tw" using ok(5,6) by (simp add: t_def)
  have "ks = present ?s t key endk"
    using view_None [OF ok(1), of t] by (simp add: alive_keys_def ks_def present_def)
  then have ks: "set ks = {k. in_range key endk k \<and> now tw k \<noteq> None}" "distinct ks"
    using present_set [OF ok(1), of t key endk] present_sorted [of ?s t key endk]
    by (simp_all add: t strict_sorted_iff)
  then have len: "length ks = card {k. in_range key endk k \<and> now tw k \<noteq> None}" using distinct_card by fastforce
  have f: "foldM tw_delete ks tw = Some tw'" "n = int (length ks)"
    using assms(2) ti_Range_hist(1) [OF ok(2), of key endk t]
    unfolding tw_deleteRange_def Let_def t_def [symmetric] ks_def [symmetric]
    by (auto split: Option.bind_splits)
  have "\<forall>k \<in> set ks. now tw k \<noteq> None" using ks(1) by auto
  from foldM_delete_spec [OF assms(1) f(1) this ks(2)] have
    "extends tw tw' \<and> now tw' = (\<lambda>k. if k \<in> set ks then None else now tw k)
      \<and> length (twChanges tw') = length (twChanges tw) + length ks"
    using assms(3) len by simp
  then show ?thesis using f(2) len ks(1) by auto
qed

end
