(* ===== verification/StoreCompact.thy ===== *)
theory StoreCompact
  imports StoreOps
begin

text \<open>
  Compaction: neither its step on the index nor its batches on the backend change what the store
  shows from the compacted revision on, and its loop over the batches ends.
\<close>

section \<open>The index\<close>

text \<open>What the job has to keep: every live record up to its revision that the index still has.\<close>

definition keep_ok :: "int \<Rightarrow> revision fset \<Rightarrow> treeIndex \<Rightarrow> bool" where
  "keep_ok r keep ti \<longleftrightarrow> (\<forall>k e. e \<in> set (ti_hist ti k) \<longrightarrow> snd e \<noteq> None \<longrightarrow> main (fst e) \<le> r \<longrightarrow> fst e |\<in>| keep)"

lemma keep_okD: "keep_ok r keep ti \<Longrightarrow> (r', Some x) \<in> set (ti_hist ti k) \<Longrightarrow> main r' \<le> r \<Longrightarrow> r' |\<in>| keep"
  unfolding keep_ok_def by (metis fst_conv option.distinct(1) snd_conv)

lemma hist_compact_subset: "set (hist_compact t h) \<subseteq> set h"
  by (auto simp: hist_compact_def split: option.splits dest!: sym [of "Some _" "last_at _ _"] last_at_in)

lemma hist_compact_kept:
  "e \<in> set (hist_compact t h) \<Longrightarrow> snd e \<noteq> None \<Longrightarrow> main (fst e) \<le> t \<Longrightarrow> fst e |\<in>| kept t h"
  by (auto simp: hist_compact_def kept_def alive_at_def split: option.splits dest!: sym [of "Some _" "last_at _ _"])

lemma compactIndex_spec:
  assumes "store_ok s"
  obtains s' keep where "compactIndex r s = Some (s', keep)" "store_ok s'" "keep_ok r keep (sIndex s')"
    "same_revs s s'" "sKey s' = sKey s" "\<And>r'. ti_before r' (sIndex s) \<Longrightarrow> ti_before r' (sIndex s')"
    "\<And>t. r \<le> t \<Longrightarrow> view s' t = view s t" "sMeta s' = sMeta s"
    "\<And>k. ti_hist (sIndex s') k = hist_compact r (ti_hist (sIndex s) k)"
    "\<And>r'. r' |\<in>| keep \<longleftrightarrow> (\<exists>k. r' |\<in>| kept r (ti_hist (sIndex s) k))"
proof -
  have wf: "ti_wf (sIndex s)" using store_okD(1) [OF assms] .
  obtain ti keep where c: "ti_Compact r (sIndex s) = Some (ti, keep)" "ti_wf ti"
      "\<And>k. ti_hist ti k = hist_compact r (ti_hist (sIndex s) k)"
      "fset keep = (\<Union>k. fset (kept r (ti_hist (sIndex s) k)))" "\<And>r'. ti_before r' (sIndex s) \<Longrightarrow> ti_before r' ti"
    using ti_Compact_hist [OF wf, of r] by blast
  let ?s = "s\<lparr>sIndex := ti\<rparr>"
  have sub: "set (ti_hist ti k) \<subseteq> set (ti_hist (sIndex s) k)" for k using c(3) hist_compact_subset by simp
  have "store_ok ?s"
    unfolding store_ok_def
  proof (intro conjI allI impI)
    show "rev_ok (fst e)" if "e \<in> set (ti_hist (sIndex ?s) k)" for k e
      using that sub [of k] store_okD(3) [OF assms, of e k] by auto
    show "\<exists>kv. stored (sKey ?s) k r' c v kv" if "(r', Some (c, v)) \<in> set (ti_hist (sIndex ?s) k)" for k r' c v
      using that sub [of k] store_okD(4) [OF assms, of r' c v k] by auto
  qed (use c(2) store_okD(2) [OF assms] in auto)
  moreover have "keep_ok r keep (sIndex ?s)"
    using hist_compact_kept c(3,4) unfolding keep_ok_def by fastforce
  moreover have read: "readRev ?s = readRev s" by (simp add: readRev_def fun_eq_iff)
  have "view ?s t = view s t" if "r \<le> t" for t
    using alive_at_compact [OF ti_hist_ok [OF wf] that] c(3) unfolding view_def read by simp
  ultimately show thesis
    using c(1,3,4,5) by (intro that [of ?s keep]) (simp_all add: compactIndex_def same_revs_def)
qed

section \<open>The backend\<close>

text \<open>The keys of the backend before the end key of the job are the records up to its revision.\<close>

lemma below_end:
  assumes "rev_ok r'" "- 1 \<le> r" "r < 9223372036854775808"
  shows "revToBytes r' @ m < PutUint64 (u64_of (r + 1)) \<longleftrightarrow> main r' \<le> r"
proof -
  have "unat (u64_of (r + 1)) = nat (r + 1)"
    using unat_of_nat_small [of "nat (r + 1)"] assms by (simp add: u64_of_def del: unsigned_of_nat)
  moreover have "unat (u64_of (main r')) = nat (main r')" using assms(1) by (simp add: u64_of_nonneg rev_ok_def)
  ultimately have "PutUint64 (u64_of (main r')) < PutUint64 (u64_of (r + 1)) \<longleftrightarrow> main r' \<le> r"
    using assms be_value_order [of "PutUint64 (u64_of (main r'))" "PutUint64 (u64_of (r + 1))"]
    by (auto simp: rev_ok_def)
  then show ?thesis
    using list_less_append [of "PutUint64 (u64_of (main r'))" "PutUint64 (u64_of (r + 1))" _ "[]"]
    by (simp add: revToBytes_def)
qed

lemma foldM_drop_revision:
  assumes "\<forall>x \<in> set ks. bytesToRev x \<noteq> None"
  shows "\<exists>b'. foldM (drop_revision keep) ks b = Some b' \<and> (\<forall>x. fmlookup b' x =
    (if x \<in> set ks \<and> the (bytesToRev x) |\<notin>| keep then None else fmlookup b x))"
  using assms
proof (induction ks arbitrary: b)
  case (Cons k ks)
  then obtain r where r: "bytesToRev k = Some r" by auto
  then have drop_rev: "drop_revision keep k b = Some (if r |\<in>| keep then b else UnsafeDelete k b)"
    by (simp add: drop_revision_def)
  let ?b = "if r |\<in>| keep then b else UnsafeDelete k b"
  obtain b' where "foldM (drop_revision keep) ks ?b = Some b'" "\<And>x. fmlookup b' x =
      (if x \<in> set ks \<and> the (bytesToRev x) |\<notin>| keep then None else fmlookup ?b x)"
    using Cons.IH [of ?b] Cons.prems by auto
  with r show ?case by (intro exI [of _ b']) (auto simp: drop_rev UnsafeDelete_def)
qed simp

lemma bucket_ok_keys:
  assumes "bucket_ok b" "x \<in> set (fst (UnsafeRange b lst endk lim))" "endk \<noteq> []"
  obtains r m where "x = revToBytes r @ m" "rev_ok r" "int64_ok (sub r + 1)" "lst \<le> x" "x < endk" "bytesToRev x = Some r"
proof -
  have x: "x |\<in>| fmdom b" "lst \<le> x" "x < endk" using UnsafeRange_keys assms(2,3) by blast+
  with assms(1) obtain r m where "x = revToBytes r @ m" "rev_ok r" "int64_ok (sub r + 1)" unfolding bucket_ok_def by blast
  with x that show thesis by simp
qed

lemma compactBatch_spec:
  assumes "store_ok s" "keep_ok r keep (sIndex s)" "- 1 \<le> r" "r < 9223372036854775808"
  obtains s' nxt where "compactBatch r keep lst s = Some (s', nxt)" "store_ok s'" "same_revs s s'"
    "sIndex s' = sIndex s" "view s' = view s" "fmdom (sKey s') |\<subseteq>| fmdom (sKey s)"
    "nxt = (let keys = fst (UnsafeRange (sKey s) lst (PutUint64 (u64_of (r + 1))) (sBatchLimit s)) in
      if int (length keys) < sBatchLimit s then None
      else Some (if keys = [] then revToBytes (Revision 0 1)
        else revToBytes (case the (bytesToRev (last keys)) of Revision m n \<Rightarrow> Revision m (n + 1))))"
    "\<And>x. fmlookup (sKey s') x = (if x \<in> set (fst (UnsafeRange (sKey s) lst (PutUint64 (u64_of (r + 1))) (sBatchLimit s)))
      \<and> the (bytesToRev x) |\<notin>| keep then None else fmlookup (sKey s) x)"
    "sMeta s' = (if nxt = None then UnsafePut finishedCompactKeyName (revToBytes (Revision r 0)) (sMeta s) else sMeta s)"
proof -
  let ?stop = "PutUint64 (u64_of (r + 1))"
  define keys where "keys = fst (UnsafeRange (sKey s) lst ?stop (sBatchLimit s))"
  have bok: "bucket_ok (sKey s)" using store_okD(2) [OF assms(1)] .
  have ne: "?stop \<noteq> []" using length_PutUint64 [of "u64_of (r + 1)"] by fastforce
  have key: "\<exists>r' m. x = revToBytes r' @ m \<and> rev_ok r' \<and> main r' \<le> r \<and> bytesToRev x = Some r'" if "x \<in> set keys" for x
    using bucket_ok_keys [OF bok _ ne, of x lst "sBatchLimit s"] that below_end [OF _ assms(3,4)] unfolding keys_def by metis
  obtain b where b: "foldM (drop_revision keep) keys (sKey s) = Some b"
      "\<And>x. fmlookup b x = (if x \<in> set keys \<and> the (bytesToRev x) |\<notin>| keep then None else fmlookup (sKey s) x)"
    using foldM_drop_revision [of keys keep "sKey s"] key by fastforce
  have dom: "fmdom b |\<subseteq>| fmdom (sKey s)" using b(2) by (auto simp: in_fmdom split: if_splits)
  have live: "fmlookup b (revToBytes r') = fmlookup (sKey s) (revToBytes r')"
    if "(r', Some x) \<in> set (ti_hist (sIndex s) k)" for r' x k
  proof (cases "revToBytes r' \<in> set keys")
    case True
    have ok: "rev_ok r'" using store_okD(3) [OF assms(1) that] by simp
    then have "bytesToRev (revToBytes r') = Some r'" using bytesToRev_revToBytes [of r' "[]"] by simp
    moreover from key [OF True] this have "main r' \<le> r" by auto
    ultimately show ?thesis using keep_okD [OF assms(2) that] b(2) by simp
  qed (simp add: b(2))
  obtain s' nxt where c: "compactBatch r keep lst s = Some (s', nxt)" "sKey s' = b" "sIndex s' = sIndex s" "same_revs s s'"
      "sMeta s' = (if nxt = None then UnsafePut finishedCompactKeyName (revToBytes (Revision r 0)) (sMeta s) else sMeta s)"
      "nxt = (if int (length keys) < sBatchLimit s then None
        else Some (if keys = [] then revToBytes (Revision 0 1)
          else revToBytes (case the (bytesToRev (last keys)) of Revision m n \<Rightarrow> Revision m (n + 1))))"
  proof -
    have "\<exists>r'. bytesToRev (last keys) = Some r'" if "keys \<noteq> []" using key [OF last_in_set [OF that]] by blast
    then have "\<exists>s' nxt. compactBatch r keep lst s = Some (s', nxt) \<and> sKey s' = b \<and> sIndex s' = sIndex s \<and> same_revs s s'
      \<and> sMeta s' = (if nxt = None then UnsafePut finishedCompactKeyName (revToBytes (Revision r 0)) (sMeta s) else sMeta s)
      \<and> nxt = (if int (length keys) < sBatchLimit s then None
        else Some (if keys = [] then revToBytes (Revision 0 1)
          else revToBytes (case the (bytesToRev (last keys)) of Revision m n \<Rightarrow> Revision m (n + 1))))"
      using b(1) unfolding compactBatch_def keys_def
      by (auto simp: Let_def same_revs_def split: prod.splits revision.splits)
    then show thesis using that by blast
  qed
  have "store_ok s'"
    unfolding store_ok_def c(2,3)
  proof (intro conjI allI impI)
    show "bucket_ok b" using bok dom by (auto simp: bucket_ok_def)
    show "\<exists>kv. stored b k r' ci v kv" if "(r', Some (ci, v)) \<in> set (ti_hist (sIndex s) k)" for k r' ci v
      using store_okD(4) [OF assms(1) that] live [OF that] unfolding stored_def by simp
  qed (use store_okD(1,3) [OF assms(1)] in blast)+
  moreover have "view s' = view s"
  proof (intro ext)
    show "view s' t k = view s t k" for t k
    proof (cases "alive_at t (ti_hist (sIndex s) k)")
      case (Some x)
      obtain r' ci v where x: "x = (r', ci, v)" by (cases x)
      then have "fmlookup b (revToBytes r') = fmlookup (sKey s) (revToBytes r')"
        using Some alive_at_in live by metis
      then have "readRev s' r' = readRev s r'" using c(2) by (simp add: readRev_def UnsafeRange_single)
      with Some x c(3) show ?thesis by (simp add: view_def)
    qed (simp add: view_def c(3))
  qed
  ultimately show thesis using c dom b(2) by (intro that [of s' nxt]) (simp_all add: keys_def Let_def)
qed

section \<open>The loop over the batches\<close>

fun scheduleCompaction :: "nat \<Rightarrow> int \<Rightarrow> revision fset \<Rightarrow> bytes \<Rightarrow> store \<Rightarrow> store option" where
  "scheduleCompaction 0 r keep lst s = None"
| "scheduleCompaction (Suc n) r keep lst s =
     (case compactBatch r keep lst s of
        None \<Rightarrow> None
      | Some (s, None) \<Rightarrow> Some s
      | Some (s, Some lst) \<Rightarrow> scheduleCompaction n r keep lst s)"

text \<open>A full batch moves the start of the next one past its keys.\<close>

definition todo :: "bytes \<Rightarrow> store \<Rightarrow> bytes fset" where
  "todo lst s = ffilter (\<lambda>k. lst \<le> k) (fmdom (sKey s))"

lemma last_greatest: "sorted_wrt (<) (xs :: 'a::linorder list) \<Longrightarrow> x \<in> set xs \<Longrightarrow> x \<le> last xs"
  by (induction xs rule: rev_induct) (auto simp: sorted_wrt_append)

lemma scheduleCompaction_total:
  assumes "store_ok s" "keep_ok r keep (sIndex s)" "- 1 \<le> r" "r < 9223372036854775808" "0 < sBatchLimit s"
    and "fcard (todo lst s) < n"
  shows "\<exists>s'. scheduleCompaction n r keep lst s = Some s' \<and> store_ok s' \<and> same_revs s s' \<and> sIndex s' = sIndex s \<and> view s' = view s"
  using assms
proof (induction n arbitrary: lst s)
  case (Suc n)
  let ?stop = "PutUint64 (u64_of (r + 1))"
  define keys where "keys = fst (UnsafeRange (sKey s) lst ?stop (sBatchLimit s))"
  obtain s' nxt where c: "compactBatch r keep lst s = Some (s', nxt)" "store_ok s'" "same_revs s s'"
    "sIndex s' = sIndex s" "view s' = view s" "fmdom (sKey s') |\<subseteq>| fmdom (sKey s)"
    "nxt = (if int (length keys) < sBatchLimit s then None
      else Some (if keys = [] then revToBytes (Revision 0 1)
        else revToBytes (case the (bytesToRev (last keys)) of Revision m n \<Rightarrow> Revision m (n + 1))))"
    by (rule compactBatch_spec [OF Suc.prems(1-4), of lst]) (simp add: keys_def Let_def)
  show ?case
  proof (cases "int (length keys) < sBatchLimit s")
    case True
    with c show ?thesis by simp
  next
    case False
    then have ne: "keys \<noteq> []" using Suc.prems(5) by auto
    have ne': "?stop \<noteq> []" using length_PutUint64 [of "u64_of (r + 1)"] by fastforce
    obtain r' m where k: "last keys = revToBytes r' @ m" "rev_ok r'" "int64_ok (sub r' + 1)" "lst \<le> last keys"
        "bytesToRev (last keys) = Some r'"
      using bucket_ok_keys [OF store_okD(2) [OF Suc.prems(1)] _ ne', of "last keys" lst] last_in_set [OF ne]
      unfolding keys_def by metis
    let ?r = "Revision (main r') (sub r' + 1)"
    have nxt: "nxt = Some (revToBytes ?r)" using False ne k(5) c(7) by (cases r') simp
    have "rev_ok ?r" "r' < ?r" using k(2,3) by (simp_all add: rev_ok_def revision_less)
    then have less: "last keys < revToBytes ?r" using revToBytes_order(2) [OF k(2), of ?r m "[]"] k(1) by simp
    have "last keys |\<in>| todo lst s" "last keys |\<notin>| todo (revToBytes ?r) s'"
      using last_in_set [OF ne] UnsafeRange_keys [of "sKey s" lst ?stop "sBatchLimit s"] k(4) less
      by (auto simp: todo_def keys_def)
    moreover have "todo (revToBytes ?r) s' |\<subseteq>| todo lst s"
      using c(6) less k(4) by (auto simp: todo_def intro: order.trans less_imp_le)
    ultimately have "todo (revToBytes ?r) s' |\<subset>| todo lst s" by blast
    from pfsubset_fcard_mono [OF this] have "fcard (todo (revToBytes ?r) s') < n" using Suc.prems(6) by linarith
    moreover have "keep_ok r keep (sIndex s')" "0 < sBatchLimit s'" using Suc.prems(2,5) c(3,4) by (simp_all add: same_revs_def)
    ultimately obtain s'' where "scheduleCompaction n r keep (revToBytes ?r) s' = Some s''" "store_ok s''"
        "same_revs s' s''" "sIndex s'' = sIndex s'" "view s'' = view s'"
      using Suc.IH [OF c(2) _ Suc.prems(3,4)] by blast
    moreover from this have "same_revs s s''" using same_revs_trans [OF c(3)] by blast
    ultimately show ?thesis using c(1,4,5) nxt by simp
  qed
qed simp

end
