(* ===== verification/StoreRun.thy ===== *)
theory StoreRun
  imports StoreCompact
begin

text \<open>
  The store at work: transactions and compaction jobs in every order that the locks of the store
  allow. The transactions that were committed, as lists of operations, are the specification: replayed
  on a plain map they give the map the store shows at every revision from the last compaction on.
\<close>

section \<open>The specification\<close>

type_synonym kvmap = "bytes \<Rightarrow> KeyValue option"

datatype kvop = OpPut bytes bytes LeaseID | OpDelete bytes "bytes option"

fun apply_op :: "int \<Rightarrow> kvop \<Rightarrow> kvmap \<Rightarrow> kvmap" where
  "apply_op r (OpPut key val i) m = m(key := Some (put_kv r key val i (m key)))"
| "apply_op r (OpDelete key endk) m = (\<lambda>k. if in_range key endk k then None else m k)"

text \<open>The transactions of a history, the first of them at revision r.\<close>

fun replay :: "int \<Rightarrow> kvop list list \<Rightarrow> kvmap \<Rightarrow> kvmap" where
  "replay r [] m = m"
| "replay r (ops # H) m = replay (r + 1) H (fold (apply_op r) ops m)"

text \<open>The store starts at revision 1, so the first transaction is the one of revision 2.\<close>

definition state_at :: "kvop list list \<Rightarrow> int \<Rightarrow> kvmap" where
  "state_at H t = replay 2 (take (nat (t - 1)) H) (\<lambda>k. None)"

lemma replay_append: "replay r (H @ H') m = replay (r + int (length H)) H' (replay r H m)"
  by (induction H arbitrary: r m) (simp_all add: algebra_simps)

lemma state_at_snoc:
  "state_at (H @ [ops]) t = (if t \<le> int (length H) + 1 then state_at H t
     else fold (apply_op (int (length H) + 2)) ops (state_at H (int (length H) + 1)))"
proof (cases "t \<le> int (length H) + 1")
  case False
  then have "take (nat (t - 1)) (H @ [ops]) = H @ [ops]" by simp
  with False show ?thesis by (simp add: state_at_def replay_append add.commute)
qed (simp add: state_at_def)

section \<open>The system\<close>

fun run_op :: "kvop \<Rightarrow> storeTxnWrite \<Rightarrow> storeTxnWrite option" where
  "run_op (OpPut key val i) tw = map_option fst (tw_Put key val i tw)"
| "run_op (OpDelete key endk) tw = map_option fst (tw_DeleteRange key endk tw)"

text \<open>The record, the revision and the number of changes stay within 64 bits.\<close>

fun op_fits :: "kvop \<Rightarrow> storeTxnWrite \<Rightarrow> bool" where
  "op_fits (OpPut key val i) tw \<longleftrightarrow> kv_ok (put_kv (twBeginRev tw + 1) key val i (now tw key))
     \<and> rev_ok (Revision (twBeginRev tw + 1) (int (length (twChanges tw)) + 1))"
| "op_fits (OpDelete key endk) tw \<longleftrightarrow> rev_ok (Revision (twBeginRev tw + 1)
     (int (length (twChanges tw) + length (present (twStore tw) (twBeginRev tw + 1) key endk))))"

datatype phase = Idle store | Open storeTxnWrite

fun txn :: "phase \<Rightarrow> storeTxnWrite" where
  "txn (Idle s) = store_Write s"
| "txn (Open tw) = tw"

abbreviation the_store :: "phase \<Rightarrow> store" where
  "the_store ph \<equiv> twStore (txn ph)"

fun set_store :: "store \<Rightarrow> phase \<Rightarrow> phase" where
  "set_store s (Idle s0) = Idle s"
| "set_store s (Open tw) = Open (tw\<lparr>twStore := s\<rparr>)"

text \<open>A compaction waits in the scheduler's queue or sweeps the backend, from a key on.\<close>

datatype job = Queued int | Sweeping int "revision fset" bytes

text \<open>
  The committed transactions, the operations of the open one, the store and the jobs. A compaction
  request and a batch need locks that a write transaction holds, the step of a job on the index and
  the lessor do not.
\<close>

inductive kv_run :: "kvop list list \<Rightarrow> kvop list \<Rightarrow> phase \<Rightarrow> job list \<Rightarrow> bool" where
  kv_new: "kv_run [] [] (Idle (NewStore le lim)) []"
| kv_begin: "kv_run H ops (Idle s) js \<Longrightarrow> kv_run H [] (Open (store_Write s)) js"
| kv_op: "kv_run H ops (Open tw) js \<Longrightarrow> op_fits op tw \<Longrightarrow> run_op op tw = Some tw' \<Longrightarrow> kv_run H (ops @ [op]) (Open tw') js"
| kv_end: "kv_run H ops (Open tw) js \<Longrightarrow> kv_run (if twChanges tw \<noteq> [] then H @ [ops] else H) [] (Idle (tw_End tw)) js"
| kv_lessor: "kv_run H ops ph js \<Longrightarrow> kv_run H ops (set_store ((the_store ph)\<lparr>sLessor := le\<rparr>) ph) js"
| kv_compact: "kv_run H ops (Idle s) js \<Longrightarrow> updateCompactRev r s = (s', None) \<Longrightarrow> kv_run H ops (Idle s') (js @ [Queued r])"
| kv_index: "kv_run H ops ph (Queued r # js) \<Longrightarrow> compactIndex r (the_store ph) = Some (s', keep) \<Longrightarrow>
    kv_run H ops (set_store s' ph) (Sweeping r keep (replicate 17 0) # js)"
| kv_batch: "kv_run H ops (Idle s) (Sweeping r keep lst # js) \<Longrightarrow> compactBatch r keep lst s = Some (s', Some lst') \<Longrightarrow>
    kv_run H ops (Idle s') (Sweeping r keep lst' # js)"
| kv_done: "kv_run H ops (Idle s) (Sweeping r keep lst # js) \<Longrightarrow> compactBatch r keep lst s = Some (s', None) \<Longrightarrow>
    kv_run H ops (Idle s') js"

section \<open>The invariant\<close>

fun job_ok :: "store \<Rightarrow> job \<Rightarrow> bool" where
  "job_ok s (Queued r) \<longleftrightarrow> - 1 \<le> r \<and> r \<le> sCompactMainRev s"
| "job_ok s (Sweeping r keep lst) \<longleftrightarrow> - 1 \<le> r \<and> r \<le> sCompactMainRev s \<and> keep_ok r keep (sIndex s)"

definition kv_inv :: "kvop list list \<Rightarrow> kvop list \<Rightarrow> phase \<Rightarrow> job list \<Rightarrow> bool" where
  "kv_inv H ops ph js \<longleftrightarrow> tw_ok (txn ph) \<and> int64_ok (twBeginRev (txn ph)) \<and> twBeginRev (txn ph) = 1 + int (length H)
     \<and> - 1 \<le> sCompactMainRev (the_store ph) \<and> sCompactMainRev (the_store ph) \<le> twBeginRev (txn ph)
     \<and> (\<forall>t. sCompactMainRev (the_store ph) \<le> t \<longrightarrow> t \<le> twBeginRev (txn ph) \<longrightarrow> view (the_store ph) t = state_at H t)
     \<and> now (txn ph) = fold (apply_op (twBeginRev (txn ph) + 1)) ops (state_at H (twBeginRev (txn ph)))
     \<and> (\<forall>s. ph = Idle s \<longrightarrow> ops = [])
     \<and> (twChanges (txn ph) \<noteq> [] \<longrightarrow> int64_ok (twBeginRev (txn ph) + 1))
     \<and> (\<forall>j \<in> set js. job_ok (the_store ph) j) \<and> (\<forall>j \<in> set (tl js). \<exists>r. j = Queued r)"

lemma length_present:
  fixes key :: bytes and endk :: "bytes option"
  assumes "tw_ok tw"
  shows "length (present (twStore tw) (twBeginRev tw + 1) key endk) = card {k. in_range key endk k \<and> now tw k \<noteq> None}"
  using distinct_card [of "present (twStore tw) (twBeginRev tw + 1) key endk"]
    present_sorted [of "twStore tw" "twBeginRev tw + 1" key endk] present_set [of "twStore tw" "twBeginRev tw + 1" key endk] assms
  by (simp add: strict_sorted_iff tw_ok_def now_def)

lemma run_op_spec:
  assumes "tw_ok tw" "op_fits op tw" "run_op op tw = Some tw'"
  shows "extends tw tw'" "now tw' = apply_op (twBeginRev tw + 1) op (now tw)"
    "twChanges tw' \<noteq> twChanges tw \<Longrightarrow> int64_ok (twBeginRev tw + 1)"
proof -
  have "extends tw tw' \<and> now tw' = apply_op (twBeginRev tw + 1) op (now tw) \<and> int64_ok (twBeginRev tw + 1)"
  proof (cases op)
    case (OpPut key val i)
    then have "tw_put key val i tw = Some tw'" using assms(3) by (auto simp: tw_Put_def)
    from tw_put_spec [OF assms(1) this] OpPut assms(2) show ?thesis by (auto simp: rev_ok_def)
  next
    case (OpDelete key endk)
    then obtain n where "tw_deleteRange key endk tw = Some (tw', n)"
      using assms(3) by (auto simp: tw_DeleteRange_def split: Option.bind_splits prod.splits if_splits)
    from tw_deleteRange_spec [OF assms(1) this] OpDelete assms(2) length_present [OF assms(1)]
    show ?thesis by (auto simp: rev_ok_def)
  qed
  then show "extends tw tw'" "now tw' = apply_op (twBeginRev tw + 1) op (now tw)"
    "twChanges tw' \<noteq> twChanges tw \<Longrightarrow> int64_ok (twBeginRev tw + 1)" by blast+
qed

lemma txn_set_store:
  "the_store (set_store s ph) = s"
  "same_revs (the_store ph) s \<Longrightarrow> twBeginRev (txn (set_store s ph)) = twBeginRev (txn ph)"
  "twChanges (txn (set_store s ph)) = twChanges (txn ph)"
  by (cases ph; simp add: store_Write_def same_revs_def)+

lemma kv_invD:
  assumes "kv_inv H ops ph js"
  shows "tw_ok (txn ph)" "int64_ok (twBeginRev (txn ph))" "twBeginRev (txn ph) = 1 + int (length H)"
    "- 1 \<le> sCompactMainRev (the_store ph)" "sCompactMainRev (the_store ph) \<le> twBeginRev (txn ph)"
    "sCompactMainRev (the_store ph) \<le> t \<Longrightarrow> t \<le> twBeginRev (txn ph) \<Longrightarrow> view (the_store ph) t = state_at H t"
    "now (txn ph) = fold (apply_op (twBeginRev (txn ph) + 1)) ops (state_at H (twBeginRev (txn ph)))"
    "ph = Idle s \<Longrightarrow> ops = []" "twChanges (txn ph) \<noteq> [] \<Longrightarrow> int64_ok (twBeginRev (txn ph) + 1)"
    "\<forall>j \<in> set js. job_ok (the_store ph) j" "\<forall>j \<in> set (tl js). \<exists>r. j = Queued r"
  using assms unfolding kv_inv_def by blast+

text \<open>Steps that leave the current maps alone: the lessor's and those of a compaction job.\<close>

lemma kv_inv_store:
  assumes "kv_inv H ops ph js" "store_ok s'" "same_revs (the_store ph) s'"
    and "\<And>r. ti_before r (sIndex (the_store ph)) \<Longrightarrow> ti_before r (sIndex s')"
    and "\<And>t. sCompactMainRev (the_store ph) \<le> t \<Longrightarrow> view s' t = view (the_store ph) t"
    and "\<forall>j \<in> set js'. job_ok s' j" "\<forall>j \<in> set (tl js'). \<exists>r. j = Queued r"
  shows "kv_inv H ops (set_store s' ph) js'"
proof -
  note inv = kv_invD [OF assms(1)] and eq = txn_set_store(1,3) txn_set_store(2) [OF assms(3)]
  have "now (txn (set_store s' ph)) = now (txn ph)"
    using assms(5) [of "twBeginRev (txn ph) + 1"] inv(5) by (simp add: now_def eq)
  moreover have "tw_ok (txn (set_store s' ph))"
    using inv(1) assms(2,3) assms(4) [of "Revision (twBeginRev (txn ph) + 1) (int (length (twChanges (txn ph))))"]
    unfolding tw_ok_def eq same_revs_def by metis
  moreover have "\<forall>s. set_store s' ph = Idle s \<longrightarrow> ops = []" using inv(8) by (cases ph) auto
  ultimately show ?thesis
    using inv assms(3,5,6,7) by (simp add: kv_inv_def eq same_revs_def)
qed

lemma kv_inv_op:
  assumes "kv_inv H ops (Open tw) js" "op_fits op tw" "run_op op tw = Some tw'"
  shows "kv_inv H (ops @ [op]) (Open tw') js"
proof -
  note inv = kv_invD [OF assms(1), simplified]
  note op = run_op_spec [OF inv(1) assms(2,3)]
  have ex: "tw_ok tw'" "twBeginRev tw' = twBeginRev tw" "same_revs (twStore tw) (twStore tw')"
      "\<And>t. t \<le> twBeginRev tw \<Longrightarrow> view (twStore tw') t = view (twStore tw) t"
      "\<And>k e. e \<in> set (ti_hist (sIndex (twStore tw')) k) \<Longrightarrow>
        e \<in> set (ti_hist (sIndex (twStore tw)) k) \<or> main (fst e) = twBeginRev tw + 1"
    using op(1) unfolding extends_def by blast+
  have "job_ok (twStore tw') j" if "j \<in> set js" for j
  proof -
    have j: "job_ok (twStore tw) j" using inv(10) that by blast
    show ?thesis
    proof (cases j)
      case (Queued r)
      with j ex(3) show ?thesis by (simp add: same_revs_def)
    next
      case (Sweeping r keep lst)
      have "e \<in> set (ti_hist (sIndex (twStore tw)) k)"
        if "e \<in> set (ti_hist (sIndex (twStore tw')) k)" "main (fst e) \<le> r" for k e
        using ex(5) [OF that(1)] that(2) j inv(5) Sweeping by auto
      with j have "keep_ok r keep (sIndex (twStore tw'))" unfolding Sweeping job_ok.simps keep_ok_def by blast
      with j Sweeping ex(3) show ?thesis by (simp add: same_revs_def)
    qed
  qed
  moreover have "twChanges tw' \<noteq> [] \<longrightarrow> int64_ok (twBeginRev tw' + 1)"
    using op(3) inv(9) ex(2) by (cases "twChanges tw' = twChanges tw") auto
  moreover have "now tw' = fold (apply_op (twBeginRev tw' + 1)) (ops @ [op]) (state_at H (twBeginRev tw'))"
    using op(2) inv(7) ex(2) by simp
  ultimately show ?thesis
    using inv ex unfolding kv_inv_def by (simp add: same_revs_def)
qed

lemma kv_inv_end:
  assumes "kv_inv H ops (Open tw) js"
  shows "kv_inv (if twChanges tw \<noteq> [] then H @ [ops] else H) [] (Idle (tw_End tw)) js"
proof (cases "twChanges tw = []")
  case True
  note inv = kv_invD [OF assms, simplified] and ok = tw_okD [of tw]
  have cur: "sCurrentRev (twStore tw) = twBeginRev tw" using inv(1) by (simp add: tw_ok_def)
  have "tw = store_Write (twStore tw)" using True cur by (cases tw) (simp add: store_Write_def)
  then have "now (store_Write (twStore tw)) = now tw" "tw_ok (store_Write (twStore tw))"
    using inv(1) by simp_all
  moreover have "now tw = state_at H (twBeginRev tw)"
    using ok(5) [OF inv(1) True] inv(5,6) by simp
  ultimately show ?thesis
    using inv True cur unfolding kv_inv_def by (simp add: store_Write_def tw_End_def)
next
  case False
  note inv = kv_invD [OF assms, simplified]
  let ?s = "tw_End tw" and ?r = "twBeginRev tw + 1" and ?H = "H @ [ops]"
  have s: "?s = (twStore tw)\<lparr>sCurrentRev := ?r\<rparr>" using False inv(1) by (simp add: tw_End_def tw_ok_def)
  have v: "view ?s = view (twStore tw)" and ok: "store_ok ?s"
    using view_cong [of ?s "twStore tw"] store_ok_cong [of ?s "twStore tw"] inv(1) by (simp_all add: s tw_ok_def)
  have cur: "view ?s t = now tw" if "?r \<le> t" for t using tw_okD(6) [OF inv(1) that] v by simp
  have H: "state_at ?H t = (if t \<le> twBeginRev tw then state_at H t else now tw)" for t
    using inv(3,7) by (simp add: state_at_snoc algebra_simps)
  have b: "ti_before (Revision (?r + 1) 0) (sIndex (twStore tw))"
    using tw_okD(3) [OF inv(1)] by (rule ti_before_mono) (simp add: less_eq_revision_def revision_less)
  have "tw_ok (store_Write ?s)" using inv(1) ok b by (simp add: tw_ok_def store_Write_def s)
  moreover have "job_ok ?s j" if "job_ok (twStore tw) j" for j using that by (cases j) (simp_all add: s)
  moreover have "now (store_Write ?s) = state_at ?H ?r"
    using cur H by (simp add: now_def store_Write_def s)
  moreover have "view ?s t = state_at ?H t" if "sCompactMainRev (twStore tw) \<le> t" "t \<le> ?r" for t
    using that inv(6) [of t] v cur [of t] H [of t] by (cases "t \<le> twBeginRev tw") auto
  ultimately show ?thesis
    using inv False unfolding kv_inv_def by (simp add: store_Write_def s)
qed

lemma kv_inv_compact:
  assumes "kv_inv H ops (Idle s) js" "updateCompactRev r s = (s', None)"
  shows "kv_inv H ops (Idle s') (js @ [Queued r])"
proof -
  note inv = kv_invD [OF assms(1), simplified]
  have s: "sIndex s' = sIndex s" "sKey s' = sKey s" "sCurrentRev s' = sCurrentRev s" "sCompactMainRev s' = r"
      "sCompactMainRev s < r" "r \<le> sCurrentRev s"
    using assms(2) by (auto simp: updateCompactRev_def split: if_splits)
  have v: "view s' = view s" "store_ok s' = store_ok s" using view_cong store_ok_cong s(1,2) by blast+
  have "job_ok s' j" if "job_ok s j" for j using that s by (cases j) auto
  moreover have "job_ok s' (Queued r)" using s inv(4) by (simp add: store_Write_def)
  moreover have "\<forall>j \<in> set (tl (js @ [Queued r])). \<exists>r. j = Queued r" using inv(11) by (cases js) auto
  ultimately show ?thesis
    using inv s v unfolding kv_inv_def by (auto simp: store_Write_def tw_ok_def now_def)
qed

lemma kv_inv_batch:
  assumes "kv_inv H ops (Idle s) (Sweeping r keep lst # js)" "compactBatch r keep lst s = Some (s', nxt)"
  shows "kv_inv H ops (Idle s') ((case nxt of None \<Rightarrow> [] | Some lst' \<Rightarrow> [Sweeping r keep lst']) @ js)"
proof -
  note inv = kv_invD [OF assms(1), simplified]
  have ok: "store_ok s" "keep_ok r keep (sIndex s)" "- 1 \<le> r" "r < 9223372036854775808"
    using inv(1,2,5,10) by (simp_all add: tw_ok_def store_Write_def int64_ok_def)
  obtain s1 where c: "s' = s1" "store_ok s1" "same_revs s s1" "sIndex s1 = sIndex s" "view s1 = view s"
    using compactBatch_spec [OF ok, of lst] assms(2) by (metis option.inject prod.inject)
  have j: "job_ok s' j" if "job_ok s j" for j using that c by (cases j) (simp_all add: same_revs_def)
  have tl: "set (tl js) \<subseteq> set js" by (cases js) auto
  have "kv_inv H ops (set_store s' (Idle s)) ((case nxt of None \<Rightarrow> [] | Some lst' \<Rightarrow> [Sweeping r keep lst']) @ js)"
    by (rule kv_inv_store [OF assms(1)])
      (use c j inv(10,11) tl in \<open>auto simp: store_Write_def same_revs_def split: option.splits\<close>)
  then show ?thesis by simp
qed

lemma kv_run_inv: "kv_run H ops ph js \<Longrightarrow> kv_inv H ops ph js"
proof (induction rule: kv_run.induct)
  case (kv_new le lim)
  have "view (NewStore le lim) t k = None" for t k
    by (simp add: view_def NewStore_def)
  moreover have "store_ok (NewStore le lim)" by (simp add: store_ok_def NewStore_def bucket_ok_def)
  ultimately show ?case
    by (auto simp: kv_inv_def store_Write_def NewStore_def tw_ok_def now_def state_at_def int64_ok_def fun_eq_iff)
next
  case (kv_begin H ops s js)
  then have "ops = []" by (simp add: kv_inv_def)
  from kv_begin(2) show ?case unfolding \<open>ops = []\<close> kv_inv_def txn.simps by blast
next
  case (kv_lessor H ops ph js le)
  let ?s = "(the_store ph)\<lparr>sLessor := le\<rparr>"
  have v: "view ?s = view (the_store ph)" "store_ok ?s = store_ok (the_store ph)"
    using view_cong [of ?s "the_store ph"] store_ok_cong [of ?s "the_store ph"] by simp_all
  note inv = kv_invD [OF kv_lessor(2)]
  have "job_ok ?s j" if "job_ok (the_store ph) j" for j using that by (cases j) simp_all
  with inv(1,10,11) v show ?case
    by (intro kv_inv_store [OF kv_lessor(2)]) (simp_all add: same_revs_def tw_ok_def)
next
  case (kv_index H ops ph r js s' keep)
  note inv = kv_invD [OF kv_index(3)]
  obtain s1 keep1 where c: "compactIndex r (the_store ph) = Some (s1, keep1)" "store_ok s1" "keep_ok r keep1 (sIndex s1)"
    "same_revs (the_store ph) s1" "\<And>r'. ti_before r' (sIndex (the_store ph)) \<Longrightarrow> ti_before r' (sIndex s1)"
    "\<And>t. r \<le> t \<Longrightarrow> view s1 t = view (the_store ph) t"
    using compactIndex_spec [of "the_store ph" r] inv(1) unfolding tw_ok_def by metis
  then have e: "s' = s1" "keep = keep1" using kv_index(2) by simp_all
  have r: "- 1 \<le> r" "r \<le> sCompactMainRev (the_store ph)" using inv(10) by auto
  have "job_ok s' j" if "j \<in> set js" for j
    using inv(10,11) that c(4) by (fastforce simp: e same_revs_def)
  then show ?case
    using c(2-5) e r inv(11) by (intro kv_inv_store [OF kv_index(3)]) (auto simp: c(6) same_revs_def)
next
  case (kv_batch H ops s r keep lst js s' lst')
  then show ?case using kv_inv_batch [of H ops s r keep lst js s' "Some lst'"] by simp
next
  case (kv_done H ops s r keep lst js s')
  then show ?case using kv_inv_batch [of H ops s r keep lst js s' None] by simp
qed (rule kv_inv_op kv_inv_end kv_inv_compact, assumption+)+

end
