(* ===== verification/Restore.thy ===== *)
theory Restore
  imports Store
begin

text \<open>
  mvcc/kvstore.go: building a store from a backend, after a restart (NewStore) or when a snapshot has
  replaced the backend (Restore). The records are read in chunks and sent through a channel to a
  goroutine that fills the index; they arrive in order, so each record is handled at once here. The
  goroutine's cache of index entries holds pointers to entries of the tree and is the tree itself here.
\<close>

definition restoreChunkKeys :: int where
  "restoreChunkKeys = 10000"

definition maxInt64 :: int where
  "maxInt64 = 9223372036854775807"

text \<open>The index under construction, the revision reached, and the leases of the keys.\<close>

record restoring =
  rsIndex :: treeIndex
  rsCurrentRev :: int
  rsKeyToLease :: "(bytes, LeaseID) fmap"

definition restoreIntoIndex :: "bytes \<Rightarrow> KeyValue \<Rightarrow> restoring \<Rightarrow> restoring option" where
  "restoreIntoIndex key kv st =
     do {
       r \<leftarrow> bytesToRev key;
       let st = st\<lparr>rsCurrentRev := main r\<rparr>;
       (case ti_KeyIndex (kvKey kv) (rsIndex st) of
          Some ki \<Rightarrow>
            if isTombstone key then do {
              (_, ki) \<leftarrow> ki_tombstone r ki;
              Some (st\<lparr>rsIndex := fmupd (kvKey kv) ki (rsIndex st)\<rparr>)
            } else do {
              ki \<leftarrow> ki_put r ki;
              Some (st\<lparr>rsIndex := fmupd (kvKey kv) ki (rsIndex st)\<rparr>)
            }
        | None \<Rightarrow>
            if isTombstone key then Some st
            else do {
              ki \<leftarrow> ki_restore (Revision (kvCreateRevision kv) 0) r (kvVersion kv) (newKeyIndex (kvKey kv));
              Some (st\<lparr>rsIndex := ti_Insert ki (rsIndex st)\<rparr>)
            })
     }"

definition restoreKey :: "bytes \<times> bytes \<Rightarrow> restoring \<Rightarrow> restoring option" where
  "restoreKey kd st =
     do {
       kv \<leftarrow> (case KeyValue_Unmarshal (snd kd) zeroKeyValue of Some (Inr kv) \<Rightarrow> Some kv | _ \<Rightarrow> None);
       let leases = rsKeyToLease st;
       let leases = (if isTombstone (fst kd) then fmdrop (kvKey kv) leases
         else if kvLease kv \<noteq> NoLease then fmupd (kvKey kv) (kvLease kv) leases
         else fmdrop (kvKey kv) leases);
       restoreIntoIndex (fst kd) kv (st\<lparr>rsKeyToLease := leases\<rparr>)
     }"

definition restoreChunk :: "bytes list \<Rightarrow> bytes list \<Rightarrow> restoring \<Rightarrow> restoring option" where
  "restoreChunk keys vals st = foldM restoreKey (zip keys vals) st"

fun restoreLoop :: "nat \<Rightarrow> int \<Rightarrow> bytes \<Rightarrow> bytes \<Rightarrow> bucket \<Rightarrow> restoring \<Rightarrow> restoring option" where
  "restoreLoop 0 chunk lo hi b st = None"
| "restoreLoop (Suc n) chunk lo hi b st =
     (let (keys, vals) = UnsafeRange b lo hi chunk in
      if keys = [] then Some st
      else do {
        st \<leftarrow> restoreChunk keys vals st;
        if int (length keys) < chunk then Some st
        else do {
          r \<leftarrow> bytesToRev (take revBytesLen (last keys));
          restoreLoop n chunk (revToBytes (Revision (main r) (sub r + 1))) hi b st
        }
      })"

text \<open>The leases are attached in the order of a map; an error is only logged.\<close>

definition attachAll :: "(bytes, LeaseID) fmap \<Rightarrow> store \<Rightarrow> store option" where
  "attachAll leases s =
     foldM (\<lambda>key s. do {
         le \<leftarrow> sLessor s;
         i \<leftarrow> fmlookup leases key;
         Some (s\<lparr>sLessor := Some (snd (Attach i [key] le))\<rparr>)
       }) (sorted_list_of_fset (fmdom leases)) s"

text \<open>The revision stored under a name in the meta bucket, and what its absence stands for.\<close>

definition metaRev :: "bytes \<Rightarrow> int \<Rightarrow> store \<Rightarrow> int option" where
  "metaRev name d s =
     (case snd (UnsafeRange (sMeta s) name [] 0) of [] \<Rightarrow> Some d | v # _ \<Rightarrow> map_option main (bytesToRev v))"

text \<open>The result has the compaction that is scheduled, if one is.\<close>

definition store_restore :: "store \<Rightarrow> (store \<times> int option) option" where
  "store_restore s =
     do {
       compactMainRev \<leftarrow> metaRev finishedCompactKeyName (sCompactMainRev s) s;
       scheduledCompact \<leftarrow> metaRev scheduledCompactKeyName 0 s;
       st \<leftarrow> restoreLoop (fcard (fmdom (sKey s)) + 1) restoreChunkKeys (revToBytes (Revision 1 0))
         (revToBytes (Revision maxInt64 maxInt64)) (sKey s)
         \<lparr>rsIndex = sIndex s, rsCurrentRev = 1, rsKeyToLease = fmempty\<rparr>;
       let currentRev = (if rsCurrentRev st < compactMainRev then compactMainRev else rsCurrentRev st);
       let scheduledCompact = (if scheduledCompact \<le> compactMainRev then 0 else scheduledCompact);
       s \<leftarrow> attachAll (rsKeyToLease st) (s\<lparr>sIndex := rsIndex st, sCompactMainRev := compactMainRev, sCurrentRev := currentRev\<rparr>);
       if scheduledCompact \<noteq> 0 then
         (case updateCompactRev scheduledCompact s of
            (s, None) \<Rightarrow> Some (s, Some scheduledCompact)
          | (s, Some _) \<Rightarrow> Some (s, None))
       else Some (s, None)
     }"

text \<open>NewStore on a backend with content, and Restore of a running store.\<close>

definition openStore :: "bucket \<Rightarrow> bucket \<Rightarrow> lessor option \<Rightarrow> int \<Rightarrow> (store \<times> int option) option" where
  "openStore keys meta le lim = store_restore ((NewStore le lim)\<lparr>sKey := keys, sMeta := meta\<rparr>)"

definition store_Restore :: "bucket \<Rightarrow> bucket \<Rightarrow> store \<Rightarrow> (store \<times> int option) option" where
  "store_Restore keys meta s =
     store_restore (s\<lparr>sKey := keys, sMeta := meta, sIndex := newTreeIndex, sCurrentRev := 1, sCompactMainRev := - 1\<rparr>)"

end
