(* ===== verification/StoreExact.thy ===== *)
theory StoreExact
  imports StoreRun Restore
begin

text \<open>
  The records of the backend against the events of the index: every event has its record, and every
  other record is one that the compaction job at work has still to sweep. This is what rebuilding the
  index from the records rests on.
\<close>

section \<open>Chains of events\<close>

definition follows :: "revision \<times> (revision \<times> int) option \<Rightarrow> revision \<times> (revision \<times> int) option \<Rightarrow> bool" where
  "follows e e' \<longleftrightarrow> (if snd e' = None then snd e \<noteq> None
     else snd e' = Some (case snd e of Some (c, v) \<Rightarrow> (c, v + 1) | None \<Rightarrow> (fst e', 1)))"

definition chain :: "hist \<Rightarrow> bool" where
  "chain h \<longleftrightarrow> successively follows h \<and> (h \<noteq> [] \<longrightarrow> snd (hd h) \<noteq> None)"

lemma chain_Nil [simp]: "chain []"
  by (simp add: chain_def)

lemma next_event_follows: "h \<noteq> [] \<Longrightarrow> next_event r x h \<longleftrightarrow> follows (last h) (r, x)"
  by (auto simp: next_event_def follows_def hist_alive_def hist_put_def split: option.splits)

lemma chain_snoc: "chain h \<Longrightarrow> next_event r x h \<Longrightarrow> chain (h @ [(r, x)])"
proof (cases "h = []")
  case False
  assume "chain h" "next_event r x h"
  with False show ?thesis by (simp add: chain_def next_event_follows successively_append_iff)
qed (auto simp: chain_def next_event_def hist_alive_def split: if_splits)

lemma chain_next: "chain (h @ (r, x) # h') \<Longrightarrow> h \<noteq> [] \<Longrightarrow> next_event r x h"
  by (simp add: chain_def successively_append_iff next_event_follows)

lemma chain_first: "chain ((r, x) # h) \<Longrightarrow> x \<noteq> None"
  by (simp add: chain_def)

lemma last_at_split:
  "last_at t h = Some e \<Longrightarrow> \<exists>h0 h'. h = h0 @ e # h' \<and> main (fst e) \<le> t \<and> (\<forall>x \<in> set h'. t < main (fst x))"
proof (induction h rule: rev_induct)
  case (snoc x h)
  show ?case
  proof (cases "main (fst x) \<le> t")
    case True
    with snoc.prems show ?thesis by (intro exI [of _ h] exI [of _ "[]"]) simp
  next
    case False
    with snoc obtain h0 h' where "h = h0 @ e # h'" "main (fst e) \<le> t" "\<forall>x \<in> set h'. t < main (fst x)" by auto
    with False show ?thesis by (intro exI [of _ h0] exI [of _ "h' @ [x]"]) auto
  qed
qed simp

lemma chain_suffix: "chain (h0 @ e # h') \<Longrightarrow> snd e \<noteq> None \<Longrightarrow> chain (e # h')"
  by (auto simp: chain_def successively_append_iff)

lemma chain_after_tombstone: "chain (h0 @ e # h') \<Longrightarrow> snd e = None \<Longrightarrow> chain h'"
  by (cases h') (auto simp: chain_def successively_append_iff follows_def split: if_splits)

lemma chain_compact:
  assumes "chain h" "hist_ok h"
  shows "chain (hist_compact t h)"
proof (cases "last_at t h")
  case None
  then have "filter (\<lambda>e. t < main (fst e)) h = h" by (simp add: last_at_none filter_id_conv)
  with assms(1) None show ?thesis by (simp add: hist_compact_def)
next
  case (Some e)
  then obtain h0 h' where h: "h = h0 @ e # h'" "main (fst e) \<le> t" "\<forall>x \<in> set h'. t < main (fst x)"
    using last_at_split by blast
  then have "filter (\<lambda>e. t < main (fst e)) h = h'" using hist_ok_filter(1) [of h0 e h' t] assms(2) by simp
  then have "hist_compact t h = (if snd e = None then h' else e # h')"
    using Some by (cases e; cases "snd e") (simp_all add: hist_compact_def)
  with assms(1) h(1) chain_suffix chain_after_tombstone show ?thesis by (simp split: if_splits)
qed

section \<open>The invariant\<close>

definition events_ok :: "store \<Rightarrow> bool" where
  "events_ok s \<longleftrightarrow> (\<forall>k. chain (ti_hist (sIndex s) k))
     \<and> (\<forall>k e. e \<in> set (ti_hist (sIndex s) k) \<longrightarrow> 2 \<le> main (fst e)
        \<and> (\<exists>kv. fmlookup (sKey s) (rec_of e) = Some (KeyValue_MarshalTo kv) \<and> kv_ok kv \<and> kvKey kv = k))
     \<and> (\<forall>k k' e e'. e \<in> set (ti_hist (sIndex s) k) \<longrightarrow> e' \<in> set (ti_hist (sIndex s) k') \<longrightarrow> fst e = fst e' \<longrightarrow> k = k')"

definition garbage :: "job list \<Rightarrow> bytes \<Rightarrow> bool" where
  "garbage js x \<longleftrightarrow> (\<exists>r keep lst js' r' m. js = Sweeping r keep lst # js' \<and> lst \<le> x
     \<and> x = revToBytes r' @ m \<and> rev_ok r' \<and> main r' \<le> r \<and> r' |\<notin>| keep)"

definition exact :: "store \<Rightarrow> job list \<Rightarrow> bool" where
  "exact s js \<longleftrightarrow> events_ok s
     \<and> (\<forall>x. x |\<in>| fmdom (sKey s) \<longrightarrow> (\<exists>k e. e \<in> set (ti_hist (sIndex s) k) \<and> x = rec_of e) \<or> garbage js x)
     \<and> (\<forall>x y. x |\<in>| fmdom (sKey s) \<longrightarrow> y |\<in>| fmdom (sKey s) \<longrightarrow> bytesToRev x = bytesToRev y \<longrightarrow> x = y)
     \<and> (\<forall>r keep lst k e. Sweeping r keep lst \<in> set js \<longrightarrow> e \<in> set (ti_hist (sIndex s) k) \<longrightarrow> main (fst e) \<le> r \<longrightarrow> snd e \<noteq> None)"

lemma exactD:
  assumes "exact s js"
  shows "events_ok s" "x |\<in>| fmdom (sKey s) \<Longrightarrow> (\<exists>k e. e \<in> set (ti_hist (sIndex s) k) \<and> x = rec_of e) \<or> garbage js x"
    "x |\<in>| fmdom (sKey s) \<Longrightarrow> y |\<in>| fmdom (sKey s) \<Longrightarrow> bytesToRev x = bytesToRev y \<Longrightarrow> x = y"
    "Sweeping r keep lst \<in> set js \<Longrightarrow> e \<in> set (ti_hist (sIndex s) k) \<Longrightarrow> main (fst e) \<le> r \<Longrightarrow> snd e \<noteq> None"
    "chain (ti_hist (sIndex s) k)" "e \<in> set (ti_hist (sIndex s) k) \<Longrightarrow> 2 \<le> main (fst e)"
    "e \<in> set (ti_hist (sIndex s) k) \<Longrightarrow> \<exists>kv. fmlookup (sKey s) (rec_of e) = Some (KeyValue_MarshalTo kv) \<and> kv_ok kv \<and> kvKey kv = k"
    "e \<in> set (ti_hist (sIndex s) k) \<Longrightarrow> e' \<in> set (ti_hist (sIndex s) k') \<Longrightarrow> fst e = fst e' \<Longrightarrow> k = k'"
  using assms unfolding exact_def events_ok_def by blast+

lemma exact_cong: "sKey s' = sKey s \<Longrightarrow> sIndex s' = sIndex s \<Longrightarrow> exact s' js = exact s js"
  by (simp add: exact_def events_ok_def)

lemma rec_of_rev: "rev_ok (fst e) \<Longrightarrow> bytesToRev (rec_of e) = Some (fst e)"
  by (simp add: rec_of_def)

section \<open>Writes\<close>

lemma exact_write:
  assumes "exact (twStore tw) js" "one_write tw tw'" "\<And>r keep lst. Sweeping r keep lst \<in> set js \<Longrightarrow> r \<le> twBeginRev tw"
  shows "exact (twStore tw') js"
proof -
  define s s' where "s = twStore tw" and "s' = twStore tw'"
  define r where "r = Revision (twBeginRev tw + 1) (int (length (twChanges tw)))"
  obtain key x kv where w: "tw_ok tw" "rev_ok r" "ti_hist (sIndex s') = (ti_hist (sIndex s))(key := ti_hist (sIndex s) key @ [(r, x)])"
    "next_event r x (ti_hist (sIndex s) key)" "sKey s' = UnsafePut (rec_of (r, x)) (KeyValue_MarshalTo kv) (sKey s)"
    "kv_ok kv" "kvKey kv = key"
    using assms(2) unfolding one_write_def Let_def s_def s'_def r_def by blast
  note ex = exactD [OF assms(1), folded s_def]
  have before: "fst e < r" if "e \<in> set (ti_hist (sIndex s) k)" for e k
    using ti_before_events [OF tw_okD(2,3) [OF w(1)]] that by (simp add: s_def r_def)
  have ok: "rev_ok (fst e)" if "e \<in> set (ti_hist (sIndex s) k)" for e k
    using store_okD(3) [OF tw_okD(1) [OF w(1)]] that by (simp add: s_def)
  have new: "bytesToRev (rec_of (r, x)) = Some r" using rec_of_rev [of "(r, x)"] w(2) by simp
  have old_rev: "\<exists>r'. bytesToRev y = Some r' \<and> r' < r" if "y |\<in>| fmdom (sKey s)" for y
    using ex(2) [OF that]
  proof (elim disjE exE conjE)
    fix k e assume "e \<in> set (ti_hist (sIndex s) k)" "y = rec_of e"
    then show ?thesis using rec_of_rev before ok by blast
  next
    assume "garbage js y"
    then obtain r0 keep lst js' r' m where g: "js = Sweeping r0 keep lst # js'" "y = revToBytes r' @ m" "rev_ok r'" "main r' \<le> r0"
      unfolding garbage_def by blast
    then have "main r' < main r" using assms(3) [of r0 keep lst] by (simp add: r_def)
    then show ?thesis using g by (intro exI [of _ r']) (simp add: revision_less)
  qed
  then have fresh: "rec_of (r, x) |\<notin>| fmdom (sKey s)" using new by force
  have rec: "\<exists>kv. fmlookup (sKey s') (rec_of e) = Some (KeyValue_MarshalTo kv) \<and> kv_ok kv \<and> kvKey kv = k"
    if "e \<in> set (ti_hist (sIndex s') k)" for e k
  proof (cases "e \<in> set (ti_hist (sIndex s) k)")
    case True
    from ex(7) [OF this] obtain kv' where kv': "fmlookup (sKey s) (rec_of e) = Some (KeyValue_MarshalTo kv')" "kv_ok kv'" "kvKey kv' = k"
      by blast
    then have "rec_of e \<noteq> rec_of (r, x)" using fresh by (metis fmdom_notD option.distinct(1))
    with kv' show ?thesis by (auto simp: w(5) UnsafePut_def)
  next
    case False
    then have "e = (r, x) \<and> k = key" using that by (auto simp: w(3) split: if_splits)
    then show ?thesis using w(6,7) by (auto simp: w(5) UnsafePut_def)
  qed
  have cases: "e \<in> set (ti_hist (sIndex s) k) \<or> e = (r, x) \<and> k = key" if "e \<in> set (ti_hist (sIndex s') k)" for e k
    using that by (auto simp: w(3) split: if_splits)
  have "chain (ti_hist (sIndex s') k)" for k using ex(5) [of k] chain_snoc w(4) by (auto simp: w(3))
  moreover have "2 \<le> main (fst e)" if "e \<in> set (ti_hist (sIndex s') k)" for e k
  proof -
    have "1 \<le> twBeginRev tw" using w(1) unfolding tw_ok_def by blast
    then show ?thesis using cases [OF that] ex(6) [of e k] by (auto simp: r_def)
  qed
  moreover have "k = k'" if "e \<in> set (ti_hist (sIndex s') k)" "e' \<in> set (ti_hist (sIndex s') k')" "fst e = fst e'" for k k' e e'
    using cases [OF that(1)] cases [OF that(2)] ex(8) [of e k e' k'] before [of e k] before [of e' k'] that(3)
    by (elim disjE conjE) simp_all
  moreover have "(\<exists>k e. e \<in> set (ti_hist (sIndex s') k) \<and> y = rec_of e) \<or> garbage js y" if "y |\<in>| fmdom (sKey s')" for y
  proof (cases "y |\<in>| fmdom (sKey s)")
    case True
    have "set (ti_hist (sIndex s) k) \<subseteq> set (ti_hist (sIndex s') k)" for k by (auto simp: w(3))
    with ex(2) [OF True] show ?thesis by blast
  next
    case False
    then have "y = rec_of (r, x)" using that by (simp add: w(5) UnsafePut_def)
    then show ?thesis by (intro disjI1 exI [of _ key] exI [of _ "(r, x)"]) (simp add: w(3))
  qed
  moreover have "y = z" if "y |\<in>| fmdom (sKey s')" "z |\<in>| fmdom (sKey s')" "bytesToRev y = bytesToRev z" for y z
  proof -
    have "y = rec_of (r, x) \<or> y |\<in>| fmdom (sKey s)" "z = rec_of (r, x) \<or> z |\<in>| fmdom (sKey s)"
      using that(1,2) by (simp_all add: w(5) UnsafePut_def)
    moreover have "y = rec_of (r, x)" if "y |\<in>| fmdom (sKey s)" "z = rec_of (r, x)"
      using old_rev [OF that(1)] new \<open>bytesToRev y = bytesToRev z\<close> that(2) by force
    moreover have "z = rec_of (r, x)" if "z |\<in>| fmdom (sKey s)" "y = rec_of (r, x)"
      using old_rev [OF that(1)] new \<open>bytesToRev y = bytesToRev z\<close> that(2) by force
    ultimately show ?thesis using ex(3) that(3) by blast
  qed
  moreover have "snd e \<noteq> None" if "Sweeping r0 keep lst \<in> set js" "e \<in> set (ti_hist (sIndex s') k)" "main (fst e) \<le> r0" for r0 keep lst e k
    using cases [OF that(2)] ex(4) [OF that(1) _ that(3)] assms(3) [OF that(1)] that(3) by (auto simp: r_def)
  ultimately have "exact s' js" unfolding exact_def events_ok_def by (simp add: rec)
  then show ?thesis by (simp add: s'_def)
qed

lemma exact_writes:
  assumes "one_write\<^sup>*\<^sup>* tw tw'" "exact (twStore tw) js" "\<forall>r keep lst. Sweeping r keep lst \<in> set js \<longrightarrow> r \<le> twBeginRev tw"
  shows "exact (twStore tw') js \<and> twBeginRev tw' = twBeginRev tw \<and> sMeta (twStore tw') = sMeta (twStore tw)
    \<and> (twChanges tw' \<noteq> [] \<longrightarrow> twChanges tw = [] \<longrightarrow> (\<exists>k e. e \<in> set (ti_hist (sIndex (twStore tw')) k) \<and> main (fst e) = twBeginRev tw + 1))
    \<and> (\<forall>k. set (ti_hist (sIndex (twStore tw)) k) \<subseteq> set (ti_hist (sIndex (twStore tw')) k))"
  using assms(1)
proof (induction rule: rtranclp_induct)
  case base
  with assms(2) show ?case by simp
next
  case (step tw1 tw2)
  obtain key x where w: "twBeginRev tw2 = twBeginRev tw1" "sMeta (twStore tw2) = sMeta (twStore tw1)"
    "ti_hist (sIndex (twStore tw2)) = (ti_hist (sIndex (twStore tw1)))(key := ti_hist (sIndex (twStore tw1)) key
      @ [(Revision (twBeginRev tw1 + 1) (int (length (twChanges tw1))), x)])"
    using step(2) unfolding one_write_def Let_def by blast
  have "exact (twStore tw2) js"
    by (rule exact_write [OF _ step(2)]) (use step(3) assms(3) in auto)
  moreover have "\<exists>k e. e \<in> set (ti_hist (sIndex (twStore tw2)) k) \<and> main (fst e) = twBeginRev tw + 1"
    using step(3) w by (intro exI [of _ key] exI [of _ "(Revision (twBeginRev tw1 + 1) (int (length (twChanges tw1))), x)"]) simp
  moreover have "set (ti_hist (sIndex (twStore tw1)) k) \<subseteq> set (ti_hist (sIndex (twStore tw2)) k)" for k by (auto simp: w(3))
  ultimately show ?case using step(3) w(1,2) by fastforce
qed

section \<open>Compaction\<close>

lemma hist_ok_inj: "hist_ok h \<Longrightarrow> e \<in> set h \<Longrightarrow> e' \<in> set h \<Longrightarrow> fst e = fst e' \<Longrightarrow> e = e'"
  unfolding hist_ok_def strict_sorted_iff distinct_map by (auto dest: inj_onD)

lemma zeros_le: "n \<le> length (x :: bytes) \<Longrightarrow> replicate n 0 \<le> x"
proof (induction n arbitrary: x)
  case (Suc n)
  then obtain a y where "x = a # y" by (cases x) auto
  with Suc show ?case by (cases "a = 0") (auto simp: word_gt_0)
qed simp

lemma exact_index:
  assumes "exact s (Queued r # js)" "store_ok s" "compactIndex r s = Some (s', keep)" "\<forall>j \<in> set js. \<exists>r. j = Queued r"
  shows "exact s' (Sweeping r keep (replicate 17 0) # js)"
proof -
  note ex = exactD [OF assms(1)]
  obtain s1 keep1 where c: "compactIndex r s = Some (s1, keep1)" "sKey s1 = sKey s"
    "\<And>k. ti_hist (sIndex s1) k = hist_compact r (ti_hist (sIndex s) k)"
    "\<And>r'. r' |\<in>| keep1 \<longleftrightarrow> (\<exists>k. r' |\<in>| kept r (ti_hist (sIndex s) k))"
    using compactIndex_spec [OF assms(2), of r] by metis
  then have s': "s' = s1" "keep = keep1" using assms(3) by simp_all
  have wf: "hist_ok (ti_hist (sIndex s) k)" for k by (rule ti_hist_ok [OF store_okD(1) [OF assms(2)]])
  have sub: "set (ti_hist (sIndex s1) k) \<subseteq> set (ti_hist (sIndex s) k)" for k using c(3) hist_compact_subset by simp
  have "chain (ti_hist (sIndex s1) k)" for k using ex(5) wf chain_compact by (simp add: c(3))
  moreover have "e \<in> set (ti_hist (sIndex s) k)" if "e \<in> set (ti_hist (sIndex s1) k)" for e k
    using sub [of k] that by (rule subsetD)
  ultimately have "events_ok s1" using ex(1) unfolding events_ok_def c(2) by blast
  moreover have "(\<exists>k e. e \<in> set (ti_hist (sIndex s1) k) \<and> x = rec_of e) \<or> garbage (Sweeping r keep1 (replicate 17 0) # js) x"
    if x: "x |\<in>| fmdom (sKey s1)" for x
  proof -
    have "x |\<in>| fmdom (sKey s)" "\<not> garbage (Queued r # js) x" using x c(2) by (simp_all add: garbage_def)
    then obtain k e where e: "e \<in> set (ti_hist (sIndex s) k)" "x = rec_of e" using ex(2) by blast
    show ?thesis
    proof (cases "e \<in> set (ti_hist (sIndex s1) k)")
      case False
      then have "main (fst e) \<le> r" using e(1) by (auto simp: c(3) hist_compact_def)
      moreover have "fst e |\<notin>| keep1"
      proof
        assume "fst e |\<in>| keep1"
        then obtain k' where "fst e |\<in>| kept r (ti_hist (sIndex s) k')" using c(4) by blast
        then obtain m where m: "last_at r (ti_hist (sIndex s) k') = Some (fst e, Some m)"
          by (auto simp: kept_def alive_at_def split: option.splits prod.splits)
        then have m': "(fst e, Some m) \<in> set (ti_hist (sIndex s) k')" by (simp add: last_at_in)
        then have "k' = k" using ex(8) [OF e(1), of "(fst e, Some m)" k'] by simp
        with m' have "(fst e, Some m) = e" using hist_ok_inj [OF wf _ e(1), of "(fst e, Some m)"] by simp
        with m False \<open>k' = k\<close> show False by (cases e) (simp add: c(3) hist_compact_def)
      qed
      moreover have "rev_ok (fst e)" using store_okD(3) [OF assms(2) e(1)] .
      moreover have "replicate 17 0 \<le> x" using e(2) by (intro zeros_le) (simp add: rec_of_def)
      ultimately show ?thesis using e(2) unfolding garbage_def rec_of_def by blast
    qed (use e in blast)
  qed
  moreover have "snd e \<noteq> None" if "Sweeping r' keep' lst \<in> set (Sweeping r keep1 (replicate 17 0) # js)"
      "e \<in> set (ti_hist (sIndex s1) k)" "main (fst e) \<le> r'" for r' keep' lst k e
    using that assms(4) by (auto simp: c(3) hist_compact_def split: option.splits)
  ultimately show ?thesis unfolding s' exact_def using ex(3) c(2) by simp
qed

lemma list_le_prefix: "(a :: bytes) \<le> a @ b"
  by (induction a) auto

lemma take_rest:
  assumes "sorted_wrt (<) (L :: 'a::linorder list)" "x \<in> set L" "x \<notin> set (take n L)"
  shows "length (take n L) = n \<and> (\<forall>y \<in> set (take n L). y < x)"
proof -
  have "x \<in> set (drop n L)" using assms(2,3) by (metis Un_iff append_take_drop_id set_append)
  moreover from this have "n < length L" by (metis drop_eq_Nil empty_iff list.set(1) not_le)
  moreover have "sorted_wrt (<) (take n L @ drop n L)" using assms(1) by simp
  ultimately show ?thesis unfolding sorted_wrt_append by simp
qed

lemma UnsafeRange_filter:
  assumes "endk \<noteq> []"
  shows "fst (UnsafeRange b lst endk lim) = (let L = filter (\<lambda>k. lst \<le> k \<and> k < endk) (bucket_keys b) in
    if lim \<le> 0 then L else take (nat lim) L)"
proof -
  have s: "sorted (bucket_keys b)" using bucket_sorted by (simp add: strict_sorted_iff)
  have f: "sorted_wrt (<) (filter (\<lambda>k. lst \<le> k) (bucket_keys b))" by (rule sorted_wrt_filter [OF bucket_sorted])
  have "takeWhile (\<lambda>k. k < endk) (dropWhile (\<lambda>k. k < lst) (bucket_keys b))
      = filter (\<lambda>k. lst \<le> k \<and> k < endk) (bucket_keys b)"
    unfolding sorted_dropWhile_filter [OF s]
    by (subst sorted_takeWhile_filter [OF f]) (auto intro: less_trans filter_cong)
  with assms show ?thesis by (simp add: UnsafeRange_def Let_def)
qed

lemma UnsafeRange_rest:
  assumes "endk \<noteq> []" "x |\<in>| fmdom b" "lst \<le> x" "x < endk" "x \<notin> set (fst (UnsafeRange b lst endk lim))"
  shows "0 < lim \<and> int (length (fst (UnsafeRange b lst endk lim))) = lim \<and> (\<forall>y \<in> set (fst (UnsafeRange b lst endk lim)). y < x)"
proof -
  let ?L = "filter (\<lambda>k. lst \<le> k \<and> k < endk) (bucket_keys b)"
  have x: "x \<in> set ?L" using assms by (simp add: set_bucket_keys)
  then have l: "0 < lim" "fst (UnsafeRange b lst endk lim) = take (nat lim) ?L"
    using assms(5) unfolding UnsafeRange_filter [OF assms(1)] by (auto simp: Let_def split: if_splits)
  then show ?thesis
    using take_rest [OF sorted_wrt_filter [OF bucket_sorted] x, of "nat lim"] assms(5) by simp
qed

lemma exact_batch:
  assumes "exact s (Sweeping r keep lst # js)" "store_ok s" "keep_ok r keep (sIndex s)" "- 1 \<le> r" "r < 9223372036854775808"
    and "compactBatch r keep lst s = Some (s', nxt)"
  shows "exact s' ((case nxt of None \<Rightarrow> [] | Some l \<Rightarrow> [Sweeping r keep l]) @ js)"
proof -
  let ?stop = "PutUint64 (u64_of (r + 1))" and ?js = "(case nxt of None \<Rightarrow> [] | Some l \<Rightarrow> [Sweeping r keep l]) @ js"
  define keys where "keys = fst (UnsafeRange (sKey s) lst ?stop (sBatchLimit s))"
  note ex = exactD [OF assms(1)]
  have bok: "bucket_ok (sKey s)" using store_okD(2) [OF assms(2)] .
  have ne: "?stop \<noteq> []" using length_PutUint64 [of "u64_of (r + 1)"] by fastforce
  have c: "sIndex s' = sIndex s" "fmdom (sKey s') |\<subseteq>| fmdom (sKey s)"
    "\<And>x. fmlookup (sKey s') x = (if x \<in> set keys \<and> the (bytesToRev x) |\<notin>| keep then None else fmlookup (sKey s) x)"
    "nxt = (if int (length keys) < sBatchLimit s then None
      else Some (if keys = [] then revToBytes (Revision 0 1)
        else revToBytes (case the (bytesToRev (last keys)) of Revision m n \<Rightarrow> Revision m (n + 1))))"
  proof -
    obtain s1 nxt1 where c: "compactBatch r keep lst s = Some (s1, nxt1)" "sIndex s1 = sIndex s" "fmdom (sKey s1) |\<subseteq>| fmdom (sKey s)"
      "\<And>x. fmlookup (sKey s1) x = (if x \<in> set keys \<and> the (bytesToRev x) |\<notin>| keep then None else fmlookup (sKey s) x)"
      "nxt1 = (if int (length keys) < sBatchLimit s then None
        else Some (if keys = [] then revToBytes (Revision 0 1)
          else revToBytes (case the (bytesToRev (last keys)) of Revision m n \<Rightarrow> Revision m (n + 1))))"
      by (rule compactBatch_spec [OF assms(2-5), of lst]) (simp add: keys_def Let_def)
    moreover have "s' = s1" "nxt = nxt1" using c(1) assms(6) by simp_all
    ultimately show "sIndex s' = sIndex s" "fmdom (sKey s') |\<subseteq>| fmdom (sKey s)"
      "\<And>x. fmlookup (sKey s') x = (if x \<in> set keys \<and> the (bytesToRev x) |\<notin>| keep then None else fmlookup (sKey s) x)"
      "nxt = (if int (length keys) < sBatchLimit s then None
        else Some (if keys = [] then revToBytes (Revision 0 1)
          else revToBytes (case the (bytesToRev (last keys)) of Revision m n \<Rightarrow> Revision m (n + 1))))" by simp_all
  qed
  have rok: "rev_ok (fst e)" if "e \<in> set (ti_hist (sIndex s) k)" for e k by (rule store_okD(3) [OF assms(2) that])
  have same: "fmlookup (sKey s') (rec_of e) = fmlookup (sKey s) (rec_of e)" if e: "e \<in> set (ti_hist (sIndex s) k)" for e k
  proof (cases "rec_of e \<in> set keys \<and> main (fst e) \<le> r")
    case True
    then have "snd e \<noteq> None" using ex(4) [of r keep lst] e by simp
    then have "fst e |\<in>| keep" using keep_okD [OF assms(3), of "fst e"] e True by (metis not_None_eq prod.collapse)
    then show ?thesis using rec_of_rev [OF rok [OF e]] by (simp add: c(3))
  next
    case False
    have "rec_of e < ?stop \<longleftrightarrow> main (fst e) \<le> r" using below_end [OF rok [OF e] assms(4,5)] by (simp add: rec_of_def)
    moreover have "x < ?stop" if "x \<in> set keys" for x using UnsafeRange_keys that ne unfolding keys_def by blast
    ultimately have "rec_of e \<notin> set keys" using False by blast
    then show ?thesis by (simp add: c(3))
  qed
  have "events_ok s'" using ex(1) same unfolding events_ok_def c(1) by simp
  moreover have "(\<exists>k e. e \<in> set (ti_hist (sIndex s') k) \<and> x = rec_of e) \<or> garbage ?js x" if x: "x |\<in>| fmdom (sKey s')" for x
  proof -
    have xs: "x |\<in>| fmdom (sKey s)" using x c(2) by blast
    from ex(2) [OF this] consider "\<exists>k e. e \<in> set (ti_hist (sIndex s) k) \<and> x = rec_of e"
      | r' m where "lst \<le> x" "x = revToBytes r' @ m" "rev_ok r'" "main r' \<le> r" "r' |\<notin>| keep"
      unfolding garbage_def by blast
    then show ?thesis
    proof cases
      case 1
      then show ?thesis by (simp add: c(1))
    next
      case 2
      then have "bytesToRev x = Some r'" by simp
      then have "x \<notin> set keys" using x 2(5) c(3) [of x] by (auto simp: in_fmdom)
      moreover have "x < ?stop" using below_end [OF 2(3) assms(4,5)] 2(2,4) by simp
      ultimately have full: "0 < sBatchLimit s" "int (length keys) = sBatchLimit s" "\<forall>y \<in> set keys. y < x"
        using UnsafeRange_rest [OF ne xs 2(1)] unfolding keys_def by blast+
      then have nk: "keys \<noteq> []" by auto
      obtain r0 m0 where k: "last keys = revToBytes r0 @ m0" "rev_ok r0" "int64_ok (sub r0 + 1)" "bytesToRev (last keys) = Some r0"
        using bucket_ok_keys [OF bok _ ne, of "last keys" lst "sBatchLimit s"] last_in_set [OF nk] unfolding keys_def by metis
      have less: "last keys < x" using full(3) last_in_set [OF nk] by blast
      have "last keys |\<in>| fmdom (sKey s)"
        using UnsafeRange_keys [of "sKey s" lst ?stop "sBatchLimit s"] last_in_set [OF nk] unfolding keys_def by blast
      then have "r0 \<noteq> r'" using ex(3) [OF _ xs, of "last keys"] less k(4) \<open>bytesToRev x = Some r'\<close> by auto
      moreover have "\<not> r' < r0" using revToBytes_order(2) [OF 2(3) k(2), of m m0] less k(1) 2(2) by auto
      ultimately have "r0 < r'" by simp
      then have "Revision (main r0) (sub r0 + 1) \<le> r'"
        by (cases r0; cases r') (auto simp: revision_less less_eq_revision_def)
      moreover have "rev_ok (Revision (main r0) (sub r0 + 1))" using k(2,3) by (simp add: rev_ok_def)
      ultimately have "revToBytes (Revision (main r0) (sub r0 + 1)) @ [] \<le> x"
        using revToBytes_order(2) [OF _ 2(3), of "Revision (main r0) (sub r0 + 1)" "[]" m] 2(2)
        by (cases "Revision (main r0) (sub r0 + 1) = r'") (auto simp: list_le_prefix less_imp_le)
      moreover have "nxt = Some (revToBytes (Revision (main r0) (sub r0 + 1)))"
        using full nk k(4) by (cases r0) (simp add: c(4))
      ultimately have "garbage ?js x" using 2 unfolding garbage_def by (auto intro!: exI [of _ r'])
      then show ?thesis ..
    qed
  qed
  moreover have "snd e \<noteq> None" if "Sweeping r1 keep1 lst1 \<in> set ?js" "e \<in> set (ti_hist (sIndex s') k)" "main (fst e) \<le> r1" for r1 keep1 lst1 k e
  proof -
    have "\<exists>lst. Sweeping r1 keep1 lst \<in> set (Sweeping r keep lst # js)" using that(1) by (auto split: option.splits)
    with ex(4) [of r keep lst e k] ex(4) [of r1 keep1 _ e k] that(1-3) show ?thesis by (auto simp: c(1) split: option.splits)
  qed
  moreover have "x = y" if "x |\<in>| fmdom (sKey s')" "y |\<in>| fmdom (sKey s')" "bytesToRev x = bytesToRev y" for x y
    using ex(3) [of x y] that c(2) by blast
  ultimately show ?thesis unfolding exact_def by blast
qed

end
