(* ===== verification/StoreRecover.thy ===== *)
theory StoreRecover
  imports StoreExact
begin

text \<open>
  Rebuilding the index from the records gives an index with the same events; only the position
  within the transaction that created a key is lost, which nothing reads.
\<close>

section \<open>Histories up to the lost positions\<close>

definition event_sim :: "revision \<times> (revision \<times> int) option \<Rightarrow> revision \<times> (revision \<times> int) option \<Rightarrow> bool" where
  "event_sim e e' \<longleftrightarrow> fst e = fst e' \<and> rel_option (\<lambda>(c, v) (c', v'). main c = main c' \<and> v = v') (snd e) (snd e')"

abbreviation hist_sim :: "hist \<Rightarrow> hist \<Rightarrow> bool" where
  "hist_sim \<equiv> list_all2 event_sim"

lemma hist_sim_snoc: "hist_sim (h @ [e]) h' \<longleftrightarrow> (\<exists>g e'. h' = g @ [e'] \<and> hist_sim h g \<and> event_sim e e')"
proof
  assume "hist_sim (h @ [e]) h'"
  then show "\<exists>g e'. h' = g @ [e'] \<and> hist_sim h g \<and> event_sim e e'"
    by (auto simp: list_all2_append1 list_all2_Cons1)
qed (auto intro: list_all2_appendI)

lemma last_at_sim: "hist_sim h h' \<Longrightarrow> rel_option event_sim (last_at t h) (last_at t h')"
proof (induction h arbitrary: h' rule: rev_induct)
  case (snoc e h)
  then obtain g e' where g: "h' = g @ [e']" "hist_sim h g" "event_sim e e'" by (auto simp: hist_sim_snoc)
  then have "fst e = fst e'" by (simp add: event_sim_def)
  with g snoc.IH show ?case by simp
qed simp

lemma alive_at_sim:
  assumes "hist_sim h h'"
  shows "rel_option (\<lambda>(r, c, v) (r', c', v'). r = r' \<and> main c = main c' \<and> v = v') (alive_at t h) (alive_at t h')"
  using last_at_sim [OF assms, of t]
  by (auto simp: alive_at_def event_sim_def option_rel_Some1 option_rel_Some2 elim!: option.rel_cases split: option.splits)

lemma hist_alive_sim:
  assumes "hist_sim h h'"
  shows "rel_option (\<lambda>(c, v) (c', v'). main c = main c' \<and> v = v') (hist_alive h) (hist_alive h')"
proof (cases h rule: rev_cases)
  case (snoc g e)
  with assms obtain g' e' where "h' = g' @ [e']" "event_sim e e'" by (auto simp: hist_sim_snoc)
  with snoc show ?thesis by (simp add: hist_alive_def event_sim_def)
qed (use assms in \<open>auto simp: hist_alive_def\<close>)

lemma hist_put_sim:
  assumes "hist_sim h h'" "next_event r x h" "x \<noteq> None"
  shows "hist_sim (h @ [(r, x)]) (hist_put r h')"
proof -
  have x: "x = Some (case hist_alive h of Some (c, v) \<Rightarrow> (c, v + 1) | None \<Rightarrow> (r, 1))"
    using assms(2,3) by (simp add: next_event_def hist_put_def)
  from hist_alive_sim [OF assms(1)] show ?thesis
    unfolding hist_put_def x
    by (cases "hist_alive h"; cases "hist_alive h'") (auto simp: hist_sim_snoc assms(1) event_sim_def)
qed

section \<open>One record\<close>

lemma ki_restore_hist:
  "\<exists>ki. ki_restore c r v (newKeyIndex k) = Some ki \<and> ki_wf ki \<and> ki_hist ki = [(r, Some (c, v))] \<and> kiKey ki = k \<and> kiModified ki = r"
  by (simp add: ki_restore_def newKeyIndex_def ki_wf_def ki_hist_def gens_ok_def gen_hist_def hist_ok_def)

lemma isTombstone_rec_of: "isTombstone (rec_of e) \<longleftrightarrow> snd e = None"
  by (simp add: isTombstone_def rec_of_def revBytesLen_def nth_append)

lemma MarshalTo_inj:
  assumes "kv_ok a" "kv_ok b" "KeyValue_MarshalTo a = KeyValue_MarshalTo b"
  shows "a = b"
proof -
  have "Some (Inr a) = (Some (Inr b) :: KeyValue res)"
    unfolding KeyValue_roundtrip [OF assms(1), symmetric] KeyValue_roundtrip [OF assms(2), symmetric] assms(3) ..
  then show ?thesis by simp
qed

text \<open>The index built so far has the events of the records read so far.\<close>

definition restored :: "store \<Rightarrow> bytes list \<Rightarrow> restoring \<Rightarrow> bool" where
  "restored s ys st \<longleftrightarrow> ti_wf (rsIndex st)
     \<and> (\<forall>k. hist_sim (filter (\<lambda>e. rec_of e \<in> set ys) (ti_hist (sIndex s) k)) (ti_hist (rsIndex st) k))
     \<and> (\<forall>r. (\<forall>y \<in> set ys. the (bytesToRev y) < r) \<longrightarrow> ti_before r (rsIndex st))
     \<and> rsCurrentRev st = (if ys = [] then 1 else main (the (bytesToRev (last ys))))"

lemma rec_of_less:
  assumes "rev_ok (fst e)" "rev_ok (fst e')"
  shows "rec_of e < rec_of e' \<longleftrightarrow> fst e < fst e' \<or> fst e = fst e' \<and> snd e \<noteq> None \<and> snd e' = None"
proof -
  have "rec_of e < rec_of e'" if "fst e < fst e'"
    using revToBytes_order(2) [OF assms that] by (simp add: rec_of_def)
  moreover have "rec_of e' < rec_of e" if "fst e' < fst e"
    using revToBytes_order(2) [OF assms(2,1) that] by (simp add: rec_of_def)
  moreover have "rec_of e < rec_of e' \<longleftrightarrow> snd e \<noteq> None \<and> snd e' = None" if "fst e = fst e'"
  proof -
    have "(u @ v < u @ w) = (v < w)" for u v w :: bytes using list_less_append [of u u v w] by simp
    then show ?thesis by (simp add: rec_of_def that)
  qed
  ultimately show ?thesis
    using less_asym [of "rec_of e" "rec_of e'"] by (cases "fst e" "fst e'" rule: linorder_cases) auto
qed

lemma split_history:
  assumes "hist_ok h" "e \<in> set h"
  obtains a c where "h = a @ e # c" "\<forall>x \<in> set a. fst x < fst e" "\<forall>x \<in> set c. fst e < fst x"
proof -
  obtain a c where "h = a @ e # c" using split_list [OF assms(2)] by blast
  then show thesis using that assms(1) by (auto simp: hist_ok_append hist_ok_Cons)
qed

lemma restored_step:
  assumes ex: "exact s []" and ok: "store_ok s" and st: "restored s ys st"
    and sorted: "sorted_wrt (<) (ys @ [x])" and below: "\<And>y. y |\<in>| fmdom (sKey s) \<Longrightarrow> y < x \<Longrightarrow> y \<in> set ys"
    and ys: "set ys \<subseteq> fset (fmdom (sKey s))" and x: "x |\<in>| fmdom (sKey s)"
  shows "\<exists>st'. restoreKey (x, the (fmlookup (sKey s) x)) st = Some st' \<and> restored s (ys @ [x]) st'"
proof -
  note exD = exactD [OF ex]
  let ?ti = "rsIndex st"
  obtain k e where e: "e \<in> set (ti_hist (sIndex s) k)" "x = rec_of e"
    using exD(2) [OF x] by (auto simp: garbage_def)
  obtain r y where ry: "e = (r, y)" by (cases e)
  obtain kv where kv: "fmlookup (sKey s) x = Some (KeyValue_MarshalTo kv)" "kv_ok kv" "kvKey kv = k"
    using exD(7) [OF e(1)] e(2) by blast
  have rok: "rev_ok (fst e)" if "e \<in> set (ti_hist (sIndex s) k)" for e k by (rule store_okD(3) [OF ok that])
  have r: "rev_ok r" "bytesToRev x = Some r" using rok [OF e(1)] rec_of_rev [OF rok [OF e(1)]] e(2) ry by simp_all
  have lt: "y' < x" if "y' \<in> set ys" for y' using sorted that by (simp add: sorted_wrt_append)
  have dom: "rec_of e' |\<in>| fmdom (sKey s)" if "e' \<in> set (ti_hist (sIndex s) k')" for e' k'
    using exD(7) [OF that] by (auto simp: in_fmdom)
  have hok: "hist_ok (ti_hist (sIndex s) k)" using ti_hist_ok [OF store_okD(1) [OF ok]] .
  obtain a c where h: "ti_hist (sIndex s) k = a @ e # c" "\<forall>x \<in> set a. fst x < fst e" "\<forall>x \<in> set c. fst e < fst x"
    using split_history [OF hok e(1)] by blast
  have "rec_of e' \<in> set ys" if "e' \<in> set a" for e'
    using that h rec_of_less [OF rok rok [OF e(1)], of e' k] e(2) dom [of e' k] by (intro below) auto
  moreover have "rec_of e' \<notin> set ys \<and> rec_of e' \<noteq> x" if "e' \<in> set c" for e'
    using that h rec_of_less [OF rok [OF e(1)] rok, of e' k] e(2) lt by (auto dest: less_asym)
  moreover have "x \<notin> set ys" using lt by blast
  ultimately have f: "filter (\<lambda>e. rec_of e \<in> set ys) (ti_hist (sIndex s) k) = a"
    "filter (\<lambda>e. rec_of e \<in> set (ys @ [x])) (ti_hist (sIndex s) k) = a @ [e]"
    using e(2) by (auto simp: h(1) filter_empty_conv filter_id_conv)
  have f': "filter (\<lambda>e. rec_of e \<in> set (ys @ [x])) (ti_hist (sIndex s) k') = filter (\<lambda>e. rec_of e \<in> set ys) (ti_hist (sIndex s) k')"
    if "k' \<noteq> k" for k'
  proof (rule filter_cong [OF refl])
    fix e' assume e': "e' \<in> set (ti_hist (sIndex s) k')"
    then have "rec_of e' \<noteq> x" using rec_of_rev [OF rok [OF e']] r(2) exD(8) [OF e' e(1)] ry that by auto
    then show "rec_of e' \<in> set (ys @ [x]) \<longleftrightarrow> rec_of e' \<in> set ys" by simp
  qed
  have wf: "ti_wf ?ti" and sim: "hist_sim (filter (\<lambda>e. rec_of e \<in> set ys) (ti_hist (sIndex s) k')) (ti_hist ?ti k')" for k'
    using st by (simp_all add: restored_def)
  have simk: "hist_sim a (ti_hist ?ti k)" using sim [of k] f(1) by simp
  have "the (bytesToRev y') < r" if y': "y' \<in> set ys" for y'
  proof -
    obtain k' e' where e': "e' \<in> set (ti_hist (sIndex s) k')" "y' = rec_of e'"
    proof -
      have "y' |\<in>| fmdom (sKey s)" using ys y' by blast
      from exD(2) [OF this] have "\<exists>k' e'. e' \<in> set (ti_hist (sIndex s) k') \<and> y' = rec_of e'" by (simp add: garbage_def)
      then show thesis by (elim exE conjE) (rule that)
    qed
    have "bytesToRev y' \<noteq> bytesToRev x" using exD(3) [OF _ x, of y'] ys y' lt [OF y'] by blast
    then have "fst e' \<noteq> r" using rec_of_rev [OF rok [OF e'(1)]] e'(2) r(2) by auto
    then show ?thesis
      using rec_of_less [OF rok [OF e'(1)] rok [OF e(1)]] lt [OF y'] e' e(2) ry rec_of_rev [OF rok [OF e'(1)]] by auto
  qed
  then have before: "ti_before r ?ti" using st by (simp add: restored_def)
  have "\<exists>ti'. restoreIntoIndex x kv (st\<lparr>rsKeyToLease := l\<rparr>) = Some (st\<lparr>rsKeyToLease := l, rsCurrentRev := main r, rsIndex := ti'\<rparr>)
      \<and> ti_wf ti' \<and> (\<exists>g. ti_hist ti' = (ti_hist ?ti)(k := g) \<and> hist_sim (a @ [e]) g) \<and> (\<forall>r' > r. ti_before r' ti')" for l
  proof (cases "fmlookup ?ti k")
    case None
    then have "ti_hist ?ti k = []" by (simp add: ti_hist_def)
    with simk have "a = []" by simp
    then have y: "y \<noteq> None" using exD(5) [of k] chain_first ry by (simp add: h(1))
    then obtain ci v where ci: "y = Some (ci, v)" by auto
    obtain kv' where "stored (sKey s) k r ci v kv'" using store_okD(4) [OF ok, of r ci v k] e(1) ry ci by blast
    then have "KeyValue_MarshalTo kv' = KeyValue_MarshalTo kv" "kv_ok kv'"
      using kv(1) e(2) ry ci by (auto simp: stored_def rec_of_def)
    then have "kv' = kv" using MarshalTo_inj kv(2) by blast
    with \<open>stored (sKey s) k r ci v kv'\<close> have "main ci = kvCreateRevision kv" "v = kvVersion kv" by (simp_all add: stored_def)
    then have sim': "hist_sim (a @ [e]) [(r, Some (Revision (kvCreateRevision kv) 0, kvVersion kv))]"
      using \<open>a = []\<close> ry ci by (simp add: event_sim_def)
    obtain ki where ki: "ki_restore (Revision (kvCreateRevision kv) 0) r (kvVersion kv) (newKeyIndex k) = Some ki"
        "ki_wf ki" "ki_hist ki = [(r, Some (Revision (kvCreateRevision kv) 0, kvVersion kv))]" "kiKey ki = k" "kiModified ki = r"
      using ki_restore_hist by blast
    have "\<not> isTombstone x" using y e(2) ry by (simp add: isTombstone_rec_of)
    with None ki(1) r(2) kv(3) have "restoreIntoIndex x kv (st\<lparr>rsKeyToLease := l\<rparr>)
        = Some (st\<lparr>rsKeyToLease := l, rsCurrentRev := main r, rsIndex := ti_Insert ki ?ti\<rparr>)"
      by (simp add: restoreIntoIndex_def ti_KeyIndex_def)
    moreover have "ti_hist (ti_Insert ki ?ti) = (ti_hist ?ti)(k := ki_hist ki)" using ki(4) by (simp add: ti_Insert_def ti_hist_upd)
    moreover have "ti_wf (ti_Insert ki ?ti)" using ki(2-4) wf by (simp add: ti_Insert_def ti_wf_upd)
    moreover have "\<forall>r' > r. ti_before r' (ti_Insert ki ?ti)"
      using before ki(4,5) by (auto simp: ti_before_def ti_Insert_def split: if_splits dest: less_trans)
    ultimately show ?thesis using sim' ki(3) by auto
  next
    case (Some ki)
    then have ne: "a \<noteq> []" using simk ti_hist_None [OF wf, of k] by auto
    have nx: "next_event r y a" using chain_next [of a r y c] exD(5) [of k] ne ry by (simp add: h(1))
    show ?thesis
    proof (cases "y = None")
      case True
      have "hist_alive (ti_hist ?ti k) \<noteq> None" using nx True hist_alive_sim [OF simk] by (auto simp: next_event_def option_rel_Some1)
      from ti_Tombstone_hist [OF wf before this] obtain ti' where t: "ti_Tombstone k r ?ti = Some (None, ti')" "ti_wf ti'"
        "ti_hist ti' = (ti_hist ?ti)(k := hist_tombstone r (ti_hist ?ti k))" "\<forall>r' > r. ti_before r' ti'" by blast
      have "isTombstone x" using True e(2) ry by (simp add: isTombstone_rec_of)
      with t(1) Some r(2) kv(3) have "restoreIntoIndex x kv (st\<lparr>rsKeyToLease := l\<rparr>)
          = Some (st\<lparr>rsKeyToLease := l, rsCurrentRev := main r, rsIndex := ti'\<rparr>)"
        by (auto simp: restoreIntoIndex_def ti_KeyIndex_def ti_Tombstone_def split: Option.bind_splits)
      moreover have "hist_sim (a @ [e]) (hist_tombstone r (ti_hist ?ti k))"
        using simk ry True by (simp add: hist_tombstone_def hist_sim_snoc event_sim_def)
      ultimately show ?thesis using t by blast
    next
      case False
      have "zeroRev < r" using exD(6) [OF e(1)] ry by (simp add: revision_less)
      from ti_Put_hist [OF wf before this] obtain ti' where t: "ti_Put k r ?ti = Some ti'" "ti_wf ti'"
        "ti_hist ti' = (ti_hist ?ti)(k := hist_put r (ti_hist ?ti k))" "\<forall>r' > r. ti_before r' ti'" by blast
      have "\<not> isTombstone x" using False e(2) ry by (simp add: isTombstone_rec_of)
      with t(1) Some r(2) kv(3) have "restoreIntoIndex x kv (st\<lparr>rsKeyToLease := l\<rparr>)
          = Some (st\<lparr>rsKeyToLease := l, rsCurrentRev := main r, rsIndex := ti'\<rparr>)"
        by (auto simp: restoreIntoIndex_def ti_KeyIndex_def ti_Put_def split: Option.bind_splits)
      moreover have "hist_sim (a @ [e]) (hist_put r (ti_hist ?ti k))"
        using hist_put_sim [OF simk nx False] ry by simp
      ultimately show ?thesis using t by blast
    qed
  qed
  then obtain ti' l g where t: "restoreKey (x, the (fmlookup (sKey s) x)) st
      = Some (st\<lparr>rsKeyToLease := l, rsCurrentRev := main r, rsIndex := ti'\<rparr>)" "ti_wf ti'"
      "ti_hist ti' = (ti_hist ?ti)(k := g)" "hist_sim (a @ [e]) g" "\<forall>r' > r. ti_before r' ti'"
    by (simp add: restoreKey_def kv(1) KeyValue_roundtrip [OF kv(2)] Let_def) metis
  moreover have "hist_sim (filter (\<lambda>e. rec_of e \<in> set (ys @ [x])) (ti_hist (sIndex s) k')) (ti_hist ti' k')" for k'
    using t(3,4) f(2) f' sim [of k'] by (cases "k' = k") simp_all
  ultimately show ?thesis using r(2) by (auto simp: restored_def)
qed

end
