(* ===== verification/StoreRestart.thy ===== *)
theory StoreRestart
  imports StoreRecover
begin

text \<open>
  Restarting: the loop over the chunks reads every record, and the store that comes out shows what
  the store before showed.
\<close>

section \<open>All records\<close>

lemma restored_chunk:
  assumes ex: "exact s []" and ok: "store_ok s"
  shows "restored s ys st \<Longrightarrow> bucket_keys (sKey s) = ys @ xs @ zs \<Longrightarrow>
    \<exists>st'. restoreChunk xs (map (\<lambda>k. the (fmlookup (sKey s) k)) xs) st = Some st' \<and> restored s (ys @ xs) st'"
proof (induction xs arbitrary: ys st)
  case (Cons x xs)
  have sorted: "sorted_wrt (<) (ys @ x # xs @ zs)" using bucket_sorted [of "sKey s"] Cons.prems(2) by simp
  have dom: "fset (fmdom (sKey s)) = set (ys @ x # xs @ zs)" using set_bucket_keys [of "sKey s"] Cons.prems(2) by simp
  have "\<exists>st'. restoreKey (x, the (fmlookup (sKey s) x)) st = Some st' \<and> restored s (ys @ [x]) st'"
  proof (rule restored_step [OF ex ok Cons.prems(1)])
    show "sorted_wrt (<) (ys @ [x])" using sorted by (auto simp: sorted_wrt_append)
    show "y \<in> set ys" if "y |\<in>| fmdom (sKey s)" "y < x" for y
      using that dom sorted by (auto simp: sorted_wrt_append dest: less_asym)
  qed (use dom in auto)
  then obtain st1 where st1: "restoreKey (x, the (fmlookup (sKey s) x)) st = Some st1" "restored s (ys @ [x]) st1" by blast
  with Cons.IH [of "ys @ [x]" st1] Cons.prems(2) show ?case by (simp add: restoreChunk_def)
qed (simp add: restoreChunk_def)

lemma bucket_ok_split:
  assumes "bucket_ok b" "x |\<in>| fmdom b"
  obtains r m where "x = revToBytes r @ m" "rev_ok r" "int64_ok (sub r + 1)" "bytesToRev x = Some r"
  using assms unfolding bucket_ok_def by force

lemma next_min:
  assumes "exact s []" "bucket_ok (sKey s)" "y |\<in>| fmdom (sKey s)" "z |\<in>| fmdom (sKey s)" "y < z"
  shows "\<exists>r. bytesToRev (take revBytesLen y) = Some r \<and> y < revToBytes (Revision (main r) (sub r + 1))
    \<and> revToBytes (Revision (main r) (sub r + 1)) \<le> z"
proof -
  obtain r m where y: "y = revToBytes r @ m" "rev_ok r" "int64_ok (sub r + 1)" "bytesToRev y = Some r"
    using bucket_ok_split [OF assms(2,3)] by blast
  obtain r' m' where z: "z = revToBytes r' @ m'" "rev_ok r'" "bytesToRev z = Some r'"
    using bucket_ok_split [OF assms(2,4)] by blast
  let ?r = "Revision (main r) (sub r + 1)"
  have ok: "rev_ok ?r" "r < ?r" using y(2,3) by (simp_all add: rev_ok_def revision_less)
  have "r \<noteq> r'" using exactD(3) [OF assms(1,3,4)] assms(5) y(4) z(3) by auto
  moreover have "\<not> r' < r" using revToBytes_order(2) [OF z(2) y(2), of m' m] assms(5) y(1) z(1) by auto
  ultimately have "r < r'" by simp
  then have le: "?r \<le> r'" by (cases r; cases r') (auto simp: revision_less less_eq_revision_def)
  have "bytesToRev (take revBytesLen y) = Some r" using y(1,2) bytesToRev_revToBytes [of r "[]"] by (simp add: revBytesLen_def)
  moreover have "y < revToBytes ?r" using revToBytes_order(2) [OF y(2) ok(1) ok(2), of m "[]"] y(1) by simp
  moreover have "revToBytes ?r @ [] \<le> z"
    using revToBytes_order(2) [OF ok(1) z(2), of "[]" m'] z(1) le
    by (cases "?r = r'") (auto simp: list_le_prefix less_imp_le)
  ultimately show ?thesis by auto
qed

lemma restoreLoop_spec:
  assumes ex: "exact s []" and ok: "store_ok s" and hi: "hi \<noteq> []" "\<forall>z \<in> set (bucket_keys (sKey s)). z < hi" and chunk: "0 < chunk"
  shows "restored s ys st \<Longrightarrow> bucket_keys (sKey s) = ys @ zs \<Longrightarrow> \<forall>y \<in> set ys. y < lo \<Longrightarrow> \<forall>z \<in> set zs. lo \<le> z \<Longrightarrow> length zs < n \<Longrightarrow>
    \<exists>st'. restoreLoop n chunk lo hi (sKey s) st = Some st' \<and> restored s (bucket_keys (sKey s)) st'"
proof (induction n arbitrary: ys zs lo st)
  case (Suc n)
  let ?b = "sKey s"
  have "filter (\<lambda>k. lo \<le> k \<and> k < hi) (bucket_keys ?b) = zs"
    using Suc.prems(2-4) hi(2) by (auto simp: filter_empty_conv filter_id_conv not_le)
  then have keys: "fst (UnsafeRange ?b lo hi chunk) = take (nat chunk) zs"
    using chunk by (simp add: UnsafeRange_filter [OF hi(1)] Let_def)
  then have range: "UnsafeRange ?b lo hi chunk = (take (nat chunk) zs, map (\<lambda>k. the (fmlookup ?b k)) (take (nat chunk) zs))"
    by (simp add: UnsafeRange_def Let_def)
  show ?case
  proof (cases "zs = []")
    case True
    with Suc.prems(1,2) range show ?thesis by simp
  next
    case False
    let ?xs = "take (nat chunk) zs" and ?rest = "drop (nat chunk) zs"
    have ne: "?xs \<noteq> []" using False chunk by simp
    have all: "bucket_keys ?b = ys @ ?xs @ ?rest" using Suc.prems(2) by simp
    from restored_chunk [OF ex ok Suc.prems(1) all] obtain st1 where
      st1: "restoreChunk ?xs (map (\<lambda>k. the (fmlookup ?b k)) ?xs) st = Some st1" "restored s (ys @ ?xs) st1" by blast
    show ?thesis
    proof (cases "int (length ?xs) < chunk")
      case True
      then have "?xs = zs" by simp
      with ne range st1 True Suc.prems(2) show ?thesis by simp
    next
      case full: False
      define y where "y = last ?xs"
      have yx: "y \<in> set ?xs" using ne by (simp add: y_def)
      have sorted: "sorted_wrt (<) (ys @ ?xs @ ?rest)" using bucket_sorted [of ?b] all by simp
      have dom: "fset (fmdom ?b) = set (ys @ ?xs @ ?rest)" using set_bucket_keys [of ?b] all by simp
      have bok: "bucket_ok ?b" by (rule store_okD(2) [OF ok])
      have yd: "y |\<in>| fmdom ?b" unfolding dom using yx by (auto dest: in_set_takeD)
      obtain r m where r: "y = revToBytes r @ m" "rev_ok r" "int64_ok (sub r + 1)"
        by (rule bucket_ok_split [OF bok yd])
      let ?lo = "revToBytes (Revision (main r) (sub r + 1))"
      have take: "bytesToRev (take revBytesLen y) = Some r" using r(1,2) bytesToRev_revToBytes [of r "[]"] by (simp add: revBytesLen_def)
      have "rev_ok (Revision (main r) (sub r + 1))" "r < Revision (main r) (sub r + 1)"
        using r(2,3) by (simp_all add: rev_ok_def revision_less)
      from revToBytes_order(2) [OF r(2) this, of m "[]"] have "y < ?lo" using r(1) by simp
      moreover have "x \<le> y" if "x \<in> set (ys @ ?xs)" for x
      proof -
        have "sorted_wrt (<) (ys @ ?xs)" using sorted unfolding append_assoc [symmetric] by (rule sorted_wrt_append [THEN iffD1, THEN conjunct1])
        from last_greatest [OF this that] ne show ?thesis by (simp add: y_def)
      qed
      ultimately have below: "\<forall>x \<in> set (ys @ ?xs). x < ?lo" by (meson le_less_trans)
      have above: "\<forall>z \<in> set ?rest. ?lo \<le> z"
      proof
        fix z assume z: "z \<in> set ?rest"
        have "sorted_wrt (<) (?xs @ ?rest)" using sorted sorted_wrt_append [of "(<)" ys "?xs @ ?rest"] by blast
        then have "y < z" using sorted_wrt_append [of "(<)" ?xs ?rest] z yx by blast
        have "z |\<in>| fmdom ?b" unfolding dom using z by (auto dest: in_set_dropD)
        from next_min [OF ex bok yd this \<open>y < z\<close>] take show "?lo \<le> z" by simp
      qed
      have "1 \<le> nat chunk" "0 < length zs" using chunk False by simp_all
      then have "length ?rest < n" using Suc.prems(5) unfolding length_drop by arith
      from Suc.IH [OF st1(2) _ below above this] all obtain st2 where
        "restoreLoop n chunk ?lo hi ?b st1 = Some st2" "restored s (bucket_keys ?b) st2" by auto
      with ne range st1(1) full take show ?thesis by (simp add: y_def [symmetric] del: take_eq_Nil2)
    qed
  qed
qed simp

section \<open>What the backend remembers\<close>

lemma metaRev_lookup:
  "metaRev name d s = (case fmlookup (sMeta s) name of None \<Rightarrow> Some d | Some v \<Rightarrow> map_option main (bytesToRev v))"
  by (simp add: metaRev_def UnsafeRange_single split: option.splits)

lemma bytesToRev_revision: "int64_ok m \<Longrightarrow> bytesToRev (revToBytes (Revision m 0)) = Some (Revision m 0)"
  by (simp add: bytesToRev_def revToBytes_def int64_ok_def)

lemma names_differ: "scheduledCompactKeyName \<noteq> finishedCompactKeyName"
  by code_simp

fun job_rev :: "job \<Rightarrow> int" where
  "job_rev (Queued r) = r"
| "job_rev (Sweeping r keep lst) = r"

text \<open>The finished and the scheduled compaction, and a trace of the current revision.\<close>

definition meta_ok :: "store \<Rightarrow> job list \<Rightarrow> bool" where
  "meta_ok s js \<longleftrightarrow> metaRev scheduledCompactKeyName 0 s = Some (if sCompactMainRev s = - 1 then 0 else sCompactMainRev s)
     \<and> (if js = [] then metaRev finishedCompactKeyName (- 1) s = Some (sCompactMainRev s) else job_rev (last js) = sCompactMainRev s)"

definition cur_ok :: "store \<Rightarrow> bool" where
  "cur_ok s \<longleftrightarrow> sCurrentRev s = 1 \<or> sCurrentRev s = sCompactMainRev s
     \<or> (\<exists>k e. e \<in> set (ti_hist (sIndex s) k) \<and> main (fst e) = sCurrentRev s)"

definition durable :: "phase \<Rightarrow> job list \<Rightarrow> bool" where
  "durable ph js \<longleftrightarrow> exact (the_store ph) js \<and> meta_ok (the_store ph) js \<and> cur_ok (the_store ph)
     \<and> (twChanges (txn ph) \<noteq> [] \<longrightarrow> (\<exists>k e. e \<in> set (ti_hist (sIndex (the_store ph)) k) \<and> main (fst e) = twBeginRev (txn ph) + 1))"

lemma meta_ok_cong: "sMeta s' = sMeta s \<Longrightarrow> sCompactMainRev s' = sCompactMainRev s \<Longrightarrow> meta_ok s' js = meta_ok s js"
  by (simp add: meta_ok_def metaRev_lookup)

lemma durable_op:
  assumes "durable (Open tw) js" "kv_inv H ops (Open tw) js" "op_fits op tw" "run_op op tw = Some tw'"
  shows "durable (Open tw') js"
proof -
  note inv = kv_invD [OF assms(2), simplified]
  have d: "exact (twStore tw) js" "meta_ok (twStore tw) js" "cur_ok (twStore tw)"
    "twChanges tw \<noteq> [] \<Longrightarrow> \<exists>k e. e \<in> set (ti_hist (sIndex (twStore tw)) k) \<and> main (fst e) = twBeginRev tw + 1"
    using assms(1) unfolding durable_def txn.simps by blast+
  have e: "one_write\<^sup>*\<^sup>* tw tw'" "same_revs (twStore tw) (twStore tw')" "twBeginRev tw' = twBeginRev tw"
    using run_op_spec(1) [OF inv(1) assms(3,4)] unfolding extends_def by blast+
  have "\<forall>r keep lst. Sweeping r keep lst \<in> set js \<longrightarrow> r \<le> twBeginRev tw" using inv(5,10) by fastforce
  note ew = exact_writes [OF e(1) d(1) this]
  note w = conjunct1 [OF ew] conjunct1 [OF conjunct2 [OF conjunct2 [OF ew]]]
    conjunct1 [OF conjunct2 [OF conjunct2 [OF conjunct2 [OF ew]]], rule_format]
    spec [OF conjunct2 [OF conjunct2 [OF conjunct2 [OF conjunct2 [OF ew]]]]]
  have "meta_ok (twStore tw') js" using d(2) meta_ok_cong [OF w(2)] e(2) by (simp add: same_revs_def)
  moreover have "cur_ok (twStore tw')" using d(3) w(4) e(2) unfolding cur_ok_def same_revs_def by fastforce
  moreover have "\<exists>k e. e \<in> set (ti_hist (sIndex (twStore tw')) k) \<and> main (fst e) = twBeginRev tw + 1" if "twChanges tw' \<noteq> []"
  proof (cases "twChanges tw = []")
    case False
    from d(4) [OF this] obtain k e where e: "e \<in> set (ti_hist (sIndex (twStore tw)) k)" "main (fst e) = twBeginRev tw + 1" by blast
    from subsetD [OF w(4) e(1)] e(2) show ?thesis by blast
  qed (rule w(3) [OF that])
  ultimately show ?thesis using w(1) e(3) unfolding durable_def by simp
qed

lemma durable_end:
  assumes "durable (Open tw) js" "kv_inv H ops (Open tw) js"
  shows "durable (Idle (tw_End tw)) js"
proof -
  have b: "twBeginRev tw = sCurrentRev (twStore tw)" using kv_invD(1) [OF assms(2)] by (simp add: tw_ok_def)
  have "exact (tw_End tw) js = exact (twStore tw) js" by (rule exact_cong) (simp_all add: tw_End_def)
  moreover have "meta_ok (tw_End tw) js = meta_ok (twStore tw) js" by (rule meta_ok_cong) (simp_all add: tw_End_def)
  ultimately show ?thesis
    using assms(1) b by (auto simp: durable_def store_Write_def cur_ok_def tw_End_def)
qed

lemma durable_compact:
  assumes "durable (Idle s) js" "kv_inv H ops (Idle s) js" "updateCompactRev r s = (s', None)"
  shows "durable (Idle s') (js @ [Queued r])"
proof -
  note inv = kv_invD [OF assms(2)]
  have s: "sIndex s' = sIndex s" "sKey s' = sKey s" "sCurrentRev s' = sCurrentRev s" "sCompactMainRev s' = r"
      "sCompactMainRev s < r" "r \<le> sCurrentRev s" "sMeta s' = UnsafePut scheduledCompactKeyName (revToBytes (Revision r 0)) (sMeta s)"
    using assms(3) by (auto simp: updateCompactRev_def split: if_splits)
  have r: "0 \<le> r" "rev_ok (Revision r 0)"
    using s(5,6) inv(2,4) by (auto simp: store_Write_def rev_ok_def int64_ok_def)
  have d: "exact s js" "cur_ok s" using assms(1) by (simp_all add: durable_def store_Write_def)
  have "garbage (js @ [Queued r]) x = garbage js x" for x by (cases js) (auto simp: garbage_def)
  then have "exact s' (js @ [Queued r])" using d(1) s(1,2) unfolding exact_def events_ok_def by simp
  moreover have "meta_ok s' (js @ [Queued r])"
    using r s(4,7) bytesToRev_revToBytes [OF r(2), of "[]"] by (simp add: meta_ok_def metaRev_lookup UnsafePut_def)
  moreover have "cur_ok s'" using d(2) s unfolding cur_ok_def by auto
  ultimately show ?thesis by (simp add: durable_def store_Write_def)
qed

lemma durable_index:
  assumes "durable ph (Queued r # js)" "kv_inv H ops ph (Queued r # js)" "compactIndex r (the_store ph) = Some (s', keep)"
  shows "durable (set_store s' ph) (Sweeping r keep (replicate 17 0) # js)"
proof -
  note inv = kv_invD [OF assms(2)]
  have ok: "store_ok (the_store ph)" using inv(1) unfolding tw_ok_def by blast
  have d: "exact (the_store ph) (Queued r # js)" "meta_ok (the_store ph) (Queued r # js)" "cur_ok (the_store ph)"
    "twChanges (txn ph) \<noteq> [] \<Longrightarrow> \<exists>k e. e \<in> set (ti_hist (sIndex (the_store ph)) k) \<and> main (fst e) = twBeginRev (txn ph) + 1"
    using assms(1) unfolding durable_def by blast+
  obtain c: "same_revs (the_store ph) s'" "sMeta s' = sMeta (the_store ph)"
    "\<And>k. ti_hist (sIndex s') k = hist_compact r (ti_hist (sIndex (the_store ph)) k)"
    using compactIndex_spec [OF ok, of r] assms(3) by (metis option.inject prod.inject)
  have r: "r \<le> sCompactMainRev (the_store ph)" "sCompactMainRev (the_store ph) \<le> twBeginRev (txn ph)"
    "twBeginRev (txn ph) = sCurrentRev (the_store ph)"
    using inv(1,5,10) by (simp_all add: tw_ok_def)
  have keep: "e \<in> set (ti_hist (sIndex s') k)" if "e \<in> set (ti_hist (sIndex (the_store ph)) k)" "r < main (fst e)" for e k
    using that by (simp add: c(3) hist_compact_def)
  have "\<forall>j \<in> set js. \<exists>r. j = Queued r" using inv(11) by simp
  from exact_index [OF d(1) ok assms(3) this] have "exact s' (Sweeping r keep (replicate 17 0) # js)" .
  moreover have "meta_ok s' (Sweeping r keep (replicate 17 0) # js)"
    using d(2) c(1,2) by (simp add: meta_ok_def metaRev_lookup same_revs_def split: if_splits)
  moreover have "cur_ok s'"
  proof (cases "sCurrentRev (the_store ph) = 1 \<or> sCurrentRev (the_store ph) = sCompactMainRev (the_store ph)")
    case False
    then obtain k e where e: "e \<in> set (ti_hist (sIndex (the_store ph)) k)" "main (fst e) = sCurrentRev (the_store ph)"
      using d(3) unfolding cur_ok_def by blast
    have "r < main (fst e)" using False r e(2) by auto
    from keep [OF e(1) this] e(2) c(1) show ?thesis unfolding cur_ok_def same_revs_def by metis
  qed (use c(1) in \<open>auto simp: cur_ok_def same_revs_def\<close>)
  moreover have "\<exists>k e. e \<in> set (ti_hist (sIndex s') k) \<and> main (fst e) = twBeginRev (txn ph) + 1" if ch: "twChanges (txn ph) \<noteq> []"
  proof -
    obtain k e where e: "e \<in> set (ti_hist (sIndex (the_store ph)) k)" "main (fst e) = twBeginRev (txn ph) + 1"
      using d(4) [OF ch] by blast
    have "r < main (fst e)" using r e(2) by simp
    from keep [OF e(1) this] e(2) show ?thesis by blast
  qed
  ultimately show ?thesis
    using txn_set_store(2) [OF c(1)] by (simp add: durable_def txn_set_store(1,3))
qed

lemma durable_batch:
  assumes "durable (Idle s) (Sweeping r keep lst # js)" "kv_inv H ops (Idle s) (Sweeping r keep lst # js)"
    and "compactBatch r keep lst s = Some (s', nxt)"
  shows "durable (Idle s') ((case nxt of None \<Rightarrow> [] | Some l \<Rightarrow> [Sweeping r keep l]) @ js)"
proof -
  note inv = kv_invD [OF assms(2), simplified]
  have ok: "store_ok s" "keep_ok r keep (sIndex s)" "- 1 \<le> r" "r < 9223372036854775808"
    using inv(1,2,5,10) by (simp_all add: tw_ok_def store_Write_def int64_ok_def)
  have d: "exact s (Sweeping r keep lst # js)" "meta_ok s (Sweeping r keep lst # js)" "cur_ok s"
    using assms(1) unfolding durable_def txn.simps store_Write_def by simp_all
  obtain s1 nxt1 where c: "compactBatch r keep lst s = Some (s1, nxt1)" "same_revs s s1" "sIndex s1 = sIndex s"
    "sMeta s1 = (if nxt1 = None then UnsafePut finishedCompactKeyName (revToBytes (Revision r 0)) (sMeta s) else sMeta s)"
    by (rule compactBatch_spec [OF ok, of lst])
  then have e: "s1 = s'" "nxt1 = nxt" using assms(3) by simp_all
  have rev: "r \<le> sCompactMainRev s" "bytesToRev (revToBytes (Revision r 0)) = Some (Revision r 0)"
    using inv(5,10) ok(3,4) by (simp_all add: store_Write_def bytesToRev_revision int64_ok_def)
  have "meta_ok s' ((case nxt of None \<Rightarrow> [] | Some l \<Rightarrow> [Sweeping r keep l]) @ js)"
  proof (cases nxt)
    case None
    have "sCompactMainRev s' = sCompactMainRev s" using c(2) e by (simp add: same_revs_def)
    moreover have "metaRev finishedCompactKeyName (- 1) s' = Some r"
      using c(4) e None rev(2) by (simp add: metaRev_lookup UnsafePut_def)
    moreover have "metaRev scheduledCompactKeyName 0 s' = metaRev scheduledCompactKeyName 0 s"
      using c(4) e None names_differ by (simp add: metaRev_lookup UnsafePut_def)
    ultimately show ?thesis using d(2) None inv(4,10) by (auto simp: meta_ok_def store_Write_def split: if_splits)
  next
    case (Some l)
    then show ?thesis using d(2) c(2,4) e by (simp add: meta_ok_def metaRev_lookup same_revs_def split: if_splits)
  qed
  moreover have "cur_ok s'" using d(3) c(2,3) e by (simp add: cur_ok_def same_revs_def)
  ultimately show ?thesis
    using exact_batch [OF d(1) ok assms(3)] by (simp add: durable_def store_Write_def)
qed

lemma kv_run_durable: "kv_run H ops ph js \<Longrightarrow> durable ph js"
proof (induction rule: kv_run.induct)
  case (kv_new le lim)
  show ?case
    by (simp add: durable_def NewStore_def store_Write_def exact_def events_ok_def meta_ok_def metaRev_lookup cur_ok_def)
next
  case (kv_begin H ops s js)
  then show ?case by (simp add: durable_def store_Write_def)
next
  case (kv_lessor H ops ph js le)
  let ?s = "(the_store ph)\<lparr>sLessor := le\<rparr>"
  have "exact ?s js = exact (the_store ph) js" by (rule exact_cong) simp_all
  moreover have "meta_ok ?s js = meta_ok (the_store ph) js" by (rule meta_ok_cong) simp_all
  moreover have "cur_ok ?s = cur_ok (the_store ph)" by (simp add: cur_ok_def)
  moreover have "twBeginRev (txn (set_store ?s ph)) = twBeginRev (txn ph)" by (rule txn_set_store(2)) (simp add: same_revs_def)
  ultimately show ?case using kv_lessor(2) by (simp add: durable_def txn_set_store(1,3))
next
  case (kv_op H ops tw js op tw')
  show ?case by (rule durable_op [OF kv_op(4) kv_run_inv [OF kv_op(1)] kv_op(2,3)])
next
  case (kv_end H ops tw js)
  show ?case by (rule durable_end [OF kv_end(2) kv_run_inv [OF kv_end(1)]])
next
  case (kv_compact H ops s js r s')
  show ?case by (rule durable_compact [OF kv_compact(3) kv_run_inv [OF kv_compact(1)] kv_compact(2)])
next
  case (kv_index H ops ph r js s' keep)
  show ?case by (rule durable_index [OF kv_index(3) kv_run_inv [OF kv_index(1)] kv_index(2)])
next
  case (kv_batch H ops s r keep lst js s' lst')
  then show ?case using durable_batch [OF kv_batch(3) kv_run_inv [OF kv_batch(1)] kv_batch(2)] by simp
next
  case (kv_done H ops s r keep lst js s')
  then show ?case using durable_batch [OF kv_done(3) kv_run_inv [OF kv_done(1)] kv_done(2)] by simp
qed

section \<open>The restarted store\<close>

lemma attachAll_frame:
  assumes "sLessor s = Some le"
  shows "\<exists>le'. attachAll leases s = Some (s\<lparr>sLessor := Some le'\<rparr>)"
proof -
  have "\<forall>key \<in> set ks. key |\<in>| fmdom leases \<Longrightarrow> \<exists>le'. foldM (\<lambda>key s. do {
         le \<leftarrow> sLessor s;
         i \<leftarrow> fmlookup leases key;
         Some (s\<lparr>sLessor := Some (snd (Attach i [key] le))\<rparr>)
       }) ks (s\<lparr>sLessor := Some le\<rparr>) = Some (s\<lparr>sLessor := Some le'\<rparr>)" for ks le
  proof (induction ks arbitrary: le)
    case (Cons k ks)
    then obtain i where "fmlookup leases k = Some i" by (auto simp: in_fmdom)
    with Cons.IH [of "snd (Attach i [k] le)"] Cons.prems show ?case by simp
  next
    case Nil
    show ?case unfolding foldM.simps by blast
  qed
  from this [of "sorted_list_of_fset (fmdom leases)" le] have "\<exists>le'. attachAll leases (s\<lparr>sLessor := Some le\<rparr>) = Some (s\<lparr>sLessor := Some le'\<rparr>)"
    by (simp add: attachAll_def)
  moreover have "s\<lparr>sLessor := Some le\<rparr> = s" using assms by simp
  ultimately show ?thesis by simp
qed

lemma list_all2_member: "list_all2 P xs ys \<Longrightarrow> y \<in> set ys \<Longrightarrow> \<exists>x \<in> set xs. P x y"
  by (induction xs ys rule: list_all2_induct) auto

lemma view_sim:
  assumes "store_ok s" "ti_wf ti" "\<And>k. hist_sim (ti_hist (sIndex s) k) (ti_hist ti k)" "sKey s' = sKey s" "sIndex s' = ti"
  shows "store_ok s'" "view s' = view s"
proof -
  show "store_ok s'"
    unfolding store_ok_def assms(4,5)
  proof (intro conjI allI impI)
    fix k e assume "e \<in> set (ti_hist ti k)"
    with assms(3) [of k] obtain e' where "e' \<in> set (ti_hist (sIndex s) k)" "event_sim e' e"
      using list_all2_member by metis
    then show "rev_ok (fst e)" using store_okD(3) [OF assms(1)] by (metis event_sim_def)
  next
    fix k r c v assume "(r, Some (c, v)) \<in> set (ti_hist ti k)"
    with assms(3) [of k] obtain e' where e': "e' \<in> set (ti_hist (sIndex s) k)" "event_sim e' (r, Some (c, v))"
      using list_all2_member by metis
    then obtain c' where c': "e' = (r, Some (c', v))" "main c' = main c"
    proof -
      obtain r' x where x: "e' = (r', x)" by (cases e')
      with e'(2) that show thesis by (auto simp: event_sim_def option_rel_Some2)
    qed
    from store_okD(4) [OF assms(1), of r c' v k] e'(1) c'(1) obtain kv where "stored (sKey s) k r c' v kv" by blast
    then have "stored (sKey s) k r c v kv" using c'(2) by (simp add: stored_def)
    then show "\<exists>kv. stored (sKey s) k r c v kv" by blast
  qed (use assms(2) store_okD(2) [OF assms(1)] in auto)
  have r: "readRev s' = readRev s" using readRev_cong [OF assms(4)] by (rule ext)
  show "view s' = view s"
  proof (intro ext)
    fix t k
    show "view s' t k = view s t k"
      using alive_at_sim [OF assms(3) [of k], of t] unfolding view_def r assms(5)
      by (cases "alive_at t (ti_hist (sIndex s) k)"; cases "alive_at t (ti_hist ti k)") auto
  qed
qed

lemma range_view_eq:
  assumes "store_ok s" "store_ok s'" "view s' = view s"
    and "sCurrentRev s' = sCurrentRev s" "sCompactMainRev s' = sCompactMainRev s" "sCompactMainRev s \<le> sCurrentRev s"
  shows "store_Range key endk ro s' = store_Range key endk ro s"
proof (cases "roRev ro \<le> sCurrentRev s \<and> (0 < roRev ro \<longrightarrow> sCompactMainRev s \<le> roRev ro)")
  case True
  have "present s' t key endk = present s t key endk" for t
    by (rule strict_sorted_equal) (simp_all add: present_sorted present_set assms(1,2,3))
  with True show ?thesis
    using rangeKeys_view [OF assms(1), of ro "sCurrentRev s" key endk] rangeKeys_view [OF assms(2), of ro "sCurrentRev s" key endk] assms(3-)
    by (simp add: store_Range_def)
qed (auto simp: store_Range_def rangeKeys_def Let_def assms(4,5))

text \<open>The revision that the last record gives, raised to the one of the last compaction, is the current one.\<close>

lemma restored_current:
  assumes "kv_inv H [] (Idle s) []" "durable (Idle s) []" "restored s (bucket_keys (sKey s)) st"
  shows "max (rsCurrentRev st) (sCompactMainRev s) = sCurrentRev s"
proof -
  note inv = kv_invD [OF assms(1)]
  have ok: "store_ok s" and ex: "exact s []" and cur: "cur_ok s" and one: "1 \<le> sCurrentRev s"
    using inv(1) assms(2) by (simp_all add: tw_ok_def durable_def store_Write_def)
  have le: "sCompactMainRev s \<le> sCurrentRev s" using inv(5) by (simp add: store_Write_def)
  have before: "main (fst e) \<le> sCurrentRev s" if "e \<in> set (ti_hist (sIndex s) k)" for e k
    using ti_before_events [OF tw_okD(2,3) [OF inv(1)]] that store_okD(3) [OF ok that]
    by (fastforce simp: store_Write_def revision_less rev_ok_def)
  let ?ks = "bucket_keys (sKey s)"
  have event: "\<exists>k e. e \<in> set (ti_hist (sIndex s) k) \<and> x = rec_of e" if "x \<in> set ?ks" for x
    using exactD(2) [OF ex, of x] that by (simp add: set_bucket_keys garbage_def)
  show ?thesis
  proof (cases "?ks = []")
    case True
    then have none: "ti_hist (sIndex s) k = []" for k
      using exactD(7) [OF ex] set_bucket_keys [of "sKey s"] by (metis empty_iff fmdomI last_in_set list.set(1))
    have "rsCurrentRev st = 1" using assms(3) True by (simp add: restored_def)
    with cur none one le show ?thesis by (auto simp: cur_ok_def)
  next
    case False
    obtain k e where e: "e \<in> set (ti_hist (sIndex s) k)" "last ?ks = rec_of e" using event [OF last_in_set [OF False]] by blast
    have cr: "rsCurrentRev st = main (fst e)"
      using assms(3) False e(2) rec_of_rev [OF store_okD(3) [OF ok e(1)]] by (simp add: restored_def)
    have "main (fst e') \<le> main (fst e)" if e': "e' \<in> set (ti_hist (sIndex s) k')" for e' k'
    proof -
      have "rec_of e' \<in> set ?ks" using exactD(7) [OF ex e'] by (auto simp: set_bucket_keys in_fmdom)
      then have "rec_of e' \<le> rec_of e" using last_greatest [OF bucket_sorted] e(2) by metis
      then have "\<not> fst e < fst e'" using rec_of_less [OF store_okD(3) [OF ok e(1)] store_okD(3) [OF ok e']] by auto
      then show ?thesis by (auto simp: revision_less not_less)
    qed
    then have "sCurrentRev s = 1 \<or> sCurrentRev s = sCompactMainRev s \<or> sCurrentRev s \<le> main (fst e)"
      using cur unfolding cur_ok_def by metis
    then show ?thesis using cr before [OF e(1)] exactD(6) [OF ex e(1)] le by auto
  qed
qed

end
