(* ===== verification/StoreCrash.thy ===== *)
theory StoreCrash
  imports StoreRestart
begin

text \<open>
  What a crash in the middle of a compaction leaves in the backend: the revisions of the finished and
  of the pending compactions in order, and a record of the current revision unless a compaction at
  that revision has swept it.
\<close>

section \<open>The compactions in the meta bucket\<close>

definition compactions_ok :: "store \<Rightarrow> job list \<Rightarrow> bool" where
  "compactions_ok s js \<longleftrightarrow> (\<exists>f. metaRev finishedCompactKeyName (- 1) s = Some f \<and> - 1 \<le> f
     \<and> sorted_wrt (<) (f # map job_rev js) \<and> last (f # map job_rev js) = sCompactMainRev s)"

lemma compactions_cong:
  "sMeta s' = sMeta s \<Longrightarrow> sCompactMainRev s' = sCompactMainRev s \<Longrightarrow> map job_rev js' = map job_rev js \<Longrightarrow>
    compactions_ok s' js' = compactions_ok s js"
  by (simp add: compactions_ok_def metaRev_lookup del: last.simps list.simps(9))

lemma compactions_le:
  assumes "compactions_ok s js" "j \<in> set js"
  shows "job_rev j \<le> sCompactMainRev s"
proof -
  obtain f where f: "sorted_wrt (<) (f # map job_rev js)" "last (f # map job_rev js) = sCompactMainRev s"
    using assms(1) unfolding compactions_ok_def by blast
  have "job_rev j \<in> set (f # map job_rev js)" using assms(2) by simp
  from last_greatest [OF f(1) this] f(2) show ?thesis by simp
qed

lemma compactions_request:
  assumes "compactions_ok s js" "updateCompactRev r s = (s', None)"
  shows "compactions_ok s' (js @ [Queued r])"
proof -
  obtain f where f: "metaRev finishedCompactKeyName (- 1) s = Some f" "- 1 \<le> f" "sorted_wrt (<) (f # map job_rev js)"
    "last (f # map job_rev js) = sCompactMainRev s" using assms(1) unfolding compactions_ok_def by blast
  have s: "sCompactMainRev s' = r" "sCompactMainRev s < r" "sMeta s' = UnsafePut scheduledCompactKeyName (revToBytes (Revision r 0)) (sMeta s)"
    using assms(2) by (auto simp: updateCompactRev_def split: if_splits)
  have le: "x < r" if "x \<in> set (f # map job_rev js)" for x using last_greatest [OF f(3) that] f(4) s(2) by simp
  have "sorted_wrt (<) ((f # map job_rev js) @ [r])" using f(3) le by (simp only: sorted_wrt_append) simp
  then have "sorted_wrt (<) (f # map job_rev (js @ [Queued r]))" by simp
  moreover have "metaRev finishedCompactKeyName (- 1) s' = Some f"
    using f(1) names_differ by (simp add: metaRev_lookup s(3) UnsafePut_def)
  ultimately show ?thesis using f(2) s(1) unfolding compactions_ok_def by (intro exI [of _ f]) simp
qed

lemma compactions_done:
  assumes "compactions_ok s (Sweeping r keep lst # js)" "- 1 \<le> r" "r < 9223372036854775808"
    and "sMeta s' = UnsafePut finishedCompactKeyName (revToBytes (Revision r 0)) (sMeta s)" "sCompactMainRev s' = sCompactMainRev s"
  shows "compactions_ok s' js"
proof -
  have "metaRev finishedCompactKeyName (- 1) s' = Some r"
    using assms(2,3) bytesToRev_revision [of r] by (simp add: metaRev_lookup assms(4) UnsafePut_def int64_ok_def)
  then show ?thesis using assms(1,2,5) unfolding compactions_ok_def by (intro exI [of _ r]) (auto split: if_splits)
qed

section \<open>The record of the current revision\<close>

definition has_rev :: "store \<Rightarrow> int \<Rightarrow> bool" where
  "has_rev s t \<longleftrightarrow> (\<exists>x r. x |\<in>| fmdom (sKey s) \<and> bytesToRev x = Some r \<and> main r = t)"

definition newest_ok :: "store \<Rightarrow> job list \<Rightarrow> bool" where
  "newest_ok s js \<longleftrightarrow> sCurrentRev s = 1 \<or> has_rev s (sCurrentRev s)
     \<or> sCurrentRev s = sCompactMainRev s \<and> (\<forall>r. Queued r \<notin> set js) \<and> (\<forall>x. x |\<in>| fmdom (sKey s) \<longrightarrow> \<not> garbage js x)"

lemma newest_cong:
  "sKey s' = sKey s \<Longrightarrow> sCurrentRev s' = sCurrentRev s \<Longrightarrow> sCompactMainRev s' = sCompactMainRev s \<Longrightarrow> newest_ok s' js = newest_ok s js"
  by (simp add: newest_ok_def has_rev_def)

lemma has_rev_event:
  assumes "exact s js" "store_ok s" "e \<in> set (ti_hist (sIndex s) k)"
  shows "has_rev s (main (fst e))"
proof -
  have "rec_of e |\<in>| fmdom (sKey s)" using exactD(7) [OF assms(1,3)] by (auto simp: in_fmdom)
  with rec_of_rev [OF store_okD(3) [OF assms(2,3)]] show ?thesis unfolding has_rev_def by blast
qed

text \<open>Writes add records of the next revision.\<close>

lemma writes_records:
  assumes "one_write\<^sup>*\<^sup>* tw tw'"
  shows "fmdom (sKey (twStore tw)) |\<subseteq>| fmdom (sKey (twStore tw')) \<and> twBeginRev tw' = twBeginRev tw
    \<and> (\<forall>x. x |\<in>| fmdom (sKey (twStore tw')) \<longrightarrow> x |\<notin>| fmdom (sKey (twStore tw)) \<longrightarrow>
        (\<exists>r. bytesToRev x = Some r \<and> main r = twBeginRev tw + 1))"
  using assms
proof (induction rule: rtranclp_induct)
  case (step tw1 tw2)
  let ?r = "Revision (twBeginRev tw1 + 1) (int (length (twChanges tw1)))"
  obtain x kv where w: "rev_ok ?r" "twBeginRev tw2 = twBeginRev tw1"
    "sKey (twStore tw2) = UnsafePut (rec_of (?r, x)) (KeyValue_MarshalTo kv) (sKey (twStore tw1))"
    using step(2) unfolding one_write_def Let_def by blast
  have "bytesToRev (rec_of (?r, x)) = Some ?r" using rec_of_rev [of "(?r, x)"] w(1) by simp
  with step(3) w(2,3) show ?case by (auto simp: UnsafePut_def)
qed simp

lemma newest_writes:
  assumes "newest_ok (twStore tw) js" "one_write\<^sup>*\<^sup>* tw tw'" "same_revs (twStore tw) (twStore tw')"
    and "\<forall>j \<in> set js. job_rev j \<le> twBeginRev tw"
  shows "newest_ok (twStore tw') js"
proof -
  note w = writes_records [OF assms(2)]
  have "has_rev (twStore tw') t" if "has_rev (twStore tw) t" for t using that w unfolding has_rev_def by blast
  moreover have "\<not> garbage js x" if x: "x |\<in>| fmdom (sKey (twStore tw'))" and old: "\<forall>x. x |\<in>| fmdom (sKey (twStore tw)) \<longrightarrow> \<not> garbage js x" for x
  proof (cases "x |\<in>| fmdom (sKey (twStore tw))")
    case False
    then obtain r where r: "bytesToRev x = Some r" "main r = twBeginRev tw + 1" using w x by blast
    show ?thesis
    proof
      assume "garbage js x"
      then obtain r0 keep lst js' r' m where g: "js = Sweeping r0 keep lst # js'" "x = revToBytes r' @ m" "rev_ok r'" "main r' \<le> r0"
        unfolding garbage_def by blast
      then show False using assms(4) r by auto
    qed
  qed (use old in blast)
  ultimately show ?thesis using assms(1,3) unfolding newest_ok_def same_revs_def by metis
qed

text \<open>A batch may remove the last record of the current revision; then nothing is left to sweep.\<close>

lemma kept_record:
  assumes "exact s js" "Sweeping r keep lst \<in> set js" "keep_ok r keep (sIndex s)" "store_ok s"
    and "x |\<in>| fmdom (sKey s)" "\<not> garbage js x" "bytesToRev x = Some r'" "main r' \<le> r"
  shows "r' |\<in>| keep"
proof -
  obtain k e where e: "e \<in> set (ti_hist (sIndex s) k)" "x = rec_of e" using exactD(2) [OF assms(1,5)] assms(6) by blast
  have r': "fst e = r'" using rec_of_rev [OF store_okD(3) [OF assms(4) e(1)]] e(2) assms(7) by simp
  then have "snd e \<noteq> None" using exactD(4) [OF assms(1,2) e(1)] assms(8) by simp
  with keep_okD [OF assms(3), of "fst e"] e(1) r' assms(8) show ?thesis by (metis not_None_eq prod.collapse)
qed

lemma newest_batch:
  assumes "newest_ok s (Sweeping r keep lst # js)" "exact s (Sweeping r keep lst # js)" "store_ok s" "keep_ok r keep (sIndex s)"
    and "- 1 \<le> r" "r < 9223372036854775808" "compactions_ok s (Sweeping r keep lst # js)" "sCompactMainRev s \<le> sCurrentRev s"
    and "\<forall>j \<in> set js. \<exists>r. j = Queued r" "compactBatch r keep lst s = Some (s', nxt)"
  shows "newest_ok s' ((case nxt of None \<Rightarrow> [] | Some l \<Rightarrow> [Sweeping r keep l]) @ js)"
proof -
  let ?stop = "PutUint64 (u64_of (r + 1))" and ?js = "(case nxt of None \<Rightarrow> [] | Some l \<Rightarrow> [Sweeping r keep l]) @ js"
  define keys where "keys = fst (UnsafeRange (sKey s) lst ?stop (sBatchLimit s))"
  have bok: "bucket_ok (sKey s)" using store_okD(2) [OF assms(3)] .
  have ne: "?stop \<noteq> []" using length_PutUint64 [of "u64_of (r + 1)"] by fastforce
  obtain c: "same_revs s s'" "fmdom (sKey s') |\<subseteq>| fmdom (sKey s)"
    "\<And>x. fmlookup (sKey s') x = (if x \<in> set keys \<and> the (bytesToRev x) |\<notin>| keep then None else fmlookup (sKey s) x)"
    "nxt = (if int (length keys) < sBatchLimit s then None
      else Some (if keys = [] then revToBytes (Revision 0 1)
        else revToBytes (case the (bytesToRev (last keys)) of Revision m n \<Rightarrow> Revision m (n + 1))))"
  proof -
    obtain s1 nxt1 where "compactBatch r keep lst s = Some (s1, nxt1)" "same_revs s s1" "fmdom (sKey s1) |\<subseteq>| fmdom (sKey s)"
      "\<And>x. fmlookup (sKey s1) x = (if x \<in> set keys \<and> the (bytesToRev x) |\<notin>| keep then None else fmlookup (sKey s) x)"
      "nxt1 = (if int (length keys) < sBatchLimit s then None
        else Some (if keys = [] then revToBytes (Revision 0 1)
          else revToBytes (case the (bytesToRev (last keys)) of Revision m n \<Rightarrow> Revision m (n + 1))))"
      by (rule compactBatch_spec [OF assms(3-6), of lst]) (simp add: keys_def Let_def)
    with assms(10) that show thesis by simp
  qed
  have revs: "sCurrentRev s' = sCurrentRev s" "sCompactMainRev s' = sCompactMainRev s" using c(1) by (simp_all add: same_revs_def)
  consider "sCurrentRev s = 1" | x rx where "x |\<in>| fmdom (sKey s)" "bytesToRev x = Some rx" "main rx = sCurrentRev s"
    | "sCurrentRev s = sCompactMainRev s" "\<forall>r'. Queued r' \<notin> set js" "\<forall>x. x |\<in>| fmdom (sKey s) \<longrightarrow> \<not> garbage (Sweeping r keep lst # js) x"
    using assms(1) unfolding newest_ok_def has_rev_def by auto
  then show ?thesis
  proof cases
    case 1
    then show ?thesis by (simp add: newest_ok_def revs)
  next
    case 2
    show ?thesis
    proof (cases "x |\<in>| fmdom (sKey s')")
      case True
      with 2 show ?thesis unfolding newest_ok_def has_rev_def revs by blast
    next
      case False
      then have x: "x \<in> set keys" using 2(1) c(3) [of x] by (auto simp: in_fmdom split: if_splits)
      then have "x < ?stop" using UnsafeRange_keys ne unfolding keys_def by blast
      moreover obtain m where rx: "x = revToBytes rx @ m" "rev_ok rx"
        using bucket_ok_split [OF bok 2(1)] 2(2) by (metis option.inject)
      ultimately have "sCurrentRev s \<le> r" using below_end [OF rx(2) assms(5,6), of m] 2(3) rx(1) by simp
      moreover have "r \<le> sCompactMainRev s" using compactions_le [OF assms(7), of "Sweeping r keep lst"] by simp
      ultimately have r: "r = sCurrentRev s" "sCurrentRev s = sCompactMainRev s" using assms(8) by simp_all
      have js: "js = []"
      proof (rule ccontr)
        assume "js \<noteq> []"
        then obtain j where j: "j \<in> set js" by (cases js) auto
        then have "r < job_rev j" using assms(7) by (auto simp: compactions_ok_def)
        moreover have "job_rev j \<le> sCompactMainRev s" using compactions_le [OF assms(7), of j] j by simp
        ultimately show False using r by simp
      qed
      have "\<not> garbage ?js y" if y: "y |\<in>| fmdom (sKey s')" and none: "\<not> has_rev s' (sCurrentRev s)" for y
      proof
        assume "garbage ?js y"
        then obtain l r' m' where g: "nxt = Some l" "l \<le> y" "y = revToBytes r' @ m'" "rev_ok r'" "main r' \<le> r"
          unfolding garbage_def by (cases nxt) (auto simp: js)
        have "main r' \<noteq> sCurrentRev s" using none y g(3,4) unfolding has_rev_def by auto
        then have lt: "main r' < main rx" using g(5) r(1) 2(3) by simp
        have nk: "keys \<noteq> []" using x by auto
        obtain rl ml where rl: "last keys = revToBytes rl @ ml" "rev_ok rl" "int64_ok (sub rl + 1)" "bytesToRev (last keys) = Some rl"
          using bucket_ok_keys [OF bok _ ne, of "last keys" lst "sBatchLimit s"] last_in_set [OF nk] unfolding keys_def by metis
        have "sorted_wrt (<) keys" unfolding keys_def UnsafeRange_filter [OF ne] Let_def
          by (simp add: sorted_wrt_filter bucket_sorted sorted_wrt_take)
        then have "x \<le> last keys" using last_greatest x by blast
        moreover have "l = revToBytes (Revision (main rl) (sub rl + 1))"
          using g(1) c(4) nk rl(4) by (cases rl) (simp split: if_splits)
        moreover have "rev_ok (Revision (main rl) (sub rl + 1))" "rl < Revision (main rl) (sub rl + 1)"
          using rl(2,3) by (simp_all add: rev_ok_def revision_less)
        then have "last keys < revToBytes (Revision (main rl) (sub rl + 1))"
          using revToBytes_order(2) [OF rl(2), of "Revision (main rl) (sub rl + 1)" ml "[]"] rl(1) by simp
        ultimately have "x < y" using g(2) by auto
        moreover have "r' < rx" using lt by (simp add: revision_less)
        then have "y < x" using revToBytes_order(2) [OF g(4) rx(2), of m' m] g(3) rx(1) by simp
        ultimately show False by simp
      qed
      moreover have "Queued r' \<notin> set ?js" for r' by (simp add: js split: option.split)
      ultimately show ?thesis using r(2) unfolding newest_ok_def revs by metis
    qed
  next
    case 3
    have js: "js = []" using 3(2) assms(9) by (cases js) auto
    have "\<not> garbage ?js y" if y: "y |\<in>| fmdom (sKey s')" for y
    proof
      assume "garbage ?js y"
      then obtain r' m' where g: "y = revToBytes r' @ m'" "rev_ok r'" "main r' \<le> r" "r' |\<notin>| keep"
        unfolding garbage_def by (cases nxt) (auto simp: js)
      have "y |\<in>| fmdom (sKey s)" using y c(2) by blast
      with kept_record [OF assms(2) list.set_intros(1) assms(4,3), where x = y and r' = r'] 3(3) g show False by simp
    qed
    then show ?thesis using 3(1) by (auto simp: newest_ok_def revs js split: option.split)
  qed
qed

section \<open>Every run\<close>

definition crash_ok :: "store \<Rightarrow> job list \<Rightarrow> bool" where
  "crash_ok s js \<longleftrightarrow> compactions_ok s js \<and> newest_ok s js"

lemma crash_cong:
  "sKey s' = sKey s \<Longrightarrow> sMeta s' = sMeta s \<Longrightarrow> sCurrentRev s' = sCurrentRev s \<Longrightarrow> sCompactMainRev s' = sCompactMainRev s \<Longrightarrow>
    crash_ok s' js = crash_ok s js"
  using newest_cong [of s' s js] compactions_cong [of s' s js js] by (simp add: crash_ok_def)

lemma crash_op:
  assumes "crash_ok (twStore tw) js" "kv_inv H ops (Open tw) js" "durable (Open tw) js" "op_fits op tw" "run_op op tw = Some tw'"
  shows "crash_ok (twStore tw') js"
proof -
  note inv = kv_invD [OF assms(2), simplified]
  have e: "one_write\<^sup>*\<^sup>* tw tw'" "same_revs (twStore tw) (twStore tw')"
    using run_op_spec(1) [OF inv(1) assms(4,5)] unfolding extends_def by blast+
  have ex: "exact (twStore tw) js" using assms(3) unfolding durable_def txn.simps by blast
  have c: "compactions_ok (twStore tw) js" "newest_ok (twStore tw) js" using assms(1) by (simp_all add: crash_ok_def)
  have le: "\<forall>j \<in> set js. job_rev j \<le> twBeginRev tw" using compactions_le [OF c(1)] inv(5) by fastforce
  have "\<forall>r keep lst. Sweeping r keep lst \<in> set js \<longrightarrow> r \<le> twBeginRev tw" using le by fastforce
  then have "sMeta (twStore tw') = sMeta (twStore tw)" using exact_writes [OF e(1) ex] by blast
  then have "compactions_ok (twStore tw') js" using c(1) compactions_cong [of "twStore tw'" "twStore tw" js js] e(2) by (simp add: same_revs_def)
  with newest_writes [OF c(2) e le] show ?thesis by (simp add: crash_ok_def)
qed

lemma crash_end:
  assumes "crash_ok (twStore tw) js" "kv_inv H ops (Open tw) js" "durable (Open tw) js"
  shows "crash_ok (tw_End tw) js"
proof (cases "twChanges tw = []")
  case True
  then show ?thesis using assms(1) crash_cong [of "tw_End tw" "twStore tw" js] by (simp add: tw_End_def)
next
  case False
  note inv = kv_invD [OF assms(2), simplified]
  have b: "twBeginRev tw = sCurrentRev (twStore tw)" "store_ok (twStore tw)" using inv(1) by (simp_all add: tw_ok_def)
  obtain k e where e: "e \<in> set (ti_hist (sIndex (twStore tw)) k)" "main (fst e) = twBeginRev tw + 1"
    using assms(3) False unfolding durable_def txn.simps by blast
  have ex: "exact (twStore tw) js" using assms(3) unfolding durable_def txn.simps by blast
  have "has_rev (tw_End tw) (sCurrentRev (tw_End tw))"
    using has_rev_event [OF ex b(2) e(1)] e(2) b(1) False by (simp add: has_rev_def tw_End_def)
  moreover have "compactions_ok (tw_End tw) js"
    using assms(1) compactions_cong [of "tw_End tw" "twStore tw" js js] by (simp add: crash_ok_def tw_End_def)
  ultimately show ?thesis by (simp add: crash_ok_def newest_ok_def)
qed

lemma crash_batch_step:
  assumes "crash_ok s (Sweeping r keep lst # js)" "kv_inv H ops (Idle s) (Sweeping r keep lst # js)"
    and "durable (Idle s) (Sweeping r keep lst # js)" "compactBatch r keep lst s = Some (s', nxt)"
  shows "crash_ok s' ((case nxt of None \<Rightarrow> [] | Some l \<Rightarrow> [Sweeping r keep l]) @ js)"
proof -
  note inv = kv_invD [OF assms(2), simplified]
  have ok: "store_ok s" "keep_ok r keep (sIndex s)" "- 1 \<le> r" "r < 9223372036854775808" "sCompactMainRev s \<le> sCurrentRev s"
    using inv(1,2,5,10) by (simp_all add: tw_ok_def store_Write_def int64_ok_def)
  have ex: "exact s (Sweeping r keep lst # js)" using assms(3) unfolding durable_def txn.simps store_Write_def by simp
  have c: "compactions_ok s (Sweeping r keep lst # js)" "newest_ok s (Sweeping r keep lst # js)" using assms(1) by (simp_all add: crash_ok_def)
  obtain s1 nxt1 where m: "compactBatch r keep lst s = Some (s1, nxt1)" "same_revs s s1"
    "sMeta s1 = (if nxt1 = None then UnsafePut finishedCompactKeyName (revToBytes (Revision r 0)) (sMeta s) else sMeta s)"
    by (rule compactBatch_spec [OF ok(1-4), of lst])
  then have e: "s1 = s'" "nxt1 = nxt" using assms(4) by simp_all
  have "compactions_ok s' ((case nxt of None \<Rightarrow> [] | Some l \<Rightarrow> [Sweeping r keep l]) @ js)"
  proof (cases nxt)
    case None
    then show ?thesis using compactions_done [OF c(1) ok(3,4)] m(2,3) e by (simp add: same_revs_def)
  next
    case (Some l)
    then show ?thesis using c(1) compactions_cong [of s' s "Sweeping r keep l # js" "Sweeping r keep lst # js"] m(2,3) e by (simp add: same_revs_def)
  qed
  moreover have "\<forall>j \<in> set js. \<exists>r. j = Queued r" using inv(11) by simp
  ultimately show ?thesis
    using newest_batch [OF c(2) ex ok(1-4) c(1) ok(5) _ assms(4)] by (simp add: crash_ok_def)
qed

lemma kv_run_crash: "kv_run H ops ph js \<Longrightarrow> crash_ok (the_store ph) js"
proof (induction rule: kv_run.induct)
  case (kv_new le lim)
  show ?case by (simp add: crash_ok_def compactions_ok_def newest_ok_def metaRev_lookup NewStore_def store_Write_def)
next
  case (kv_begin H ops s js)
  then show ?case by (simp add: store_Write_def)
next
  case (kv_op H ops tw js op tw')
  then show ?case using crash_op [OF _ kv_run_inv [OF kv_op(1)] kv_run_durable [OF kv_op(1)] kv_op(2,3)] by simp
next
  case (kv_end H ops tw js)
  then show ?case using crash_end [OF _ kv_run_inv [OF kv_end(1)] kv_run_durable [OF kv_end(1)]] by (simp add: store_Write_def)
next
  case (kv_lessor H ops ph js le)
  then show ?case using crash_cong [of "(the_store ph)\<lparr>sLessor := le\<rparr>" "the_store ph" js] by (simp add: txn_set_store)
next
  case (kv_compact H ops s js r s')
  have s: "crash_ok s js" using kv_compact(3) by (simp add: store_Write_def)
  have u: "sKey s' = sKey s" "sCurrentRev s' = sCurrentRev s" "sCompactMainRev s < r" "r \<le> sCurrentRev s"
    using kv_compact(2) by (auto simp: updateCompactRev_def split: if_splits)
  then have "newest_ok s' (js @ [Queued r])" using s unfolding crash_ok_def newest_ok_def has_rev_def by auto
  with compactions_request [OF _ kv_compact(2)] s show ?case by (simp add: crash_ok_def store_Write_def)
next
  case (kv_index H ops ph r js s' keep)
  have s: "crash_ok (the_store ph) (Queued r # js)" using kv_index(3) .
  have ok: "store_ok (the_store ph)" using kv_invD(1) [OF kv_run_inv [OF kv_index(1)]] unfolding tw_ok_def by blast
  have c: "same_revs (the_store ph) s'" "sMeta s' = sMeta (the_store ph)" "sKey s' = sKey (the_store ph)"
    using compactIndex_spec [OF ok, of r] kv_index(2) by (metis option.inject prod.inject)+
  have "newest_ok s' (Sweeping r keep (replicate 17 0) # js)"
    using s c unfolding crash_ok_def newest_ok_def has_rev_def same_revs_def by auto
  moreover have "compactions_ok s' (Sweeping r keep (replicate 17 0) # js)"
    using s c compactions_cong [of s' "the_store ph" "Sweeping r keep (replicate 17 0) # js" "Queued r # js"] by (simp add: crash_ok_def same_revs_def)
  ultimately show ?case by (simp add: crash_ok_def txn_set_store)
next
  case (kv_batch H ops s r keep lst js s' lst')
  then show ?case using crash_batch_step [OF _ kv_run_inv [OF kv_batch(1)] kv_run_durable [OF kv_batch(1)] kv_batch(2)] by (simp add: store_Write_def)
next
  case (kv_done H ops s r keep lst js s')
  then show ?case using crash_batch_step [OF _ kv_run_inv [OF kv_done(1)] kv_run_durable [OF kv_done(1)] kv_done(2)] by (simp add: store_Write_def)
qed

text \<open>Without a record of the current revision, and with a compaction at work, all that is left is in the index.\<close>

lemma crash_state:
  assumes "kv_run H [] (Idle s) js" "js \<noteq> []" "sCurrentRev s \<noteq> 1" "\<not> has_rev s (sCurrentRev s)"
  obtains f where "exact s []" "metaRev finishedCompactKeyName (- 1) s = Some f" "- 1 \<le> f" "f < sCurrentRev s"
    "sCompactMainRev s = sCurrentRev s" "metaRev scheduledCompactKeyName 0 s = Some (sCurrentRev s)"
proof -
  have c: "compactions_ok s js" "newest_ok s js" using kv_run_crash [OF assms(1)] by (simp_all add: crash_ok_def store_Write_def)
  have d: "exact s js" "meta_ok s js" using kv_run_durable [OF assms(1)] by (simp_all add: durable_def store_Write_def)
  have n: "sCurrentRev s = sCompactMainRev s" "\<forall>x. x |\<in>| fmdom (sKey s) \<longrightarrow> \<not> garbage js x"
    using c(2) assms(3,4) unfolding newest_ok_def by blast+
  have "(\<exists>k e. e \<in> set (ti_hist (sIndex s) k) \<and> x = rec_of e) \<or> garbage [] x" if "x |\<in>| fmdom (sKey s)" for x
    using exactD(2) [OF d(1) that] n(2) that by blast
  then have "exact s []" using d(1) unfolding exact_def by simp
  obtain f where f: "metaRev finishedCompactKeyName (- 1) s = Some f" "- 1 \<le> f" "sorted_wrt (<) (f # map job_rev js)"
    "last (f # map job_rev js) = sCompactMainRev s" using c(1) unfolding compactions_ok_def by blast
  have "last (f # map job_rev js) \<in> set (map job_rev js)" using assms(2) by (simp add: last_map)
  then have less: "f < sCurrentRev s" using f(3,4) n(1) by auto
  have "metaRev scheduledCompactKeyName 0 s = Some (sCurrentRev s)"
    using d(2) n(1) f(2) less unfolding meta_ok_def by (simp split: if_splits)
  then show thesis using that [OF \<open>exact s []\<close> f(1,2) less n(1) [symmetric]] by blast
qed

end
