(* ===== verification/StoreProps.thy ===== *)
theory StoreProps
  imports StoreRun
begin

text \<open>What the store guarantees, in every run of transactions and compactions.\<close>

section \<open>A run for the witnesses\<close>

definition wit_ops :: "kvop list" where
  "wit_ops = [OpPut [97] [1] 0, OpPut [98] [2] 0]"

definition wit_del :: "kvop list" where
  "wit_del = [OpDelete [97] None, OpPut [98] [3] 0]"

definition wit_store0 :: store where
  "wit_store0 = NewStore (newLessor fmempty \<lparr>lcMinLeaseTTL = 1, lcCheckpointInterval = 0, lcRetryInterval = 0\<rparr>) 0"

definition wit_run :: "kvop list \<Rightarrow> storeTxnWrite \<Rightarrow> storeTxnWrite" where
  "wit_run ops tw = fold (\<lambda>op tw. the (run_op op tw)) ops tw"

definition wit_txn1 :: storeTxnWrite where
  "wit_txn1 = wit_run wit_ops (store_Write wit_store0)"

definition wit_store1 :: store where
  "wit_store1 = tw_End wit_txn1"

definition wit_txn2 :: storeTxnWrite where
  "wit_txn2 = wit_run wit_del (store_Write wit_store1)"

definition wit_store2 :: store where
  "wit_store2 = tw_End wit_txn2"

fun runnable :: "kvop list \<Rightarrow> storeTxnWrite \<Rightarrow> bool" where
  "runnable [] tw \<longleftrightarrow> True"
| "runnable (op # ops) tw \<longleftrightarrow> op_fits op tw \<and> run_op op tw \<noteq> None \<and> runnable ops (the (run_op op tw))"

lemma kv_run_ops:
  "kv_run H ops (Open tw) js \<Longrightarrow> runnable ops' tw \<Longrightarrow> kv_run H (ops @ ops') (Open (wit_run ops' tw)) js"
proof (induction ops' arbitrary: ops tw)
  case (Cons op ops')
  then obtain tw' where "run_op op tw = Some tw'" "op_fits op tw" "runnable ops' tw'" by auto
  with Cons.IH [OF kv_op [OF Cons.prems(1)], of op tw'] show ?case by (simp add: wit_run_def)
qed (simp add: wit_run_def)

lemma wit1: "runnable wit_ops (store_Write wit_store0) \<and> twChanges wit_txn1 \<noteq> []"
  by code_simp

lemma wit2: "runnable wit_del (store_Write wit_store1) \<and> twChanges wit_txn2 \<noteq> []"
  by code_simp

text \<open>Two transactions, then a compaction at revision 2 up to the start of its sweep.\<close>

definition wit_compact :: "store \<times> revision fset" where
  "wit_compact = the (compactIndex 2 (fst (updateCompactRev 2 wit_store2)))"

lemma wit_run2: "kv_run [wit_ops, wit_del] [] (Idle wit_store2) []"
proof -
  have "kv_run [] [] (Open (store_Write wit_store0)) []"
    unfolding wit_store0_def by (rule kv_begin [OF kv_new])
  from kv_end [OF kv_run_ops [OF this, of wit_ops]] wit1
  have "kv_run [wit_ops] [] (Idle wit_store1) []" by (simp add: wit_txn1_def wit_store1_def)
  from kv_end [OF kv_run_ops [OF kv_begin [OF this], of wit_del]] wit2
  show ?thesis by (simp add: wit_txn2_def wit_store2_def)
qed

lemma wit_open: "kv_run [wit_ops] wit_del (Open wit_txn2) []"
proof -
  have "kv_run [] [] (Open (store_Write wit_store0)) []"
    unfolding wit_store0_def by (rule kv_begin [OF kv_new])
  from kv_end [OF kv_run_ops [OF this, of wit_ops]] wit1
  have "kv_run [wit_ops] [] (Idle wit_store1) []" by (simp add: wit_txn1_def wit_store1_def)
  from kv_run_ops [OF kv_begin [OF this], of wit_del] wit2 show ?thesis by (simp add: wit_txn2_def)
qed

lemma wit_compact_ok:
  "snd (updateCompactRev 2 wit_store2) = None" "compactIndex 2 (fst (updateCompactRev 2 wit_store2)) \<noteq> None"
  by code_simp+

lemma wit_sweeping: "kv_run [wit_ops, wit_del] [] (Idle (fst wit_compact)) [Sweeping 2 (snd wit_compact) (replicate 17 0)]"
proof -
  have "kv_run [wit_ops, wit_del] [] (Idle (fst (updateCompactRev 2 wit_store2))) ([] @ [Queued 2])"
    using wit_compact_ok(1) by (intro kv_compact [OF wit_run2]) (simp add: prod_eq_iff)
  then have "kv_run [wit_ops, wit_del] [] (set_store (fst wit_compact) (Idle (fst (updateCompactRev 2 wit_store2))))
      [Sweeping 2 (snd wit_compact) (replicate 17 0)]"
    using wit_compact_ok(2) by (intro kv_index) (simp_all add: wit_compact_def store_Write_def)
  then show ?thesis by simp
qed

section \<open>Reading\<close>

text \<open>The answer to a range request on a map: the records of its keys in order, cut at the limit, and their number.\<close>

definition range_of :: "bytes \<Rightarrow> bytes option \<Rightarrow> kvmap \<Rightarrow> bytes list \<Rightarrow> bool" where
  "range_of key endk m ks \<longleftrightarrow> sorted_wrt (<) ks \<and> set ks = {k. in_range key endk k \<and> m k \<noteq> None}"

lemma range_of_unique:
  "range_of key endk m ks \<Longrightarrow> sorted_wrt (<) ks' \<Longrightarrow> set ks' = {k. in_range key endk k \<and> m k \<noteq> None} \<Longrightarrow> ks = ks'"
  by (rule strict_sorted_equal) (simp_all add: range_of_def)

definition answer :: "RangeOptions \<Rightarrow> int \<Rightarrow> kvmap \<Rightarrow> bytes list \<Rightarrow> RangeResult" where
  "answer ro cur m ks = \<lparr>rrKVs = (if roCount ro then []
      else map (\<lambda>k. the (m k)) (if 0 < roLimit ro then take (nat (roLimit ro)) ks else ks)),
    rrRev = cur, rrCount = int (length ks)\<rparr>"

definition read_rev :: "RangeOptions \<Rightarrow> int \<Rightarrow> int" where
  "read_rev ro cur = (if roRev ro \<le> 0 then cur else roRev ro)"

text \<open>A readable revision has the state that the history gives, and a Range answers with it.\<close>

lemma store_Range_history:
  assumes "kv_run H ops ph js" "s = the_store ph"
    and "read_rev ro (sCurrentRev s) \<le> sCurrentRev s" "sCompactMainRev s \<le> read_rev ro (sCurrentRev s)"
  defines "t \<equiv> read_rev ro (sCurrentRev s)"
  shows "sCurrentRev s = 1 + int (length H)" "view s t = state_at H t"
    "\<exists>ks. range_of key endk (state_at H t) ks \<and> store_Range key endk ro s = Some (answer ro (sCurrentRev s) (state_at H t) ks, None)"
proof -
  note inv = kv_invD [OF kv_run_inv [OF assms(1)]]
  have cur: "sCurrentRev s = twBeginRev (txn ph)" "store_ok s" using inv(1) assms(2) by (simp_all add: tw_ok_def)
  show "sCurrentRev s = 1 + int (length H)" using inv(3) cur(1) by auto
  show v: "view s t = state_at H t" using inv(6) [of t] assms cur by simp
  have "1 \<le> sCurrentRev s" using inv(1) cur(1) by (simp add: tw_ok_def)
  then have "roRev ro \<le> sCurrentRev s" "sCompactMainRev s \<le> sCurrentRev s" "0 < roRev ro \<longrightarrow> sCompactMainRev s \<le> roRev ro"
    using assms(3,4) by (auto simp: read_rev_def split: if_splits)
  from rangeKeys_view [OF cur(2) this, of key endk]
  have "store_Range key endk ro s = Some (answer ro (sCurrentRev s) (view s t) (present s t key endk), None)"
    by (simp add: store_Range_def answer_def read_rev_def t_def)
  moreover have "range_of key endk (view s t) (present s t key endk)"
    using present_sorted present_set [OF cur(2)] by (simp add: range_of_def)
  ultimately show "\<exists>ks. range_of key endk (state_at H t) ks
    \<and> store_Range key endk ro s = Some (answer ro (sCurrentRev s) (state_at H t) ks, None)" using v by auto
qed

text \<open>C23: At every moment of every run of transactions and compactions, a Range at a revision that is not
  compacted and not in the future returns exactly the keys of the requested interval, in order and cut at
  the limit, with the records that replaying the committed transactions up to that revision on an empty
  map gives: values, leases, create and mod revisions and versions.\<close>

theorem range_reads_history:
  assumes "kv_run H ops ph js" "s = the_store ph"
    and "read_rev ro (sCurrentRev s) \<le> sCurrentRev s" "sCompactMainRev s \<le> read_rev ro (sCurrentRev s)"
  shows "sCurrentRev s = 1 + int (length H)
    \<and> (\<exists>ks. range_of key endk (state_at H (read_rev ro (sCurrentRev s))) ks
      \<and> store_Range key endk ro s = Some (answer ro (sCurrentRev s) (state_at H (read_rev ro (sCurrentRev s))) ks, None))"
  using store_Range_history(1,3) [OF assms] by blast

theorem range_reads_history_witness:
  "map (\<lambda>kv. (kvKey kv, kvValue kv, kvVersion kv))
     (rrKVs (fst (the (store_Range [97] (Some []) \<lparr>roLimit = 0, roRev = 2, roCount = False\<rparr> (fst wit_compact)))))
   = [([97], [1], 1), ([98], [2], 1)]"
proof -
  let ?ro = "\<lparr>roLimit = 0, roRev = 2, roCount = False\<rparr>"
  have "read_rev ?ro (sCurrentRev (fst wit_compact)) \<le> sCurrentRev (fst wit_compact)"
    "sCompactMainRev (fst wit_compact) \<le> read_rev ?ro (sCurrentRev (fst wit_compact))" by code_simp+
  from range_reads_history [OF wit_sweeping, of "fst wit_compact" ?ro "[97]" "Some []"] this
  obtain ks where ks: "range_of [97] (Some []) (state_at [wit_ops, wit_del] 2) ks"
      "store_Range [97] (Some []) ?ro (fst wit_compact)
        = Some (answer ?ro (sCurrentRev (fst wit_compact)) (state_at [wit_ops, wit_del] 2) ks, None)"
    by (auto simp: read_rev_def store_Write_def)
  have m: "state_at [wit_ops, wit_del] 2 = (\<lambda>k. None)([97] \<mapsto> put_kv 2 [97] [1] 0 None, [98] \<mapsto> put_kv 2 [98] [2] 0 None)"
    by (simp add: state_at_def wit_ops_def)
  have "ks = [[97], [98]]" by (rule range_of_unique [OF ks(1)]) (auto simp: m in_range_def)
  then show ?thesis by (simp add: ks(2) answer_def m put_kv_def)
qed

text \<open>C25: A Range never panics or finds a revision without its record, and its errors are exactly those of the
  revision asked for: future revisions and compacted ones, with the result the caller expects.\<close>

theorem range_errors:
  assumes "kv_run H ops ph js" "s = the_store ph"
  shows "\<exists>res err. store_Range key endk ro s = Some (res, err)
    \<and> (err = Some ErrFutureRev \<longleftrightarrow> sCurrentRev s < roRev ro)
    \<and> (err = Some ErrCompacted \<longleftrightarrow> roRev ro \<le> sCurrentRev s \<and> 0 < roRev ro \<and> roRev ro < sCompactMainRev s)
    \<and> err \<in> {None, Some ErrFutureRev, Some ErrCompacted} \<and> (err \<noteq> None \<longrightarrow> rrKVs res = [] \<and> rrCount res = - 1)"
proof -
  note inv = kv_invD [OF kv_run_inv [OF assms(1)]]
  have cur: "sCurrentRev s = twBeginRev (txn ph)" "store_ok s" using inv(1) assms(2) by (simp_all add: tw_ok_def)
  have c: "sCompactMainRev s \<le> sCurrentRev s" using inv(5) cur(1) assms(2) by simp
  consider "sCurrentRev s < roRev ro" | "roRev ro \<le> sCurrentRev s" "0 < roRev ro" "roRev ro < sCompactMainRev s"
    | "roRev ro \<le> sCurrentRev s" "0 < roRev ro \<longrightarrow> sCompactMainRev s \<le> roRev ro" by linarith
  then show ?thesis
  proof cases
    case 3
    from rangeKeys_view [OF cur(2) 3(1) c 3(2), of key endk] 3 show ?thesis by (auto simp: store_Range_def)
  qed (auto simp: store_Range_def rangeKeys_def)
qed

theorem range_errors_witness:
  "map_option snd (store_Range [97] None \<lparr>roLimit = 0, roRev = 1, roCount = False\<rparr> (fst wit_compact)) = Some (Some ErrCompacted)"
proof -
  let ?ro = "\<lparr>roLimit = 0, roRev = 1, roCount = False\<rparr>"
  have "sCurrentRev (fst wit_compact) = 3" "sCompactMainRev (fst wit_compact) = 2" by code_simp+
  with range_errors [OF wit_sweeping refl, of "[97]" None ?ro] show ?thesis by (auto simp: store_Write_def)
qed

text \<open>C24: Inside a write transaction a Range of the newest revision sees the committed map with the
  operations that the transaction has done so far applied to it in order.\<close>

theorem txn_reads_its_writes:
  assumes "kv_run H ops (Open tw) js" "twChanges tw \<noteq> []"
  shows "\<exists>ks. range_of key endk (fold (apply_op (2 + int (length H))) ops (state_at H (1 + int (length H)))) ks
    \<and> tw_Range key endk \<lparr>roLimit = l, roRev = 0, roCount = False\<rparr> tw
      = Some (answer \<lparr>roLimit = l, roRev = 0, roCount = False\<rparr> (2 + int (length H))
          (fold (apply_op (2 + int (length H))) ops (state_at H (1 + int (length H)))) ks, None)"
proof -
  note inv = kv_invD [OF kv_run_inv [OF assms(1)], simplified]
  let ?t = "2 + int (length H)" and ?s = "twStore tw" and ?ro = "\<lparr>roLimit = l, roRev = 0, roCount = False\<rparr>"
  have ok: "store_ok ?s" using inv(1) by (simp add: tw_ok_def)
  have now: "view ?s ?t = fold (apply_op ?t) ops (state_at H (1 + int (length H)))"
    using tw_okD(6) [OF inv(1), of ?t] inv(3,7) by (simp add: add.commute)
  have "roRev ?ro \<le> ?t" "sCompactMainRev ?s \<le> ?t" "0 < roRev ?ro \<longrightarrow> sCompactMainRev ?s \<le> roRev ?ro"
    using inv(3,5) by simp_all
  from rangeKeys_view [OF ok this, of key endk] have
    "tw_Range key endk ?ro tw = Some (answer ?ro ?t (view ?s ?t) (present ?s ?t key endk), None)"
    using assms(2) inv(3) by (simp add: tw_Range_def answer_def)
  moreover have "range_of key endk (view ?s ?t) (present ?s ?t key endk)"
    using present_sorted present_set [OF ok] by (simp add: range_of_def)
  ultimately show ?thesis using now by auto
qed

theorem txn_reads_its_writes_witness:
  "map_option (\<lambda>(res, err). (map (\<lambda>kv. (kvValue kv, kvCreateRevision kv, kvVersion kv)) (rrKVs res), rrCount res, err))
     (tw_Range [97] (Some []) \<lparr>roLimit = 0, roRev = 0, roCount = False\<rparr> wit_txn2) = Some ([([3], 2, 2)], 1, None)"
proof -
  have "twChanges wit_txn2 \<noteq> []" using wit2 by simp
  from txn_reads_its_writes [OF wit_open this, of "[97]" "Some []" 0] obtain ks where
    ks: "range_of [97] (Some []) (fold (apply_op 3) wit_del (state_at [wit_ops] 2)) ks"
      "tw_Range [97] (Some []) \<lparr>roLimit = 0, roRev = 0, roCount = False\<rparr> wit_txn2
        = Some (answer \<lparr>roLimit = 0, roRev = 0, roCount = False\<rparr> 3 (fold (apply_op 3) wit_del (state_at [wit_ops] 2)) ks, None)"
    by auto
  have m: "fold (apply_op 3) wit_del (state_at [wit_ops] 2)
      = (\<lambda>k. None)([98] \<mapsto> put_kv 3 [98] [3] 0 (Some (put_kv 2 [98] [2] 0 None)))"
    by (auto simp: state_at_def wit_ops_def wit_del_def in_range_def)
  have "ks = [[98]]" by (rule range_of_unique [OF ks(1)]) (auto simp: m in_range_def)
  then show ?thesis by (simp add: ks(2) answer_def m put_kv_def)
qed

section \<open>Compaction\<close>

text \<open>C26: The loop of a compaction job over the batches of the backend (of a positive batch limit) ends, after at
  most one batch per record and one more, and it changes nothing a Range at the compacted revision or later returns.\<close>

theorem compaction_ends:
  assumes "kv_run H ops (Idle s) (Sweeping r keep lst # js)" "0 < sBatchLimit s"
  shows "\<exists>s'. scheduleCompaction (fcard (fmdom (sKey s)) + 1) r keep lst s = Some s'
    \<and> kv_inv H ops (Idle s') js \<and> (\<forall>key endk ro. store_Range key endk ro s' = store_Range key endk ro s)"
proof -
  have inv0: "kv_inv H ops (Idle s) (Sweeping r keep lst # js)" using kv_run_inv [OF assms(1)] .
  note inv = kv_invD [OF inv0, simplified]
  have ok: "store_ok s" "keep_ok r keep (sIndex s)" "- 1 \<le> r" "r < 9223372036854775808"
    using inv(1,2,5,10) by (simp_all add: tw_ok_def store_Write_def int64_ok_def)
  have "todo lst s |\<subseteq>| fmdom (sKey s)" by (auto simp: todo_def)
  then have "fcard (todo lst s) < fcard (fmdom (sKey s)) + 1" using fcard_mono [of "todo lst s" "fmdom (sKey s)"] by simp
  from scheduleCompaction_total [OF ok assms(2) this] obtain s' where
    s': "scheduleCompaction (fcard (fmdom (sKey s)) + 1) r keep lst s = Some s'" "store_ok s'" "same_revs s s'"
      "sIndex s' = sIndex s" "view s' = view s" by blast
  have "job_ok s' j" if "j \<in> set js" for j
    using inv(10,11) that s'(3) by (fastforce simp: same_revs_def store_Write_def)
  moreover have "\<forall>j \<in> set (tl js). \<exists>r. j = Queued r" using inv(11) by (cases js) auto
  ultimately have "kv_inv H ops (set_store s' (Idle s)) js"
    using s' by (intro kv_inv_store [OF inv0]) (simp_all add: store_Write_def)
  moreover have "sCompactMainRev s \<le> sCurrentRev s" using inv(5) by (simp add: store_Write_def)
  then have "store_Range key endk ro s' = store_Range key endk ro s" for key endk ro
    using range_view_cong [OF ok(1) s'(2,5,4)] s'(3) by (simp add: same_revs_def)
  ultimately show ?thesis using s'(1) by (metis set_store.simps(1))
qed

theorem compaction_ends_witness:
  "map_option (\<lambda>s. fcard (fmdom (sKey s))) (scheduleCompaction (fcard (fmdom (sKey (fst wit_compact))) + 1) 2
     (snd wit_compact) (replicate 17 0) (fst wit_compact)) \<noteq> None \<and> fcard (fmdom (sKey (fst wit_compact))) = 4"
proof -
  have "sBatchLimit (fst wit_compact) = 1000" "fcard (fmdom (sKey (fst wit_compact))) = 4" by code_simp+
  with compaction_ends [OF wit_sweeping] show ?thesis by auto
qed

end
