(* ===== verification/RestartProps.thy ===== *)
theory RestartProps
  imports StoreCrash StoreProps
begin

text \<open>What survives a restart of the store, and what does not.\<close>

text \<open>All keys of the backend lie between the two bounds of the loop of restore.\<close>

lemma backend_bounds:
  assumes "exact s []" "store_ok s" "x \<in> set (bucket_keys (sKey s))"
  shows "revToBytes (Revision 1 0) \<le> x \<and> x < revToBytes (Revision maxInt64 maxInt64)"
proof -
  have x: "x |\<in>| fmdom (sKey s)" using assms(3) by (simp add: set_bucket_keys)
  obtain k e where e: "e \<in> set (ti_hist (sIndex s) k)" "x = rec_of e" using exactD(2) [OF assms(1) x] by (auto simp: garbage_def)
  obtain r m where r: "x = revToBytes r @ m" "rev_ok r" "int64_ok (sub r + 1)" "bytesToRev x = Some r"
    using bucket_ok_split [OF store_okD(2) [OF assms(2)] x] by blast
  then have "fst e = r" using rec_of_rev [OF store_okD(3) [OF assms(2) e(1)]] e(2) by simp
  then have "2 \<le> main r" "sub r < maxInt64" using exactD(6) [OF assms(1) e(1)] r by (auto simp: int64_ok_def maxInt64_def)
  then have "Revision 1 0 < r" "r < Revision maxInt64 maxInt64"
    using r(2) by (auto simp: revision_less rev_ok_def int64_ok_def maxInt64_def)
  moreover have "rev_ok (Revision 1 0)" "rev_ok (Revision maxInt64 maxInt64)" by (simp_all add: rev_ok_def int64_ok_def maxInt64_def)
  ultimately show ?thesis
    using revToBytes_order(2) [of "Revision 1 0" r "[]" m] revToBytes_order(2) [of r "Revision maxInt64 maxInt64" m "[]"] r(1,2)
    by (simp add: less_imp_le)
qed

lemma restoreLoop_ends:
  assumes "exact s []" "store_ok s"
  obtains st where "restoreLoop (fcard (fmdom (sKey s)) + 1) restoreChunkKeys (revToBytes (Revision 1 0))
      (revToBytes (Revision maxInt64 maxInt64)) (sKey s) \<lparr>rsIndex = newTreeIndex, rsCurrentRev = 1, rsKeyToLease = fmempty\<rparr> = Some st"
    "restored s (bucket_keys (sKey s)) st"
proof -
  let ?lo = "revToBytes (Revision 1 0)" and ?hi = "revToBytes (Revision maxInt64 maxInt64)"
  have all: "\<forall>z \<in> set (bucket_keys (sKey s)). z < ?hi" "\<forall>z \<in> set (bucket_keys (sKey s)). ?lo \<le> z"
    using backend_bounds [OF assms] by blast+
  have hi: "?hi \<noteq> []" using length_revToBytes [of "Revision maxInt64 maxInt64"] by fastforce
  have r0: "restored s [] \<lparr>rsIndex = newTreeIndex, rsCurrentRev = 1, rsKeyToLease = fmempty\<rparr>" by (simp add: restored_def)
  have len: "length (bucket_keys (sKey s)) < fcard (fmdom (sKey s)) + 1"
    by (simp add: bucket_keys_def fcard.rep_eq sorted_list_of_fset.rep_eq)
  show thesis
    using restoreLoop_spec [OF assms hi all(1) _ r0 _ _ all(2) len, of restoreChunkKeys] that
    by (simp add: restoreChunkKeys_def del: restoreLoop.simps) blast
qed

lemma restored_view:
  assumes "exact s []" "store_ok s" "restored s (bucket_keys (sKey s)) st" "sIndex s' = rsIndex st" "sKey s' = sKey s"
  shows "store_ok s'" "view s' = view s"
proof -
  have "rec_of e \<in> set (bucket_keys (sKey s))" if "e \<in> set (ti_hist (sIndex s) k)" for e k
    using exactD(7) [OF assms(1) that] by (auto simp: set_bucket_keys in_fmdom)
  then have "filter (\<lambda>e. rec_of e \<in> set (bucket_keys (sKey s))) (ti_hist (sIndex s) k) = ti_hist (sIndex s) k" for k
    by (simp add: filter_id_conv)
  then have "ti_wf (rsIndex st)" "\<And>k. hist_sim (ti_hist (sIndex s) k) (ti_hist (rsIndex st) k)"
    using assms(3) by (simp_all add: restored_def)
  from view_sim [OF assms(2) this, of s'] show "store_ok s'" "view s' = view s" using assms(4,5) by simp_all
qed

text \<open>C29: A store that is opened on the backend of a store without pending compactions has the same current
  and compacted revisions and answers every Range as the store before did, in every run; opening does not panic.\<close>

theorem restart_restores:
  assumes "kv_run H [] (Idle s) []"
  shows "\<exists>s'. openStore (sKey s) (sMeta s) (Some le) lim = Some (s', None)
    \<and> sCurrentRev s' = sCurrentRev s \<and> sCompactMainRev s' = sCompactMainRev s
    \<and> (\<forall>key endk ro. store_Range key endk ro s' = store_Range key endk ro s)"
proof -
  have i: "kv_inv H [] (Idle s) []" and d: "durable (Idle s) []"
    using kv_run_inv [OF assms] kv_run_durable [OF assms] .
  note inv = kv_invD [OF i]
  have ok: "store_ok s" and ex: "exact s []" and meta: "meta_ok s []"
    using inv(1) d by (simp_all add: tw_ok_def durable_def store_Write_def)
  have le: "sCompactMainRev s \<le> sCurrentRev s" "- 1 \<le> sCompactMainRev s" using inv(4,5) by (simp_all add: store_Write_def)
  let ?s0 = "(NewStore (Some le) lim)\<lparr>sKey := sKey s, sMeta := sMeta s\<rparr>"
  have m: "metaRev finishedCompactKeyName (- 1) ?s0 = Some (sCompactMainRev s)"
    "metaRev scheduledCompactKeyName 0 ?s0 = Some (if sCompactMainRev s = - 1 then 0 else sCompactMainRev s)"
    using meta by (simp_all add: meta_ok_def metaRev_lookup)
  obtain st where st: "restoreLoop (fcard (fmdom (sKey s)) + 1) restoreChunkKeys (revToBytes (Revision 1 0))
      (revToBytes (Revision maxInt64 maxInt64)) (sKey s) \<lparr>rsIndex = newTreeIndex, rsCurrentRev = 1, rsKeyToLease = fmempty\<rparr> = Some st"
    "restored s (bucket_keys (sKey s)) st" using restoreLoop_ends [OF ex ok] .
  have cur: "(if rsCurrentRev st < sCompactMainRev s then sCompactMainRev s else rsCurrentRev st) = sCurrentRev s"
    using restored_current [OF i d st(2)] by (auto simp: max_def split: if_splits)
  let ?s1 = "?s0\<lparr>sIndex := rsIndex st, sCompactMainRev := sCompactMainRev s, sCurrentRev := sCurrentRev s\<rparr>"
  obtain le' where le': "attachAll (rsKeyToLease st) ?s1 = Some (?s1\<lparr>sLessor := Some le'\<rparr>)"
    using attachAll_frame [of ?s1 le "rsKeyToLease st"] by (auto simp: NewStore_def)
  let ?s' = "?s1\<lparr>sLessor := Some le'\<rparr>"
  have "openStore (sKey s) (sMeta s) (Some le) lim = Some (?s', None)"
    unfolding openStore_def store_restore_def
    using m st(1) cur le' by (simp add: NewStore_def Let_def)
  moreover have "store_ok ?s'" "view ?s' = view s" by (rule restored_view [OF ex ok st(2)]; simp)+
  moreover have "store_Range key endk ro ?s' = store_Range key endk ro s" for key endk ro
    by (rule range_view_eq [OF ok]) (use calculation le(1) in simp_all)
  ultimately show ?thesis by (intro exI [of _ ?s']) simp
qed

lemma wit_lessor: "sLessor wit_store2 \<noteq> None"
  by code_simp

theorem restart_restores_witness:
  "map_option (\<lambda>(s, job). (sCurrentRev s, job)) (openStore (sKey wit_store2) (sMeta wit_store2) (sLessor wit_store2) 0) = Some (3, None)"
proof -
  have "sCurrentRev wit_store2 = 3" by code_simp
  moreover obtain le where "sLessor wit_store2 = Some le" using not_None_eq [of "sLessor wit_store2"] wit_lessor by blast
  ultimately show ?thesis using restart_restores [OF wit_run2, of le 0] by auto
qed

section \<open>A crash within a compaction\<close>

text \<open>
  Without the condition on pending compactions the theorem above is false: a compaction at the current
  revision may leave no record of it.
\<close>

definition newest_rev :: "bucket \<Rightarrow> int" where
  "newest_rev b = (if bucket_keys b = [] then 1 else main (the (bytesToRev (last (bucket_keys b)))))"

lemma last_at_gap:
  "\<forall>e \<in> set h. main (fst e) \<le> t \<longleftrightarrow> main (fst e) \<le> t' \<Longrightarrow> last_at t h = last_at t' h"
  by (induction h rule: rev_induct) auto

lemma view_gap:
  assumes "\<And>k e. e \<in> set (ti_hist (sIndex s) k) \<Longrightarrow> main (fst e) \<le> t \<longleftrightarrow> main (fst e) \<le> t'"
  shows "view s t = view s t'"
  using last_at_gap [of "ti_hist (sIndex s) _" t t'] assms by (simp add: view_def alive_at_def fun_eq_iff)

text \<open>Reading the newest revision of two stores that show the same there.\<close>

lemma range_newest:
  assumes "store_ok s" "store_ok s'" "view s' (sCurrentRev s') = view s (sCurrentRev s)" "0 < sCurrentRev s" "0 < sCurrentRev s'"
    and "sCompactMainRev s \<le> sCurrentRev s" "sCompactMainRev s' \<le> sCurrentRev s'"
  shows "store_Range key endk \<lparr>roLimit = n, roRev = 0, roCount = c\<rparr> s'
    = map_option (apfst (\<lambda>res. res\<lparr>rrRev := sCurrentRev s'\<rparr>)) (store_Range key endk \<lparr>roLimit = n, roRev = 0, roCount = c\<rparr> s)"
proof -
  have "present s' (sCurrentRev s') key endk = present s (sCurrentRev s) key endk"
    by (rule strict_sorted_equal) (simp_all add: present_sorted present_set assms(1-3))
  then show ?thesis
    using rangeKeys_view [OF assms(1), of "\<lparr>roLimit = n, roRev = 0, roCount = c\<rparr>" "sCurrentRev s" key endk]
      rangeKeys_view [OF assms(2), of "\<lparr>roLimit = n, roRev = 0, roCount = c\<rparr>" "sCurrentRev s'" key endk] assms(3-)
    by (simp add: store_Range_def)
qed

lemma restored_newest:
  assumes "kv_inv H [] (Idle s) js" "exact s []" "\<not> has_rev s (sCurrentRev s)" "sCurrentRev s \<noteq> 1"
  shows "newest_rev (sKey s) < sCurrentRev s" "e \<in> set (ti_hist (sIndex s) k) \<Longrightarrow> main (fst e) \<le> newest_rev (sKey s)"
    "restored s (bucket_keys (sKey s)) st \<Longrightarrow> rsCurrentRev st = newest_rev (sKey s)" "1 \<le> newest_rev (sKey s)"
proof -
  note inv = kv_invD [OF assms(1)]
  have ok: "store_ok s" and one: "1 \<le> sCurrentRev s" using inv(1) by (simp_all add: tw_ok_def store_Write_def)
  let ?ks = "bucket_keys (sKey s)"
  have rok: "rev_ok (fst e)" if "e \<in> set (ti_hist (sIndex s) k)" for e k by (rule store_okD(3) [OF ok that])
  have before: "main (fst e) < sCurrentRev s" if e: "e \<in> set (ti_hist (sIndex s) k)" for e k
  proof -
    have "main (fst e) \<le> sCurrentRev s"
      using ti_before_events [OF tw_okD(2,3) [OF inv(1)]] e rok [OF e] by (fastforce simp: store_Write_def revision_less rev_ok_def)
    moreover have "main (fst e) \<noteq> sCurrentRev s" using has_rev_event [OF assms(2) ok e] assms(3) by auto
    ultimately show ?thesis by simp
  qed
  have event: "\<exists>k e. e \<in> set (ti_hist (sIndex s) k) \<and> x = rec_of e" if "x \<in> set ?ks" for x
    using exactD(2) [OF assms(2), of x] that by (simp add: set_bucket_keys garbage_def)
  have in_ks: "rec_of e \<in> set ?ks" if "e \<in> set (ti_hist (sIndex s) k)" for e k
    using exactD(7) [OF assms(2) that] by (auto simp: set_bucket_keys in_fmdom)
  show "rsCurrentRev st = newest_rev (sKey s)" if "restored s ?ks st"
    using that by (simp add: restored_def newest_rev_def)
  have "newest_rev (sKey s) < sCurrentRev s \<and> 1 \<le> newest_rev (sKey s) \<and> (\<forall>k e. e \<in> set (ti_hist (sIndex s) k) \<longrightarrow> main (fst e) \<le> newest_rev (sKey s))"
  proof (cases "?ks = []")
    case True
    then show ?thesis using in_ks one assms(4) by (auto simp: newest_rev_def)
  next
    case False
    obtain k e where e: "e \<in> set (ti_hist (sIndex s) k)" "last ?ks = rec_of e" using event [OF last_in_set [OF False]] by blast
    have n: "newest_rev (sKey s) = main (fst e)" using False e(2) rec_of_rev [OF rok [OF e(1)]] by (simp add: newest_rev_def)
    have "main (fst e') \<le> main (fst e)" if e': "e' \<in> set (ti_hist (sIndex s) k')" for e' k'
    proof -
      have "rec_of e' \<le> rec_of e" using last_greatest [OF bucket_sorted in_ks [OF e']] e(2) by simp
      then have "\<not> fst e < fst e'" using rec_of_less [OF rok [OF e(1)] rok [OF e']] by auto
      then show ?thesis by (auto simp: revision_less not_less)
    qed
    then show ?thesis using before [OF e(1)] exactD(6) [OF assms(2) e(1)] n by auto
  qed
  then show "newest_rev (sKey s) < sCurrentRev s" "1 \<le> newest_rev (sKey s)"
    "e \<in> set (ti_hist (sIndex s) k) \<Longrightarrow> main (fst e) \<le> newest_rev (sKey s)" by blast+
qed

text \<open>
  Such a run: a key is written and deleted, and a compaction is asked for at the revision of the deletion.
  Its first batch removes both records, then the process stops before the batch that would find nothing
  left and note the end. The store that is opened next starts at revision 1 again.
\<close>

definition crash_start :: store where
  "crash_start = NewStore (newLessor fmempty \<lparr>lcMinLeaseTTL = 1, lcCheckpointInterval = 0, lcRetryInterval = 0\<rparr>) 2"

definition crash_put :: store where
  "crash_put = tw_End (wit_run [OpPut [97] [1] 0] (store_Write crash_start))"

definition crash_del :: store where
  "crash_del = tw_End (wit_run [OpDelete [97] None] (store_Write crash_put))"

definition crash_index :: "store \<times> revision fset" where
  "crash_index = the (compactIndex 3 (fst (updateCompactRev 3 crash_del)))"

definition crash_batch :: "store \<times> bytes option" where
  "crash_batch = the (compactBatch 3 (snd crash_index) (replicate 17 0) (fst crash_index))"

lemma crash_steps:
  "runnable [OpPut [97] [1] 0] (store_Write crash_start)" "twChanges (wit_run [OpPut [97] [1] 0] (store_Write crash_start)) \<noteq> []"
  "runnable [OpDelete [97] None] (store_Write crash_put)" "twChanges (wit_run [OpDelete [97] None] (store_Write crash_put)) \<noteq> []"
  "snd (updateCompactRev 3 crash_del) = None" "compactIndex 3 (fst (updateCompactRev 3 crash_del)) \<noteq> None"
  "compactBatch 3 (snd crash_index) (replicate 17 0) (fst crash_index) \<noteq> None" "snd crash_batch \<noteq> None"
  by code_simp+

lemma crash_run: "\<exists>js. js \<noteq> [] \<and> kv_run [[OpPut [97] [1] 0], [OpDelete [97] None]] [] (Idle (fst crash_batch)) js"
proof -
  have "kv_run [] [] (Open (store_Write crash_start)) []"
    unfolding crash_start_def by (rule kv_begin [OF kv_new])
  from kv_end [OF kv_run_ops [OF this crash_steps(1)]] crash_steps(2)
  have "kv_run [[OpPut [97] [1] 0]] [] (Idle crash_put) []" by (simp add: crash_put_def)
  from kv_end [OF kv_run_ops [OF kv_begin [OF this] crash_steps(3)]] crash_steps(4)
  have d: "kv_run [[OpPut [97] [1] 0], [OpDelete [97] None]] [] (Idle crash_del) []" by (simp add: crash_del_def)
  have "kv_run [[OpPut [97] [1] 0], [OpDelete [97] None]] [] (Idle (fst (updateCompactRev 3 crash_del))) ([] @ [Queued 3])"
    using crash_steps(5) by (intro kv_compact [OF d]) (simp add: prod_eq_iff)
  then have "kv_run [[OpPut [97] [1] 0], [OpDelete [97] None]] [] (set_store (fst crash_index) (Idle (fst (updateCompactRev 3 crash_del))))
      [Sweeping 3 (snd crash_index) (replicate 17 0)]"
    using crash_steps(6) by (intro kv_index) (simp_all add: crash_index_def store_Write_def)
  then have i: "kv_run [[OpPut [97] [1] 0], [OpDelete [97] None]] [] (Idle (fst crash_index)) [Sweeping 3 (snd crash_index) (replicate 17 0)]"
    by simp
  have "compactBatch 3 (snd crash_index) (replicate 17 0) (fst crash_index) = Some crash_batch"
    unfolding crash_batch_def using crash_steps(7) by (rule option.collapse [symmetric])
  moreover obtain s lst where b: "crash_batch = (s, Some lst)"
    using crash_steps(8) by (metis not_None_eq prod.collapse)
  ultimately have "kv_run [[OpPut [97] [1] 0], [OpDelete [97] None]] [] (Idle s) [Sweeping 3 (snd crash_index) lst]"
    by (intro kv_batch [OF i]) simp
  moreover have "fst crash_batch = s" unfolding b by (rule fst_conv)
  ultimately show ?thesis by (metis (no_types) list.distinct(1))
qed

text \<open>C30: Whenever the process stops while a compaction is pending and no record of the current revision
  is left, so that the compaction has swept the records of the last transaction but has not noted its
  end, the store that is opened next goes back: its revision is that of the newest record that is left, or
  of the last compaction that had finished, and it forgets the pending compaction. The newest state of
  every key survives: a Range without a revision returns what it returned before, but for that number.\<close>

theorem crash_loses_revisions:
  assumes "kv_run H [] (Idle s) js" "js \<noteq> []" "sCurrentRev s \<noteq> 1" "\<not> has_rev s (sCurrentRev s)"
  shows "\<exists>s' f. openStore (sKey s) (sMeta s) (Some le) lim = Some (s', None)
    \<and> metaRev finishedCompactKeyName (- 1) s = Some f
    \<and> sCurrentRev s' = max f (newest_rev (sKey s)) \<and> sCurrentRev s' < sCurrentRev s
    \<and> sCompactMainRev s' = f \<and> f < sCompactMainRev s \<and> sCompactMainRev s = sCurrentRev s
    \<and> (\<forall>key endk n c. store_Range key endk \<lparr>roLimit = n, roRev = 0, roCount = c\<rparr> s'
      = map_option (apfst (\<lambda>res. res\<lparr>rrRev := sCurrentRev s'\<rparr>)) (store_Range key endk \<lparr>roLimit = n, roRev = 0, roCount = c\<rparr> s))"
proof -
  note i = kv_run_inv [OF assms(1)]
  have ok: "store_ok s" using kv_invD(1) [OF i] by (simp add: tw_ok_def store_Write_def)
  obtain f where ex: "exact s []" and f: "metaRev finishedCompactKeyName (- 1) s = Some f" "- 1 \<le> f" "f < sCurrentRev s"
    "sCompactMainRev s = sCurrentRev s" "metaRev scheduledCompactKeyName 0 s = Some (sCurrentRev s)" using crash_state [OF assms] .
  note new = restored_newest [OF i ex assms(4,3)]
  let ?s0 = "(NewStore (Some le) lim)\<lparr>sKey := sKey s, sMeta := sMeta s\<rparr>" and ?cur = "max f (newest_rev (sKey s))"
  have m: "metaRev finishedCompactKeyName (- 1) ?s0 = Some f" "metaRev scheduledCompactKeyName 0 ?s0 = Some (sCurrentRev s)"
    using f(1,5) by (simp_all add: metaRev_lookup)
  obtain st where st: "restoreLoop (fcard (fmdom (sKey s)) + 1) restoreChunkKeys (revToBytes (Revision 1 0))
      (revToBytes (Revision maxInt64 maxInt64)) (sKey s) \<lparr>rsIndex = newTreeIndex, rsCurrentRev = 1, rsKeyToLease = fmempty\<rparr> = Some st"
    "restored s (bucket_keys (sKey s)) st" using restoreLoop_ends [OF ex ok] .
  have cur: "(if rsCurrentRev st < f then f else rsCurrentRev st) = ?cur" using new(3) [OF st(2)] by auto
  let ?s1 = "?s0\<lparr>sIndex := rsIndex st, sCompactMainRev := f, sCurrentRev := ?cur\<rparr>"
  obtain le' where le': "attachAll (rsKeyToLease st) ?s1 = Some (?s1\<lparr>sLessor := Some le'\<rparr>)"
    using attachAll_frame [of ?s1 le "rsKeyToLease st"] by (auto simp: NewStore_def)
  let ?s' = "?s1\<lparr>sLessor := Some le'\<rparr>"
  have less: "?cur < sCurrentRev s" using new(1) f(3) by simp
  have "updateCompactRev (sCurrentRev s) ?s' = (?s', Some ErrFutureRev)" using less f(3) by (simp add: updateCompactRev_def)
  then have "openStore (sKey s) (sMeta s) (Some le) lim = Some (?s', None)"
    unfolding openStore_def store_restore_def
    using m st(1) cur le' f(2,3) by (simp add: NewStore_def Let_def)
  moreover have v: "store_ok ?s'" "view ?s' = view s" by (rule restored_view [OF ex ok st(2)]; simp)+
  moreover have "view s ?cur = view s (sCurrentRev s)"
    by (rule view_gap) (use new(2) less in fastforce)
  then have "store_Range key endk \<lparr>roLimit = n, roRev = 0, roCount = c\<rparr> ?s'
      = map_option (apfst (\<lambda>res. res\<lparr>rrRev := sCurrentRev ?s'\<rparr>)) (store_Range key endk \<lparr>roLimit = n, roRev = 0, roCount = c\<rparr> s)" for key endk n c
    using v f(3,4) new(1,4) by (intro range_newest [OF ok v(1)]) auto
  ultimately show ?thesis using f less by (intro exI [of _ ?s'] exI [of _ f]) simp
qed

lemma crash_left:
  "bucket_keys (sKey (fst crash_batch)) = []" "sLessor (fst crash_batch) \<noteq> None" "sCurrentRev (fst crash_batch) = 3"
  "metaRev finishedCompactKeyName (- 1) (fst crash_batch) = Some (- 1)"
  by code_simp+

theorem crash_loses_revisions_witness:
  "map_option (\<lambda>(s, job). (sCurrentRev s, sCompactMainRev s, job))
     (openStore (sKey (fst crash_batch)) (sMeta (fst crash_batch)) (sLessor (fst crash_batch)) 2) = Some (1, - 1, None)"
proof -
  obtain js where run: "js \<noteq> []" "kv_run [[OpPut [97] [1] 0], [OpDelete [97] None]] [] (Idle (fst crash_batch)) js"
    using crash_run by blast
  obtain le where le: "sLessor (fst crash_batch) = Some le" using crash_left(2) by blast
  have "\<not> has_rev (fst crash_batch) (sCurrentRev (fst crash_batch))"
    using crash_left(1) set_bucket_keys [of "sKey (fst crash_batch)"] by (auto simp: has_rev_def)
  moreover have "newest_rev (sKey (fst crash_batch)) = 1" by (simp add: newest_rev_def crash_left(1))
  ultimately show ?thesis
    using crash_loses_revisions [OF run(2,1), of le 2] crash_left(3,4) le by auto
qed

end
