(* ===== verification/LeaseQueueProps.thy ===== *)
theory LeaseQueueProps
  imports LeaseQueue
begin

text \<open>
  The heap operations keep the heap order, the entries and their indexes, and find the smallest time.
\<close>

definition entry :: "LeaseWithTime \<Rightarrow> LeaseID \<times> int" where
  "entry x = (lwID x, lwTime x)"

definition indexed :: "LeaseQueue \<Rightarrow> bool" where
  "indexed q \<longleftrightarrow> (\<forall>i < length q. lwIndex (q ! i) = int i)"

abbreviation at :: "LeaseQueue \<Rightarrow> nat \<Rightarrow> int" where
  "at q i \<equiv> lwTime (q ! i)"

definition heap_except :: "nat set \<Rightarrow> nat \<Rightarrow> LeaseQueue \<Rightarrow> bool" where
  "heap_except E n q \<longleftrightarrow> (\<forall>i. 0 < i \<longrightarrow> i < n \<longrightarrow> i \<notin> E \<longrightarrow> at q ((i - 1) div 2) \<le> at q i)"

abbreviation heap_ok :: "LeaseQueue \<Rightarrow> bool" where
  "heap_ok q \<equiv> heap_except {} (length q) q"

section \<open>Swap\<close>

lemma length_Swap [simp]: "length (lq_Swap i j q) = length q"
  by (simp add: lq_Swap_def Let_def)

lemma Swap_at:
  "i < length q \<Longrightarrow> j < length q \<Longrightarrow> k < length q \<Longrightarrow>
    at (lq_Swap i j q) k = (if k = i then at q j else if k = j then at q i else at q k)"
  by (auto simp: lq_Swap_def Let_def nth_list_update)

lemma Swap_entries:
  assumes "i < length q" "j < length q"
  shows "image_mset entry (mset (lq_Swap i j q)) = image_mset entry (mset q)"
proof -
  let ?es = "map entry q"
  have "map entry (lq_Swap i j q) = ?es[i := ?es ! j, j := ?es ! i]"
    using assms by (auto simp: lq_Swap_def Let_def entry_def list_eq_iff_nth_eq nth_list_update)
  then have "mset (map entry (lq_Swap i j q)) = mset ?es" using assms mset_swap [of j ?es i] by simp
  then show ?thesis by simp
qed

lemma Swap_indexed: "i < length q \<Longrightarrow> j < length q \<Longrightarrow> indexed q \<Longrightarrow> indexed (lq_Swap i j q)"
  by (auto simp: indexed_def lq_Swap_def Let_def nth_list_update)

text \<open>What the operations share: the entries stay, as a multiset and each with its index.\<close>

definition permuted :: "LeaseQueue \<Rightarrow> LeaseQueue \<Rightarrow> bool" where
  "permuted q q' \<longleftrightarrow> length q' = length q \<and> image_mset entry (mset q') = image_mset entry (mset q) \<and> (indexed q \<longrightarrow> indexed q')"

lemma permuted_refl [simp]: "permuted q q"
  by (simp add: permuted_def)

lemma permuted_trans: "permuted q q' \<Longrightarrow> permuted q' q'' \<Longrightarrow> permuted q q''"
  by (simp add: permuted_def)

lemma permuted_Swap: "i < length q \<Longrightarrow> j < length q \<Longrightarrow> permuted q (lq_Swap i j q)"
  by (simp add: permuted_def Swap_entries Swap_indexed)

section \<open>up\<close>

text \<open>Only the entry at j may be smaller than its parent, and its children are above the parent of j.\<close>

lemma heap_up_spec:
  assumes "j < n" "n \<le> length q" "heap_except {j} n q"
    and "\<And>c. c < n \<Longrightarrow> 0 < c \<Longrightarrow> (c - 1) div 2 = j \<Longrightarrow> 0 < j \<Longrightarrow> at q ((j - 1) div 2) \<le> at q c"
  shows "heap_except {} n (heap_up j q) \<and> permuted q (heap_up j q)"
  using assms
proof (induction j q rule: heap_up.induct)
  case (1 j q)
  let ?i = "(j - 1) div 2"
  show ?case
  proof (cases "j = 0 \<or> \<not> lq_Less j ?i q")
    case True
    then have "j = 0 \<or> at q ?i \<le> at q j" by (auto simp: lq_Less_def)
    then have "heap_except {} n q" using "1.prems"(3) by (auto simp: heap_except_def)
    with True show ?thesis by (simp add: heap_up.simps)
  next
    case False
    then have j: "0 < j" "at q j < at q ?i" by (auto simp: lq_Less_def)
    have i: "?i < j" using j(1) by auto
    have len: "?i < length q" "j < length q" using "1.prems"(1,2) i by auto
    let ?q = "lq_Swap ?i j q"
    have at: "at ?q k = (if k = ?i then at q j else if k = j then at q ?i else at q k)" if "k < n" for k
      using Swap_at [OF len, of k] that "1.prems"(2) by simp
    have "heap_except {?i} n ?q"
      unfolding heap_except_def
    proof (intro allI impI)
      fix k assume k: "0 < k" "k < n" "k \<notin> {?i}"
      let ?p = "(k - 1) div 2"
      have p: "?p < n" "?p < k" using k(1,2) by auto
      have old: "k \<noteq> j \<Longrightarrow> at q ?p \<le> at q k" using "1.prems"(3) k by (simp add: heap_except_def)
      consider "k = j" | "k \<noteq> j" "?p = j" | "k \<noteq> j" "?p = ?i" | "k \<noteq> j" "?p \<noteq> j" "?p \<noteq> ?i" by blast
      then show "at ?q ?p \<le> at ?q k"
      proof cases
        case 1
        then show ?thesis using at [OF p(1)] at [OF k(2)] k j i by simp
      next
        case 2
        then have "at q ?i \<le> at q k" using "1.prems"(4) [OF k(2,1) 2(2) j(1)] by simp
        then show ?thesis using 2 at [OF p(1)] at [OF k(2)] k(3) i by simp
      next
        case 3
        then have "at q j \<le> at q k" using old j(2) by simp
        then show ?thesis using 3 at [OF p(1)] at [OF k(2)] k(3) i by simp
      next
        case 4
        then show ?thesis using old at [OF p(1)] at [OF k(2)] k(3) by simp
      qed
    qed
    moreover have "at ?q ((?i - 1) div 2) \<le> at ?q c" if c: "c < n" "0 < c" "(c - 1) div 2 = ?i" "0 < ?i" for c
    proof -
      let ?g = "(?i - 1) div 2"
      have g: "?g < ?i" using c(4) by auto
      have gi: "at q ?g \<le> at q ?i" using "1.prems"(1,3) c(4) i by (auto simp: heap_except_def)
      have "c \<noteq> j \<Longrightarrow> at q ((c - 1) div 2) \<le> at q c" using "1.prems"(3) c(1,2) unfolding heap_except_def by blast
      then have le: "c \<noteq> j \<Longrightarrow> at q ?i \<le> at q c" unfolding c(3) .
      have cj: "at q ?g \<le> (if c = j then at q ?i else at q c)"
      proof (cases "c = j")
        case True
        from gi show ?thesis unfolding if_P [OF True] .
      next
        case False
        from order_trans [OF gi le [OF False]] show ?thesis unfolding if_not_P [OF False] .
      qed
      have "c \<noteq> ?i" using c(2,3) by auto
      then have "at ?q c = (if c = j then at q ?i else at q c)" using at [OF c(1)] by (simp only: if_False)
      moreover have "?g < n" "?g \<noteq> ?i" "?g \<noteq> j" using g i "1.prems"(1) by linarith+
      then have "at ?q ?g = at q ?g" using at [of ?g] by (simp only: if_False)
      ultimately show ?thesis using cj by (simp only:)
    qed
    ultimately have "heap_except {} n (heap_up ?i ?q) \<and> permuted ?q (heap_up ?i ?q)"
      using "1.IH" [OF refl] False i "1.prems"(1,2) by auto
    moreover have "heap_up j q = heap_up ?i ?q" using False by (subst heap_up.simps) (simp add: Let_def)
    ultimately show ?thesis using permuted_trans [OF permuted_Swap [OF len]] by simp
  qed
qed

section \<open>down\<close>

text \<open>Only the children of i may be smaller than their parent, and they are above the parent of i.\<close>

definition children :: "nat \<Rightarrow> nat set" where
  "children i = {2 * i + 1, 2 * i + 2}"

lemma child_iff: "0 < k \<Longrightarrow> k \<in> children i \<longleftrightarrow> (k - 1) div 2 = i"
proof -
  assume "0 < k"
  then obtain m where m: "k = Suc m" by (cases k) auto
  have "m div 2 = i \<longleftrightarrow> m = 2 * i \<or> m = 2 * i + 1"
  proof
    assume "m div 2 = i"
    then have "m = 2 * i + m mod 2" using mult_div_mod_eq [of 2 m] by simp
    moreover have "m mod 2 < 2" by simp
    ultimately show "m = 2 * i \<or> m = 2 * i + 1" by linarith
  qed auto
  then show ?thesis by (simp add: m children_def)
qed

lemma heap_down_spec:
  assumes "n \<le> length q" "i < n" "heap_except (children i) n q"
    and "\<And>c. c < n \<Longrightarrow> c \<in> children i \<Longrightarrow> 0 < i \<Longrightarrow> at q ((i - 1) div 2) \<le> at q c"
  shows "heap_except {} n (fst (heap_down i n q)) \<and> permuted q (fst (heap_down i n q))
    \<and> (\<forall>k \<ge> n. k < length q \<longrightarrow> fst (heap_down i n q) ! k = q ! k) \<and> (\<not> snd (heap_down i n q) \<longrightarrow> fst (heap_down i n q) = q)"
  using assms
proof (induction i n q rule: heap_down.induct)
  case (1 i n q)
  let ?j1 = "2 * i + 1"
  define j where "j = (if ?j1 + 1 < n \<and> lq_Less (?j1 + 1) ?j1 q then ?j1 + 1 else ?j1)"
  show ?case
  proof (cases "n \<le> ?j1 \<or> \<not> lq_Less j i q")
    case True
    have "at q i \<le> at q k" if "k < n" "k \<in> children i" for k
    proof -
      have "at q i \<le> at q j" using True that by (auto simp: lq_Less_def children_def)
      moreover have "at q j \<le> at q k" using that by (auto simp: j_def children_def lq_Less_def)
      ultimately show ?thesis by simp
    qed
    then have "heap_except {} n q" using "1.prems"(3) child_iff [of _ i] by (auto simp: heap_except_def)
    moreover have "heap_down i n q = (q, False)" using True unfolding j_def by (subst heap_down.simps) (auto simp: Let_def)
    ultimately show ?thesis by simp
  next
    case False
    then have lt: "?j1 < n" "at q j < at q i" by (auto simp: lq_Less_def)
    have j: "j < n" "i < j" "j \<in> children i" "(j - 1) div 2 = i" using lt(1) by (auto simp: j_def children_def)
    have least: "at q j \<le> at q k" if "k < n" "k \<in> children i" for k
      using that by (auto simp: j_def children_def lq_Less_def)
    have len: "i < length q" "j < length q" using "1.prems"(1,2) j(1) by simp_all
    let ?q = "lq_Swap i j q"
    have at: "at ?q k = (if k = i then at q j else if k = j then at q i else at q k)" if "k < n" for k
      using Swap_at [OF len, of k] that "1.prems"(1) by simp
    have "heap_except (children j) n ?q"
      unfolding heap_except_def
    proof (intro allI impI)
      fix k assume k: "0 < k" "k < n" "k \<notin> children j"
      let ?p = "(k - 1) div 2"
      have p: "?p < n" "?p < k" "?p \<noteq> j" using k child_iff [OF k(1), of j] by auto
      have old: "k \<notin> children i \<Longrightarrow> at q ?p \<le> at q k" using "1.prems"(3) k by (simp add: heap_except_def)
      show "at ?q ?p \<le> at ?q k"
      proof (cases "?p = i")
        case True
        then have "k \<in> children i" using child_iff [OF k(1), of i] by simp
        then show ?thesis using True at [OF p(1)] at [OF k(2)] least [OF k(2)] lt(2) p(2) by simp
      next
        case False
        then have nc: "k \<notin> children i" using child_iff [OF k(1), of i] by simp
        then have "k \<noteq> j" using j(3) by auto
        moreover have "k = i \<Longrightarrow> at q ?p \<le> at q j" using "1.prems"(4) [OF j(1,3)] k(1) by simp
        ultimately show ?thesis using False at [OF p(1)] at [OF k(2)] old [OF nc] p(3) by simp
      qed
    qed
    moreover have "at ?q ((j - 1) div 2) \<le> at ?q c" if c: "c < n" "c \<in> children j" "0 < j" for c
    proof -
      have c0: "0 < c" "j < c" "(c - 1) div 2 = j" using c by (auto simp: children_def)
      then have "c \<notin> children i" using j(2) child_iff [OF c0(1), of i] by simp
      then have "at q ((c - 1) div 2) \<le> at q c" using "1.prems"(3) c(1) c0(1) unfolding heap_except_def by blast
      then have "at q j \<le> at q c" unfolding c0(3) .
      then show ?thesis using at [OF "1.prems"(2)] at [OF c(1)] j c0(2) by simp
    qed
    moreover have "\<not> n \<le> ?j1" "\<not> \<not> lq_Less j i q" using False by simp_all
    note ih = "1.IH" [OF refl this(1) refl j_def this(2)]
    ultimately have IH: "heap_except {} n (fst (heap_down j n ?q)) \<and> permuted ?q (fst (heap_down j n ?q))
      \<and> (\<forall>k \<ge> n. k < length ?q \<longrightarrow> fst (heap_down j n ?q) ! k = ?q ! k)"
      using ih j(1) "1.prems"(1) unfolding length_Swap by blast
    have d: "heap_down i n q = (fst (heap_down j n ?q), True)" using False unfolding j_def by (subst heap_down.simps) (auto simp: Let_def)
    have "?q ! k = q ! k" if "n \<le> k" "k < length q" for k
      using that j(1) "1.prems"(2) len by (auto simp: lq_Swap_def Let_def nth_list_update)
    then show ?thesis using IH permuted_trans [OF permuted_Swap [OF len]] by (simp add: d)
  qed
qed

section \<open>The operations of a heap\<close>

definition queue_ok :: "LeaseQueue \<Rightarrow> bool" where
  "queue_ok q \<longleftrightarrow> heap_ok q \<and> indexed q"

lemma heap_root: "heap_except {} n q \<Longrightarrow> i < n \<Longrightarrow> at q 0 \<le> at q i"
proof (induction i rule: less_induct)
  case (less i)
  show ?case
  proof (cases "i = 0")
    case False
    then have p: "(i - 1) div 2 < i" by auto
    then have "at q 0 \<le> at q ((i - 1) div 2)" using less by auto
    also have "\<dots> \<le> at q i" using less.prems False unfolding heap_except_def by blast
    finally show ?thesis .
  qed simp
qed

lemma heap_Push_spec:
  assumes "queue_ok q"
  shows "queue_ok (heap_Push x q)" "image_mset entry (mset (heap_Push x q)) = add_mset (entry x) (image_mset entry (mset q))"
proof -
  let ?q = "lq_Push x q" and ?n = "length q"
  have len: "length ?q = Suc ?n" by (simp add: lq_Push_def)
  have at: "k < ?n \<Longrightarrow> ?q ! k = q ! k" for k by (simp add: lq_Push_def nth_append)
  have "heap_except {?n} (length ?q) ?q"
    unfolding heap_except_def
  proof (intro allI impI)
    fix i assume i: "0 < i" "i < length ?q" "i \<notin> {?n}"
    then have "i < ?n" "(i - 1) div 2 < ?n" using len by auto
    then show "at ?q ((i - 1) div 2) \<le> at ?q i" using assms i(1) at by (simp add: queue_ok_def heap_except_def)
  qed
  then have "heap_except {} (length ?q) (heap_up ?n ?q) \<and> permuted ?q (heap_up ?n ?q)"
    by (intro heap_up_spec) (auto simp: len)
  moreover have "indexed ?q" using assms by (auto simp: indexed_def lq_Push_def nth_append queue_ok_def less_Suc_eq)
  moreover have "image_mset entry (mset ?q) = add_mset (entry x) (image_mset entry (mset q))"
    by (simp add: lq_Push_def entry_def)
  ultimately show "queue_ok (heap_Push x q)" "image_mset entry (mset (heap_Push x q)) = add_mset (entry x) (image_mset entry (mset q))"
    by (simp_all add: heap_Push_def Let_def len queue_ok_def permuted_def)
qed

lemma heap_Pop_spec:
  assumes "queue_ok q" "q \<noteq> []"
  obtains q' x where "heap_Pop q = Some (q', x)" "queue_ok q'" "entry x = entry (hd q)"
    "image_mset entry (mset q) = add_mset (entry x) (image_mset entry (mset q'))"
proof -
  let ?n = "length q - 1"
  have n: "?n < length q" "0 < length q" using assms(2) by auto
  let ?q = "lq_Swap 0 ?n q"
  define h where "h = fst (heap_down 0 ?n ?q)"
  have at: "at ?q k = (if k = 0 then at q ?n else if k = ?n then at q 0 else at q k)" if "k < length q" for k
    using Swap_at [OF n(2,1) that] .
  have h: "heap_except {} ?n h \<and> permuted ?q h \<and> (\<forall>k \<ge> ?n. k < length ?q \<longrightarrow> h ! k = ?q ! k)"
  proof (cases "0 < ?n")
    case True
    have "heap_except (children 0) ?n ?q"
      unfolding heap_except_def
    proof (intro allI impI)
      fix i assume i: "0 < i" "i < ?n" "i \<notin> children 0"
      let ?p = "(i - 1) div 2"
      have p: "0 < ?p" "?p < ?n" using i child_iff [OF i(1), of 0] by auto
      have le: "at q ?p \<le> at q i" using assms(1) i unfolding queue_ok_def heap_except_def by auto
      have "?p \<noteq> 0" "?p \<noteq> ?n" "?p < length q" using p by linarith+
      then have "at ?q ?p = at q ?p" using at [of ?p] by (simp only: if_False)
      moreover have "at ?q i = at q i" using at [of i] i(1,2) by simp
      ultimately show "at ?q ?p \<le> at ?q i" using le by (simp only:)
    qed
    from heap_down_spec [OF _ True this] show ?thesis unfolding h_def by auto
  next
    case False
    then have "heap_down 0 ?n ?q = (?q, False)" by (subst heap_down.simps) simp
    with False show ?thesis by (simp add: h_def heap_except_def)
  qed
  have len: "length h = length q" using h by (simp add: permuted_def)
  then have hne: "h \<noteq> []" using n by auto
  have last: "last h = ?q ! ?n" using h n len by (simp add: last_conv_nth [OF hne])
  have "entry (?q ! ?n) = entry (q ! 0)" using n by (simp add: lq_Swap_def Let_def entry_def nth_list_update)
  then have e: "entry ((last h)\<lparr>lwIndex := - 1\<rparr>) = entry (hd q)"
    using last assms(2) by (simp add: hd_conv_nth entry_def)
  have pop: "heap_Pop q = Some (butlast h, (last h)\<lparr>lwIndex := - 1\<rparr>)"
    using assms(2) by (simp add: heap_Pop_def Let_def h_def lq_Pop_def split_beta)
  have "permuted q h" using permuted_trans [OF permuted_Swap [OF n(2,1)]] h by blast
  then have "image_mset entry (mset q) = image_mset entry (mset (butlast h @ [last h]))" "indexed h"
    using assms(1) append_butlast_last_id [OF hne] by (simp_all add: permuted_def queue_ok_def del: mset_append)
  moreover have "entry (last h) = entry ((last h)\<lparr>lwIndex := - 1\<rparr>)" by (simp add: entry_def)
  moreover have "queue_ok (butlast h)"
    using h \<open>indexed h\<close> len by (auto simp: queue_ok_def heap_except_def indexed_def nth_butlast)
  ultimately show thesis using that [OF pop _ e] by simp
qed

text \<open>One entry has a new time; Fix restores the order.\<close>

lemma heap_Fix_spec:
  assumes "heap_ok q" "length q' = length q" "i < length q" "\<And>k. k < length q \<Longrightarrow> k \<noteq> i \<Longrightarrow> at q' k = at q k"
  shows "heap_ok (heap_Fix i q') \<and> permuted q' (heap_Fix i q')"
proof -
  let ?n = "length q" and ?p = "(i - 1) div 2"
  have old: "at q ((k - 1) div 2) \<le> at q k" if "0 < k" "k < ?n" for k using assms(1) that unfolding heap_except_def by blast
  have par: "(k - 1) div 2 < k" if "0 < k" for k :: nat using that by auto
  have other: "at q' ((k - 1) div 2) \<le> at q' k" if "0 < k" "k < ?n" "k \<noteq> i" "(k - 1) div 2 \<noteq> i" for k
    using old [OF that(1,2)] assms(4) [OF that(2,3)] assms(4) [OF _ that(4)] par [OF that(1)] that(2) by simp
  have grand: "at q' ?p \<le> at q' c" if "0 < i" "c < ?n" "0 < c" "(c - 1) div 2 = i" for c
  proof -
    have "i < c" using par [OF that(3)] that(4) by simp
    have "at q ?p \<le> at q i" using old [OF that(1) assms(3)] .
    also have "\<dots> \<le> at q c" using old [OF that(3,2)] that(4) by simp
    finally show ?thesis using assms(4) [of ?p] assms(4) [OF that(2)] par [OF that(1)] assms(3) \<open>i < c\<close> by simp
  qed
  show ?thesis
  proof (cases "i = 0 \<or> at q' ?p \<le> at q' i")
    case True
    have "heap_except (children i) ?n q'"
      unfolding heap_except_def
    proof (intro allI impI)
      fix k assume k: "0 < k" "k < ?n" "k \<notin> children i"
      then have "(k - 1) div 2 \<noteq> i" using child_iff by blast
      then show "at q' ((k - 1) div 2) \<le> at q' k" using other [OF k(1,2)] True k(1) by (cases "k = i") auto
    qed
    moreover have "at q' ?p \<le> at q' c" if "c < ?n" "c \<in> children i" "0 < i" for c
    proof -
      have "0 < c" using that(2) by (auto simp: children_def)
      then show ?thesis using grand that child_iff by blast
    qed
    ultimately have d: "heap_except {} ?n (fst (heap_down i ?n q')) \<and> permuted q' (fst (heap_down i ?n q'))
        \<and> (\<not> snd (heap_down i ?n q') \<longrightarrow> fst (heap_down i ?n q') = q')"
      using heap_down_spec [of ?n q' i] assms(2,3) by auto
    show ?thesis
    proof (cases "snd (heap_down i ?n q')")
      case False
      then have "fst (heap_down i ?n q') = q'" "heap_except {} ?n q'" using d by auto
      moreover from this have "heap_except {} ?n (heap_up i q') \<and> permuted q' (heap_up i q')"
        using assms(2,3) grand by (intro heap_up_spec) (auto simp: heap_except_def)
      ultimately show ?thesis using False assms(2) by (simp add: heap_Fix_def split_beta permuted_def)
    qed (use d assms(2) in \<open>auto simp: heap_Fix_def split_beta permuted_def\<close>)
  next
    case False
    then have i: "0 < i" "at q' i < at q' ?p" by auto
    have le: "at q' i \<le> at q' c" if "c < ?n" "0 < c" "(c - 1) div 2 = i" for c using grand [OF i(1) that] i(2) by simp
    have "heap_down i ?n q' = (q', False)"
    proof -
      have "(2 * i + 1 - 1) div 2 = i" "(2 * i + 1 + 1 - 1) div 2 = i" by simp_all
      then have "2 * i + 1 < ?n \<longrightarrow> \<not> lq_Less (2 * i + 1) i q'" "2 * i + 1 + 1 < ?n \<longrightarrow> \<not> lq_Less (2 * i + 1 + 1) i q'"
        using le [of "2 * i + 1"] le [of "2 * i + 1 + 1"] by (auto simp: lq_Less_def)
      then show ?thesis by (subst heap_down.simps) (auto simp: Let_def not_less)
    qed
    moreover have "heap_except {i} ?n q'"
      unfolding heap_except_def
    proof (intro allI impI)
      fix k assume k: "0 < k" "k < ?n" "k \<notin> {i}"
      then show "at q' ((k - 1) div 2) \<le> at q' k" using other [OF k(1,2)] le [OF k(2,1)] by (cases "(k - 1) div 2 = i") auto
    qed
    then have "heap_except {} ?n (heap_up i q') \<and> permuted q' (heap_up i q')"
      using assms(2,3) grand by (intro heap_up_spec) auto
    ultimately show ?thesis using assms(2) by (simp add: heap_Fix_def permuted_def)
  qed
qed

section \<open>A queue of deadlines\<close>

text \<open>
  What the lessor relies on: at most one deadline for a lease, and the first one is found. \<open>ok\<close> is
  the provider's invariant and \<open>due\<close> the deadlines that a queue holds.
\<close>

locale deadline_queue =
  fixes ok :: "'q \<Rightarrow> bool" and due :: "'q \<Rightarrow> LeaseID \<Rightarrow> int option"
    and enter :: "LeaseID \<Rightarrow> int \<Rightarrow> 'q \<Rightarrow> 'q option"
    and first :: "'q \<Rightarrow> (LeaseID \<times> int) option option"
    and remove :: "'q \<Rightarrow> ('q \<times> LeaseID \<times> int) option"
  assumes finite_due: "ok q \<Longrightarrow> finite (dom (due q))"
    and enter_law: "ok q \<Longrightarrow> \<exists>q'. enter i t q = Some q' \<and> ok q' \<and> due q' = (due q)(i \<mapsto> t)"
    and first_none: "ok q \<Longrightarrow> due q = Map.empty \<Longrightarrow> first q = Some None"
    and first_some: "ok q \<Longrightarrow> due q \<noteq> Map.empty \<Longrightarrow>
      \<exists>i t. first q = Some (Some (i, t)) \<and> due q i = Some t \<and> (\<forall>j u. due q j = Some u \<longrightarrow> t \<le> u)"
    and remove_law: "ok q \<Longrightarrow> first q = Some (Some (i, t)) \<Longrightarrow>
      \<exists>q'. remove q = Some (q', i, t) \<and> ok q' \<and> due q' = (due q)(i := None)"
begin

lemma first_due: "ok q \<Longrightarrow> first q = Some (Some (i, t)) \<Longrightarrow> due q i = Some t"
  using first_some [of q] first_none [of q] by (cases "due q = Map.empty") auto

lemma first_least: "ok q \<Longrightarrow> first q = Some (Some (i, t)) \<Longrightarrow> due q j = Some u \<Longrightarrow> t \<le> u"
  using first_some [of q] first_none [of q] by (cases "due q = Map.empty") auto

text \<open>How often a lessor can still look at the first deadline when it puts each one that has passed beyond \<open>now\<close>.\<close>

definition work :: "int \<Rightarrow> 'q \<Rightarrow> nat" where
  "work now q = card (dom (due q)) + card {i. \<exists>t. due q i = Some t \<and> t \<le> now}"

lemma finite_passed: "ok q \<Longrightarrow> finite {i. \<exists>t. due q i = Some t \<and> t \<le> now}"
  by (rule finite_subset [OF _ finite_due]) auto

lemma remove_work:
  assumes "ok q" "first q = Some (Some (i, t))"
  obtains q' where "remove q = Some (q', i, t)" "ok q'" "due q' = (due q)(i := None)" "work now q' < work now q"
proof -
  obtain q' where q': "remove q = Some (q', i, t)" "ok q'" "due q' = (due q)(i := None)" using remove_law [OF assms] by blast
  have "dom (due q') = dom (due q) - {i}" "i \<in> dom (due q)" using q'(3) first_due [OF assms] by auto
  then have "card (dom (due q')) < card (dom (due q))"
    using card_Diff1_less [OF finite_due [OF assms(1)], of i] by simp
  moreover have "card {j. \<exists>t. due q' j = Some t \<and> t \<le> now} \<le> card {j. \<exists>t. due q j = Some t \<and> t \<le> now}"
    by (rule card_mono [OF finite_passed [OF assms(1)]]) (auto simp: q'(3) split: if_splits)
  ultimately show thesis using that [OF q'] by (simp add: work_def)
qed

lemma enter_work:
  assumes "ok q" "first q = Some (Some (i, t))" "t \<le> now" "now < u"
  obtains q' where "enter i u q = Some q'" "ok q'" "due q' = (due q)(i \<mapsto> u)" "work now q' < work now q"
proof -
  obtain q' where q': "enter i u q = Some q'" "ok q'" "due q' = (due q)(i \<mapsto> u)" using enter_law [OF assms(1)] by blast
  let ?P = "{j. \<exists>t. due q j = Some t \<and> t \<le> now}"
  have i: "i \<in> ?P" using first_due [OF assms(1,2)] assms(3) by simp
  have "{j. \<exists>t. due q' j = Some t \<and> t \<le> now} = ?P - {i}" using q'(3) assms(4) by auto
  then have "card {j. \<exists>t. due q' j = Some t \<and> t \<le> now} < card ?P"
    using card_Diff1_less [OF finite_passed [OF assms(1), of now] i] by simp
  moreover have "dom (due q') = dom (due q)" using q'(3) first_due [OF assms(1,2)] by auto
  ultimately show thesis using that [OF q'] by (simp add: work_def)
qed

end

section \<open>The notifier\<close>

definition nq_ok :: "LeaseExpiredNotifier \<Rightarrow> bool" where
  "nq_ok mq \<longleftrightarrow> queue_ok (nqQueue mq) \<and> distinct (map lwID (nqQueue mq)) \<and> fset (nqM mq) = set (map lwID (nqQueue mq))"

definition deadlines :: "LeaseExpiredNotifier \<Rightarrow> LeaseID \<Rightarrow> int option" where
  "deadlines mq = map_of (map entry (nqQueue mq))"

lemma ids_mset: "mset (map lwID q) = image_mset fst (image_mset entry (mset q))"
  by (simp add: multiset.map_comp comp_def entry_def)

lemma distinct_ids:
  "image_mset entry (mset q) = image_mset entry (mset q') \<Longrightarrow> distinct (map lwID q) = distinct (map lwID q')"
  by (intro mset_eq_imp_distinct_iff) (simp add: ids_mset del: mset_map)

lemma map_of_entries:
  assumes "distinct (map lwID q)"
  shows "map_of (map entry q) i = Some t \<longleftrightarrow> (i, t) \<in># image_mset entry (mset q)"
proof -
  have "distinct (map fst (map entry q))" using assms by (simp add: comp_def entry_def)
  from map_of_eq_Some_iff [OF this] show ?thesis by auto
qed

lemma map_of_entries_eq:
  assumes "distinct (map lwID q)" "image_mset entry (mset q) = image_mset entry (mset q')"
  shows "map_of (map entry q) = map_of (map entry q')"
proof
  fix i
  have "map_of (map entry q) i = Some t \<longleftrightarrow> map_of (map entry q') i = Some t" for t
    using map_of_entries [OF assms(1)] map_of_entries [of q'] distinct_ids [OF assms(2)] assms by simp
  then show "map_of (map entry q) i = map_of (map entry q') i" by (metis not_Some_eq)
qed

lemma ids_set: "image_mset entry (mset q) = image_mset entry (mset q') \<Longrightarrow> lwID ` set q = lwID ` set q'"
  using ids_mset [of q] ids_mset [of q'] by (metis set_mset_mset set_map)

lemma map_of_change:
  "map_of (map (\<lambda>(j, u). (j, if j = i then t else u)) es) = (if i \<in> fst ` set es then (map_of es)(i \<mapsto> t) else map_of es)"
  by (induction es) (auto simp: fun_eq_iff)

lemma RegisterOrUpdate_spec:
  assumes "nq_ok mq"
  shows "\<exists>mq'. RegisterOrUpdate x mq = Some mq' \<and> nq_ok mq' \<and> deadlines mq' = (deadlines mq)(lwID x \<mapsto> lwTime x)"
proof (cases "lwID x |\<in>| nqM mq")
  case False
  let ?q = "nqQueue mq" and ?q' = "heap_Push x (nqQueue mq)"
  have q: "queue_ok ?q" "distinct (map lwID ?q)" "fset (nqM mq) = lwID ` set ?q" using assms by (simp_all add: nq_ok_def)
  note p = heap_Push_spec [OF q(1), of x]
  have new: "lwID x \<notin> lwID ` set ?q" using False q(3) by simp
  have m: "image_mset entry (mset ?q') = image_mset entry (mset (x # ?q))" using p(2) by simp
  have d: "distinct (map lwID (x # ?q))" using new q(2) by simp
  then have d': "distinct (map lwID ?q')" using distinct_ids [OF m] by simp
  have "lwID ` set ?q' = insert (lwID x) (lwID ` set ?q)" using ids_set [OF m] by simp
  moreover have "map_of (map entry ?q') = (map_of (map entry ?q))(lwID x \<mapsto> lwTime x)"
    using map_of_entries_eq [OF d' m] by (simp add: entry_def)
  ultimately show ?thesis using False p(1) d' q(3) by (simp add: RegisterOrUpdate_def nq_ok_def deadlines_def)
next
  case True
  let ?q = "nqQueue mq"
  have q: "heap_ok ?q" "indexed ?q" "distinct (map lwID ?q)" "fset (nqM mq) = lwID ` set ?q"
    using assms by (simp_all add: nq_ok_def queue_ok_def)
  then obtain y where "y \<in> set ?q" "lwID y = lwID x" using True by auto
  then have "find (\<lambda>y. lwID y = lwID x) ?q \<noteq> None" by (auto simp: find_None_iff)
  then obtain old where old: "find (\<lambda>y. lwID y = lwID x) ?q = Some old" by blast
  then obtain k where k: "k < length ?q" "lwID (?q ! k) = lwID x" "old = ?q ! k" by (auto simp: find_Some_iff)
  have i: "lwIndex old = int k" using q(2) k by (simp add: indexed_def)
  let ?s = "set_time (lwID x) (lwTime x) ?q"
  have uniq: "lwID (?q ! j) = lwID x \<longleftrightarrow> j = k" if "j < length ?q" for j
    using q(3) k that nth_eq_iff_index_eq [OF q(3), of j k] by auto
  have s: "length ?s = length ?q" "\<And>j. j < length ?q \<Longrightarrow> j \<noteq> k \<Longrightarrow> at ?s j = at ?q j"
    using uniq by (auto simp: set_time_def)
  note f = heap_Fix_spec [OF q(1) s(1) k(1) s(2)]
  let ?h = "heap_Fix k ?s"
  have ids: "map lwID ?s = map lwID ?q" by (simp add: set_time_def comp_def if_distrib cong: if_cong)
  have m: "image_mset entry (mset ?h) = image_mset entry (mset ?s)" using f by (simp add: permuted_def)
  have "indexed ?s" using q(2) by (simp add: indexed_def set_time_def)
  moreover have "heap_ok ?h" using f by (rule conjunct1)
  ultimately have "queue_ok ?h" using f unfolding queue_ok_def permuted_def by blast
  moreover have d: "distinct (map lwID ?h)" using distinct_ids [OF m] q(3) ids by simp
  moreover have "lwID ` set ?h = lwID ` set ?q" using ids_set [OF m] arg_cong [OF ids, of set] by simp
  moreover have "map_of (map entry ?s) = (map_of (map entry ?q))(lwID x \<mapsto> lwTime x)"
  proof -
    have "(lwID x, at ?q k) = entry (?q ! k)" using k(2) by (simp add: entry_def)
    then have "(lwID x, at ?q k) \<in> set (map entry ?q)" using nth_mem [OF k(1)] by simp
    then have "lwID x \<in> fst ` set (map entry ?q)" by (rule rev_image_eqI) simp
    moreover have "map entry ?s = map (\<lambda>(j, u). (j, if j = lwID x then lwTime x else u)) (map entry ?q)"
      by (simp add: set_time_def entry_def)
    ultimately show ?thesis using map_of_change [of "lwID x" "lwTime x" "map entry ?q"] by (simp only: if_True)
  qed
  then have "map_of (map entry ?h) = (map_of (map entry ?q))(lwID x \<mapsto> lwTime x)"
    using map_of_entries_eq [OF d m] by simp
  ultimately show ?thesis
    using True old i k(1) q(4) by (simp add: RegisterOrUpdate_def nq_ok_def deadlines_def)
qed

lemma nq_empty: "nq_ok mq \<Longrightarrow> nqQueue mq = [] \<longleftrightarrow> deadlines mq = Map.empty"
  by (cases "nqQueue mq") (auto simp: deadlines_def entry_def fun_eq_iff)

lemma nq_Len_queue: "nq_ok mq \<Longrightarrow> nq_Len mq = length (nqQueue mq)"
  using distinct_card [of "map lwID (nqQueue mq)"] by (simp add: nq_ok_def nq_Len_def fcard.rep_eq)

lemma Poll_spec:
  assumes "nq_ok mq"
  shows "Poll mq = Some (case nqQueue mq of [] \<Rightarrow> None | x # _ \<Rightarrow> Some x)"
  using nq_Len_queue [OF assms] by (simp add: Poll_def split: list.split)

lemma deadline_entry: "nq_ok mq \<Longrightarrow> deadlines mq i = Some t \<longleftrightarrow> (\<exists>x \<in> set (nqQueue mq). entry x = (i, t))"
  using map_of_entries [of "nqQueue mq" i t] by (force simp: deadlines_def nq_ok_def)

lemma first_entry:
  assumes "nq_ok mq" "nqQueue mq = x # xs"
  shows "deadlines mq (lwID x) = Some (lwTime x)" "deadlines mq j = Some u \<Longrightarrow> lwTime x \<le> u"
proof -
  show "deadlines mq (lwID x) = Some (lwTime x)" using assms by (simp add: deadline_entry entry_def)
next
  assume "deadlines mq j = Some u"
  then obtain y where "y \<in> set (nqQueue mq)" "lwTime y = u" using deadline_entry [OF assms(1)] by (auto simp: entry_def)
  then obtain k where "k < length (nqQueue mq)" "at (nqQueue mq) k = u" by (auto simp: in_set_conv_nth)
  then show "lwTime x \<le> u" using heap_root [of "length (nqQueue mq)" "nqQueue mq" k] assms by (simp add: nq_ok_def queue_ok_def)
qed

lemma Unregister_spec:
  assumes "nq_ok mq" "nqQueue mq = x # xs"
  shows "\<exists>mq' y. Unregister mq = Some (mq', y) \<and> entry y = entry x \<and> nq_ok mq' \<and> deadlines mq' = (deadlines mq)(lwID x := None)"
proof -
  let ?q = "nqQueue mq"
  have q: "queue_ok ?q" "?q \<noteq> []" "distinct (map lwID ?q)" "fset (nqM mq) = lwID ` set ?q" using assms by (simp_all add: nq_ok_def)
  obtain q' y where y: "heap_Pop ?q = Some (q', y)" "queue_ok q'" "entry y = entry (hd ?q)"
    "image_mset entry (mset ?q) = add_mset (entry y) (image_mset entry (mset q'))"
    using heap_Pop_spec [OF q(1,2)] .
  have m: "image_mset entry (mset ?q) = image_mset entry (mset (y # q'))" using y(4) by simp
  have d: "distinct (map lwID (y # q'))" using distinct_ids [OF m] q(3) by simp
  have id: "lwID y = lwID x" using y(3) assms(2) by (simp add: entry_def)
  have "map_of (map entry ?q) = map_of (map entry (y # q'))" using map_of_entries_eq [OF q(3) m] .
  then have "map_of (map entry q') = (map_of (map entry ?q))(lwID x := None)"
    using d id by (auto simp: entry_def fun_eq_iff map_of_eq_None_iff)
  moreover have "lwID ` set q' = lwID ` set ?q - {lwID x}" using ids_set [OF m] d id by auto
  ultimately show ?thesis using y(1-3) d id q(4) assms(2) by (simp add: Unregister_def nq_ok_def deadlines_def)
qed

lemma RegisterOrUpdate_entry: "RegisterOrUpdate (x\<lparr>lwIndex := k\<rparr>) mq = RegisterOrUpdate x mq"
  by (simp add: RegisterOrUpdate_def heap_Push_def lq_Push_def)

interpretation nq: deadline_queue nq_ok deadlines
  "\<lambda>i t. RegisterOrUpdate \<lparr>lwID = i, lwTime = t, lwIndex = 0\<rparr>"
  "\<lambda>mq. map_option (map_option entry) (Poll mq)"
  "\<lambda>mq. map_option (apsnd entry) (Unregister mq)"
proof
  fix mq :: LeaseExpiredNotifier and i j t u
  assume ok: "nq_ok mq"
  show "finite (dom (deadlines mq))" by (simp add: deadlines_def finite_dom_map_of)
  show "\<exists>mq'. RegisterOrUpdate \<lparr>lwID = i, lwTime = t, lwIndex = 0\<rparr> mq = Some mq' \<and> nq_ok mq' \<and> deadlines mq' = (deadlines mq)(i \<mapsto> t)"
    using RegisterOrUpdate_spec [OF ok, of "\<lparr>lwID = i, lwTime = t, lwIndex = 0\<rparr>"] by simp
  show "map_option (map_option entry) (Poll mq) = Some None" if "deadlines mq = Map.empty"
    using that ok nq_empty [OF ok] by (simp add: Poll_spec)
  show "\<exists>i t. map_option (map_option entry) (Poll mq) = Some (Some (i, t)) \<and> deadlines mq i = Some t \<and> (\<forall>j u. deadlines mq j = Some u \<longrightarrow> t \<le> u)"
    if ne: "deadlines mq \<noteq> Map.empty"
  proof -
    obtain x xs where x: "nqQueue mq = x # xs" using nq_empty [OF ok] ne by (cases "nqQueue mq") auto
    then show ?thesis using first_entry [OF ok x] Poll_spec [OF ok] by (intro exI [of _ "lwID x"] exI [of _ "lwTime x"]) (simp add: entry_def)
  qed
  show "\<exists>mq'. map_option (apsnd entry) (Unregister mq) = Some (mq', i, t) \<and> nq_ok mq' \<and> deadlines mq' = (deadlines mq)(i := None)"
    if polled: "map_option (map_option entry) (Poll mq) = Some (Some (i, t))"
  proof -
    obtain x xs where x: "nqQueue mq = x # xs" "entry x = (i, t)"
      using polled Poll_spec [OF ok] by (cases "nqQueue mq") auto
    then show ?thesis using Unregister_spec [OF ok x(1)] by (auto simp: entry_def)
  qed
qed

lemma nq_ok_new [simp]: "nq_ok newLeaseExpiredNotifier" "deadlines newLeaseExpiredNotifier = Map.empty"
  by (simp_all add: nq_ok_def newLeaseExpiredNotifier_def queue_ok_def heap_except_def indexed_def deadlines_def)

end
