(* ===== verification/LeaseProps.thy ===== *)
theory LeaseProps
  imports Lessor LeaseQueueProps
begin

text \<open>
  The invariant of the lessor, that its operations keep it, and what the search for expired leases
  finds. The laws of the notifier come from the interpretation \<open>nq\<close> of the locale of LeaseQueueProps.
\<close>

section \<open>The invariant\<close>

definition leases_ok :: "(LeaseID, Lease) fmap \<Rightarrow> bool" where
  "leases_ok m \<longleftrightarrow> (\<forall>i l. fmlookup m i = Some l \<longrightarrow> lsID l = i)"

text \<open>The leases of a primary expire and have deadlines to look at.\<close>

definition watched :: "lessor \<Rightarrow> bool" where
  "watched le \<longleftrightarrow> (lePrimary le \<longrightarrow>
     (\<forall>i l. fmlookup (leLeaseMap le) i = Some l \<longrightarrow> lsExpiry l \<noteq> None \<and> deadlines (leNotifier le) i \<noteq> None))"

definition lessor_ok :: "lessor \<Rightarrow> bool" where
  "lessor_ok le \<longleftrightarrow> leases_ok (leLeaseMap le) \<and> nq_ok (leNotifier le) \<and> queue_ok (leCheckpointHeap le) \<and> watched le"

lemma lessor_okD:
  assumes "lessor_ok le"
  shows "nq_ok (leNotifier le)" "queue_ok (leCheckpointHeap le)" "watched le" "leases_ok (leLeaseMap le)"
    and "fmlookup (leLeaseMap le) i = Some l \<Longrightarrow> lsID l = i"
  using assms by (simp_all add: lessor_ok_def leases_ok_def)

lemma refresh_simps [simp]:
  "lsID (refresh now d l) = lsID l" "lsExpiry (refresh now d l) \<noteq> None" "lsItems (refresh now d l) = lsItems l"
  "lsTtl (refresh now d l) = lsTtl l" "lsRemainingTTL (refresh now d l) = lsRemainingTTL l"
  by (simp_all add: refresh_def)

lemma refresh_expiry [simp]: "\<exists>e. lsExpiry (refresh now d l) = Some e"
  by (simp add: refresh_def)

lemma set_forever_simps [simp]: "lsID (set_forever l) = lsID l" "lsExpiry (set_forever l) = None"
  by (simp_all add: set_forever_def)

section \<open>Registering and scheduling\<close>

lemma register_spec:
  assumes "nq_ok (leNotifier le)" "lsExpiry l = Some e"
  obtains q where "register l le = Some (le\<lparr>leNotifier := q\<rparr>)" "nq_ok q" "deadlines q = (deadlines (leNotifier le))(lsID l \<mapsto> int64 e)"
proof -
  obtain q where "RegisterOrUpdate \<lparr>lwID = lsID l, lwTime = int64 e, lwIndex = 0\<rparr> (leNotifier le) = Some q" "nq_ok q"
    "deadlines q = (deadlines (leNotifier le))(lsID l \<mapsto> int64 e)"
    using nq.enter_law [OF assms(1), of "lsID l" "int64 e"] by blast
  then show thesis using that [of q] assms(2) by (simp add: register_def UnixNano_def)
qed

lemma schedule_frame [simp]:
  "leLeaseMap (scheduleCheckpointIfNeeded now l le) = leLeaseMap le" "leNotifier (scheduleCheckpointIfNeeded now l le) = leNotifier le"
  "lePrimary (scheduleCheckpointIfNeeded now l le) = lePrimary le" "leItemMap (scheduleCheckpointIfNeeded now l le) = leItemMap le"
  "leB (scheduleCheckpointIfNeeded now l le) = leB le"
  by (simp_all add: scheduleCheckpointIfNeeded_def)

lemma schedule_queue: "queue_ok (leCheckpointHeap le) \<Longrightarrow> queue_ok (leCheckpointHeap (scheduleCheckpointIfNeeded now l le))"
  by (simp add: scheduleCheckpointIfNeeded_def heap_Push_spec(1))

lemma schedule_ok: "lessor_ok le \<Longrightarrow> lessor_ok (scheduleCheckpointIfNeeded now l le)"
  by (simp add: lessor_ok_def watched_def schedule_queue)

text \<open>A lease that is refreshed, put into the map of a primary and registered.\<close>

lemma put_register_ok:
  assumes "lessor_ok le" "lsExpiry l \<noteq> None"
  obtains le' where "register l (le\<lparr>leLeaseMap := fmupd (lsID l) l (leLeaseMap le)\<rparr>) = Some le'" "lessor_ok le'"
    "leLeaseMap le' = fmupd (lsID l) l (leLeaseMap le)" "lePrimary le' = lePrimary le" "leItemMap le' = leItemMap le" "leB le' = leB le"
proof -
  obtain e where e: "lsExpiry l = Some e" using assms(2) by blast
  let ?le = "le\<lparr>leLeaseMap := fmupd (lsID l) l (leLeaseMap le)\<rparr>"
  have "nq_ok (leNotifier ?le)" using assms(1) by (simp add: lessor_ok_def)
  from register_spec [OF this e] obtain q where q: "register l ?le = Some (?le\<lparr>leNotifier := q\<rparr>)" "nq_ok q"
    "deadlines q = (deadlines (leNotifier le))(lsID l \<mapsto> int64 e)" by auto
  have "lessor_ok (?le\<lparr>leNotifier := q\<rparr>)"
    using assms(1) q(2) e by (auto simp: lessor_ok_def leases_ok_def watched_def q(3))
  then show thesis using that [OF q(1)] by simp
qed

section \<open>The operations keep the invariant\<close>

lemma Grant_ok:
  assumes "lessor_ok le"
  obtains r le' where "Grant now i ttl le = Some (r, le')" "lessor_ok le'"
proof (cases "i = NoLease \<or> ttl > MaxLeaseTTL \<or> i |\<in>| fmdom (leLeaseMap le)")
  case True
  then have "\<exists>r. Grant now i ttl le = Some (r, le)" by (auto simp: Grant_def)
  with assms that show thesis by blast
next
  case False
  define t where "t = (if ttl < leMinLeaseTTL le then leMinLeaseTTL le else ttl)"
  define l0 where "l0 = \<lparr>lsID = i, lsTtl = t, lsRemainingTTL = 0, lsExpiry = None, lsItems = {||}, lsRevoked = False\<rparr>"
  define l where "l = (if lePrimary le then refresh now 0 l0 else set_forever l0)"
  have i: "lsID l = i" by (simp add: l_def l0_def)
  obtain b where b: "persistTo l (leB le) = Some b" by (simp add: persistTo_def)
  let ?le = "(le\<lparr>leB := b\<rparr>)\<lparr>leLeaseMap := fmupd (lsID l) l (leLeaseMap le)\<rparr>"
  have sw: "le\<lparr>leLeaseMap := m, leB := b\<rparr> = (le\<lparr>leB := b\<rparr>)\<lparr>leLeaseMap := m\<rparr>" for m by (cases le) simp
  have g: "Grant now i ttl le =
      Option.bind (if lePrimary le then map_option (scheduleCheckpointIfNeeded now l) (register l ?le) else Some ?le)
        (\<lambda>le. Some (Inr l, le))"
    using False b i unfolding sw [symmetric] Grant_def t_def [symmetric] Let_def l0_def [symmetric] l_def [symmetric] by simp
  have ok: "lessor_ok (le\<lparr>leB := b\<rparr>)" using assms by (simp add: lessor_ok_def watched_def)
  show thesis
  proof (cases "lePrimary le")
    case True
    then have "lsExpiry l \<noteq> None" by (simp add: l_def)
    from put_register_ok [OF ok this] obtain le' where le': "register l ?le = Some le'" "lessor_ok le'"
      by auto
    with True show thesis using that g schedule_ok by simp
  next
    case False
    then have "lessor_ok ?le" using ok i by (simp add: lessor_ok_def leases_ok_def watched_def l_def)
    with False show thesis using that g by simp
  qed
qed

lemma map_lease_ok:
  assumes "lessor_ok le" "fmlookup (leLeaseMap le) i = Some l" "lsID l' = lsID l" "lsExpiry l' = lsExpiry l"
  shows "lessor_ok (le\<lparr>leLeaseMap := fmupd i l' (leLeaseMap le)\<rparr>)"
  using assms by (auto simp: lessor_ok_def leases_ok_def watched_def)

lemma Checkpoint_ok: "lessor_ok le \<Longrightarrow> lessor_ok (Checkpoint now i r le)"
  by (auto simp: Checkpoint_def Let_def split: option.split intro!: schedule_ok map_lease_ok)

lemma renewEnd_ok:
  assumes "lessor_ok le"
  obtains t le' where "renewEnd now l sh le = Some (t, le')" "lessor_ok le'"
proof -
  define l1 where "l1 = refresh now 0 (if sh then (case fmlookup (leLeaseMap le) (lsID l) of None \<Rightarrow> l | Some l' \<Rightarrow> l') else l)"
  have i: "lsID l1 = lsID l" using lessor_okD(5) [OF assms] by (auto simp: l1_def split: option.split)
  have e: "lsExpiry l1 \<noteq> None" by (simp add: l1_def)
  show thesis
  proof (cases "sh \<and> lsID l |\<in>| fmdom (leLeaseMap le)")
    case True
    obtain le' where "register l1 (le\<lparr>leLeaseMap := fmupd (lsID l1) l1 (leLeaseMap le)\<rparr>) = Some le'" "lessor_ok le'"
      using put_register_ok [OF assms e] by metis
    then show thesis using that True i unfolding renewEnd_def Let_def l1_def [symmetric] by simp
  next
    case False
    obtain d where d: "lsExpiry l1 = Some d" using e by blast
    obtain q where q: "register l1 le = Some (le\<lparr>leNotifier := q\<rparr>)" "nq_ok q" "deadlines q = (deadlines (leNotifier le))(lsID l1 \<mapsto> int64 d)"
      using register_spec [OF lessor_okD(1) [OF assms] d] .
    have "lessor_ok (le\<lparr>leNotifier := q\<rparr>)" using assms q(2) by (auto simp: lessor_ok_def watched_def q(3))
    then show thesis using that False q(1) i unfolding renewEnd_def Let_def l1_def [symmetric] by simp
  qed
qed

lemma Demote_ok: "lessor_ok le \<Longrightarrow> lessor_ok (Demote le)"
  by (auto simp: lessor_ok_def leases_ok_def watched_def Demote_def queue_ok_def heap_except_def indexed_def)

lemma items_ok [simp]: "lessor_ok (le\<lparr>leItemMap := m\<rparr>) = lessor_ok le" "lessor_ok (le\<lparr>leB := b\<rparr>) = lessor_ok le"
  "lessor_ok (le\<lparr>leRd := x\<rparr>) = lessor_ok le" "lessor_ok (le\<lparr>leCp := x\<rparr>) = lessor_ok le" "lessor_ok (le\<lparr>leExpiredC := c\<rparr>) = lessor_ok le"
  by (simp_all add: lessor_ok_def watched_def)

lemma Attach_ok: "lessor_ok le \<Longrightarrow> lessor_ok (snd (Attach i items le))"
  unfolding Attach_def by (cases "fmlookup (leLeaseMap le) i") (simp_all add: map_lease_ok)

lemma Detach_ok: "lessor_ok le \<Longrightarrow> lessor_ok (snd (Detach i items le))"
  unfolding Detach_def by (cases "fmlookup (leLeaseMap le) i") (simp_all add: map_lease_ok)

section \<open>Promotion\<close>

definition watched_on :: "LeaseID set \<Rightarrow> lessor \<Rightarrow> bool" where
  "watched_on S le \<longleftrightarrow> (\<forall>i \<in> S. \<forall>l. fmlookup (leLeaseMap le) i = Some l \<longrightarrow> lsExpiry l \<noteq> None \<and> deadlines (leNotifier le) i \<noteq> None)"

lemma refreshLease_spec:
  assumes "leases_ok (leLeaseMap le)" "nq_ok (leNotifier le)" "fmlookup (leLeaseMap le) i = Some l"
  obtains q where "refreshLease now d i le = Some (le\<lparr>leLeaseMap := fmupd i (refresh now d l) (leLeaseMap le), leNotifier := q\<rparr>)"
    "nq_ok q" "\<exists>t. deadlines q = (deadlines (leNotifier le))(i \<mapsto> t)"
proof -
  let ?le = "le\<lparr>leLeaseMap := fmupd i (refresh now d l) (leLeaseMap le)\<rparr>"
  obtain e where e: "lsExpiry (refresh now d l) = Some e" using refresh_simps(2) [of now d l] by blast
  have i: "lsID l = i" using assms(1,3) by (simp add: leases_ok_def)
  have "nq_ok (leNotifier ?le)" using assms(2) by simp
  from register_spec [OF this e] obtain q where q: "register (refresh now d l) ?le = Some (?le\<lparr>leNotifier := q\<rparr>)" "nq_ok q"
    "deadlines q = (deadlines (leNotifier le))(i \<mapsto> int64 e)" using i by auto
  show thesis by (rule that [OF _ q(2)]) (use q(1,3) assms(3) in \<open>auto simp: refreshLease_def Let_def\<close>)
qed

lemma refreshLeases:
  assumes "set is \<subseteq> fset (fmdom (leLeaseMap le))" "leases_ok (leLeaseMap le)" "nq_ok (leNotifier le)" "watched_on S le"
    "queue_ok (leCheckpointHeap le)" "lePrimary le"
  shows "\<exists>le'. foldM (refreshLease now d) is le = Some le' \<and> leases_ok (leLeaseMap le') \<and> nq_ok (leNotifier le')
    \<and> watched_on (S \<union> set is) le' \<and> fmdom (leLeaseMap le') = fmdom (leLeaseMap le) \<and> queue_ok (leCheckpointHeap le') \<and> lePrimary le'"
  using assms
proof (induction "is" arbitrary: le S)
  case (Cons i js)
  then obtain l where l: "fmlookup (leLeaseMap le) i = Some l" by (auto simp: fmlookup_dom_iff)
  from refreshLease_spec [OF Cons.prems(2,3) l] obtain q t where
    r: "refreshLease now d i le = Some (le\<lparr>leLeaseMap := fmupd i (refresh now d l) (leLeaseMap le), leNotifier := q\<rparr>)" (is "_ = Some ?le")
    and q: "nq_ok q" "deadlines q = (deadlines (leNotifier le))(i \<mapsto> t)" by metis
  have id: "lsID l = i" using Cons.prems(2) l by (simp add: leases_ok_def)
  have dom: "fmdom (leLeaseMap ?le) = fmdom (leLeaseMap le)" using l by (auto simp: fmlookup_dom_iff)
  have w: "watched_on (insert i S) ?le" using Cons.prems(4) q(2) by (auto simp: watched_on_def)
  have m: "leases_ok (leLeaseMap ?le)" using Cons.prems(2) id by (auto simp: leases_ok_def)
  have js: "set js \<subseteq> fset (fmdom (leLeaseMap ?le))" using Cons.prems(1) unfolding dom by simp
  from Cons.IH [OF js m _ w] q(1) Cons.prems(5,6) r dom show ?case by auto
qed (auto simp: watched_on_def)

lemma spread_ok:
  "lessor_ok le \<Longrightarrow> lePrimary le \<Longrightarrow> \<exists>le'. spreadExpiries now d ls w le = Some le' \<and> lessor_ok le' \<and> lePrimary le'"
proof (induction now d ls w le rule: spreadExpiries.induct)
  case (2 now d l ls b n e le)
  let ?r = "Remaining now l" and ?t = "int ((3 * leaseRevokeRate) div 4)"
  consider "?r > n" | "\<not> ?r > n" "e + 1 \<le> ?t" | "\<not> ?r > n" "\<not> e + 1 \<le> ?t" by blast
  then show ?case
  proof cases
    case 1
    with "2.IH"(1) [OF refl refl 1] "2.prems" show ?thesis by (simp add: Let_def)
  next
    case 2
    with "2.IH"(2) [OF refl refl 2] "2.prems" show ?thesis by (simp add: Let_def)
  next
    case 3
    let ?d1 = "f64_mul (f64_of_int second) (f64_div (f64_of_int (e + 1)) (f64_of_int ?t))"
    let ?d2 = "f64_sub ?d1 (f64_of_int (int64 (?r - b)))"
    let ?l = "refresh now (int64 (f64_trunc ?d2 + d)) l"
    obtain le' where le': "register ?l (le\<lparr>leLeaseMap := fmupd (lsID ?l) ?l (leLeaseMap le)\<rparr>) = Some le'" "lessor_ok le'" "lePrimary le'"
      using put_register_ok [OF "2.prems"(1)] refresh_simps(2) "2.prems"(2) by metis
    let ?le = "scheduleCheckpointIfNeeded now ?l le'"
    have "lessor_ok ?le" "lePrimary ?le" using le'(2,3) schedule_ok by simp_all
    note ih = "2.IH"(3) [OF refl refl 3 refl refl refl refl le'(1) this]
    then show ?thesis using 3 le'(1) by (simp add: Let_def)
  qed
qed simp

lemma Promote_ok:
  assumes "lessor_ok le"
  shows "\<exists>le'. Promote now d le = Some le' \<and> lessor_ok le' \<and> lePrimary le'"
proof -
  let ?le = "le\<lparr>lePrimary := True\<rparr>" and ?is = "sorted_list_of_fset (fmdom (leLeaseMap le))"
  have "watched_on {} ?le" by (simp add: watched_on_def)
  then obtain le' where le': "foldM (refreshLease now d) ?is ?le = Some le'" "leases_ok (leLeaseMap le')" "nq_ok (leNotifier le')"
      "watched_on (set ?is) le'" "fmdom (leLeaseMap le') = fmdom (leLeaseMap le)" "queue_ok (leCheckpointHeap le')" "lePrimary le'"
    using refreshLeases [of ?is ?le "{}" now d] assms by (auto simp: lessor_ok_def)
  have "i \<in> set ?is" if "fmlookup (leLeaseMap le') i = Some l" for i l
    using fmdomI [OF that] le'(5) by (simp add: sorted_list_of_fset.rep_eq)
  then have "lsExpiry l \<noteq> None \<and> deadlines (leNotifier le') i \<noteq> None" if "fmlookup (leLeaseMap le') i = Some l" for i l
    using that le'(4) unfolding watched_on_def by blast
  then have "watched le'" using le'(7) by (simp add: watched_def)
  with le' have ok: "lessor_ok le'" by (simp add: lessor_ok_def)
  show ?thesis using spread_ok [OF ok le'(7)] ok le'(1,7) by (simp add: Promote_def Let_def)
qed

section \<open>The search for expired leases\<close>

text \<open>The three outcomes of a look at the first deadline.\<close>

lemma expireExists_cases:
  assumes "nq_ok (leNotifier le)" "now < int64 (now + leRetryInterval le)" "int64 now = now"
  obtains
    (none) lo where "expireExists now le = Some (le, lo, False, False)"
      "\<And>i t. deadlines (leNotifier le) i = Some t \<Longrightarrow> now < t"
  | (gone) i q where "expireExists now le = Some (le\<lparr>leNotifier := q\<rparr>, None, False, True)" "nq_ok q"
      "deadlines q = (deadlines (leNotifier le))(i := None)" "i |\<notin>| fmdom (leLeaseMap le)" "nq.work now q < nq.work now (leNotifier le)"
  | (due) i l t q where "expireExists now le = Some (le\<lparr>leNotifier := q\<rparr>, Some l, True, False)" "nq_ok q"
      "fmlookup (leLeaseMap le) i = Some l" "deadlines (leNotifier le) i = Some t" "t \<le> now"
      "deadlines q = (deadlines (leNotifier le))(i \<mapsto> int64 (now + leRetryInterval le))" "nq.work now q < nq.work now (leNotifier le)"
proof (cases "nqQueue (leNotifier le)")
  case Nil
  then have "nq_Len (leNotifier le) = 0" "deadlines (leNotifier le) = Map.empty"
    using nq_Len_queue [OF assms(1)] nq_empty [OF assms(1)] by simp_all
  then show thesis by (intro none [of None]) (simp_all add: expireExists_def)
next
  case (Cons x xs)
  have len: "nq_Len (leNotifier le) \<noteq> 0" using nq_Len_queue [OF assms(1)] Cons by simp
  have poll: "Poll (leNotifier le) = Some (Some x)" using Poll_spec [OF assms(1)] Cons by simp
  then have fst: "map_option (map_option entry) (Poll (leNotifier le)) = Some (Some (lwID x, lwTime x))" by (simp add: entry_def)
  show thesis
  proof (cases "fmlookup (leLeaseMap le) (lwID x)")
    case None
    obtain q where q: "map_option (apsnd entry) (Unregister (leNotifier le)) = Some (q, lwID x, lwTime x)" "nq_ok q"
      "deadlines q = (deadlines (leNotifier le))(lwID x := None)" "nq.work now q < nq.work now (leNotifier le)"
      using nq.remove_work [OF assms(1) fst] by blast
    then obtain y where "Unregister (leNotifier le) = Some (q, y)" by auto
    then have "expireExists now le = Some (le\<lparr>leNotifier := q\<rparr>, None, False, True)"
      using len poll None by (simp add: expireExists_def)
    from gone [OF this q(2,3) _ q(4)] None show thesis by (simp add: fmdom_notI)
  next
    case (Some l)
    show thesis
    proof (cases "now < lwTime x")
      case True
      then have "expireExists now le = Some (le, Some l, False, False)" using len poll Some assms(3) by (simp add: expireExists_def)
      moreover have "now < t" if "deadlines (leNotifier le) i = Some t" for i t
        using nq.first_least [OF assms(1) fst that] True by simp
      ultimately show thesis by (rule none)
    next
      case False
      then have t: "lwTime x \<le> now" by simp
      let ?u = "int64 (now + leRetryInterval le)"
      obtain q where q: "RegisterOrUpdate \<lparr>lwID = lwID x, lwTime = ?u, lwIndex = 0\<rparr> (leNotifier le) = Some q" "nq_ok q"
        "deadlines q = (deadlines (leNotifier le))(lwID x \<mapsto> ?u)" "nq.work now q < nq.work now (leNotifier le)"
        using nq.enter_work [OF assms(1) fst t assms(2)] by blast
      have "RegisterOrUpdate (x\<lparr>lwTime := ?u\<rparr>) (leNotifier le) = Some q"
        using q(1) RegisterOrUpdate_entry [where x = "x\<lparr>lwTime := ?u\<rparr>" and k = 0] by (cases x) simp
      then have "expireExists now le = Some (le\<lparr>leNotifier := q\<rparr>, Some l, True, False)"
        using len poll Some False assms(3) by (simp add: expireExists_def)
      from due [OF this q(2) Some nq.first_due [OF assms(1) fst] t q(3,4)] show thesis .
    qed
  qed
qed

end
