(* ===== verification/LeaseRevoke.thy ===== *)
theory LeaseRevoke
  imports StoreRun LeaseProps
begin

text \<open>
  Revoke of lease/lessor.go, on the store whose write transactions the range deleter opens, as the
  server sets it up; and what ties the lessor to the store: the keys attached to a lease are those
  whose records carry it.
\<close>

text \<open>Closing the channel of a lease that has been revoked before panics.\<close>

definition Revoke :: "LeaseID \<Rightarrow> store \<Rightarrow> (LeaseErr option \<times> store) option" where
  "Revoke i s =
     do {
       le \<leftarrow> sLessor s;
       case fmlookup (leLeaseMap le) i of
         None \<Rightarrow> Some (Some ErrLeaseNotFound, s)
       | Some l \<Rightarrow>
           do {
             panic_if (lsRevoked l);
             if \<not> leRd le
             then Some (None, s\<lparr>sLessor := Some (le\<lparr>leLeaseMap := fmupd i (l\<lparr>lsRevoked := True\<rparr>) (leLeaseMap le)\<rparr>)\<rparr>)
             else do {
               tw \<leftarrow> foldM (\<lambda>key tw. map_option fst (tw_DeleteRange key None tw)) (Keys l) (store_Write s);
               le \<leftarrow> sLessor (twStore tw);
               let le = le\<lparr>leLeaseMap := fmdrop (lsID l) (leLeaseMap le), leB := UnsafeDelete (int64ToBytes (lsID l)) (leB le)\<rparr>;
               Some (None, tw_End (tw\<lparr>twStore := (twStore tw)\<lparr>sLessor := Some le\<rparr>\<rparr>))
             }
           }
     }"

section \<open>The lessor and the store agree\<close>

definition lease_of :: "KeyValue option \<Rightarrow> LeaseID" where
  "lease_of kv = (case kv of None \<Rightarrow> NoLease | Some kv \<Rightarrow> kvLease kv)"

definition linked :: "lessor \<Rightarrow> kvmap \<Rightarrow> bool" where
  "linked le m \<longleftrightarrow> (\<forall>k. GetLease k le = lease_of (m k))
     \<and> (\<forall>k i. fmlookup (leItemMap le) k = Some i \<longrightarrow> i \<noteq> NoLease \<and> (\<exists>l. fmlookup (leLeaseMap le) i = Some l \<and> k |\<in>| lsItems l))
     \<and> (\<forall>i l k. fmlookup (leLeaseMap le) i = Some l \<longrightarrow> k |\<in>| lsItems l \<longrightarrow> fmlookup (leItemMap le) k = Some i)
     \<and> fmlookup (leLeaseMap le) NoLease = None"

lemma linkedD:
  assumes "linked le m"
  shows "GetLease k le = lease_of (m k)"
    and "fmlookup (leItemMap le) k = Some i \<Longrightarrow> i \<noteq> NoLease"
    and "fmlookup (leItemMap le) k = Some i \<Longrightarrow> \<exists>l. fmlookup (leLeaseMap le) i = Some l \<and> k |\<in>| lsItems l"
    and "fmlookup (leLeaseMap le) i = Some l \<Longrightarrow> k |\<in>| lsItems l \<Longrightarrow> fmlookup (leItemMap le) k = Some i"
    and "fmlookup (leLeaseMap le) i = Some l \<Longrightarrow> i \<noteq> NoLease"
    and "fmlookup (leLeaseMap le) NoLease = None"
  using assms unfolding linked_def by (blast, blast, blast, blast, auto)

lemma linked_items:
  assumes "linked le m" "fmlookup (leLeaseMap le) i = Some l"
  shows "k |\<in>| lsItems l \<longleftrightarrow> lease_of (m k) = i"
proof
  assume "k |\<in>| lsItems l"
  from linkedD(4) [OF assms(1,2) this] linkedD(1) [OF assms(1), of k] show "lease_of (m k) = i" by (simp add: GetLease_def)
next
  assume "lease_of (m k) = i"
  then have "GetLease k le = i" using linkedD(1) [OF assms(1)] by simp
  then have "fmlookup (leItemMap le) k = Some i" using linkedD(5) [OF assms] by (simp add: GetLease_def split: option.splits)
  from linkedD(3) [OF assms(1) this] assms(2) show "k |\<in>| lsItems l" by simp
qed

text \<open>What happens to the lessor when a key is deleted: it is detached from its lease, if it has one.\<close>

definition detached :: "bytes \<Rightarrow> lessor \<Rightarrow> lessor" where
  "detached k le = (if GetLease k le = NoLease then le else snd (Detach (GetLease k le) [k] le))"

lemma linked_lease:
  assumes "linked le m" "GetLease k le \<noteq> NoLease"
  obtains l where "fmlookup (leItemMap le) k = Some (GetLease k le)" "fmlookup (leLeaseMap le) (GetLease k le) = Some l" "k |\<in>| lsItems l"
proof -
  have "fmlookup (leItemMap le) k = Some (GetLease k le)" using assms(2) by (simp add: GetLease_def split: option.splits)
  with linkedD(3) [OF assms(1) this] that show thesis by blast
qed

lemma detach_key_linked:
  assumes "linked le m" "sLessor s = Some le"
  shows "detach_key (GetLease k le) k s = Some (s\<lparr>sLessor := Some (detached k le)\<rparr>)"
proof (cases "GetLease k le = NoLease")
  case True
  have "s\<lparr>sLessor := Some le\<rparr> = s" using assms(2) by simp
  with True show ?thesis by (simp add: detach_key_def detached_def)
next
  case False
  from linked_lease [OF assms(1) False] obtain l where "fmlookup (leLeaseMap le) (GetLease k le) = Some l" by blast
  with False assms(2) show ?thesis by (simp add: detach_key_def detached_def Detach_def)
qed

lemma linked_detached:
  assumes "linked le m"
  shows "linked (detached k le) (m(k := None))"
proof (cases "GetLease k le = NoLease")
  case True
  then have "GetLease j le = lease_of ((m(k := None)) j)" for j
    using linkedD(1) [OF assms, of j] by (cases "j = k") (simp_all add: lease_of_def)
  moreover have "detached k le = le" using True by (simp add: detached_def)
  ultimately show ?thesis using assms unfolding linked_def by simp
next
  case False
  from linked_lease [OF assms False] obtain l where l: "fmlookup (leItemMap le) k = Some (GetLease k le)"
    "fmlookup (leLeaseMap le) (GetLease k le) = Some l" "k |\<in>| lsItems l" .
  let ?i = "GetLease k le"
  have d: "detached k le = le\<lparr>leLeaseMap := fmupd ?i (l\<lparr>lsItems := lsItems l |-| {|k|}\<rparr>) (leLeaseMap le), leItemMap := fmdrop k (leItemMap le)\<rparr>"
    using False l(2) by (simp add: detached_def Detach_def)
  show ?thesis
    unfolding linked_def
  proof (intro conjI allI impI)
    fix j show "GetLease j (detached k le) = lease_of ((m(k := None)) j)"
      using linkedD(1) [OF assms, of j] by (simp add: d GetLease_def lease_of_def)
  next
    fix j i assume j: "fmlookup (leItemMap (detached k le)) j = Some i"
    then have "j \<noteq> k" "fmlookup (leItemMap le) j = Some i" by (auto simp: d split: if_splits)
    with linkedD(2,3) [OF assms this(2)] l(2) show "i \<noteq> NoLease"
      "\<exists>l. fmlookup (leLeaseMap (detached k le)) i = Some l \<and> j |\<in>| lsItems l" by (auto simp: d)
  next
    fix i l' j assume j: "fmlookup (leLeaseMap (detached k le)) i = Some l'" "j |\<in>| lsItems l'"
    have "j \<noteq> k \<and> (\<exists>l0. fmlookup (leLeaseMap le) i = Some l0 \<and> j |\<in>| lsItems l0)"
    proof (cases "i = ?i")
      case True
      then show ?thesis using j l(2) by (auto simp: d)
    next
      case False
      then have lk: "fmlookup (leLeaseMap le) i = Some l'" using j(1) by (simp add: d)
      have "j \<noteq> k" using linkedD(4) [OF assms lk j(2)] l(1) False by auto
      with lk j(2) show ?thesis by blast
    qed
    then show "fmlookup (leItemMap (detached k le)) j = Some i" using linkedD(4) [OF assms] by (auto simp: d)
  qed (use linkedD(6) [OF assms] False in \<open>simp add: d\<close>)
qed

lemma attach_key_linked:
  assumes "linked le m" "sLessor s = Some le" "lease_of (m k) = NoLease" "attach_key i k s = Some s'" "kvLease kv = i"
  obtains le' where "s' = s\<lparr>sLessor := Some le'\<rparr>" "linked le' (m(k := Some kv))"
    "i = NoLease \<and> le' = le \<or> le' = snd (Attach i [k] le)"
proof (cases "i = NoLease")
  case True
  then have "s' = s" using assms(4) by (simp add: attach_key_def)
  moreover have "s\<lparr>sLessor := Some le\<rparr> = s" using assms(2) by simp
  moreover have "linked le (m(k := Some kv))" using assms(1,3,5) True unfolding linked_def by (auto simp: lease_of_def)
  ultimately show thesis using that [of le] True by simp
next
  case False
  then obtain l where l: "fmlookup (leLeaseMap le) i = Some l"
    using assms(2,4) by (cases "fmlookup (leLeaseMap le) i") (simp_all add: attach_key_def Attach_def)
  define le' where "le' = le\<lparr>leLeaseMap := fmupd i (l\<lparr>lsItems := finsert k (lsItems l)\<rparr>) (leLeaseMap le), leItemMap := fmupd k i (leItemMap le)\<rparr>"
  have a: "Attach i [k] le = (None, le')" using l by (simp add: Attach_def le'_def)
  have s': "s' = s\<lparr>sLessor := Some le'\<rparr>" using False assms(2,4) a by (simp add: attach_key_def)
  have nk: "fmlookup (leItemMap le) k = None"
    using linkedD(1) [OF assms(1), of k] linkedD(2) [OF assms(1), of k] assms(3) by (auto simp: GetLease_def split: option.splits)
  have "linked le' (m(k := Some kv))"
    unfolding linked_def
  proof (intro conjI allI impI)
    fix j show "GetLease j le' = lease_of ((m(k := Some kv)) j)"
      using linkedD(1) [OF assms(1), of j] assms(5) by (simp add: le'_def GetLease_def lease_of_def)
  next
    fix j i' assume j: "fmlookup (leItemMap le') j = Some i'"
    show "i' \<noteq> NoLease" "\<exists>l. fmlookup (leLeaseMap le') i' = Some l \<and> j |\<in>| lsItems l"
      using j False linkedD(2,3) [OF assms(1), of j i'] l by (auto simp: le'_def split: if_splits)
  next
    fix i' l' j assume j: "fmlookup (leLeaseMap le') i' = Some l'" "j |\<in>| lsItems l'"
    show "fmlookup (leItemMap le') j = Some i'"
      using j linkedD(4) [OF assms(1), of i' _ j] l nk by (fastforce simp: le'_def split: if_splits)
  qed (use linkedD(6) [OF assms(1)] False in \<open>simp add: le'_def\<close>)
  then show thesis using that s' a by simp
qed

end
