(* ===== verification/LeaseLink.thy ===== *)
theory LeaseLink
  imports LeaseRevoke
begin

text \<open>
  Transactions keep the lessor and the current map linked, and a deletion of keys that are present
  never fails: the steps of Revoke.
\<close>

lemma linked_NoLease: "linked le m \<Longrightarrow> m k = None \<Longrightarrow> GetLease k le = NoLease"
  using linkedD(1) by (fastforce simp: lease_of_def)

section \<open>The lessor in a put and in a deletion\<close>

lemma detached_ok: "lessor_ok le \<Longrightarrow> lessor_ok (detached k le)"
  by (simp add: detached_def Detach_ok)

lemma detached_frame [simp]: "leRd (detached k le) = leRd le" "lePrimary (detached k le) = lePrimary le"
  "fmdom (leLeaseMap (detached k le)) = fmdom (leLeaseMap le)" "leB (detached k le) = leB le"
  by (auto simp: detached_def Detach_def split: option.split) (metis fmdomI finsert_absorb)+

lemma tw_put_lessor:
  assumes "tw_ok tw" "tw_put key val i tw = Some tw'" "sLessor (twStore tw) = Some le" "linked le (now tw)"
  obtains s1 s2 where "sLessor s1 = Some le" "detach_key (GetLease key le) key s1 = Some s2" "attach_key i key s2 = Some (twStore tw')"
proof -
  note ok = tw_okD [OF assms(1)]
  let ?h = "ti_hist (sIndex (twStore tw)) key" and ?r = "twBeginRev tw + 1"
  have "\<exists>s1 s2. detach_key (GetLease key le) key s1 = Some s2 \<and> attach_key i key s2 = Some (twStore tw') \<and> sLessor s1 = Some le"
  proof (cases "alive_at ?r ?h")
    case None
    then have "GetLease key le = NoLease" using ok(4) [of key] linked_NoLease [OF assms(4)] by simp
    with None show ?thesis using assms(2,3)
      by (auto simp: tw_put_def ti_Get_hist [OF ok(2)] Let_def split: Option.bind_splits)
        (intro exI conjI, assumption, simp_all)
  next
    case (Some x)
    then show ?thesis using assms(2,3)
      by (cases x) (auto simp: tw_put_def ti_Get_hist [OF ok(2)] Let_def split: Option.bind_splits,
        (intro exI conjI, assumption, simp_all)?)
  qed
  then show thesis using that by blast
qed

lemma tw_put_linked:
  assumes "tw_ok tw" "tw_put key val i tw = Some tw'" "sLessor (twStore tw) = Some le" "linked le (now tw)"
    and "now tw' = (now tw)(key := Some kv)" "kvLease kv = i" "lessor_ok le"
  obtains le' where "sLessor (twStore tw') = Some le'" "linked le' (now tw')" "lessor_ok le'"
proof -
  obtain s1 s2 where s: "sLessor s1 = Some le" "detach_key (GetLease key le) key s1 = Some s2" "attach_key i key s2 = Some (twStore tw')"
    using tw_put_lessor [OF assms(1-4)] .
  let ?m = "(now tw)(key := None)"
  have s2: "s2 = s1\<lparr>sLessor := Some (detached key le)\<rparr>" using detach_key_linked [OF assms(4) s(1), of key] s(2) by simp
  then have l2: "sLessor s2 = Some (detached key le)" by simp
  obtain le' where le': "twStore tw' = s2\<lparr>sLessor := Some le'\<rparr>" "linked le' (?m(key := Some kv))"
      "i = NoLease \<and> le' = detached key le \<or> le' = snd (Attach i [key] (detached key le))"
    using attach_key_linked [OF linked_detached [OF assms(4)] l2 _ s(3) assms(6)] by (auto simp: lease_of_def)
  have "lessor_ok le'" using le'(3) detached_ok [OF assms(7)] Attach_ok by auto
  then show thesis using that le' assms(5) by simp
qed

lemma tw_delete_linked:
  assumes "tw_ok tw" "now tw key \<noteq> None" "sLessor (twStore tw) = Some le" "linked le (now tw)"
  obtains tw' where "tw_delete key tw = Some tw'" "sLessor (twStore tw') = Some (detached key le)"
proof -
  let ?s = "twStore tw" and ?idx = "Revision (twBeginRev tw + 1) (int (length (twChanges tw)))"
  note ok = tw_okD [OF assms(1)]
  have revs: "\<forall>e \<in> set (ti_hist (sIndex ?s) key). rev_ok (fst e)" using store_okD(3) [OF ok(1)] by blast
  have "hist_alive (ti_hist (sIndex ?s) key) \<noteq> None"
    using alive_now(1) [OF ok(2,3) revs] ok(4) [of key] assms(2) by simp
  then obtain ti where ti: "ti_Tombstone key ?idx (sIndex ?s) = Some (None, ti)"
    using ti_Tombstone_hist [OF ok(2,3)] by blast
  let ?s1 = "?s\<lparr>sKey := UnsafePut (revToBytes ?idx @ [markTombstone]) (KeyValue_MarshalTo (zeroKeyValue\<lparr>kvKey := key\<rparr>)) (sKey ?s), sIndex := ti\<rparr>"
  have "sLessor ?s1 = Some le" using assms(3) by simp
  from detach_key_linked [OF assms(4) this, of key]
  have "tw_delete key tw = Some (tw\<lparr>twStore := ?s1\<lparr>sLessor := Some (detached key le)\<rparr>, twChanges := twChanges tw @ [zeroKeyValue\<lparr>kvKey := key\<rparr>]\<rparr>)"
    using ti assms(3) by (simp add: tw_delete_def Let_def appendMarkTombstone_def revBytesLen_def KeyValue_Marshal_total)
  then show thesis using that by simp
qed

section \<open>Deleting ranges\<close>

lemma foldM_delete_linked:
  assumes "tw_ok tw" "\<forall>k \<in> set ks. now tw k \<noteq> None" "distinct ks" "sLessor (twStore tw) = Some le" "linked le (now tw)" "lessor_ok le"
    and "rev_ok (Revision (twBeginRev tw + 1) (int (length (twChanges tw) + length ks)))"
  shows "\<exists>tw'. foldM tw_delete ks tw = Some tw' \<and> sLessor (twStore tw') = Some (fold detached ks le)
    \<and> linked (fold detached ks le) (now tw') \<and> lessor_ok (fold detached ks le)"
  using assms
proof (induction ks arbitrary: tw le)
  case (Cons k ks)
  have k: "now tw k \<noteq> None" using Cons.prems(2) by simp
  obtain tw1 where tw1: "tw_delete k tw = Some tw1" "sLessor (twStore tw1) = Some (detached k le)"
    using tw_delete_linked [OF Cons.prems(1) k Cons.prems(4,5)] .
  have "rev_ok (Revision (twBeginRev tw + 1) (int (length (twChanges tw)) + 1))"
    using Cons.prems(7) by (simp add: rev_ok_def int64_ok_def)
  note d = tw_delete_spec [OF Cons.prems(1) tw1(1) k this]
  have b: "twBeginRev tw1 = twBeginRev tw" "tw_ok tw1" using d(1) by (simp_all add: extends_def)
  have l: "linked (detached k le) (now tw1)" using linked_detached [OF Cons.prems(5)] d(2) by simp
  have "\<forall>k' \<in> set ks. now tw1 k' \<noteq> None" using d(2) Cons.prems(2,3) by auto
  moreover have "rev_ok (Revision (twBeginRev tw1 + 1) (int (length (twChanges tw1) + length ks)))"
    using Cons.prems(7) d(3) b by simp
  ultimately have "\<exists>tw'. foldM tw_delete ks tw1 = Some tw' \<and> sLessor (twStore tw') = Some (fold detached ks (detached k le))
      \<and> linked (fold detached ks (detached k le)) (now tw') \<and> lessor_ok (fold detached ks (detached k le))"
    using Cons.IH [OF b(2) _ _ tw1(2) l detached_ok [OF Cons.prems(6)]] Cons.prems(3) by simp
  then show ?case using tw1(1) by simp
qed simp

lemma tw_deleteRange_linked:
  fixes key :: bytes and endk :: "bytes option"
  assumes "tw_ok tw" "sLessor (twStore tw) = Some le" "linked le (now tw)" "lessor_ok le"
    and "rev_ok (Revision (twBeginRev tw + 1) (int (length (twChanges tw) + card {k. in_range key endk k \<and> now tw k \<noteq> None})))"
  obtains tw' n ks where "tw_deleteRange key endk tw = Some (tw', n)" "sLessor (twStore tw') = Some (fold detached ks le)"
    "linked (fold detached ks le) (now tw')" "lessor_ok (fold detached ks le)"
proof -
  let ?s = "twStore tw"
  define t where "t = (if length (twChanges tw) > 0 then twBeginRev tw + 1 else twBeginRev tw)"
  define ks where "ks = alive_keys key endk t (sIndex ?s)"
  note ok = tw_okD [OF assms(1)]
  have t: "view ?s t = now tw" using ok(5,6) by (simp add: t_def)
  have "ks = present ?s t key endk"
    using view_None [OF ok(1), of t] by (simp add: alive_keys_def ks_def present_def)
  then have ks: "set ks = {k. in_range key endk k \<and> now tw k \<noteq> None}" "distinct ks"
    using present_set [OF ok(1), of t key endk] present_sorted [of ?s t key endk]
    by (simp_all add: t strict_sorted_iff)
  then have len: "length ks = card {k. in_range key endk k \<and> now tw k \<noteq> None}" using distinct_card by fastforce
  have "\<forall>k \<in> set ks. now tw k \<noteq> None" using ks(1) by auto
  from foldM_delete_linked [OF assms(1) this ks(2) assms(2-4)] assms(5) len
  obtain tw' where tw': "foldM tw_delete ks tw = Some tw'" "sLessor (twStore tw') = Some (fold detached ks le)"
    "linked (fold detached ks le) (now tw')" "lessor_ok (fold detached ks le)" by auto
  have "tw_deleteRange key endk tw = Some (tw', int (length ks))"
    using tw'(1) ti_Range_hist(1) [OF ok(2), of key endk t]
    unfolding tw_deleteRange_def Let_def t_def [symmetric] ks_def [symmetric] by simp
  with tw' that show thesis by blast
qed

lemma tw_DeleteRange_fst: "map_option fst (tw_DeleteRange key endk tw) = map_option fst (tw_deleteRange key endk tw)"
  by (cases "tw_deleteRange key endk tw") (simp_all add: tw_DeleteRange_def split_beta)

lemma run_op_linked:
  assumes "tw_ok tw" "op_fits op tw" "run_op op tw = Some tw'" "sLessor (twStore tw) = Some le" "linked le (now tw)" "lessor_ok le"
  obtains le' where "sLessor (twStore tw') = Some le'" "linked le' (now tw')" "lessor_ok le'"
proof (cases op)
  case (OpPut key val i)
  then have p: "tw_put key val i tw = Some tw'" using assms(3) by (auto simp: tw_Put_def)
  have "now tw' = (now tw)(key := Some (put_kv (twBeginRev tw + 1) key val i (now tw key)))"
    using run_op_spec(2) [OF assms(1-3)] OpPut by simp
  moreover have "kvLease (put_kv (twBeginRev tw + 1) key val i (now tw key)) = i" by (simp add: put_kv_def)
  ultimately show thesis using tw_put_linked [OF assms(1) p assms(4,5) _ _ assms(6)] that by blast
next
  case (OpDelete key endk)
  have "rev_ok (Revision (twBeginRev tw + 1) (int (length (twChanges tw) + card {k. in_range key endk k \<and> now tw k \<noteq> None})))"
    using assms(2) length_present [OF assms(1), of key endk] OpDelete by simp
  from tw_deleteRange_linked [OF assms(1,4,5,6) this] obtain tw1 n ks where
    "tw_deleteRange key endk tw = Some (tw1, n)" "sLessor (twStore tw1) = Some (fold detached ks le)"
    "linked (fold detached ks le) (now tw1)" "lessor_ok (fold detached ks le)" .
  moreover from this(1) have "tw1 = tw'" using assms(3) OpDelete by (simp add: tw_DeleteRange_fst)
  ultimately show thesis using that by blast
qed

end
