(* ===== verification/LeaseExpire.thy ===== *)
theory LeaseExpire
  imports LeaseProps
begin

text \<open>What the searches of the lessor's loop find: the expired leases and the due checkpoints.\<close>

section \<open>Expired leases\<close>

text \<open>The leases that the search adds to those it already has.\<close>

definition found :: "int \<Rightarrow> lessor \<Rightarrow> Lease list \<Rightarrow> bool" where
  "found now le ls \<longleftrightarrow> distinct (map lsID ls) \<and>
     (\<forall>l \<in> set ls. fmlookup (leLeaseMap le) (lsID l) = Some l \<and> expired now l \<and> (\<exists>t. deadlines (leNotifier le) (lsID l) = Some t \<and> t \<le> now))"

definition found_all :: "int \<Rightarrow> lessor \<Rightarrow> Lease list \<Rightarrow> bool" where
  "found_all now le ls \<longleftrightarrow>
     (\<forall>i l t. fmlookup (leLeaseMap le) i = Some l \<longrightarrow> expired now l \<longrightarrow> deadlines (leNotifier le) i = Some t \<longrightarrow> t \<le> now \<longrightarrow> l \<in> set ls)"

definition keeps_watch :: "lessor \<Rightarrow> LeaseExpiredNotifier \<Rightarrow> bool" where
  "keeps_watch le q \<longleftrightarrow> nq_ok q \<and>
     (\<forall>i. i |\<in>| fmdom (leLeaseMap le) \<longrightarrow> deadlines (leNotifier le) i \<noteq> None \<longrightarrow> deadlines q i \<noteq> None)"

lemma findExpired_spec:
  assumes "leases_ok (leLeaseMap le)" "nq_ok (leNotifier le)" "now < int64 (now + leRetryInterval le)" "int64 now = now"
  shows "\<exists>q ls. findExpired now n acc le = Some (le\<lparr>leNotifier := q\<rparr>, acc @ ls) \<and> keeps_watch le q \<and> found now le ls
    \<and> (length (acc @ ls) = n \<or> found_all now le ls) \<and> (length acc < n \<longrightarrow> length (acc @ ls) \<le> n)"
  using assms
proof (induction "nq.work now (leNotifier le)" arbitrary: le acc rule: less_induct)
  case less
  let ?u = "int64 (now + leRetryInterval le)"
  show ?case
  proof (cases rule: expireExists_cases [OF less.prems(2-4)])
    case (1 lo)
    note none = this
    then have "findExpired now n acc le = Some (le, acc)" by (subst findExpired.simps) simp
    moreover have "found_all now le []" using none(2) by (fastforce simp: found_all_def)
    ultimately show ?thesis
      using less.prems(2) by (intro exI [of _ "leNotifier le"] exI [of _ "[]"]) (simp add: keeps_watch_def found_def)
  next
    case (2 i q)
    note gone = this
    let ?le = "le\<lparr>leNotifier := q\<rparr>"
    have "nq.work now (leNotifier ?le) < nq.work now (leNotifier le)" using gone(5) by simp
    from less.hyps [OF this, of acc] less.prems gone(2) obtain q' ls where
      r: "findExpired now n acc ?le = Some (?le\<lparr>leNotifier := q'\<rparr>, acc @ ls)"
      and ih: "keeps_watch ?le q'" "found now ?le ls" "length (acc @ ls) = n \<or> found_all now ?le ls"
        "length acc < n \<longrightarrow> length (acc @ ls) \<le> n" by auto
    have ne: "j \<noteq> i" if "fmlookup (leLeaseMap le) j = Some l" for j l using gone(4) fmdomI [OF that] by auto
    have "findExpired now n acc le = Some (le\<lparr>leNotifier := q'\<rparr>, acc @ ls)"
      using gone(1) r by (subst findExpired.simps) simp
    moreover have "keeps_watch le q'"
      unfolding keeps_watch_def
    proof (intro conjI allI impI)
      fix j assume j: "j |\<in>| fmdom (leLeaseMap le)" "deadlines (leNotifier le) j \<noteq> None"
      then have "deadlines (leNotifier ?le) j \<noteq> None" using gone(3,4) by auto
      then show "deadlines q' j \<noteq> None" using ih(1) j(1) by (simp add: keeps_watch_def)
    qed (use ih(1) in \<open>simp add: keeps_watch_def\<close>)
    moreover have "found now le ls" using ih(2) gone(3) by (auto simp: found_def split: if_splits)
    moreover have "found_all now ?le ls \<Longrightarrow> found_all now le ls" using gone(3) ne by (auto simp: found_all_def)
    ultimately show ?thesis using ih(3,4) by blast
  next
    case (3 i l t q)
    note due = this
    let ?le = "le\<lparr>leNotifier := q\<rparr>"
    have id: "lsID l = i" using less.prems(1) due(3) by (simp add: leases_ok_def)
    have later: "now < ?u" using less.prems(3) .
    show ?thesis
    proof (cases "expired now l \<and> length acc + 1 = n")
      case True
      have "findExpired now n acc le = Some (?le, acc @ [l])" using due(1) True by (subst findExpired.simps) simp
      moreover have "keeps_watch le q" using due(2,6) by (auto simp: keeps_watch_def)
      moreover have "found now le [l]" using True due(3-5) id by (simp add: found_def)
      moreover have "length (acc @ [l]) = n" using True by simp
      ultimately show ?thesis by (metis order_refl)
    next
      case False
      let ?new = "if expired now l then [l] else []"
      have step: "findExpired now n acc le = findExpired now n (acc @ ?new) ?le"
        using due(1) False by (subst findExpired.simps) auto
      have "nq.work now (leNotifier ?le) < nq.work now (leNotifier le)" using due(7) by simp
      from less.hyps [OF this, of "acc @ ?new"] less.prems due(2) obtain q' ls where
        r: "findExpired now n (acc @ ?new) ?le = Some (?le\<lparr>leNotifier := q'\<rparr>, (acc @ ?new) @ ls)"
        and ih: "keeps_watch ?le q'" "found now ?le ls" "length ((acc @ ?new) @ ls) = n \<or> found_all now ?le ls"
          "length (acc @ ?new) < n \<longrightarrow> length ((acc @ ?new) @ ls) \<le> n" by auto
      have "findExpired now n acc le = Some (le\<lparr>leNotifier := q'\<rparr>, acc @ (?new @ ls))" using step r by simp
      moreover have "keeps_watch le q'" using ih(1) due(6) by (auto simp: keeps_watch_def)
      moreover have "found now le (?new @ ls)"
      proof -
        have ne: "lsID l' \<noteq> i" if "l' \<in> set ls" for l' using ih(2) that later due(6) by (auto simp: found_def)
        have "lsID l \<notin> lsID ` set ls" using ne id by (metis imageE)
        moreover have "found now le ls" using ih(2) due(6) ne by (simp add: found_def)
        ultimately show ?thesis using due(3-5) id by (auto simp: found_def)
      qed
      moreover have "found_all now ?le ls \<Longrightarrow> found_all now le (?new @ ls)"
        unfolding found_all_def
      proof (intro allI impI)
        fix j l' t' assume all: "\<forall>i l t. fmlookup (leLeaseMap ?le) i = Some l \<longrightarrow> expired now l \<longrightarrow> deadlines (leNotifier ?le) i = Some t \<longrightarrow> t \<le> now \<longrightarrow> l \<in> set ls"
          and j: "fmlookup (leLeaseMap le) j = Some l'" "expired now l'" "deadlines (leNotifier le) j = Some t'" "t' \<le> now"
        show "l' \<in> set (?new @ ls)"
        proof (cases "j = i")
          case True
          then show ?thesis using j(1,2) due(3) by simp
        next
          case False
          then have "deadlines (leNotifier ?le) j = Some t'" using due(6) j(3) by simp
          with all j show ?thesis by simp
        qed
      qed
      moreover have "length acc < n \<longrightarrow> length (acc @ ?new @ ls) \<le> n" using ih(4) False by (auto split: if_splits)
      moreover have "length (acc @ ?new @ ls) = n \<or> found_all now ?le ls" using ih(3) by (simp only: append_assoc)
      ultimately show ?thesis by blast
    qed
  qed
qed

lemma findExpiredLeases_ok:
  assumes "lessor_ok le" "now < int64 (now + leRetryInterval le)" "int64 now = now"
  obtains q ls where "findExpiredLeases now n le = Some (le\<lparr>leNotifier := q\<rparr>, ls)" "lessor_ok (le\<lparr>leNotifier := q\<rparr>)"
    "found now le ls" "length ls = n \<or> found_all now le ls" "0 < n \<Longrightarrow> length ls \<le> n"
proof -
  from findExpired_spec [OF lessor_okD(4,1) [OF assms(1)] assms(2,3), of n "[]"] obtain q ls where
    r: "findExpired now n [] le = Some (le\<lparr>leNotifier := q\<rparr>, ls)" and q: "keeps_watch le q"
    and ls: "found now le ls" "length ls = n \<or> found_all now le ls" "0 < n \<longrightarrow> length ls \<le> n" by auto
  have dom: "i |\<in>| fmdom (leLeaseMap le)" if "fmlookup (leLeaseMap le) i = Some l" for i l using that by (rule fmdomI)
  have "watched (le\<lparr>leNotifier := q\<rparr>)"
    using lessor_okD(3) [OF assms(1)] q dom by (auto simp: watched_def keeps_watch_def split: if_splits)
  then have "lessor_ok (le\<lparr>leNotifier := q\<rparr>)" using assms(1) q by (simp add: lessor_ok_def keeps_watch_def)
  then show thesis using that r ls by (simp add: findExpiredLeases_def)
qed

lemma revokeExpiredLeases_ok:
  assumes "lessor_ok le" "now < int64 (now + leRetryInterval le)" "int64 now = now"
  shows "\<exists>le'. revokeExpiredLeases now le = Some le' \<and> lessor_ok le'"
proof (cases "lePrimary le")
  case True
  obtain q ls where "findExpiredLeases now (leaseRevokeRate div 2) le = Some (le\<lparr>leNotifier := q\<rparr>, ls)" "lessor_ok (le\<lparr>leNotifier := q\<rparr>)"
    using findExpiredLeases_ok [OF assms] by blast
  then show ?thesis using True by (simp add: revokeExpiredLeases_def)
qed (use assms in \<open>simp add: revokeExpiredLeases_def\<close>)

section \<open>Due checkpoints\<close>

lemma dueCheckpoints_spec:
  assumes "queue_ok (leCheckpointHeap le)"
  shows "\<exists>q cps'. dueCheckpoints k now n cps le = Some (le\<lparr>leCheckpointHeap := q\<rparr>, cps @ cps') \<and> queue_ok q
    \<and> (\<forall>(i, r) \<in> set cps'. \<exists>l e. fmlookup (leLeaseMap le) i = Some l \<and> lsExpiry l = Some e \<and> now < e
        \<and> r = Ceil (Seconds (time_sub e now)) \<and> r < lsTtl l)
    \<and> (length cps \<le> n \<longrightarrow> length (cps @ cps') \<le> n)"
  using assms
proof (induction k arbitrary: cps le)
  case 0
  then show ?case by (intro exI [of _ "leCheckpointHeap le"] exI [of _ "[]"]) simp
next
  case (Suc k)
  let ?h = "leCheckpointHeap le"
  show ?case
  proof (cases "?h = [] \<or> n \<le> length cps \<or> lwTime (hd ?h) > int64 now")
    case True
    then have "dueCheckpoints (Suc k) now n cps le = Some (le, cps)" by (auto simp: Let_def)
    with Suc.prems show ?thesis by (intro exI [of _ ?h] exI [of _ "[]"]) simp
  next
    case False
    then have h: "?h \<noteq> []" "\<not> n \<le> length cps" "\<not> lwTime (hd ?h) > int64 now" by simp_all
    obtain q x where q: "heap_Pop ?h = Some (q, x)" "queue_ok q" using heap_Pop_spec [OF Suc.prems h(1)] by blast
    let ?le = "le\<lparr>leCheckpointHeap := q\<rparr>" and ?i = "lwID (hd ?h)"
    define add where "add = (case fmlookup (leLeaseMap le) ?i of None \<Rightarrow> [] | Some l \<Rightarrow>
      (case lsExpiry l of None \<Rightarrow> [] | Some e \<Rightarrow> if e \<le> now then [] else
        let r = Ceil (Seconds (time_sub e now)) in if r \<ge> lsTtl l then [] else [(?i, r)]))"
    have step: "dueCheckpoints (Suc k) now n cps le = dueCheckpoints k now n (cps @ add) ?le"
      using h q(1) unfolding add_def by (simp add: Let_def split: option.split)
    have "\<forall>(i, r) \<in> set add. \<exists>l e. fmlookup (leLeaseMap le) i = Some l \<and> lsExpiry l = Some e \<and> now < e
        \<and> r = Ceil (Seconds (time_sub e now)) \<and> r < lsTtl l"
      unfolding add_def Let_def by (auto split: option.split) (metis not_le)+
    moreover have "length add \<le> 1" unfolding add_def Let_def by (simp split: option.split)
    moreover have "queue_ok (leCheckpointHeap ?le)" using q(2) by simp
    from Suc.IH [OF this, of "cps @ add"] obtain q' cps' where
      "dueCheckpoints k now n (cps @ add) ?le = Some (le\<lparr>leCheckpointHeap := q'\<rparr>, cps @ add @ cps')" "queue_ok q'"
      "\<forall>(i, r) \<in> set cps'. \<exists>l e. fmlookup (leLeaseMap le) i = Some l \<and> lsExpiry l = Some e \<and> now < e
        \<and> r = Ceil (Seconds (time_sub e now)) \<and> r < lsTtl l"
      "length (cps @ add) \<le> n \<longrightarrow> length (cps @ add @ cps') \<le> n" by auto
    ultimately show ?thesis using step h(2) by (intro exI [of _ q'] exI [of _ "add @ cps'"]) auto
  qed
qed

lemma queue_ok_update: "lessor_ok le \<Longrightarrow> queue_ok q \<Longrightarrow> lessor_ok (le\<lparr>leCheckpointHeap := q\<rparr>)"
  by (simp add: lessor_ok_def watched_def)

lemma findDueScheduledCheckpoints_ok:
  assumes "lessor_ok le"
  obtains q cps where "findDueScheduledCheckpoints now n le = Some (le\<lparr>leCheckpointHeap := q\<rparr>, cps)"
    "lessor_ok (le\<lparr>leCheckpointHeap := q\<rparr>)" "length cps \<le> n"
proof (cases "leCp le")
  case True
  from dueCheckpoints_spec [OF lessor_okD(2) [OF assms], of "length (leCheckpointHeap le)" now n "[]"] obtain q cps where
    "dueCheckpoints (length (leCheckpointHeap le)) now n [] le = Some (le\<lparr>leCheckpointHeap := q\<rparr>, cps)" "queue_ok q" "length cps \<le> n"
    by auto
  with True queue_ok_update [OF assms] that show thesis by (simp add: findDueScheduledCheckpoints_def)
next
  case False
  have "le\<lparr>leCheckpointHeap := leCheckpointHeap le\<rparr> = le" by simp
  with False assms that [of "leCheckpointHeap le" "[]"] show thesis by (simp add: findDueScheduledCheckpoints_def)
qed

lemma checkpointBatches_ok:
  "lessor_ok le \<Longrightarrow> \<exists>q css. checkpointBatches k now cps le = Some (le\<lparr>leCheckpointHeap := q\<rparr>, css) \<and> lessor_ok (le\<lparr>leCheckpointHeap := q\<rparr>)"
proof (induction k arbitrary: le cps)
  case 0
  then show ?case by (intro exI [of _ "leCheckpointHeap le"] exI [of _ "[]"]) simp
next
  case (Suc k)
  let ?find = "if lePrimary le then findDueScheduledCheckpoints now maxLeaseCheckpointBatchSize le else Some (le, cps)"
  obtain q cps' where r: "?find = Some (le\<lparr>leCheckpointHeap := q\<rparr>, cps')" "lessor_ok (le\<lparr>leCheckpointHeap := q\<rparr>)"
  proof (cases "lePrimary le")
    case True
    with findDueScheduledCheckpoints_ok [OF Suc.prems, of now maxLeaseCheckpointBatchSize] that show thesis by (metis if_P)
  next
    case False
    have "le\<lparr>leCheckpointHeap := leCheckpointHeap le\<rparr> = le" by simp
    with False Suc.prems that [of "leCheckpointHeap le" cps] show thesis by simp
  qed
  show ?case
  proof (cases "length cps' < maxLeaseCheckpointBatchSize")
    case True
    with r show ?thesis by (intro exI [of _ q]) simp
  next
    case False
    from Suc.IH [OF r(2), of cps'] obtain q' css where
      "checkpointBatches k now cps' (le\<lparr>leCheckpointHeap := q\<rparr>) = Some (le\<lparr>leCheckpointHeap := q'\<rparr>, css)" "lessor_ok (le\<lparr>leCheckpointHeap := q'\<rparr>)"
      by auto
    with r(1) False show ?thesis by (intro exI [of _ q']) simp
  qed
qed

end
