(* ===== verification/LeaseRun.thy ===== *)
theory LeaseRun
  imports LeaseLink LeaseExpire
begin

text \<open>
  Runs of the lessor with its store: transactions, what the lessor does on its own at any moment, and
  revocations. Every state of a run has a lessor that is fine and linked to the current map.
\<close>

section \<open>What the lessor's own operations keep\<close>

definition items_kept :: "lessor \<Rightarrow> lessor \<Rightarrow> bool" where
  "items_kept le le' \<longleftrightarrow> leItemMap le' = leItemMap le
     \<and> (\<forall>i l. fmlookup (leLeaseMap le) i = Some l \<longrightarrow> (\<exists>l'. fmlookup (leLeaseMap le') i = Some l' \<and> lsItems l' = lsItems l))
     \<and> (\<forall>i l'. fmlookup (leLeaseMap le') i = Some l' \<longrightarrow> lsItems l' = {||} \<and> i \<noteq> NoLease \<or> (\<exists>l. fmlookup (leLeaseMap le) i = Some l \<and> lsItems l' = lsItems l))"

lemma items_kept_linked:
  assumes "items_kept le le'" "linked le m"
  shows "linked le' m"
proof -
  note k = assms(1) [unfolded items_kept_def]
  have im: "leItemMap le' = leItemMap le" using k by (rule conjunct1)
  have fwd: "\<exists>l'. fmlookup (leLeaseMap le') i = Some l' \<and> lsItems l' = lsItems l" if "fmlookup (leLeaseMap le) i = Some l" for i l
    by (rule conjunct1 [OF conjunct2 [OF k], rule_format, OF that])
  have bwd: "lsItems l' = {||} \<and> i \<noteq> NoLease \<or> (\<exists>l. fmlookup (leLeaseMap le) i = Some l \<and> lsItems l' = lsItems l)" if "fmlookup (leLeaseMap le') i = Some l'" for i l'
    by (rule conjunct2 [OF conjunct2 [OF k], rule_format, OF that])
  show ?thesis
    unfolding linked_def
  proof (intro conjI allI impI)
    fix j show "GetLease j le' = lease_of (m j)" using linkedD(1) [OF assms(2), of j] by (simp add: GetLease_def im)
  next
    fix j i assume "fmlookup (leItemMap le') j = Some i"
    then have j: "fmlookup (leItemMap le) j = Some i" by (simp add: im)
    show "i \<noteq> NoLease" by (rule linkedD(2) [OF assms(2) j])
    obtain l where l: "fmlookup (leLeaseMap le) i = Some l" "j |\<in>| lsItems l" using linkedD(3) [OF assms(2) j] by blast
    from fwd [OF l(1)] l(2) show "\<exists>l. fmlookup (leLeaseMap le') i = Some l \<and> j |\<in>| lsItems l" by auto
  next
    fix i l' j assume j: "fmlookup (leLeaseMap le') i = Some l'" "j |\<in>| lsItems l'"
    then obtain l where "fmlookup (leLeaseMap le) i = Some l" "lsItems l' = lsItems l" using bwd [OF j(1)] by auto
    with linkedD(4) [OF assms(2) this(1), of j] j(2) show "fmlookup (leItemMap le') j = Some i" by (simp add: im)
  next
    show "fmlookup (leLeaseMap le') NoLease = None"
      using bwd [of NoLease] linkedD(6) [OF assms(2)] by (cases "fmlookup (leLeaseMap le') NoLease") auto
  qed
qed

lemma items_kept_trans: "items_kept le le' \<Longrightarrow> items_kept le' le'' \<Longrightarrow> items_kept le le''"
  unfolding items_kept_def by (intro conjI; metis)

lemma items_kept_same: "leItemMap le' = leItemMap le \<Longrightarrow> leLeaseMap le' = leLeaseMap le \<Longrightarrow> items_kept le le'"
  by (simp add: items_kept_def)

lemma items_kept_upd:
  assumes "leItemMap le' = leItemMap le" "leLeaseMap le' = fmupd i l' (leLeaseMap le)"
    and "case fmlookup (leLeaseMap le) i of None \<Rightarrow> lsItems l' = {||} \<and> i \<noteq> NoLease | Some l \<Rightarrow> lsItems l' = lsItems l"
  shows "items_kept le le'"
  using assms by (cases "fmlookup (leLeaseMap le) i") (auto simp: items_kept_def)

lemma register_frame: "register l le = Some le' \<Longrightarrow> leLeaseMap le' = leLeaseMap le \<and> leItemMap le' = leItemMap le \<and> lePrimary le' = lePrimary le"
  by (auto simp: register_def split: Option.bind_splits)

lemma Grant_items:
  assumes "Grant clk i ttl le = Some (r, le')"
  shows "items_kept le le'"
proof (cases "i = NoLease \<or> ttl > MaxLeaseTTL \<or> i |\<in>| fmdom (leLeaseMap le)")
  case True
  then have "le' = le" using assms by (auto simp: Grant_def split: if_splits)
  then show ?thesis by (simp add: items_kept_same)
next
  case False
  then have n: "fmlookup (leLeaseMap le) i = None" by (simp add: fmdom_notD)
  obtain l where "leLeaseMap le' = fmupd i l (leLeaseMap le)" "lsItems l = {||}" "leItemMap le' = leItemMap le"
    using False assms by (auto simp: Grant_def Let_def set_forever_def split: Option.bind_splits if_splits dest!: register_frame)
  with n show ?thesis using items_kept_upd [of le' le i l] False by simp
qed

lemma Checkpoint_items: "items_kept le (Checkpoint clk i r le)"
  by (cases "fmlookup (leLeaseMap le) i")
    (auto simp: Checkpoint_def Let_def items_kept_same intro!: items_kept_upd)

lemma renewEnd_items:
  assumes "renewEnd clk l sh le = Some (t, le')" "leases_ok (leLeaseMap le)"
  shows "items_kept le le'"
proof (cases "if sh then fmlookup (leLeaseMap le) (lsID l) else None")
  case None
  then have "register (refresh clk 0 l) le = Some le'" using assms(1) by (auto simp: renewEnd_def Let_def fmdom_notI split: if_splits)
  with register_frame show ?thesis by (auto intro: items_kept_same)
next
  case (Some b)
  then obtain a where Some: "sh" "fmlookup (leLeaseMap le) (lsID l) = Some a" by (auto split: if_splits)
  have a: "lsID a = lsID l" using assms(2) Some by (simp add: leases_ok_def)
  have "register (refresh clk 0 a) (le\<lparr>leLeaseMap := fmupd (lsID l) (refresh clk 0 a) (leLeaseMap le)\<rparr>) = Some le'"
    using assms(1) Some a fmdomI [OF Some(2)] by (auto simp: renewEnd_def Let_def)
  from register_frame [OF this] Some show ?thesis using items_kept_upd [of le' le "lsID l" "refresh clk 0 a"] by simp
qed

lemma refreshLease_items: "refreshLease clk d i le = Some le' \<Longrightarrow> items_kept le le'"
  by (auto simp: refreshLease_def Let_def split: Option.bind_splits dest!: register_frame intro: items_kept_upd)

lemma refreshLeases_items: "foldM (refreshLease clk d) is le = Some le' \<Longrightarrow> items_kept le le'"
proof (induction "is" arbitrary: le)
  case (Cons i js)
  then obtain le1 where "refreshLease clk d i le = Some le1" "foldM (refreshLease clk d) js le1 = Some le'"
    by (auto split: Option.bind_splits)
  with Cons.IH refreshLease_items items_kept_trans show ?case by blast
qed (simp add: items_kept_same)

lemma spread_items:
  "spreadExpiries clk d ls w le = Some le' \<Longrightarrow>
    (\<forall>l \<in> set ls. \<exists>l'. fmlookup (leLeaseMap le) (lsID l) = Some l' \<and> lsItems l' = lsItems l) \<Longrightarrow> items_kept le le'"
proof (induction clk d ls w le rule: spreadExpiries.induct)
  case (2 clk d l ls b n e le)
  let ?r = "Remaining clk l" and ?t = "int ((3 * leaseRevokeRate) div 4)"
  consider "?r > n" | "\<not> ?r > n" "e + 1 \<le> ?t" | "\<not> ?r > n" "\<not> e + 1 \<le> ?t" by blast
  then show ?case
  proof cases
    case 1
    with "2.IH"(1) [OF refl refl 1] "2.prems" show ?thesis by (simp add: Let_def)
  next
    case 2
    with "2.IH"(2) [OF refl refl 2] "2.prems" show ?thesis by (simp add: Let_def)
  next
    case 3
    let ?d1 = "f64_mul (f64_of_int second) (f64_div (f64_of_int (e + 1)) (f64_of_int ?t))"
    let ?d2 = "f64_sub ?d1 (f64_of_int (int64 (?r - b)))"
    let ?l = "refresh clk (int64 (f64_trunc ?d2 + d)) l"
    from 3 "2.prems"(1) obtain le1 where le1: "register ?l (le\<lparr>leLeaseMap := fmupd (lsID ?l) ?l (leLeaseMap le)\<rparr>) = Some le1"
      "spreadExpiries clk d ls (b, int64 (b + f64_trunc ?d2), e + 1) (scheduleCheckpointIfNeeded clk ?l le1) = Some le'"
      by (auto simp: Let_def split: Option.bind_splits)
    have k: "items_kept le (scheduleCheckpointIfNeeded clk ?l le1)"
      using register_frame [OF le1(1)] "2.prems"(2) by (intro items_kept_upd [where i = "lsID l" and l' = ?l]) auto
    then have "\<forall>l' \<in> set ls. \<exists>l''. fmlookup (leLeaseMap (scheduleCheckpointIfNeeded clk ?l le1)) (lsID l') = Some l'' \<and> lsItems l'' = lsItems l'"
      using "2.prems"(2) unfolding items_kept_def by (metis list.set_intros(2))
    from "2.IH"(3) [OF refl refl 3 refl refl refl refl le1(1) le1(2) this] k show ?thesis by (rule items_kept_trans [rotated])
  qed
qed (simp add: items_kept_same)

lemma Promote_items:
  assumes "Promote clk d le = Some le'" "leases_ok (leLeaseMap le)" "nq_ok (leNotifier le)" "queue_ok (leCheckpointHeap le)"
  shows "items_kept le le'"
proof -
  let ?le = "le\<lparr>lePrimary := True\<rparr>" and ?is = "sorted_list_of_fset (fmdom (leLeaseMap le))"
  have "watched_on {} ?le" by (simp add: watched_on_def)
  then obtain le1 where le1: "foldM (refreshLease clk d) ?is ?le = Some le1" "leases_ok (leLeaseMap le1)"
    using refreshLeases [of ?is ?le "{}" clk d] assms(2-4) by auto
  have k: "items_kept le le1" using refreshLeases_items [OF le1(1)] by (simp add: items_kept_def)
  show ?thesis
  proof (cases "fcard (fmdom (leLeaseMap le1)) < leaseRevokeRate")
    case True
    then show ?thesis using assms(1) le1(1) k by (simp add: Promote_def Let_def)
  next
    case False
    let ?ls = "leasesByExpiry clk (unsafeLeases le1)"
    have "spreadExpiries clk d ?ls (Remaining clk (hd ?ls), int64 (Remaining clk (hd ?ls) + second), 0) le1 = Some le'"
      using False assms(1) le1(1) by (simp add: Promote_def Let_def)
    moreover have "\<forall>l \<in> set ?ls. \<exists>l'. fmlookup (leLeaseMap le1) (lsID l) = Some l' \<and> lsItems l' = lsItems l"
      using le1(2) by (auto simp: leasesByExpiry_def unsafeLeases_def leases_ok_def fmlookup_dom_iff)
    ultimately show ?thesis using spread_items items_kept_trans [OF k] by blast
  qed
qed

lemma Demote_items: "items_kept le (Demote le)"
  by (auto simp: items_kept_def Demote_def set_forever_def)

section \<open>The lessor's steps\<close>

text \<open>
  A renewal is two steps, since the lessor is not locked while a checkpoint is proposed; its lease
  may be gone and the lessor demoted by then. The clock does not overflow.
\<close>

definition clock_ok :: "int \<Rightarrow> lessor \<Rightarrow> bool" where
  "clock_ok clk le \<longleftrightarrow> int64 clk = clk \<and> clk < int64 (clk + leRetryInterval le)"

inductive lessor_step :: "lessor \<Rightarrow> lessor \<Rightarrow> bool" where
  ls_grant: "Grant clk i ttl le = Some (r, le') \<Longrightarrow> lessor_step le le'"
| ls_checkpoint: "lessor_step le (Checkpoint clk i r le)"
| ls_renew: "renewEnd clk l sh le = Some (t, le') \<Longrightarrow> lessor_step le le'"
| ls_promote: "Promote clk d le = Some le' \<Longrightarrow> lessor_step le le'"
| ls_demote: "lessor_step le (Demote le)"
| ls_expired: "clock_ok clk le \<Longrightarrow> revokeExpiredLeases clk le = Some le' \<Longrightarrow> lessor_step le le'"
| ls_receive: "lessor_step le (le\<lparr>leExpiredC := tl (leExpiredC le)\<rparr>)"
| ls_due: "checkpointScheduledLeases clk le = Some (le', css) \<Longrightarrow> lessor_step le le'"
| ls_deleter: "lessor_step le (SetRangeDeleter le)"
| ls_checkpointer: "lessor_step le (SetCheckpointer le)"

lemma revokeExpired_items:
  assumes "lessor_ok le" "clock_ok clk le" "revokeExpiredLeases clk le = Some le'"
  shows "items_kept le le'"
proof (cases "lePrimary le")
  case True
  have c: "clk < int64 (clk + leRetryInterval le)" "int64 clk = clk" using assms(2) by (simp_all add: clock_ok_def)
  obtain q ls where "findExpiredLeases clk (leaseRevokeRate div 2) le = Some (le\<lparr>leNotifier := q\<rparr>, ls)"
    using findExpiredLeases_ok [OF assms(1) c] by blast
  then show ?thesis using True assms(3) by (auto simp: revokeExpiredLeases_def intro: items_kept_same)
qed (use assms(3) in \<open>auto simp: revokeExpiredLeases_def intro: items_kept_same\<close>)

lemma lessor_step_ok:
  assumes "lessor_step le le'" "lessor_ok le"
  shows "lessor_ok le' \<and> items_kept le le'"
  using assms
proof (induction rule: lessor_step.induct)
  case (ls_grant clk i ttl le r le')
  then show ?case using Grant_ok [OF ls_grant(2), of clk i ttl] Grant_items by fastforce
next
  case (ls_renew clk l sh le t le')
  then show ?case using renewEnd_ok [OF ls_renew(2), of clk l sh] renewEnd_items [OF ls_renew(1) lessor_okD(4)] by fastforce
next
  case (ls_promote clk d le le')
  then show ?case using Promote_ok [OF ls_promote(2), of clk d] Promote_items [OF ls_promote(1)] lessor_okD(1,2,4) by fastforce
next
  case (ls_expired clk le le')
  then show ?case using revokeExpiredLeases_ok [OF ls_expired(3), of clk] revokeExpired_items [OF ls_expired(3,1,2)] by (auto simp: clock_ok_def)
next
  case (ls_due clk le le' css)
  then show ?case using checkpointBatches_ok [OF ls_due(2), of "leaseCheckpointRate div 2" clk "[]"]
    by (auto simp: checkpointScheduledLeases_def intro: items_kept_same)
qed (auto simp: Checkpoint_ok Checkpoint_items Demote_ok Demote_items SetRangeDeleter_def SetCheckpointer_def items_kept_same)

end
