(* ===== verification/LeaseStore.thy ===== *)
theory LeaseStore
  imports LeaseRun
begin

text \<open>
  Runs of the store whose lessor is the one of LeaseRun: its transactions and compactions (as in
  StoreRun), the lessor's steps at any moment, and revocations; and the invariant that links the two.
\<close>

section \<open>Runs\<close>

text \<open>The keys that a revocation deletes, in one transaction.\<close>

definition revoked_keys :: "LeaseID \<Rightarrow> store \<Rightarrow> bytes list" where
  "revoked_keys i s = (case sLessor s of None \<Rightarrow> [] | Some le \<Rightarrow>
     if leRd le then (case fmlookup (leLeaseMap le) i of None \<Rightarrow> [] | Some l \<Rightarrow> Keys l) else [])"

definition revoke_ops :: "LeaseID \<Rightarrow> store \<Rightarrow> kvop list" where
  "revoke_ops i s = map (\<lambda>k. OpDelete k None) (revoked_keys i s)"

definition revoke_history :: "LeaseID \<Rightarrow> store \<Rightarrow> kvop list list \<Rightarrow> kvop list list" where
  "revoke_history i s H = (if revoked_keys i s = [] then H else H @ [revoke_ops i s])"

definition revoke_fits :: "LeaseID \<Rightarrow> store \<Rightarrow> bool" where
  "revoke_fits i s \<longleftrightarrow> rev_ok (Revision (sCurrentRev s + 1) (int (length (revoked_keys i s))))"

inductive leased_run :: "kvop list list \<Rightarrow> kvop list \<Rightarrow> phase \<Rightarrow> job list \<Rightarrow> bool" where
  lr_new: "newLessor fmempty cfg = Some le \<Longrightarrow> leased_run [] [] (Idle (NewStore (Some le) lim)) []"
| lr_begin: "leased_run H ops (Idle s) js \<Longrightarrow> leased_run H [] (Open (store_Write s)) js"
| lr_op: "leased_run H ops (Open tw) js \<Longrightarrow> op_fits op tw \<Longrightarrow> run_op op tw = Some tw' \<Longrightarrow> leased_run H (ops @ [op]) (Open tw') js"
| lr_end: "leased_run H ops (Open tw) js \<Longrightarrow> leased_run (if twChanges tw \<noteq> [] then H @ [ops] else H) [] (Idle (tw_End tw)) js"
| lr_lessor: "leased_run H ops ph js \<Longrightarrow> sLessor (the_store ph) = Some le \<Longrightarrow> lessor_step le le' \<Longrightarrow>
    leased_run H ops (set_store ((the_store ph)\<lparr>sLessor := Some le'\<rparr>) ph) js"
| lr_revoke: "leased_run H [] (Idle s) js \<Longrightarrow> revoke_fits i s \<Longrightarrow> Revoke i s = Some (err, s') \<Longrightarrow>
    leased_run (revoke_history i s H) [] (Idle s') js"
| lr_compact: "leased_run H ops (Idle s) js \<Longrightarrow> updateCompactRev r s = (s', None) \<Longrightarrow> leased_run H ops (Idle s') (js @ [Queued r])"
| lr_index: "leased_run H ops ph (Queued r # js) \<Longrightarrow> compactIndex r (the_store ph) = Some (s', keep) \<Longrightarrow>
    leased_run H ops (set_store s' ph) (Sweeping r keep (replicate 17 0) # js)"
| lr_batch: "leased_run H ops (Idle s) (Sweeping r keep lst # js) \<Longrightarrow> compactBatch r keep lst s = Some (s', nxt) \<Longrightarrow>
    leased_run H ops (Idle s') ((case nxt of None \<Rightarrow> [] | Some lst' \<Rightarrow> [Sweeping r keep lst']) @ js)"

section \<open>A revocation\<close>

lemma kv_end_now:
  assumes "kv_inv H ops (Open tw) js"
  shows "now (store_Write (tw_End tw)) = now tw"
proof (cases "twChanges tw = []")
  case True
  note inv = kv_invD [OF assms, simplified]
  have "sCurrentRev (twStore tw) = twBeginRev tw" using inv(1) by (simp add: tw_ok_def)
  then have "store_Write (tw_End tw) = tw" using True by (cases tw) (simp add: store_Write_def tw_End_def)
  then show ?thesis by simp
next
  case False
  note inv = kv_invD [OF assms, simplified] and inv' = kv_invD [OF kv_inv_end [OF assms], simplified]
  show ?thesis using inv(3,7) inv'(3,7) False by (simp add: state_at_snoc algebra_simps)
qed

lemma foldM_revoke:
  assumes "kv_run H ops (Open tw) js" "\<forall>k \<in> set ks. now tw k \<noteq> None" "distinct ks"
    and "sLessor (twStore tw) = Some le" "linked le (now tw)" "lessor_ok le"
    and "rev_ok (Revision (twBeginRev tw + 1) (int (length (twChanges tw) + length ks)))"
  shows "\<exists>tw' le'. foldM (\<lambda>key tw. map_option fst (tw_DeleteRange key None tw)) ks tw = Some tw'
    \<and> kv_run H (ops @ map (\<lambda>k. OpDelete k None) ks) (Open tw') js \<and> length (twChanges tw') = length (twChanges tw) + length ks
    \<and> sLessor (twStore tw') = Some le' \<and> linked le' (now tw') \<and> lessor_ok le' \<and> leB le' = leB le
    \<and> fmdom (leLeaseMap le') = fmdom (leLeaseMap le) \<and> now tw' = (\<lambda>k. if k \<in> set ks then None else now tw k)
    \<and> same_revs (twStore tw) (twStore tw')"
  using assms
proof (induction ks arbitrary: tw ops le)
  case Nil
  then show ?case by (intro exI [of _ tw] exI [of _ le]) (simp add: same_revs_def)
next
  case (Cons k ks)
  note ok = kv_invD(1) [OF kv_run_inv [OF Cons.prems(1)], simplified]
  have one: "{k'. in_range k None k' \<and> now tw k' \<noteq> None} = {k}" using Cons.prems(2) by (auto simp: in_range_def)
  have fits: "rev_ok (Revision (twBeginRev tw + 1) (int (length (twChanges tw) + card {k'. in_range k None k' \<and> now tw k' \<noteq> None})))"
    using Cons.prems(7) unfolding one by (simp add: rev_ok_def int64_ok_def)
  from tw_deleteRange_linked [OF ok Cons.prems(4-6) fits] obtain tw1 n gone where
    d: "tw_deleteRange k None tw = Some (tw1, n)" "sLessor (twStore tw1) = Some (fold detached gone le)"
    "linked (fold detached gone le) (now tw1)" "lessor_ok (fold detached gone le)" .
  let ?le = "fold detached gone le"
  have fr: "leB ?le = leB le" "fmdom (leLeaseMap ?le) = fmdom (leLeaseMap le)" by (induction gone arbitrary: le) simp_all
  note sp = tw_deleteRange_spec [OF ok d(1) fits]
  have n: "now tw1 = (\<lambda>k'. if k' = k then None else now tw k')" "length (twChanges tw1) = length (twChanges tw) + 1"
    "twBeginRev tw1 = twBeginRev tw" "same_revs (twStore tw) (twStore tw1)" using sp unfolding one by (auto simp: extends_def in_range_def)
  have f: "op_fits (OpDelete k None) tw" using fits length_present [OF ok, of k None] by simp
  have r: "run_op (OpDelete k None) tw = Some tw1" using d(1) by (simp add: tw_DeleteRange_fst)
  have "kv_run H (ops @ [OpDelete k None]) (Open tw1) js" by (rule kv_op [OF Cons.prems(1) f r])
  moreover have "\<forall>k' \<in> set ks. now tw1 k' \<noteq> None" using n(1) Cons.prems(2,3) by auto
  moreover have "rev_ok (Revision (twBeginRev tw1 + 1) (int (length (twChanges tw1) + length ks)))"
    using Cons.prems(7) n by simp
  moreover have "distinct ks" using Cons.prems(3) by simp
  ultimately obtain tw' le' where
    "foldM (\<lambda>key tw. map_option fst (tw_DeleteRange key None tw)) ks tw1 = Some tw'"
    "kv_run H ((ops @ [OpDelete k None]) @ map (\<lambda>k. OpDelete k None) ks) (Open tw') js" "length (twChanges tw') = length (twChanges tw1) + length ks"
    "sLessor (twStore tw') = Some le'" "linked le' (now tw')" "lessor_ok le'" "leB le' = leB ?le"
    "fmdom (leLeaseMap le') = fmdom (leLeaseMap ?le)" "now tw' = (\<lambda>k. if k \<in> set ks then None else now tw1 k)"
    "same_revs (twStore tw1) (twStore tw')"
    using Cons.IH [OF _ _ _ d(2-4)] by blast
  then show ?case using r n fr same_revs_trans [OF n(4)] by (intro exI [of _ tw'] exI [of _ le']) (auto simp: fun_eq_iff)
qed

text \<open>The lessor without a lease that no key carries.\<close>

definition without :: "LeaseID \<Rightarrow> lessor \<Rightarrow> lessor" where
  "without i le = le\<lparr>leLeaseMap := fmdrop i (leLeaseMap le), leB := UnsafeDelete (int64ToBytes i) (leB le)\<rparr>"

lemma linked_without:
  assumes "linked le m" "\<And>k. lease_of (m k) \<noteq> i"
  shows "linked (without i le) m"
  unfolding linked_def
proof (intro conjI allI impI)
  fix k show "GetLease k (without i le) = lease_of (m k)" using linkedD(1) [OF assms(1), of k] by (simp add: GetLease_def without_def)
next
  fix k j assume k: "fmlookup (leItemMap (without i le)) k = Some j"
  then have k': "fmlookup (leItemMap le) k = Some j" by (simp add: without_def)
  show "j \<noteq> NoLease" by (rule linkedD(2) [OF assms(1) k'])
  have "j \<noteq> i" using linkedD(1) [OF assms(1), of k] assms(2) [of k] k' by (simp add: GetLease_def)
  then show "\<exists>l. fmlookup (leLeaseMap (without i le)) j = Some l \<and> k |\<in>| lsItems l"
    using linkedD(3) [OF assms(1) k'] by (simp add: without_def)
next
  fix j l k assume "fmlookup (leLeaseMap (without i le)) j = Some l" "k |\<in>| lsItems l"
  then show "fmlookup (leItemMap (without i le)) k = Some j"
    using linkedD(4) [OF assms(1), of j l k] by (simp add: without_def split: if_splits)
qed (use linkedD(6) [OF assms(1)] in \<open>simp add: without_def\<close>)

lemma without_ok: "lessor_ok le \<Longrightarrow> lessor_ok (without i le)"
  by (auto simp: lessor_ok_def leases_ok_def watched_def without_def)

lemma Revoke_run:
  assumes "kv_run H [] (Idle s) js" "sLessor s = Some le" "linked le (now (store_Write s))" "lessor_ok le"
    and "fmlookup (leLeaseMap le) i = Some l" "\<not> lsRevoked l" "leRd le" "revoke_fits i s"
  obtains s' le' where "Revoke i s = Some (None, s')" "kv_run (revoke_history i s H) [] (Idle s') js"
    "sLessor s' = Some le'" "linked le' (now (store_Write s'))" "lessor_ok le'"
    "fmdom (leLeaseMap le') = fmdom (leLeaseMap le) |-| {|i|}" "leB le' = UnsafeDelete (int64ToBytes i) (leB le)"
    "now (store_Write s') = (\<lambda>k. if lease_of (now (store_Write s) k) = i then None else now (store_Write s) k)"
    "sCompactMainRev s' = sCompactMainRev s"
proof -
  let ?m = "now (store_Write s)" and ?ks = "Keys l"
  have ks: "set ?ks = fset (lsItems l)" "distinct ?ks" by (simp_all add: Keys_def sorted_list_of_fset.rep_eq)
  have mem: "k \<in> set ?ks \<longleftrightarrow> lease_of (?m k) = i" for k using linked_items [OF assms(3,5)] ks(1) by simp
  have rk: "revoked_keys i s = ?ks" using assms(2,5,7) by (simp add: revoked_keys_def)
  have run: "kv_run H [] (Open (store_Write s)) js" by (rule kv_begin [OF assms(1)])
  have sl: "sLessor (twStore (store_Write s)) = Some le" using assms(2) by (simp add: store_Write_def)
  have fits: "rev_ok (Revision (twBeginRev (store_Write s) + 1) (int (length (twChanges (store_Write s)) + length ?ks)))"
    using assms(8) rk by (simp add: revoke_fits_def store_Write_def)
  have pre: "\<forall>k \<in> set ?ks. ?m k \<noteq> None"
  proof
    fix k assume "k \<in> set ?ks"
    then have "lease_of (?m k) \<noteq> NoLease" using mem linkedD(5) [OF assms(3,5)] by simp
    then show "?m k \<noteq> None" by (cases "?m k") (simp_all add: lease_of_def)
  qed
  obtain tw le1 where f: "foldM (\<lambda>key tw. map_option fst (tw_DeleteRange key None tw)) ?ks (store_Write s) = Some tw"
    "kv_run H (map (\<lambda>k. OpDelete k None) ?ks) (Open tw) js" "length (twChanges tw) = length ?ks"
    "sLessor (twStore tw) = Some le1" "linked le1 (now tw)" "lessor_ok le1" "leB le1 = leB le"
    "fmdom (leLeaseMap le1) = fmdom (leLeaseMap le)" "now tw = (\<lambda>k. if k \<in> set ?ks then None else ?m k)"
    "same_revs (twStore (store_Write s)) (twStore tw)"
    using foldM_revoke [OF run pre ks(2) sl assms(3,4) fits] by (auto simp: store_Write_def)
  define tw2 where "tw2 = tw\<lparr>twStore := (twStore tw)\<lparr>sLessor := Some (without i le1)\<rparr>\<rparr>"
  have id: "lsID l = i" using lessor_okD(5) [OF assms(4,5)] .
  have rev: "Revoke i s = Some (None, tw_End tw2)"
    using assms(2,5-7) f(1,4) id by (simp add: Revoke_def tw2_def without_def)
  have run2: "kv_run H (map (\<lambda>k. OpDelete k None) ?ks) (Open tw2) js"
    using kv_lessor [OF f(2), of "Some (without i le1)"] by (simp add: tw2_def)
  have nil: "twChanges tw2 \<noteq> [] \<longleftrightarrow> ?ks \<noteq> []" using f(3) by (auto simp: tw2_def)
  have run3: "kv_run (revoke_history i s H) [] (Idle (tw_End tw2)) js"
    using kv_end [OF run2] unfolding nil by (auto simp: revoke_history_def revoke_ops_def rk)
  have now2: "now tw2 = now tw" using view_cong [of "twStore tw2" "twStore tw"] by (simp add: tw2_def now_def)
  have inv: "kv_inv H (map (\<lambda>k. OpDelete k None) ?ks) (Open tw2) js" "kv_inv (revoke_history i s H) [] (Idle (tw_End tw2)) js"
    using kv_run_inv run2 run3 by blast+
  have e: "now (store_Write (tw_End tw2)) = now tw2"
    using kv_end_now [OF inv(1)] .
  have dead: "lease_of (now tw k) \<noteq> i" for k
    using mem [of k] f(9) linkedD(5) [OF assms(3,5)] by (auto simp: lease_of_def)
  have m': "now (store_Write (tw_End tw2)) = (\<lambda>k. if lease_of (?m k) = i then None else ?m k)"
    using e now2 f(9) mem by simp
  have "linked (without i le1) (now (store_Write (tw_End tw2)))"
    using linked_without [OF f(5) dead] e now2 by simp
  moreover have "sLessor (tw_End tw2) = Some (without i le1)" by (simp add: tw2_def tw_End_def)
  moreover have "fmdom (leLeaseMap (without i le1)) = fmdom (leLeaseMap le) |-| {|i|}" "leB (without i le1) = UnsafeDelete (int64ToBytes i) (leB le)"
    using f(7,8) by (simp_all add: without_def)
  moreover have "sCompactMainRev (tw_End tw2) = sCompactMainRev s"
    using f(10) by (simp add: tw2_def tw_End_def same_revs_def store_Write_def)
  ultimately show thesis using that [OF rev run3] without_ok [OF f(6)] m' by blast
qed

text \<open>A revocation that deletes nothing: no such lease, or no range deleter yet.\<close>

lemma Revoke_other:
  assumes "sLessor s = Some le" "\<not> (leRd le \<and> fmlookup (leLeaseMap le) i \<noteq> None)" "Revoke i s = Some (err, s')"
  obtains le' where "s' = s\<lparr>sLessor := Some le'\<rparr>" "revoked_keys i s = []" "le' = le \<or>
    (\<exists>l. fmlookup (leLeaseMap le) i = Some l \<and> le' = le\<lparr>leLeaseMap := fmupd i (l\<lparr>lsRevoked := True\<rparr>) (leLeaseMap le)\<rparr>)"
proof (cases "fmlookup (leLeaseMap le) i")
  case None
  then have "s' = s" using assms by (simp add: Revoke_def)
  moreover have "s\<lparr>sLessor := Some le\<rparr> = s" using assms(1) by simp
  ultimately show thesis using that [of le] None assms(1) by (simp add: revoked_keys_def)
next
  case (Some l)
  then show thesis using that assms by (auto simp: Revoke_def revoked_keys_def)
qed

section \<open>The invariant\<close>

definition leased :: "phase \<Rightarrow> bool" where
  "leased ph \<longleftrightarrow> (\<exists>le. sLessor (the_store ph) = Some le \<and> lessor_ok le \<and> linked le (now (txn ph)))"

lemma now_of_inv: "kv_inv H ops ph js \<Longrightarrow> kv_inv H ops ph' js' \<Longrightarrow> now (txn ph') = now (txn ph)"
  using kv_invD(3,7) by metis

lemma newLessor_empty:
  assumes "newLessor fmempty cfg = Some le"
  shows "lessor_ok le \<and> linked le (\<lambda>k. None)"
proof -
  have "UnsafeRange fmempty a b n = ([], [])" for a b n by (simp add: UnsafeRange_def bucket_keys_def sorted_list_of_fset.rep_eq Let_def)
  then have "leLeaseMap le = fmempty" "leItemMap le = fmempty" "leNotifier le = newLeaseExpiredNotifier" "leCheckpointHeap le = []"
    using assms by (auto simp: newLessor_def initAndRecover_def nq_Init_def newLeaseExpiredNotifier_def heap_Init_def)
  then show ?thesis
    by (simp add: lessor_ok_def leases_ok_def watched_def linked_def GetLease_def lease_of_def queue_ok_def heap_except_def indexed_def)
qed

lemma leased_lessor:
  assumes "leased ph" "sLessor (the_store ph) = Some le" "lessor_ok le'" "\<And>m. linked le m \<Longrightarrow> linked le' m"
  shows "leased (set_store ((the_store ph)\<lparr>sLessor := Some le'\<rparr>) ph)"
proof -
  let ?s = "(the_store ph)\<lparr>sLessor := Some le'\<rparr>"
  have "now (txn (set_store ?s ph)) = now (txn ph)"
    using view_cong [of ?s "the_store ph"] by (cases ph) (simp_all add: now_def store_Write_def)
  then show ?thesis using assms by (auto simp: leased_def txn_set_store)
qed

lemma compact_lessor:
  "updateCompactRev r s = (s', e) \<Longrightarrow> sLessor s' = sLessor s"
  "compactIndex r s = Some (s', keep) \<Longrightarrow> sLessor s' = sLessor s"
  "compactBatch r keep lst s = Some (s', nxt) \<Longrightarrow> sLessor s' = sLessor s"
  by (auto simp: updateCompactRev_def compactIndex_def compactBatch_def split: if_splits Option.bind_splits prod.splits)

lemma leased_run_inv: "leased_run H ops ph js \<Longrightarrow> kv_run H ops ph js \<and> leased ph"
proof (induction rule: leased_run.induct)
  case (lr_new cfg le lim)
  have "now (store_Write (NewStore (Some le) lim)) = (\<lambda>k. None)"
    by (auto simp: now_def view_def NewStore_def store_Write_def)
  with newLessor_empty [OF lr_new] show ?case by (simp add: kv_new leased_def) (simp add: NewStore_def store_Write_def)
next
  case (lr_begin H ops s js)
  then show ?case by (auto simp: leased_def intro: kv_begin)
next
  case (lr_op H ops tw js op tw')
  then have run: "kv_run H ops (Open tw) js" by blast
  obtain le where le: "sLessor (twStore tw) = Some le" "linked le (now tw)" "lessor_ok le" using lr_op by (auto simp: leased_def)
  from run_op_linked [OF kv_invD(1) [OF kv_run_inv [OF run], simplified] lr_op(2,3) le] show ?case
    using kv_op [OF run lr_op(2,3)] by (auto simp: leased_def)
next
  case (lr_end H ops tw js)
  then have run: "kv_run H ops (Open tw) js" by blast
  have "sLessor (tw_End tw) = sLessor (twStore tw)" by (simp add: tw_End_def)
  then have "leased (Idle (tw_End tw))" using lr_end kv_end_now [OF kv_run_inv [OF run]] by (auto simp: leased_def store_Write_def)
  with kv_end [OF run] show ?case by blast
next
  case (lr_lessor H ops ph js le le')
  then obtain ok: "lessor_ok le" and run: "kv_run H ops ph js" and l: "leased ph" by (auto simp: leased_def)
  note st = lessor_step_ok [OF lr_lessor(3) ok]
  have "leased (set_store ((the_store ph)\<lparr>sLessor := Some le'\<rparr>) ph)"
    using leased_lessor [OF l lr_lessor(2)] st items_kept_linked by blast
  with kv_lessor [OF run] show ?case by blast
next
  case (lr_revoke H s js i err s')
  then have run: "kv_run H [] (Idle s) js" and l: "leased (Idle s)" by auto
  then obtain le where le: "sLessor s = Some le" "linked le (now (store_Write s))" "lessor_ok le"
    by (auto simp: leased_def store_Write_def)
  show ?case
  proof (cases "leRd le \<and> fmlookup (leLeaseMap le) i \<noteq> None")
    case True
    then obtain x where x: "fmlookup (leLeaseMap le) i = Some x" by blast
    have nr: "\<not> lsRevoked x" using lr_revoke(3) le(1) x by (auto simp: Revoke_def split: Option.bind_splits)
    obtain s1 le' where "Revoke i s = Some (None, s1)" "kv_run (revoke_history i s H) [] (Idle s1) js"
      "sLessor s1 = Some le'" "linked le' (now (store_Write s1))" "lessor_ok le'"
      using Revoke_run [OF run le(1-3) x nr _ lr_revoke(2)] True by blast
    with lr_revoke(3) show ?thesis by (auto simp: leased_def store_Write_def)
  next
    case False
    from Revoke_other [OF le(1) this lr_revoke(3)] obtain le' where le': "s' = s\<lparr>sLessor := Some le'\<rparr>" "revoked_keys i s = []"
      "le' = le \<or> (\<exists>l. fmlookup (leLeaseMap le) i = Some l \<and> le' = le\<lparr>leLeaseMap := fmupd i (l\<lparr>lsRevoked := True\<rparr>) (leLeaseMap le)\<rparr>)" .
    have "items_kept le le' \<and> lessor_ok le'"
      using le'(3) le(3) map_lease_ok by (auto intro: items_kept_same items_kept_upd)
    with leased_lessor [OF l, of le le'] le(1) items_kept_linked le'(1) have "leased (Idle s')" by (auto simp: store_Write_def)
    with kv_lessor [OF run, of "Some le'"] le'(1,2) show ?thesis by (simp add: revoke_history_def store_Write_def)
  qed
next
  case (lr_compact H ops s js r s')
  then have run: "kv_run H ops (Idle s) js" by blast
  note run' = kv_compact [OF run lr_compact(2)]
  have "now (store_Write s') = now (store_Write s)" using now_of_inv [OF kv_run_inv [OF run] kv_run_inv [OF run']] by simp
  with run' lr_compact compact_lessor(1) show ?case by (auto simp: leased_def store_Write_def)
next
  case (lr_index H ops ph r js s' keep)
  then have run: "kv_run H ops ph (Queued r # js)" by blast
  note run' = kv_index [OF run lr_index(2)]
  have "now (txn (set_store s' ph)) = now (txn ph)" using now_of_inv [OF kv_run_inv [OF run] kv_run_inv [OF run']] .
  with run' lr_index compact_lessor(2) show ?case by (auto simp: leased_def txn_set_store)
next
  case (lr_batch H ops s r keep lst js s' nxt)
  then have run: "kv_run H ops (Idle s) (Sweeping r keep lst # js)" by blast
  have run': "kv_run H ops (Idle s') ((case nxt of None \<Rightarrow> [] | Some lst' \<Rightarrow> [Sweeping r keep lst']) @ js)"
    using kv_batch [OF run, of s'] kv_done [OF run, of s'] lr_batch(2) by (cases nxt) auto
  have "now (store_Write s') = now (store_Write s)" using now_of_inv [OF kv_run_inv [OF run] kv_run_inv [OF run']] by simp
  with run' lr_batch compact_lessor(3) show ?case by (auto simp: leased_def store_Write_def)
qed

end
