(* ===== verification/LeaseSpec.thy ===== *)
theory LeaseSpec
  imports LeaseStore
begin

text \<open>What the lessor guarantees, alone and with its store.\<close>

section \<open>A run for the witnesses\<close>

definition wit_cfg :: LessorConfig where
  "wit_cfg = \<lparr>lcMinLeaseTTL = 1, lcCheckpointInterval = 0, lcRetryInterval = 0\<rparr>"

definition wit_le0 :: lessor where
  "wit_le0 = the (newLessor fmempty wit_cfg)"

text \<open>The lessor of a leader grants two leases, at 1000 and 2000 nanoseconds.\<close>

definition wit_le1 :: lessor where
  "wit_le1 = SetRangeDeleter (the (Promote 0 0 wit_le0))"

definition wit_le2 :: lessor where
  "wit_le2 = snd (the (Grant 2000 8 5 (snd (the (Grant 1000 7 2 wit_le1)))))"

definition wit_ls0 :: store where
  "wit_ls0 = NewStore (Some wit_le0) 0"

definition wit_ls1 :: store where
  "wit_ls1 = wit_ls0\<lparr>sLessor := Some wit_le2\<rparr>"

definition wit_put :: "kvop list" where
  "wit_put = [OpPut [97] [1] 7, OpPut [98] [2] 0, OpPut [99] [3] 7, OpPut [100] [4] 8]"

definition wit_ltxn :: storeTxnWrite where
  "wit_ltxn = fold (\<lambda>op tw. the (run_op op tw)) wit_put (store_Write wit_ls1)"

definition wit_ls2 :: store where
  "wit_ls2 = tw_End wit_ltxn"

lemma wit_grants:
  "newLessor fmempty wit_cfg \<noteq> None" "Promote 0 0 wit_le0 \<noteq> None" "Grant 1000 7 2 wit_le1 \<noteq> None"
  "Grant 2000 8 5 (snd (the (Grant 1000 7 2 wit_le1))) \<noteq> None"
  by code_simp+

lemma wit_lessor_steps: "lessor_step\<^sup>*\<^sup>* wit_le0 wit_le2"
proof -
  have some: "x \<noteq> None \<Longrightarrow> x = Some (fst (the x), snd (the x))" for x :: "((LeaseErr + Lease) \<times> lessor) option" by auto
  have "lessor_step wit_le0 (the (Promote 0 0 wit_le0))" using wit_grants(2) by (auto intro: ls_promote)
  moreover have "lessor_step (the (Promote 0 0 wit_le0)) wit_le1" unfolding wit_le1_def by (rule ls_deleter)
  moreover have "lessor_step wit_le1 (snd (the (Grant 1000 7 2 wit_le1)))" by (rule ls_grant [OF some [OF wit_grants(3)]])
  moreover have "lessor_step (snd (the (Grant 1000 7 2 wit_le1))) wit_le2"
    unfolding wit_le2_def by (rule ls_grant [OF some [OF wit_grants(4)]])
  ultimately show ?thesis by (meson rtranclp.rtrancl_into_rtrancl rtranclp.rtrancl_refl)
qed

lemma leased_run_steps:
  assumes "lessor_step\<^sup>*\<^sup>* le le'" "leased_run H [] (Idle s) js" "sLessor s = Some le"
  shows "leased_run H [] (Idle (s\<lparr>sLessor := Some le'\<rparr>)) js"
  using assms(1)
proof (induction rule: rtranclp_induct)
  case base
  have "s\<lparr>sLessor := Some le\<rparr> = s" using assms(3) by simp
  with assms(2) show ?case by simp
next
  case (step le1 le2)
  from lr_lessor [OF step(3), of le1 le2] step(2) show ?case by (simp add: store_Write_def)
qed

fun fitting :: "kvop list \<Rightarrow> storeTxnWrite \<Rightarrow> bool" where
  "fitting [] tw \<longleftrightarrow> True"
| "fitting (op # ops) tw \<longleftrightarrow> op_fits op tw \<and> run_op op tw \<noteq> None \<and> fitting ops (the (run_op op tw))"

lemma leased_run_ops:
  "leased_run H ops (Open tw) js \<Longrightarrow> fitting ops' tw \<Longrightarrow> leased_run H (ops @ ops') (Open (fold (\<lambda>op tw. the (run_op op tw)) ops' tw)) js"
proof (induction ops' arbitrary: ops tw)
  case (Cons op ops')
  then obtain tw' where "run_op op tw = Some tw'" "op_fits op tw" "fitting ops' tw'" by auto
  with Cons.IH [OF lr_op [OF Cons.prems(1)], of op tw'] show ?case by simp
qed simp

lemma wit_fitting: "fitting wit_put (store_Write wit_ls1) \<and> twChanges wit_ltxn \<noteq> []"
  by code_simp

lemma wit_leased: "leased_run [wit_put] [] (Idle wit_ls2) []"
proof -
  have "leased_run [] [] (Idle wit_ls0) []" unfolding wit_ls0_def
    by (rule lr_new [of wit_cfg]) (use wit_grants(1) in \<open>simp add: wit_le0_def\<close>)
  from leased_run_steps [OF wit_lessor_steps this] have "leased_run [] [] (Idle wit_ls1) []" by (simp add: wit_ls1_def wit_ls0_def NewStore_def)
  from lr_end [OF leased_run_ops [OF lr_begin [OF this], of wit_put]] wit_fitting show ?thesis
    by (simp add: wit_ltxn_def wit_ls2_def)
qed

section \<open>Well-formedness\<close>

text \<open>C31: In every run of transactions, compactions, revocations and steps of the lessor, the store is
  well-formed and so is the lessor: its map has each lease under its own id, the queues of deadlines
  and of checkpoints are heaps, the notifier has one entry for an id, and every lease of a primary
  expires at some time and has a deadline in the notifier.\<close>

theorem leased_run_wf:
  assumes "leased_run H ops ph js"
  shows "tw_ok (txn ph) \<and> (\<exists>le. sLessor (the_store ph) = Some le
    \<and> (\<forall>i l. Lookup i le = Some l \<longrightarrow> lsID l = i) \<and> nq_ok (leNotifier le) \<and> queue_ok (leCheckpointHeap le)
    \<and> (lePrimary le \<longrightarrow> (\<forall>i l. Lookup i le = Some l \<longrightarrow> lsExpiry l \<noteq> None \<and> deadlines (leNotifier le) i \<noteq> None)))"
proof -
  have inv: "kv_run H ops ph js" "leased ph" using leased_run_inv [OF assms] by blast+
  then obtain le where "sLessor (the_store ph) = Some le" "lessor_ok le" by (auto simp: leased_def)
  with kv_invD(1) [OF kv_run_inv [OF inv(1)]] show ?thesis
    by (auto simp: lessor_ok_def leases_ok_def watched_def Lookup_def)
qed

theorem leased_run_wf_witness:
  "lePrimary wit_le2 \<and> sLessor wit_ls2 \<noteq> None \<and> tw_ok (store_Write wit_ls2)"
proof -
  have "lePrimary wit_le2" by code_simp
  with leased_run_wf [OF wit_leased] show ?thesis by (auto simp: store_Write_def)
qed

section \<open>The lessor and the store\<close>

text \<open>C32: At every moment of a run the lessor and the newest state of the store agree: a key is attached
  to the lease that its record carries, to no other one and to none if it has no record, and the
  lease of a record exists.\<close>

theorem leases_match_store:
  assumes "leased_run H ops ph js"
  shows "\<exists>le. sLessor (the_store ph) = Some le \<and> (\<forall>k. GetLease k le = lease_of (now (txn ph) k))
    \<and> (\<forall>i l k. Lookup i le = Some l \<longrightarrow> (k |\<in>| lsItems l \<longleftrightarrow> lease_of (now (txn ph) k) = i))
    \<and> (\<forall>k. lease_of (now (txn ph) k) \<noteq> NoLease \<longrightarrow> Lookup (lease_of (now (txn ph) k)) le \<noteq> None)"
proof -
  have "leased ph" using leased_run_inv [OF assms] by blast
  then obtain le where le: "sLessor (the_store ph) = Some le" "linked le (now (txn ph))" by (auto simp: leased_def)
  have "Lookup (lease_of (now (txn ph) k)) le \<noteq> None" if "lease_of (now (txn ph) k) \<noteq> NoLease" for k
    using linked_lease [OF le(2), of k] linkedD(1) [OF le(2), of k] that by (auto simp: Lookup_def)
  with le linkedD(1) [OF le(2)] linked_items [OF le(2)] show ?thesis by (auto simp: Lookup_def)
qed

lemma wit_now: "lease_of (view wit_ls2 2 [97]) = 7 \<and> lease_of (view wit_ls2 2 [98]) = 0 \<and> sCurrentRev wit_ls2 = 2"
  by code_simp

theorem leases_match_store_witness:
  "\<exists>le. sLessor (twStore (store_Write wit_ls2)) = Some le \<and> GetLease [97] le = lease_of (now (store_Write wit_ls2) [97])"
  using leases_match_store [OF wit_leased] by auto

text \<open>C33: Revoking a lease succeeds and takes one revision, or none if the lease has no keys: the keys
  whose records carry the lease are gone, all other keys and all earlier revisions are as before, and
  the lease is gone from the lessor and from the backend.\<close>

theorem revoke_deletes_keys:
  assumes "leased_run H [] (Idle s) js" "sLessor s = Some le" "Lookup i le = Some l" "\<not> lsRevoked l" "leRd le"
    and "revoke_fits i s"
  defines "m \<equiv> view s (sCurrentRev s)"
  shows "\<exists>s' le'. Revoke i s = Some (None, s') \<and> sLessor s' = Some le'
    \<and> sCurrentRev s' = sCurrentRev s + (if \<exists>k. lease_of (m k) = i then 1 else 0)
    \<and> view s' (sCurrentRev s') = (\<lambda>k. if lease_of (m k) = i then None else m k)
    \<and> (\<forall>t. sCompactMainRev s \<le> t \<longrightarrow> t \<le> sCurrentRev s \<longrightarrow> view s' t = view s t)
    \<and> Lookup i le' = None \<and> fmlookup (leB le') (int64ToBytes i) = None"
proof -
  have inv: "kv_run H [] (Idle s) js" "leased (Idle s)" using leased_run_inv [OF assms(1)] by blast+
  then have le: "linked le (now (store_Write s))" "lessor_ok le" using assms(2) by (auto simp: leased_def store_Write_def)
  have lk: "fmlookup (leLeaseMap le) i = Some l" using assms(3) by (simp add: Lookup_def)
  obtain s' le' where r: "Revoke i s = Some (None, s')" "kv_run (revoke_history i s H) [] (Idle s') js"
    "sLessor s' = Some le'" "fmdom (leLeaseMap le') = fmdom (leLeaseMap le) |-| {|i|}" "leB le' = UnsafeDelete (int64ToBytes i) (leB le)"
    "now (store_Write s') = (\<lambda>k. if lease_of (now (store_Write s) k) = i then None else now (store_Write s) k)"
    and cmp: "sCompactMainRev s' = sCompactMainRev s"
    using Revoke_run [OF inv(1) assms(2) le lk assms(4-6)] by blast
  note i1 = kv_invD [OF kv_run_inv [OF inv(1)], simplified] and i2 = kv_invD [OF kv_run_inv [OF r(2)], simplified]
  have cur: "view s (sCurrentRev s) = now (store_Write s)" "view s' (sCurrentRev s') = now (store_Write s')"
    using tw_okD(5) [OF i1(1)] tw_okD(5) [OF i2(1)] by (simp_all add: store_Write_def)
  have keys: "set (Keys l) = {k. lease_of (m k) = i}"
    using linked_items [OF le(1) lk] by (auto simp: Keys_def sorted_list_of_fset.rep_eq m_def cur)
  have rk: "revoked_keys i s = Keys l" using assms(2,5) lk by (simp add: revoked_keys_def)
  have len: "sCurrentRev s = 1 + int (length H)" "sCurrentRev s' = 1 + int (length (revoke_history i s H))"
    using i1(3) i2(3) by (simp_all add: store_Write_def)
  have "Keys l = [] \<longleftrightarrow> \<not> (\<exists>k. lease_of (m k) = i)" using arg_cong [OF keys, of "\<lambda>S. S = {}"] by auto
  then have rev: "sCurrentRev s' = sCurrentRev s + (if \<exists>k. lease_of (m k) = i then 1 else 0)"
    unfolding len revoke_history_def rk by simp
  have old: "view s' t = view s t" if "sCompactMainRev s \<le> t" "t \<le> sCurrentRev s" for t
  proof -
    have "state_at (revoke_history i s H) t = state_at H t"
      using that(2) len(1) by (simp add: revoke_history_def state_at_snoc)
    then show ?thesis using i1(6) [of t] i2(6) [of t] that rev cmp by (simp add: store_Write_def split: if_splits)
  qed
  have "i |\<notin>| fmdom (leLeaseMap le')" using r(4) by simp
  then have "Lookup i le' = None" by (simp add: Lookup_def fmdom_notD)
  moreover have "fmlookup (leB le') (int64ToBytes i) = None" using r(5) by (simp add: UnsafeDelete_def)
  ultimately show ?thesis using r(1,3,6) cur rev old by (auto simp: m_def)
qed

lemma wit_revoke:
  "(case sLessor wit_ls2 of None \<Rightarrow> False | Some le \<Rightarrow> leRd le \<and>
     (case fmlookup (leLeaseMap le) 7 of None \<Rightarrow> False | Some l \<Rightarrow> \<not> lsRevoked l)) \<and> revoke_fits 7 wit_ls2
   \<and> view wit_ls2 2 [98] \<noteq> None"
  by code_simp

theorem revoke_deletes_keys_witness:
  "\<exists>s'. Revoke 7 wit_ls2 = Some (None, s') \<and> sCurrentRev s' = 3 \<and> view s' 3 [97] = None \<and> view s' 3 [98] \<noteq> None"
proof -
  obtain le l where le: "sLessor wit_ls2 = Some le" "Lookup 7 le = Some l" "\<not> lsRevoked l" "leRd le"
    using wit_revoke by (auto simp: Lookup_def split: option.splits)
  have fits: "revoke_fits 7 wit_ls2" using wit_revoke by blast
  have "\<exists>k. lease_of (view wit_ls2 2 k) = 7" using wit_now by blast
  with revoke_deletes_keys [OF wit_leased le fits] wit_now wit_revoke show ?thesis by auto
qed

section \<open>Expiry\<close>

text \<open>C34: In every run the search for expired leases ends and finds no lease twice; each lease it finds is
  in the map and has expired; and unless it has reached its limit it finds every expired lease whose
  deadline in the notifier has passed.\<close>

theorem find_expired_leases:
  assumes "leased_run H ops ph js" "sLessor (the_store ph) = Some le" "clock_ok clk le"
  shows "\<exists>q ls. findExpiredLeases clk n le = Some (le\<lparr>leNotifier := q\<rparr>, ls) \<and> distinct (map lsID ls)
    \<and> (\<forall>l \<in> set ls. Lookup (lsID l) le = Some l \<and> expired clk l) \<and> (0 < n \<longrightarrow> length ls \<le> n)
    \<and> (length ls = n \<or> (\<forall>i l t. Lookup i le = Some l \<longrightarrow> expired clk l \<longrightarrow> deadlines (leNotifier le) i = Some t \<longrightarrow> t \<le> clk \<longrightarrow> l \<in> set ls))"
proof -
  have "lessor_ok le" using leased_run_inv [OF assms(1)] assms(2) by (auto simp: leased_def)
  moreover have "clk < int64 (clk + leRetryInterval le)" "int64 clk = clk" using assms(3) by (simp_all add: clock_ok_def)
  ultimately obtain q ls where f: "findExpiredLeases clk n le = Some (le\<lparr>leNotifier := q\<rparr>, ls)" "found clk le ls"
    "length ls = n \<or> found_all clk le ls" "0 < n \<Longrightarrow> length ls \<le> n" using findExpiredLeases_ok by metis
  then show ?thesis
    by (intro exI [of _ q] exI [of _ ls]) (simp add: found_def found_all_def Lookup_def)
qed

lemma wit_expired:
  "(case sLessor wit_ls2 of None \<Rightarrow> False | Some le \<Rightarrow> clock_ok 3000001000 le \<and>
     (case fmlookup (leLeaseMap le) 7 of None \<Rightarrow> False | Some l \<Rightarrow> expired 3000001000 l \<and> deadlines (leNotifier le) 7 = Some 2000001000))"
  by code_simp

theorem find_expired_leases_witness:
  "\<exists>le le' ls l. sLessor wit_ls2 = Some le \<and> findExpiredLeases 3000001000 500 le = Some (le', ls) \<and> (length ls = 500 \<or> l \<in> set ls) \<and> lsID l = 7"
proof -
  obtain le l where le: "sLessor wit_ls2 = Some le" "clock_ok 3000001000 le" "Lookup 7 le = Some l" "expired 3000001000 l"
    "deadlines (leNotifier le) 7 = Some 2000001000"
    using wit_expired by (auto simp: Lookup_def split: option.splits)
  have sl: "sLessor (the_store (Idle wit_ls2)) = Some le" using le(1) by (simp add: store_Write_def)
  obtain q ls where f: "findExpiredLeases 3000001000 500 le = Some (le\<lparr>leNotifier := q\<rparr>, ls)"
    "length ls = 500 \<or> (\<forall>i l t. Lookup i le = Some l \<longrightarrow> expired 3000001000 l \<longrightarrow> deadlines (leNotifier le) i = Some t \<longrightarrow> t \<le> 3000001000 \<longrightarrow> l \<in> set ls)"
    using find_expired_leases [OF wit_leased sl le(2), of 500] by blast
  have "length ls = 500 \<or> l \<in> set ls" using f(2) le(3-5) by auto
  moreover have "lsID l = 7" using leased_run_inv [OF wit_leased] le(1,3) lessor_okD(5) by (auto simp: leased_def store_Write_def Lookup_def)
  ultimately show ?thesis using le(1) f(1) by blast
qed

text \<open>C35: With a primary lessor whose least TTL is neither negative nor above MaxLeaseTTL, a granted TTL lies
  between that least TTL and MaxLeaseTTL, nothing overflows
  in the computation of the expiry, and the lease of a primary expires exactly that many seconds
  after it was granted.\<close>

theorem grant_expiry:
  assumes "Grant clk i ttl le = Some (Inr l, le')" "lePrimary le" "0 \<le> leMinLeaseTTL le" "leMinLeaseTTL le \<le> MaxLeaseTTL"
  shows "lsTtl l = max ttl (leMinLeaseTTL le) \<and> leMinLeaseTTL le \<le> lsTtl l \<and> lsTtl l \<le> MaxLeaseTTL
    \<and> lsExpiry l = Some (clk + lsTtl l * second) \<and> (\<forall>later. expired later l \<longleftrightarrow> clk + lsTtl l * second \<le> later)"
proof -
  have ttl: "ttl \<le> MaxLeaseTTL" using assms(1) by (auto simp: Grant_def split: if_splits)
  define t where "t = max ttl (leMinLeaseTTL le)"
  have b: "0 \<le> t" "t \<le> 9000000000" using assms(3,4) ttl by (auto simp: t_def MaxLeaseTTL_def)
  have l: "l = refresh clk 0 \<lparr>lsID = i, lsTtl = t, lsRemainingTTL = 0, lsExpiry = None, lsItems = {||}, lsRevoked = False\<rparr>"
    using assms(1,2) by (auto simp: Grant_def Let_def t_def max_def split: if_splits Option.bind_splits)
  have "int64_ok (t * second)" using b by (simp add: int64_ok_def second_def)
  then have "int64 (t * second) = t * second" using sint_u64_of [of "t * second"] by (simp add: int64_def u64_of_def)
  then have e: "lsExpiry l = Some (clk + t * second)" "lsTtl l = t" by (simp_all add: l refresh_def RemainingTTL_def)
  have "expired later l \<longleftrightarrow> clk + t * second \<le> later" for later
    by (auto simp: expired_def Remaining_def e time_sub_def)
  with e b assms(3,4) show ?thesis by (auto simp: t_def MaxLeaseTTL_def)
qed

theorem grant_expiry_witness:
  "\<exists>l le'. Grant 1000 7 2 wit_le1 = Some (Inr l, le') \<and> lsExpiry l = Some 2000001000"
proof -
  have h: "(case Grant 1000 7 2 wit_le1 of Some (Inr l, _) \<Rightarrow> lsTtl l = 2 | _ \<Rightarrow> False) \<and> lePrimary wit_le1
      \<and> 0 \<le> leMinLeaseTTL wit_le1 \<and> leMinLeaseTTL wit_le1 \<le> MaxLeaseTTL" by code_simp
  then obtain l le' where g: "Grant 1000 7 2 wit_le1 = Some (Inr l, le')" "lsTtl l = 2"
    by (auto split: option.splits prod.splits sum.splits)
  with grant_expiry [OF g(1)] h show ?thesis by (simp add: second_def)
qed

section \<open>The notifier\<close>

lemma fold_upd_dom: "m i \<noteq> None \<Longrightarrow> fold (\<lambda>x m. m(lwID x \<mapsto> lwTime x)) xs m i \<noteq> None"
  by (induction xs arbitrary: m) auto

text \<open>C36: The notifier is a map from leases to deadlines: after registering any entries it holds the last
  deadline of each lease, and Unregister removes a lease whose deadline is the smallest.\<close>

theorem notifier_is_deadline_map:
  "\<exists>q. foldM RegisterOrUpdate xs newLeaseExpiredNotifier = Some q
     \<and> deadlines q = fold (\<lambda>x m. m(lwID x \<mapsto> lwTime x)) xs Map.empty
     \<and> (xs \<noteq> [] \<longrightarrow> (\<exists>q' x. Unregister q = Some (q', x) \<and> deadlines q (lwID x) = Some (lwTime x)
         \<and> (\<forall>j t. deadlines q j = Some t \<longrightarrow> lwTime x \<le> t) \<and> deadlines q' = (deadlines q)(lwID x := None)))"
proof -
  have reg: "\<exists>q'. foldM RegisterOrUpdate xs q = Some q' \<and> nq_ok q' \<and> deadlines q' = fold (\<lambda>x m. m(lwID x \<mapsto> lwTime x)) xs (deadlines q)"
    if "nq_ok q" for q
    using that
  proof (induction xs arbitrary: q)
    case (Cons x xs)
    obtain q1 where q1: "RegisterOrUpdate x q = Some q1" "nq_ok q1" "deadlines q1 = (deadlines q)(lwID x \<mapsto> lwTime x)"
      using RegisterOrUpdate_spec [OF Cons.prems] by blast
    from Cons.IH [OF q1(2)] q1(1,3) show ?case by auto
  qed simp
  obtain q where q: "foldM RegisterOrUpdate xs newLeaseExpiredNotifier = Some q" "nq_ok q"
    "deadlines q = fold (\<lambda>x m. m(lwID x \<mapsto> lwTime x)) xs Map.empty" using reg [OF nq_ok_new(1)] by auto
  have "\<exists>q' x. Unregister q = Some (q', x) \<and> deadlines q (lwID x) = Some (lwTime x)
         \<and> (\<forall>j t. deadlines q j = Some t \<longrightarrow> lwTime x \<le> t) \<and> deadlines q' = (deadlines q)(lwID x := None)" if "xs \<noteq> []"
  proof -
    obtain y ys where "xs = y # ys" using \<open>xs \<noteq> []\<close> by (cases xs) auto
    then have "deadlines q (lwID y) \<noteq> None" using q(3) fold_upd_dom [of "[lwID y \<mapsto> lwTime y]" "lwID y" ys] by simp
    then have "deadlines q \<noteq> Map.empty" by auto
    then obtain x xs' where x: "nqQueue q = x # xs'" using nq_empty [OF q(2)] by (cases "nqQueue q") auto
    obtain q' y where y: "Unregister q = Some (q', y)" "entry y = entry x" "deadlines q' = (deadlines q)(lwID x := None)"
      using Unregister_spec [OF q(2) x] by blast
    then have "lwID y = lwID x" "lwTime y = lwTime x" by (simp_all add: entry_def)
    with y first_entry [OF q(2) x] show ?thesis by auto
  qed
  with q(1,3) show ?thesis by blast
qed

theorem notifier_is_deadline_map_witness:
  "\<exists>q q' x. foldM RegisterOrUpdate [\<lparr>lwID = 1, lwTime = 30, lwIndex = 0\<rparr>, \<lparr>lwID = 2, lwTime = 10, lwIndex = 0\<rparr>,
       \<lparr>lwID = 2, lwTime = 40, lwIndex = 0\<rparr>] newLeaseExpiredNotifier = Some q
     \<and> Unregister q = Some (q', x) \<and> deadlines q (lwID x) = Some (lwTime x)"
  using notifier_is_deadline_map [of "[\<lparr>lwID = 1, lwTime = 30, lwIndex = 0\<rparr>, \<lparr>lwID = 2, lwTime = 10, lwIndex = 0\<rparr>,
       \<lparr>lwID = 2, lwTime = 40, lwIndex = 0\<rparr>]"] by blast

end
