(* ===== verification/LeaseReopen.thy ===== *)
theory LeaseReopen
  imports LeaseSpec StoreExact
begin

text \<open>
  The leases in the backend: in every run of the lessor each lease has the record that Grant has
  written for it, and a lessor opened on that backend has exactly the leases whose ids lie in the range that
  initAndRecover reads.
\<close>

section \<open>What a step keeps of the leases\<close>

definition kept_leases :: "lessor \<Rightarrow> lessor \<Rightarrow> bool" where
  "kept_leases le le' \<longleftrightarrow> leB le' = leB le
     \<and> (\<forall>i. map_option lsTtl (fmlookup (leLeaseMap le') i) = map_option lsTtl (fmlookup (leLeaseMap le) i))"

lemma kept_same: "leB le' = leB le \<Longrightarrow> leLeaseMap le' = leLeaseMap le \<Longrightarrow> kept_leases le le'"
  by (simp add: kept_leases_def)

lemma kept_trans: "kept_leases le le1 \<Longrightarrow> kept_leases le1 le2 \<Longrightarrow> kept_leases le le2"
  by (simp add: kept_leases_def)

lemma kept_upd:
  "leB le' = leB le \<Longrightarrow> leLeaseMap le' = fmupd i l' (leLeaseMap le) \<Longrightarrow> fmlookup (leLeaseMap le) i = Some l \<Longrightarrow> lsTtl l' = lsTtl l \<Longrightarrow>
    kept_leases le le'"
  by (simp add: kept_leases_def)

lemma kept_lookup:
  assumes "kept_leases le le'"
  shows "fmlookup (leLeaseMap le) i = Some l \<Longrightarrow> \<exists>l'. fmlookup (leLeaseMap le') i = Some l' \<and> lsTtl l' = lsTtl l"
    "fmlookup (leLeaseMap le') i = Some l' \<Longrightarrow> \<exists>l. fmlookup (leLeaseMap le) i = Some l \<and> lsTtl l' = lsTtl l"
proof -
  have "map_option lsTtl (fmlookup (leLeaseMap le') i) = map_option lsTtl (fmlookup (leLeaseMap le) i)"
    using assms by (simp add: kept_leases_def)
  then show "fmlookup (leLeaseMap le) i = Some l \<Longrightarrow> \<exists>l'. fmlookup (leLeaseMap le') i = Some l' \<and> lsTtl l' = lsTtl l"
    "fmlookup (leLeaseMap le') i = Some l' \<Longrightarrow> \<exists>l. fmlookup (leLeaseMap le) i = Some l \<and> lsTtl l' = lsTtl l"
    by (cases "fmlookup (leLeaseMap le) i"; cases "fmlookup (leLeaseMap le') i"; simp)+
qed

lemma register_kept: "register l le = Some le' \<Longrightarrow> leLeaseMap le' = leLeaseMap le \<and> leB le' = leB le"
  by (auto simp: register_def split: Option.bind_splits)

lemma Checkpoint_kept: "kept_leases le (Checkpoint clk i r le)"
  by (cases "fmlookup (leLeaseMap le) i") (auto simp: Checkpoint_def Let_def kept_same intro!: kept_upd)

lemma renewEnd_kept:
  assumes "renewEnd clk l sh le = Some (t, le')" "leases_ok (leLeaseMap le)"
  shows "kept_leases le le'"
proof (cases "if sh then fmlookup (leLeaseMap le) (lsID l) else None")
  case None
  then have "register (refresh clk 0 l) le = Some le'" using assms(1) by (auto simp: renewEnd_def Let_def fmdom_notI split: if_splits)
  with register_kept show ?thesis by (auto intro: kept_same)
next
  case (Some b)
  then obtain a where Some: "sh" "fmlookup (leLeaseMap le) (lsID l) = Some a" by (auto split: if_splits)
  have a: "lsID a = lsID l" using assms(2) Some by (simp add: leases_ok_def)
  have "register (refresh clk 0 a) (le\<lparr>leLeaseMap := fmupd (lsID l) (refresh clk 0 a) (leLeaseMap le)\<rparr>) = Some le'"
    using assms(1) Some a fmdomI [OF Some(2)] by (auto simp: renewEnd_def Let_def)
  from register_kept [OF this] Some show ?thesis using kept_upd [of le' le "lsID l" "refresh clk 0 a"] by simp
qed

lemma refreshLeases_kept: "foldM (refreshLease clk d) is le = Some le' \<Longrightarrow> kept_leases le le'"
proof (induction "is" arbitrary: le)
  case (Cons i js)
  then obtain le1 where le1: "refreshLease clk d i le = Some le1" "foldM (refreshLease clk d) js le1 = Some le'"
    by (auto split: Option.bind_splits)
  have "kept_leases le le1"
    using le1(1) by (auto simp: refreshLease_def Let_def split: Option.bind_splits dest!: register_kept intro: kept_upd)
  with Cons.IH [OF le1(2)] kept_trans show ?case by blast
qed (simp add: kept_same)

lemma spread_kept:
  "spreadExpiries clk d ls w le = Some le' \<Longrightarrow>
    (\<forall>l \<in> set ls. map_option lsTtl (fmlookup (leLeaseMap le) (lsID l)) = Some (lsTtl l)) \<Longrightarrow> kept_leases le le'"
proof (induction clk d ls w le rule: spreadExpiries.induct)
  case (2 clk d l ls b n e le)
  let ?r = "Remaining clk l" and ?t = "int ((3 * leaseRevokeRate) div 4)"
  consider "?r > n" | "\<not> ?r > n" "e + 1 \<le> ?t" | "\<not> ?r > n" "\<not> e + 1 \<le> ?t" by blast
  then show ?case
  proof cases
    case 1
    with "2.IH"(1) [OF refl refl 1] "2.prems" show ?thesis by (simp add: Let_def)
  next
    case 2
    with "2.IH"(2) [OF refl refl 2] "2.prems" show ?thesis by (simp add: Let_def)
  next
    case 3
    let ?d1 = "f64_mul (f64_of_int second) (f64_div (f64_of_int (e + 1)) (f64_of_int ?t))"
    let ?d2 = "f64_sub ?d1 (f64_of_int (int64 (?r - b)))"
    let ?l = "refresh clk (int64 (f64_trunc ?d2 + d)) l"
    from 3 "2.prems"(1) obtain le1 where le1: "register ?l (le\<lparr>leLeaseMap := fmupd (lsID ?l) ?l (leLeaseMap le)\<rparr>) = Some le1"
      "spreadExpiries clk d ls (b, int64 (b + f64_trunc ?d2), e + 1) (scheduleCheckpointIfNeeded clk ?l le1) = Some le'"
      by (auto simp: Let_def split: Option.bind_splits)
    obtain l0 where "fmlookup (leLeaseMap le) (lsID l) = Some l0" "lsTtl l0 = lsTtl l" using "2.prems"(2) by auto
    then have k: "kept_leases le (scheduleCheckpointIfNeeded clk ?l le1)"
      using register_kept [OF le1(1)] by (intro kept_upd [where i = "lsID l" and l' = ?l and l = l0]) auto
    then have "\<forall>l' \<in> set ls. map_option lsTtl (fmlookup (leLeaseMap (scheduleCheckpointIfNeeded clk ?l le1)) (lsID l')) = Some (lsTtl l')"
      using "2.prems"(2) unfolding kept_leases_def by simp
    from "2.IH"(3) [OF refl refl 3 refl refl refl refl le1(1) le1(2) this] k show ?thesis by (rule kept_trans [rotated])
  qed
qed (simp add: kept_same)

lemma Promote_kept:
  assumes "Promote clk d le = Some le'" "leases_ok (leLeaseMap le)" "nq_ok (leNotifier le)" "queue_ok (leCheckpointHeap le)"
  shows "kept_leases le le'"
proof -
  let ?le = "le\<lparr>lePrimary := True\<rparr>" and ?is = "sorted_list_of_fset (fmdom (leLeaseMap le))"
  have "watched_on {} ?le" by (simp add: watched_on_def)
  then obtain le1 where le1: "foldM (refreshLease clk d) ?is ?le = Some le1" "leases_ok (leLeaseMap le1)"
    using refreshLeases [of ?is ?le "{}" clk d] assms(2-4) by auto
  have k: "kept_leases le le1" using refreshLeases_kept [OF le1(1)] by (simp add: kept_leases_def)
  show ?thesis
  proof (cases "fcard (fmdom (leLeaseMap le1)) < leaseRevokeRate")
    case True
    then show ?thesis using assms(1) le1(1) k by (simp add: Promote_def Let_def)
  next
    case False
    let ?ls = "leasesByExpiry clk (unsafeLeases le1)"
    have "spreadExpiries clk d ?ls (Remaining clk (hd ?ls), int64 (Remaining clk (hd ?ls) + second), 0) le1 = Some le'"
      using False assms(1) le1(1) by (simp add: Promote_def Let_def)
    moreover have "\<forall>l \<in> set ?ls. map_option lsTtl (fmlookup (leLeaseMap le1) (lsID l)) = Some (lsTtl l)"
      using le1(2) by (auto simp: leasesByExpiry_def unsafeLeases_def leases_ok_def fmlookup_dom_iff)
    ultimately show ?thesis using spread_kept kept_trans [OF k] by blast
  qed
qed

lemma Demote_kept: "kept_leases le (Demote le)"
  by (simp add: kept_leases_def Demote_def set_forever_def option.map_comp comp_def)

lemma Attach_kept: "kept_leases le (snd (Attach i items le))"
  by (cases "fmlookup (leLeaseMap le) i") (auto simp: Attach_def kept_same intro!: kept_upd)

lemma Detach_kept: "kept_leases le (snd (Detach i items le))"
  by (cases "fmlookup (leLeaseMap le) i") (auto simp: Detach_def kept_same intro!: kept_upd)

lemma revokeExpired_kept:
  assumes "lessor_ok le" "clock_ok clk le" "revokeExpiredLeases clk le = Some le'"
  shows "kept_leases le le'"
proof (cases "lePrimary le")
  case True
  have c: "clk < int64 (clk + leRetryInterval le)" "int64 clk = clk" using assms(2) by (simp_all add: clock_ok_def)
  obtain q ls where "findExpiredLeases clk (leaseRevokeRate div 2) le = Some (le\<lparr>leNotifier := q\<rparr>, ls)"
    using findExpiredLeases_ok [OF assms(1) c] by blast
  then show ?thesis using True assms(3) by (auto simp: revokeExpiredLeases_def intro: kept_same)
qed (use assms(3) in \<open>auto simp: revokeExpiredLeases_def intro: kept_same\<close>)

section \<open>The records\<close>

definition lease_record :: "LeaseID \<Rightarrow> int \<Rightarrow> bytes" where
  "lease_record i ttl = Lease_MarshalTo \<lparr>lpbID = i, lpbTTL = ttl, lpbRemainingTTL = 0\<rparr>"

definition leases_fit :: "lessor \<Rightarrow> bool" where
  "leases_fit le \<longleftrightarrow> (\<forall>i l. fmlookup (leLeaseMap le) i = Some l \<longrightarrow> int64_ok i \<and> int64_ok (lsTtl l))"

definition backed :: "lessor \<Rightarrow> bool" where
  "backed le \<longleftrightarrow> leases_fit le
     \<and> (\<forall>i l. fmlookup (leLeaseMap le) i = Some l \<longrightarrow> fmlookup (leB le) (int64ToBytes i) = Some (lease_record i (lsTtl l)))
     \<and> (\<forall>x. x |\<in>| fmdom (leB le) \<longrightarrow> (\<exists>i l. x = int64ToBytes i \<and> fmlookup (leLeaseMap le) i = Some l))"

lemma backedD:
  assumes "backed le"
  shows "fmlookup (leLeaseMap le) i = Some l \<Longrightarrow> int64_ok i \<and> int64_ok (lsTtl l)"
    "fmlookup (leLeaseMap le) i = Some l \<Longrightarrow> fmlookup (leB le) (int64ToBytes i) = Some (lease_record i (lsTtl l))"
    "x |\<in>| fmdom (leB le) \<Longrightarrow> \<exists>i l. x = int64ToBytes i \<and> fmlookup (leLeaseMap le) i = Some l"
  using assms unfolding backed_def leases_fit_def by blast+

lemma kept_backed:
  assumes "kept_leases le le'" "backed le"
  shows "backed le'"
proof -
  have b: "leB le' = leB le" using assms(1) by (simp add: kept_leases_def)
  note fwd = kept_lookup(1) [OF assms(1)] and bwd = kept_lookup(2) [OF assms(1)]
  note D = backedD [OF assms(2)]
  have "leases_fit le'" unfolding leases_fit_def
  proof (intro allI impI)
    fix i l' assume "fmlookup (leLeaseMap le') i = Some l'"
    then obtain l where "fmlookup (leLeaseMap le) i = Some l" "lsTtl l' = lsTtl l" using bwd by blast
    with D(1) [of i l] show "int64_ok i \<and> int64_ok (lsTtl l')" by simp
  qed
  moreover have "fmlookup (leB le) (int64ToBytes i) = Some (lease_record i (lsTtl l'))" if "fmlookup (leLeaseMap le') i = Some l'" for i l'
    using bwd [OF that] D(2) by auto
  moreover have "\<exists>i l. x = int64ToBytes i \<and> fmlookup (leLeaseMap le') i = Some l" if "x |\<in>| fmdom (leB le)" for x
    using D(3) [OF that] fwd by blast
  ultimately show ?thesis unfolding backed_def b by blast
qed

lemma backed_simps [simp]: "backed (le\<lparr>leExpiredC := c\<rparr>) = backed le" "backed (le\<lparr>leRd := x\<rparr>) = backed le" "backed (le\<lparr>leCp := x\<rparr>) = backed le"
  by (simp_all add: backed_def leases_fit_def)

lemma Grant_backed:
  assumes "Grant clk i ttl le = Some (r, le')" "backed le" "leases_fit le'"
  shows "backed le'"
proof (cases "i = NoLease \<or> ttl > MaxLeaseTTL \<or> i |\<in>| fmdom (leLeaseMap le)")
  case True
  then have "le' = le" using assms(1) by (auto simp: Grant_def split: if_splits)
  then show ?thesis using assms(2) by simp
next
  case False
  obtain l where l: "leLeaseMap le' = fmupd i l (leLeaseMap le)" "leB le' = UnsafePut (int64ToBytes i) (lease_record i (lsTtl l)) (leB le)"
    using False assms(1)
    by (auto simp: Grant_def Let_def set_forever_def persistTo_def lease_record_def refresh_def
        split: Option.bind_splits if_splits dest!: register_kept)
  note D = backedD [OF assms(2)]
  have fit: "int64_ok j \<and> int64_ok (lsTtl x)" if "fmlookup (leLeaseMap le') j = Some x" for j x
    using assms(3) that unfolding leases_fit_def by blast
  have i: "int64_ok i" using fit [of i l] l(1) by simp
  have "fmlookup (leB le') (int64ToBytes j) = Some (lease_record j (lsTtl x))" if x: "fmlookup (leLeaseMap le') j = Some x" for j x
  proof (cases "j = i")
    case False
    then have "int64ToBytes i \<noteq> int64ToBytes j" using int64ToBytes_inj [OF i] fit [OF x] by blast
    with False x D(2) [of j x] show ?thesis by (simp add: l UnsafePut_def)
  qed (use x in \<open>simp add: l UnsafePut_def\<close>)
  moreover have "\<exists>j x. y = int64ToBytes j \<and> fmlookup (leLeaseMap le') j = Some x" if "y |\<in>| fmdom (leB le')" for y
  proof (cases "y = int64ToBytes i")
    case True
    then show ?thesis using l(1) by auto
  next
    case F: False
    then have "y |\<in>| fmdom (leB le)" using that by (simp add: l(2) UnsafePut_def)
    from D(3) [OF this] obtain j x where "y = int64ToBytes j" "fmlookup (leLeaseMap le) j = Some x" by blast
    then show ?thesis using l(1) F by (intro exI [of _ j] exI [of _ x]) auto
  qed
  ultimately show ?thesis using assms(3) unfolding backed_def by blast
qed

lemma dropped_backed:
  assumes "backed le" "fmlookup (leLeaseMap le) i = Some l"
  shows "backed (le\<lparr>leLeaseMap := fmdrop i (leLeaseMap le), leB := UnsafeDelete (int64ToBytes i) (leB le)\<rparr>)"
proof -
  note D = backedD [OF assms(1)]
  have inj: "int64ToBytes j \<noteq> int64ToBytes i" if "fmlookup (leLeaseMap le) j = Some x" "j \<noteq> i" for j x
    using int64ToBytes_inj [of j i] D(1) [OF that(1)] D(1) [OF assms(2)] that(2) by blast
  show ?thesis
    unfolding backed_def leases_fit_def
  proof (intro conjI allI impI)
    fix x assume "x |\<in>| fmdom (leB (le\<lparr>leLeaseMap := fmdrop i (leLeaseMap le), leB := UnsafeDelete (int64ToBytes i) (leB le)\<rparr>))"
    then have "x |\<in>| fmdom (leB le)" "x \<noteq> int64ToBytes i" by (auto simp: UnsafeDelete_def)
    with D(3) [OF this(1)] show "\<exists>j l. x = int64ToBytes j
        \<and> fmlookup (leLeaseMap (le\<lparr>leLeaseMap := fmdrop i (leLeaseMap le), leB := UnsafeDelete (int64ToBytes i) (leB le)\<rparr>)) j = Some l" by auto
  qed (use D(1,2) inj in \<open>auto simp: UnsafeDelete_def split: if_splits\<close>)
qed

section \<open>Revoking\<close>

lemma delete_lessor:
  assumes "tw_delete key tw = Some tw'" "sLessor (twStore tw) = Some le" "lessor_ok le"
  obtains le' where "sLessor (twStore tw') = Some le'" "kept_leases le le'" "lessor_ok le'"
proof -
  have "\<exists>s s'. detach_key (GetLease key le) key s = Some s' \<and> sLessor s = Some le \<and> twStore tw' = s'"
    using assms(1,2) by (auto simp: tw_delete_def Let_def split: Option.bind_splits)
  then obtain s s' where s: "sLessor s = Some le" "detach_key (GetLease key le) key s = Some s'" "twStore tw' = s'" by blast
  show thesis
  proof (cases "GetLease key le = NoLease")
    case True
    with s that [of le] assms(3) show thesis by (simp add: detach_key_def kept_same)
  next
    case False
    then have "sLessor s' = Some (snd (Detach (GetLease key le) [key] le))"
      using s(1,2) by (auto simp: detach_key_def split: prod.splits option.splits)
    with s(3) that Detach_kept Detach_ok [OF assms(3)] show thesis by blast
  qed
qed

lemma deletes_lessor:
  "foldM tw_delete ks tw = Some tw' \<Longrightarrow> sLessor (twStore tw) = Some le \<Longrightarrow> lessor_ok le \<Longrightarrow>
    \<exists>le'. sLessor (twStore tw') = Some le' \<and> kept_leases le le' \<and> lessor_ok le'"
proof (induction ks arbitrary: tw le)
  case (Cons k ks)
  then obtain tw1 where tw1: "tw_delete k tw = Some tw1" "foldM tw_delete ks tw1 = Some tw'" by (auto split: Option.bind_splits)
  obtain le1 where le1: "sLessor (twStore tw1) = Some le1" "kept_leases le le1" "lessor_ok le1"
    using delete_lessor [OF tw1(1) Cons.prems(2,3)] .
  from Cons.IH [OF tw1(2) le1(1,3)] kept_trans [OF le1(2)] show ?case by blast
qed (auto intro: kept_same)

lemma DeleteRange_lessor:
  assumes "map_option fst (tw_DeleteRange key endk tw) = Some tw'" "sLessor (twStore tw) = Some le" "lessor_ok le"
  shows "\<exists>le'. sLessor (twStore tw') = Some le' \<and> kept_leases le le' \<and> lessor_ok le'"
proof -
  obtain ks where "foldM tw_delete ks tw = Some tw'"
    using assms(1) by (auto simp: tw_DeleteRange_fst tw_deleteRange_def Let_def split: Option.bind_splits)
  from deletes_lessor [OF this assms(2,3)] show ?thesis .
qed

lemma DeleteRanges_lessor:
  "foldM (\<lambda>key tw. map_option fst (tw_DeleteRange key None tw)) ks tw = Some tw' \<Longrightarrow> sLessor (twStore tw) = Some le \<Longrightarrow> lessor_ok le \<Longrightarrow>
    \<exists>le'. sLessor (twStore tw') = Some le' \<and> kept_leases le le' \<and> lessor_ok le'"
proof (induction ks arbitrary: tw le)
  case (Cons k ks)
  then obtain tw1 where tw1: "map_option fst (tw_DeleteRange k None tw) = Some tw1"
    "foldM (\<lambda>key tw. map_option fst (tw_DeleteRange key None tw)) ks tw1 = Some tw'" by (auto split: Option.bind_splits)
  obtain le1 where le1: "sLessor (twStore tw1) = Some le1" "kept_leases le le1" "lessor_ok le1"
    using DeleteRange_lessor [OF tw1(1) Cons.prems(2,3)] by blast
  from Cons.IH [OF tw1(2) le1(1,3)] kept_trans [OF le1(2)] show ?case by blast
qed (auto intro: kept_same)

lemma Revoke_backed:
  assumes "Revoke i s = Some (err, s')" "sLessor s = Some le" "sLessor s' = Some le'" "backed le" "lessor_ok le"
  shows "backed le' \<and> lessor_ok le'"
proof (cases "leRd le \<and> fmlookup (leLeaseMap le) i \<noteq> None")
  case False
  from Revoke_other [OF assms(2) this assms(1)] obtain le1 where "s' = s\<lparr>sLessor := Some le1\<rparr>"
    "le1 = le \<or> (\<exists>l. fmlookup (leLeaseMap le) i = Some l \<and> le1 = le\<lparr>leLeaseMap := fmupd i (l\<lparr>lsRevoked := True\<rparr>) (leLeaseMap le)\<rparr>)" .
  then have "kept_leases le le'" "lessor_ok le'"
    using assms(3,5) map_lease_ok [OF assms(5)] by (auto intro: kept_same kept_upd)
  then show ?thesis using kept_backed [OF _ assms(4)] by blast
next
  case True
  then obtain l where l: "fmlookup (leLeaseMap le) i = Some l" by blast
  have id: "lsID l = i" using lessor_okD(5) [OF assms(5) l] .
  from assms(1,2) l True obtain tw le1 where
    tw: "foldM (\<lambda>key tw. map_option fst (tw_DeleteRange key None tw)) (Keys l) (store_Write s) = Some tw" "sLessor (twStore tw) = Some le1"
    "s' = tw_End (tw\<lparr>twStore := (twStore tw)\<lparr>sLessor := Some (without i le1)\<rparr>\<rparr>)"
    by (auto simp: Revoke_def without_def id split: Option.bind_splits if_splits)
  have "sLessor (twStore (store_Write s)) = Some le" using assms(2) by (simp add: store_Write_def)
  from DeleteRanges_lessor [OF tw(1) this assms(5)] tw(2) have k: "kept_leases le le1" "lessor_ok le1" by auto
  have le': "le' = without i le1" using assms(3) tw(3) by (simp add: tw_End_def split: if_splits)
  obtain l1 where "fmlookup (leLeaseMap le1) i = Some l1"
    using kept_lookup(1) [OF k(1) l] by blast
  from dropped_backed [OF kept_backed [OF k(1) assms(4)] this] show ?thesis
    using without_ok [OF k(2)] by (simp add: le' without_def)
qed

section \<open>Runs\<close>

text \<open>
  All that happens to a lessor: its own steps, with ids and TTLs of 64 bits, the store's attaching and
  detaching of keys, and revocations through a store.
\<close>

inductive lessor_run :: "LessorConfig \<Rightarrow> lessor \<Rightarrow> bool" where
  run_new: "newLessor fmempty cfg = Some le \<Longrightarrow> lessor_run cfg le"
| run_step: "lessor_run cfg le \<Longrightarrow> lessor_step le le' \<Longrightarrow> leases_fit le' \<Longrightarrow> lessor_run cfg le'"
| run_attach: "lessor_run cfg le \<Longrightarrow> lessor_run cfg (snd (Attach i items le))"
| run_detach: "lessor_run cfg le \<Longrightarrow> lessor_run cfg (snd (Detach i items le))"
| run_revoke: "lessor_run cfg le \<Longrightarrow> sLessor s = Some le \<Longrightarrow> Revoke i s = Some (err, s') \<Longrightarrow> sLessor s' = Some le' \<Longrightarrow> lessor_run cfg le'"

lemma lessor_step_backed:
  assumes "lessor_step le le'" "lessor_ok le" "backed le" "leases_fit le'"
  shows "backed le'"
  using assms
proof (induction rule: lessor_step.induct)
  case (ls_grant clk i ttl le r le')
  then show ?case using Grant_backed by blast
next
  case (ls_renew clk l sh le t le')
  then show ?case using renewEnd_kept [OF ls_renew(1) lessor_okD(4)] kept_backed by blast
next
  case (ls_promote clk d le le')
  then show ?case using Promote_kept [OF ls_promote(1)] lessor_okD(1,2,4) kept_backed by blast
next
  case (ls_expired clk le le')
  then show ?case using revokeExpired_kept [OF ls_expired(3,1,2)] kept_backed by blast
next
  case (ls_due clk le le' css)
  then obtain q where "le' = le\<lparr>leCheckpointHeap := q\<rparr>" using checkpointBatches_ok [OF ls_due(2), of "leaseCheckpointRate div 2" clk "[]"]
    by (auto simp: checkpointScheduledLeases_def)
  then have "kept_leases le le'" by (simp add: kept_same)
  then show ?case using kept_backed ls_due(3) by blast
qed (auto simp: SetRangeDeleter_def SetCheckpointer_def intro: kept_backed kept_same Checkpoint_kept Demote_kept)

lemma lessor_run_inv: "lessor_run cfg le \<Longrightarrow> lessor_ok le \<and> backed le"
proof (induction rule: lessor_run.induct)
  case (run_new cfg le)
  have "UnsafeRange fmempty a b n = ([], [])" for a b n by (simp add: UnsafeRange_def bucket_keys_def sorted_list_of_fset.rep_eq Let_def)
  then have "leLeaseMap le = fmempty" "leB le = fmempty" using run_new by (auto simp: newLessor_def initAndRecover_def)
  then show ?case using newLessor_empty [OF run_new] by (simp add: backed_def leases_fit_def)
next
  case (run_step cfg le le')
  then show ?case using lessor_step_ok lessor_step_backed by blast
next
  case (run_revoke cfg le s i err s' le')
  then show ?case using Revoke_backed by blast
qed (auto intro: kept_backed Attach_kept Detach_kept Attach_ok Detach_ok)

section \<open>Opening\<close>

text \<open>A lease that has been read back: its record has the TTL that was granted, and no remaining TTL is read.\<close>

definition reopened_lease :: "int \<Rightarrow> Lease \<Rightarrow> Lease" where
  "reopened_lease minTTL l = \<lparr>lsID = lsID l, lsTtl = max minTTL (lsTtl l), lsRemainingTTL = 0, lsExpiry = None,
     lsItems = {||}, lsRevoked = False\<rparr>"

lemma unat_u64_of: "int64_ok i \<Longrightarrow> unat (u64_of i) = nat (if 0 \<le> i then i else i + 18446744073709551616)"
proof (cases "0 \<le> i")
  case False
  assume i: "int64_ok i"
  have "i mod 18446744073709551616 = (i + 18446744073709551616) mod 18446744073709551616" by simp
  also have "\<dots> = i + 18446744073709551616" using False i by (intro mod_pos_pos_trivial) (simp_all add: int64_ok_def)
  finally show ?thesis using False by (simp add: u64_of_def unat_eq_nat_uint uint_word_of_int take_bit_eq_mod)
qed (simp add: u64_of_nonneg)

lemma recoverLease_record:
  assumes "int64_ok i" "int64_ok (lsTtl l)" "lsID l = i"
  shows "recoverLease (lease_record i (lsTtl l)) le
    = Some (le\<lparr>leLeaseMap := fmupd i (reopened_lease (leMinLeaseTTL le) l) (leLeaseMap le)\<rparr>)"
  using assms by (simp add: recoverLease_def lease_record_def reopened_lease_def int64_ok_def max_def Let_def)

lemma recoverLeases:
  assumes "backed le" "leases_ok (leLeaseMap le)"
  shows "\<forall>x \<in> set ks. x |\<in>| fmdom (leB le) \<Longrightarrow> \<exists>m. foldM recoverLease (map (\<lambda>k. the (fmlookup (leB le) k)) ks) le0 = Some (le0\<lparr>leLeaseMap := m\<rparr>)
    \<and> (\<forall>i. fmlookup m i = (if int64ToBytes i \<in> set ks \<and> fmlookup (leLeaseMap le) i \<noteq> None
        then map_option (reopened_lease (leMinLeaseTTL le0)) (fmlookup (leLeaseMap le) i) else fmlookup (leLeaseMap le0) i))"
proof (induction ks arbitrary: le0)
  case Nil
  show ?case by (intro exI [of _ "leLeaseMap le0"]) simp
next
  case (Cons x ks)
  note D = backedD [OF assms(1)]
  obtain i l where i: "x = int64ToBytes i" "fmlookup (leLeaseMap le) i = Some l" using D(3) [of x] Cons.prems by auto
  have id: "lsID l = i" using assms(2) i(2) by (simp add: leases_ok_def)
  let ?le1 = "le0\<lparr>leLeaseMap := fmupd i (reopened_lease (leMinLeaseTTL le0) l) (leLeaseMap le0)\<rparr>"
  have "recoverLease (the (fmlookup (leB le) x)) le0 = Some ?le1"
    using recoverLease_record [OF _ _ id] D(1,2) [OF i(2)] i(1) by simp
  moreover have "\<forall>x \<in> set ks. x |\<in>| fmdom (leB le)" using Cons.prems by simp
  from Cons.IH [OF this, of ?le1] obtain m where m: "foldM recoverLease (map (\<lambda>k. the (fmlookup (leB le) k)) ks) ?le1 = Some (?le1\<lparr>leLeaseMap := m\<rparr>)"
    "\<forall>j. fmlookup m j = (if int64ToBytes j \<in> set ks \<and> fmlookup (leLeaseMap le) j \<noteq> None
        then map_option (reopened_lease (leMinLeaseTTL ?le1)) (fmlookup (leLeaseMap le) j) else fmlookup (leLeaseMap ?le1) j)" by blast
  have "j = i" if "int64ToBytes j = x" "fmlookup (leLeaseMap le) j = Some y" for j y
    using int64ToBytes_inj [of j i] D(1) [OF that(2)] D(1) [OF i(2)] that(1) i(1) by simp
  then show ?case using calculation m i by (intro exI [of _ m]) auto
qed

lemma newLessor_backed:
  assumes "backed le" "leases_ok (leLeaseMap le)"
  obtains le' where "newLessor (leB le) cfg = Some le'" "lePrimary le' = False" "leItemMap le' = fmempty"
    "\<And>i. Lookup i le' = (if 0 \<le> i \<and> i < 9223372036854775807 then map_option (reopened_lease (lcMinLeaseTTL cfg)) (Lookup i le) else None)"
proof -
  let ?lo = "int64ToBytes 0" and ?hi = "int64ToBytes 9223372036854775807" and ?b = "leB le"
  define ks where "ks = filter (\<lambda>k. ?lo \<le> k \<and> k < ?hi) (bucket_keys ?b)"
  have ne: "?hi \<noteq> []" using length_int64ToBytes [of 9223372036854775807] by fastforce
  have range: "UnsafeRange ?b ?lo ?hi 0 = (ks, map (\<lambda>k. the (fmlookup ?b k)) ks)"
    using UnsafeRange_filter [OF ne, of ?b ?lo 0] by (simp add: ks_def UnsafeRange_def Let_def)
  let ?le0 = "\<lparr>lePrimary = False, leLeaseMap = fmempty, leNotifier = newLeaseExpiredNotifier, leCheckpointHeap = [],
      leItemMap = fmempty, leRd = False, leCp = False, leB = ?b, leMinLeaseTTL = lcMinLeaseTTL cfg, leExpiredC = [],
      leCheckpointInterval = (if lcCheckpointInterval cfg = 0 then 300 * second else lcCheckpointInterval cfg),
      leRetryInterval = (if lcRetryInterval cfg = 0 then 3 * second else lcRetryInterval cfg)\<rparr>"
  have "\<forall>x \<in> set ks. x |\<in>| fmdom ?b" by (simp add: ks_def set_bucket_keys)
  from recoverLeases [OF assms this, of ?le0] obtain m where m: "foldM recoverLease (map (\<lambda>k. the (fmlookup ?b k)) ks) ?le0 = Some (?le0\<lparr>leLeaseMap := m\<rparr>)"
    "\<And>i. fmlookup m i = (if int64ToBytes i \<in> set ks \<and> fmlookup (leLeaseMap le) i \<noteq> None
        then map_option (reopened_lease (lcMinLeaseTTL cfg)) (fmlookup (leLeaseMap le) i) else None)" by auto
  have "int64ToBytes i \<in> set ks \<longleftrightarrow> 0 \<le> i \<and> i < 9223372036854775807" if i: "fmlookup (leLeaseMap le) i = Some l" for i l
  proof -
    have ok: "int64_ok i" using backedD(1) [OF assms(1) i] by blast
    have "int64ToBytes i |\<in>| fmdom ?b" using backedD(2) [OF assms(1) i] by (rule fmdomI)
    moreover have "int64ToBytes i < ?hi \<longleftrightarrow> unat (u64_of i) < unat (u64_of 9223372036854775807)"
      using be_value_order [of "int64ToBytes i" ?hi] by (simp add: int64ToBytes_def)
    moreover have "?lo \<le> int64ToBytes i \<longleftrightarrow> unat (u64_of 0) \<le> unat (u64_of i)"
      using be_value_order [of "int64ToBytes i" ?lo] by (simp add: int64ToBytes_def not_less [symmetric])
    ultimately show ?thesis using ok unat_u64_of [OF ok] unat_u64_of [of 9223372036854775807] unat_u64_of [of 0]
      by (auto simp: ks_def set_bucket_keys int64_ok_def)
  qed
  then have "fmlookup m i = (if 0 \<le> i \<and> i < 9223372036854775807 then map_option (reopened_lease (lcMinLeaseTTL cfg)) (fmlookup (leLeaseMap le) i) else None)" for i
    using m(2) [of i] by (cases "fmlookup (leLeaseMap le) i") auto
  then show thesis
    using m(1) that by (simp add: newLessor_def initAndRecover_def range Lookup_def)
qed

section \<open>What a restart keeps\<close>

text \<open>C37: A lessor that is opened, with any configuration, on the backend of a lessor after any run has
  exactly the leases whose ids are at least 0 and less than the largest one, so a lease that was granted
  with a negative id (or the largest) is lost. A lease that it has keeps the TTL that was granted, raised to the
  least TTL; the remaining TTL that a checkpoint has recorded is gone, and so are its expiry and its keys.\<close>

theorem reopened_lessor_loses:
  assumes "lessor_run cfg le"
  shows "\<exists>le'. newLessor (leB le) cfg' = Some le' \<and> \<not> lePrimary le' \<and> (\<forall>k. GetLease k le' = NoLease)
    \<and> (\<forall>i. Lookup i le' = (if 0 \<le> i \<and> i < 9223372036854775807
        then map_option (reopened_lease (lcMinLeaseTTL cfg')) (Lookup i le) else None))"
proof -
  have ok: "backed le" "leases_ok (leLeaseMap le)" using lessor_run_inv [OF assms] lessor_okD(4) by blast+
  obtain le' where "newLessor (leB le) cfg' = Some le'" "lePrimary le' = False" "leItemMap le' = fmempty"
    "\<And>i. Lookup i le' = (if 0 \<le> i \<and> i < 9223372036854775807 then map_option (reopened_lease (lcMinLeaseTTL cfg')) (Lookup i le) else None)"
    by (rule newLessor_backed [OF ok, where cfg = cfg']) (rule that)
  then show ?thesis by (intro exI [of _ le']) (simp add: GetLease_def)
qed

text \<open>Two grants and a checkpoint.\<close>

definition wit_neg1 :: lessor where
  "wit_neg1 = snd (the (Grant 0 (- 5) 10 wit_le1))"

definition wit_neg2 :: lessor where
  "wit_neg2 = snd (the (Grant 0 7 10 wit_neg1))"

definition wit_neg :: lessor where
  "wit_neg = Checkpoint 0 7 3 wit_neg2"

lemma leases_fit_iff:
  "leases_fit le \<longleftrightarrow> fBall (fmdom (leLeaseMap le)) (\<lambda>i. int64_ok i \<and> int64_ok (lsTtl (the (fmlookup (leLeaseMap le) i))))"
proof
  assume "leases_fit le"
  then show "fBall (fmdom (leLeaseMap le)) (\<lambda>i. int64_ok i \<and> int64_ok (lsTtl (the (fmlookup (leLeaseMap le) i))))"
    by (auto simp: leases_fit_def fmlookup_dom_iff)
next
  assume fit: "fBall (fmdom (leLeaseMap le)) (\<lambda>i. int64_ok i \<and> int64_ok (lsTtl (the (fmlookup (leLeaseMap le) i))))"
  show "leases_fit le"
    unfolding leases_fit_def
  proof (intro allI impI)
    fix i l assume l: "fmlookup (leLeaseMap le) i = Some l"
    have "int64_ok i \<and> int64_ok (lsTtl (the (fmlookup (leLeaseMap le) i)))" using fit fmdomI [OF l] by blast
    with l show "int64_ok i \<and> int64_ok (lsTtl l)" by simp
  qed
qed

lemma wit_neg_fit:
  "leases_fit (the (Promote 0 0 wit_le0))" "leases_fit wit_le1" "leases_fit wit_neg1" "leases_fit wit_neg2" "leases_fit wit_neg"
  unfolding leases_fit_iff by code_simp+

lemma wit_neg_grants: "Grant 0 (- 5) 10 wit_le1 \<noteq> None" "Grant 0 7 10 wit_neg1 \<noteq> None"
  by code_simp+

lemma wit_neg_run: "lessor_run wit_cfg wit_neg"
proof -
  have some: "x \<noteq> None \<Longrightarrow> x = Some (fst (the x), snd (the x))" for x :: "((LeaseErr + Lease) \<times> lessor) option" by auto
  have r0: "lessor_run wit_cfg wit_le0" using wit_grants(1) by (auto simp: wit_le0_def intro: run_new)
  have "lessor_step wit_le0 (the (Promote 0 0 wit_le0))" using wit_grants(2) by (auto intro: ls_promote)
  from run_step [OF r0 this wit_neg_fit(1)] have "lessor_run wit_cfg (the (Promote 0 0 wit_le0))" .
  moreover have "lessor_step (the (Promote 0 0 wit_le0)) wit_le1" unfolding wit_le1_def by (rule ls_deleter)
  ultimately have "lessor_run wit_cfg wit_le1" using run_step wit_neg_fit(2) by blast
  moreover have "lessor_step wit_le1 wit_neg1" unfolding wit_neg1_def by (rule ls_grant [OF some [OF wit_neg_grants(1)]])
  ultimately have "lessor_run wit_cfg wit_neg1" using run_step wit_neg_fit(3) by blast
  moreover have "lessor_step wit_neg1 wit_neg2" unfolding wit_neg2_def by (rule ls_grant [OF some [OF wit_neg_grants(2)]])
  ultimately have "lessor_run wit_cfg wit_neg2" using run_step wit_neg_fit(4) by blast
  moreover have "lessor_step wit_neg2 wit_neg" unfolding wit_neg_def by (rule ls_checkpoint)
  ultimately show ?thesis using run_step wit_neg_fit(5) by blast
qed

lemma wit_neg_leases:
  "map_option RemainingTTL (Lookup 7 wit_neg) = Some 3" "map_option lsTtl (Lookup 7 wit_neg) = Some 10" "Lookup (- 5) wit_neg \<noteq> None"
  by code_simp+

theorem reopened_lessor_loses_witness:
  "Lookup (- 5) wit_neg \<noteq> None \<and> Lookup (- 5) (the (newLessor (leB wit_neg) wit_cfg)) = None
   \<and> map_option RemainingTTL (Lookup 7 wit_neg) = Some 3
   \<and> map_option RemainingTTL (Lookup 7 (the (newLessor (leB wit_neg) wit_cfg))) = Some 10"
proof -
  obtain l where "Lookup 7 wit_neg = Some l" "lsTtl l = 10" using wit_neg_leases(2) by auto
  with reopened_lessor_loses [OF wit_neg_run, of wit_cfg] wit_neg_leases(1,3) show ?thesis
    by (auto simp: reopened_lease_def RemainingTTL_def wit_cfg_def)
qed

end
