(* ===== verification/Apply.thy ===== *)
theory Apply
  imports LeaseRevoke
begin

text \<open>
  etcdserver/apply.go: how the requests of clients for keys and leases are applied to the store, and
  the checks of etcdserver/api/v3rpc/key.go and v3_server.go on them. The messages are the ones of
  etcdserverpb, as they come from the wire: the message in an op is not nil, an absent byte string is,
  and an enum has its int32 value. A nested transaction is an op of a transaction.

  Contexts, traces, the cluster's part of the headers and the log are left out. Put reports the header
  revision and the previous pair. A panic is the value None.
\<close>

section \<open>Requests and responses\<close>

record RangeRequest =
  rqKey :: bytes
  rqRangeEnd :: "bytes option"
  rqLimit :: int
  rqRevision :: int
  rqSortOrder :: int
  rqSortTarget :: int
  rqKeysOnly :: bool
  rqCountOnly :: bool
  rqMinModRevision :: int
  rqMaxModRevision :: int
  rqMinCreateRevision :: int
  rqMaxCreateRevision :: int

record PutRequest =
  prKey :: bytes
  prValue :: bytes
  prLease :: int
  prPrevKv :: bool
  prIgnoreValue :: bool
  prIgnoreLease :: bool

record DeleteRangeRequest =
  drKey :: bytes
  drRangeEnd :: "bytes option"
  drPrevKv :: bool

datatype TargetUnion = TVersion int | TCreateRevision int | TModRevision int | TValue bytes | TLease int | TNil

record Compare =
  cResult :: int
  cTarget :: int
  cKey :: bytes
  cUnion :: TargetUnion
  cRangeEnd :: "bytes option"

datatype RequestOp =
    RequestRange RangeRequest
  | RequestPut PutRequest
  | RequestDeleteRange DeleteRangeRequest
  | RequestTxn TxnRequest
  | RequestNil
and TxnRequest = TxnRequest (rtCompare: "Compare list") (rtSuccess: "RequestOp list") (rtFailure: "RequestOp list")

record RangeResponse =
  rrsRevision :: int
  rrsKvs :: "KeyValue list"
  rrsMore :: bool
  rrsCount :: int

record PutResponse =
  psRevision :: int
  psPrevKv :: "KeyValue option"

record DeleteRangeResponse =
  dsRevision :: int
  dsDeleted :: int
  dsPrevKvs :: "KeyValue list"

text \<open>A response op is a nil pointer, or has a response that is allocated and then filled in.\<close>

datatype ResponseOp =
    ResponseRange "RangeResponse option"
  | ResponsePut "PutResponse option"
  | ResponseDeleteRange "DeleteRangeResponse option"
  | ResponseTxn TxnResponse
  | ResponseNil
and TxnResponse = TxnResponse (tsRevision: int) (tsSucceeded: bool) (tsResponses: "ResponseOp list")

datatype ApplyErr = ErrKeyNotFound | ErrLease LeaseErr | ErrMvcc MvccErr

definition sort_NONE :: int where "sort_NONE = 0"
definition sort_ASCEND :: int where "sort_ASCEND = 1"
definition sort_DESCEND :: int where "sort_DESCEND = 2"
definition sort_KEY :: int where "sort_KEY = 0"
definition sort_VERSION :: int where "sort_VERSION = 1"
definition sort_CREATE :: int where "sort_CREATE = 2"
definition sort_MOD :: int where "sort_MOD = 3"
definition sort_VALUE :: int where "sort_VALUE = 4"
definition cmp_EQUAL :: int where "cmp_EQUAL = 0"
definition cmp_GREATER :: int where "cmp_GREATER = 1"
definition cmp_LESS :: int where "cmp_LESS = 2"
definition cmp_NOT_EQUAL :: int where "cmp_NOT_EQUAL = 3"
definition cmp_VERSION :: int where "cmp_VERSION = 0"
definition cmp_CREATE :: int where "cmp_CREATE = 1"
definition cmp_MOD :: int where "cmp_MOD = 2"
definition cmp_VALUE :: int where "cmp_VALUE = 3"
definition cmp_LEASE :: int where "cmp_LEASE = 4"

section \<open>Transactions of the store\<close>

text \<open>A read transaction, coerced to a write transaction whose writes panic, or a write transaction.\<close>

datatype TxnWrite = txnReadWrite store | txnWrite storeTxnWrite

type_synonym ReadView = "bytes \<Rightarrow> bytes option \<Rightarrow> RangeOptions \<Rightarrow> (RangeResult \<times> MvccErr option) option"

definition txn_Range :: "TxnWrite \<Rightarrow> ReadView" where
  "txn_Range tx key endk ro = (case tx of txnReadWrite s \<Rightarrow> store_Range key endk ro s | txnWrite tw \<Rightarrow> tw_Range key endk ro tw)"

definition txn_Rev :: "TxnWrite \<Rightarrow> int" where
  "txn_Rev tx = (case tx of txnReadWrite s \<Rightarrow> sCurrentRev s | txnWrite tw \<Rightarrow> twBeginRev tw)"

definition txn_Put :: "bytes \<Rightarrow> bytes \<Rightarrow> LeaseID \<Rightarrow> TxnWrite \<Rightarrow> (TxnWrite \<times> int) option" where
  "txn_Put key val i tx = (case tx of txnReadWrite s \<Rightarrow> None | txnWrite tw \<Rightarrow> map_option (apfst txnWrite) (tw_Put key val i tw))"

definition txn_DeleteRange :: "bytes \<Rightarrow> bytes option \<Rightarrow> TxnWrite \<Rightarrow> (TxnWrite \<times> int \<times> int) option" where
  "txn_DeleteRange key endk tx =
     (case tx of txnReadWrite s \<Rightarrow> None | txnWrite tw \<Rightarrow> map_option (apfst txnWrite) (tw_DeleteRange key endk tw))"

definition txn_Changes :: "TxnWrite \<Rightarrow> KeyValue list" where
  "txn_Changes tx = (case tx of txnReadWrite s \<Rightarrow> [] | txnWrite tw \<Rightarrow> twChanges tw)"

definition txn_End :: "TxnWrite \<Rightarrow> store" where
  "txn_End tx = (case tx of txnReadWrite s \<Rightarrow> s | txnWrite tw \<Rightarrow> tw_End tw)"

abbreviation noOptions :: RangeOptions where
  "noOptions \<equiv> \<lparr>roLimit = 0, roRev = 0, roCount = False\<rparr>"

section \<open>Put and DeleteRange\<close>

definition mkGteRange :: "bytes option \<Rightarrow> bytes option" where
  "mkGteRange rangeEnd = (if rangeEnd = Some [0] then Some [] else rangeEnd)"

text \<open>Put in a transaction.\<close>

definition apply_Put :: "PutRequest \<Rightarrow> TxnWrite \<Rightarrow> ((ApplyErr + PutResponse) \<times> TxnWrite) option" where
  "apply_Put p tx =
     do {
       (rr, err) \<leftarrow> (if prIgnoreValue p \<or> prIgnoreLease p \<or> prPrevKv p
         then map_option (apfst Some) (txn_Range tx (prKey p) None noOptions) else Some (None, None));
       if err \<noteq> None then Some (Inl (ErrMvcc (the err)), tx)
       else
         let kvs = (case rr of None \<Rightarrow> [] | Some rr \<Rightarrow> rrKVs rr) in
         if (prIgnoreValue p \<or> prIgnoreLease p) \<and> kvs = [] then Some (Inl ErrKeyNotFound, tx)
         else do {
           let val = (if prIgnoreValue p then kvValue (hd kvs) else prValue p);
           let leaseID = (if prIgnoreLease p then kvLease (hd kvs) else prLease p);
           let prev = (if prPrevKv p \<and> kvs \<noteq> [] then Some (hd kvs) else None);
           (tx, rev) \<leftarrow> txn_Put (prKey p) val leaseID tx;
           Some (Inr \<lparr>psRevision = rev, psPrevKv = prev\<rparr>, tx)
         }
     }"

text \<open>Put without a transaction, which is one of its own; End is deferred.\<close>

definition applierV3_Put :: "PutRequest \<Rightarrow> store \<Rightarrow> ((ApplyErr + PutResponse) \<times> store) option" where
  "applierV3_Put p s =
     do {
       granted \<leftarrow> (if prLease p = NoLease then Some True else map_option (\<lambda>le. Lookup (prLease p) le \<noteq> None) (sLessor s));
       if \<not> granted then Some (Inl (ErrLease ErrLeaseNotFound), s)
       else map_option (apsnd txn_End) (apply_Put p (txnWrite (store_Write s)))
     }"

definition apply_DeleteRange :: "DeleteRangeRequest \<Rightarrow> TxnWrite \<Rightarrow> ((ApplyErr + DeleteRangeResponse) \<times> TxnWrite) option" where
  "apply_DeleteRange dr tx =
     do {
       let endk = mkGteRange (drRangeEnd dr);
       (rr, err) \<leftarrow> (if drPrevKv dr then txn_Range tx (drKey dr) endk noOptions
         else Some (\<lparr>rrKVs = [], rrRev = 0, rrCount = 0\<rparr>, None));
       if err \<noteq> None then Some (Inl (ErrMvcc (the err)), tx)
       else do {
         (tx, n, rev) \<leftarrow> txn_DeleteRange (drKey dr) endk tx;
         Some (Inr \<lparr>dsRevision = rev, dsDeleted = n, dsPrevKvs = rrKVs rr\<rparr>, tx)
       }
     }"

definition applierV3_DeleteRange :: "DeleteRangeRequest \<Rightarrow> store \<Rightarrow> ((ApplyErr + DeleteRangeResponse) \<times> store) option" where
  "applierV3_DeleteRange dr s = map_option (apsnd txn_End) (apply_DeleteRange dr (txnWrite (store_Write s)))"

section \<open>Range\<close>

definition bytes_Compare :: "bytes \<Rightarrow> bytes \<Rightarrow> int" where
  "bytes_Compare a b = (if a < b then - 1 else if a = b then 0 else 1)"

definition kvSortByKey :: "KeyValue \<Rightarrow> KeyValue \<Rightarrow> bool" where
  "kvSortByKey a b \<longleftrightarrow> bytes_Compare (kvKey a) (kvKey b) < 0"

definition kvSortByVersion :: "KeyValue \<Rightarrow> KeyValue \<Rightarrow> bool" where
  "kvSortByVersion a b \<longleftrightarrow> int64 (kvVersion a - kvVersion b) < 0"

definition kvSortByCreate :: "KeyValue \<Rightarrow> KeyValue \<Rightarrow> bool" where
  "kvSortByCreate a b \<longleftrightarrow> int64 (kvCreateRevision a - kvCreateRevision b) < 0"

definition kvSortByMod :: "KeyValue \<Rightarrow> KeyValue \<Rightarrow> bool" where
  "kvSortByMod a b \<longleftrightarrow> int64 (kvModRevision a - kvModRevision b) < 0"

definition kvSortByValue :: "KeyValue \<Rightarrow> KeyValue \<Rightarrow> bool" where
  "kvSortByValue a b \<longleftrightarrow> bytes_Compare (kvValue a) (kvValue b) < 0"

text \<open>
  sort.Sort on a Less; it leaves the order of equal elements open, which stay in place here (as they do
  in Go for short lists).
\<close>

fun sort_insert :: "('a \<Rightarrow> 'a \<Rightarrow> bool) \<Rightarrow> 'a \<Rightarrow> 'a list \<Rightarrow> 'a list" where
  "sort_insert lt x [] = [x]"
| "sort_insert lt x (y # ys) = (if lt y x then y # sort_insert lt x ys else x # y # ys)"

definition sort_Sort :: "('a \<Rightarrow> 'a \<Rightarrow> bool) \<Rightarrow> 'a list \<Rightarrow> 'a list" where
  "sort_Sort lt xs = foldr (sort_insert lt) xs []"

definition pruneKVs :: "(KeyValue \<Rightarrow> bool) \<Rightarrow> KeyValue list \<Rightarrow> KeyValue list" where
  "pruneKVs isPrunable kvs = filter (\<lambda>kv. \<not> isPrunable kv) kvs"

text \<open>The sorter of a target; a nil interface for an unknown one.\<close>

definition sorter :: "int \<Rightarrow> (KeyValue \<Rightarrow> KeyValue \<Rightarrow> bool) option" where
  "sorter target =
     (if target = sort_KEY then Some kvSortByKey else if target = sort_VERSION then Some kvSortByVersion
      else if target = sort_CREATE then Some kvSortByCreate else if target = sort_MOD then Some kvSortByMod
      else if target = sort_VALUE then Some kvSortByValue else None)"

definition sortKVs :: "int \<Rightarrow> int \<Rightarrow> KeyValue list \<Rightarrow> KeyValue list option" where
  "sortKVs order target kvs =
     (let order = (if target \<noteq> sort_KEY \<and> order = sort_NONE then sort_ASCEND else order) in
      if order = sort_NONE then Some kvs
      else if order = sort_ASCEND then map_option (\<lambda>lt. sort_Sort lt kvs) (sorter target)
      else if order = sort_DESCEND then map_option (\<lambda>lt. sort_Sort (\<lambda>a b. lt b a) kvs) (sorter target)
      else Some kvs)"

definition apply_Range :: "RangeRequest \<Rightarrow> TxnWrite \<Rightarrow> (ApplyErr + RangeResponse) option" where
  "apply_Range r tx =
     do {
       let lim = (if rqSortOrder r \<noteq> sort_NONE \<or> rqMinModRevision r \<noteq> 0 \<or> rqMaxModRevision r \<noteq> 0
           \<or> rqMinCreateRevision r \<noteq> 0 \<or> rqMaxCreateRevision r \<noteq> 0 then 0 else rqLimit r);
       let lim = (if lim > 0 then int64 (lim + 1) else lim);
       (rr, err) \<leftarrow> txn_Range tx (rqKey r) (mkGteRange (rqRangeEnd r)) \<lparr>roLimit = lim, roRev = rqRevision r, roCount = rqCountOnly r\<rparr>;
       if err \<noteq> None then Some (Inl (ErrMvcc (the err)))
       else do {
         let kvs = rrKVs rr;
         let kvs = (if rqMaxModRevision r \<noteq> 0 then pruneKVs (\<lambda>kv. kvModRevision kv > rqMaxModRevision r) kvs else kvs);
         let kvs = (if rqMinModRevision r \<noteq> 0 then pruneKVs (\<lambda>kv. kvModRevision kv < rqMinModRevision r) kvs else kvs);
         let kvs = (if rqMaxCreateRevision r \<noteq> 0 then pruneKVs (\<lambda>kv. kvCreateRevision kv > rqMaxCreateRevision r) kvs else kvs);
         let kvs = (if rqMinCreateRevision r \<noteq> 0 then pruneKVs (\<lambda>kv. kvCreateRevision kv < rqMinCreateRevision r) kvs else kvs);
         kvs \<leftarrow> sortKVs (rqSortOrder r) (rqSortTarget r) kvs;
         let more = (rqLimit r > 0 \<and> int (length kvs) > rqLimit r);
         let kvs = (if more then take (nat (rqLimit r)) kvs else kvs);
         let kvs = (if rqKeysOnly r then map (\<lambda>kv. kv\<lparr>kvValue := []\<rparr>) kvs else kvs);
         Some (Inr \<lparr>rrsRevision = rrRev rr, rrsKvs = kvs, rrsMore = more, rrsCount = rrCount rr\<rparr>)
       }
     }"

definition applierV3_Range :: "RangeRequest \<Rightarrow> store \<Rightarrow> (ApplyErr + RangeResponse) option" where
  "applierV3_Range r s = apply_Range r (txnReadWrite s)"

section \<open>Comparisons\<close>

definition compareInt64 :: "int \<Rightarrow> int \<Rightarrow> int" where
  "compareInt64 a b = (if a < b then - 1 else if a > b then 1 else 0)"

definition compareKV :: "Compare \<Rightarrow> KeyValue \<Rightarrow> bool" where
  "compareKV c ckv =
     (let t = cTarget c;
          result = (if t = cmp_VALUE then bytes_Compare (kvValue ckv) (case cUnion c of TValue v \<Rightarrow> v | _ \<Rightarrow> [])
            else if t = cmp_CREATE then compareInt64 (kvCreateRevision ckv) (case cUnion c of TCreateRevision r \<Rightarrow> r | _ \<Rightarrow> 0)
            else if t = cmp_MOD then compareInt64 (kvModRevision ckv) (case cUnion c of TModRevision r \<Rightarrow> r | _ \<Rightarrow> 0)
            else if t = cmp_VERSION then compareInt64 (kvVersion ckv) (case cUnion c of TVersion r \<Rightarrow> r | _ \<Rightarrow> 0)
            else if t = cmp_LEASE then compareInt64 (kvLease ckv) (case cUnion c of TLease r \<Rightarrow> r | _ \<Rightarrow> 0)
            else 0)
      in if cResult c = cmp_EQUAL then result = 0
         else if cResult c = cmp_NOT_EQUAL then result \<noteq> 0
         else if cResult c = cmp_GREATER then result > 0
         else if cResult c = cmp_LESS then result < 0
         else True)"

definition applyCompare :: "ReadView \<Rightarrow> Compare \<Rightarrow> bool option" where
  "applyCompare rv c =
     do {
       (rr, err) \<leftarrow> rv (cKey c) (mkGteRange (cRangeEnd c)) noOptions;
       Some (if err \<noteq> None then False
         else if rrKVs rr = [] then cTarget c \<noteq> cmp_VALUE \<and> compareKV c zeroKeyValue
         else list_all (compareKV c) (rrKVs rr))
     }"

fun applyCompares :: "ReadView \<Rightarrow> Compare list \<Rightarrow> bool option" where
  "applyCompares rv [] = Some True"
| "applyCompares rv (c # cs) = do { b \<leftarrow> applyCompare rv c; if b then applyCompares rv cs else Some False }"

section \<open>Transactions\<close>

text \<open>The outcome of the comparisons of a transaction, then of the nested ones of its branch.\<close>

fun compareToPath :: "ReadView \<Rightarrow> TxnRequest \<Rightarrow> bool list option"
  and comparePaths :: "ReadView \<Rightarrow> RequestOp list \<Rightarrow> bool list option" where
  "compareToPath rv (TxnRequest cs succ fail) =
     do { b \<leftarrow> applyCompares rv cs; p \<leftarrow> (if b then comparePaths rv succ else comparePaths rv fail); Some (b # p) }"
| "comparePaths rv [] = Some []"
| "comparePaths rv (RequestTxn t # ops) = do { p \<leftarrow> compareToPath rv t; q \<leftarrow> comparePaths rv ops; Some (p @ q) }"
| "comparePaths rv (_ # ops) = comparePaths rv ops"

definition slice_from :: "'a list \<Rightarrow> nat \<Rightarrow> 'a list option" where
  "slice_from xs n = (if n \<le> length xs then Some (drop n xs) else None)"

text \<open>The check of every op that will run; the count is that of the nested transactions.\<close>

fun checkRequests :: "(RequestOp \<Rightarrow> ApplyErr option option) \<Rightarrow> TxnRequest \<Rightarrow> bool list \<Rightarrow> (ApplyErr + nat) option"
  and checkOps :: "(RequestOp \<Rightarrow> ApplyErr option option) \<Rightarrow> RequestOp list \<Rightarrow> bool list \<Rightarrow> nat \<Rightarrow> (ApplyErr + nat) option" where
  "checkRequests f (TxnRequest cs succ fail) path =
     do { b \<leftarrow> idx path 0; if b then checkOps f succ path 0 else checkOps f fail path 0 }"
| "checkOps f [] path n = Some (Inr n)"
| "checkOps f (RequestTxn t # ops) path n =
     do {
       p \<leftarrow> slice_from path 1;
       r \<leftarrow> checkRequests f t p;
       case r of
         Inl e \<Rightarrow> Some (Inl e)
       | Inr txns \<Rightarrow> do { path \<leftarrow> slice_from path (txns + 1); checkOps f ops path (n + txns + 1) }
     }"
| "checkOps f (op # ops) path n = do { e \<leftarrow> f op; case e of Some e \<Rightarrow> Some (Inl e) | None \<Rightarrow> checkOps f ops path n }"

definition checkRequestPut :: "lessor option \<Rightarrow> ReadView \<Rightarrow> RequestOp \<Rightarrow> ApplyErr option option" where
  "checkRequestPut le rv op =
     (case op of
        RequestPut p \<Rightarrow>
          do {
            e \<leftarrow> (if prIgnoreValue p \<or> prIgnoreLease p then
              do {
                (rr, err) \<leftarrow> rv (prKey p) None noOptions;
                Some (if err \<noteq> None then Some (ErrMvcc (the err)) else if rrKVs rr = [] then Some ErrKeyNotFound else None)
              } else Some None);
            if e \<noteq> None then Some e
            else if prLease p \<noteq> NoLease then do { le \<leftarrow> le; Some (if Lookup (prLease p) le = None then Some (ErrLease ErrLeaseNotFound) else None) }
            else Some None
          }
      | _ \<Rightarrow> Some None)"

definition checkRequestRange :: "store \<Rightarrow> RequestOp \<Rightarrow> ApplyErr option option" where
  "checkRequestRange s op =
     Some (case op of
        RequestRange r \<Rightarrow>
          if rqRevision r = 0 then None
          else if rqRevision r > sCurrentRev s then Some (ErrMvcc ErrFutureRev)
          else if rqRevision r < sCompactMainRev s then Some (ErrMvcc ErrCompacted)
          else None
      | _ \<Rightarrow> None)"

fun newTxnResp :: "TxnRequest \<Rightarrow> bool list \<Rightarrow> (TxnResponse \<times> nat) option"
  and newResps :: "RequestOp list \<Rightarrow> bool list \<Rightarrow> nat \<Rightarrow> (ResponseOp list \<times> nat) option" where
  "newTxnResp (TxnRequest cs succ fail) path =
     do {
       b \<leftarrow> idx path 0;
       (resps, n) \<leftarrow> (if b then newResps succ path 0 else newResps fail path 0);
       Some (TxnResponse 0 b resps, n)
     }"
| "newResps [] path n = Some ([], n)"
| "newResps (RequestTxn t # ops) path n =
     do {
       p \<leftarrow> slice_from path 1;
       (resp, txns) \<leftarrow> newTxnResp t p;
       path \<leftarrow> slice_from path (1 + txns);
       (resps, n) \<leftarrow> newResps ops path (n + txns + 1);
       Some (ResponseTxn resp # resps, n)
     }"
| "newResps (op # ops) path n =
     do {
       (resps, n) \<leftarrow> newResps ops path n;
       Some ((case op of RequestRange r \<Rightarrow> ResponseRange None | RequestPut p \<Rightarrow> ResponsePut None
          | RequestDeleteRange d \<Rightarrow> ResponseDeleteRange None | _ \<Rightarrow> ResponseNil) # resps, n)
     }"

text \<open>One op that is no transaction, with its response: an error is a panic.\<close>

definition applyOp :: "RequestOp \<Rightarrow> TxnWrite \<Rightarrow> (ResponseOp \<times> TxnWrite) option" where
  "applyOp op tx =
     (case op of
        RequestRange r \<Rightarrow> do { x \<leftarrow> apply_Range r tx; case x of Inl e \<Rightarrow> None | Inr rsp \<Rightarrow> Some (ResponseRange (Some rsp), tx) }
      | RequestPut p \<Rightarrow> do { (x, tx) \<leftarrow> apply_Put p tx; case x of Inl e \<Rightarrow> None | Inr rsp \<Rightarrow> Some (ResponsePut (Some rsp), tx) }
      | RequestDeleteRange d \<Rightarrow>
          do { (x, tx) \<leftarrow> apply_DeleteRange d tx; case x of Inl e \<Rightarrow> None | Inr rsp \<Rightarrow> Some (ResponseDeleteRange (Some rsp), tx) }
      | _ \<Rightarrow> None)"

definition same_kind :: "ResponseOp \<Rightarrow> RequestOp \<Rightarrow> bool" where
  "same_kind respi op =
     (case (respi, op) of
        (ResponseRange _, RequestRange _) \<Rightarrow> True
      | (ResponsePut _, RequestPut _) \<Rightarrow> True
      | (ResponseDeleteRange _, RequestDeleteRange _) \<Rightarrow> True
      | _ \<Rightarrow> False)"

text \<open>The run of a transaction fills in the allocated responses; the count is that of the nested transactions.\<close>

fun applyTxn :: "TxnWrite \<Rightarrow> TxnRequest \<Rightarrow> bool list \<Rightarrow> TxnResponse \<Rightarrow> (TxnWrite \<times> TxnResponse \<times> nat) option"
  and applyOps :: "TxnWrite \<Rightarrow> RequestOp list \<Rightarrow> bool list \<Rightarrow> ResponseOp list \<Rightarrow> nat \<Rightarrow> (TxnWrite \<times> ResponseOp list \<times> nat) option" where
  "applyTxn tx (TxnRequest cs succ fail) path tresp =
     do {
       b \<leftarrow> idx path 0;
       (tx, resps, n) \<leftarrow> (if b then applyOps tx succ path (tsResponses tresp) 0 else applyOps tx fail path (tsResponses tresp) 0);
       Some (tx, TxnResponse (tsRevision tresp) (tsSucceeded tresp) resps, n)
     }"
| "applyOps tx [] path resps n = Some (tx, resps, n)"
| "applyOps tx (op # ops) path [] n = None"
| "applyOps tx (RequestTxn t # ops) path (respi # resps) n =
     (case respi of
        ResponseTxn resp \<Rightarrow>
          do {
            p \<leftarrow> slice_from path 1;
            (tx, resp, txns) \<leftarrow> applyTxn tx t p resp;
            path \<leftarrow> slice_from path (txns + 1);
            (tx, resps, n) \<leftarrow> applyOps tx ops path resps (n + txns + 1);
            Some (tx, ResponseTxn resp # resps, n)
          }
      | _ \<Rightarrow> None)"
| "applyOps tx (op # ops) path (respi # resps) n =
     do {
       (resp, tx) \<leftarrow> applyOp op tx;
       panic_if (\<not> same_kind respi op);
       (tx, resps, n) \<leftarrow> applyOps tx ops path resps n;
       Some (tx, resp # resps, n)
     }"

fun isRange :: "RequestOp \<Rightarrow> bool" where
  "isRange (RequestRange r) = True"
| "isRange _ = False"

definition isTxnReadonly :: "TxnRequest \<Rightarrow> bool" where
  "isTxnReadonly r \<longleftrightarrow> list_all isRange (rtSuccess r) \<and> list_all isRange (rtFailure r)"

text \<open>The checks read the store; then a transaction that writes takes the store's lock.\<close>

definition applierV3_Txn :: "TxnRequest \<Rightarrow> store \<Rightarrow> ((ApplyErr + TxnResponse) \<times> store) option" where
  "applierV3_Txn rt s =
     do {
       let isWrite = (\<not> isTxnReadonly rt);
       let rv = txn_Range (txnReadWrite s);
       txnPath \<leftarrow> compareToPath rv rt;
       r \<leftarrow> (if isWrite then checkRequests (checkRequestPut (sLessor s) rv) rt txnPath else Some (Inr 0));
       case r of
         Inl e \<Rightarrow> Some (Inl e, s)
       | Inr _ \<Rightarrow>
           do {
             r \<leftarrow> checkRequests (checkRequestRange s) rt txnPath;
             case r of
               Inl e \<Rightarrow> Some (Inl e, s)
             | Inr _ \<Rightarrow>
                 do {
                   (resp, _) \<leftarrow> newTxnResp rt txnPath;
                   let tx = (if isWrite then txnWrite (store_Write s) else txnReadWrite s);
                   (tx, resp, _) \<leftarrow> applyTxn tx rt txnPath resp;
                   let rev = (if txn_Changes tx \<noteq> [] then txn_Rev tx + 1 else txn_Rev tx);
                   Some (Inr (TxnResponse rev (tsSucceeded resp) (tsResponses resp)), txn_End tx)
                 }
           }
     }"

text \<open>A transaction whose result nobody waits for is applied without its reads.\<close>

definition removeNeedlessRangeReqs :: "TxnRequest \<Rightarrow> TxnRequest" where
  "removeNeedlessRangeReqs t =
     TxnRequest (rtCompare t) (filter (\<lambda>op. \<not> isRange op) (rtSuccess t)) (filter (\<lambda>op. \<not> isRange op) (rtFailure t))"

section \<open>Compaction\<close>

text \<open>The store takes the request; the job that it queues is a step of its own (StoreRun). The key read is "compaction".\<close>

definition applierV3_Compaction :: "int \<Rightarrow> store \<Rightarrow> ((ApplyErr + int) \<times> store) option" where
  "applierV3_Compaction r s =
     (case updateCompactRev r s of
        (s, Some e) \<Rightarrow> Some (Inl (ErrMvcc e), s)
      | (s, None) \<Rightarrow>
          do {
            (rr, _) \<leftarrow> store_Range [99, 111, 109, 112, 97, 99, 116, 105, 111, 110] None noOptions s;
            Some (Inr (rrRev rr), s)
          })"

section \<open>Leases\<close>

record LeaseGrantResponse =
  lgID :: int
  lgTTL :: int

text \<open>An operation of the lessor, in place of the store's.\<close>

definition applierV3_LeaseGrant :: "int \<Rightarrow> int \<Rightarrow> int \<Rightarrow> store \<Rightarrow> ((LeaseErr + LeaseGrantResponse) \<times> store) option" where
  "applierV3_LeaseGrant clk i ttl s =
     do {
       le \<leftarrow> sLessor s;
       (r, le) \<leftarrow> Grant clk i ttl le;
       Some (map_sum id (\<lambda>l. \<lparr>lgID = lsID l, lgTTL = lsTtl l\<rparr>) r, s\<lparr>sLessor := Some le\<rparr>)
     }"

definition applierV3_LeaseRevoke :: "int \<Rightarrow> store \<Rightarrow> (LeaseErr option \<times> store) option" where
  "applierV3_LeaseRevoke i s = Revoke i s"

definition applierV3_LeaseCheckpoint :: "int \<Rightarrow> LeaseCheckpoint list \<Rightarrow> store \<Rightarrow> store option" where
  "applierV3_LeaseCheckpoint clk cps s =
     do { le \<leftarrow> sLessor s; Some (s\<lparr>sLessor := Some (fold (\<lambda>(i, r). Checkpoint clk i r) cps le)\<rparr>) }"

section \<open>The checks of the RPC layer\<close>

datatype RpcErr = ErrGRPCEmptyKey | ErrGRPCValueProvided | ErrGRPCLeaseProvided | ErrGRPCTooManyOps | ErrGRPCKeyNotFound

definition checkRangeRequest :: "RangeRequest \<Rightarrow> RpcErr option" where
  "checkRangeRequest r = (if rqKey r = [] then Some ErrGRPCEmptyKey else None)"

definition checkPutRequest :: "PutRequest \<Rightarrow> RpcErr option" where
  "checkPutRequest r =
     (if prKey r = [] then Some ErrGRPCEmptyKey
      else if prIgnoreValue r \<and> prValue r \<noteq> [] then Some ErrGRPCValueProvided
      else if prIgnoreLease r \<and> prLease r \<noteq> 0 then Some ErrGRPCLeaseProvided
      else None)"

definition checkDeleteRequest :: "DeleteRangeRequest \<Rightarrow> RpcErr option" where
  "checkDeleteRequest r = (if drKey r = [] then Some ErrGRPCEmptyKey else None)"

fun first_err :: "RpcErr option list \<Rightarrow> RpcErr option" where
  "first_err [] = None"
| "first_err (None # es) = first_err es"
| "first_err (Some e # es) = Some e"

fun checkTxnRequest :: "TxnRequest \<Rightarrow> int \<Rightarrow> RpcErr option"
  and checkRequestOp :: "RequestOp \<Rightarrow> int \<Rightarrow> RpcErr option" where
  "checkTxnRequest (TxnRequest cs succ fail) maxTxnOps =
     (let opc = int (max (length cs) (max (length succ) (length fail))) in
      if opc > maxTxnOps then Some ErrGRPCTooManyOps
      else if \<exists>c \<in> set cs. cKey c = [] then Some ErrGRPCEmptyKey
      else first_err (map (\<lambda>u. checkRequestOp u (maxTxnOps - opc)) succ @ map (\<lambda>u. checkRequestOp u (maxTxnOps - opc)) fail))"
| "checkRequestOp (RequestRange r) maxTxnOps = checkRangeRequest r"
| "checkRequestOp (RequestPut p) maxTxnOps = checkPutRequest p"
| "checkRequestOp (RequestDeleteRange d) maxTxnOps = checkDeleteRequest d"
| "checkRequestOp (RequestTxn t) maxTxnOps = checkTxnRequest t maxTxnOps"
| "checkRequestOp RequestNil maxTxnOps = Some ErrGRPCKeyNotFound"

end
