(* ===== verification/ApplyProps.thy ===== *)
theory ApplyProps
  imports Apply
begin

text \<open>
  What applying a request does. A transaction evaluates its comparisons, writes their outcomes into
  a path, and reads the path in three passes (checks, allocation of the responses, the run); here it is
  compared with a direct evaluation.
\<close>

section \<open>Transactions without paths\<close>

text \<open>The ops of the branches that the comparisons choose, nested transactions replaced by theirs.\<close>

fun chosenTxn :: "ReadView \<Rightarrow> TxnRequest \<Rightarrow> RequestOp list option"
  and chosenOps :: "ReadView \<Rightarrow> RequestOp list \<Rightarrow> RequestOp list option" where
  "chosenTxn rv (TxnRequest cs succ fail) = do { b \<leftarrow> applyCompares rv cs; if b then chosenOps rv succ else chosenOps rv fail }"
| "chosenOps rv [] = Some []"
| "chosenOps rv (RequestTxn t # ops) = do { a \<leftarrow> chosenTxn rv t; b \<leftarrow> chosenOps rv ops; Some (a @ b) }"
| "chosenOps rv (op # ops) = map_option ((#) op) (chosenOps rv ops)"

fun checkAll :: "(RequestOp \<Rightarrow> ApplyErr option option) \<Rightarrow> RequestOp list \<Rightarrow> ApplyErr option option" where
  "checkAll f [] = Some None"
| "checkAll f (op # ops) = do { e \<leftarrow> f op; if e \<noteq> None then Some e else checkAll f ops }"

fun runTxn :: "ReadView \<Rightarrow> TxnWrite \<Rightarrow> TxnRequest \<Rightarrow> (TxnWrite \<times> TxnResponse) option"
  and runOps :: "ReadView \<Rightarrow> TxnWrite \<Rightarrow> RequestOp list \<Rightarrow> (TxnWrite \<times> ResponseOp list) option" where
  "runTxn rv tx (TxnRequest cs succ fail) =
     do {
       b \<leftarrow> applyCompares rv cs;
       (tx, rs) \<leftarrow> (if b then runOps rv tx succ else runOps rv tx fail);
       Some (tx, TxnResponse 0 b rs)
     }"
| "runOps rv tx [] = Some (tx, [])"
| "runOps rv tx (RequestTxn t # ops) =
     do { (tx, r) \<leftarrow> runTxn rv tx t; (tx, rs) \<leftarrow> runOps rv tx ops; Some (tx, ResponseTxn r # rs) }"
| "runOps rv tx (op # ops) = do { (r, tx) \<leftarrow> applyOp op tx; (tx, rs) \<leftarrow> runOps rv tx ops; Some (tx, r # rs) }"

definition spec_Txn :: "TxnRequest \<Rightarrow> store \<Rightarrow> ((ApplyErr + TxnResponse) \<times> store) option" where
  "spec_Txn rt s =
     do {
       let rv = txn_Range (txnReadWrite s);
       ops \<leftarrow> chosenTxn rv rt;
       e \<leftarrow> (if isTxnReadonly rt then Some None else checkAll (checkRequestPut (sLessor s) rv) ops);
       if e \<noteq> None then Some (Inl (the e), s)
       else do {
         e \<leftarrow> checkAll (checkRequestRange s) ops;
         if e \<noteq> None then Some (Inl (the e), s)
         else do {
           (tx, resp) \<leftarrow> runTxn rv (if isTxnReadonly rt then txnReadWrite s else txnWrite (store_Write s)) rt;
           Some (Inr (TxnResponse (if txn_Changes tx = [] then txn_Rev tx else txn_Rev tx + 1) (tsSucceeded resp) (tsResponses resp)), txn_End tx)
         }
       }
     }"

section \<open>How paths are consumed\<close>

lemma checkAll_append: "checkAll f (a @ b) = do { e \<leftarrow> checkAll f a; if e \<noteq> None then Some e else checkAll f b }"
  by (induction a) (auto simp: Option.bind_assoc intro!: bind_option_cong split: Option.bind_splits)

lemma path_nonempty: "compareToPath rv t = Some p \<Longrightarrow> p \<noteq> []"
  by (cases t) (auto split: Option.bind_splits)

lemma slice_path:
  assumes "p \<noteq> []"
  shows "slice_from (x # p @ q) 1 = Some (p @ q)" "slice_from (x # p @ q) (length p - 1 + 1) = Some (last p # q)"
proof -
  have "drop (length p) (x # p @ q) = last p # q"
    using assms by (cases p rule: rev_cases) simp_all
  then show "slice_from (x # p @ q) (length p - 1 + 1) = Some (last p # q)" using assms by (simp add: slice_from_def)
qed (simp add: slice_from_def)

lemma chosen_paths:
  "compareToPath rv t = None \<longleftrightarrow> chosenTxn rv t = None"
  "comparePaths rv ops = None \<longleftrightarrow> chosenOps rv ops = None"
proof (induction rv t and rv ops rule: compareToPath_comparePaths.induct)
  case (1 rv cs succ fail)
  then show ?case by (cases "applyCompares rv cs"; cases "comparePaths rv succ"; cases "comparePaths rv fail") auto
next
  case (3 rv t ops)
  then show ?case by (cases "compareToPath rv t"; cases "comparePaths rv ops"; cases "chosenTxn rv t"; cases "chosenOps rv ops") auto
qed (auto split: option.splits)

definition checked :: "ApplyErr option option \<Rightarrow> nat \<Rightarrow> (ApplyErr + nat) option" where
  "checked r n = map_option (\<lambda>e. case e of None \<Rightarrow> Inr n | Some e \<Rightarrow> Inl e) r"

lemma checked_simps [simp]: "checked None n = None" "checked (Some None) n = Some (Inr n)" "checked (Some (Some e)) n = Some (Inl e)"
  by (simp_all add: checked_def)

lemma checkOps_op: "\<forall>t. op \<noteq> RequestTxn t \<Longrightarrow>
    checkOps f (op # ops) path n = do { e \<leftarrow> f op; case e of Some e \<Rightarrow> Some (Inl e) | None \<Rightarrow> checkOps f ops path n }"
  by (cases op) simp_all

lemma check_paths:
  "compareToPath rv t = Some p \<Longrightarrow> chosenTxn rv t = Some ops' \<Longrightarrow> checkRequests f t (p @ q) = checked (checkAll f ops') (length p - 1)"
  "comparePaths rv ops = Some p \<Longrightarrow> chosenOps rv ops = Some ops' \<Longrightarrow> checkOps f ops (x # p @ q) n = checked (checkAll f ops') (n + length p)"
proof (induction rv t and rv ops arbitrary: p ops' q and p ops' x q n rule: compareToPath_comparePaths.induct)
  case (1 rv cs succ fail)
  from "1.prems" obtain b p' where b: "applyCompares rv cs = Some b" "p = b # p'"
    "(if b then comparePaths rv succ else comparePaths rv fail) = Some p'" by (auto split: Option.bind_splits)
  with "1.prems" "1.IH" [OF b(1)] show ?case by (cases b) (auto simp: idx_def)
next
  case (3 rv t ops)
  from "3.prems" obtain p1 p2 o1 o2 where p: "compareToPath rv t = Some p1" "comparePaths rv ops = Some p2" "p = p1 @ p2"
    "chosenTxn rv t = Some o1" "chosenOps rv ops = Some o2" "ops' = o1 @ o2" by (auto split: Option.bind_splits)
  have ne: "p1 \<noteq> []" using path_nonempty [OF p(1)] .
  note s = slice_path [OF ne, of x "p2 @ q"]
  have c1: "checkRequests f t (p1 @ p2 @ q) = checked (checkAll f o1) (length p1 - 1)" by (rule "3.IH"(1) [OF p(1,4)])
  have c2: "checkOps f ops (last p1 # p2 @ q) m = checked (checkAll f o2) (m + length p2)" for m by (rule "3.IH"(2) [OF p(1,2,5)])
  obtain k where len: "length p1 = Suc k" using ne by (cases p1) auto
  show ?case
  proof (cases "checkAll f o1")
    case None
    then show ?thesis using p s c1 by (simp add: checkAll_append len)
  next
    case (Some e)
    then show ?thesis using p s c1 c2 by (cases e) (simp_all add: checkAll_append len add.assoc)
  qed
next
  case (2 rv)
  then show ?case by simp
qed (auto simp: checked_def split: Option.bind_splits option.splits)

lemma response_paths:
  "compareToPath rv t = Some p \<Longrightarrow> \<exists>r. (\<forall>q. newTxnResp t (p @ q) = Some (r, length p - 1)) \<and>
     (\<forall>q tx. applyTxn tx t (p @ q) r = map_option (\<lambda>(tx, r). (tx, r, length p - 1)) (runTxn rv tx t))"
  "comparePaths rv ops = Some p \<Longrightarrow> \<exists>rs. (\<forall>x q n. newResps ops (x # p @ q) n = Some (rs, n + length p)) \<and>
     (\<forall>x q n tx. applyOps tx ops (x # p @ q) rs n = map_option (\<lambda>(tx, rs). (tx, rs, n + length p)) (runOps rv tx ops))"
proof (induction rv t and rv ops arbitrary: p and p rule: compareToPath_comparePaths.induct)
  case (1 rv cs succ fail)
  from "1.prems" obtain b p' where b: "applyCompares rv cs = Some b" "p = b # p'"
    "(if b then comparePaths rv succ else comparePaths rv fail) = Some p'" by (auto split: Option.bind_splits)
  let ?ops = "if b then succ else fail"
  from "1.IH" [OF b(1)] b(3) obtain rs where rs: "\<And>x q n. newResps ?ops (x # p' @ q) n = Some (rs, n + length p')"
    "\<And>x q n tx. applyOps tx ?ops (x # p' @ q) rs n = map_option (\<lambda>(tx, rs). (tx, rs, n + length p')) (runOps rv tx ?ops)"
    by (cases b) auto
  show ?case
  proof (rule exI [of _ "TxnResponse 0 b rs"], intro conjI allI)
    show "newTxnResp (TxnRequest cs succ fail) (p @ q) = Some (TxnResponse 0 b rs, length p - 1)" for q
      using b(2) rs(1) [of b q 0] by (cases b) (simp_all add: idx_def)
    show "applyTxn tx (TxnRequest cs succ fail) (p @ q) (TxnResponse 0 b rs)
        = map_option (\<lambda>(tx, r). (tx, r, length p - 1)) (runTxn rv tx (TxnRequest cs succ fail))" for q tx
      using b(1,2) rs(2) [of tx b q 0] by (cases b; cases "runOps rv tx ?ops") (auto simp: idx_def)
  qed
next
  case (3 rv t ops)
  from "3.prems" obtain p1 p2 where p: "compareToPath rv t = Some p1" "comparePaths rv ops = Some p2" "p = p1 @ p2"
    by (auto split: Option.bind_splits)
  have ne: "p1 \<noteq> []" using path_nonempty [OF p(1)] .
  obtain k where len: "length p1 = Suc k" using ne by (cases p1) auto
  from "3.IH"(1) [OF p(1)] obtain r where r: "\<And>q. newTxnResp t (p1 @ q) = Some (r, length p1 - 1)"
    "\<And>q tx. applyTxn tx t (p1 @ q) r = map_option (\<lambda>(tx, r). (tx, r, length p1 - 1)) (runTxn rv tx t)" by blast
  from "3.IH"(2) [OF p(1,2)] obtain rs where rs: "\<And>x q n. newResps ops (x # p2 @ q) n = Some (rs, n + length p2)"
    "\<And>x q n tx. applyOps tx ops (x # p2 @ q) rs n = map_option (\<lambda>(tx, rs). (tx, rs, n + length p2)) (runOps rv tx ops)" by blast
  show ?case
  proof (rule exI [of _ "ResponseTxn r # rs"], intro conjI allI)
    fix x q n tx
    note s = slice_path [OF ne, of x "p2 @ q"]
    show "newResps (RequestTxn t # ops) (x # p @ q) n = Some (ResponseTxn r # rs, n + length p)"
      using p s r(1) [of "p2 @ q"] rs(1) [of "last p1" q "n + length p1"] by (simp add: len)
    show "applyOps tx (RequestTxn t # ops) (x # p @ q) (ResponseTxn r # rs) n
        = map_option (\<lambda>(tx, rs). (tx, rs, n + length p)) (runOps rv tx (RequestTxn t # ops))"
    proof (cases "runTxn rv tx t")
      case None
      then show ?thesis using p s r(2) [of tx "p2 @ q"] by (simp add: len)
    next
      case (Some tr)
      then obtain tx1 r1 where t: "runTxn rv tx t = Some (tx1, r1)" by (cases tr) auto
      then show ?thesis using p s r(2) [of tx "p2 @ q"] rs(2) [of tx1 "last p1" q "n + length p1"]
        by (cases "runOps rv tx1 ops") (auto simp: len)
    qed
  qed
next
  case (2 rv)
  then show ?case by auto
qed (fastforce simp: applyOp_def same_kind_def split: Option.bind_splits sum.splits)+

text \<open>C38: A transaction with nested transactions, which evaluates all comparisons into a path and reads the
  path in three passes, does what a direct evaluation does: the comparisons see the store before the
  transaction, the ops of the chosen branches are checked in order before any of them runs, then they
  run in order, and each response stands where its request stood. It panics only where that does.\<close>

theorem txn_evaluates_branches:
  "applierV3_Txn rt s = spec_Txn rt s"
proof (cases "compareToPath (txn_Range (txnReadWrite s)) rt")
  case None
  moreover from None have "chosenTxn (txn_Range (txnReadWrite s)) rt = None" using chosen_paths(1) by blast
  ultimately show ?thesis by (simp add: applierV3_Txn_def spec_Txn_def Let_def)
next
  case (Some p)
  let ?rv = "txn_Range (txnReadWrite s)"
  obtain ops where ops: "chosenTxn ?rv rt = Some ops" using Some chosen_paths(1) [of ?rv rt] by auto
  have c: "checkRequests f rt p = checked (checkAll f ops) (length p - 1)" for f
    using check_paths(1) [OF Some ops, of f "[]"] by simp
  obtain r where "\<forall>q. newTxnResp rt (p @ q) = Some (r, length p - 1)"
    "\<forall>q tx. applyTxn tx rt (p @ q) r = map_option (\<lambda>(tx, r). (tx, r, length p - 1)) (runTxn ?rv tx rt)"
    using response_paths(1) [OF Some] by blast
  then have r: "newTxnResp rt p = Some (r, length p - 1)"
    "applyTxn tx rt p r = map_option (\<lambda>(tx, r). (tx, r, length p - 1)) (runTxn ?rv tx rt)" for tx
    by (metis append_Nil2)+
  have run: "do {
      (resp, _) \<leftarrow> newTxnResp rt p;
      (tx, resp, _) \<leftarrow> applyTxn tx0 rt p resp;
      Some (Inr (TxnResponse (if txn_Changes tx \<noteq> [] then txn_Rev tx + 1 else txn_Rev tx) (tsSucceeded resp) (tsResponses resp)), txn_End tx)
    } = do {
      (tx, resp) \<leftarrow> runTxn ?rv tx0 rt;
      Some (Inr (TxnResponse (if txn_Changes tx = [] then txn_Rev tx else txn_Rev tx + 1) (tsSucceeded resp) (tsResponses resp)), txn_End tx)
    }" for tx0
    using r by (cases "runTxn ?rv tx0 rt") auto
  let ?put = "checkAll (checkRequestPut (sLessor s) ?rv) ops" and ?range = "checkAll (checkRequestRange s) ops"
  show ?thesis
    unfolding applierV3_Txn_def spec_Txn_def Let_def Some ops c bind.bind_lunit
    using run by (cases "isTxnReadonly rt"; cases ?put; cases ?range) (auto split: option.splits)
qed

end
