(* ===== verification/ApplyRange.thy ===== *)
theory ApplyRange
  imports ApplyProps StoreProps
begin

text \<open>What the Range request of a client returns, in every run of the store.\<close>

section \<open>Sorting\<close>

lemma mset_sort_insert [simp]: "mset (sort_insert lt x xs) = add_mset x (mset xs)"
  by (induction xs) auto

lemma mset_sort_Sort [simp]: "mset (sort_Sort lt xs) = mset xs"
  by (induction xs) (simp_all add: sort_Sort_def)

lemma set_sort_Sort [simp]: "set (sort_Sort lt xs) = set xs"
  by (metis mset_sort_Sort set_mset_mset)

lemma length_sort_Sort [simp]: "length (sort_Sort lt xs) = length xs"
  by (metis mset_sort_Sort size_mset)









lemma bytes_Compare_less [simp]: "bytes_Compare a b < 0 \<longleftrightarrow> a < b"
  by (simp add: bytes_Compare_def)


section \<open>The records of a store\<close>






section \<open>The response\<close>

definition wanted :: "RangeRequest \<Rightarrow> KeyValue \<Rightarrow> bool" where
  "wanted r kv \<longleftrightarrow> (rqMaxModRevision r \<noteq> 0 \<longrightarrow> kvModRevision kv \<le> rqMaxModRevision r)
     \<and> (rqMinModRevision r \<noteq> 0 \<longrightarrow> rqMinModRevision r \<le> kvModRevision kv)
     \<and> (rqMaxCreateRevision r \<noteq> 0 \<longrightarrow> kvCreateRevision kv \<le> rqMaxCreateRevision r)
     \<and> (rqMinCreateRevision r \<noteq> 0 \<longrightarrow> rqMinCreateRevision r \<le> kvCreateRevision kv)"



definition readable :: "int \<Rightarrow> store \<Rightarrow> bool" where
  "readable r0 s \<longleftrightarrow> r0 \<le> sCurrentRev s \<and> (0 < r0 \<longrightarrow> sCompactMainRev s \<le> r0)"


lemma sortKVs_None:
  "sortKVs order target kvs = None \<longleftrightarrow> sorter target = None \<and> order \<in> {sort_NONE, sort_ASCEND, sort_DESCEND}"
proof -
  have "sorter sort_KEY \<noteq> None" by (simp add: sorter_def)
  then show ?thesis by (auto simp: sortKVs_def Let_def sort_NONE_def sort_ASCEND_def sort_DESCEND_def split: if_splits)
qed

text \<open>The response, from what the store returns.\<close>

lemma pruned_wanted:
  "(let kvs = (if rqMaxModRevision r \<noteq> 0 then pruneKVs (\<lambda>kv. kvModRevision kv > rqMaxModRevision r) kvs else kvs);
        kvs = (if rqMinModRevision r \<noteq> 0 then pruneKVs (\<lambda>kv. kvModRevision kv < rqMinModRevision r) kvs else kvs);
        kvs = (if rqMaxCreateRevision r \<noteq> 0 then pruneKVs (\<lambda>kv. kvCreateRevision kv > rqMaxCreateRevision r) kvs else kvs);
        kvs = (if rqMinCreateRevision r \<noteq> 0 then pruneKVs (\<lambda>kv. kvCreateRevision kv < rqMinCreateRevision r) kvs else kvs)
    in F kvs) = F (filter (wanted r) kvs)"
  by (simp add: wanted_def [abs_def] pruneKVs_def Let_def not_less conj_ac)

definition range_options :: "RangeRequest \<Rightarrow> RangeOptions" where
  "range_options r =
     (let l = (if rqSortOrder r \<noteq> sort_NONE \<or> rqMinModRevision r \<noteq> 0 \<or> rqMaxModRevision r \<noteq> 0
         \<or> rqMinCreateRevision r \<noteq> 0 \<or> rqMaxCreateRevision r \<noteq> 0 then 0 else rqLimit r)
      in \<lparr>roLimit = if l > 0 then int64 (l + 1) else l, roRev = rqRevision r, roCount = rqCountOnly r\<rparr>)"

lemma applierV3_Range_answer:
  assumes "store_Range (rqKey r) (mkGteRange (rqRangeEnd r)) (range_options r) s = Some (\<lparr>rrKVs = kvs, rrRev = cur, rrCount = n\<rparr>, None)"
  shows "applierV3_Range r s = map_option (\<lambda>kvs. Inr \<lparr>rrsRevision = cur,
       rrsKvs = map (\<lambda>kv. if rqKeysOnly r then kv\<lparr>kvValue := []\<rparr> else kv) (if 0 < rqLimit r then take (nat (rqLimit r)) kvs else kvs),
       rrsMore = (0 < rqLimit r \<and> rqLimit r < int (length kvs)), rrsCount = n\<rparr>)
     (sortKVs (rqSortOrder r) (rqSortTarget r) (filter (wanted r) kvs))"
  using assms unfolding applierV3_Range_def apply_Range_def
  by (cases "sortKVs (rqSortOrder r) (rqSortTarget r) (filter (wanted r) kvs)")
     (auto simp: txn_Range_def range_options_def Let_def pruned_wanted [unfolded Let_def])


section \<open>Range requests\<close>



definition wit_request :: RangeRequest where
  "wit_request = \<lparr>rqKey = [97], rqRangeEnd = Some [0], rqLimit = 1, rqRevision = 2, rqSortOrder = sort_DESCEND, rqSortTarget = sort_VALUE,
     rqKeysOnly = False, rqCountOnly = False, rqMinModRevision = 0, rqMaxModRevision = 0, rqMinCreateRevision = 0, rqMaxCreateRevision = 0\<rparr>"

lemma wit_readable: "readable 2 (fst wit_compact)"
proof -
  have "sCurrentRev (fst wit_compact) = 3" "sCompactMainRev (fst wit_compact) = 2" by code_simp+
  then show ?thesis by (simp add: readable_def)
qed


text \<open>C40: In every run, a Range request panics in exactly one case: its revision is readable, its order is
  one of the three known ones and its target is none of the five known ones, so that there is no sorter.
  Nothing that a client can put in any other field does it, and no state of the store.\<close>

theorem range_panics_iff:
  assumes "kv_run H ops ph js" "s = the_store ph"
  shows "applierV3_Range r s = None \<longleftrightarrow>
    readable (rqRevision r) s \<and> sorter (rqSortTarget r) = None \<and> rqSortOrder r \<in> {sort_NONE, sort_ASCEND, sort_DESCEND}"
proof (cases "readable (rqRevision r) s")
  case True
  note inv = kv_invD [OF kv_run_inv [OF assms(1)]]
  have cm: "sCompactMainRev s \<le> sCurrentRev s" using inv(1,5) assms(2) by (simp add: tw_ok_def)
  let ?t = "read_rev (range_options r) (sCurrentRev s)"
  have "?t \<le> sCurrentRev s" "sCompactMainRev s \<le> ?t" using True cm by (auto simp: read_rev_def readable_def range_options_def Let_def)
  from store_Range_history(3) [OF assms this, of "rqKey r" "mkGteRange (rqRangeEnd r)"] obtain ks where
    "store_Range (rqKey r) (mkGteRange (rqRangeEnd r)) (range_options r) s = Some (answer (range_options r) (sCurrentRev s) (state_at H ?t) ks, None)"
    by blast
  from applierV3_Range_answer [OF this [unfolded answer_def]] True show ?thesis by (simp add: sortKVs_None)
next
  case False
  then have "\<exists>res e. store_Range (rqKey r) (mkGteRange (rqRangeEnd r)) (range_options r) s = Some (res, Some e)"
    by (auto simp: store_Range_def rangeKeys_def readable_def range_options_def Let_def)
  then have "applierV3_Range r s \<noteq> None"
    by (auto simp: applierV3_Range_def apply_Range_def txn_Range_def range_options_def Let_def)
  with False show ?thesis by simp
qed

theorem range_panics_iff_witness:
  "applierV3_Range (wit_request\<lparr>rqSortTarget := 9\<rparr>) (fst wit_compact) = None \<and> applierV3_Range wit_request (fst wit_compact) \<noteq> None"
proof -
  have "sorter 9 = None" "sorter (rqSortTarget wit_request) \<noteq> None" "rqSortOrder wit_request = sort_DESCEND" "rqRevision wit_request = 2"
    by (simp_all add: sorter_def wit_request_def sort_KEY_def sort_VERSION_def sort_CREATE_def sort_MOD_def sort_VALUE_def)
  then show ?thesis
    using range_panics_iff [OF wit_sweeping, of "fst wit_compact"] wit_readable by (simp add: store_Write_def)
qed

end
