(* ===== verification/Spec2Isabelle.thy ===== *)
theory Spec2Isabelle
  imports RawNode RaftProps Application ElectionProps WireProps RestartProps LeaseReopen ApplyRange
begin

text \<open>
  A verification development for the core of etcd 3.4.10: the raft library (raft/), which replicates
  a log, with an application that drives it, the multi-version store (mvcc/) with its leases
  (lease/), and how the server applies the requests in the log to it (etcdserver/apply.go).

  \<^bold>\<open>The program.\<close> raft/raft.go holds a single-threaded state machine: \<open>raft.Step\<close> takes one
  message and appends its answers to \<open>r.msgs\<close>. It works on a log (raft/log.go), which joins the
  entries in a Storage (raft/storage.go) to those not yet stored (raft/log_unstable.go), and on a
  tracker (raft/tracker) with the configuration, the votes and the progress of every peer; the
  counting of votes and of acknowledged indexes is in raft/quorum, changes of the configuration are
  in raft/confchange, read requests in raft/read_only.go. RawNode (raft/rawnode.go) wraps the state
  machine: Ready collects what the application has to store, send and apply, Advance tells that
  it has done so. node.go runs a RawNode in a goroutine, and contrib/raftexample/raft.go is an
  application.

  The store (mvcc/kvstore.go, kvstore_txn.go) keeps every change of a key as a record of its own in a
  backend, an ordered map, under a revision: the number of the transaction and the position in it.
  An index in memory (mvcc/index.go, key_index.go) maps a key to its revisions. Compaction
  (mvcc/kvstore_compaction.go) removes what no read at its revision or later can see, first from
  the index, then in batches from the backend, while transactions go on. A restart builds the index
  from the records of the backend.

  The lessor (lease/lessor.go) keeps leases with a time to live and the keys attached to them, which
  the store attaches and detaches as it writes. The lessor of a leader looks for expired leases
  with the help of a heap of deadlines (lease_queue.go) and schedules checkpoints of what remains of
  long ones. Revoking a lease deletes its keys in a transaction of the store.

  The requests of clients are checked on arrival (etcdserver/api/v3rpc/key.go), go through the log and are
  applied on every member (etcdserver/apply.go): Put and DeleteRange as transactions of the store, Txn as
  comparisons on the store before it, which choose the operations of one transaction, and Range, which
  also sorts and filters what the store returns.

  \<^bold>\<open>The theories of the model\<close>, in the order of the imports; each names its Go file and keeps the
  names of its functions.
  \<^item> Prelude: Go's types and panics, words, sets of ids, loops.
  \<^item> Quorum: raft/quorum (majority.go, joint.go).
  \<^item> Raftpb: the records and enums of raft/raftpb with their sizes and helpers; Wire: the protobuf
    codec of the messages that the raft code itself encodes and decodes.
  \<^item> Inflights, Progress, Tracker: raft/tracker. Confchange: raft/confchange.
  \<^item> Storage, Unstable, RaftLog: raft/storage.go, raft/log_unstable.go, raft/log.go.
  \<^item> ReadOnly: raft/read_only.go. Raft: raft/raft.go. RawNode: raft/rawnode.go, bootstrap.go,
    status.go, the Ready of node.go and one round of the select of node.run.
  \<^item> Application: contrib/raftexample/raft.go. Cluster: several nodes with their applications and
    a network, as an inductive step relation.
  \<^item> KeyIndex: mvcc/revision.go, key_index.go. TreeIndex: mvcc/index.go. KvCodec: the codec of
    mvccpb.KeyValue and the bytes of a revision. Backend: mvcc/backend/batch_tx.go, on a bucket as a
    finite map. Store: the transactions and compactions of mvcc/kvstore*.go. Restore: opening a store
    on a backend.
  \<^item> LeaseQueue: lease/lease_queue.go, on the operations of Go's container/heap. LeaseCodec: the codec
    of leasepb.Lease. Float64: the floating-point arithmetic that the lessor uses. Lessor, LeaseRevoke:
    lease/lessor.go.
  \<^item> Apply: the requests for keys and leases in etcdserver/apply.go, with the checks of
    etcdserver/api/v3rpc/key.go.

  \<^bold>\<open>How state and effects correspond.\<close> A struct is a record, an enum a datatype or its int32 value,
  uint64 a 64-bit word that wraps. Methods that change their receiver return it. A panic (an
  explicit one, an index or slice out of range, a nil dereference, log.Fatalf in the application)
  is the value None of an option; a returned error is a value of an error datatype. Function values
  (\<open>r.step\<close>, \<open>r.tick\<close>) are datatypes of the functions they can be. A set of ids is a finite set, and
  loops over a Go map whose order can be seen run in the order that the code sorts into; the others
  are proved or written independent of the order. The global random source is a stream of draws.

  \<^bold>\<open>The theories of the proofs.\<close>
  \<^item> LogView, LogProps: an abstract log (a base and a list of entries), the contract of a reader
    (locale \<open>indexed_log\<close>, interpreted for MemoryStorage and for raftLog) and the refinement of every
    operation of the log.
  \<^item> RaftFrame: what each small operation of the state machine leaves alone, and the shapes of its
    results. RaftRel: the contract \<open>raft_steps\<close>: a relation of raft states that holds of every
    elementary update holds of Step, of a tick and of a configuration change. It is interpreted three
    times: in RaftMono (terms, votes and commit indexes are monotone), in RaftInv (the invariant
    of a node, and committed entries do not change) and in Election (votes).
  \<^item> RaftProps: the properties of a single node. Election, ElectionProps: the properties of a cluster.
  \<^item> WireProps: the round trips of the codecs of raftpb; KvCodec holds those of the store.
  \<^item> KeyHist, KeyView, KeyOps, KeyRead: the history that a key index stands for, and its operations as
    operations on histories. TreeHist: the same for the index of all keys.
  \<^item> StoreView: what a store shows, a map from keys to records for every revision, and Range as a
    query of it. StoreOps, StoreCompact: writes and compaction on these maps, and the end of the loop of
    a compaction. StoreRun: transactions, compactions and the lessor in every order that the locks
    allow, as an inductive relation, against the replay of the committed transactions. StoreProps: the
    properties of the store.
  \<^item> StoreExact, StoreRecover, StoreRestart: what the backend of a reachable store holds, the index that
    the loop of restore builds from it, and that both have the same histories. StoreCrash: what
    a crash within a compaction leaves. RestartProps: the properties of a restart.
  \<^item> LeaseQueueProps: the heap operations, the contract of a queue of deadlines (locale
    \<open>deadline_queue\<close>, interpreted for the notifier), on which LeaseProps (the invariant of the lessor)
    and LeaseExpire (what its searches find) rest. LeaseLink, LeaseRun, LeaseStore: transactions, the
    lessor's steps and revocations keep the lessor and the store linked, in runs that extend those of
    StoreRun. LeaseSpec: the properties of the leases. LeaseReopen: the records of the leases in every
    run of a lessor, and what a lessor opened on them has.
  \<^item> ApplyProps: transactions against a direct evaluation without paths. ApplyRange: Range requests
    against the replayed history.

  \<^bold>\<open>What is shown.\<close> For a cluster: at most one leader per term, and one sender of all that is sent
  in the name of a leader of a term, with lost, repeated and reordered messages, crashes and restarts.
  For a node: the invariant of its roles, timers, configuration, windows and log, which Step, ticks and
  configuration changes keep; the exact rules for votes, for counting votes and for commitment; that
  nothing moves backwards. For the log: acceptance of an append, when it panics, delivery of
  committed entries, and that storing and compacting do not change the log as it is seen. For
  configuration changes: quorums before and after overlap, the configuration invariant, joint and
  direct changes agree, Restore inverts ConfState. For the application: every committed entry is
  published once. For the codecs: what was encoded is decoded. For the store: in every run a
  Range returns what replaying the committed transactions gives, at every revision from the last
  compaction on; its errors are exactly the specified ones; a transaction reads its own writes; a
  compaction ends and changes no allowed read; and a store opened on the backend of another one
  answers as that one did, unless a crash came between the batches of a compaction at the newest
  revision: then, whenever no record of that revision is left, the store goes back to an earlier one. For leases: lessor and store always agree on which keys a lease
  has; revoking a lease deletes exactly these; the search for expired leases finds only such and
  misses none that is due; a lease lives exactly as long as granted. A lessor opened on the backend
  of another has exactly its leases with ids that are not negative, without their remaining TTLs. For
  requests: a transaction does what a direct evaluation of its comparisons and branches does; a Range
  request returns the filtered, sorted and cut part of the history's map, and panics exactly for an
  unknown sort target.

  \<^bold>\<open>Bounds and fuel.\<close> The theorems on words assume that counters have room: \<open>room\<close>, \<open>fits\<close> and
  \<open>roomy\<close> say that the last index and the term are not at the end of the 64-bit range, where the
  code would wrap around; \<open>op_fits\<close> says the same of the revisions and records of the store. The
  loop of a compaction has fuel, and \<open>compaction_ends\<close> shows that one more than the number of records is
  enough; the loop of restore has one more than the number of records too, which
  \<open>restart_restores\<close> shows to be enough, and the loop over due checkpoints the length of their heap,
  of which each round pops an entry. The batches of checkpoints are as many as in the code. There is
  no other fuel. \<open>clock_ok\<close> says that the clock and the retry interval do not overflow, without which
  the search for expired leases (\<open>findExpired\<close>, a \<open>partial_function (option)\<close>) may not end. \<open>sendLoop\<close> (\<open>for r.maybeSendAppend(...)\<close>) and \<open>allEntries\<close> (which
  calls itself again after a compaction) are \<open>partial_function (option)\<close>: None there is a panic or
  divergence. All other loops are recursions that end.

  \<^bold>\<open>What the cluster assumes.\<close> Its applications store a Ready before they send its messages, as the
  example does and as the documentation of Ready asks (etcdserver's leader sends in parallel with its
  write, and its followers after it). Storing a Ready is one step. The set of the configurations in
  force during a run is a parameter, and election safety is stated for runs whose
  configurations have overlapping quorums, which \<open>change_quorums_overlap\<close> shows of every single change.

  \<^bold>\<open>Not modelled.\<close> The channels, contexts and goroutines of node.go beyond which cases of its
  select are enabled; log output and the String and Describe functions; the codecs of the messages
  that the transport and the WAL encode. Of the store, the bbolt database with its
  commits and read buffers, the watchers, the hashes and the consistent index. Of the lessor, the
  goroutine that calls its periodic work and Stop; the clock does not advance within an operation,
  and a revocation is one step. A renewal that goes on after its
  lease was revoked refreshes an object that is no longer in the map, which \<open>renewEnd\<close> is told by an
  argument; ties in an unstable sort are broken by the order before it. Of the requests, the
  check for overlapping puts and deletes of a transaction (\<open>checkIntervals\<close>, which needs the interval tree
  of pkg/adt), quotas, alarms and the permissions of users. A transaction of the model
  reads and writes one store, whose lessor is part of it. The rest of etcd (the server's loops and
  membership, the v2 store, authentication, the WAL and snapshot files, clients, proxies and tools) is not
  part of the development: it is concurrency, network and file I/O, or data that the parts modelled
  here do not read.
\<close>

end
